(* ===== verification/Prelude.thy ===== *)
theory Prelude
  imports Complex_Main "HOL-Library.AList"
begin

text \<open>
  Shared vocabulary of the development.

  \<^item> JavaScript numbers as the data type \<open>jsnum\<close>, with the predicates of \<open>Number\<close> that the
    sources test.
  \<^item> Insertion-ordered JavaScript maps as association lists (\<open>jm_get\<close>, \<open>jm_set\<close>,
    \<open>jm_delete\<close>) and sets as duplicate-free lists (\<open>js_add\<close>, \<open>js_remove\<close>).
  \<^item> An exception-and-state monad \<open>em\<close> for asynchronous methods that read and write fields,
    await collaborators and throw: \<open>ret\<close>, \<open>throw\<close>, \<open>bind\<close>, \<open>catch\<close>.
  \<^item> Two judgements over it, \<open>preserves\<close> and \<open>triple\<close>, whose rules are collected in
    \<open>pres_intros\<close> and \<open>triple_intros\<close> and carry the invariant proofs of the components.
\<close>

named_theorems em_simps \<open>unfolding of the exception-and-state monad\<close>
named_theorems pres_intros \<open>compositional rules for invariant preservation\<close>
named_theorems triple_intros \<open>compositional rules for pre/post specifications\<close>

section \<open>Numbers\<close>

text \<open>
  A JavaScript number is a finite value or one of the three non-finite ones. Finite values are
  kept as exact reals: rounding of IEEE arithmetic is not represented.
\<close>

datatype jsnum = Num real | PosInf | NegInf | NaN

fun isFinite :: "jsnum \<Rightarrow> bool" where
  "isFinite (Num _) = True"
| "isFinite _ = False"

fun isInteger :: "jsnum \<Rightarrow> bool" where
  "isInteger (Num r) = (of_int \<lfloor>r\<rfloor> = r)"
| "isInteger _ = False"

definition MAX_SAFE_INTEGER :: int where
  "MAX_SAFE_INTEGER = 9007199254740991"

definition safe_int :: "int \<Rightarrow> bool" where
  "safe_int n \<longleftrightarrow> \<bar>n\<bar> \<le> MAX_SAFE_INTEGER"

fun isSafeInteger :: "jsnum \<Rightarrow> bool" where
  "isSafeInteger (Num r) = (of_int \<lfloor>r\<rfloor> = r \<and> safe_int \<lfloor>r\<rfloor>)"
| "isSafeInteger _ = False"

text \<open>The relational operators against a finite bound; every comparison with NaN is false.\<close>

text \<open>
  Where arithmetic matters it is that of the reals followed by a rounding to a double, a parameter.
  IEEE 754: the relative error of a result is at most \<open>2 ^ -53\<close>, up to the smallest double, and integers up to
  \<open>2 ^ 53\<close> are exact.
\<close>

definition ieee :: "(real \<Rightarrow> jsnum) \<Rightarrow> bool" where
  "ieee fl \<longleftrightarrow>
     (\<forall>x. \<bar>x\<bar> \<le> 2 ^ 1000 \<longrightarrow> (\<exists>y. fl x = Num y \<and> \<bar>y - x\<bar> \<le> \<bar>x\<bar> / 2 ^ 53 + 1 / 2 ^ 1074)) \<and>
     (\<forall>n :: int. \<bar>n\<bar> \<le> 2 ^ 53 \<longrightarrow> fl (of_int n) = Num (of_int n))"

fun num_ge :: "jsnum \<Rightarrow> real \<Rightarrow> bool" where
  "num_ge (Num r) b = (r \<ge> b)"
| "num_ge PosInf b = True"
| "num_ge NegInf b = False"
| "num_ge NaN b = False"

fun num_le :: "jsnum \<Rightarrow> real \<Rightarrow> bool" where
  "num_le (Num r) b = (r \<le> b)"
| "num_le PosInf b = False"
| "num_le NegInf b = True"
| "num_le NaN b = False"

lemma isSafeInteger_isInteger: "isSafeInteger x \<Longrightarrow> isInteger x"
  by (cases x) auto

lemma isInteger_E:
  assumes "isInteger x"
  obtains n where "x = Num (of_int n)"
proof (cases x)
  case (Num r)
  with assms have "of_int \<lfloor>r\<rfloor> = r" by (simp only: isInteger.simps)
  with Num show thesis by (metis that)
qed (use assms in auto)

section \<open>Insertion-ordered maps and sets\<close>

type_synonym ('k, 'v) jsmap = "('k \<times> 'v) list"

abbreviation jm_get :: "('k, 'v) jsmap \<Rightarrow> 'k \<Rightarrow> 'v option" where
  "jm_get m k \<equiv> map_of m k"

text \<open>
  \<open>Map.prototype.set\<close> keeps the position of a key that is present and appends a new one, which
  is \<open>AList.update\<close>; \<open>delete\<close> is \<open>AList.delete\<close>.
\<close>

abbreviation jm_set :: "('k, 'v) jsmap \<Rightarrow> 'k \<Rightarrow> 'v \<Rightarrow> ('k, 'v) jsmap" where
  "jm_set m k v \<equiv> AList.update k v m"

abbreviation jm_delete :: "('k, 'v) jsmap \<Rightarrow> 'k \<Rightarrow> ('k, 'v) jsmap" where
  "jm_delete m k \<equiv> AList.delete k m"

abbreviation jm_keys :: "('k, 'v) jsmap \<Rightarrow> 'k list" where
  "jm_keys m \<equiv> map fst m"

abbreviation jm_wf :: "('k, 'v) jsmap \<Rightarrow> bool" where
  "jm_wf m \<equiv> distinct (map fst m)"

definition js_add :: "'a \<Rightarrow> 'a list \<Rightarrow> 'a list" where
  "js_add x xs = (if x \<in> set xs then xs else xs @ [x])"

definition js_remove :: "'a \<Rightarrow> 'a list \<Rightarrow> 'a list" where
  "js_remove x xs = filter (\<lambda>y. y \<noteq> x) xs"

lemma set_js_add [simp]: "set (js_add x xs) = insert x (set xs)"
  by (auto simp: js_add_def)

lemma distinct_js_add [simp]: "distinct xs \<Longrightarrow> distinct (js_add x xs)"
  by (simp add: js_add_def)

lemma set_js_remove [simp]: "set (js_remove x xs) = set xs - {x}"
  by (auto simp: js_remove_def)

lemma distinct_js_remove [simp]: "distinct xs \<Longrightarrow> distinct (js_remove x xs)"
  by (simp add: js_remove_def)

lemma jm_get_set [simp]: "jm_get (jm_set m k v) j = (if j = k then Some v else jm_get m j)"
  by (simp add: update_conv)

lemma jm_get_delete [simp]: "jm_get (jm_delete m k) j = (if j = k then None else jm_get m j)"
  by (simp add: delete_conv)

lemma jm_wf_set [simp]: "jm_wf m \<Longrightarrow> jm_wf (jm_set m k v)"
  by (rule distinct_update)

lemma jm_wf_delete [simp]: "jm_wf m \<Longrightarrow> jm_wf (jm_delete m k)"
  by (rule distinct_delete)

lemma jm_keys_delete: "jm_keys (jm_delete m k) = filter (\<lambda>j. j \<noteq> k) (jm_keys m)"
  by (simp add: delete_keys removeAll_filter_not_eq neq_commute)

lemma length_jm_delete_le: "length (jm_delete m k) \<le> length m"
  by (rule length_delete_le)

lemma length_jm_delete_less:
  "k \<in> set (jm_keys m) \<Longrightarrow> length (jm_delete m k) < length m"
proof (induction m)
  case (Cons p m)
  then show ?case
    by (cases p) (fastforce simp: less_Suc_eq_le length_jm_delete_le image_iff)
qed simp

lemma length_jm_delete_eq:
  "jm_wf m \<Longrightarrow> k \<in> set (jm_keys m) \<Longrightarrow> Suc (length (jm_delete m k)) = length m"
proof (induction m)
  case (Cons p m)
  obtain j v where p: "p = (j, v)" by (cases p)
  show ?case
  proof (cases "j = k")
    case True
    with Cons.prems(1) p have "k \<notin> set (jm_keys m)" by auto
    then have "jm_delete m k = m" by (simp add: delete_id)
    with p True show ?thesis by simp
  next
    case False
    with Cons p show ?thesis by auto
  qed
qed simp

lemma length_jm_set:
  "length (jm_set m k v) = (if k \<in> set (jm_keys m) then length m else Suc (length m))"
  by (induction m) auto

lemma jm_set_fresh: "k \<notin> set (jm_keys m) \<Longrightarrow> jm_set m k v = m @ [(k, v)]"
  by (induction m) auto

lemma jm_get_None: "jm_get m k = None \<longleftrightarrow> k \<notin> set (jm_keys m)"
  by (simp add: map_of_eq_None_iff)

lemma jm_get_in: "jm_wf m \<Longrightarrow> jm_get m k = Some v \<longleftrightarrow> (k, v) \<in> set m"
  by (simp add: map_of_eq_Some_iff)

lemma set_jm_delete: "set (jm_delete m k) = {p \<in> set m. fst p \<noteq> k}"
  by (induction m) auto

lemma set_jm_set:
  "jm_wf m \<Longrightarrow> set (jm_set m k v) = insert (k, v) {p \<in> set m. fst p \<noteq> k}"
  by (induction m) (auto simp: image_iff)

section \<open>Lists\<close>

text \<open>\<open>Array.prototype.find\<close> on a list with distinct keys.\<close>

lemma find_distinct:
  assumes "distinct (map f xs)" "x \<in> set xs"
  shows "find (\<lambda>y. f y = f x) xs = Some x"
  using assms by (induction xs) (auto simp: image_iff)

lemma find_None_map: "find (\<lambda>y. f y = k) xs = None \<longleftrightarrow> k \<notin> f ` set xs"
  by (auto simp: find_None_iff)

lemma find_SomeD: "find P xs = Some x \<Longrightarrow> x \<in> set xs \<and> P x"
  by (auto simp: find_Some_iff)

lemma list_all2_same_length: "list_all2 P xs ys \<Longrightarrow> length xs = length ys"
  by (rule list_all2_lengthD)

text \<open>\<open>Array.prototype.sort\<close> with a comparison function: stable insertion.\<close>

fun insert_sorted :: "('a \<Rightarrow> 'a \<Rightarrow> bool) \<Rightarrow> 'a \<Rightarrow> 'a list \<Rightarrow> 'a list" where
  "insert_sorted le x [] = [x]"
| "insert_sorted le x (y # ys) = (if le x y then x # y # ys else y # insert_sorted le x ys)"

definition stable_sort :: "('a \<Rightarrow> 'a \<Rightarrow> bool) \<Rightarrow> 'a list \<Rightarrow> 'a list" where
  "stable_sort le xs = foldr (insert_sorted le) xs []"

section \<open>Exceptions and state\<close>

type_synonym ('s, 'e, 'a) em = "'s \<Rightarrow> ('e + 'a) \<times> 's"

definition ret :: "'a \<Rightarrow> ('s, 'e, 'a) em" where
  [em_simps]: "ret x = (\<lambda>s. (Inr x, s))"

definition throw :: "'e \<Rightarrow> ('s, 'e, 'a) em" where
  [em_simps]: "throw e = (\<lambda>s. (Inl e, s))"

definition bind :: "('s, 'e, 'a) em \<Rightarrow> ('a \<Rightarrow> ('s, 'e, 'b) em) \<Rightarrow> ('s, 'e, 'b) em" where
  "bind m f = (\<lambda>s. case m s of (Inl e, t) \<Rightarrow> (Inl e, t) | (Inr x, t) \<Rightarrow> f x t)"

text \<open>\<open>try { m } catch (e) { h(e) }\<close>.\<close>

definition catch :: "('s, 'e, 'a) em \<Rightarrow> ('e \<Rightarrow> ('s, 'f, 'a) em) \<Rightarrow> ('s, 'f, 'a) em" where
  "catch m h = (\<lambda>s. case m s of (Inl e, t) \<Rightarrow> h e t | (Inr x, t) \<Rightarrow> (Inr x, t))"

text \<open>Run \<open>m\<close> and reify its outcome, so that no exception escapes.\<close>

definition attempt :: "('s, 'e, 'a) em \<Rightarrow> ('s, 'f, 'e + 'a) em" where
  "attempt m = (\<lambda>s. case m s of (r, t) \<Rightarrow> (Inr r, t))"

definition gets :: "('s \<Rightarrow> 'a) \<Rightarrow> ('s, 'e, 'a) em" where
  [em_simps]: "gets f = (\<lambda>s. (Inr (f s), s))"

definition modify :: "('s \<Rightarrow> 's) \<Rightarrow> ('s, 'e, unit) em" where
  [em_simps]: "modify f = (\<lambda>s. (Inr (), f s))"

lemma bind_apply [em_simps]:
  "bind m f s = (case m s of (Inl e, t) \<Rightarrow> (Inl e, t) | (Inr x, t) \<Rightarrow> f x t)"
  by (simp add: bind_def)

lemma catch_apply [em_simps]:
  "catch m h s = (case m s of (Inl e, t) \<Rightarrow> h e t | (Inr x, t) \<Rightarrow> (Inr x, t))"
  by (simp add: catch_def)

lemma attempt_apply [em_simps]: "attempt m s = (case m s of (r, t) \<Rightarrow> (Inr r, t))"
  by (simp add: attempt_def)

lemma bind_ret: "bind (ret x) f = f x"
  by (simp add: fun_eq_iff em_simps)

lemma bind_throw: "bind (throw e) f = throw e"
  by (simp add: fun_eq_iff em_simps)

lemma bind_assoc: "bind (bind m f) g = bind m (\<lambda>x. bind (f x) g)"
  by (auto simp: fun_eq_iff em_simps split: prod.splits sum.splits)

lemma bind_Inr: "bind m f s = (Inr y, u) \<longleftrightarrow> (\<exists>x t. m s = (Inr x, t) \<and> f x t = (Inr y, u))"
  by (auto simp: bind_apply split: prod.splits sum.splits)

lemmas run_simps = bind_Inr ret_def throw_def gets_def modify_def

subsection \<open>Preservation\<close>

definition preserves :: "('s \<Rightarrow> bool) \<Rightarrow> ('s, 'e, 'a) em \<Rightarrow> bool" where
  "preserves I m \<longleftrightarrow> (\<forall>s. I s \<longrightarrow> I (snd (m s)))"

lemma preservesI: "(\<And>s. I s \<Longrightarrow> I (snd (m s))) \<Longrightarrow> preserves I m"
  by (simp add: preserves_def)

lemma preservesD: "preserves I m \<Longrightarrow> I s \<Longrightarrow> I (snd (m s))"
  by (simp add: preserves_def)

lemma preserves_ret [pres_intros]: "preserves I (ret x)"
  by (simp add: preserves_def em_simps)

lemma preserves_throw [pres_intros]: "preserves I (throw e)"
  by (simp add: preserves_def em_simps)

lemma preserves_gets [pres_intros]: "preserves I (gets f)"
  by (simp add: preserves_def em_simps)

lemma preserves_modify: "(\<And>s. I s \<Longrightarrow> I (f s)) \<Longrightarrow> preserves I (modify f)"
  by (simp add: preserves_def em_simps)

lemma preserves_bind [pres_intros]:
  assumes "preserves I m" and "\<And>x. preserves I (f x)"
  shows "preserves I (bind m f)"
proof (rule preservesI)
  fix s
  assume "I s"
  with assms(1) have "I (snd (m s))" by (rule preservesD)
  then show "I (snd (bind m f s))"
    using preservesD [OF assms(2)]
    by (auto simp: em_simps split: prod.splits sum.splits)
qed

lemma preserves_catch [pres_intros]:
  assumes "preserves I m" and "\<And>e. preserves I (h e)"
  shows "preserves I (catch m h)"
proof (rule preservesI)
  fix s
  assume "I s"
  with assms(1) have "I (snd (m s))" by (rule preservesD)
  then show "I (snd (catch m h s))"
    using preservesD [OF assms(2)]
    by (auto simp: em_simps split: prod.splits sum.splits)
qed

lemma preserves_attempt [pres_intros]: "preserves I m \<Longrightarrow> preserves I (attempt m)"
  by (auto simp: preserves_def em_simps split: prod.splits)

lemma preserves_if [pres_intros]:
  "\<lbrakk>b \<Longrightarrow> preserves I m; \<not> b \<Longrightarrow> preserves I n\<rbrakk> \<Longrightarrow> preserves I (if b then m else n)"
  by simp

lemma preserves_case_option [pres_intros]:
  "\<lbrakk>preserves I m; \<And>x. preserves I (f x)\<rbrakk>
   \<Longrightarrow> preserves I (case x of None \<Rightarrow> m | Some y \<Rightarrow> f y)"
  by (cases x) auto

lemma preserves_case_sum [pres_intros]:
  "\<lbrakk>\<And>x. preserves I (f x); \<And>y. preserves I (g y)\<rbrakk>
   \<Longrightarrow> preserves I (case z of Inl x \<Rightarrow> f x | Inr y \<Rightarrow> g y)"
  by (cases z) auto

subsection \<open>Pre- and postconditions\<close>

definition triple ::
  "('s \<Rightarrow> bool) \<Rightarrow> ('s, 'e, 'a) em \<Rightarrow> ('a \<Rightarrow> 's \<Rightarrow> bool) \<Rightarrow> ('e \<Rightarrow> 's \<Rightarrow> bool) \<Rightarrow> bool"
where
  "triple P m Q E \<longleftrightarrow>
     (\<forall>s. P s \<longrightarrow> (case m s of (Inl e, t) \<Rightarrow> E e t | (Inr x, t) \<Rightarrow> Q x t))"

lemma tripleI:
  "(\<And>s r t. \<lbrakk>P s; m s = (r, t)\<rbrakk> \<Longrightarrow> (case r of Inl e \<Rightarrow> E e t | Inr x \<Rightarrow> Q x t))
   \<Longrightarrow> triple P m Q E"
  by (fastforce simp: triple_def split: prod.splits sum.splits)

lemma tripleD_Inr: "\<lbrakk>triple P m Q E; P s; m s = (Inr x, t)\<rbrakk> \<Longrightarrow> Q x t"
  by (fastforce simp: triple_def)

lemma tripleD_Inl: "\<lbrakk>triple P m Q E; P s; m s = (Inl e, t)\<rbrakk> \<Longrightarrow> E e t"
  by (fastforce simp: triple_def)

lemma triple_ret [triple_intros]: "(\<And>s. P s \<Longrightarrow> Q x s) \<Longrightarrow> triple P (ret x) Q E"
  by (simp add: triple_def em_simps)

lemma triple_throw [triple_intros]: "(\<And>s. P s \<Longrightarrow> E e s) \<Longrightarrow> triple P (throw e) Q E"
  by (simp add: triple_def em_simps)

lemma triple_modify: "(\<And>s. P s \<Longrightarrow> Q () (f s)) \<Longrightarrow> triple P (modify f) Q E"
  by (simp add: triple_def em_simps)

lemma triple_gets: "(\<And>s. P s \<Longrightarrow> Q (f s) s) \<Longrightarrow> triple P (gets f) Q E"
  by (simp add: triple_def em_simps)

lemma triple_bind:
  assumes m: "triple P m R E" and f: "\<And>x. triple (R x) (f x) Q E"
  shows "triple P (bind m f) Q E"
proof (rule tripleI)
  fix s r t
  assume P: "P s" and run: "bind m f s = (r, t)"
  obtain r' t' where ms: "m s = (r', t')" by (cases "m s")
  show "case r of Inl e \<Rightarrow> E e t | Inr x \<Rightarrow> Q x t"
  proof (cases r')
    case (Inl e)
    with ms run tripleD_Inl [OF m P] show ?thesis by (auto simp: em_simps)
  next
    case (Inr x)
    with ms have "R x t'" using tripleD_Inr [OF m P] by simp
    with Inr ms run tripleD_Inl [OF f] tripleD_Inr [OF f] show ?thesis
      by (auto simp: em_simps split: sum.splits)
  qed
qed

lemma triple_catch:
  assumes m: "triple P m Q R" and h: "\<And>e. triple (R e) (h e) Q E"
  shows "triple P (catch m h) Q E"
proof (rule tripleI)
  fix s r t
  assume P: "P s" and run: "catch m h s = (r, t)"
  obtain r' t' where ms: "m s = (r', t')" by (cases "m s")
  show "case r of Inl e \<Rightarrow> E e t | Inr x \<Rightarrow> Q x t"
  proof (cases r')
    case (Inr x)
    with ms run tripleD_Inr [OF m P] show ?thesis by (auto simp: em_simps)
  next
    case (Inl e)
    with ms have "R e t'" using tripleD_Inl [OF m P] by simp
    with Inl ms run tripleD_Inl [OF h] tripleD_Inr [OF h] show ?thesis
      by (auto simp: em_simps split: sum.splits)
  qed
qed

lemma triple_attempt:
  assumes "triple P m (\<lambda>x. Q (Inr x)) (\<lambda>e. Q (Inl e))"
  shows "triple P (attempt m) Q E"
  unfolding triple_def
proof (intro allI impI)
  fix s
  assume P: "P s"
  obtain r t where m: "m s = (r, t)" by (cases "m s")
  show "case attempt m s of (Inl e, t) \<Rightarrow> E e t | (Inr x, t) \<Rightarrow> Q x t"
    using m tripleD_Inl [OF assms P] tripleD_Inr [OF assms P] by (cases r) (auto simp: attempt_apply)
qed

lemma triple_if: "(b \<Longrightarrow> triple P m Q E) \<Longrightarrow> (\<not> b \<Longrightarrow> triple P n Q E) \<Longrightarrow> triple P (if b then m else n) Q E"
  by simp

lemma triple_weaken:
  assumes "triple P' m Q' E'" and "\<And>s. P s \<Longrightarrow> P' s"
    and "\<And>x s. Q' x s \<Longrightarrow> Q x s" and "\<And>e s. E' e s \<Longrightarrow> E e s"
  shows "triple P m Q E"
  using assms by (fastforce simp: triple_def split: prod.splits sum.splits)

end
