(* ===== verification/RateLimiter.thy ===== *)
theory RateLimiter
  imports Prelude "HOL-Library.Char_ord" "HOL-Library.List_Lexorder"
begin

text \<open>
  The login rate limiter (\<open>apps/server/src/rate-limiter.ts\<close>): one global token bucket and one
  bucket per client address, at most \<open>maxAddresses\<close> of them, the least recently used evicted first.
  Address parsing (\<open>ipaddr.js\<close>) is the parameter \<open>ip\<close>; every call reads the clock once and
  receives the reading as an argument. Arithmetic is rounded to doubles by the parameter \<open>fl\<close>; an
  overflow, which can only be that of a refill, is an infinity. The main result bounds what an attacker can gain by any mix
  of attempts, address changes and successful logins: the global bucket is never refreshed by them.
\<close>

section \<open>Data\<close>

record BucketConfig =
  capacity :: real
  refillPerSecond :: real

record Bucket =
  tokens :: real
  updatedAt :: real
  usedAt :: nat

record LoginRateLimiter =
  globalConfig :: BucketConfig
  addressConfig :: BucketConfig
  maxAddresses :: nat
  addresses :: "(string, Bucket) jsmap"
  global :: Bucket
  lastNow :: real
  sequence :: nat

section \<open>Operations\<close>

definition validateBucket :: "jsnum \<Rightarrow> jsnum \<Rightarrow> BucketConfig option" where
  "validateBucket cap rate =
     (case cap of
        Num c \<Rightarrow> (case rate of
            Num r \<Rightarrow> if c \<le> 0 \<or> r < 0 then None
                     else Some \<lparr>capacity = c, refillPerSecond = r\<rparr>
          | _ \<Rightarrow> None)
      | _ \<Rightarrow> None)"

text \<open>\<open>#now\<close>: a non-finite reading repeats the last one; time never runs backwards.\<close>

definition advance_now :: "real \<Rightarrow> jsnum \<Rightarrow> real" where
  "advance_now prev c = (case c of Num v \<Rightarrow> max prev v | _ \<Rightarrow> prev)"

definition make_limiter ::
  "jsnum \<Rightarrow> jsnum \<times> jsnum \<Rightarrow> jsnum \<times> jsnum \<Rightarrow> jsnum \<Rightarrow> LoginRateLimiter option"
where
  "make_limiter c g a m =
     (case validateBucket (fst g) (snd g) of
        None \<Rightarrow> None
      | Some gc \<Rightarrow>
          (case validateBucket (fst a) (snd a) of
             None \<Rightarrow> None
           | Some ac \<Rightarrow>
               (case m of
                  Num r \<Rightarrow>
                    if of_int \<lfloor>r\<rfloor> \<noteq> r \<or> r < 1 \<or> r > 1024 then None
                    else Some \<lparr>globalConfig = gc, addressConfig = ac, maxAddresses = nat \<lfloor>r\<rfloor>,
                      addresses = [],
                      global = \<lparr>tokens = capacity gc, updatedAt = advance_now 0 c, usedAt = 0\<rparr>,
                      lastNow = advance_now 0 c, sequence = 0\<rparr>
                | _ \<Rightarrow> None)))"

text \<open>
  \<open>refill\<close>: the operands are never negative, so a result that is not finite is plus infinity, which the
  minimum turns into the capacity.
\<close>

definition rounded :: "(real \<Rightarrow> jsnum) \<Rightarrow> real \<Rightarrow> real option" where
  "rounded fl x = (case fl x of Num y \<Rightarrow> Some y | _ \<Rightarrow> None)"

definition refill :: "(real \<Rightarrow> jsnum) \<Rightarrow> Bucket \<Rightarrow> BucketConfig \<Rightarrow> real \<Rightarrow> Bucket" where
  "refill fl b cfg now =
     (let refilled = Option.bind (rounded fl (now - updatedAt b)) (\<lambda>difference.
                     Option.bind (rounded fl (max 0 difference / 1000)) (\<lambda>seconds.
                     Option.bind (rounded fl (seconds * refillPerSecond cfg)) (\<lambda>gain.
                     rounded fl (tokens b + gain))))
      in b\<lparr>tokens := (case refilled of None \<Rightarrow> capacity cfg | Some t \<Rightarrow> min (capacity cfg) t), updatedAt := now\<rparr>)"

text \<open>\<open>tokens -= 1\<close>, done only when there is at least one token.\<close>

definition spend :: "(real \<Rightarrow> jsnum) \<Rightarrow> Bucket \<Rightarrow> Bucket" where
  "spend fl b = b\<lparr>tokens := (case rounded fl (tokens b - 1) of None \<Rightarrow> tokens b | Some t \<Rightarrow> t)\<rparr>"

definition normalizeAddress :: "(string \<Rightarrow> string option) \<Rightarrow> string \<Rightarrow> string" where
  "normalizeAddress ip a =
     (if length a > 256 then ''unknown''
      else case ip a of None \<Rightarrow> ''unknown'' | Some s \<Rightarrow> s)"

text \<open>The selection loop of \<open>#evictOldest\<close>.\<close>

fun selectOldest ::
  "(string \<times> Bucket) option \<Rightarrow> (string, Bucket) jsmap \<Rightarrow> (string \<times> Bucket) option"
where
  "selectOldest selected [] = selected"
| "selectOldest selected (e # es) =
     selectOldest
       (case selected of
          None \<Rightarrow> Some e
        | Some s \<Rightarrow>
            if usedAt (snd e) < usedAt (snd s) \<or>
               (usedAt (snd e) = usedAt (snd s) \<and> fst e < fst s)
            then Some e else Some s) es"

definition evictOldest :: "(string, Bucket) jsmap \<Rightarrow> (string, Bucket) jsmap" where
  "evictOldest m =
     (case selectOldest None m of None \<Rightarrow> m | Some e \<Rightarrow> jm_delete m (fst e))"

text \<open>
  The first half of \<open>consume\<close>: the address's bucket, created (after an eviction when the table is
  full) if there is none, with the updated table and sequence number.
\<close>

definition pickBucket ::
  "LoginRateLimiter \<Rightarrow> real \<Rightarrow> string \<Rightarrow> Bucket \<times> (string, Bucket) jsmap \<times> nat"
where
  "pickBucket l now key =
     (case jm_get (addresses l) key of
        Some b \<Rightarrow> (b, addresses l, sequence l)
      | None \<Rightarrow>
          (let m = (if length (addresses l) \<ge> maxAddresses l
                    then evictOldest (addresses l) else addresses l);
               b = \<lparr>tokens = capacity (addressConfig l), updatedAt = now,
                    usedAt = Suc (sequence l)\<rparr>
           in (b, jm_set m key b, Suc (sequence l))))"

definition consume ::
  "(real \<Rightarrow> jsnum) \<Rightarrow> (string \<Rightarrow> string option) \<Rightarrow> LoginRateLimiter \<Rightarrow> jsnum \<Rightarrow> string \<Rightarrow> bool \<times> LoginRateLimiter"
where
  "consume fl ip l c a =
     (let now = advance_now (lastNow l) c;
          key = normalizeAddress ip a;
          (found, as, sq) = pickBucket l now key;
          g = refill fl (global l) (globalConfig l) now;
          b' = (refill fl found (addressConfig l) now)\<lparr>usedAt := Suc sq\<rparr>
      in if tokens g < 1 \<or> tokens b' < 1
         then (False, l\<lparr>addresses := jm_set as key b', global := g, lastNow := now,
                        sequence := Suc sq\<rparr>)
         else (True, l\<lparr>addresses := jm_set as key (spend fl b'),
                       global := spend fl g, lastNow := now,
                       sequence := Suc sq\<rparr>))"

definition resetAddress ::
  "(string \<Rightarrow> string option) \<Rightarrow> LoginRateLimiter \<Rightarrow> string \<Rightarrow> LoginRateLimiter"
where
  "resetAddress ip l a = l\<lparr>addresses := jm_delete (addresses l) (normalizeAddress ip a)\<rparr>"

definition trackedAddressCount :: "LoginRateLimiter \<Rightarrow> nat" where
  "trackedAddressCount l = length (addresses l)"

text \<open>Histories of calls, with the clock reading each \<open>consume\<close> sees.\<close>

datatype limiter_call = Consume jsnum string | Reset string

fun run_limiter ::
  "(real \<Rightarrow> jsnum) \<Rightarrow> (string \<Rightarrow> string option) \<Rightarrow> LoginRateLimiter \<Rightarrow> limiter_call list \<Rightarrow> nat \<times> LoginRateLimiter"
where
  "run_limiter fl ip l [] = (0, l)"
| "run_limiter fl ip l (Consume c a # cs) =
     (let (ok, l') = consume fl ip l c a; (n, l'') = run_limiter fl ip l' cs
      in (if ok then Suc n else n, l''))"
| "run_limiter fl ip l (Reset a # cs) = run_limiter fl ip (resetAddress ip l a) cs"

section \<open>Invariant\<close>

definition bucket_ok :: "BucketConfig \<Rightarrow> Bucket \<Rightarrow> bool" where
  "bucket_ok cfg b \<longleftrightarrow> 0 \<le> tokens b \<and> tokens b \<le> capacity cfg"

text \<open>A valid configuration, whose capacity is a double.\<close>

definition config_ok :: "(real \<Rightarrow> jsnum) \<Rightarrow> BucketConfig \<Rightarrow> bool" where
  "config_ok fl cfg \<longleftrightarrow> 0 < capacity cfg \<and> 0 \<le> refillPerSecond cfg \<and> fl (capacity cfg) = Num (capacity cfg)"

text \<open>Rounding keeps the order of numbers, besides keeping them close.\<close>

definition rounding :: "(real \<Rightarrow> jsnum) \<Rightarrow> bool" where
  "rounding fl \<longleftrightarrow> ieee fl \<and> (\<forall>x y a b. x \<le> y \<longrightarrow> fl x = Num a \<longrightarrow> fl y = Num b \<longrightarrow> a \<le> b)"

definition limiter_inv :: "(real \<Rightarrow> jsnum) \<Rightarrow> LoginRateLimiter \<Rightarrow> bool" where
  "limiter_inv fl l \<longleftrightarrow>
     config_ok fl (globalConfig l) \<and> config_ok fl (addressConfig l) \<and> 1 \<le> maxAddresses l \<and>
     maxAddresses l \<le> 1024 \<and> jm_wf (addresses l) \<and> length (addresses l) \<le> maxAddresses l \<and>
     bucket_ok (globalConfig l) (global l) \<and> 0 \<le> updatedAt (global l) \<and> updatedAt (global l) \<le> lastNow l \<and>
     (\<forall>e \<in> set (addresses l).
        bucket_ok (addressConfig l) (snd e) \<and> usedAt (snd e) \<le> sequence l)"

lemma advance_now_mono: "prev \<le> advance_now prev c"
  by (simp add: advance_now_def split: jsnum.splits)

lemma rounded_nonneg:
  assumes "rounding fl" "0 \<le> x" "rounded fl x = Some y"
  shows "0 \<le> y"
proof -
  have "fl 0 = Num 0" using assms(1) unfolding rounding_def ieee_def by (metis abs_zero of_int_0 zero_le_numeral zero_le_power)
  moreover have "fl x = Num y" using assms(3) by (simp add: rounded_def split: jsnum.splits)
  ultimately show ?thesis using assms(1,2) unfolding rounding_def by blast
qed

lemma rounded_le:
  assumes "rounding fl" "x \<le> c" "fl c = Num c" "rounded fl x = Some y"
  shows "y \<le> c"
proof -
  have "fl x = Num y" using assms(4) by (simp add: rounded_def split: jsnum.splits)
  with assms(1-3) show ?thesis unfolding rounding_def by blast
qed

lemma refill_ok:
  assumes "rounding fl" "config_ok fl cfg" "bucket_ok cfg b"
  shows "bucket_ok cfg (refill fl b cfg now)"
proof -
  have "0 \<le> t" if "rounded fl (now - updatedAt b) = Some d" "rounded fl (max 0 d / 1000) = Some x"
    "rounded fl (x * refillPerSecond cfg) = Some q" "rounded fl (tokens b + q) = Some t" for d x q t
  proof -
    have "0 \<le> x" by (rule rounded_nonneg [OF assms(1) _ that(2)]) simp
    then have "0 \<le> q" by (intro rounded_nonneg [OF assms(1) _ that(3)]) (use assms(2) in \<open>simp add: config_ok_def\<close>)
    then show ?thesis by (intro rounded_nonneg [OF assms(1) _ that(4)]) (use assms(3) in \<open>simp add: bucket_ok_def\<close>)
  qed
  then show ?thesis using assms(2)
    by (auto simp: bucket_ok_def config_ok_def refill_def Let_def split: option.split Option.bind_split)
qed

lemma spend_ok:
  assumes "rounding fl" "config_ok fl cfg" "bucket_ok cfg b" "1 \<le> tokens b"
  shows "bucket_ok cfg (spend fl b)"
proof -
  have "0 \<le> t \<and> t \<le> capacity cfg" if "rounded fl (tokens b - 1) = Some t" for t
    using rounded_nonneg [OF assms(1) _ that] rounded_le [OF assms(1) _ _ that, of "capacity cfg"] assms(2-4)
    by (simp add: config_ok_def bucket_ok_def)
  then show ?thesis using assms(3) by (auto simp: spend_def bucket_ok_def split: option.split)
qed

text \<open>Numbers far from overflow.\<close>

definition moderate :: "real \<Rightarrow> bool" where
  "moderate x \<longleftrightarrow> x \<le> 2 ^ 400"

lemma rounded_near:
  assumes "rounding fl" "0 \<le> x" "x \<le> 2 ^ 1000"
  obtains y where "rounded fl x = Some y" "y \<le> x + x / 2 ^ 53 + 1 / 2 ^ 1074" "0 \<le> y"
proof -
  have "\<bar>x\<bar> \<le> 2 ^ 1000" using assms(2,3) by (simp only: abs_of_nonneg)
  moreover have "ieee fl" using assms(1) by (simp add: rounding_def)
  ultimately obtain y where y: "fl x = Num y" "\<bar>y - x\<bar> \<le> \<bar>x\<bar> / 2 ^ 53 + 1 / 2 ^ 1074"
    unfolding ieee_def by blast
  then have "rounded fl x = Some y" by (simp add: rounded_def)
  moreover from this have "0 \<le> y" by (rule rounded_nonneg [OF assms(1,2)])
  moreover have "y \<le> x + x / 2 ^ 53 + 1 / 2 ^ 1074" using y(2) assms(2) by linarith
  ultimately show thesis using that by blast
qed

text \<open>Three roundings add less than one part in \<open>2 ^ 51\<close> to what elapsed time is worth.\<close>

lemma gain_le:
  fixes p r :: real
  assumes fl: "rounding fl" and p: "0 \<le> p" "moderate p" and r: "0 \<le> r" "moderate r"
  obtains d x q where "rounded fl p = Some d" "rounded fl (max 0 d / 1000) = Some x" "rounded fl (x * r) = Some q"
    "0 \<le> q" "q \<le> (1 + 1 / 2 ^ 51) * (p / 1000 * r) + 1 / 2 ^ 60" "q \<le> 2 ^ 900"
proof -
  define u :: real where "u = 1 / 2 ^ 53"
  define v :: real where "v = 1 / 2 ^ 1074"
  have uv: "0 \<le> u" "u \<le> 1" "0 \<le> v" "v \<le> 1" by (simp_all add: u_def v_def)
  have big: "(2::real) ^ 400 \<le> 2 ^ 1000" "(2::real) ^ 402 \<le> 2 ^ 1000" "(2::real) ^ 804 \<le> 2 ^ 1000" "(2::real) ^ 805 \<le> 2 ^ 900"
    by (rule power_increasing; simp)+
  have pr: "p \<le> 2 ^ 400" "r \<le> 2 ^ 400" using p r by (simp_all add: moderate_def)
  obtain d where d: "rounded fl p = Some d" "d \<le> p + p * u + v" "0 \<le> d"
    using rounded_near [OF fl p(1), of thesis] pr(1) big(1) by (auto simp: u_def v_def)
  have pu: "p * u \<le> p" using mult_left_mono [OF uv(2) p(1)] by simp
  have d2: "d \<le> 2 * p + 1" using d(2) pu uv(4) by linarith
  then have d3: "d \<le> 2 ^ 402" using pr(1) by simp
  obtain x where x: "rounded fl (d / 1000) = Some x" "x \<le> d / 1000 + d / 1000 * u + v" "0 \<le> x"
    using rounded_near [OF fl, of "d / 1000" thesis] d(3) d3 big(2) by (auto simp: u_def v_def)
  have du: "d / 1000 * u \<le> d / 1000" using mult_left_mono [OF uv(2), of "d / 1000"] d(3) by simp
  have x2: "x \<le> 2 ^ 402" using x(2) du uv(4) d3 d2 pr(1) by simp
  have xr: "0 \<le> x * r" "x * r \<le> 2 ^ 802"
    using x(3) r(1) mult_mono [OF x2 pr(2)] by (simp_all add: power_add [symmetric])
  obtain q where q: "rounded fl (x * r) = Some q" "q \<le> x * r + x * r * u + v" "0 \<le> q"
    using rounded_near [OF fl xr(1), of thesis] xr(2) big(3) by (auto simp: u_def v_def)
  have xu: "x * r * u \<le> x * r" using mult_left_mono [OF uv(2) xr(1)] by simp
  have q2: "q \<le> 2 ^ 900" using q(2) xu uv(4) xr(2) big(4) by simp
  let ?w = "1 + u"
  have dw: "d \<le> p * ?w + v" using d(2) by (simp add: algebra_simps)
  have xw: "x \<le> p / 1000 * ?w ^ 2 + 2 * v"
  proof -
    have "x \<le> d / 1000 * ?w + v" using x(2) by (simp add: algebra_simps add_divide_distrib)
    also have "\<dots> \<le> (p * ?w + v) / 1000 * ?w + v"
      using dw uv by (intro add_right_mono mult_right_mono divide_right_mono) auto
    also have "\<dots> = p / 1000 * ?w ^ 2 + v * (?w / 1000) + v" by (simp add: field_simps power2_eq_square)
    also have "v * (?w / 1000) \<le> v * 1" using uv by (intro mult_left_mono) auto
    finally show ?thesis by simp
  qed
  have "q \<le> x * (r * ?w) + v" using q(2) by (simp add: algebra_simps)
  also have "\<dots> \<le> (p / 1000 * ?w ^ 2 + 2 * v) * (r * ?w) + v"
    using xw uv r(1) by (intro add_right_mono mult_right_mono) auto
  also have "\<dots> = p / 1000 * r * ?w ^ 3 + 2 * v * r * ?w + v"
    by (simp add: algebra_simps power2_eq_square power3_eq_cube)
  also have "p / 1000 * r * ?w ^ 3 \<le> p / 1000 * r * (1 + 1 / 2 ^ 51)"
    using p(1) r(1) by (intro mult_left_mono) (simp_all add: u_def power3_eq_cube)
  also have "2 * v * r * ?w \<le> 2 * v * 2 ^ 400 * 2"
    using uv pr(2) r(1) by (intro mult_mono) auto
  also have "2 * v * 2 ^ 400 * 2 = 1 / 2 ^ 672" by (simp add: v_def)
  also have "p / 1000 * r * (1 + 1 / 2 ^ 51) + 1 / 2 ^ 672 + v \<le> p / 1000 * r * (1 + 1 / 2 ^ 51) + 1 / 2 ^ 60"
    by (simp add: v_def)
  finally have "q \<le> (1 + 1 / 2 ^ 51) * (p / 1000 * r) + 1 / 2 ^ 60" by (simp add: mult.commute)
  moreover have "max 0 d = d" using d(3) by simp
  ultimately show thesis using that [OF d(1) _ q(1) q(3) _ q2] x(1) by simp
qed

text \<open>What a refill and a spent token may add by rounding.\<close>

definition slack :: "BucketConfig \<Rightarrow> real" where
  "slack cfg = (capacity cfg + 1) / 2 ^ 53"

lemma sum_slack:
  assumes "rounding fl" "0 \<le> x" "0 < capacity cfg" "moderate (capacity cfg)" "rounded fl x = Some t"
  shows "min (capacity cfg) t \<le> x + capacity cfg / 2 ^ 53 + 1 / 2 ^ 1074"
proof (cases "x \<le> capacity cfg")
  case True
  have "(2::real) ^ 400 \<le> 2 ^ 1000" by (rule power_increasing) simp_all
  with True assms(4) have "x \<le> 2 ^ 1000" by (simp add: moderate_def)
  then obtain y where "rounded fl x = Some y" "y \<le> x + x / 2 ^ 53 + 1 / 2 ^ 1074"
    by (rule rounded_near [OF assms(1,2)])
  moreover have "x / 2 ^ 53 \<le> capacity cfg / 2 ^ 53" using True by (simp add: divide_right_mono)
  ultimately show ?thesis using assms(5) by auto
next
  case False
  moreover have "0 \<le> capacity cfg / 2 ^ 53" "0 \<le> (1::real) / 2 ^ 1074" using assms(3) by simp_all
  ultimately show ?thesis by linarith
qed

lemma refill_tokens_le:
  assumes fl: "rounding fl" and cfg: "config_ok fl cfg" "moderate (capacity cfg)" "moderate (refillPerSecond cfg)"
    and b: "bucket_ok cfg b" and t: "updatedAt b \<le> now" "moderate (now - updatedAt b)"
  shows "tokens (refill fl b cfg now) \<le>
    tokens b + (1 + 1 / 2 ^ 51) * ((now - updatedAt b) / 1000 * refillPerSecond cfg) + slack cfg"
proof -
  have r: "0 \<le> refillPerSecond cfg" "0 < capacity cfg" "0 \<le> tokens b" "tokens b \<le> capacity cfg"
    using cfg(1) b by (simp_all add: config_ok_def bucket_ok_def)
  have p: "0 \<le> now - updatedAt b" using t(1) by simp
  obtain d x q where q: "rounded fl (now - updatedAt b) = Some d" "rounded fl (max 0 d / 1000) = Some x"
    "rounded fl (x * refillPerSecond cfg) = Some q" "0 \<le> q"
    "q \<le> (1 + 1 / 2 ^ 51) * ((now - updatedAt b) / 1000 * refillPerSecond cfg) + 1 / 2 ^ 60" "q \<le> 2 ^ 900"
    by (rule gain_le [OF fl p t(2) r(1) cfg(3)])
  have "(2::real) ^ 400 + 2 ^ 900 \<le> 2 ^ 1000" by simp
  with r(4) cfg(2) q(6) have "tokens b + q \<le> 2 ^ 1000" unfolding moderate_def by linarith
  then obtain s where s: "rounded fl (tokens b + q) = Some s"
    using rounded_near [OF fl, of "tokens b + q" thesis] r(3) q(4) by auto
  have "min (capacity cfg) s \<le> tokens b + q + capacity cfg / 2 ^ 53 + 1 / 2 ^ 1074"
    by (rule sum_slack [OF fl _ r(2) cfg(2) s]) (use r(3) q(4) in simp)
  moreover have "(1::real) / 2 ^ 60 + 1 / 2 ^ 1074 \<le> 1 / 2 ^ 53" by simp
  moreover have "tokens (refill fl b cfg now) = min (capacity cfg) s" using q(1-3) s by (simp add: refill_def)
  ultimately show ?thesis using q(5) by (simp add: slack_def add_divide_distrib)
qed

lemma spend_tokens_le:
  assumes "rounding fl" "config_ok fl cfg" "moderate (capacity cfg)" "bucket_ok cfg b" "1 \<le> tokens b"
  shows "tokens (spend fl b) \<le> tokens b - 1 + slack cfg"
proof -
  have c: "0 < capacity cfg" "tokens b - 1 \<le> capacity cfg" using assms(2,4) by (simp_all add: config_ok_def bucket_ok_def)
  have "(2::real) ^ 400 \<le> 2 ^ 1000" by (rule power_increasing) simp_all
  then obtain t where t: "rounded fl (tokens b - 1) = Some t"
    using rounded_near [OF assms(1), of "tokens b - 1" thesis] assms(3,5) c(2) by (auto simp: moderate_def)
  have "t \<le> capacity cfg" using rounded_le [OF assms(1) c(2) _ t] assms(2) by (simp add: config_ok_def)
  moreover have "min (capacity cfg) t \<le> tokens b - 1 + capacity cfg / 2 ^ 53 + 1 / 2 ^ 1074"
    by (rule sum_slack [OF assms(1) _ c(1) assms(3) t]) (use assms(5) in simp)
  moreover have "(1::real) / 2 ^ 1074 \<le> 1 / 2 ^ 53" by simp
  ultimately show ?thesis using t by (simp add: spend_def slack_def add_divide_distrib)
qed

lemma refill_updatedAt [simp]: "updatedAt (refill fl b cfg now) = now"
  by (simp add: refill_def Let_def)

lemma selectOldest_mem:
  "selectOldest s m = Some e \<Longrightarrow> e \<in> set m \<or> s = Some e"
proof (induction s m rule: selectOldest.induct)
  case (2 s a m)
  from "2.IH" "2.prems" show ?case by (auto split: option.splits if_splits)
qed auto

lemma selectOldest_le:
  "selectOldest s m = Some e \<Longrightarrow> x \<in> set m \<or> s = Some x \<Longrightarrow> usedAt (snd e) \<le> usedAt (snd x)"
proof (induction s m arbitrary: x rule: selectOldest.induct)
  case (2 s a m)
  let ?s' = "case s of None \<Rightarrow> Some a
        | Some s \<Rightarrow> if usedAt (snd a) < usedAt (snd s) \<or>
               (usedAt (snd a) = usedAt (snd s) \<and> fst a < fst s) then Some a else Some s"
  from "2.prems"(1) have sel: "selectOldest ?s' m = Some e" by simp
  obtain y where y: "?s' = Some y" "usedAt (snd y) \<le> usedAt (snd a)"
    "\<And>z. s = Some z \<Longrightarrow> usedAt (snd y) \<le> usedAt (snd z)"
  proof (cases s)
    case None
    then show thesis by (intro that [of a]) simp_all
  next
    case (Some z)
    then show thesis
      by (intro that [of "if usedAt (snd a) < usedAt (snd z) \<or>
          (usedAt (snd a) = usedAt (snd z) \<and> fst a < fst z) then a else z"]) auto
  qed
  from "2.IH" [OF sel] y(1) have "usedAt (snd e) \<le> usedAt (snd y)" by blast
  with "2.IH" [OF sel] "2.prems"(2) y show ?case by fastforce
qed auto

lemma selectOldest_Some: "m \<noteq> [] \<or> s \<noteq> None \<Longrightarrow> \<exists>e. selectOldest s m = Some e"
proof (induction s m rule: selectOldest.induct)
  case (2 s a m)
  then show ?case by (simp split: option.split)
qed auto

lemma evictOldest_shrinks:
  assumes "m \<noteq> []"
  shows "length (evictOldest m) < length m"
proof -
  from assms obtain e where e: "selectOldest None m = Some e" using selectOldest_Some by blast
  then have "e \<in> set m" by (auto dest: selectOldest_mem)
  then have "fst e \<in> set (jm_keys m)" by simp
  with e show ?thesis by (simp add: evictOldest_def length_jm_delete_less)
qed

lemma evictOldest_subset: "set (evictOldest m) \<subseteq> set m"
  by (auto simp: evictOldest_def set_jm_delete split: option.splits)

lemma evictOldest_wf: "jm_wf m \<Longrightarrow> jm_wf (evictOldest m)"
  by (simp add: evictOldest_def split: option.split)

text \<open>The address table after the first half: one entry is the chosen bucket, all are in bounds.\<close>

definition table_ok :: "LoginRateLimiter \<Rightarrow> (string, Bucket) jsmap \<Rightarrow> nat \<Rightarrow> bool" where
  "table_ok l as sq \<longleftrightarrow>
     jm_wf as \<and> length as \<le> maxAddresses l \<and>
     (\<forall>e \<in> set as. bucket_ok (addressConfig l) (snd e) \<and> usedAt (snd e) \<le> sq)"

lemma limiter_inv_table: "limiter_inv fl l \<Longrightarrow> table_ok l (addresses l) (sequence l)"
  by (simp add: limiter_inv_def table_ok_def)

lemma table_ok_set:
  assumes "table_ok l as sq" "bucket_ok (addressConfig l) v" "usedAt v \<le> sq'" "sq \<le> sq'"
    and "key \<in> set (jm_keys as) \<or> length as < maxAddresses l"
  shows "table_ok l (jm_set as key v) sq'"
  using assms by (auto simp: table_ok_def set_jm_set length_jm_set)

lemma evicted_table:
  assumes "limiter_inv fl l" "length (addresses l) \<ge> maxAddresses l"
  shows "table_ok l (evictOldest (addresses l)) (sequence l) \<and>
    length (evictOldest (addresses l)) < maxAddresses l"
proof -
  from assms have "addresses l \<noteq> []" "length (addresses l) \<le> maxAddresses l"
    by (auto simp: limiter_inv_def)
  then have "length (evictOldest (addresses l)) < maxAddresses l"
    using evictOldest_shrinks [of "addresses l"] by simp
  with limiter_inv_table [OF assms(1)] evictOldest_subset [of "addresses l"] show ?thesis
    by (auto simp: table_ok_def evictOldest_wf)
qed

lemma pickBucket_ok:
  assumes inv: "limiter_inv fl l" and pick: "pickBucket l now key = (b, as, sq)"
  shows "table_ok l as sq \<and> key \<in> set (jm_keys as) \<and> bucket_ok (addressConfig l) b"
proof (cases "jm_get (addresses l) key")
  case (Some v)
  then have "b = v" "as = addresses l" "sq = sequence l"
    using pick by (auto simp: pickBucket_def)
  moreover from Some have "(key, v) \<in> set (addresses l)" by (rule map_of_SomeD)
  ultimately show ?thesis
    using limiter_inv_table [OF inv] by (force simp: table_ok_def image_iff)
next
  case None
  define m where
    "m = (if length (addresses l) \<ge> maxAddresses l then evictOldest (addresses l) else addresses l)"
  from None pick have b: "b = \<lparr>tokens = capacity (addressConfig l), updatedAt = now,
        usedAt = Suc (sequence l)\<rparr>"
    and as: "as = jm_set m key b" and sq: "sq = Suc (sequence l)"
    by (auto simp: pickBucket_def m_def Let_def)
  have "table_ok l m (sequence l) \<and> length m < maxAddresses l"
    using evicted_table [OF inv] limiter_inv_table [OF inv] by (simp add: m_def)
  moreover have bok: "bucket_ok (addressConfig l) b"
    using inv by (simp add: b bucket_ok_def config_ok_def limiter_inv_def)
  ultimately have "table_ok l as sq"
    unfolding as by (intro table_ok_set [of l m "sequence l"]) (simp_all add: b sq)
  moreover have "key \<in> set (jm_keys as)"
    by (metis as jm_get_None jm_get_set option.distinct(1))
  ultimately show ?thesis using bok by simp
qed

text \<open>What \<open>consume\<close> does to the components it writes.\<close>

lemma consume_frame:
  assumes "consume fl ip l c a = (ok, l')"
  shows "globalConfig l' = globalConfig l" and "addressConfig l' = addressConfig l"
    and "maxAddresses l' = maxAddresses l" and "lastNow l' = advance_now (lastNow l) c"
    and "global l' = (if ok then spend fl else id) (refill fl (global l) (globalConfig l) (lastNow l'))"
    and "ok \<Longrightarrow> 1 \<le> tokens (refill fl (global l) (globalConfig l) (lastNow l'))"
  using assms by (auto simp: consume_def Let_def split: prod.splits if_splits)

lemma consume_table:
  assumes fl: "rounding fl" and inv: "limiter_inv fl l" and run: "consume fl ip l c a = (ok, l')"
  shows "table_ok l (addresses l') (sequence l')"
proof -
  define now where "now = advance_now (lastNow l) c"
  define key where "key = normalizeAddress ip a"
  obtain b as sq where p: "pickBucket l now key = (b, as, sq)" by (cases "pickBucket l now key")
  define b' where "b' = (refill fl b (addressConfig l) now)\<lparr>usedAt := Suc sq\<rparr>"
  note pk = pickBucket_ok [OF inv p]
  have "bucket_ok (addressConfig l) (refill fl b (addressConfig l) now)"
    using pk inv by (intro refill_ok [OF fl]) (simp_all add: limiter_inv_def)
  then have "bucket_ok (addressConfig l) b'" by (simp add: b'_def bucket_ok_def)
  moreover have "usedAt b' = Suc sq" by (simp add: b'_def)
  moreover have "sequence l' = Suc sq \<and>
      (addresses l' = jm_set as key b' \<or>
       1 \<le> tokens b' \<and> addresses l' = jm_set as key (spend fl b'))"
    using run p
    by (auto simp: consume_def Let_def now_def key_def b'_def split: prod.splits if_splits)
  moreover have "bucket_ok (addressConfig l) (spend fl b')" if "1 \<le> tokens b'" "bucket_ok (addressConfig l) b'"
    by (rule spend_ok [OF fl _ that(2,1)]) (use inv in \<open>simp add: limiter_inv_def\<close>)
  moreover have "usedAt (spend fl b') = usedAt b'" by (simp add: spend_def)
  ultimately show ?thesis
    using pk table_ok_set [of l as sq b' "Suc sq" key] table_ok_set [of l as sq "spend fl b'" "Suc sq" key]
    by auto
qed

lemma consume_inv:
  assumes fl: "rounding fl" and inv: "limiter_inv fl l" and run: "consume fl ip l c a = (ok, l')"
  shows "limiter_inv fl l'"
proof -
  note fr = consume_frame [OF run]
  let ?g = "refill fl (global l) (globalConfig l) (lastNow l')"
  have cfg: "config_ok fl (globalConfig l)" using inv by (simp add: limiter_inv_def)
  have g: "bucket_ok (globalConfig l) ?g"
    using inv by (intro refill_ok [OF fl]) (simp_all add: limiter_inv_def)
  have "bucket_ok (globalConfig l) (global l')"
    using g fr(5,6) spend_ok [OF fl cfg g] by (cases ok) simp_all
  moreover have "updatedAt (global l') = lastNow l'" using fr(5) by (simp add: spend_def)
  moreover have "0 \<le> lastNow l'"
    using inv fr(4) advance_now_mono [of "lastNow l" c] by (simp add: limiter_inv_def)
  moreover have "table_ok l (addresses l') (sequence l')" by (rule consume_table [OF fl inv run])
  ultimately show ?thesis
    using inv fr(1-3) by (simp add: limiter_inv_def table_ok_def)
qed

lemma resetAddress_inv: "limiter_inv fl l \<Longrightarrow> limiter_inv fl (resetAddress ip l a)"
  using length_jm_delete_le [of "normalizeAddress ip a" "addresses l"]
  by (auto simp: limiter_inv_def resetAddress_def set_jm_delete)

text \<open>The configured capacities are doubles.\<close>

definition doubles_in :: "(real \<Rightarrow> jsnum) \<Rightarrow> LoginRateLimiter \<Rightarrow> bool" where
  "doubles_in fl l \<longleftrightarrow> fl (capacity (globalConfig l)) = Num (capacity (globalConfig l)) \<and>
     fl (capacity (addressConfig l)) = Num (capacity (addressConfig l))"

lemma make_limiter_inv: "make_limiter c g a m = Some l \<Longrightarrow> doubles_in fl l \<Longrightarrow> limiter_inv fl l"
  by (auto simp: make_limiter_def limiter_inv_def validateBucket_def config_ok_def bucket_ok_def doubles_in_def advance_now_def
      le_nat_iff le_floor_iff nat_le_iff floor_le_iff split: option.splits jsnum.splits if_splits)

lemma run_limiter_inv: "rounding fl \<Longrightarrow> limiter_inv fl l \<Longrightarrow> limiter_inv fl (snd (run_limiter fl ip l cs))"
proof (induction fl ip l cs rule: run_limiter.induct)
  case (2 fl ip l c a cs)
  obtain ok l' where r: "consume fl ip l c a = (ok, l')" by (cases "consume fl ip l c a")
  from consume_inv [OF "2.prems" r] have "limiter_inv fl (snd (run_limiter fl ip l' cs))"
    by (rule "2.IH" [OF r [symmetric] refl "2.prems"(1)])
  then show ?case by (simp add: r case_prod_beta)
qed (simp_all add: resetAddress_inv)

lemma run_limiter_clock: "lastNow l \<le> lastNow (snd (run_limiter fl ip l cs))"
proof (induction fl ip l cs rule: run_limiter.induct)
  case (2 fl ip l c a cs)
  obtain ok l' where r: "consume fl ip l c a = (ok, l')" by (cases "consume fl ip l c a")
  with "2.IH" [OF r [symmetric] refl] consume_frame(4) [OF r] advance_now_mono [of "lastNow l" c] show ?case
    by (simp add: case_prod_beta)
qed (simp_all add: resetAddress_def)

text \<open>A token spent or refilled: one step of the accounting.\<close>

lemma consume_budget:
  assumes fl: "rounding fl" and inv: "limiter_inv fl l" and run: "consume fl ip l c a = (ok, l')"
    and m: "moderate (capacity (globalConfig l))" "moderate (refillPerSecond (globalConfig l))" "moderate (lastNow l')"
  shows "(if ok then 1 else 0) + tokens (global l') \<le> tokens (global l) +
     (1 + 1 / 2 ^ 51) * ((updatedAt (global l') - updatedAt (global l)) / 1000 * refillPerSecond (globalConfig l)) +
     2 * slack (globalConfig l)" "updatedAt (global l') = lastNow l'"
proof -
  note fr = consume_frame [OF run]
  let ?g = "refill fl (global l) (globalConfig l) (lastNow l')"
  have cfg: "config_ok fl (globalConfig l)" and b: "bucket_ok (globalConfig l) (global l)"
    and now: "updatedAt (global l) \<le> lastNow l'" "moderate (lastNow l' - updatedAt (global l))"
    using inv fr(4) advance_now_mono [of "lastNow l" c] m(3) by (simp_all add: limiter_inv_def moderate_def)
  show u: "updatedAt (global l') = lastNow l'" using fr(5) by (simp add: spend_def)
  have pos: "0 \<le> slack (globalConfig l)" using cfg by (simp add: slack_def config_ok_def)
  have g: "bucket_ok (globalConfig l) ?g" by (rule refill_ok [OF fl cfg b])
  have "(if ok then 1 else 0) + tokens (global l') \<le> tokens ?g + slack (globalConfig l)"
    using spend_tokens_le [OF fl cfg m(1) g] fr(5,6) pos by (cases ok) simp_all
  with refill_tokens_le [OF fl cfg m(1,2) b now] show "(if ok then 1 else 0) + tokens (global l') \<le> tokens (global l) +
     (1 + 1 / 2 ^ 51) * ((updatedAt (global l') - updatedAt (global l)) / 1000 * refillPerSecond (globalConfig l)) +
     2 * slack (globalConfig l)" unfolding u by linarith
qed

text \<open>
  The accounting argument: tokens spent plus tokens left never exceed tokens held plus what
  elapsed time can have refilled, up to the roundings of each call.
\<close>

lemma run_limiter_budget:
  "rounding fl \<Longrightarrow> limiter_inv fl l \<Longrightarrow> run_limiter fl ip l cs = (n, l') \<Longrightarrow>
   moderate (capacity (globalConfig l)) \<Longrightarrow> moderate (refillPerSecond (globalConfig l)) \<Longrightarrow> moderate (lastNow l') \<Longrightarrow>
   real n + tokens (global l') \<le> tokens (global l) +
     (1 + 1 / 2 ^ 51) * ((updatedAt (global l') - updatedAt (global l)) / 1000 * refillPerSecond (globalConfig l)) +
     real (length cs) * (2 * slack (globalConfig l))"
proof (induction fl ip l cs arbitrary: n l' rule: run_limiter.induct)
  case (1 fl ip l)
  then show ?case by simp
next
  case (3 fl ip l a cs)
  from "3.prems"(3) have "run_limiter fl ip (resetAddress ip l a) cs = (n, l')" by simp
  from "3.IH" [OF "3.prems"(1) resetAddress_inv [OF "3.prems"(2)] this] "3.prems"(4-6)
  have "real n + tokens (global l') \<le> tokens (global l) +
     (1 + 1 / 2 ^ 51) * ((updatedAt (global l') - updatedAt (global l)) / 1000 * refillPerSecond (globalConfig l)) +
     real (length cs) * (2 * slack (globalConfig l))"
    by (simp add: resetAddress_def)
  moreover have "0 \<le> slack (globalConfig l)" using "3.prems"(2) by (simp add: slack_def limiter_inv_def config_ok_def)
  ultimately show ?case by (simp add: distrib_right)
next
  case (2 fl ip l c a cs)
  obtain ok l1 where r: "consume fl ip l c a = (ok, l1)" by (cases "consume fl ip l c a")
  obtain k l2 where r2: "run_limiter fl ip l1 cs = (k, l2)" by (cases "run_limiter fl ip l1 cs")
  have res: "n = (if ok then Suc k else k)" "l' = l2" using "2.prems"(3) r r2 by auto
  have m: "moderate (lastNow l1)"
    using run_limiter_clock [of l1 fl ip cs] r2 "2.prems"(6) by (simp add: res moderate_def)
  note fr = consume_frame(1) [OF r]
  note st = consume_budget [OF "2.prems"(1,2) r "2.prems"(4,5) m]
  have ih: "real k + tokens (global l2) \<le> tokens (global l1) +
     (1 + 1 / 2 ^ 51) * ((updatedAt (global l2) - updatedAt (global l1)) / 1000 * refillPerSecond (globalConfig l)) +
     real (length cs) * (2 * slack (globalConfig l))"
    using "2.IH" [OF r [symmetric] refl "2.prems"(1) consume_inv [OF "2.prems"(1,2) r] r2] "2.prems"(4-6) fr
    by (simp add: res)
  have "(updatedAt (global l1) - updatedAt (global l)) / 1000 * refillPerSecond (globalConfig l) +
      (updatedAt (global l2) - updatedAt (global l1)) / 1000 * refillPerSecond (globalConfig l) =
      (updatedAt (global l2) - updatedAt (global l)) / 1000 * refillPerSecond (globalConfig l)"
    by (simp add: field_simps)
  then have "(1 + 1 / 2 ^ 51) * ((updatedAt (global l1) - updatedAt (global l)) / 1000 * refillPerSecond (globalConfig l)) +
      (1 + 1 / 2 ^ 51) * ((updatedAt (global l2) - updatedAt (global l1)) / 1000 * refillPerSecond (globalConfig l)) =
      (1 + 1 / 2 ^ 51) * ((updatedAt (global l2) - updatedAt (global l)) / 1000 * refillPerSecond (globalConfig l))"
    by (simp only: distrib_left [symmetric])
  moreover have "real n = (if ok then 1 else 0) + real k" by (simp add: res(1))
  moreover have "real (length (Consume c a # cs)) * (2 * slack (globalConfig l)) =
      2 * slack (globalConfig l) + real (length cs) * (2 * slack (globalConfig l))" by (simp add: distrib_right)
  ultimately show ?case using st(1) ih unfolding res(2) by linarith
qed

section \<open>Properties\<close>

text \<open>
  C21. Whatever sequence of login attempts (from any addresses, at any clock readings) and
  address resets is made, the number of attempts let through is at most the global capacity plus the
  global refill over the elapsed time. Rotating addresses or logging in successfully does not
  refresh the global budget. The numbers are doubles: rounding may add one part in \<open>2 ^ 51\<close> to the
  refill, and for each call one part in \<open>2 ^ 52\<close> of the capacity and of a token. The configuration
  and the clock stay below \<open>2 ^ 400\<close>.
\<close>

theorem global_login_budget:
  assumes "rounding fl" and "make_limiter c g a m = Some l" and "doubles_in fl l" and "run_limiter fl ip l cs = (n, l')"
    and "moderate (capacity (globalConfig l))" and "moderate (refillPerSecond (globalConfig l))" and "moderate (lastNow l')"
  shows "real n \<le> capacity (globalConfig l) +
     (1 + 1 / 2 ^ 51) * ((lastNow l' - lastNow l) / 1000 * refillPerSecond (globalConfig l)) +
     real (length cs) * ((capacity (globalConfig l) + 1) / 2 ^ 52)"
proof -
  have inv: "limiter_inv fl l" by (rule make_limiter_inv [OF assms(2,3)])
  from assms(2) have start: "tokens (global l) = capacity (globalConfig l)" "updatedAt (global l) = lastNow l"
    by (auto simp: make_limiter_def split: option.splits jsnum.splits if_splits)
  have inv': "limiter_inv fl l'" using run_limiter_inv [OF assms(1) inv, of ip cs] assms(4) by simp
  have upd: "updatedAt (global l') \<le> lastNow l'" and pos: "0 \<le> tokens (global l')"
    using inv' by (auto simp: limiter_inv_def bucket_ok_def)
  have rate: "0 \<le> refillPerSecond (globalConfig l)"
    using inv by (simp add: limiter_inv_def config_ok_def)
  have "(1 + 1 / 2 ^ 51) * ((updatedAt (global l') - lastNow l) / 1000 * refillPerSecond (globalConfig l)) \<le>
      (1 + 1 / 2 ^ 51) * ((lastNow l' - lastNow l) / 1000 * refillPerSecond (globalConfig l))"
    using upd by (intro mult_left_mono mult_right_mono [OF _ rate]) simp_all
  moreover have "2 * slack (globalConfig l) = (capacity (globalConfig l) + 1) / 2 ^ 52" by (simp add: slack_def)
  ultimately show ?thesis using run_limiter_budget [OF assms(1) inv assms(4-7)] pos unfolding start
    by (simp only:)
qed

definition example_limiter :: LoginRateLimiter where
  "example_limiter = \<lparr>globalConfig = \<lparr>capacity = 2, refillPerSecond = 1\<rparr>,
     addressConfig = \<lparr>capacity = 1, refillPerSecond = 1\<rparr>, maxAddresses = 2, addresses = [],
     global = \<lparr>tokens = 2, updatedAt = 5, usedAt = 0\<rparr>, lastNow = 5, sequence = 0\<rparr>"

lemma example_limiter_made:
  "make_limiter (Num 5) (Num 2, Num 1) (Num 1, Num 1) (Num 2) = Some example_limiter" "rounding Num" "doubles_in Num example_limiter"
  by (simp_all add: make_limiter_def validateBucket_def example_limiter_def advance_now_def rounding_def ieee_def doubles_in_def)

theorem global_login_budget_witness:
  "fst (run_limiter Num Some example_limiter
      [Consume (Num 5) ''a'', Consume (Num 5) ''b'', Reset ''a'', Consume (Num 5) ''a'']) = 2 \<and>
   real (fst (run_limiter Num Some example_limiter
      [Consume (Num 5) ''a'', Consume (Num 5) ''b'', Reset ''a'', Consume (Num 5) ''a''])) \<le> 2 + 4 * (3 / 2 ^ 52)"
proof -
  let ?cs = "[Consume (Num 5) ''a'', Consume (Num 5) ''b'', Reset ''a'', Consume (Num 5) ''a'']"
  have r: "fst (run_limiter Num Some example_limiter ?cs) = 2" "lastNow (snd (run_limiter Num Some example_limiter ?cs)) = 5"
    by (simp_all add: example_limiter_def consume_def pickBucket_def advance_now_def normalizeAddress_def
        refill_def spend_def rounded_def resetAddress_def Let_def)
  have c: "globalConfig example_limiter = \<lparr>capacity = 2, refillPerSecond = 1\<rparr>" "lastNow example_limiter = 5"
    by (simp_all add: example_limiter_def)
  have "real (fst (run_limiter Num Some example_limiter ?cs)) \<le> 2 + 4 * (3 / 2 ^ 52)"
    using global_login_budget [OF example_limiter_made(2,1,3) surjective_pairing [of "run_limiter Num Some example_limiter ?cs"]]
    unfolding r(2) by (simp add: c moderate_def)
  with r(1) show ?thesis by blast
qed

text \<open>
  The limiter's memory is bounded and its buckets stay within their capacity: after any history
  of calls at most \<open>maxAddresses\<close> (itself at most 1024) addresses are tracked, and every bucket
  holds between zero and its configured capacity of tokens.
\<close>

theorem limiter_bounded:
  assumes "rounding fl" and "make_limiter c g a m = Some l" and "doubles_in fl l"
  shows "limiter_inv fl (snd (run_limiter fl ip l cs)) \<and>
    trackedAddressCount (snd (run_limiter fl ip l cs)) \<le> maxAddresses (snd (run_limiter fl ip l cs)) \<and>
    maxAddresses (snd (run_limiter fl ip l cs)) \<le> 1024"
  using run_limiter_inv [OF assms(1) make_limiter_inv [OF assms(2,3)], of ip cs]
  by (simp add: limiter_inv_def trackedAddressCount_def)

theorem limiter_bounded_witness:
  "trackedAddressCount (snd (run_limiter Num Some example_limiter
      [Consume (Num 5) ''a'', Consume (Num 6) ''b'', Consume (Num 7) ''c'']))
    \<le> maxAddresses (snd (run_limiter Num Some example_limiter
      [Consume (Num 5) ''a'', Consume (Num 6) ''b'', Consume (Num 7) ''c'']))"
  using limiter_bounded [OF example_limiter_made(2,1,3)] by blast

end
