(* ===== verification/SessionId.thy ===== *)
theory SessionId
  imports Prelude
begin

text \<open>
  Tab identifiers (\<open>packages/shared/src/tabs.ts\<close>) and the tmux session names derived from them
  (\<open>apps/server/src/tmux.ts\<close>). A regular expression anchored at both ends is a list of character
  classes, matched position by position. The main fact is that naming and listing are inverse: the
  line tmux prints for a tab's session is read back as that tab's identifier.
\<close>

section \<open>Identifiers\<close>

definition hex_class :: "char \<Rightarrow> bool" where
  "hex_class c \<longleftrightarrow> c \<in> set ''0123456789abcdef''"

definition version_class :: "char \<Rightarrow> bool" where
  "version_class c \<longleftrightarrow> c \<in> set ''12345678''"

definition variant_class :: "char \<Rightarrow> bool" where
  "variant_class c \<longleftrightarrow> c \<in> set ''89ab''"

definition dash_class :: "char \<Rightarrow> bool" where
  "dash_class c \<longleftrightarrow> c = CHR ''-''"

definition TAB_ID_PATTERN :: "(char \<Rightarrow> bool) list" where
  "TAB_ID_PATTERN =
     replicate 8 hex_class @ [dash_class] @ replicate 4 hex_class @ [dash_class] @
     version_class # replicate 3 hex_class @ [dash_class] @
     variant_class # replicate 3 hex_class @ [dash_class] @ replicate 12 hex_class"

definition matches :: "(char \<Rightarrow> bool) list \<Rightarrow> string \<Rightarrow> bool" where
  "matches ps s \<longleftrightarrow> list_all2 (\<lambda>p c. p c) ps s"

definition isSessionId :: "string \<Rightarrow> bool" where
  "isSessionId s \<longleftrightarrow> matches TAB_ID_PATTERN s"

section \<open>Session names\<close>

datatype tmux_error = InvalidSession | InvalidRuntimeSettings | TmuxCommandFailed

definition compact_id :: "string \<Rightarrow> string" where
  "compact_id s = filter (\<lambda>c. c \<noteq> CHR ''-'') s"

definition APP_SESSION_PREFIX :: string where
  "APP_SESSION_PREFIX = ''webterm-tab-''"

definition tmuxSessionName :: "string \<Rightarrow> tmux_error + string" where
  "tmuxSessionName sessionId =
     (if isSessionId sessionId then Inr (APP_SESSION_PREFIX @ compact_id sessionId)
      else Inl InvalidSession)"

definition tmuxBuildSessionName :: "string option \<Rightarrow> tmux_error + string" where
  \<comment> \<open>The argument is the outcome of the random source: \<open>None\<close> when it throws.\<close>
  "tmuxBuildSessionName buildId =
     (case buildId of
        None \<Rightarrow> Inl InvalidSession
      | Some b \<Rightarrow>
          if isSessionId b then Inr (''webterm-build-'' @ compact_id b) else Inl InvalidSession)"

text \<open>\<open>APP_SESSION_NAME.exec(line)\<close>: the captured group, when the whole line matches.\<close>

definition app_session_name :: "string \<Rightarrow> string option" where
  "app_session_name l =
     (if take 12 l = APP_SESSION_PREFIX \<and> matches (replicate 32 hex_class) (drop 12 l)
      then Some (drop 12 l) else None)"

definition expand_compact :: "string \<Rightarrow> string" where
  "expand_compact c =
     take 8 c @ ''-'' @ take 4 (drop 8 c) @ ''-'' @ take 4 (drop 12 c) @ ''-'' @
     take 4 (drop 16 c) @ ''-'' @ drop 20 c"

text \<open>The loop body of \<open>listActiveSessionIds\<close> for one line of output.\<close>

definition session_of_line :: "string \<Rightarrow> string option" where
  "session_of_line l =
     (case app_session_name l of
        None \<Rightarrow> None
      | Some c \<Rightarrow> if isSessionId (expand_compact c) then Some (expand_compact c) else None)"

section \<open>Facts\<close>

lemma matches_append:
  "matches (ps @ qs) s \<longleftrightarrow> (\<exists>a b. s = a @ b \<and> matches ps a \<and> matches qs b)"
proof
  assume "matches (ps @ qs) s"
  then show "\<exists>a b. s = a @ b \<and> matches ps a \<and> matches qs b"
    unfolding matches_def list_all2_append1 by blast
next
  assume "\<exists>a b. s = a @ b \<and> matches ps a \<and> matches qs b"
  then show "matches (ps @ qs) s"
    unfolding matches_def by (blast intro: list_all2_appendI)
qed

lemma matches_Cons: "matches (p # ps) s \<longleftrightarrow> (\<exists>c t. s = c # t \<and> p c \<and> matches ps t)"
  by (cases s) (auto simp: matches_def)

lemma matches_Nil: "matches [] s \<longleftrightarrow> s = []"
  by (auto simp: matches_def)

lemma matches_replicate: "matches (replicate n p) s \<longleftrightarrow> length s = n \<and> list_all p s"
proof (induction n arbitrary: s)
  case (Suc n)
  show ?case
    by (cases s) (auto simp: matches_Cons Suc.IH)
qed (auto simp: matches_Nil)

lemmas matches_rules = matches_append matches_Cons matches_Nil matches_replicate

lemma version_hex: "version_class c \<Longrightarrow> hex_class c"
  by (auto simp: version_class_def hex_class_def)

lemma variant_hex: "variant_class c \<Longrightarrow> hex_class c"
  by (auto simp: variant_class_def hex_class_def)

lemma hex_not_dash: "hex_class c \<Longrightarrow> c \<noteq> CHR ''-''"
  by (auto simp: hex_class_def)

lemma compact_hex: "list_all hex_class s \<Longrightarrow> compact_id s = s"
  by (induction s) (auto simp: compact_id_def dest: hex_not_dash)

lemma compact_append: "compact_id (a @ b) = compact_id a @ compact_id b"
  by (simp add: compact_id_def)

lemma compact_dash: "compact_id (CHR ''-'' # s) = compact_id s"
  by (simp add: compact_id_def)

text \<open>The five groups of an identifier.\<close>

lemma isSessionId_groups:
  assumes "isSessionId s"
  obtains a b c d e where
    "s = a @ ''-'' @ b @ ''-'' @ c @ ''-'' @ d @ ''-'' @ e"
    "length a = 8" "length b = 4" "length c = 4" "length d = 4" "length e = 12"
    "list_all hex_class a" "list_all hex_class b" "list_all hex_class c"
    "list_all hex_class d" "list_all hex_class e"
proof -
  from assms obtain a b v c w d e where s:
    "s = a @ ''-'' @ b @ ''-'' @ (v # c) @ ''-'' @ (w # d) @ ''-'' @ e"
    and l: "length a = 8" "length b = 4" "length c = 3" "length d = 3" "length e = 12"
    and h: "list_all hex_class a" "list_all hex_class b" "list_all hex_class c"
      "list_all hex_class d" "list_all hex_class e"
    and vw: "version_class v" "variant_class w"
    unfolding isSessionId_def TAB_ID_PATTERN_def matches_rules dash_class_def by fastforce
  from vw h have "list_all hex_class (v # c)" "list_all hex_class (w # d)"
    by (simp_all add: version_hex variant_hex)
  with s l h show thesis by (intro that [of a b "v # c" "w # d" e]) simp_all
qed

lemma isSessionId_length: "isSessionId s \<Longrightarrow> length s = 36"
  by (erule isSessionId_groups) simp

lemma compact_id_groups:
  assumes "isSessionId s"
  shows "length (compact_id s) = 32 \<and> list_all hex_class (compact_id s)
    \<and> expand_compact (compact_id s) = s"
proof -
  from assms obtain a b c d e where s: "s = a @ ''-'' @ b @ ''-'' @ c @ ''-'' @ d @ ''-'' @ e"
    and l: "length a = 8" "length b = 4" "length c = 4" "length d = 4" "length e = 12"
    and h: "list_all hex_class a" "list_all hex_class b" "list_all hex_class c"
      "list_all hex_class d" "list_all hex_class e"
    by (rule isSessionId_groups)
  from s h have "compact_id s = a @ b @ c @ d @ e"
    by (simp add: compact_append compact_dash compact_hex)
  with s l h show ?thesis by (simp add: expand_compact_def)
qed

lemma length_app_prefix: "length APP_SESSION_PREFIX = 12"
  by (simp add: APP_SESSION_PREFIX_def)

lemma session_of_line_name:
  "isSessionId s \<Longrightarrow> session_of_line (APP_SESSION_PREFIX @ compact_id s) = Some s"
  using compact_id_groups [of s]
  by (simp add: session_of_line_def app_session_name_def matches_replicate length_app_prefix)

lemma session_of_line_valid: "session_of_line l = Some s \<Longrightarrow> isSessionId s"
  by (auto simp: session_of_line_def split: option.splits if_splits)

lemma expand_compact_inverse:
  assumes "matches (replicate 32 hex_class) c"
  shows "compact_id (expand_compact c) = c"
proof -
  from assms have h: "list_all hex_class c" by (simp add: matches_replicate)
  have "list_all hex_class (take n c)" "list_all hex_class (drop n c)" for n
    using h by (auto simp: list_all_iff dest: in_set_takeD in_set_dropD)
  moreover have "list_all hex_class (take m (drop n c))" for m n
    using h by (auto simp: list_all_iff dest: in_set_takeD in_set_dropD)
  ultimately have "compact_id (expand_compact c) =
      take 8 c @ take 4 (drop 8 c) @ take 4 (drop 12 c) @ take 4 (drop 16 c) @ drop 20 c"
    by (simp add: expand_compact_def compact_append compact_dash compact_hex)
  also have "\<dots> = c"
  proof -
    have step: "take m (drop n c) @ drop (n + m) c = drop n c" for m n
      by (metis add.commute append_take_drop_id drop_drop)
    show ?thesis
      using step [of 4 16] step [of 4 12] step [of 4 8] by simp
  qed
  finally show ?thesis .
qed

lemma session_of_line_sound:
  assumes "session_of_line l = Some s"
  shows "tmuxSessionName s = Inr l"
proof -
  from assms obtain c where c: "app_session_name l = Some c" "s = expand_compact c"
    "isSessionId (expand_compact c)"
    by (auto simp: session_of_line_def split: option.splits if_splits)
  then have l: "take 12 l = APP_SESSION_PREFIX" "c = drop 12 l" "matches (replicate 32 hex_class) c"
    by (auto simp: app_session_name_def split: if_splits)
  then have "l = APP_SESSION_PREFIX @ c" by (metis append_take_drop_id)
  moreover have "compact_id s = c"
    using c(2) l(3) by (simp only: expand_compact_inverse)
  ultimately show ?thesis
    using c(2,3) by (simp only: tmuxSessionName_def if_True)
qed

section \<open>Properties\<close>

text \<open>
  Naming a tab's tmux session and reading \<open>tmux list-sessions\<close> are inverse: a line is read as
  tab \<open>s\<close> exactly when it is the session name of \<open>s\<close>. So two tabs never share a session name, and
  no foreign session is taken for a tab.
\<close>

theorem session_line_roundtrip:
  "session_of_line l = Some s \<longleftrightarrow> tmuxSessionName s = Inr l"
proof
  assume "session_of_line l = Some s"
  then show "tmuxSessionName s = Inr l" by (rule session_of_line_sound)
next
  assume "tmuxSessionName s = Inr l"
  then show "session_of_line l = Some s"
    by (auto simp: tmuxSessionName_def session_of_line_name split: if_splits)
qed

end
