(* ===== verification/Origin.thy ===== *)
theory Origin
  imports SessionId
begin

text \<open>
  The admission test of a WebSocket upgrade (\<open>apps/server/src/origin.ts\<close>): the request must carry
  exactly one \<open>Origin\<close> header, equal to the one Node reports and of the configured origin, and its
  URL must be the session path of a well-formed tab identifier. Header values are Latin-1 strings
  as Node delivers them, so a \<open>char\<close> is one JavaScript character. The URL parser of the platform
  is the parameter \<open>parse\<close>.
\<close>

section \<open>Data\<close>

record URL =
  protocol :: string
  username :: string
  password :: string
  pathname :: string
  search :: string
  hash :: string
  origin :: string

record UpgradeRequest =
  req_origin :: "string option"
  rawHeaders :: "string list option"
  requestUrl :: "string option"

record UpgradeAuthorizationOptions =
  publicOrigin :: string
  basePath :: string

datatype UpgradeAuthorization = Allowed string | Denied nat

section \<open>Operations\<close>

definition route_prefix :: "string \<Rightarrow> string" where
  "route_prefix base = (if base = ''/'' then '''' else base) @ ''/ws/sessions/''"

definition websocketSessionPath :: "string \<Rightarrow> string \<Rightarrow> string" where
  "websocketSessionPath base sessionId = route_prefix base @ sessionId"

text \<open>\<open>Buffer.byteLength\<close> of a Latin-1 string, encoded in UTF-8.\<close>

definition byteLength :: "string \<Rightarrow> nat" where
  "byteLength s = sum_list (map (\<lambda>c. if of_char c < (128::nat) then 1 else 2) s)"

definition toLowerChar :: "char \<Rightarrow> char" where
  "toLowerChar c =
     (let n = of_char c :: nat
      in if 65 \<le> n \<and> n \<le> 90 then char_of (n + 32) else c)"

text \<open>
  Only ASCII letters matter for the comparison with \<open>origin\<close>: no other Latin-1 character has an
  ASCII lower-case form.
\<close>

definition toLowerCase :: "string \<Rightarrow> string" where
  "toLowerCase = map toLowerChar"

text \<open>The loop of \<open>exactRawOrigin\<close> over name/value pairs.\<close>

fun collect_origins :: "nat \<Rightarrow> string list \<Rightarrow> string list \<Rightarrow> string list option" where
  "collect_origins totalBytes acc (name # val # rest) =
     (let totalBytes' = totalBytes + byteLength name + byteLength val
      in if totalBytes' > 16 * 1024 then None
         else if toLowerCase name \<noteq> ''origin'' then collect_origins totalBytes' acc rest
         else if byteLength val > 2048 then None
         else collect_origins totalBytes' (acc @ [val]) rest)"
| "collect_origins totalBytes acc [] = Some acc"
| "collect_origins totalBytes acc [name] = None"

definition exactRawOrigin :: "string list \<Rightarrow> string option" where
  "exactRawOrigin headers =
     (if length headers mod 2 \<noteq> 0 \<or> length headers > 128 then None
      else case collect_origins 0 [] headers of
             Some [val] \<Rightarrow> Some val
           | _ \<Rightarrow> None)"

definition hasAsciiControlOrWhitespace :: "string \<Rightarrow> bool" where
  "hasAsciiControlOrWhitespace s =
     list_ex (\<lambda>c. let code = of_char c :: nat in code \<le> 32 \<or> code = 127) s"

text \<open>The expression \<open>/^https?:\/\/[^/?#]+$/i\<close>.\<close>

definition origin_shape :: "string \<Rightarrow> bool" where
  "origin_shape s =
     (let low = toLowerCase s;
          rest = (if take 8 low = ''https://'' then Some (drop 8 s)
                  else if take 7 low = ''http://'' then Some (drop 7 s) else None)
      in case rest of
           None \<Rightarrow> False
         | Some r \<Rightarrow> r \<noteq> [] \<and> list_all (\<lambda>c. c \<notin> {CHR ''/'', CHR ''?'', CHR ''#''}) r)"

definition isHttpOrigin :: "URL \<Rightarrow> bool" where
  "isHttpOrigin url \<longleftrightarrow>
     (protocol url = ''http:'' \<or> protocol url = ''https:'') \<and> username url = '''' \<and>
     password url = '''' \<and> pathname url = ''/'' \<and> search url = '''' \<and> hash url = '''' \<and>
     origin url \<noteq> ''null''"

definition isExactOrigin :: "(string \<Rightarrow> URL option) \<Rightarrow> string \<Rightarrow> string \<Rightarrow> bool" where
  "isExactOrigin parse candidate configured =
     (if candidate = ''null'' then False
      else if hasAsciiControlOrWhitespace candidate then False
      else if \<not> origin_shape candidate then False
      else case parse candidate of
             None \<Rightarrow> False
           | Some actual \<Rightarrow>
               (case parse configured of
                  None \<Rightarrow> False
                | Some expected \<Rightarrow>
                    isHttpOrigin actual \<and> isHttpOrigin expected \<and>
                    origin actual = origin expected))"

definition authorizeUpgrade ::
  "(string \<Rightarrow> URL option) \<Rightarrow> UpgradeRequest \<Rightarrow> UpgradeAuthorizationOptions \<Rightarrow> UpgradeAuthorization"
where
  "authorizeUpgrade parse request options =
     (let found = (case rawHeaders request of
                     None \<Rightarrow> req_origin request
                   | Some hs \<Rightarrow> exactRawOrigin hs)
      in case found of
           None \<Rightarrow> Denied 403
         | Some o' \<Rightarrow>
             if req_origin request \<noteq> Some o' \<or>
                \<not> isExactOrigin parse o' (publicOrigin options)
             then Denied 403
             else
               (let routePrefix = route_prefix (basePath options)
                in case requestUrl request of
                     None \<Rightarrow> Denied 404
                   | Some u \<Rightarrow>
                       if take (length routePrefix) u \<noteq> routePrefix then Denied 404
                       else
                         (let sessionId = drop (length routePrefix) u
                          in if \<not> isSessionId sessionId \<or>
                                u \<noteq> websocketSessionPath (basePath options) sessionId
                             then Denied 404 else Allowed sessionId)))"

section \<open>Facts\<close>

lemma collect_origins_sound:
  "collect_origins totalBytes acc hs = Some os \<Longrightarrow>
   \<exists>more. os = acc @ more \<and>
     more = map snd (filter (\<lambda>(n, v). toLowerCase n = ''origin'')
              (map (\<lambda>i. (hs ! (2 * i), hs ! (2 * i + 1))) [0..<length hs div 2]))"
proof (induction totalBytes acc hs arbitrary: os rule: collect_origins.induct)
  case (1 totalBytes acc n v rest)
  let ?pair = "\<lambda>hs i. (hs ! (2 * i), hs ! (2 * i + 1))"
  have upt: "[0..<length (n # v # rest) div 2] = 0 # map Suc [0..<length rest div 2]"
    by (simp add: map_Suc_upt upt_conv_Cons del: upt_Suc)
  have pairs: "map (?pair (n # v # rest)) [0..<length (n # v # rest) div 2] =
      (n, v) # map (?pair rest) [0..<length rest div 2]"
    unfolding upt by simp
  from "1.prems" have ok: "\<not> totalBytes + byteLength n + byteLength v > 16 * 1024"
    by (simp add: Let_def split: if_splits)
  show ?case
  proof (cases "toLowerCase n = ''origin''")
    case False
    with "1.prems" ok have "collect_origins (totalBytes + byteLength n + byteLength v) acc rest = Some os"
      by (simp add: Let_def)
    from "1.IH"(1) [OF refl ok False this] False show ?thesis unfolding pairs by simp
  next
    case True
    with "1.prems" ok have v: "\<not> byteLength v > 2048"
      and rec: "collect_origins (totalBytes + byteLength n + byteLength v) (acc @ [v]) rest = Some os"
      by (auto simp: Let_def split: if_splits)
    from "1.IH"(2) [OF refl ok _ v rec] True show ?thesis unfolding pairs by simp
  qed
qed auto

text \<open>An accepted header list has exactly one \<open>Origin\<close> entry, whatever its capitalisation.\<close>

definition origin_values :: "string list \<Rightarrow> string list" where
  "origin_values hs = map snd (filter (\<lambda>(n, v). toLowerCase n = ''origin'')
     (map (\<lambda>i. (hs ! (2 * i), hs ! (2 * i + 1))) [0..<length hs div 2]))"

lemma exactRawOrigin_unique:
  assumes "exactRawOrigin hs = Some v"
  shows "origin_values hs = [v]"
proof -
  from assms have "collect_origins 0 [] hs = Some [v]"
    by (auto simp: exactRawOrigin_def split: if_splits option.splits list.splits)
  from collect_origins_sound [OF this] show ?thesis by (simp add: origin_values_def)
qed

lemma authorizeUpgrade_Allowed:
  "authorizeUpgrade parse request options = Allowed s \<longleftrightarrow>
   (\<exists>o'. (case rawHeaders request of None \<Rightarrow> req_origin request | Some hs \<Rightarrow> exactRawOrigin hs) = Some o' \<and>
     req_origin request = Some o' \<and> isExactOrigin parse o' (publicOrigin options)) \<and>
   isSessionId s \<and> requestUrl request = Some (websocketSessionPath (basePath options) s)"
  (is "?lhs \<longleftrightarrow> ?rhs")
proof
  show "?lhs \<Longrightarrow> ?rhs"
    by (auto simp: authorizeUpgrade_def Let_def split: option.splits if_splits)
  show "?rhs \<Longrightarrow> ?lhs"
    by (auto simp: authorizeUpgrade_def Let_def websocketSessionPath_def)
qed

section \<open>Properties\<close>

text \<open>
  An upgrade is admitted for tab \<open>s\<close> only when the raw headers hold exactly one \<open>Origin\<close> value,
  that value passes the exact-origin test against the configured public origin, \<open>s\<close> is a
  well-formed identifier and the request URL is exactly its session path: no query string, no
  extra path segment, no second \<open>Origin\<close> header gets through.
\<close>

theorem upgrade_admission:
  assumes "rawHeaders request = Some hs" and "authorizeUpgrade parse request options = Allowed s"
  shows "\<exists>v. origin_values hs = [v] \<and> req_origin request = Some v \<and>
     isExactOrigin parse v (publicOrigin options) \<and> isSessionId s \<and>
     requestUrl request = Some (websocketSessionPath (basePath options) s)"
  using assms exactRawOrigin_unique by (auto simp: authorizeUpgrade_Allowed)

definition example_url :: URL where
  "example_url = \<lparr>protocol = ''http:'', username = '''', password = '''', pathname = ''/'',
     search = '''', hash = '''', origin = ''http://h''\<rparr>"

definition example_id :: string where
  "example_id = ''01234567-89ab-1def-8123-456789abcdef''"

lemma example_id_valid: "isSessionId example_id"
  by (simp add: isSessionId_def matches_def TAB_ID_PATTERN_def example_id_def numeral_eq_Suc
      hex_class_def dash_class_def version_class_def variant_class_def)

definition example_request :: UpgradeRequest where
  "example_request = \<lparr>req_origin = Some ''http://h'',
     rawHeaders = Some [''Host'', ''h'', ''ORIGIN'', ''http://h''],
     requestUrl = Some (websocketSessionPath ''/t'' example_id)\<rparr>"

theorem upgrade_admission_witness:
  "authorizeUpgrade (\<lambda>_. Some example_url) example_request
      \<lparr>publicOrigin = ''http://h'', basePath = ''/t''\<rparr> = Allowed example_id \<and>
   origin_values [''Host'', ''h'', ''ORIGIN'', ''http://h''] = [''http://h'']"
proof -
  let ?hs = "[''Host'', ''h'', ''ORIGIN'', ''http://h'']"
  let ?opts = "\<lparr>publicOrigin = ''http://h'', basePath = ''/t''\<rparr>"
  have "exactRawOrigin ?hs = Some ''http://h''"
    by code_simp
  moreover have "isExactOrigin (\<lambda>_. Some example_url) ''http://h'' ''http://h''"
    by code_simp
  ultimately have a: "authorizeUpgrade (\<lambda>_. Some example_url) example_request ?opts
      = Allowed example_id"
    unfolding authorizeUpgrade_Allowed by (simp add: example_request_def example_id_valid)
  from upgrade_admission [OF _ a, of ?hs] a show ?thesis
    by (auto simp: example_request_def)
qed

text \<open>
  The path the client is told to open is the path the server accepts: for a well-formed tab and
  an admissible origin, the upgrade for \<open>websocketSessionPath\<close> is allowed for exactly that tab.
\<close>

theorem session_path_accepted:
  assumes "isSessionId s" and "isExactOrigin parse v (publicOrigin options)"
    and "exactRawOrigin hs = Some v"
  shows "authorizeUpgrade parse
    \<lparr>req_origin = Some v, rawHeaders = Some hs,
     requestUrl = Some (websocketSessionPath (basePath options) s)\<rparr> options = Allowed s"
  using assms by (simp add: authorizeUpgrade_Allowed)

theorem session_path_accepted_witness:
  "authorizeUpgrade (\<lambda>_. Some example_url)
    \<lparr>req_origin = Some ''http://h'', rawHeaders = Some [''Origin'', ''http://h''],
     requestUrl = Some (websocketSessionPath ''/'' example_id)\<rparr>
    \<lparr>publicOrigin = ''http://h'', basePath = ''/''\<rparr> = Allowed example_id"
proof -
  have "exactRawOrigin [''Origin'', ''http://h''] = Some ''http://h''" by code_simp
  moreover have "isExactOrigin (\<lambda>_. Some example_url) ''http://h''
      (publicOrigin \<lparr>publicOrigin = ''http://h'', basePath = ''/''\<rparr>)" by code_simp
  ultimately show ?thesis
    using session_path_accepted [OF example_id_valid,
        where options = "\<lparr>publicOrigin = ''http://h'', basePath = ''/''\<rparr>"]
    by simp
qed

end
