(* ===== verification/Generations.thy ===== *)
theory Generations
  imports Prelude
begin

text \<open>
  The contract of a change counter. Three parts of the server hand out generation numbers that the
  stale-session cleaner compares across an asynchronous gap: the activity tracker, the WebSocket
  authentication index and the tab store's structure revision. The locale \<open>generation_source\<close> states
  what the comparison relies on (a generation never decreases and strictly increases with every
  event that touches its key) and proves, once, that equal generations rule out any intervening
  change. Each provider interprets it on its own operations.
\<close>

text \<open>
  Both bounded generation tables re-insert a key at the end of a map and evict the first entry when
  the map is full; the entry just inserted is never the one evicted.
\<close>

definition touch :: "'k \<Rightarrow> 'v \<Rightarrow> ('k, 'v) jsmap \<Rightarrow> ('k, 'v) jsmap" where
  "touch k v m = jm_set (jm_delete m k) k v"

definition drop_oldest :: "('k, 'v) jsmap \<Rightarrow> ('k, 'v) jsmap" where
  "drop_oldest m = (case m of [] \<Rightarrow> [] | (k, _) # _ \<Rightarrow> jm_delete m k)"

lemma touch_append: "touch k v m = jm_delete m k @ [(k, v)]"
  unfolding touch_def by (rule jm_set_fresh) (simp add: jm_keys_delete)

lemma touch_get [simp]: "jm_get (touch k v m) j = (if j = k then Some v else jm_get m j)"
  by (simp add: touch_def)

lemma touch_wf [simp]: "jm_wf m \<Longrightarrow> jm_wf (touch k v m)"
  by (simp add: touch_def)

lemma set_touch: "set (touch k v m) = insert (k, v) {p \<in> set m. fst p \<noteq> k}"
  by (auto simp: touch_append set_jm_delete)

lemma length_touch: "length (touch k v m) \<le> Suc (length m)"
  using length_jm_delete_le [of k m] by (simp add: touch_append)

lemma drop_oldest_touch_get:
  assumes "1 < length (touch k v m)"
  shows "jm_get (drop_oldest (touch k v m)) k = Some v"
proof -
  from assms obtain p ps where d: "jm_delete m k = p # ps"
    by (cases "jm_delete m k") (auto simp: touch_append)
  moreover have "fst p \<noteq> k" using set_jm_delete [of k m] d by auto
  ultimately have "drop_oldest (touch k v m) = jm_delete (touch k v m) (fst p)"
    by (cases p) (simp add: drop_oldest_def touch_append)
  with \<open>fst p \<noteq> k\<close> show ?thesis by simp
qed

lemma drop_oldest_get: "jm_get (drop_oldest m) k = jm_get m k \<or> jm_get (drop_oldest m) k = None"
  by (auto simp: drop_oldest_def split: list.split)

lemma drop_oldest_wf [simp]: "jm_wf m \<Longrightarrow> jm_wf (drop_oldest m)"
  by (cases m) (auto simp: drop_oldest_def simp del: jm_wf_delete intro: jm_wf_delete)

lemma set_drop_oldest: "set (drop_oldest m) \<subseteq> set m"
  by (cases m) (auto simp: drop_oldest_def set_jm_delete)

lemma length_drop_oldest: "m \<noteq> [] \<Longrightarrow> length (drop_oldest m) < length m"
  by (cases m) (auto simp: drop_oldest_def less_Suc_eq_le length_jm_delete_le)

lemma drop_oldest_head_get: "jm_get (drop_oldest ((j, w) # r)) j = None"
  by (simp add: drop_oldest_def)

locale generation_source =
  fixes exec :: "'e \<Rightarrow> 's \<Rightarrow> 's"
    and gen :: "'s \<Rightarrow> 'k \<Rightarrow> nat"
    and touched :: "'e \<Rightarrow> 's \<Rightarrow> 'k set"
    and gen_inv :: "'s \<Rightarrow> bool"
  assumes exec_inv: "gen_inv s \<Longrightarrow> gen_inv (exec e s)"
    and exec_mono: "gen_inv s \<Longrightarrow> gen s k \<le> gen (exec e s) k"
    and exec_strict: "gen_inv s \<Longrightarrow> k \<in> touched e s \<Longrightarrow> gen s k < gen (exec e s) k"
begin

definition run :: "'e list \<Rightarrow> 's \<Rightarrow> 's" where
  "run es s = fold exec es s"

definition touches :: "'k \<Rightarrow> 'e list \<Rightarrow> 's \<Rightarrow> bool" where
  "touches k es s \<longleftrightarrow> (\<exists>i < length es. k \<in> touched (es ! i) (run (take i es) s))"

lemma run_Nil [simp]: "run [] s = s"
  by (simp add: run_def)

lemma run_Cons [simp]: "run (e # es) s = run es (exec e s)"
  by (simp add: run_def)

lemma run_append: "run (es @ fs) s = run fs (run es s)"
  by (simp add: run_def)

lemma touches_Nil [simp]: "\<not> touches k [] s"
  by (simp add: touches_def)

lemma touches_Cons: "touches k (e # es) s \<longleftrightarrow> k \<in> touched e s \<or> touches k es (exec e s)"
proof
  assume "touches k (e # es) s"
  then obtain i where i: "i < Suc (length es)" "k \<in> touched ((e # es) ! i) (run (take i (e # es)) s)"
    by (auto simp: touches_def)
  then show "k \<in> touched e s \<or> touches k es (exec e s)"
    by (cases i) (auto simp: touches_def)
next
  assume "k \<in> touched e s \<or> touches k es (exec e s)"
  then show "touches k (e # es) s"
  proof
    assume "k \<in> touched e s"
    then show ?thesis unfolding touches_def by (intro exI [of _ 0]) simp
  next
    assume "touches k es (exec e s)"
    then obtain i where "i < length es" "k \<in> touched (es ! i) (run (take i es) (exec e s))"
      by (auto simp: touches_def)
    then show ?thesis unfolding touches_def by (intro exI [of _ "Suc i"]) simp
  qed
qed

lemma run_inv: "gen_inv s \<Longrightarrow> gen_inv (run es s)"
  by (induction es arbitrary: s) (auto intro: exec_inv)

lemma run_mono: "gen_inv s \<Longrightarrow> gen s k \<le> gen (run es s) k"
proof (induction es arbitrary: s)
  case (Cons e es)
  have "gen s k \<le> gen (exec e s) k" by (rule exec_mono [OF Cons.prems])
  also have "\<dots> \<le> gen (run es (exec e s)) k" by (rule Cons.IH [OF exec_inv [OF Cons.prems]])
  finally show ?case by simp
qed simp

lemma run_strict: "gen_inv s \<Longrightarrow> touches k es s \<Longrightarrow> gen s k < gen (run es s) k"
proof (induction es arbitrary: s)
  case (Cons e es)
  note inv' = exec_inv [OF Cons.prems(1), of e]
  from Cons.prems(2) show ?case unfolding touches_Cons
  proof
    assume "k \<in> touched e s"
    with Cons.prems(1) have "gen s k < gen (exec e s) k" by (rule exec_strict)
    also have "\<dots> \<le> gen (run es (exec e s)) k" by (rule run_mono [OF inv'])
    finally show ?thesis by simp
  next
    assume "touches k es (exec e s)"
    with inv' have "gen (exec e s) k < gen (run es (exec e s)) k" by (rule Cons.IH)
    with exec_mono [OF Cons.prems(1), of k e] show ?thesis by simp
  qed
qed simp

text \<open>No change goes unnoticed, even one that restores an earlier observable state.\<close>

lemma unchanged: "gen_inv s \<Longrightarrow> gen (run es s) k = gen s k \<Longrightarrow> \<not> touches k es s"
  using run_strict by force

end

end
