(* ===== verification/ActivityTracker.thy ===== *)
theory ActivityTracker
  imports Generations
begin

text \<open>
  The activity tracker (\<open>apps/server/src/activity-tracker.ts\<close>): terminal activity is collected in a
  dirty set, written to the tab store in batches by a timer, and written one last time at shutdown.
  The asynchronous class is an event machine: a mark, the timer firing, a flush settling (with or
  without error) and the shutdown request are the events; the state records the two sets, the timer,
  the flush in flight, the progress of the shutdown and the per-tab cleanup generations. Calls to
  \<open>store.flushActivity\<close> are logged in \<open>flushed\<close>.
\<close>

section \<open>State\<close>

datatype shutdown_phase =
    Running
  | AwaitingFlush           \<comment> \<open>\<open>finishShutdown\<close> awaits the flush in flight\<close>
  | FinalFlush "string list" \<comment> \<open>the last \<open>flushActivity\<close> is pending\<close>
  | Finished bool           \<comment> \<open>the shutdown promise is settled; \<open>True\<close> when it resolved\<close>

record ActivityTracker =
  dirtyIds :: "string list"
  flushingIds :: "string list"
  timer :: bool
  inFlight :: "string list option"
  shutdownPhase :: shutdown_phase
  accepting :: bool
  cleanupClock :: nat
  cleanupEvictionGeneration :: nat
  cleanupGenerations :: "(string, nat) jsmap"
  flushed :: "string list list"

definition MAX_CLEANUP_GENERATIONS :: nat where
  "MAX_CLEANUP_GENERATIONS = 64"

definition new_tracker :: ActivityTracker where
  "new_tracker = \<lparr>dirtyIds = [], flushingIds = [], timer = False, inFlight = None,
     shutdownPhase = Running, accepting = True, cleanupClock = 0, cleanupEvictionGeneration = 0,
     cleanupGenerations = [], flushed = []\<rparr>"

section \<open>Operations\<close>

definition advanceCleanupGeneration :: "string \<Rightarrow> ActivityTracker \<Rightarrow> ActivityTracker" where
  "advanceCleanupGeneration i t =
     (let clock = Suc (cleanupClock t);
          gens = touch i clock (cleanupGenerations t)
      in if length gens \<le> MAX_CLEANUP_GENERATIONS
         then t\<lparr>cleanupClock := clock, cleanupGenerations := gens\<rparr>
         else t\<lparr>cleanupClock := clock, cleanupGenerations := drop_oldest gens,
                cleanupEvictionGeneration := clock\<rparr>)"

definition advanceCleanupGenerations :: "string list \<Rightarrow> ActivityTracker \<Rightarrow> ActivityTracker" where
  "advanceCleanupGenerations ids t = fold advanceCleanupGeneration ids t"

definition schedule :: "ActivityTracker \<Rightarrow> ActivityTracker" where
  "schedule t =
     (if \<not> accepting t \<or> timer t \<or> inFlight t \<noteq> None \<or> dirtyIds t = [] then t
      else t\<lparr>timer := True\<rparr>)"

definition mark :: "string \<Rightarrow> ActivityTracker \<Rightarrow> ActivityTracker" where
  "mark tabId t =
     (if \<not> accepting t then t
      else schedule (advanceCleanupGeneration tabId (t\<lparr>dirtyIds := js_add tabId (dirtyIds t)\<rparr>)))"

text \<open>
  Taking the dirty snapshot, moving it to the flushing set and advancing the generations: the common
  start of \<open>startFlush\<close> and of the final flush in \<open>finishShutdown\<close>.
\<close>

definition takeDirtySnapshot :: "ActivityTracker \<Rightarrow> string list \<times> ActivityTracker" where
  "takeDirtySnapshot t = (dirtyIds t, t\<lparr>dirtyIds := []\<rparr>)"

definition beginFlush :: "ActivityTracker \<Rightarrow> string list \<times> ActivityTracker" where
  "beginFlush t =
     (let (ids, u) = takeDirtySnapshot t
      in (ids, advanceCleanupGenerations ids
                 (u\<lparr>flushingIds := fold js_add ids (flushingIds u), flushed := flushed u @ [ids]\<rparr>)))"

definition startFlush :: "ActivityTracker \<Rightarrow> ActivityTracker" where
  "startFlush t =
     (if inFlight t \<noteq> None \<or> dirtyIds t = [] then t
      else let (ids, u) = beginFlush t in u\<lparr>inFlight := Some ids\<rparr>)"

definition fireTimer :: "ActivityTracker \<Rightarrow> ActivityTracker" where
  "fireTimer t = (if timer t then startFlush (t\<lparr>timer := False\<rparr>) else t)"

text \<open>The \<open>catch\<close> and \<open>finally\<close> parts shared by both flushes.\<close>

definition endFlush :: "bool \<Rightarrow> string list \<Rightarrow> ActivityTracker \<Rightarrow> ActivityTracker" where
  "endFlush ok ids t =
     (let u = (if ok then t else t\<lparr>dirtyIds := fold js_add ids (dirtyIds t)\<rparr>)
      in advanceCleanupGenerations ids (u\<lparr>flushingIds := fold js_remove ids (flushingIds u)\<rparr>))"

definition finishShutdown :: "ActivityTracker \<Rightarrow> ActivityTracker" where
  "finishShutdown t =
     (if dirtyIds t = [] then t\<lparr>shutdownPhase := Finished True\<rparr>
      else let (ids, u) = beginFlush t in u\<lparr>shutdownPhase := FinalFlush ids\<rparr>)"

definition settleFlush :: "bool \<Rightarrow> ActivityTracker \<Rightarrow> ActivityTracker" where
  "settleFlush ok t =
     (case inFlight t of
        None \<Rightarrow> t
      | Some ids \<Rightarrow>
          (let u = schedule ((endFlush ok ids t)\<lparr>inFlight := None\<rparr>)
           in if shutdownPhase u = AwaitingFlush then finishShutdown u else u))"

definition settleFinalFlush :: "bool \<Rightarrow> ActivityTracker \<Rightarrow> ActivityTracker" where
  "settleFinalFlush ok t =
     (case shutdownPhase t of
        FinalFlush ids \<Rightarrow> (endFlush ok ids t)\<lparr>shutdownPhase := Finished ok\<rparr>
      | _ \<Rightarrow> t)"

definition shutdown :: "ActivityTracker \<Rightarrow> ActivityTracker" where
  "shutdown t =
     (if shutdownPhase t \<noteq> Running then t
      else let u = t\<lparr>accepting := False, timer := False\<rparr>
           in if inFlight u \<noteq> None then u\<lparr>shutdownPhase := AwaitingFlush\<rparr> else finishShutdown u)"

definition cleanup_generation :: "ActivityTracker \<Rightarrow> string \<Rightarrow> nat" where
  "cleanup_generation t i =
     (case jm_get (cleanupGenerations t) i of
        Some g \<Rightarrow> g | None \<Rightarrow> cleanupEvictionGeneration t)"

definition cleanup_pending :: "ActivityTracker \<Rightarrow> string \<Rightarrow> bool" where
  "cleanup_pending t i \<longleftrightarrow> i \<in> set (dirtyIds t) \<or> i \<in> set (flushingIds t)"

definition cleanupSnapshot :: "ActivityTracker \<Rightarrow> string \<Rightarrow> nat \<times> bool" where
  "cleanupSnapshot t i = (cleanup_generation t i, cleanup_pending t i)"

definition cleanupTrackingCount :: "ActivityTracker \<Rightarrow> nat" where
  "cleanupTrackingCount t = length (cleanupGenerations t)"

datatype tracker_event = Mark string | TimerFires | FlushSettles bool | FinalSettles bool | ShutdownRequested

fun tracker_step :: "tracker_event \<Rightarrow> ActivityTracker \<Rightarrow> ActivityTracker" where
  "tracker_step (Mark i) t = mark i t"
| "tracker_step TimerFires t = fireTimer t"
| "tracker_step (FlushSettles ok) t = settleFlush ok t"
| "tracker_step (FinalSettles ok) t = settleFinalFlush ok t"
| "tracker_step ShutdownRequested t = shutdown t"

definition tracker_run :: "tracker_event list \<Rightarrow> ActivityTracker \<Rightarrow> ActivityTracker" where
  "tracker_run es t = fold tracker_step es t"

section \<open>Generations\<close>

definition gens_ok :: "ActivityTracker \<Rightarrow> bool" where
  "gens_ok t \<longleftrightarrow> jm_wf (cleanupGenerations t) \<and>
     length (cleanupGenerations t) \<le> MAX_CLEANUP_GENERATIONS \<and>
     cleanupEvictionGeneration t \<le> cleanupClock t \<and>
     (\<forall>p \<in> set (cleanupGenerations t). snd p \<le> cleanupClock t)"

lemma advance_get_same:
  "cleanup_generation (advanceCleanupGeneration i t) i = Suc (cleanupClock t)"
  using drop_oldest_touch_get [of i "Suc (cleanupClock t)" "cleanupGenerations t"]
  by (auto simp: advanceCleanupGeneration_def Let_def cleanup_generation_def
      MAX_CLEANUP_GENERATIONS_def)

lemma advance_get_other:
  assumes "k \<noteq> i"
  shows "cleanup_generation (advanceCleanupGeneration i t) k = cleanup_generation t k \<or>
         cleanup_generation (advanceCleanupGeneration i t) k = Suc (cleanupClock t)"
  using assms drop_oldest_get [of "touch i (Suc (cleanupClock t)) (cleanupGenerations t)" k]
  by (auto simp: advanceCleanupGeneration_def Let_def cleanup_generation_def split: option.splits)

lemma cleanup_generation_le: "gens_ok t \<Longrightarrow> cleanup_generation t k \<le> cleanupClock t"
  by (auto simp: gens_ok_def cleanup_generation_def dest: map_of_SomeD split: option.splits)

lemma advance_gens_ok:
  assumes ok: "gens_ok t"
  shows "gens_ok (advanceCleanupGeneration i t)"
proof -
  let ?g = "touch i (Suc (cleanupClock t)) (cleanupGenerations t)"
  have wf: "jm_wf ?g" using ok by (simp add: gens_ok_def)
  have le: "\<forall>p \<in> set ?g. snd p \<le> Suc (cleanupClock t)"
    using ok by (auto simp: gens_ok_def set_touch le_SucI)
  have len: "length ?g \<le> Suc MAX_CLEANUP_GENERATIONS"
    using ok length_touch [of i "Suc (cleanupClock t)" "cleanupGenerations t"]
    by (simp add: gens_ok_def)
  show ?thesis
  proof (cases "length ?g \<le> MAX_CLEANUP_GENERATIONS")
    case True
    with ok wf le show ?thesis
      by (simp add: advanceCleanupGeneration_def Let_def gens_ok_def)
  next
    case False
    then have "length (drop_oldest ?g) \<le> MAX_CLEANUP_GENERATIONS"
      using len length_drop_oldest [of ?g] by fastforce
    with False wf le set_drop_oldest [of ?g] show ?thesis
      by (auto simp: advanceCleanupGeneration_def Let_def gens_ok_def)
  qed
qed

lemma advance_clock [simp]: "cleanupClock (advanceCleanupGeneration i t) = Suc (cleanupClock t)"
  by (simp add: advanceCleanupGeneration_def Let_def)

lemma advance_mono: "gens_ok t \<Longrightarrow> cleanup_generation t k \<le> cleanup_generation (advanceCleanupGeneration i t) k"
  using advance_get_same [of i t] advance_get_other [of k i t] cleanup_generation_le [of t k]
  by (cases "k = i") auto

lemma advance_strict: "gens_ok t \<Longrightarrow> cleanup_generation t i < cleanup_generation (advanceCleanupGeneration i t) i"
  using advance_get_same [of i t] cleanup_generation_le [of t i] by simp

text \<open>The generation fields are touched by nothing but the advance.\<close>

definition gen_view :: "ActivityTracker \<Rightarrow> nat \<times> nat \<times> (string, nat) jsmap" where
  "gen_view t = (cleanupClock t, cleanupEvictionGeneration t, cleanupGenerations t)"

lemma gen_view_cong:
  "gen_view t = gen_view u \<Longrightarrow> gens_ok t = gens_ok u \<and> cleanup_generation t k = cleanup_generation u k"
  by (auto simp: gen_view_def gens_ok_def cleanup_generation_def split: option.splits)

lemma advances_gens:
  "gens_ok t \<Longrightarrow> gens_ok (advanceCleanupGenerations ids t) \<and>
     cleanup_generation t k \<le> cleanup_generation (advanceCleanupGenerations ids t) k \<and>
     (k \<in> set ids \<longrightarrow> cleanup_generation t k < cleanup_generation (advanceCleanupGenerations ids t) k)"
proof (induction ids arbitrary: t)
  case (Cons i ids)
  have eq: "advanceCleanupGenerations (i # ids) t =
      advanceCleanupGenerations ids (advanceCleanupGeneration i t)"
    by (simp add: advanceCleanupGenerations_def)
  show ?case
    using Cons.IH [OF advance_gens_ok [OF Cons.prems, of i]] advance_mono [OF Cons.prems, of k i]
      advance_strict [OF Cons.prems, of i]
    unfolding eq by auto
qed (simp add: advanceCleanupGenerations_def)

text \<open>The batch that an event writes, or marks: the tabs whose generation it must move.\<close>

fun tracker_touched :: "tracker_event \<Rightarrow> ActivityTracker \<Rightarrow> string set" where
  "tracker_touched (Mark i) t = (if accepting t then {i} else {})"
| "tracker_touched TimerFires t =
     (if timer t \<and> inFlight t = None then set (dirtyIds t) else {})"
| "tracker_touched (FlushSettles ok) t =
     (case inFlight t of None \<Rightarrow> {} | Some ids \<Rightarrow> set ids)"
| "tracker_touched (FinalSettles ok) t =
     (case shutdownPhase t of FinalFlush ids \<Rightarrow> set ids | _ \<Rightarrow> {})"
| "tracker_touched ShutdownRequested t =
     (if shutdownPhase t = Running \<and> inFlight t = None then set (dirtyIds t) else {})"

definition gen_grows :: "ActivityTracker \<Rightarrow> ActivityTracker \<Rightarrow> string set \<Rightarrow> bool" where
  "gen_grows t u ks \<longleftrightarrow> gens_ok u \<and> (\<forall>k. cleanup_generation t k \<le> cleanup_generation u k) \<and>
     (\<forall>k \<in> ks. cleanup_generation t k < cleanup_generation u k)"

lemma gen_grows_trans: "gen_grows t u ks \<Longrightarrow> gen_grows u v ls \<Longrightarrow> gen_grows t v (ks \<union> ls)"
  unfolding gen_grows_def by (meson UnE le_less_trans less_le_trans order_trans)

lemma gen_grows_view: "gens_ok t \<Longrightarrow> gen_view t = gen_view u \<Longrightarrow> gen_grows t u {}"
  using gen_view_cong [of t u] by (simp add: gen_grows_def)

lemma gen_grows_subset: "gen_grows t u ks \<Longrightarrow> ls \<subseteq> ks \<Longrightarrow> gen_grows t u ls"
  by (auto simp: gen_grows_def)

lemma gen_grows_advances:
  "gens_ok t \<Longrightarrow> gen_view t = gen_view u \<Longrightarrow> gen_grows t (advanceCleanupGenerations ids u) (set ids)"
  using advances_gens [of u] gen_view_cong [of t u] by (simp add: gen_grows_def)

lemma gen_grows_view_right: "gen_grows t u ks \<Longrightarrow> gen_view u = gen_view v \<Longrightarrow> gen_grows t v ks"
  using gen_view_cong [of u v] by (simp add: gen_grows_def)

lemma schedule_view [simp]: "gen_view (schedule t) = gen_view t"
  by (simp add: schedule_def gen_view_def)

lemma beginFlush_grows:
  "gens_ok t \<Longrightarrow> beginFlush t = (ids, u) \<Longrightarrow> ids = dirtyIds t \<and> gen_grows t u (set (dirtyIds t))"
  by (auto simp: beginFlush_def takeDirtySnapshot_def Let_def gen_view_def intro!: gen_grows_advances)

lemma endFlush_grows: "gens_ok t \<Longrightarrow> gen_grows t (endFlush ok ids t) (set ids)"
  by (auto simp: endFlush_def Let_def gen_view_def intro!: gen_grows_advances)

lemma finishShutdown_grows: "gens_ok t \<Longrightarrow> gen_grows t (finishShutdown t) (set (dirtyIds t))"
proof (cases "dirtyIds t = []")
  case True
  moreover assume "gens_ok t"
  ultimately show ?thesis by (simp add: finishShutdown_def gen_view_def gen_grows_view)
next
  case False
  assume ok: "gens_ok t"
  obtain ids u where b: "beginFlush t = (ids, u)" by (cases "beginFlush t")
  from beginFlush_grows [OF ok b] have "gen_grows t u (set (dirtyIds t))" by simp
  then show ?thesis
    using False b by (auto simp: finishShutdown_def gen_view_def intro: gen_grows_view_right)
qed

lemma startFlush_grows:
  "gens_ok t \<Longrightarrow> gen_grows t (startFlush t) (if inFlight t = None then set (dirtyIds t) else {})"
proof (cases "inFlight t \<noteq> None \<or> dirtyIds t = []")
  case True
  moreover assume "gens_ok t"
  ultimately show ?thesis by (auto simp: startFlush_def gen_grows_view)
next
  case False
  assume ok: "gens_ok t"
  obtain ids u where b: "beginFlush t = (ids, u)" by (cases "beginFlush t")
  from beginFlush_grows [OF ok b] have "gen_grows t u (set (dirtyIds t))" by simp
  then show ?thesis
    using False b by (auto simp: startFlush_def gen_view_def intro: gen_grows_view_right)
qed

lemma settleFlush_grows:
  assumes ok: "gens_ok t" and fl: "inFlight t = Some ids"
  shows "gen_grows t (settleFlush b t) (set ids)"
proof -
  define u where "u = schedule ((endFlush b ids t)\<lparr>inFlight := None\<rparr>)"
  have g: "gen_grows t u (set ids)"
    by (rule gen_grows_view_right [OF endFlush_grows [OF ok, of b ids]])
      (simp add: u_def, simp add: gen_view_def)
  then have "gens_ok u" by (simp add: gen_grows_def)
  from gen_grows_trans [OF g finishShutdown_grows [OF this]]
  have "gen_grows t (finishShutdown u) (set ids)" by (rule gen_grows_subset) simp
  with g show ?thesis by (simp add: settleFlush_def fl u_def [symmetric] Let_def)
qed

lemma tracker_step_grows: "gens_ok t \<Longrightarrow> gen_grows t (tracker_step e t) (tracker_touched e t)"
proof (cases e)
  case (Mark i)
  assume ok: "gens_ok t"
  have "gen_grows t (advanceCleanupGenerations [i] (t\<lparr>dirtyIds := js_add i (dirtyIds t)\<rparr>)) {i}"
    using gen_grows_advances [OF ok, of _ "[i]"] by (simp add: gen_view_def)
  then show ?thesis
    using Mark ok
    by (auto simp: mark_def advanceCleanupGenerations_def gen_grows_view intro: gen_grows_view_right)
next
  case TimerFires
  assume ok: "gens_ok t"
  let ?u = "t\<lparr>timer := False\<rparr>"
  have v: "gen_grows t ?u {}" using ok by (intro gen_grows_view) (simp_all add: gen_view_def)
  then have "gens_ok ?u" by (simp add: gen_grows_def)
  from gen_grows_trans [OF v startFlush_grows [OF this]] show ?thesis
    using TimerFires ok gen_grows_view [OF ok refl] by (auto simp: fireTimer_def)
next
  case (FlushSettles b)
  assume "gens_ok t"
  then show ?thesis
    using FlushSettles settleFlush_grows
    by (cases "inFlight t") (auto simp: settleFlush_def gen_grows_view)
next
  case (FinalSettles b)
  assume ok: "gens_ok t"
  show ?thesis
  proof (cases "shutdownPhase t")
    case (FinalFlush ids)
    have "gen_grows t ((endFlush b ids t)\<lparr>shutdownPhase := Finished b\<rparr>) (set ids)"
      by (rule gen_grows_view_right [OF endFlush_grows [OF ok]]) (simp add: gen_view_def)
    with FinalFlush FinalSettles show ?thesis by (simp add: settleFinalFlush_def)
  qed (use ok FinalSettles in \<open>auto simp: settleFinalFlush_def gen_grows_view\<close>)
next
  case ShutdownRequested
  assume ok: "gens_ok t"
  let ?u = "t\<lparr>accepting := False, timer := False\<rparr>"
  have v: "gen_grows t ?u {}" using ok by (intro gen_grows_view) (simp_all add: gen_view_def)
  then have "gens_ok ?u" by (simp add: gen_grows_def)
  from gen_grows_trans [OF v finishShutdown_grows [OF this]] show ?thesis
    using ShutdownRequested ok gen_grows_view [OF ok, of "?u\<lparr>shutdownPhase := AwaitingFlush\<rparr>"]
      gen_grows_view [OF ok refl]
    by (auto simp: shutdown_def Let_def gen_view_def)
qed

interpretation activity: generation_source tracker_step cleanup_generation tracker_touched gens_ok
proof unfold_locales
  fix s e k
  assume "gens_ok s"
  note g = tracker_step_grows [OF this, of e]
  show "gens_ok (tracker_step e s)" using g by (simp add: gen_grows_def)
  show "cleanup_generation s k \<le> cleanup_generation (tracker_step e s) k"
    using g by (simp add: gen_grows_def)
  show "k \<in> tracker_touched e s \<Longrightarrow> cleanup_generation s k < cleanup_generation (tracker_step e s) k"
    using g by (simp add: gen_grows_def)
qed

section \<open>Invariant\<close>

text \<open>What the fields hold in each phase of the tracker's life.\<close>

definition fields_ok :: "ActivityTracker \<Rightarrow> bool" where
  "fields_ok t \<longleftrightarrow>
     (case shutdownPhase t of
        Running \<Rightarrow> accepting t \<and>
          set (flushingIds t) = (case inFlight t of None \<Rightarrow> {} | Some ids \<Rightarrow> set ids) \<and>
          (dirtyIds t = [] \<or> timer t \<or> inFlight t \<noteq> None)
      | AwaitingFlush \<Rightarrow> \<not> accepting t \<and> \<not> timer t \<and>
          (case inFlight t of None \<Rightarrow> False | Some ids \<Rightarrow> set (flushingIds t) = set ids)
      | FinalFlush ids \<Rightarrow> \<not> accepting t \<and> \<not> timer t \<and> inFlight t = None \<and>
          set (flushingIds t) = set ids \<and> dirtyIds t = []
      | Finished ok \<Rightarrow> \<not> accepting t \<and> \<not> timer t \<and> inFlight t = None \<and> flushingIds t = [] \<and>
          (ok \<longrightarrow> dirtyIds t = []))"

definition tracker_inv :: "ActivityTracker \<Rightarrow> bool" where
  "tracker_inv t \<longleftrightarrow> gens_ok t \<and> fields_ok t"

lemma set_fold_js_add: "set (fold js_add ids xs) = set xs \<union> set ids"
  by (induction ids arbitrary: xs) auto

lemma set_fold_js_remove: "set (fold js_remove ids xs) = set xs - set ids"
  by (induction ids arbitrary: xs) auto

lemma fold_js_add_Nil: "fold js_add ids xs = [] \<longleftrightarrow> xs = [] \<and> ids = []"
  by (metis Un_empty set_empty set_fold_js_add)

text \<open>Advancing generations leaves every other field alone.\<close>

lemma advances_fields [simp]:
  "dirtyIds (advanceCleanupGenerations ids t) = dirtyIds t"
  "flushingIds (advanceCleanupGenerations ids t) = flushingIds t"
  "timer (advanceCleanupGenerations ids t) = timer t"
  "inFlight (advanceCleanupGenerations ids t) = inFlight t"
  "shutdownPhase (advanceCleanupGenerations ids t) = shutdownPhase t"
  "accepting (advanceCleanupGenerations ids t) = accepting t"
  "flushed (advanceCleanupGenerations ids t) = flushed t"
proof -
  have one: "dirtyIds (advanceCleanupGeneration i u) = dirtyIds u \<and>
     flushingIds (advanceCleanupGeneration i u) = flushingIds u \<and>
     timer (advanceCleanupGeneration i u) = timer u \<and>
     inFlight (advanceCleanupGeneration i u) = inFlight u \<and>
     shutdownPhase (advanceCleanupGeneration i u) = shutdownPhase u \<and>
     accepting (advanceCleanupGeneration i u) = accepting u \<and>
     flushed (advanceCleanupGeneration i u) = flushed u" for i u
    by (simp add: advanceCleanupGeneration_def Let_def)
  have "dirtyIds (fold advanceCleanupGeneration ids t) = dirtyIds t \<and>
     flushingIds (fold advanceCleanupGeneration ids t) = flushingIds t \<and>
     timer (fold advanceCleanupGeneration ids t) = timer t \<and>
     inFlight (fold advanceCleanupGeneration ids t) = inFlight t \<and>
     shutdownPhase (fold advanceCleanupGeneration ids t) = shutdownPhase t \<and>
     accepting (fold advanceCleanupGeneration ids t) = accepting t \<and>
     flushed (fold advanceCleanupGeneration ids t) = flushed t"
    by (induction ids arbitrary: t) (simp_all add: one)
  then show
    "dirtyIds (advanceCleanupGenerations ids t) = dirtyIds t"
    "flushingIds (advanceCleanupGenerations ids t) = flushingIds t"
    "timer (advanceCleanupGenerations ids t) = timer t"
    "inFlight (advanceCleanupGenerations ids t) = inFlight t"
    "shutdownPhase (advanceCleanupGenerations ids t) = shutdownPhase t"
    "accepting (advanceCleanupGenerations ids t) = accepting t"
    "flushed (advanceCleanupGenerations ids t) = flushed t"
    by (simp_all add: advanceCleanupGenerations_def)
qed

lemma advance_fields [simp]:
  "dirtyIds (advanceCleanupGeneration i t) = dirtyIds t"
  "flushingIds (advanceCleanupGeneration i t) = flushingIds t"
  "timer (advanceCleanupGeneration i t) = timer t"
  "inFlight (advanceCleanupGeneration i t) = inFlight t"
  "shutdownPhase (advanceCleanupGeneration i t) = shutdownPhase t"
  "accepting (advanceCleanupGeneration i t) = accepting t"
  by (simp_all add: advanceCleanupGeneration_def Let_def)

lemma js_add_not_Nil [simp]: "js_add x xs \<noteq> []"
  by (auto simp: js_add_def)

lemma set_flush_begin: "xs = [] \<or> set xs = {} \<Longrightarrow> set (fold js_add ids xs) = set ids"
  by (auto simp: set_fold_js_add)

lemma flush_end_Nil: "set xs = set ids \<Longrightarrow> fold js_remove ids xs = []"
  by (metis Diff_cancel set_empty set_fold_js_remove)

lemmas tracker_defs = mark_def schedule_def fireTimer_def startFlush_def beginFlush_def
  takeDirtySnapshot_def endFlush_def finishShutdown_def settleFlush_def settleFinalFlush_def
  shutdown_def Let_def

lemma fields_mark: "fields_ok t \<Longrightarrow> fields_ok (mark i t)"
  by (cases "shutdownPhase t") (auto simp: fields_ok_def mark_def schedule_def)

lemma fields_fireTimer: "fields_ok t \<Longrightarrow> fields_ok (fireTimer t)"
  by (cases "shutdownPhase t"; cases "inFlight t")
    (auto simp: fields_ok_def fireTimer_def startFlush_def beginFlush_def takeDirtySnapshot_def
      set_fold_js_add)

lemma fields_finishShutdown:
  "\<not> accepting t \<Longrightarrow> \<not> timer t \<Longrightarrow> inFlight t = None \<Longrightarrow> flushingIds t = []
   \<Longrightarrow> fields_ok (finishShutdown t)"
  by (simp add: fields_ok_def finishShutdown_def beginFlush_def takeDirtySnapshot_def set_fold_js_add)

lemma fields_settleFlush:
  assumes "fields_ok t"
  shows "fields_ok (settleFlush b t)"
proof (cases "inFlight t")
  case (Some ids)
  show ?thesis
  proof (cases "shutdownPhase t")
    case AwaitingFlush
    with Some assms have "fields_ok (finishShutdown (schedule ((endFlush b ids t)\<lparr>inFlight := None\<rparr>)))"
      by (intro fields_finishShutdown)
        (auto simp: fields_ok_def schedule_def endFlush_def Let_def flush_end_Nil)
    moreover have "shutdownPhase (schedule ((endFlush b ids t)\<lparr>inFlight := None\<rparr>)) = AwaitingFlush"
      using AwaitingFlush by (simp add: schedule_def endFlush_def Let_def)
    ultimately show ?thesis using Some by (simp add: settleFlush_def Let_def)
  next
    case Running
    with Some assms show ?thesis
      by (auto simp: fields_ok_def settleFlush_def schedule_def endFlush_def Let_def flush_end_Nil)
  qed (use Some assms in \<open>auto simp: fields_ok_def\<close>)
qed (use assms in \<open>simp add: settleFlush_def\<close>)

lemma fields_settleFinal: "fields_ok t \<Longrightarrow> fields_ok (settleFinalFlush b t)"
  by (cases "shutdownPhase t")
    (auto simp: fields_ok_def settleFinalFlush_def endFlush_def Let_def flush_end_Nil)

lemma fields_shutdown: "fields_ok t \<Longrightarrow> fields_ok (shutdown t)"
proof (cases "shutdownPhase t = Running \<and> inFlight t = None")
  case True
  moreover assume "fields_ok t"
  ultimately have "fields_ok (finishShutdown (t\<lparr>accepting := False, timer := False\<rparr>))"
    by (intro fields_finishShutdown) (auto simp: fields_ok_def)
  with True show ?thesis by (simp add: shutdown_def Let_def)
next
  case False
  moreover assume "fields_ok t"
  ultimately show ?thesis by (auto simp: shutdown_def Let_def fields_ok_def)
qed

lemma tracker_step_inv: "tracker_inv t \<Longrightarrow> tracker_inv (tracker_step e t)"
  using activity.exec_inv [of t e]
  by (cases e) (simp_all add: tracker_inv_def fields_mark fields_fireTimer fields_settleFlush
      fields_settleFinal fields_shutdown)

lemma new_tracker_inv: "tracker_inv new_tracker"
  by (simp add: tracker_inv_def new_tracker_def gens_ok_def fields_ok_def
      MAX_CLEANUP_GENERATIONS_def)

lemma tracker_run_inv: "tracker_inv t \<Longrightarrow> tracker_inv (tracker_run es t)"
  unfolding tracker_run_def by (induction es arbitrary: t) (auto intro: tracker_step_inv)

text \<open>
  A batch handed to the store, of which the answer is outstanding; and the event that is its
  successful answer.
\<close>

definition carries :: "string list \<Rightarrow> ActivityTracker \<Rightarrow> bool" where
  "carries ids t \<longleftrightarrow> inFlight t = Some ids \<or> shutdownPhase t = FinalFlush ids"

definition delivers :: "tracker_event \<Rightarrow> ActivityTracker \<Rightarrow> string list \<Rightarrow> bool" where
  "delivers e t ids \<longleftrightarrow>
     (e = FlushSettles True \<and> inFlight t = Some ids) \<or> (e = FinalSettles True \<and> shutdownPhase t = FinalFlush ids)"

text \<open>An event hands a batch with tab \<open>i\<close> to the store.\<close>

definition hands_over :: "string \<Rightarrow> ActivityTracker \<Rightarrow> ActivityTracker \<Rightarrow> bool" where
  "hands_over i t u \<longleftrightarrow> (\<exists>ids. i \<in> set ids \<and> flushed u = flushed t @ [ids] \<and> carries ids u)"

lemma schedule_fields [simp]:
  "dirtyIds (schedule t) = dirtyIds t" "flushed (schedule t) = flushed t" "shutdownPhase (schedule t) = shutdownPhase t"
  "inFlight (schedule t) = inFlight t"
  by (simp_all add: schedule_def)

lemma endFlush_fields [simp]:
  "flushed (endFlush ok ids t) = flushed t" "shutdownPhase (endFlush ok ids t) = shutdownPhase t"
  "inFlight (endFlush ok ids t) = inFlight t"
  "set (dirtyIds (endFlush ok ids t)) = set (dirtyIds t) \<union> (if ok then {} else set ids)"
  by (auto simp: endFlush_def Let_def set_fold_js_add)

lemma finish_hands_over: "i \<in> set (dirtyIds t) \<Longrightarrow> flushed t = flushed v \<Longrightarrow> hands_over i v (finishShutdown t)"
  by (auto simp: hands_over_def finishShutdown_def beginFlush_def takeDirtySnapshot_def carries_def)

lemma settle_cases:
  assumes "inFlight t = Some ids" "i \<in> set (dirtyIds t) \<or> \<not> ok \<and> i \<in> set ids"
  shows "i \<in> set (dirtyIds (settleFlush ok t)) \<or> hands_over i t (settleFlush ok t)"
proof -
  let ?u = "schedule ((endFlush ok ids t)\<lparr>inFlight := None\<rparr>)"
  have d: "i \<in> set (dirtyIds ?u)" using assms(2) by auto
  then have "hands_over i t (finishShutdown ?u)" by (rule finish_hands_over) simp
  with d assms(1) show ?thesis by (simp add: settleFlush_def Let_def)
qed

text \<open>Activity that waits keeps waiting or is handed over.\<close>

lemma dirty_step:
  assumes "i \<in> set (dirtyIds t)"
  shows "i \<in> set (dirtyIds (tracker_step e t)) \<or> hands_over i t (tracker_step e t)"
proof (cases e)
  case (Mark j)
  then show ?thesis using assms by (simp add: mark_def)
next
  case TimerFires
  then show ?thesis using assms
    by (auto simp: fireTimer_def startFlush_def beginFlush_def takeDirtySnapshot_def hands_over_def carries_def)
next
  case (FlushSettles ok)
  then show ?thesis using assms settle_cases [of t _ i ok] by (cases "inFlight t") (simp_all add: settleFlush_def)
next
  case (FinalSettles ok)
  then show ?thesis using assms by (simp add: settleFinalFlush_def split: shutdown_phase.split)
next
  case ShutdownRequested
  then show ?thesis using assms finish_hands_over [of i "t\<lparr>accepting := False, timer := False\<rparr>" t]
    by (auto simp: shutdown_def Let_def)
qed

text \<open>A batch that was handed over stays so until it is answered; an error brings its tabs back.\<close>

lemma carried_step:
  assumes "fields_ok t" "carries ids t" "i \<in> set ids" "\<not> delivers e t ids"
  shows "i \<in> set (dirtyIds (tracker_step e t)) \<or> hands_over i t (tracker_step e t) \<or>
    carries ids (tracker_step e t) \<and> flushed (tracker_step e t) = flushed t"
proof (cases e)
  case (Mark j)
  then show ?thesis using assms(2) by (auto simp: carries_def mark_def advanceCleanupGeneration_def Let_def)
next
  case TimerFires
  have "\<not> timer t \<or> inFlight t \<noteq> None" using assms(1,2) by (auto simp: carries_def fields_ok_def)
  with TimerFires assms(2) show ?thesis by (auto simp: fireTimer_def startFlush_def carries_def)
next
  case (FlushSettles ok)
  show ?thesis
  proof (cases "inFlight t")
    case None
    with FlushSettles assms(2) show ?thesis by (simp add: settleFlush_def)
  next
    case (Some js)
    have "js = ids" using assms(1,2) Some by (auto simp: carries_def fields_ok_def)
    with FlushSettles Some assms(3,4) settle_cases [OF Some, of i ok] show ?thesis by (auto simp: delivers_def)
  qed
next
  case (FinalSettles ok)
  show ?thesis
  proof (cases "shutdownPhase t")
    case (FinalFlush js)
    have "js = ids" using assms(1,2) FinalFlush by (auto simp: carries_def fields_ok_def)
    with FinalSettles FinalFlush assms(3,4) show ?thesis by (auto simp: settleFinalFlush_def delivers_def)
  qed (use FinalSettles assms(2) in \<open>auto simp: settleFinalFlush_def\<close>)
next
  case ShutdownRequested
  with assms(2) show ?thesis by (auto simp: shutdown_def carries_def Let_def)
qed

text \<open>
  A flush of the run \<open>es\<close> from \<open>t\<close>, from its start to its successful end: the event \<open>b\<close> hands the
  batch \<open>ids\<close> to the store, no other flush starts before the event \<open>e\<close>, its success.
\<close>

definition flush_delivers :: "tracker_event list \<Rightarrow> ActivityTracker \<Rightarrow> string \<Rightarrow> bool" where
  "flush_delivers es t i \<longleftrightarrow> (\<exists>pre b mid e post ids. es = pre @ b # mid @ e # post \<and> i \<in> set ids \<and>
     flushed (tracker_run (pre @ [b]) t) = flushed (tracker_run pre t) @ [ids] \<and>
     flushed (tracker_run (pre @ b # mid) t) = flushed (tracker_run (pre @ [b]) t) \<and>
     delivers e (tracker_run (pre @ b # mid) t) ids)"

lemma tracker_run_simps [simp]:
  "tracker_run [] t = t" "tracker_run (e # es) t = tracker_run es (tracker_step e t)"
  "tracker_run (es @ fs) t = tracker_run fs (tracker_run es t)"
  by (simp_all add: tracker_run_def)

lemma flush_delivers_Cons:
  assumes "flush_delivers es (tracker_step e t) i"
  shows "flush_delivers (e # es) t i"
proof -
  from assms obtain pre b mid f post ids where "es = pre @ b # mid @ f # post" "i \<in> set ids"
    "flushed (tracker_run (pre @ [b]) (tracker_step e t)) = flushed (tracker_run pre (tracker_step e t)) @ [ids]"
    "flushed (tracker_run (pre @ b # mid) (tracker_step e t)) = flushed (tracker_run (pre @ [b]) (tracker_step e t))"
    "delivers f (tracker_run (pre @ b # mid) (tracker_step e t)) ids"
    unfolding flush_delivers_def by blast
  then show ?thesis unfolding flush_delivers_def
    by (intro exI [of _ "e # pre"] exI [of _ b] exI [of _ mid] exI [of _ f] exI [of _ post] exI [of _ ids]) simp
qed

definition answered :: "tracker_event list \<Rightarrow> ActivityTracker \<Rightarrow> string list \<Rightarrow> bool" where
  "answered es t ids \<longleftrightarrow> (\<exists>mid e post. es = mid @ e # post \<and> flushed (tracker_run mid t) = flushed t \<and>
     delivers e (tracker_run mid t) ids)"

lemma handed_delivers:
  assumes "flushed (tracker_step b t) = flushed t @ [ids]" "i \<in> set ids" "answered es (tracker_step b t) ids"
  shows "flush_delivers (b # es) t i"
proof -
  from assms(3) obtain mid e post where m: "es = mid @ e # post"
    "flushed (tracker_run mid (tracker_step b t)) = flushed (tracker_step b t)" "delivers e (tracker_run mid (tracker_step b t)) ids"
    unfolding answered_def by blast
  show ?thesis unfolding flush_delivers_def
    using m assms by (intro exI [of _ "[]"] exI [of _ b] exI [of _ mid] exI [of _ e] exI [of _ post] exI [of _ ids]) simp
qed

lemma answered_Cons:
  assumes "answered es (tracker_step e t) ids" "flushed (tracker_step e t) = flushed t"
  shows "answered (e # es) t ids"
proof -
  from assms(1) obtain mid f post where "es = mid @ f # post"
    "flushed (tracker_run mid (tracker_step e t)) = flushed (tracker_step e t)" "delivers f (tracker_run mid (tracker_step e t)) ids"
    unfolding answered_def by blast
  with assms(2) show ?thesis unfolding answered_def by (intro exI [of _ "e # mid"]) simp
qed

lemma tracker_fields: "tracker_inv t \<Longrightarrow> fields_ok t"
  by (simp add: tracker_inv_def)

lemma carries_pending: "fields_ok t \<Longrightarrow> carries ids t \<Longrightarrow> i \<in> set ids \<Longrightarrow> cleanup_pending t i"
  by (cases "shutdownPhase t") (auto simp: fields_ok_def carries_def cleanup_pending_def)

lemma pending_run:
  assumes "tracker_inv t" "\<not> cleanup_pending (tracker_run es t) i"
  shows "(i \<in> set (dirtyIds t) \<longrightarrow> flush_delivers es t i) \<and>
    (\<forall>ids. carries ids t \<longrightarrow> i \<in> set ids \<longrightarrow> answered es t ids \<or> flush_delivers es t i)"
  using assms
proof (induction es arbitrary: t)
  case Nil
  then show ?case using carries_pending [OF tracker_fields] by (auto simp: cleanup_pending_def)
next
  case (Cons e es)
  let ?u = "tracker_step e t"
  have ih: "i \<in> set (dirtyIds ?u) \<Longrightarrow> flush_delivers es ?u i"
    "carries ids ?u \<Longrightarrow> i \<in> set ids \<Longrightarrow> answered es ?u ids \<or> flush_delivers es ?u i" for ids
    using Cons.IH [OF tracker_step_inv [OF Cons.prems(1)]] Cons.prems(2) by auto
  have dirty: "i \<in> set (dirtyIds ?u) \<or> hands_over i t ?u \<Longrightarrow> flush_delivers (e # es) t i"
    using ih flush_delivers_Cons handed_delivers unfolding hands_over_def by blast
  have "answered (e # es) t ids \<or> flush_delivers (e # es) t i" if c: "carries ids t" "i \<in> set ids" for ids
  proof (cases "delivers e t ids")
    case True
    then have "answered (e # es) t ids" unfolding answered_def by (intro exI [of _ "[]"]) simp
    then show ?thesis by blast
  next
    case False
    from carried_step [OF tracker_fields [OF Cons.prems(1)] c False] show ?thesis
      using dirty ih(2) c(2) flush_delivers_Cons answered_Cons by blast
  qed
  with dirty dirty_step [of i t e] show ?case by blast
qed

lemma settled_phase:
  assumes "fields_ok t" "shutdownPhase t \<noteq> Running"
  shows "\<exists>ok. shutdownPhase (settleFinalFlush b (settleFlush a t)) = Finished ok"
proof -
  have "shutdownPhase (settleFlush a t) \<noteq> Running \<and> shutdownPhase (settleFlush a t) \<noteq> AwaitingFlush"
    using assms
    by (cases "shutdownPhase t"; cases "inFlight t")
      (auto simp: fields_ok_def settleFlush_def schedule_def endFlush_def finishShutdown_def Let_def
        split: prod.splits)
  then show ?thesis
    by (cases "shutdownPhase (settleFlush a t)") (auto simp: settleFinalFlush_def)
qed

lemma shutdown_completes:
  assumes "fields_ok t"
  shows "\<exists>ok. shutdownPhase (tracker_run [ShutdownRequested, FlushSettles a, FinalSettles b] t)
    = Finished ok"
proof -
  have "shutdownPhase (shutdown t) \<noteq> Running"
    by (auto simp: shutdown_def finishShutdown_def Let_def split: prod.splits)
  with settled_phase [OF fields_shutdown [OF assms]] show ?thesis by (simp add: tracker_run_def)
qed

section \<open>Properties\<close>

text \<open>
  C22. No activity is lost: once a tab is marked (and the mark is accepted), it stays pending along
  every sequence of marks, timer firings, failed or successful flushes and shutdown, until a flush
  that was started after the mark, with the tab in its batch, settles successfully. A flush that was
  already under way does not count, even if its batch contains the tab.
\<close>

theorem activity_not_lost:
  assumes "t = tracker_run es0 new_tracker" and "accepting t"
    and "\<not> cleanup_pending (tracker_run es (mark i t)) i"
  shows "\<exists>pre b mid e post ids. es = pre @ b # mid @ e # post \<and> i \<in> set ids \<and>
     flushed (tracker_run (pre @ [b]) (mark i t)) = flushed (tracker_run pre (mark i t)) @ [ids] \<and>
     flushed (tracker_run (pre @ b # mid) (mark i t)) = flushed (tracker_run (pre @ [b]) (mark i t)) \<and>
     delivers e (tracker_run (pre @ b # mid) (mark i t)) ids"
proof -
  have "tracker_inv t" unfolding assms(1) by (rule tracker_run_inv [OF new_tracker_inv])
  then have "tracker_inv (mark i t)" using tracker_step_inv [of t "Mark i"] by simp
  moreover have "i \<in> set (dirtyIds (mark i t))" using assms(2) by (simp add: mark_def)
  ultimately have "flush_delivers es (mark i t) i" using pending_run [OF _ assms(3)] by blast
  then show ?thesis unfolding flush_delivers_def .
qed

text \<open>A tab marked once more while its flush is under way: it takes another flush.\<close>

theorem activity_not_lost_witness:
  "\<exists>pre b mid e post ids.
     [FlushSettles True, TimerFires, FlushSettles False, TimerFires, FlushSettles True] = pre @ b # mid @ e # post \<and> ''a'' \<in> set ids \<and>
     flushed (tracker_run (pre @ [b]) (mark ''a'' (tracker_run [Mark ''a'', TimerFires] new_tracker))) =
       flushed (tracker_run pre (mark ''a'' (tracker_run [Mark ''a'', TimerFires] new_tracker))) @ [ids]"
proof -
  have "accepting (tracker_run [Mark ''a'', TimerFires] new_tracker)" by code_simp
  moreover have "\<not> cleanup_pending (tracker_run [FlushSettles True, TimerFires, FlushSettles False, TimerFires, FlushSettles True]
      (mark ''a'' (tracker_run [Mark ''a'', TimerFires] new_tracker))) ''a''"
    by code_simp
  ultimately show ?thesis using activity_not_lost [OF refl] by blast
qed

text \<open>
  C23. A generation comparison detects every change: if the cleanup generation of a tab is the same
  at two points of a run of the tracker, no event between them marked the tab, started a flush of it
  or settled one, even though the table of generations is bounded and evicts entries.
\<close>

theorem activity_generation_detects:
  assumes "t = tracker_run es0 new_tracker"
    and "cleanup_generation (tracker_run es t) k = cleanup_generation t k"
    and "es = pre @ e # post"
  shows "k \<notin> tracker_touched e (tracker_run pre t)"
proof -
  have inv: "gens_ok t"
    using tracker_run_inv [OF new_tracker_inv, of es0] by (simp add: assms(1) tracker_inv_def)
  have "\<not> activity.touches k es t"
    using activity.unchanged [OF inv, of es k] assms(2)
    by (simp add: activity.run_def tracker_run_def)
  then show ?thesis
    unfolding activity.touches_def assms(3)
    by (auto simp: activity.run_def tracker_run_def dest: spec [of _ "length pre"])
qed

theorem activity_generation_detects_witness:
  "''b'' \<notin> tracker_touched (Mark ''a'') (tracker_run [] (tracker_run [Mark ''b''] new_tracker))"
proof (rule activity_generation_detects [where ?es0.0 = "[Mark ''b'']" and es = "[Mark ''a'']"
      and post = "[]"])
  show "cleanup_generation (tracker_run [Mark ''a''] (tracker_run [Mark ''b''] new_tracker)) ''b'' =
      cleanup_generation (tracker_run [Mark ''b''] new_tracker) ''b''"
    by code_simp
qed simp_all

text \<open>
  Accepted activity is always on its way to the store, and shutdown completes: in every state
  reached while marks are accepted, a non-empty dirty set has an armed timer or a flush in flight;
  and once shutdown is requested, settling the flush in flight and then the final flush (whichever
  exist) ends it, with nothing left unwritten if it ended well.
\<close>

theorem activity_progress:
  assumes "t = tracker_run es new_tracker"
  shows "(accepting t \<and> dirtyIds t \<noteq> [] \<longrightarrow> timer t \<or> inFlight t \<noteq> None) \<and>
    (let u = tracker_run [ShutdownRequested, FlushSettles a, FinalSettles b] t
     in \<exists>ok. shutdownPhase u = Finished ok \<and>
          (ok \<longrightarrow> dirtyIds u = [] \<and> flushingIds u = []) \<and> \<not> accepting u)"
proof -
  have inv: "tracker_inv t" unfolding assms by (rule tracker_run_inv [OF new_tracker_inv])
  let ?u = "tracker_run [ShutdownRequested, FlushSettles a, FinalSettles b] t"
  have "\<exists>ok. shutdownPhase ?u = Finished ok"
    by (rule shutdown_completes) (use inv in \<open>simp add: tracker_inv_def\<close>)
  moreover have "fields_ok ?u" by (rule tracker_fields [OF tracker_run_inv [OF inv]])
  ultimately show ?thesis
    using inv by (auto simp: tracker_inv_def fields_ok_def split: shutdown_phase.splits)
qed

theorem activity_progress_witness:
  "let u = tracker_run [ShutdownRequested, FlushSettles True, FinalSettles True]
             (tracker_run [Mark ''a'', TimerFires, Mark ''b''] new_tracker)
   in \<exists>ok. shutdownPhase u = Finished ok \<and>
        (ok \<longrightarrow> dirtyIds u = [] \<and> flushingIds u = []) \<and> \<not> accepting u"
  using activity_progress [OF refl, where es = "[Mark ''a'', TimerFires, Mark ''b'']"
      and a = True and b = True] by blast

end
