(* ===== verification/WebSocketAuthIndex.thy ===== *)
theory WebSocketAuthIndex
  imports Generations
begin

text \<open>
  The index that ties every live terminal socket to the application session that opened it
  (\<open>apps/server/src/websocket-auth-index.ts\<close>). Sockets and the authentication service are
  collaborators: \<open>index_env\<close> holds what the index asks of them, as functions on a world \<open>'w\<close> that
  they may change. Calls whose exceptions the code swallows are functions on the world; the answer
  of \<open>auth.isActive\<close> carries the revocation notices the service delivers while answering negatively.
  A socket is its identity, a number. Listener disposal has no effect on the index and is left out.
\<close>

declare map_of_eq_Some_iff [simp del] Some_eq_map_of_iff [simp del]

section \<open>Data\<close>

record ApplicationSessionAuthority =
  applicationSessionId :: string
  generation :: nat
  expiresAt :: real

record Registration =
  authority :: ApplicationSessionAuthority
  terminalTabId :: string

record WebSocketAuthIndex =
  maxSessions :: nat
  maxSockets :: nat
  bySession :: "(string, nat list) jsmap"
  bySocket :: "(nat, Registration) jsmap"
  tabCounts :: "(string, int) jsmap"
  disposed :: bool
  evictionGeneration :: nat
  tabGenerations :: "(string, nat) jsmap"

datatype auth_answer =
    IsActive
  | NotActive "string list" \<comment> \<open>\<open>false\<close> or an exception, after revoking these sessions\<close>

record 'w index_env =
  sock_open :: "'w \<Rightarrow> nat \<Rightarrow> bool"
  sock_close :: "'w \<Rightarrow> nat \<Rightarrow> 'w"
  sock_terminate :: "'w \<Rightarrow> nat \<Rightarrow> 'w"
  sock_listen :: "'w \<Rightarrow> nat \<Rightarrow> bool \<times> 'w"
  auth_active :: "'w \<Rightarrow> ApplicationSessionAuthority \<Rightarrow> auth_answer \<times> 'w"
  auth_sweep :: "'w \<Rightarrow> string list \<times> 'w"

type_synonym 'w index_state = "WebSocketAuthIndex \<times> 'w"

definition HARD_MAX_APPLICATION_SESSIONS :: nat where
  "HARD_MAX_APPLICATION_SESSIONS = 256"

definition HARD_MAX_SOCKETS :: nat where
  "HARD_MAX_SOCKETS = 1024"

definition MAX_TAB_GENERATIONS :: nat where
  "MAX_TAB_GENERATIONS = 64"

definition new_index :: "jsnum \<Rightarrow> jsnum \<Rightarrow> WebSocketAuthIndex option" where
  "new_index sessions sockets =
     (if \<not> isInteger sessions \<or> \<not> num_ge sessions 1 \<or>
         \<not> num_le sessions (of_nat HARD_MAX_APPLICATION_SESSIONS) \<or>
         \<not> isInteger sockets \<or> \<not> num_ge sockets 1 \<or> \<not> num_le sockets (of_nat HARD_MAX_SOCKETS)
      then None
      else case (sessions, sockets) of
             (Num a, Num b) \<Rightarrow>
               Some \<lparr>maxSessions = nat \<lfloor>a\<rfloor>, maxSockets = nat \<lfloor>b\<rfloor>, bySession = [], bySocket = [],
                 tabCounts = [], disposed = False, evictionGeneration = 0, tabGenerations = []\<rparr>
           | _ \<Rightarrow> None)"

section \<open>Operations\<close>

definition tab_generation :: "WebSocketAuthIndex \<Rightarrow> string \<Rightarrow> nat" where
  "tab_generation x t =
     (case jm_get (tabGenerations x) t of Some g \<Rightarrow> g | None \<Rightarrow> evictionGeneration x)"

definition advanceTabGeneration :: "string \<Rightarrow> WebSocketAuthIndex \<Rightarrow> WebSocketAuthIndex" where
  "advanceTabGeneration t x =
     (let g = Suc (tab_generation x t);
          gens = touch t g (tabGenerations x)
      in if length gens \<le> MAX_TAB_GENERATIONS then x\<lparr>tabGenerations := gens\<rparr>
         else case gens of
                [] \<Rightarrow> x\<lparr>tabGenerations := gens\<rparr>
              | (oldest, og) # _ \<Rightarrow>
                  x\<lparr>tabGenerations := drop_oldest gens,
                    evictionGeneration := max (Suc (evictionGeneration x)) og\<rparr>)"

definition removeRegistration ::
  "nat \<Rightarrow> Registration \<Rightarrow> WebSocketAuthIndex \<Rightarrow> WebSocketAuthIndex"
where
  "removeRegistration s r x =
     (let a = applicationSessionId (authority r);
          t = terminalTabId r;
          sessions =
            (case jm_get (bySession x) a of
               None \<Rightarrow> bySession x
             | Some ss \<Rightarrow>
                 if js_remove s ss = [] then jm_delete (bySession x) a
                 else jm_set (bySession x) a (js_remove s ss));
          n = (case jm_get (tabCounts x) t of Some c \<Rightarrow> c | None \<Rightarrow> 1) - 1;
          counts = (if n = 0 then jm_delete (tabCounts x) t else jm_set (tabCounts x) t n)
      in x\<lparr>bySocket := jm_delete (bySocket x) s, bySession := sessions, tabCounts := counts\<rparr>)"

definition unregister :: "nat \<Rightarrow> WebSocketAuthIndex \<Rightarrow> WebSocketAuthIndex" where
  "unregister s x =
     (case jm_get (bySocket x) s of
        None \<Rightarrow> x
      | Some r \<Rightarrow> advanceTabGeneration (terminalTabId r) (removeRegistration s r x))"

definition secureAuthenticationClosure :: "'w index_env \<Rightarrow> nat \<Rightarrow> 'w \<Rightarrow> bool \<times> 'w" where
  "secureAuthenticationClosure E s w =
     (if \<not> sock_open E w s then (True, w)
      else let w1 = sock_close E w s
           in if \<not> sock_open E w1 s then (True, w1)
              else let w2 = sock_terminate E w1 s in (\<not> sock_open E w2 s, w2))"

definition closeAuthenticationRequired ::
  "'w index_env \<Rightarrow> nat \<Rightarrow> 'w index_state \<Rightarrow> bool \<times> 'w index_state"
where
  "closeAuthenticationRequired E s st =
     (let (secured, w) = secureAuthenticationClosure E s (snd st)
      in (secured, (if secured then unregister s (fst st) else fst st, w)))"

definition closeSockets :: "'w index_env \<Rightarrow> nat list \<Rightarrow> 'w index_state \<Rightarrow> 'w index_state" where
  "closeSockets E ss st = fold (\<lambda>s st. snd (closeAuthenticationRequired E s st)) ss st"

definition closeSession :: "'w index_env \<Rightarrow> string \<Rightarrow> 'w index_state \<Rightarrow> 'w index_state" where
  "closeSession E a st =
     closeSockets E (case jm_get (bySession (fst st)) a of None \<Rightarrow> [] | Some ss \<Rightarrow> ss) st"

text \<open>The revocation listener runs for every session revoked during a call into the service.\<close>

definition closeSessions :: "'w index_env \<Rightarrow> string list \<Rightarrow> 'w index_state \<Rightarrow> 'w index_state" where
  "closeSessions E as st = fold (closeSession E) as st"

definition checkActive ::
  "'w index_env \<Rightarrow> ApplicationSessionAuthority \<Rightarrow> 'w index_state \<Rightarrow> bool \<times> 'w index_state"
where
  "checkActive E a st =
     (case auth_active E (snd st) a of
        (IsActive, w) \<Rightarrow> (True, (fst st, w))
      | (NotActive revoked, w) \<Rightarrow>
          (False, if disposed (fst st) then (fst st, w)
                  else closeSessions E revoked (fst st, w)))"

definition isActive ::
  "'w index_env \<Rightarrow> ApplicationSessionAuthority \<Rightarrow> 'w index_state \<Rightarrow> bool \<times> 'w index_state"
where
  "isActive E a st = (if disposed (fst st) then (False, st) else checkActive E a st)"

definition dropEmptySession :: "string \<Rightarrow> WebSocketAuthIndex \<Rightarrow> WebSocketAuthIndex" where
  "dropEmptySession a x =
     (case jm_get (bySession x) a of
        Some [] \<Rightarrow> x\<lparr>bySession := jm_delete (bySession x) a\<rparr>
      | _ \<Rightarrow> x)"

text \<open>The last block of \<open>registerIfActive\<close>: every map gets the new socket.\<close>

definition insertRegistration ::
  "ApplicationSessionAuthority \<Rightarrow> string \<Rightarrow> nat \<Rightarrow> WebSocketAuthIndex \<Rightarrow> WebSocketAuthIndex"
where
  "insertRegistration a t s x =
     (let k = applicationSessionId a;
          ss = (case jm_get (bySession x) k of None \<Rightarrow> [] | Some ss \<Rightarrow> ss);
          n = (case jm_get (tabCounts x) t of Some c \<Rightarrow> c | None \<Rightarrow> 0) + 1
      in advanceTabGeneration t
           (x\<lparr>bySession := jm_set (bySession x) k (js_add s ss),
              bySocket := jm_set (bySocket x) s \<lparr>authority = a, terminalTabId = t\<rparr>,
              tabCounts := jm_set (tabCounts x) t n\<rparr>))"

text \<open>
  The session entry the new registration joins: created empty when the session is new and there is
  room, refused when there is none or when the first registered socket belongs to another generation
  of the session.
\<close>

definition openSession ::
  "ApplicationSessionAuthority \<Rightarrow> WebSocketAuthIndex \<Rightarrow> WebSocketAuthIndex option"
where
  "openSession a x =
     (let k = applicationSessionId a
      in case jm_get (bySession x) k of
           None \<Rightarrow>
             if length (bySession x) \<ge> maxSessions x then None
             else Some (x\<lparr>bySession := jm_set (bySession x) k []\<rparr>)
         | Some [] \<Rightarrow> None
         | Some (s # _) \<Rightarrow>
             (case jm_get (bySocket x) s of
                None \<Rightarrow> None
              | Some r \<Rightarrow> if generation (authority r) \<noteq> generation a then None else Some x))"

definition completeRegistration ::
  "'w index_env \<Rightarrow> ApplicationSessionAuthority \<Rightarrow> string \<Rightarrow> nat \<Rightarrow> 'w index_state
   \<Rightarrow> bool \<times> 'w index_state"
where
  "completeRegistration E a t s st =
     (case sock_listen E (snd st) s of
        (False, w) \<Rightarrow> (False, (dropEmptySession (applicationSessionId a) (fst st), w))
      | (True, w) \<Rightarrow>
          if \<not> sock_open E w s
          then (False, (dropEmptySession (applicationSessionId a) (fst st), w))
          else
            (case checkActive E a (fst st, w) of
               (False, (x2, w2)) \<Rightarrow> (False, (dropEmptySession (applicationSessionId a) x2, w2))
             | (True, (x2, w2)) \<Rightarrow> (True, (insertRegistration a t s x2, w2))))"

definition registerIfActive ::
  "'w index_env \<Rightarrow> ApplicationSessionAuthority \<Rightarrow> string \<Rightarrow> nat \<Rightarrow> 'w index_state
   \<Rightarrow> bool \<times> 'w index_state"
where
  "registerIfActive E a t s st =
     (if disposed (fst st) \<or> \<not> sock_open E (snd st) s \<or> jm_get (bySocket (fst st)) s \<noteq> None \<or>
         length (bySocket (fst st)) \<ge> maxSockets (fst st)
      then (False, st)
      else
        (case checkActive E a st of
           (False, st1) \<Rightarrow> (False, st1)
         | (True, st1) \<Rightarrow>
             (case openSession a (fst st1) of
                None \<Rightarrow> (False, st1)
              | Some x1 \<Rightarrow> completeRegistration E a t s (x1, snd st1))))"

text \<open>
  \<open>sweepExpired\<close>: let the service revoke what has expired, then recheck every socket of the snapshot
  taken after that.
\<close>

fun recheck :: "'w index_env \<Rightarrow> (nat \<times> Registration) list \<Rightarrow> 'w index_state \<Rightarrow> 'w index_state" where
  "recheck E [] st = st"
| "recheck E ((s, r) # rs) st =
     (case checkActive E (authority r) st of
        (True, st1) \<Rightarrow> recheck E rs st1
      | (False, st1) \<Rightarrow> recheck E rs (snd (closeAuthenticationRequired E s st1)))"

definition sweepExpired :: "'w index_env \<Rightarrow> 'w index_state \<Rightarrow> 'w index_state" where
  "sweepExpired E st =
     (let (revoked, w) = auth_sweep E (snd st);
          st1 = (if disposed (fst st) then (fst st, w) else closeSessions E revoked (fst st, w))
      in recheck E (bySocket (fst st1)) st1)"

definition dispose :: "'w index_env \<Rightarrow> 'w index_state \<Rightarrow> 'w index_state" where
  "dispose E st =
     (if disposed (fst st) then st
      else closeSockets E (jm_keys (bySocket (fst st))) ((fst st)\<lparr>disposed := True\<rparr>, snd st))"

definition connectedCount :: "WebSocketAuthIndex \<Rightarrow> nat" where
  "connectedCount x = length (bySocket x)"

definition countForTab :: "WebSocketAuthIndex \<Rightarrow> string \<Rightarrow> int" where
  "countForTab x t = (case jm_get (tabCounts x) t of Some c \<Rightarrow> c | None \<Rightarrow> 0)"

definition MAX_RUNTIME_SNAPSHOTS :: nat where
  "MAX_RUNTIME_SNAPSHOTS = 20"

definition tab_entries :: "WebSocketAuthIndex \<Rightarrow> (string \<times> int) list" where
  "tab_entries x = take MAX_RUNTIME_SNAPSHOTS (tabCounts x)"

definition trackedTabs :: "WebSocketAuthIndex \<Rightarrow> nat" where
  "trackedTabs x = length (tabGenerations x)"

definition socketCleanupSnapshot :: "WebSocketAuthIndex \<Rightarrow> string \<Rightarrow> nat \<times> int" where
  "socketCleanupSnapshot x t = (tab_generation x t, countForTab x t)"

datatype index_event =
    Register ApplicationSessionAuthority string nat
  | Unregister nat
  | CloseSession string
  | CloseSocket nat
  | Check ApplicationSessionAuthority
  | Sweep
  | Dispose

fun index_step :: "'w index_env \<Rightarrow> index_event \<Rightarrow> 'w index_state \<Rightarrow> 'w index_state" where
  "index_step E (Register a t s) st = snd (registerIfActive E a t s st)"
| "index_step E (Unregister s) st = (unregister s (fst st), snd st)"
| "index_step E (CloseSession a) st = closeSession E a st"
| "index_step E (CloseSocket s) st = snd (closeAuthenticationRequired E s st)"
| "index_step E (Check a) st = snd (isActive E a st)"
| "index_step E Sweep st = sweepExpired E st"
| "index_step E Dispose st = dispose E st"


section \<open>Invariant\<close>

definition registered :: "WebSocketAuthIndex \<Rightarrow> string \<Rightarrow> nat set" where
  "registered x a =
     {s. \<exists>r. jm_get (bySocket x) s = Some r \<and> applicationSessionId (authority r) = a}"

definition tab_sockets :: "WebSocketAuthIndex \<Rightarrow> string \<Rightarrow> nat set" where
  "tab_sockets x t = {s. \<exists>r. jm_get (bySocket x) s = Some r \<and> terminalTabId r = t}"

text \<open>
  \<open>p\<close> names the session, if any, whose entry may be an empty set: the one \<open>registerIfActive\<close> has
  opened and not yet filled.
\<close>

definition sessions_ok :: "string option \<Rightarrow> WebSocketAuthIndex \<Rightarrow> bool" where
  "sessions_ok p x \<longleftrightarrow>
     (\<forall>a. case jm_get (bySession x) a of
            None \<Rightarrow> registered x a = {}
          | Some ss \<Rightarrow> distinct ss \<and> set ss = registered x a \<and> (ss = [] \<longrightarrow> p = Some a))"

definition counts_ok :: "WebSocketAuthIndex \<Rightarrow> bool" where
  "counts_ok x \<longleftrightarrow>
     (\<forall>t. jm_get (tabCounts x) t =
            (if tab_sockets x t = {} then None else Some (int (card (tab_sockets x t)))))"

definition one_generation :: "WebSocketAuthIndex \<Rightarrow> bool" where
  "one_generation x \<longleftrightarrow>
     (\<forall>s s' r r'. jm_get (bySocket x) s = Some r \<and> jm_get (bySocket x) s' = Some r' \<and>
        applicationSessionId (authority r) = applicationSessionId (authority r') \<longrightarrow>
        generation (authority r) = generation (authority r'))"

definition bounds_ok :: "WebSocketAuthIndex \<Rightarrow> bool" where
  "bounds_ok x \<longleftrightarrow>
     jm_wf (bySession x) \<and> jm_wf (bySocket x) \<and> jm_wf (tabCounts x) \<and> jm_wf (tabGenerations x) \<and>
     length (bySocket x) \<le> maxSockets x \<and> length (bySession x) \<le> maxSessions x \<and>
     length (tabGenerations x) \<le> MAX_TAB_GENERATIONS"

definition index_inv_with :: "string option \<Rightarrow> WebSocketAuthIndex \<Rightarrow> bool" where
  "index_inv_with p x \<longleftrightarrow> sessions_ok p x \<and> counts_ok x \<and> one_generation x \<and> bounds_ok x"

abbreviation index_inv :: "WebSocketAuthIndex \<Rightarrow> bool" where
  "index_inv \<equiv> index_inv_with None"

text \<open>
  The capacities are constant and generations grow, strictly for every tab whose set of sockets
  changed.
\<close>

definition gen_le :: "WebSocketAuthIndex \<Rightarrow> WebSocketAuthIndex \<Rightarrow> bool" where
  "gen_le x y \<longleftrightarrow>
     maxSockets y = maxSockets x \<and> maxSessions y = maxSessions x \<and>
     (\<forall>t. tab_generation x t \<le> tab_generation y t \<and>
          (tab_sockets x t \<noteq> tab_sockets y t \<longrightarrow> tab_generation x t < tab_generation y t))"

lemma gen_le_refl [simp]: "gen_le x x"
  by (simp add: gen_le_def)

lemma gen_le_trans: "gen_le x y \<Longrightarrow> gen_le y z \<Longrightarrow> gen_le x z"
  unfolding gen_le_def by (metis le_less_trans less_le_trans order_trans)

lemma finite_tab_sockets [simp]: "finite (tab_sockets x t)"
proof -
  have "tab_sockets x t \<subseteq> dom (jm_get (bySocket x))" by (auto simp: tab_sockets_def)
  then show ?thesis by (rule finite_subset) (rule finite_dom_map_of)
qed

subsection \<open>Generations\<close>

lemma advance_frame [simp]:
  "bySession (advanceTabGeneration t x) = bySession x"
  "bySocket (advanceTabGeneration t x) = bySocket x"
  "tabCounts (advanceTabGeneration t x) = tabCounts x"
  "maxSockets (advanceTabGeneration t x) = maxSockets x"
  "maxSessions (advanceTabGeneration t x) = maxSessions x"
  "disposed (advanceTabGeneration t x) = disposed x"
  by (auto simp: advanceTabGeneration_def Let_def split: list.split)

lemma advance_cases:
  obtains (keep) g where "g = touch t (Suc (tab_generation x t)) (tabGenerations x)"
      "length g \<le> MAX_TAB_GENERATIONS" "advanceTabGeneration t x = x\<lparr>tabGenerations := g\<rparr>"
  | (evict) g j og r where "g = touch t (Suc (tab_generation x t)) (tabGenerations x)"
      "MAX_TAB_GENERATIONS < length g" "g = (j, og) # r"
      "advanceTabGeneration t x = x\<lparr>tabGenerations := drop_oldest g,
         evictionGeneration := max (Suc (evictionGeneration x)) og\<rparr>"
proof -
  define g where "g = touch t (Suc (tab_generation x t)) (tabGenerations x)"
  have "g \<noteq> []" by (simp add: g_def touch_append)
  then obtain j og r where g: "g = (j, og) # r" by (metis list.exhaust prod.exhaust)
  show thesis
  proof (cases "length g \<le> MAX_TAB_GENERATIONS")
    case True
    show ?thesis by (rule keep [OF g_def True]) (use True in \<open>simp add: advanceTabGeneration_def g_def Let_def\<close>)
  next
    case False
    have "advanceTabGeneration t x = x\<lparr>tabGenerations := drop_oldest g,
         evictionGeneration := max (Suc (evictionGeneration x)) og\<rparr>"
      unfolding advanceTabGeneration_def Let_def g_def [symmetric] using False g by simp
    with False show ?thesis by (intro evict [OF g_def _ g]) simp_all
  qed
qed

lemma advance_length:
  assumes "length (tabGenerations x) \<le> MAX_TAB_GENERATIONS"
  shows "length (tabGenerations (advanceTabGeneration t x)) \<le> MAX_TAB_GENERATIONS"
proof (cases rule: advance_cases [of t x])
  case (keep g)
  then show ?thesis by simp
next
  case (evict g j og r)
  have "length g \<le> Suc MAX_TAB_GENERATIONS"
    unfolding evict(1) using length_touch assms by (meson Suc_le_mono le_trans)
  moreover have "length (drop_oldest g) < length g"
    by (rule length_drop_oldest) (simp add: evict(3))
  ultimately show ?thesis unfolding evict(4) by simp
qed

lemma advance_wf:
  assumes "jm_wf (tabGenerations x)"
  shows "jm_wf (tabGenerations (advanceTabGeneration t x))"
proof (cases rule: advance_cases [of t x])
  case (keep g)
  with assms show ?thesis by simp
next
  case (evict g j og r)
  have "jm_wf g" unfolding evict(1) using assms by (rule touch_wf)
  then show ?thesis unfolding evict(4) by simp
qed

lemma advance_tab_strict: "tab_generation x t < tab_generation (advanceTabGeneration t x) t"
proof (cases rule: advance_cases [of t x])
  case (keep g)
  then show ?thesis by (simp add: tab_generation_def)
next
  case (evict g j og r)
  from evict(2) have "1 < length (touch t (Suc (tab_generation x t)) (tabGenerations x))"
    by (simp add: evict(1) MAX_TAB_GENERATIONS_def)
  then have "jm_get (drop_oldest g) t = Some (Suc (tab_generation x t))"
    unfolding evict(1) by (rule drop_oldest_touch_get)
  then show ?thesis unfolding evict(4) by (simp add: tab_generation_def)
qed

lemma advance_tab_mono: "tab_generation x k \<le> tab_generation (advanceTabGeneration t x) k"
proof (cases "k = t")
  case True
  then show ?thesis using advance_tab_strict [of x t] by simp
next
  case other: False
  show ?thesis
  proof (cases rule: advance_cases [of t x])
    case (keep g)
    with other show ?thesis by (simp add: tab_generation_def split: option.split)
  next
    case (evict g j og r)
    have gk: "jm_get g k = jm_get (tabGenerations x) k" using other by (simp add: evict(1))
    have "jm_get (drop_oldest g) k = (if k = j then None else jm_get g k)"
      by (simp add: evict(3) drop_oldest_def)
    moreover have "jm_get g j = Some og" by (simp add: evict(3))
    ultimately show ?thesis unfolding evict(4) using gk
      by (auto simp: tab_generation_def split: option.splits)
  qed
qed

lemma tab_sockets_advance [simp]: "tab_sockets (advanceTabGeneration t x) = tab_sockets x"
  by (simp add: tab_sockets_def fun_eq_iff)

lemma registered_advance [simp]: "registered (advanceTabGeneration t x) = registered x"
  by (simp add: registered_def fun_eq_iff)

lemma inv_advance: "index_inv_with p x \<Longrightarrow> index_inv_with p (advanceTabGeneration t x)"
  by (simp add: index_inv_with_def sessions_ok_def counts_ok_def one_generation_def bounds_ok_def
      advance_wf advance_length cong: option.case_cong) blast

text \<open>A change of the maps confined to the sockets of one tab, followed by an advance for that tab.\<close>

lemma gen_le_advance:
  assumes "tabGenerations y = tabGenerations x" "evictionGeneration y = evictionGeneration x"
    and "maxSockets y = maxSockets x" "maxSessions y = maxSessions x"
    and "\<And>k. k \<noteq> t \<Longrightarrow> tab_sockets y k = tab_sockets x k"
  shows "gen_le x (advanceTabGeneration t y)"
proof -
  have e: "tab_generation x = tab_generation y"
    using assms(1,2) by (simp add: tab_generation_def fun_eq_iff split: option.split)
  show ?thesis unfolding gen_le_def e
    using advance_tab_mono [of y] advance_tab_strict [of y t] assms(3-5) by force
qed

subsection \<open>Removing a registration\<close>

lemma removeRegistration_frame [simp]:
  "bySocket (removeRegistration s r x) = jm_delete (bySocket x) s"
  "maxSockets (removeRegistration s r x) = maxSockets x"
  "maxSessions (removeRegistration s r x) = maxSessions x"
  "disposed (removeRegistration s r x) = disposed x"
  "tabGenerations (removeRegistration s r x) = tabGenerations x"
  "evictionGeneration (removeRegistration s r x) = evictionGeneration x"
  by (simp_all add: removeRegistration_def Let_def)

lemma registered_remove [simp]: "registered (removeRegistration s r x) a = registered x a - {s}"
  by (auto simp: registered_def)

lemma tab_sockets_remove [simp]: "tab_sockets (removeRegistration s r x) t = tab_sockets x t - {s}"
  by (auto simp: tab_sockets_def)

lemma unregister_bySocket [simp]: "bySocket (unregister s x) = jm_delete (bySocket x) s"
proof (cases "jm_get (bySocket x) s")
  case None
  then have "jm_delete (bySocket x) s = bySocket x" by (intro delete_id) (simp add: jm_get_None)
  with None show ?thesis unfolding unregister_def None by simp
qed (simp add: unregister_def)

lemma unregister_frame [simp]:
  "maxSockets (unregister s x) = maxSockets x" "maxSessions (unregister s x) = maxSessions x"
  "disposed (unregister s x) = disposed x"
  by (cases "jm_get (bySocket x) s"; simp add: unregister_def)+

lemma other_session: 
  "jm_get (bySocket x) s = Some r \<Longrightarrow> a \<noteq> applicationSessionId (authority r) \<Longrightarrow>
   registered x a - {s} = registered x a"
  by (auto simp: registered_def)

lemma other_tab:
  "jm_get (bySocket x) s = Some r \<Longrightarrow> t \<noteq> terminalTabId r \<Longrightarrow> tab_sockets x t - {s} = tab_sockets x t"
  by (auto simp: tab_sockets_def)

lemma sessions_remove:
  assumes "sessions_ok p x" "jm_get (bySocket x) s = Some r"
  shows "sessions_ok p (removeRegistration s r x)"
  unfolding sessions_ok_def
proof
  fix a
  let ?k = "applicationSessionId (authority r)" and ?y = "removeRegistration s r x"
  have "s \<in> registered x ?k" using assms(2) by (simp add: registered_def)
  with assms(1) obtain ss where ss: "jm_get (bySession x) ?k = Some ss" "distinct ss"
    "set ss = registered x ?k"
    by (fastforce simp: sessions_ok_def split: option.splits dest: spec [of _ ?k])
  have "js_remove s ss = [] \<longleftrightarrow> registered x ?k - {s} = {}"
    using ss(3) set_js_remove [of s ss] by (metis set_empty)
  then show "case jm_get (bySession ?y) a of None \<Rightarrow> registered ?y a = {}
      | Some ss \<Rightarrow> distinct ss \<and> set ss = registered ?y a \<and> (ss = [] \<longrightarrow> p = Some a)"
    using spec [OF assms(1) [unfolded sessions_ok_def], of a] ss other_session [OF assms(2), of a]
    by (cases "a = ?k") (auto simp: removeRegistration_def Let_def registered_def split: option.splits)
qed

lemma tabCounts_remove:
  "jm_get (tabCounts x) (terminalTabId r) = Some n \<Longrightarrow>
   jm_get (tabCounts (removeRegistration s r x)) t =
     (if t = terminalTabId r then if n = 1 then None else Some (n - 1) else jm_get (tabCounts x) t)"
  by (simp add: removeRegistration_def Let_def)

lemma counts_remove:
  assumes "counts_ok x" "jm_get (bySocket x) s = Some r"
  shows "counts_ok (removeRegistration s r x)"
  unfolding counts_ok_def
proof
  fix t
  let ?t = "terminalTabId r" and ?y = "removeRegistration s r x"
  have own: "s \<in> tab_sockets x ?t" using assms(2) by (simp add: tab_sockets_def)
  then have pos: "0 < card (tab_sockets x ?t)" using card_gt_0_iff finite_tab_sockets by blast
  have c: "jm_get (tabCounts x) ?t = Some (int (card (tab_sockets x ?t)))"
    using own assms(1) by (auto simp: counts_ok_def)
  have z: "tab_sockets ?y ?t = {} \<longleftrightarrow> card (tab_sockets x ?t) = 1"
    using own by (auto simp: card_1_singleton_iff)
  have d: "card (tab_sockets ?y ?t) = card (tab_sockets x ?t) - 1" using own by simp
  show "jm_get (tabCounts ?y) t =
      (if tab_sockets ?y t = {} then None else Some (int (card (tab_sockets ?y t))))"
  proof (cases "t = ?t")
    case True
    show ?thesis unfolding True tabCounts_remove [OF c] z d using pos by simp
  next
    case False
    then show ?thesis using assms(1) other_tab [OF assms(2) False]
      by (simp add: tabCounts_remove [OF c] counts_ok_def)
  qed
qed

lemma length_jm_set_same: "jm_get m k = Some v \<Longrightarrow> length (jm_set m k w) = length m"
  by (induction m) auto

lemma unregister_inv:
  assumes "index_inv_with p x"
  shows "index_inv_with p (unregister s x)"
proof (cases "jm_get (bySocket x) s")
  case None
  with assms show ?thesis by (simp add: unregister_def)
next
  case (Some r)
  note inv = assms [unfolded index_inv_with_def]
  have "length (bySession (removeRegistration s r x)) \<le> length (bySession x)"
    using length_jm_delete_le [of "applicationSessionId (authority r)" "bySession x"]
    by (simp add: removeRegistration_def Let_def length_jm_set_same split: option.split)
  moreover have "jm_wf (bySession x) \<Longrightarrow> jm_wf (bySession (removeRegistration s r x))"
    by (simp add: removeRegistration_def Let_def split: option.split)
  moreover have "jm_wf (tabCounts x) \<Longrightarrow> jm_wf (tabCounts (removeRegistration s r x))"
    by (simp add: removeRegistration_def Let_def)
  ultimately have "bounds_ok (removeRegistration s r x)"
    using inv length_jm_delete_le [of s "bySocket x"] by (simp add: bounds_ok_def)
  moreover have "one_generation (removeRegistration s r x)"
    using conjunct1 [OF conjunct2 [OF conjunct2 [OF inv]]]
    unfolding one_generation_def removeRegistration_frame by (metis jm_get_delete option.distinct(1))
  ultimately have "index_inv_with p (removeRegistration s r x)"
    using inv sessions_remove [OF _ Some] counts_remove [OF _ Some]
    by (simp add: index_inv_with_def)
  then show ?thesis using Some inv_advance by (simp add: unregister_def)
qed

lemma unregister_gen_le: "gen_le x (unregister s x)"
proof (cases "jm_get (bySocket x) s")
  case None
  then show ?thesis by (simp add: unregister_def)
next
  case (Some r)
  have "gen_le x (advanceTabGeneration (terminalTabId r) (removeRegistration s r x))"
    by (rule gen_le_advance) (simp_all add: other_tab [OF Some])
  with Some show ?thesis by (simp add: unregister_def)
qed


section \<open>Closing sockets\<close>

text \<open>Every closing operation acts on the index as a sequence of \<open>unregister\<close> calls.\<close>

definition shrinks :: "WebSocketAuthIndex \<Rightarrow> WebSocketAuthIndex \<Rightarrow> bool" where
  "shrinks x y \<longleftrightarrow> (\<exists>ss. y = fold unregister ss x)"

lemma shrinks_refl [simp]: "shrinks x x"
  unfolding shrinks_def by (rule exI [of _ "[]"]) simp

lemma shrinks_trans: "shrinks x y \<Longrightarrow> shrinks y z \<Longrightarrow> shrinks x z"
  unfolding shrinks_def by (metis comp_apply fold_append)

lemma shrinks_unregister: "shrinks x (unregister s x)"
  unfolding shrinks_def by (rule exI [of _ "[s]"]) simp

lemma shrinks_induct:
  assumes "shrinks x y" and "P x" and "\<And>s z. P z \<Longrightarrow> P (unregister s z)"
  shows "P y"
proof -
  have "P (fold unregister ss x)" for ss
    using assms(2) by (induction ss arbitrary: x) (auto intro: assms(3))
  with assms(1) show ?thesis by (auto simp: shrinks_def)
qed

lemma shrinks_inv: "shrinks x y \<Longrightarrow> index_inv_with p x \<Longrightarrow> index_inv_with p y"
  by (rule shrinks_induct [of x y "index_inv_with p"]) (auto intro: unregister_inv)

lemma shrinks_gen_le: "shrinks x y \<Longrightarrow> gen_le x y"
  by (rule shrinks_induct [of x y "gen_le x"]) (auto intro: gen_le_trans unregister_gen_le)

lemma shrinks_bySocket:
  assumes "shrinks x y"
  shows "jm_get (bySocket y) s = Some r \<Longrightarrow> jm_get (bySocket x) s = Some r"
  using shrinks_induct [OF assms, of "\<lambda>z. jm_get (bySocket z) s = Some r \<longrightarrow> jm_get (bySocket x) s = Some r"]
  by auto

lemma shrinks_frame:
  assumes "shrinks x y"
  shows "maxSockets y = maxSockets x" "maxSessions y = maxSessions x" "disposed y = disposed x"
    "length (bySocket y) \<le> length (bySocket x)"
proof -
  show "maxSockets y = maxSockets x"
    by (rule shrinks_induct [OF assms, where P = "\<lambda>z. maxSockets z = maxSockets x"]) simp_all
  show "maxSessions y = maxSessions x"
    by (rule shrinks_induct [OF assms, where P = "\<lambda>z. maxSessions z = maxSessions x"]) simp_all
  show "disposed y = disposed x"
    by (rule shrinks_induct [OF assms, where P = "\<lambda>z. disposed z = disposed x"]) simp_all
  show "length (bySocket y) \<le> length (bySocket x)"
    by (rule shrinks_induct [OF assms, where P = "\<lambda>z. length (bySocket z) \<le> length (bySocket x)"])
      (auto intro: order_trans [OF length_jm_delete_le])
qed

lemma shrinks_closeRequired: "shrinks (fst st) (fst (snd (closeAuthenticationRequired E s st)))"
  by (auto simp: closeAuthenticationRequired_def shrinks_unregister split: prod.split)

lemma shrinks_fold:
  "(\<And>z st. shrinks (fst st) (fst (f z st))) \<Longrightarrow> shrinks (fst st) (fst (fold f zs st))"
proof (induction zs arbitrary: st)
  case (Cons z zs)
  have "shrinks (fst (f z st)) (fst (fold f zs (f z st)))" by (rule Cons.IH [OF Cons.prems])
  from shrinks_trans [OF Cons.prems this] show ?case by simp
qed simp

lemma shrinks_closeSockets: "shrinks (fst st) (fst (closeSockets E ss st))"
  unfolding closeSockets_def by (rule shrinks_fold) (rule shrinks_closeRequired)

lemma shrinks_closeSession: "shrinks (fst st) (fst (closeSession E a st))"
  unfolding closeSession_def by (rule shrinks_closeSockets)

lemma shrinks_closeSessions: "shrinks (fst st) (fst (closeSessions E as st))"
  unfolding closeSessions_def by (rule shrinks_fold) (rule shrinks_closeSession)

lemma shrinks_checkActive: "shrinks (fst st) (fst (snd (checkActive E a st)))"
  using shrinks_closeSessions [of "(fst st, snd (auth_active E (snd st) a))" E]
  by (auto simp: checkActive_def split: prod.split auth_answer.split)

lemma checkActive_True: "checkActive E a st = (True, st') \<Longrightarrow> fst st' = fst st"
  by (auto simp: checkActive_def split: prod.splits auth_answer.splits)

lemma shrinks_recheck: "shrinks (fst st) (fst (recheck E rs st))"
proof (induction rs arbitrary: st)
  case (Cons p rs)
  obtain s r where p: "p = (s, r)" by (metis surj_pair)
  obtain b st1 where c: "checkActive E (authority r) st = (b, st1)" by (metis surj_pair)
  then have "shrinks (fst st) (fst st1)" using shrinks_checkActive [of st E "authority r"] by simp
  moreover have "shrinks (fst st1) (fst (recheck E rs (snd (closeAuthenticationRequired E s st1))))"
    by (rule shrinks_trans [OF shrinks_closeRequired Cons.IH])
  ultimately show ?case using Cons.IH [of st1] shrinks_trans [of "fst st" "fst st1"]
    by (simp add: p c split: bool.split)
qed simp

lemma shrinks_sweep: "shrinks (fst st) (fst (sweepExpired E st))"
proof -
  obtain as w where w: "auth_sweep E (snd st) = (as, w)" by (metis surj_pair)
  define st1 where "st1 = (if disposed (fst st) then (fst st, w) else closeSessions E as (fst st, w))"
  have "shrinks (fst st) (fst st1)"
    using shrinks_closeSessions [of "(fst st, w)" E as] by (simp add: st1_def)
  from shrinks_trans [OF this shrinks_recheck] show ?thesis
    by (simp only: sweepExpired_def w Let_def prod.case st1_def)
qed


section \<open>Registration\<close>

lemma inv_with_mono: "index_inv x \<Longrightarrow> index_inv_with p x"
  unfolding index_inv_with_def sessions_ok_def by (fastforce split: option.splits)

lemma one_generationD:
  "\<lbrakk>one_generation x; jm_get (bySocket x) s = Some r; jm_get (bySocket x) s' = Some r';
    applicationSessionId (authority r) = applicationSessionId (authority r')\<rbrakk>
   \<Longrightarrow> generation (authority r) = generation (authority r')"
  unfolding one_generation_def by blast

lemma one_generationI:
  "(\<And>s r s' r'. \<lbrakk>jm_get (bySocket x) s = Some r; jm_get (bySocket x) s' = Some r';
     applicationSessionId (authority r) = applicationSessionId (authority r')\<rbrakk>
     \<Longrightarrow> generation (authority r) = generation (authority r')) \<Longrightarrow> one_generation x"
  unfolding one_generation_def by blast

lemma one_generation_cong: "bySocket y = bySocket x \<Longrightarrow> one_generation y = one_generation x"
  by (simp add: one_generation_def)

lemma sessions_at:
  "index_inv_with p x \<Longrightarrow>
   (case jm_get (bySession x) a of
      None \<Rightarrow> registered x a = {}
    | Some ss \<Rightarrow> distinct ss \<and> set ss = registered x a \<and> (ss = [] \<longrightarrow> p = Some a))"
  unfolding index_inv_with_def sessions_ok_def by blast

lemma openSession_cases:
  assumes "openSession a x = Some y"
  obtains (new) "jm_get (bySession x) (applicationSessionId a) = None"
      "length (bySession x) < maxSessions x"
      "y = x\<lparr>bySession := jm_set (bySession x) (applicationSessionId a) []\<rparr>"
  | (join) s r ss where "jm_get (bySession x) (applicationSessionId a) = Some (s # ss)"
      "jm_get (bySocket x) s = Some r" "generation (authority r) = generation a" "y = x"
proof (cases "jm_get (bySession x) (applicationSessionId a)")
  case None
  with assms show thesis by (intro new) (auto simp: openSession_def Let_def split: if_splits)
next
  case (Some l)
  with assms obtain s ss where l: "l = s # ss" by (cases l) (auto simp: openSession_def Let_def)
  with assms Some obtain r where "jm_get (bySocket x) s = Some r"
    by (cases "jm_get (bySocket x) s") (auto simp: openSession_def Let_def)
  with assms Some l show thesis by (intro join) (auto simp: openSession_def Let_def split: if_splits)
qed

lemma openSession_Some:
  assumes "index_inv x" "openSession a x = Some y"
  shows "index_inv_with (Some (applicationSessionId a)) y"
    and "bySocket y = bySocket x" "gen_le x y" "maxSockets y = maxSockets x"
    and "jm_get (bySession y) (applicationSessionId a) \<noteq> None"
    and "\<forall>s r. jm_get (bySocket x) s = Some r \<and>
           applicationSessionId (authority r) = applicationSessionId a \<longrightarrow>
           generation (authority r) = generation a"
proof -
  let ?k = "applicationSessionId a"
  note inv = assms(1) [unfolded index_inv_with_def]
  have ses: "case jm_get (bySession x) ?k of None \<Rightarrow> registered x ?k = {}
      | Some ss \<Rightarrow> distinct ss \<and> set ss = registered x ?k \<and> ss \<noteq> []"
    using sessions_at [OF assms(1), of ?k] by (auto split: option.splits)
  show "jm_get (bySession y) ?k \<noteq> None" "bySocket y = bySocket x" "maxSockets y = maxSockets x"
    by (rule openSession_cases [OF assms(2)]; simp)+
  show "gen_le x y"
    by (rule openSession_cases [OF assms(2)])
      (auto simp: gen_le_def tab_generation_def tab_sockets_def cong: option.case_cong)
  show "\<forall>s r. jm_get (bySocket x) s = Some r \<and> applicationSessionId (authority r) = ?k \<longrightarrow>
      generation (authority r) = generation a"
  using assms(2)
  proof (cases rule: openSession_cases)
    case new
    with ses show ?thesis by (auto simp: registered_def)
  next
    case (join s r ss)
    with ses have "s \<in> registered x ?k" by auto
    with join(2) have "applicationSessionId (authority r) = ?k" by (simp add: registered_def)
    with join(2,3) inv show ?thesis by (metis one_generationD)
  qed
  show "index_inv_with (Some ?k) y"
  using assms(2)
  proof (cases rule: openSession_cases)
    case new
    have r: "registered y = registered x" "tab_sockets y = tab_sockets x"
      by (simp_all add: new(3) registered_def tab_sockets_def fun_eq_iff)
    have "sessions_ok (Some ?k) y"
      unfolding sessions_ok_def r
    proof
      fix b
      show "case jm_get (bySession y) b of None \<Rightarrow> registered x b = {}
        | Some ss \<Rightarrow> distinct ss \<and> set ss = registered x b \<and> (ss = [] \<longrightarrow> Some ?k = Some b)"
        using sessions_at [OF assms(1), of b] ses new(1) by (auto simp: new(3) split: option.splits)
    qed
    moreover have "counts_ok y" using inv unfolding counts_ok_def r by (simp add: new(3))
    moreover have "one_generation y"
      using inv by (auto intro!: one_generationI simp: new(3) dest: one_generationD)
    moreover have "bounds_ok y"
      using inv new(2) by (simp add: bounds_ok_def new(3) length_jm_set)
    ultimately show ?thesis by (simp add: index_inv_with_def)
  next
    case (join s r ss)
    with assms(1) show ?thesis by (simp add: inv_with_mono)
  qed
qed

lemma dropEmpty_bySession:
  "jm_get (bySession (dropEmptySession k x)) b =
     (if b = k \<and> jm_get (bySession x) k = Some [] then None else jm_get (bySession x) b)"
  by (simp add: dropEmptySession_def split: option.split list.split)

lemma dropEmpty_inv:
  assumes "index_inv_with (Some k) x"
  shows "index_inv (dropEmptySession k x)" "gen_le x (dropEmptySession k x)"
    "bySocket (dropEmptySession k x) = bySocket x"
proof -
  have d: "registered (dropEmptySession k x) = registered x"
    "tab_sockets (dropEmptySession k x) = tab_sockets x"
    "tab_generation (dropEmptySession k x) = tab_generation x"
    by (auto simp: dropEmptySession_def registered_def tab_sockets_def tab_generation_def fun_eq_iff
        split: option.split list.split)
  show "bySocket (dropEmptySession k x) = bySocket x" "gen_le x (dropEmptySession k x)"
    using d by (auto simp: dropEmptySession_def gen_le_def split: option.split list.split)
  note inv = assms [unfolded index_inv_with_def]
  have "sessions_ok None (dropEmptySession k x)"
    unfolding sessions_ok_def d
  proof
    fix b
    show "case jm_get (bySession (dropEmptySession k x)) b of None \<Rightarrow> registered x b = {}
      | Some ss \<Rightarrow> distinct ss \<and> set ss = registered x b \<and> (ss = [] \<longrightarrow> None = Some b)"
      using sessions_at [OF assms, of b]
      by (cases "jm_get (bySession x) b") (auto simp: dropEmpty_bySession)
  qed
  moreover have "counts_ok (dropEmptySession k x)"
    using inv unfolding counts_ok_def d by (auto simp: dropEmptySession_def split: option.split list.split)
  moreover have "one_generation (dropEmptySession k x)"
    using inv one_generation_cong [OF \<open>bySocket (dropEmptySession k x) = bySocket x\<close>] by simp
  moreover have "bounds_ok (dropEmptySession k x)"
    using inv order_trans [OF length_jm_delete_le [of k "bySession x"]]
    by (auto simp: bounds_ok_def dropEmptySession_def split: option.split list.split)
  ultimately show "index_inv (dropEmptySession k x)" by (simp add: index_inv_with_def)
qed

definition addRegistration ::
  "ApplicationSessionAuthority \<Rightarrow> string \<Rightarrow> nat \<Rightarrow> WebSocketAuthIndex \<Rightarrow> WebSocketAuthIndex"
where
  "addRegistration a t s x =
     x\<lparr>bySession := jm_set (bySession x) (applicationSessionId a)
         (js_add s (case jm_get (bySession x) (applicationSessionId a) of None \<Rightarrow> [] | Some ss \<Rightarrow> ss)),
       bySocket := jm_set (bySocket x) s \<lparr>authority = a, terminalTabId = t\<rparr>,
       tabCounts := jm_set (tabCounts x) t
         ((case jm_get (tabCounts x) t of Some c \<Rightarrow> c | None \<Rightarrow> 0) + 1)\<rparr>"

lemma insertRegistration_eq:
  "insertRegistration a t s x = advanceTabGeneration t (addRegistration a t s x)"
  by (simp add: insertRegistration_def addRegistration_def Let_def)

lemma insertRegistration_bySocket:
  "bySocket (insertRegistration a t s x) = jm_set (bySocket x) s \<lparr>authority = a, terminalTabId = t\<rparr>"
  by (simp add: insertRegistration_eq addRegistration_def)

lemma registered_add:
  "jm_get (bySocket x) s = None \<Longrightarrow>
   registered (addRegistration a t s x) k =
     (if k = applicationSessionId a then insert s (registered x k) else registered x k)"
  by (auto simp: registered_def addRegistration_def)

lemma tab_sockets_add:
  "jm_get (bySocket x) s = None \<Longrightarrow>
   tab_sockets (addRegistration a t s x) k =
     (if k = t then insert s (tab_sockets x k) else tab_sockets x k)"
  by (auto simp: tab_sockets_def addRegistration_def)

lemma insertRegistration_inv:
  assumes "index_inv_with (Some (applicationSessionId a)) x" "jm_get (bySocket x) s = None"
    and "length (bySocket x) < maxSockets x"
    and "jm_get (bySession x) (applicationSessionId a) \<noteq> None"
    and "\<forall>s r. jm_get (bySocket x) s = Some r \<and>
           applicationSessionId (authority r) = applicationSessionId a \<longrightarrow>
           generation (authority r) = generation a"
  shows "index_inv (insertRegistration a t s x)"
proof -
  let ?k = "applicationSessionId a" and ?y = "addRegistration a t s x"
  note inv = assms(1) [unfolded index_inv_with_def]
  have fresh: "s \<notin> tab_sockets x t" using assms(2) by (simp add: tab_sockets_def)
  have "sessions_ok None ?y"
    unfolding sessions_ok_def registered_add [OF assms(2)]
  proof
    fix b
    show "case jm_get (bySession ?y) b of
        None \<Rightarrow> (if b = ?k then insert s (registered x b) else registered x b) = {}
      | Some ss \<Rightarrow> distinct ss \<and> set ss = (if b = ?k then insert s (registered x b) else registered x b)
          \<and> (ss = [] \<longrightarrow> None = Some b)"
      using sessions_at [OF assms(1), of b] assms(4)
      by (cases "b = ?k") (auto simp: addRegistration_def js_add_def split: option.splits)
  qed
  moreover have "counts_ok ?y"
    using inv fresh unfolding counts_ok_def tab_sockets_add [OF assms(2)]
    by (auto simp: addRegistration_def)
  moreover have "one_generation ?y"
  proof (rule one_generationI)
    fix u r u' r'
    assume "jm_get (bySocket ?y) u = Some r" "jm_get (bySocket ?y) u' = Some r'"
      and "applicationSessionId (authority r) = applicationSessionId (authority r')"
    then show "generation (authority r) = generation (authority r')"
      using one_generationD [of x u r u' r'] inv assms(5)
      by (cases "u = s"; cases "u' = s") (auto simp: addRegistration_def)
  qed
  moreover have "bounds_ok ?y"
    using inv assms(2,3,4)
    by (auto simp: bounds_ok_def addRegistration_def length_jm_set_same
        length_jm_set [of _ _ "bySocket x"])
  ultimately have "index_inv ?y" by (simp add: index_inv_with_def)
  then show ?thesis unfolding insertRegistration_eq by (rule inv_advance)
qed

lemma insertRegistration_gen_le:
  "jm_get (bySocket x) s = None \<Longrightarrow> gen_le x (insertRegistration a t s x)"
  unfolding insertRegistration_eq
  by (rule gen_le_advance) (simp_all add: tab_sockets_add, simp_all add: addRegistration_def)


text \<open>What a registration attempt does to the registered sockets.\<close>

definition register_effect ::
  "ApplicationSessionAuthority \<Rightarrow> string \<Rightarrow> nat \<Rightarrow> WebSocketAuthIndex \<Rightarrow> bool \<Rightarrow> WebSocketAuthIndex \<Rightarrow> bool"
where
  "register_effect a t s x b y \<longleftrightarrow>
     (if b then jm_get (bySocket x) s = None \<and>
               bySocket y = jm_set (bySocket x) s \<lparr>authority = a, terminalTabId = t\<rparr>
      else \<forall>u r. jm_get (bySocket y) u = Some r \<longrightarrow> jm_get (bySocket x) u = Some r)"

lemma complete_step:
  assumes inv: "index_inv x" and o: "openSession a x = Some x1"
    and fresh: "jm_get (bySocket x) s = None" and room: "length (bySocket x) < maxSockets x"
    and run: "completeRegistration E a t s (x1, w0) = (b, st')"
  shows "index_inv (fst st') \<and> gen_le x (fst st') \<and> register_effect a t s x b (fst st')"
proof -
  note os = openSession_Some [OF inv o]
  have drop: "index_inv (dropEmptySession (applicationSessionId a) z) \<and>
      gen_le x (dropEmptySession (applicationSessionId a) z) \<and>
      register_effect a t s x False (dropEmptySession (applicationSessionId a) z)"
    if z: "shrinks x1 z" for z
    using dropEmpty_inv [OF shrinks_inv [OF z os(1)]] shrinks_gen_le [OF z] os(2,3)
      shrinks_bySocket [OF z] by (auto simp: register_effect_def intro: gen_le_trans)
  obtain l w where li: "sock_listen E w0 s = (l, w)" by (metis surj_pair)
  obtain b2 x2 w2 where c: "checkActive E a (x1, w) = (b2, (x2, w2))" by (metis surj_pair)
  then have sh: "shrinks x1 x2" using shrinks_checkActive [of "(x1, w)" E a] by simp
  show ?thesis
  proof (cases "l \<and> sock_open E w s \<and> b2")
    case True
    then have "x2 = x1" using c checkActive_True [of E a "(x1, w)"] by simp
    with True run c li have st': "b" "st' = (insertRegistration a t s x1, w2)"
      by (auto simp: completeRegistration_def)
    have "index_inv (insertRegistration a t s x1)"
      by (rule insertRegistration_inv [OF os(1) _ _ os(5)]) (use os fresh room in auto)
    then show ?thesis
      using st' insertRegistration_gen_le [of x1 s] insertRegistration_bySocket [of a t s x1] os fresh
      by (auto simp: register_effect_def intro: gen_le_trans)
  next
    case False
    with run c li drop [of x1] drop [OF sh] show ?thesis
      by (auto simp: completeRegistration_def split: bool.splits if_splits)
  qed
qed

lemma register_step:
  assumes inv: "index_inv (fst st)" and run: "registerIfActive E a t s st = (b, st')"
  shows "index_inv (fst st') \<and> gen_le (fst st) (fst st') \<and> register_effect a t s (fst st) b (fst st')"
proof (cases "disposed (fst st) \<or> \<not> sock_open E (snd st) s \<or> jm_get (bySocket (fst st)) s \<noteq> None \<or>
    length (bySocket (fst st)) \<ge> maxSockets (fst st)")
  case True
  with assms show ?thesis by (simp add: registerIfActive_def register_effect_def)
next
  case False
  obtain b1 st1 where c: "checkActive E a st = (b1, st1)" by (metis surj_pair)
  then have sh: "shrinks (fst st) (fst st1)" using shrinks_checkActive [of st E a] by simp
  have shr: "index_inv (fst st1) \<and> gen_le (fst st) (fst st1) \<and>
      register_effect a t s (fst st) False (fst st1)"
    using shrinks_inv [OF sh inv] shrinks_gen_le [OF sh] shrinks_bySocket [OF sh]
    by (simp add: register_effect_def)
  show ?thesis
  proof (cases "b1 \<and> openSession a (fst st1) \<noteq> None")
    case True
    then obtain x1 where b1: "b1" and o: "openSession a (fst st1) = Some x1" by auto
    have e: "fst st1 = fst st" using c b1 checkActive_True [of E a st st1] by simp
    from False b1 c o run have "completeRegistration E a t s (x1, snd st1) = (b, st')"
      by (simp add: registerIfActive_def)
    from complete_step [OF inv o [unfolded e] _ _ this] False show ?thesis by simp
  next
    case nope: False
    with False run c shr show ?thesis
      by (auto simp: registerIfActive_def split: bool.splits option.splits)
  qed
qed

lemma inv_disposed: "index_inv x \<Longrightarrow> index_inv (x\<lparr>disposed := True\<rparr>)"
proof -
  have "registered (x\<lparr>disposed := True\<rparr>) = registered x" "tab_sockets (x\<lparr>disposed := True\<rparr>) = tab_sockets x"
    by (simp_all add: registered_def tab_sockets_def fun_eq_iff)
  moreover have "one_generation (x\<lparr>disposed := True\<rparr>) = one_generation x"
    by (rule one_generation_cong) simp
  moreover assume "index_inv x"
  ultimately show ?thesis
    by (simp add: index_inv_with_def sessions_ok_def counts_ok_def bounds_ok_def cong: option.case_cong)
qed

lemma index_step_ok:
  assumes "index_inv (fst st)"
  shows "index_inv (fst (index_step E e st)) \<and> gen_le (fst st) (fst (index_step E e st))"
proof -
  have shr: ?thesis if "shrinks (fst st) (fst (index_step E e st))"
    using shrinks_inv [OF that assms] shrinks_gen_le [OF that] by simp
  show ?thesis
  proof (cases e)
    case (Register a t s)
    then show ?thesis using register_step [OF assms, of E a t s]
      by (cases "registerIfActive E a t s st") simp
  next
    case (Check a)
    then show ?thesis using shr shrinks_checkActive [of st E a] by (simp add: isActive_def)
  next
    case Dispose
    define st1 where "st1 = ((fst st)\<lparr>disposed := True\<rparr>, snd st)"
    have "index_inv (fst st1)" using assms by (simp add: st1_def inv_disposed)
    moreover have "gen_le (fst st) (fst st1)"
      by (simp add: st1_def gen_le_def tab_generation_def tab_sockets_def cong: option.case_cong)
    ultimately have "index_inv (fst (closeSockets E (jm_keys (bySocket (fst st))) st1)) \<and>
        gen_le (fst st) (fst (closeSockets E (jm_keys (bySocket (fst st))) st1))"
      using shrinks_closeSockets [of st1 E] shrinks_inv shrinks_gen_le gen_le_trans by metis
    with Dispose assms show ?thesis by (simp add: dispose_def st1_def)
  qed (use shr in \<open>simp_all add: shrinks_unregister shrinks_closeSession shrinks_closeRequired
      shrinks_sweep\<close>)
qed

definition tabs_changed :: "'w index_env \<Rightarrow> index_event \<Rightarrow> 'w index_state \<Rightarrow> string set" where
  "tabs_changed E e st = {t. tab_sockets (fst (index_step E e st)) t \<noteq> tab_sockets (fst st) t}"

interpretation sockets: generation_source "index_step E" "\<lambda>st. tab_generation (fst st)"
  "tabs_changed E" "\<lambda>st. index_inv (fst st)" for E :: "'w index_env"
proof unfold_locales
  fix st :: "'w index_state" and e k
  assume "index_inv (fst st)"
  note ok = index_step_ok [OF this, of E e]
  show "index_inv (fst (index_step E e st))" using ok ..
  show "tab_generation (fst st) k \<le> tab_generation (fst (index_step E e st)) k"
    using ok by (simp add: gen_le_def)
  show "k \<in> tabs_changed E e st \<Longrightarrow> tab_generation (fst st) k < tab_generation (fst (index_step E e st)) k"
    using ok by (auto simp: gen_le_def tabs_changed_def)
qed


section \<open>Sockets that do close\<close>

text \<open>
  What the \<open>ws\<close> library documents: \<open>terminate\<close> forcibly closes the connection, and closing one
  socket leaves the state of the others alone.
\<close>

definition closes :: "'w index_env \<Rightarrow> bool" where
  "closes E \<longleftrightarrow>
     (\<forall>w s. \<not> sock_open E (sock_terminate E w s) s) \<and>
     (\<forall>w s u. u \<noteq> s \<longrightarrow> sock_open E (sock_close E w s) u = sock_open E w u \<and>
        sock_open E (sock_terminate E w s) u = sock_open E w u)"

lemma secure_closes:
  assumes "closes E"
  obtains w' where "secureAuthenticationClosure E s w = (True, w')"
    "\<And>u. sock_open E w' u = (u \<noteq> s \<and> sock_open E w u)"
proof (rule that)
  show "secureAuthenticationClosure E s w = (True, snd (secureAuthenticationClosure E s w))"
    using assms by (simp add: secureAuthenticationClosure_def Let_def closes_def)
  show "sock_open E (snd (secureAuthenticationClosure E s w)) u = (u \<noteq> s \<and> sock_open E w u)" for u
    using assms by (cases "u = s") (auto simp: secureAuthenticationClosure_def Let_def closes_def)
qed

lemma closeRequired_closes:
  assumes "closes E"
  obtains w' where "closeAuthenticationRequired E s (x, w) = (True, (unregister s x, w'))"
    "\<And>u. sock_open E w' u = (u \<noteq> s \<and> sock_open E w u)"
proof -
  obtain w' where "secureAuthenticationClosure E s w = (True, w')"
    "\<And>u. sock_open E w' u = (u \<noteq> s \<and> sock_open E w u)"
    using secure_closes [OF assms, of s w] by blast
  then show thesis by (intro that) (simp_all add: closeAuthenticationRequired_def)
qed

lemma closeSockets_closes:
  assumes "closes E"
  shows "jm_get (bySocket (fst (closeSockets E ss st))) u =
           (if u \<in> set ss then None else jm_get (bySocket (fst st)) u) \<and>
         sock_open E (snd (closeSockets E ss st)) u = (u \<notin> set ss \<and> sock_open E (snd st) u)"
proof (induction ss arbitrary: st)
  case Nil
  then show ?case by (simp add: closeSockets_def)
next
  case (Cons s ss)
  obtain w' where w: "closeAuthenticationRequired E s st = (True, (unregister s (fst st), w'))"
    "\<And>u. sock_open E w' u = (u \<noteq> s \<and> sock_open E (snd st) u)"
    using closeRequired_closes [OF assms, of s "fst st" "snd st"] by (metis prod.collapse)
  have "closeSockets E (s # ss) st = closeSockets E ss (unregister s (fst st), w')"
    by (simp add: closeSockets_def w(1))
  then show ?case using Cons.IH [of "(unregister s (fst st), w')"] w(2) by auto
qed

lemma recheck_closes:
  assumes "closes E" and "\<And>w a. fst (auth_active E w a) = IsActive \<longleftrightarrow> ok a"
  shows "(s, r) \<in> set rs \<Longrightarrow> \<not> ok (authority r) \<Longrightarrow> jm_get (bySocket (fst (recheck E rs st))) s = None"
proof (induction rs arbitrary: st)
  case (Cons p rs)
  obtain u q where p: "p = (u, q)" by (metis surj_pair)
  obtain b st1 where c: "checkActive E (authority q) st = (b, st1)" by (metis surj_pair)
  have b: "b \<longleftrightarrow> ok (authority q)"
    using c assms(2) [of "snd st" "authority q"]
    by (auto simp: checkActive_def split: prod.splits auth_answer.splits)
  show ?case
  proof (cases "(s, r) \<in> set rs")
    case True
    with Cons show ?thesis by (simp add: p c split: bool.split)
  next
    case False
    with Cons.prems p b have e: "u = s" "\<not> b" by auto
    obtain w' where w: "closeAuthenticationRequired E s st1 = (True, (unregister s (fst st1), w'))"
      using closeRequired_closes [OF assms(1), of s "fst st1" "snd st1"] by (metis prod.collapse)
    have "shrinks (unregister s (fst st1)) (fst (recheck E rs (unregister s (fst st1), w')))"
      using shrinks_recheck [of "(unregister s (fst st1), w')" E rs] by simp
    from shrinks_bySocket [OF this, of s] show ?thesis
      using e w by (auto simp: p c) (metis jm_get_delete not_None_eq unregister_bySocket)
  qed
qed simp

section \<open>Properties\<close>

definition run_index :: "'w index_env \<Rightarrow> index_event list \<Rightarrow> 'w index_state \<Rightarrow> 'w index_state" where
  "run_index E es st = fold (index_step E) es st"

lemma new_index_inv: "new_index m n = Some x \<Longrightarrow> index_inv x"
  by (auto simp: new_index_def index_inv_with_def sessions_ok_def counts_ok_def one_generation_def
      bounds_ok_def registered_def tab_sockets_def split: jsnum.splits if_splits)

lemma run_index_inv: "new_index m n = Some x \<Longrightarrow> index_inv (fst (run_index E es (x, w)))"
  using sockets.run_inv [of "(x, w)" E es] new_index_inv [of m n x]
  by (simp add: run_index_def sockets.run_def)

lemma count_tab: "index_inv x \<Longrightarrow> countForTab x t = int (card (tab_sockets x t))"
  by (auto simp: countForTab_def index_inv_with_def counts_ok_def)

lemma index_run_le:
  "index_inv (fst st) \<Longrightarrow> gen_le (fst st) (fst (run_index E es st))"
  unfolding run_index_def
proof (induction es arbitrary: st)
  case (Cons e es)
  note ok = index_step_ok [OF Cons.prems, of E e]
  then have "gen_le (fst (index_step E e st)) (fst (fold (index_step E) es (index_step E e st)))"
    by (intro Cons.IH) simp
  with ok show ?case by (auto intro: gen_le_trans)
qed simp

text \<open>
  C24. The maps of the index agree with one another after any sequence of registrations,
  unregistrations, session closures, sweeps and disposal, whatever the sockets and the
  authentication service answer: a session's set holds exactly the sockets registered under it and is
  never empty, all of them carry the same session generation, the count of a tab is the number of
  sockets registered for it, and the configured capacities hold.
\<close>

theorem index_consistent:
  assumes "new_index m n = Some x0" and "x = fst (run_index E es (x0, w))"
  shows "(\<forall>a. (case jm_get (bySession x) a of None \<Rightarrow> {} | Some ss \<Rightarrow> set ss) = registered x a \<and>
           jm_get (bySession x) a \<noteq> Some []) \<and>
         (\<forall>s s' r r'. jm_get (bySocket x) s = Some r \<and> jm_get (bySocket x) s' = Some r' \<and>
            applicationSessionId (authority r) = applicationSessionId (authority r') \<longrightarrow>
            generation (authority r) = generation (authority r')) \<and>
         (\<forall>t. countForTab x t = int (card (tab_sockets x t))) \<and>
         connectedCount x \<le> maxSockets x0 \<and> length (bySession x) \<le> maxSessions x0 \<and>
         trackedTabs x \<le> 64"
proof -
  have inv: "index_inv x" unfolding assms(2) by (rule run_index_inv [OF assms(1)])
  have le: "gen_le x0 x"
    using index_run_le [of "(x0, w)" E es] new_index_inv [OF assms(1)] by (simp add: assms(2))
  have "(case jm_get (bySession x) a of None \<Rightarrow> {} | Some ss \<Rightarrow> set ss) = registered x a \<and>
      jm_get (bySession x) a \<noteq> Some []" for a
    using sessions_at [OF inv, of a] by (auto split: option.splits)
  moreover have "one_generation x" "bounds_ok x" using inv by (simp_all add: index_inv_with_def)
  ultimately show ?thesis
    using count_tab [OF inv] le
    by (simp add: one_generation_def bounds_ok_def connectedCount_def trackedTabs_def gen_le_def
        MAX_TAB_GENERATIONS_def)
qed

definition example_env :: "nat list index_env" where
  "example_env =
     \<lparr>sock_open = (\<lambda>w s. s \<in> set w), sock_close = (\<lambda>w s. w), sock_terminate = (\<lambda>w s. js_remove s w),
      sock_listen = (\<lambda>w s. (True, w)),
      auth_active = (\<lambda>w a. (if applicationSessionId a = ''live'' then IsActive else NotActive [], w)),
      auth_sweep = (\<lambda>w. ([], w))\<rparr>"

definition example_authority :: ApplicationSessionAuthority where
  "example_authority = \<lparr>applicationSessionId = ''live'', generation = 3, expiresAt = 0\<rparr>"

definition example_index :: WebSocketAuthIndex where
  "example_index = \<lparr>maxSessions = 2, maxSockets = 3, bySession = [], bySocket = [],
     tabCounts = [], disposed = False, evictionGeneration = 0, tabGenerations = []\<rparr>"

lemma example_index_new: "new_index (Num 2) (Num 3) = Some example_index"
  by (simp add: new_index_def example_index_def HARD_MAX_APPLICATION_SESSIONS_def HARD_MAX_SOCKETS_def)

lemma example_env_closes: "closes example_env"
  by (simp add: closes_def example_env_def)

theorem index_consistent_witness:
  "countForTab (fst (run_index example_env
     [Register example_authority ''t'' 1, Register example_authority ''t'' 2, Unregister 1]
     (example_index, [1, 2]))) ''t'' =
   int (card (tab_sockets (fst (run_index example_env
     [Register example_authority ''t'' 1, Register example_authority ''t'' 2, Unregister 1]
     (example_index, [1, 2]))) ''t''))"
  using index_consistent [OF example_index_new refl, of example_env
      "[Register example_authority ''t'' 1, Register example_authority ''t'' 2, Unregister 1]" "[1, 2]"]
  by blast

text \<open>
  Revoking a session closes its sockets and only those: in every reachable state, if forced
  termination works, \<open>closeSession\<close> leaves no socket registered for the session, every socket that was
  registered for it is closed, and the registrations and the state of all other sockets are unchanged.
\<close>

theorem revocation_closes_session:
  assumes "new_index m n = Some x0" and "(x, w) = run_index E es (x0, w0)" and "closes E"
    and "closeSession E a (x, w) = (y, w')"
  shows "registered y a = {} \<and>
    (\<forall>s. jm_get (bySocket y) s = (if s \<in> registered x a then None else jm_get (bySocket x) s)) \<and>
    (\<forall>s. sock_open E w' s = (s \<notin> registered x a \<and> sock_open E w s))"
proof -
  have inv: "index_inv x" using run_index_inv [OF assms(1), of E es w0] assms(2) by (metis fst_conv)
  define ss where "ss = (case jm_get (bySession x) a of None \<Rightarrow> [] | Some ss \<Rightarrow> ss)"
  have ss: "set ss = registered x a"
    using sessions_at [OF inv, of a] by (auto simp: ss_def split: option.splits)
  have "closeSockets E ss (x, w) = (y, w')" using assms(4) by (simp add: closeSession_def ss_def)
  then have c: "jm_get (bySocket y) u = (if u \<in> registered x a then None else jm_get (bySocket x) u) \<and>
      sock_open E w' u = (u \<notin> registered x a \<and> sock_open E w u)" for u
    using closeSockets_closes [OF assms(3), of ss "(x, w)" u] by (simp add: ss)
  then have "registered y a = {}" by (auto simp: registered_def)
  with c show ?thesis by blast
qed

theorem revocation_closes_session_witness:
  "registered (fst (closeSession example_env ''live''
     (run_index example_env [Register example_authority ''t'' 1] (example_index, [1, 2])))) ''live'' = {}"
proof -
  let ?st = "run_index example_env [Register example_authority ''t'' 1] (example_index, [1, 2])"
  have "(fst ?st, snd ?st) = ?st" "closeSession example_env ''live'' (fst ?st, snd ?st) =
      (fst (closeSession example_env ''live'' ?st), snd (closeSession example_env ''live'' ?st))"
    by simp_all
  from revocation_closes_session [OF example_index_new this(1) example_env_closes this(2)]
  show ?thesis by simp
qed

text \<open>
  After a sweep every socket that is still registered belongs to a session the authentication
  service answers active for, and the sweep registers nothing.
\<close>

theorem sweep_keeps_only_active:
  assumes "closes E" and "\<forall>w a. fst (auth_active E w a) = IsActive \<longleftrightarrow> ok a"
    and "jm_get (bySocket (fst (sweepExpired E st))) s = Some r"
  shows "ok (authority r) \<and> jm_get (bySocket (fst st)) s = Some r"
proof -
  obtain as w where w: "auth_sweep E (snd st) = (as, w)" by (metis surj_pair)
  define st1 where "st1 = (if disposed (fst st) then (fst st, w) else closeSessions E as (fst st, w))"
  have run: "sweepExpired E st = recheck E (bySocket (fst st1)) st1"
    by (simp only: sweepExpired_def w Let_def prod.case st1_def)
  have "jm_get (bySocket (fst st1)) s = Some r"
    using shrinks_bySocket [OF shrinks_recheck] assms(3) by (simp add: run)
  then have "(s, r) \<in> set (bySocket (fst st1))" by (rule map_of_SomeD)
  then have "ok (authority r)"
    using recheck_closes [OF assms(1), of ok s r "bySocket (fst st1)" st1] assms(2,3) by (auto simp: run)
  then show ?thesis using shrinks_bySocket [OF shrinks_sweep assms(3)] by simp
qed

theorem sweep_keeps_only_active_witness:
  "applicationSessionId (authority \<lparr>authority = example_authority, terminalTabId = ''t''\<rparr>) = ''live'' \<and>
   jm_get (bySocket (fst (run_index example_env [Register example_authority ''t'' 1]
     (example_index, [1, 2])))) 1 = Some \<lparr>authority = example_authority, terminalTabId = ''t''\<rparr>"
proof (rule sweep_keeps_only_active [OF example_env_closes])
  show "\<forall>w a. (fst (auth_active example_env w a) = IsActive) = (applicationSessionId a = ''live'')"
    by (simp add: example_env_def)
  show "jm_get (bySocket (fst (sweepExpired example_env
      (run_index example_env [Register example_authority ''t'' 1] (example_index, [1, 2]))))) 1 =
    Some \<lparr>authority = example_authority, terminalTabId = ''t''\<rparr>"
    by code_simp
qed

text \<open>
  The cleanup generation of a tab detects every change of its sockets: when it is the same at
  two points of a run, no step in between registered or removed a socket of the tab, also after the
  bounded generation table has evicted entries.
\<close>

theorem socket_generation_detects:
  assumes "new_index m n = Some x0" and "st = run_index E es0 (x0, w0)"
    and "fst (socketCleanupSnapshot (fst (run_index E es st)) t) = fst (socketCleanupSnapshot (fst st) t)"
    and "es = pre @ e # post"
  shows "tab_sockets (fst (run_index E (pre @ [e]) st)) t = tab_sockets (fst (run_index E pre st)) t"
proof -
  have inv: "index_inv (fst st)" unfolding assms(2) by (rule run_index_inv [OF assms(1)])
  have "\<not> sockets.touches E t es st"
    using sockets.unchanged [of st E es t] inv assms(3)
    by (simp add: sockets.run_def run_index_def socketCleanupSnapshot_def)
  then have "t \<notin> tabs_changed E e (run_index E pre st)"
    unfolding sockets.touches_def assms(4)
    by (auto simp: sockets.run_def run_index_def dest: spec [of _ "length pre"])
  then show ?thesis by (simp add: tabs_changed_def run_index_def)
qed

theorem socket_generation_detects_witness:
  "tab_sockets (fst (run_index example_env ([] @ [Register example_authority ''u'' 2])
       (run_index example_env [Register example_authority ''t'' 1] (example_index, [1, 2])))) ''t'' =
   tab_sockets (fst (run_index example_env []
       (run_index example_env [Register example_authority ''t'' 1] (example_index, [1, 2])))) ''t''"
proof (rule socket_generation_detects [OF example_index_new refl _ refl])
  show "fst (socketCleanupSnapshot (fst (run_index example_env ([] @ [Register example_authority ''u'' 2])
       (run_index example_env [Register example_authority ''t'' 1] (example_index, [1, 2])))) ''t'') =
     fst (socketCleanupSnapshot (fst
       (run_index example_env [Register example_authority ''t'' 1] (example_index, [1, 2]))) ''t'')"
    by code_simp
qed

end
