(* ===== verification/Csrf.thy ===== *)
theory Csrf
  imports Prelude
begin

text \<open>
  Random tokens: the base64url encoding of \<open>Buffer\<close> and the CSRF tokens of
  \<open>apps/server/src/csrf-service.ts\<close>. Bytes are numbers below 256. The hash function and the
  constant-time comparison come from \<open>node:crypto\<close>: the hash is a parameter, the comparison is
  equality of byte strings. The module's \<open>WeakMap\<close> from record objects to digests is a map from
  record identities.
\<close>

section \<open>base64url\<close>

definition base64url_alphabet :: string where
  "base64url_alphabet = ''ABCDEFGHIJKLMNOPQRSTUVWXYZabcdefghijklmnopqrstuvwxyz0123456789-_''"

definition sextet :: "nat \<Rightarrow> char" where
  "sextet n = base64url_alphabet ! (n mod 64)"

fun base64url :: "nat list \<Rightarrow> string" where
  "base64url [] = []"
| "base64url [a] = [sextet (a div 4), sextet (a mod 4 * 16)]"
| "base64url [a, b] = [sextet (a div 4), sextet (a mod 4 * 16 + b div 16), sextet (b mod 16 * 4)]"
| "base64url (a # b # c # bs) =
     sextet (a div 4) # sextet (a mod 4 * 16 + b div 16) # sextet (b mod 16 * 4 + c div 64) #
     sextet (c mod 64) # base64url bs"

abbreviation bytes :: "nat list \<Rightarrow> bool" where
  "bytes bs \<equiv> \<forall>b \<in> set bs. b < 256"

lemma alphabet_length: "length base64url_alphabet = 64"
  by (simp add: base64url_alphabet_def)

lemma alphabet_distinct: "distinct base64url_alphabet"
  by (simp add: base64url_alphabet_def)

lemma sextet_inj: "sextet a = sextet b \<longleftrightarrow> a mod 64 = b mod 64"
  unfolding sextet_def
  by (rule nth_eq_iff_index_eq [OF alphabet_distinct]) (simp_all add: alphabet_length)

lemma sextet_in_alphabet: "sextet n \<in> set base64url_alphabet"
  unfolding sextet_def by (rule nth_mem) (simp add: alphabet_length)

lemma base64url_chars: "set (base64url bs) \<subseteq> set base64url_alphabet"
  by (induction bs rule: base64url.induct) (auto simp: sextet_in_alphabet)

lemma base64url_length: "length (base64url bs) = (4 * length bs + 2) div 3"
  by (induction bs rule: base64url.induct) auto

text \<open>A two-digit number determines its digits.\<close>

lemma digits_inject:
  fixes x y x' y' n :: nat
  assumes "x * n + y = x' * n + y'" "y < n" "y' < n"
  shows "x = x' \<and> y = y'"
proof -
  have "(x * n + y) div n = x" "(x' * n + y') div n = x'" using assms(2,3) by auto
  with assms(1) have "x = x'" by simp
  with assms(1) show ?thesis by simp
qed

lemma div_mod_inject: "a div n = b div n \<Longrightarrow> a mod n = b mod n \<Longrightarrow> a = b" for a b n :: nat
  by (metis div_mult_mod_eq)

lemma base64url_inject_step:
  fixes a b c a' b' c' :: nat
  assumes lt: "a < 256" "b < 256" "c < 256" "a' < 256" "b' < 256" "c' < 256"
    and eq: "sextet (a div 4) = sextet (a' div 4)"
      "sextet (a mod 4 * 16 + b div 16) = sextet (a' mod 4 * 16 + b' div 16)"
      "sextet (b mod 16 * 4 + c div 64) = sextet (b' mod 16 * 4 + c' div 64)"
      "sextet (c mod 64) = sextet (c' mod 64)"
  shows "a = a' \<and> b = b' \<and> c = c'"
proof -
  have d: "a div 4 < 64" "a' div 4 < 64" "b div 16 < 16" "b' div 16 < 16" "c div 64 < 4" "c' div 64 < 4"
    using lt by simp_all
  have m: "a mod 4 < 4" "a' mod 4 < 4" "b mod 16 < 16" "b' mod 16 < 16" by simp_all
  have s: "a mod 4 * 16 + b div 16 < 64" "a' mod 4 * 16 + b' div 16 < 64"
    "b mod 16 * 4 + c div 64 < 64" "b' mod 16 * 4 + c' div 64 < 64"
    using d m by linarith+
  have "a div 4 = a' div 4" using eq(1) d by (simp add: sextet_inj)
  moreover have e2: "a mod 4 * 16 + b div 16 = a' mod 4 * 16 + b' div 16"
    using eq(2) s(1,2) unfolding sextet_inj by (simp only: mod_less)
  moreover have e3: "b mod 16 * 4 + c div 64 = b' mod 16 * 4 + c' div 64"
    using eq(3) s(3,4) unfolding sextet_inj by (simp only: mod_less)
  moreover have "c mod 64 = c' mod 64" using eq(4) by (simp add: sextet_inj)
  ultimately show ?thesis
    using digits_inject [OF e2 d(3,4)] digits_inject [OF e3 d(5,6)] by (auto intro: div_mod_inject)
qed

lemma base64url_inject:
  "length as = length bs \<Longrightarrow> bytes as \<Longrightarrow> bytes bs \<Longrightarrow> base64url as = base64url bs \<Longrightarrow> as = bs"
proof (induction as arbitrary: bs rule: base64url.induct)
  case 1
  then show ?case by simp
next
  case (2 a)
  then obtain b where b: "bs = [b]" by (cases bs) auto
  with 2 show ?case using base64url_inject_step [of a 0 0 b 0 0] by simp
next
  case (3 a1 a2)
  then obtain b1 b2 where b: "bs = [b1, b2]" by (cases bs; cases "tl bs") auto
  with 3 show ?case using base64url_inject_step [of a1 a2 0 b1 b2 0] by simp
next
  case (4 a1 a2 a3 as)
  then obtain b1 b2 b3 bs' where b: "bs = b1 # b2 # b3 # bs'"
    by (cases bs; cases "tl bs"; cases "tl (tl bs)") auto
  with 4 show ?case using base64url_inject_step [of a1 a2 a3 b1 b2 b3] by simp
qed

section \<open>CSRF tokens\<close>

text \<open>\<open>/^[A-Za-z0-9_-]{43}$/\<close>.\<close>

definition token_class :: "char \<Rightarrow> bool" where
  "token_class c \<longleftrightarrow> c \<in> set base64url_alphabet"

definition TOKEN_PATTERN :: "string \<Rightarrow> bool" where
  "TOKEN_PATTERN s \<longleftrightarrow> length s = 43 \<and> list_all token_class s"

record CsrfService =
  records :: "(nat, string) jsmap"
  next_record :: nat

text \<open>
  \<open>create\<close>: the argument is what the random source returned for 32 bytes (\<open>None\<close> when it threw).
  A failure leaves the map of records as it was.
\<close>

definition csrf_create ::
  "(string \<Rightarrow> string) \<Rightarrow> nat list option \<Rightarrow> CsrfService \<Rightarrow> (string \<times> nat) option \<times> CsrfService"
where
  "csrf_create digest random c =
     (case random of
        None \<Rightarrow> (None, c)
      | Some bs \<Rightarrow>
          if length bs \<noteq> 32 then (None, c)
          else let token = base64url bs; record = next_record c
               in (Some (token, record),
                   c\<lparr>records := jm_set (records c) record (digest token), next_record := Suc record\<rparr>))"

definition csrf_verify :: "(string \<Rightarrow> string) \<Rightarrow> CsrfService \<Rightarrow> nat \<Rightarrow> string option \<Rightarrow> bool" where
  "csrf_verify digest c record supplied =
     (case supplied of
        None \<Rightarrow> False
      | Some s \<Rightarrow>
          if length s > 512 \<or> \<not> TOKEN_PATTERN s then False
          else case jm_get (records c) record of
                 None \<Rightarrow> False
               | Some expected \<Rightarrow> expected = digest s)"

definition new_csrf :: CsrfService where
  "new_csrf = \<lparr>records = [], next_record = 0\<rparr>"

text \<open>A service that has issued tokens for these random draws.\<close>

definition csrf_issue :: "(string \<Rightarrow> string) \<Rightarrow> nat list option list \<Rightarrow> CsrfService \<Rightarrow> CsrfService" where
  "csrf_issue digest draws c = fold (\<lambda>r c. snd (csrf_create digest r c)) draws c"

definition csrf_inv :: "CsrfService \<Rightarrow> bool" where
  "csrf_inv c \<longleftrightarrow> (\<forall>k. jm_get (records c) k \<noteq> None \<longrightarrow> k < next_record c)"

lemma token_pattern_base64url: "length bs = 32 \<Longrightarrow> TOKEN_PATTERN (base64url bs)"
  using base64url_chars [of bs] by (auto simp: TOKEN_PATTERN_def base64url_length list_all_iff token_class_def)

lemma csrf_create_inv: "csrf_inv c \<Longrightarrow> csrf_inv (snd (csrf_create digest r c))"
  by (auto simp: csrf_inv_def csrf_create_def Let_def less_Suc_eq split: option.split)

lemma csrf_create_keeps:
  "csrf_inv c \<Longrightarrow> k < next_record c \<Longrightarrow>
   jm_get (records (snd (csrf_create digest r c))) k = jm_get (records c) k \<and>
   next_record c \<le> next_record (snd (csrf_create digest r c))"
  by (auto simp: csrf_create_def Let_def split: option.split)

lemma csrf_issue_keeps:
  "csrf_inv c \<Longrightarrow> k < next_record c \<Longrightarrow> jm_get (records (csrf_issue digest rs c)) k = jm_get (records c) k"
  unfolding csrf_issue_def
proof (induction rs arbitrary: c)
  case (Cons r rs)
  then show ?case using csrf_create_keeps [OF Cons.prems, of digest r] csrf_create_inv [of c digest r]
    by simp
qed simp

text \<open>
  A CSRF token is accepted with its own record, now and after any number of further tokens have
  been issued, and no other token is accepted there: with a collision-free hash, a supplied string
  verifies against the record exactly when it is the token that was issued with it.
\<close>

theorem csrf_roundtrip:
  assumes "c = csrf_issue digest earlier new_csrf"
    and "csrf_create digest (Some bs) c = (Some (token, record), c')" and "inj digest"
  shows "csrf_verify digest (csrf_issue digest later c') record (Some supplied) \<longleftrightarrow> supplied = token"
proof -
  have inv: "csrf_inv (csrf_issue digest rs d)" if "csrf_inv d" for rs d
    unfolding csrf_issue_def using that by (induction rs arbitrary: d) (auto intro: csrf_create_inv)
  have "csrf_inv c" unfolding assms(1) by (rule inv) (simp add: new_csrf_def csrf_inv_def)
  then have "csrf_inv c'" using csrf_create_inv [of c digest "Some bs"] assms(2) by simp
  moreover from assms(2) have c': "record < next_record c'" "jm_get (records c') record = Some (digest token)"
    and tok: "TOKEN_PATTERN token"
    by (auto simp: csrf_create_def Let_def token_pattern_base64url split: if_splits)
  ultimately have "jm_get (records (csrf_issue digest later c')) record = Some (digest token)"
    by (simp add: csrf_issue_keeps)
  moreover have "length token = 43" using tok by (simp add: TOKEN_PATTERN_def)
  ultimately show ?thesis
    using tok inj_eq [OF assms(3)] by (auto simp: csrf_verify_def TOKEN_PATTERN_def)
qed

theorem csrf_roundtrip_witness:
  "csrf_verify (\<lambda>s. s) (csrf_issue (\<lambda>s. s) [Some (replicate 32 7)]
      \<lparr>records = [(0, base64url (replicate 32 1)), (1, base64url (replicate 32 255))], next_record = 2\<rparr>)
     1 (Some (base64url (replicate 32 255))) \<longleftrightarrow>
   base64url (replicate 32 255) = base64url (replicate 32 255)"
proof (rule csrf_roundtrip [where earlier = "[Some (replicate 32 1), None, Some [3]]"])
  show "csrf_create (\<lambda>s. s) (Some (replicate 32 255))
      (csrf_issue (\<lambda>s. s) [Some (replicate 32 1), None, Some [3]] new_csrf) =
    (Some (base64url (replicate 32 255), 1),
     \<lparr>records = [(0, base64url (replicate 32 1)), (1, base64url (replicate 32 255))], next_record = 2\<rparr>)"
    by (simp add: csrf_create_def csrf_issue_def new_csrf_def Let_def)
qed simp_all

end
