(* ===== verification/Frames.thy ===== *)
theory Frames
  imports Prelude
begin

text \<open>
  A compositional argument for programs in the exception-and-state monad: an invariant \<open>I\<close> together
  with a reflexive and transitive relation \<open>R\<close> between the states before and after. The locale
  \<open>frame_relation\<close> proves once that \<open>keeps\<close> is closed under the constructs of the monad; a
  component instantiates it with its own invariant and with what its operations may change.
\<close>

locale frame_relation =
  fixes I :: "'s \<Rightarrow> bool" and R :: "'s \<Rightarrow> 's \<Rightarrow> bool"
  assumes R_refl: "I s \<Longrightarrow> R s s"
    and R_trans: "R s t \<Longrightarrow> R t u \<Longrightarrow> R s u"
begin

definition keeps :: "('s, 'e, 'a) em \<Rightarrow> bool" where
  "keeps m \<longleftrightarrow> (\<forall>s. I s \<longrightarrow> I (snd (m s)) \<and> R s (snd (m s)))"

lemma keepsI: "(\<And>s. I s \<Longrightarrow> I (snd (m s)) \<and> R s (snd (m s))) \<Longrightarrow> keeps m"
  by (simp add: keeps_def)

lemma keepsD: "keeps m \<Longrightarrow> I s \<Longrightarrow> I (snd (m s)) \<and> R s (snd (m s))"
  by (simp add: keeps_def)

lemma keeps_ret [intro]: "keeps (ret x)"
  by (simp add: keeps_def ret_def R_refl)

lemma keeps_throw [intro]: "keeps (throw e)"
  by (simp add: keeps_def throw_def R_refl)

lemma keeps_gets [intro]: "keeps (gets f)"
  by (simp add: keeps_def gets_def R_refl)

lemma keeps_modify: "(\<And>s. I s \<Longrightarrow> I (f s) \<and> R s (f s)) \<Longrightarrow> keeps (modify f)"
  by (simp add: keeps_def modify_def)

text \<open>The continuation may rely on what the first program established about its result.\<close>

lemma keeps_bind_post:
  assumes "keeps m"
    and "\<And>s x t. \<lbrakk>I s; m s = (Inr x, t); I t\<rbrakk> \<Longrightarrow> I (snd (f x t)) \<and> R t (snd (f x t))"
  shows "keeps (bind m f)"
proof (rule keepsI)
  fix s
  assume s: "I s"
  obtain r t where m: "m s = (r, t)" by (cases "m s")
  with keepsD [OF assms(1) s] have t: "I t" "R s t" by simp_all
  show "I (snd (bind m f s)) \<and> R s (snd (bind m f s))"
  proof (cases r)
    case (Inl e)
    with m t show ?thesis by (simp add: bind_apply)
  next
    case (Inr x)
    with assms(2) [OF s _ t(1)] m R_trans [OF t(2)] show ?thesis by (auto simp: bind_apply)
  qed
qed

lemma keeps_bind [intro]:
  assumes "keeps m" and "\<And>x. keeps (f x)"
  shows "keeps (bind m f)"
  by (rule keeps_bind_post [OF assms(1)]) (use keepsD [OF assms(2)] in blast)

lemma keeps_catch [intro]:
  assumes "keeps m" and "\<And>e. keeps (h e)"
  shows "keeps (catch m h)"
proof (rule keepsI)
  fix s
  assume s: "I s"
  obtain r t where m: "m s = (r, t)" by (cases "m s")
  with keepsD [OF assms(1) s] have t: "I t" "R s t" by simp_all
  show "I (snd (catch m h s)) \<and> R s (snd (catch m h s))"
    using m t keepsD [OF assms(2) t(1)] R_trans [OF t(2)]
    by (cases r) (auto simp: catch_apply)
qed

lemma keeps_attempt [intro]:
  assumes "keeps m"
  shows "keeps (attempt m)"
proof (rule keepsI)
  fix s
  assume "I s"
  with keepsD [OF assms this] show "I (snd (attempt m s)) \<and> R s (snd (attempt m s))"
    by (cases "m s") (simp add: attempt_apply)
qed

lemma keeps_if [intro]:
  "\<lbrakk>b \<Longrightarrow> keeps m; \<not> b \<Longrightarrow> keeps n\<rbrakk> \<Longrightarrow> keeps (if b then m else n)"
  by simp

lemma keeps_case_option [intro]:
  "\<lbrakk>keeps m; \<And>x. keeps (f x)\<rbrakk> \<Longrightarrow> keeps (case x of None \<Rightarrow> m | Some y \<Rightarrow> f y)"
  by (cases x) auto

lemma keeps_case_sum [intro]:
  "\<lbrakk>\<And>x. keeps (f x); \<And>y. keeps (g y)\<rbrakk> \<Longrightarrow> keeps (case z of Inl x \<Rightarrow> f x | Inr y \<Rightarrow> g y)"
  by (cases z) auto

lemma keeps_case_prod [intro]:
  "(\<And>a b. keeps (f a b)) \<Longrightarrow> keeps (case p of (a, b) \<Rightarrow> f a b)"
  by (cases p) auto

lemma keeps_case_bool [intro]:
  "\<lbrakk>keeps m; keeps n\<rbrakk> \<Longrightarrow> keeps (case b of True \<Rightarrow> m | False \<Rightarrow> n)"
  by (cases b) auto

lemma keeps_case_list [intro]:
  "\<lbrakk>keeps m; \<And>x ys. keeps (f x ys)\<rbrakk> \<Longrightarrow> keeps (case xs of [] \<Rightarrow> m | x # ys \<Rightarrow> f x ys)"
  by (cases xs) auto

lemmas keeps_intros = keeps_bind keeps_catch keeps_attempt keeps_if keeps_case_option keeps_case_sum
  keeps_case_prod
  keeps_case_bool keeps_case_list keeps_ret keeps_throw keeps_gets

lemma keeps_fold:
  "(\<And>x s. I s \<Longrightarrow> I (f x s) \<and> R s (f x s)) \<Longrightarrow> I s \<Longrightarrow> I (fold f xs s) \<and> R s (fold f xs s)"
proof (induction xs arbitrary: s)
  case (Cons x xs)
  then have "I (f x s)" "R s (f x s)" by auto
  with Cons.IH [OF Cons.prems(1), of "f x s"] R_trans show ?case by auto
qed (simp add: R_refl)

end

end
