(* ===== verification/AuthService.thy ===== *)
theory AuthService
  imports Csrf Frames
begin

text \<open>
  The application session service (\<open>apps/server/src/auth-service.ts\<close>). Stored sessions are mutable
  objects reachable from two maps, by digest of the cookie and by session id; they live in a store of
  objects addressed by their generation number, which is unique, so that the two maps share one object
  as they do in the code. Clock, random source, limiter, credential store and collation are
  collaborators acting on a world \<open>'w\<close>; asynchronous results (password verification, enrolment,
  replacement) arrive as arguments of the continuation that awaited them. Labels are lists of code
  points, with Unicode normalisation as a parameter. Revocation observers are recorded as a log of
  notifications.
\<close>

declare map_of_eq_Some_iff [simp del] Some_eq_map_of_iff [simp del]

section \<open>Data\<close>

type_synonym ustring = "nat list"

datatype AuthMode = Local | CloudflareAccess | TrustedHeader | NoAuth

datatype RevocationReason = Capacity | Idle | Absolute | Upstream | Logout | PasswordChanged

datatype AuthServiceError = AuthServiceError

record Stored =
  stored_id :: string
  stored_generation :: nat
  stored_mode :: AuthMode
  identityLabel :: ustring
  createdAt :: real
  lastSeen :: real
  idleExpiresAt :: real
  absoluteExpiresAt :: real
  upstreamExpiresAt :: "real option"
  csrf_record :: nat
  digest :: string

record UpstreamIdentity =
  up_mode :: AuthMode
  up_label :: ustring
  up_expiresAt :: "jsnum option"

datatype UpstreamAuthentication = NoUpstream | UpstreamIdentified UpstreamIdentity

datatype AuthBootstrap =
    SetupRequired ustring
  | LocalUnauthenticated
  | Authenticated AuthMode ustring string "real option"

datatype AuthFailure = AuthenticationFailed | RateLimited | SetupIsRequired | AlreadyInitialized

record AuthBootstrapResult =
  bootstrap :: AuthBootstrap
  cookieValue :: "string option"
  failure :: "AuthFailure option"

record AuthenticatedSession =
  view_id :: string
  view_mode :: AuthMode
  view_label :: ustring
  view_createdAt :: real
  view_lastSeen :: real
  view_idleExpiresAt :: real
  view_absoluteExpiresAt :: real
  view_upstreamExpiresAt :: "real option"

text \<open>What \<open>enroll\<close> settles with.\<close>

datatype enrollment = EnrollThrew | EnrollAlready | EnrollNotCommitted | EnrollCommitted bool

text \<open>Operations waiting on the establishment queue, with what their closures captured.\<close>

datatype slot = BootstrapSlot UpstreamAuthentication | LoginSlot ustring string | SetupSlot string

datatype change_phase = NoChange | AwaitVerify nat string | AwaitReplace | ChangeSettled

record 'w AuthService =
  service_mode :: AuthMode
  localUsername :: ustring
  idleDuration :: real
  absoluteDuration :: real
  maxSessions :: nat
  maxPendingEstablishments :: nat
  observerMax :: nat
  byDigest :: "(string, nat) jsmap"
  byId :: "(string, nat) jsmap"
  objects :: "nat \<Rightarrow> Stored option"
  observers :: "nat list"
  next_observer :: nat
  notified :: "(nat \<times> string \<times> RevocationReason) list"
  establishmentQueue :: "slot list"
  unreleased :: "slot list"
  pendingEstablishments :: int
  pendingLocalAttempts :: int
  passwordChangeActive :: bool
  passwordChange :: change_phase
  service_generation :: nat
  csrf_service :: CsrfService
  world :: 'w

record 'w auth_env =
  clock :: "'w \<Rightarrow> jsnum \<times> 'w"
  random :: "'w \<Rightarrow> nat \<Rightarrow> nat list option \<times> 'w"
  isInitialized :: "'w \<Rightarrow> bool option \<times> 'w"
  limiterConsume :: "'w \<Rightarrow> string \<Rightarrow> bool option \<times> 'w"
  limiterReset :: "'w \<Rightarrow> string \<Rightarrow> bool \<times> 'w"
  durabilityUncertain :: "'w \<Rightarrow> 'w"
  sha256 :: "string \<Rightarrow> string"
  collate :: "string \<Rightarrow> string \<Rightarrow> int"
  nfc :: "ustring \<Rightarrow> ustring"

type_synonym ('w, 'a) auth = "('w AuthService, AuthServiceError, 'a) em"

section \<open>Helpers\<close>

definition utf8_length :: "ustring \<Rightarrow> nat" where
  "utf8_length s =
     sum_list (map (\<lambda>c. if c < 128 then 1 else if c < 2048 then 2 else if c < 65536 then 3 else 4) s)"

definition normalizeLabel :: "'w auth_env \<Rightarrow> ustring \<Rightarrow> ustring option" where
  "normalizeLabel E v =
     (let n = nfc E v
      in if n = [] \<or> utf8_length n > 128 \<or> (\<exists>x \<in> set n. x < 32 \<or> x = 127) then None else Some n)"

text \<open>\<open>toISOString\<close> throws outside the range of ECMAScript time values.\<close>

definition date_ok :: "real \<Rightarrow> bool" where
  "date_ok t \<longleftrightarrow> \<bar>t\<bar> \<le> 8640000000000000"

definition validateIdentity ::
  "'w auth_env \<Rightarrow> UpstreamIdentity \<Rightarrow> (AuthMode \<times> ustring \<times> real option) option"
where
  "validateIdentity E i =
     (case normalizeLabel E (up_label i) of
        None \<Rightarrow> None
      | Some label \<Rightarrow>
          if up_mode i \<noteq> CloudflareAccess \<and> up_mode i \<noteq> TrustedHeader then None
          else (case up_expiresAt i of
                  None \<Rightarrow> Some (up_mode i, label, None)
                | Some (Num t) \<Rightarrow>
                    if date_ok t then Some (up_mode i, label, Some t) else None
                | Some _ \<Rightarrow> None))"

definition boundedAddress :: "string \<Rightarrow> string" where
  "boundedAddress v = (if length v \<le> 256 then v else ''unknown'')"

text \<open>Expiry instants; \<open>None\<close> is \<open>Infinity\<close>.\<close>

fun instant_le :: "real option \<Rightarrow> real option \<Rightarrow> bool" where
  "instant_le _ None = True"
| "instant_le None (Some _) = False"
| "instant_le (Some a) (Some b) = (a \<le> b)"

definition expiredReasonAt :: "Stored \<Rightarrow> real \<Rightarrow> RevocationReason option" where
  "expiredReasonAt s now =
     (case stable_sort (\<lambda>a b. instant_le (fst a) (fst b))
             [(Some (idleExpiresAt s), Idle), (Some (absoluteExpiresAt s), Absolute),
              (upstreamExpiresAt s, Upstream)] of
        (Some t, reason) # _ \<Rightarrow> if now \<ge> t then Some reason else None
      | _ \<Rightarrow> None)"

definition view :: "Stored \<Rightarrow> AuthenticatedSession" where
  "view s = \<lparr>view_id = stored_id s, view_mode = stored_mode s, view_label = identityLabel s,
     view_createdAt = createdAt s, view_lastSeen = lastSeen s,
     view_idleExpiresAt = idleExpiresAt s, view_absoluteExpiresAt = absoluteExpiresAt s,
     view_upstreamExpiresAt = upstreamExpiresAt s\<rparr>"

definition authorityView :: "Stored \<Rightarrow> AuthenticatedSession \<times> nat" where
  "authorityView s = (view s, stored_generation s)"

section \<open>Construction\<close>

definition make_auth ::
  "'w auth_env \<Rightarrow> AuthMode \<Rightarrow> ustring option \<Rightarrow> bool \<Rightarrow> jsnum \<Rightarrow> jsnum \<Rightarrow> jsnum \<Rightarrow> jsnum option \<Rightarrow> 'w
   \<Rightarrow> 'w AuthService option"
where
  "make_auth E m username hasCallback idle absolute sessions obs w =
     (case (idle, absolute, sessions) of
        (Num i, Num a, Num n) \<Rightarrow>
          if i \<le> 0 \<or> a \<le> 0 \<or> \<not> isInteger (Num n) \<or> n < 1 \<or> n > 256 \<or>
             (case obs of None \<Rightarrow> False
              | Some k \<Rightarrow> \<not> isInteger k \<or> \<not> num_ge k 1 \<or> \<not> num_le k 64)
          then None
          else
            (let user =
               (if m = Local
                then (if hasCallback then case username of None \<Rightarrow> None | Some u \<Rightarrow> normalizeLabel E u
                      else None)
                else if username \<noteq> None \<or> hasCallback then None else Some [])
             in case user of
                  None \<Rightarrow> None
                | Some u \<Rightarrow>
                    Some \<lparr>service_mode = m, localUsername = u, idleDuration = i,
                      absoluteDuration = a, maxSessions = nat \<lfloor>n\<rfloor>,
                      maxPendingEstablishments = min 256 (max 8 (nat \<lfloor>n\<rfloor>)),
                      observerMax =
                        (case obs of Some (Num k) \<Rightarrow> min 64 (max 1 (nat \<lfloor>k\<rfloor>)) | _ \<Rightarrow> 64),
                      byDigest = [], byId = [], objects = (\<lambda>_. None), observers = [],
                      next_observer = 0, notified = [], establishmentQueue = [], unreleased = [],
                      pendingEstablishments = 0, pendingLocalAttempts = 0,
                      passwordChangeActive = False, passwordChange = NoChange,
                      service_generation = 0, csrf_service = new_csrf, world = w\<rparr>)
      | _ \<Rightarrow> None)"

section \<open>Private operations\<close>

definition call :: "('w \<Rightarrow> 'a \<times> 'w) \<Rightarrow> ('w, 'a) auth" where
  "call f = (\<lambda>s. case f (world s) of (x, w) \<Rightarrow> (Inr x, s\<lparr>world := w\<rparr>))"

definition now :: "'w auth_env \<Rightarrow> ('w, real) auth" where
  "now E = bind (call (clock E)) (\<lambda>n. case n of Num t \<Rightarrow> ret t | _ \<Rightarrow> throw AuthServiceError)"

definition stored :: "'w AuthService \<Rightarrow> nat \<Rightarrow> Stored" where
  "stored s r = the (objects s r)"

definition expiredReason :: "'w auth_env \<Rightarrow> nat \<Rightarrow> ('w, RevocationReason option) auth" where
  "expiredReason E r = bind (now E) (\<lambda>t. gets (\<lambda>s. expiredReasonAt (stored s r) t))"

definition remove_session :: "nat \<Rightarrow> 'w AuthService \<Rightarrow> bool \<times> 'w AuthService" where
  "remove_session r s =
     (if jm_get (byId s) (stored_id (stored s r)) = None then (False, s)
      else (True, s\<lparr>byId := jm_delete (byId s) (stored_id (stored s r)),
              byDigest := jm_delete (byDigest s) (digest (stored s r)),
              objects := (objects s)(r \<mapsto> (stored s r)\<lparr>digest := ''''\<rparr>)\<rparr>))"

definition emitRevocation :: "string \<Rightarrow> RevocationReason \<Rightarrow> 'w AuthService \<Rightarrow> 'w AuthService" where
  "emitRevocation i reason s =
     s\<lparr>notified := notified s @ map (\<lambda>ob. (ob, i, reason)) (observers s)\<rparr>"

definition revoke_session :: "nat \<Rightarrow> RevocationReason \<Rightarrow> 'w AuthService \<Rightarrow> 'w AuthService" where
  "revoke_session r reason s =
     (case remove_session r s of
        (False, t) \<Rightarrow> t
      | (True, t) \<Rightarrow> emitRevocation (stored_id (stored s r)) reason t)"

definition revoke :: "nat \<Rightarrow> RevocationReason \<Rightarrow> ('w, unit) auth" where
  "revoke r reason = modify (revoke_session r reason)"

text \<open>
  The opening of every operation on an existing session: read the clock, and if the session has
  expired revoke it and stop.
\<close>

definition unexpired :: "'w auth_env \<Rightarrow> nat \<Rightarrow> ('w, bool) auth" where
  "unexpired E r =
     bind (expiredReason E r) (\<lambda>reason.
       case reason of
         None \<Rightarrow> ret True
       | Some x \<Rightarrow> bind (revoke r x) (\<lambda>_. ret False))"

definition token :: "'w auth_env \<Rightarrow> nat \<Rightarrow> ('w, string) auth" where
  "token E n =
     bind (call (\<lambda>w. random E w n)) (\<lambda>bs.
       case bs of
         None \<Rightarrow> throw AuthServiceError
       | Some b \<Rightarrow> if length b \<noteq> n then throw AuthServiceError else ret (base64url b))"

definition nextGeneration :: "('w, nat) auth" where
  "nextGeneration =
     bind (modify (\<lambda>s. s\<lparr>service_generation := Suc (service_generation s)\<rparr>)) (\<lambda>_.
     bind (gets service_generation) (\<lambda>g.
       if safe_int (int g) then ret g else throw AuthServiceError))"

definition createCsrf :: "'w auth_env \<Rightarrow> ('w, string \<times> nat) auth" where
  "createCsrf E =
     bind (call (\<lambda>w. random E w 32)) (\<lambda>bs s.
       case csrf_create (sha256 E) bs (csrf_service s) of
         (None, c) \<Rightarrow> (Inl AuthServiceError, s\<lparr>csrf_service := c\<rparr>)
       | (Some issued, c) \<Rightarrow> (Inr issued, s\<lparr>csrf_service := c\<rparr>))"

fun drawCookie :: "'w auth_env \<Rightarrow> nat \<Rightarrow> ('w, (string \<times> string) option) auth" where
  "drawCookie E 0 = ret None"
| "drawCookie E (Suc attempts) =
     bind (token E 32) (\<lambda>cookie.
     bind (gets (\<lambda>s. jm_get (byDigest s) (sha256 E cookie))) (\<lambda>taken.
       if taken = None then ret (Some (cookie, sha256 E cookie)) else drawCookie E attempts))"

fun drawId :: "'w auth_env \<Rightarrow> nat \<Rightarrow> ('w, string option) auth" where
  "drawId E 0 = ret None"
| "drawId E (Suc attempts) =
     bind (token E 16) (\<lambda>i.
     bind (gets (\<lambda>s. jm_get (byId s) i)) (\<lambda>taken.
       if taken = None then ret (Some i) else drawId E attempts))"

text \<open>The object literal of \<open>#prepareSession\<close>: the generation is taken before the label is checked.\<close>

definition allocate ::
  "'w auth_env \<Rightarrow> AuthMode \<Rightarrow> ustring \<Rightarrow> real option \<Rightarrow> real \<Rightarrow> string \<Rightarrow> string \<Rightarrow> string \<Rightarrow> string \<times> nat
   \<Rightarrow> ('w, nat \<times> AuthBootstrapResult) auth"
where
  "allocate E m label up t cookie d i issued =
     bind nextGeneration (\<lambda>g.
       case normalizeLabel E label of
         None \<Rightarrow> throw AuthServiceError
       | Some l \<Rightarrow>
           bind (modify (\<lambda>s. s\<lparr>objects := (objects s)(g \<mapsto>
               \<lparr>stored_id = i, stored_generation = g, stored_mode = m, identityLabel = l,
                createdAt = t, lastSeen = t,
                idleExpiresAt = min (t + idleDuration s) (t + absoluteDuration s),
                absoluteExpiresAt = t + absoluteDuration s, upstreamExpiresAt = up,
                csrf_record = snd issued, digest = d\<rparr>)\<rparr>)) (\<lambda>_.
             if (case up of None \<Rightarrow> True | Some u \<Rightarrow> date_ok u)
             then ret (g, \<lparr>bootstrap = Authenticated m l (fst issued) up,
                           cookieValue = Some cookie, failure = None\<rparr>)
             else throw AuthServiceError))"

definition prepareSession ::
  "'w auth_env \<Rightarrow> AuthMode \<Rightarrow> ustring \<Rightarrow> real option \<Rightarrow> ('w, nat \<times> AuthBootstrapResult) auth"
where
  "prepareSession E m label up =
     bind (now E) (\<lambda>t.
     bind (drawCookie E 8) (\<lambda>cookie.
     bind (drawId E 8) (\<lambda>i.
       case (cookie, i) of
         (Some (c, d), Some i) \<Rightarrow> bind (createCsrf E) (\<lambda>issued. allocate E m label up t c d i issued)
       | _ \<Rightarrow> throw AuthServiceError)))"

text \<open>
  The sessions a commit displaces: every expired one, and the least recently seen of the others when
  they fill the capacity.
\<close>

definition older :: "'w auth_env \<Rightarrow> Stored \<Rightarrow> Stored \<Rightarrow> bool" where
  "older E a b \<longleftrightarrow>
     lastSeen a < lastSeen b \<or> lastSeen a = lastSeen b \<and>
       (createdAt a < createdAt b \<or> createdAt a = createdAt b \<and>
          collate E (stored_id a) (stored_id b) \<le> 0)"

definition displaced ::
  "'w auth_env \<Rightarrow> real \<Rightarrow> 'w AuthService \<Rightarrow> (nat \<times> RevocationReason) list"
where
  "displaced E t s =
     (let refs = map snd (byId s);
          expired = concat (map (\<lambda>r. case expiredReasonAt (stored s r) t of
                                       None \<Rightarrow> [] | Some x \<Rightarrow> [(r, x)]) refs);
          active = filter (\<lambda>r. expiredReasonAt (stored s r) t = None) refs
      in if length active \<ge> maxSessions s
         then (case stable_sort (\<lambda>a b. older E (stored s a) (stored s b)) active of
                 [] \<Rightarrow> expired
               | oldest # _ \<Rightarrow> expired @ [(oldest, Capacity)])
         else expired)"

definition install :: "nat \<Rightarrow> 'w AuthService \<Rightarrow> 'w AuthService" where
  "install g s =
     s\<lparr>byDigest := jm_set (byDigest s) (digest (stored s g)) g,
       byId := jm_set (byId s) (stored_id (stored s g)) g\<rparr>"

definition applyCommit ::
  "nat \<Rightarrow> (nat \<times> RevocationReason) list \<Rightarrow> 'w AuthService \<Rightarrow> 'w AuthService"
where
  "applyCommit g revocations s =
     (let t = install g (fold (\<lambda>(r, _) s. snd (remove_session r s)) revocations s)
      in fold (\<lambda>(r, reason) s. emitRevocation (stored_id (stored s r)) reason s) revocations t)"

definition commitSession ::
  "'w auth_env \<Rightarrow> nat \<times> AuthBootstrapResult \<Rightarrow> string option \<Rightarrow> ('w, AuthBootstrapResult) auth"
where
  "commitSession E prepared reset =
     bind (gets (\<lambda>s. jm_get (byDigest s) (digest (stored s (fst prepared))) \<noteq> None \<or>
                    jm_get (byId s) (stored_id (stored s (fst prepared))) \<noteq> None)) (\<lambda>taken.
       if taken then throw AuthServiceError
       else
         bind (now E) (\<lambda>t.
         bind (gets (displaced E t)) (\<lambda>revocations.
         bind (case reset of None \<Rightarrow> ret True | Some a \<Rightarrow> call (\<lambda>w. limiterReset E w a)) (\<lambda>ok.
           if \<not> ok then throw AuthServiceError
           else bind (modify (applyCommit (fst prepared) revocations)) (\<lambda>_. ret (snd prepared))))))"

definition safeEstablish ::
  "'w auth_env \<Rightarrow> AuthMode \<Rightarrow> ustring \<Rightarrow> real option \<Rightarrow> string option \<Rightarrow> ('w, AuthBootstrapResult) auth"
where
  "safeEstablish E m label up reset =
     catch (bind (prepareSession E m label up) (\<lambda>p. commitSession E p reset))
       (\<lambda>_. throw AuthServiceError)"

definition localBootstrap :: "'w auth_env \<Rightarrow> bool option \<Rightarrow> ('w, AuthBootstrap) auth" where
  "localBootstrap E setupRequired =
     bind (case setupRequired of
             Some b \<Rightarrow> ret b
           | None \<Rightarrow> bind (call (isInitialized E)) (\<lambda>x.
               case x of None \<Rightarrow> throw AuthServiceError | Some b \<Rightarrow> ret (\<not> b)))
       (\<lambda>b. gets (\<lambda>s. if b then SetupRequired (localUsername s) else LocalUnauthenticated))"

definition localFailure :: "AuthFailure \<Rightarrow> AuthBootstrap \<Rightarrow> AuthBootstrapResult" where
  "localFailure f b = \<lparr>bootstrap = b, cookieValue = None, failure = Some f\<rparr>"

definition localLoginFailure :: "AuthFailure \<Rightarrow> AuthBootstrapResult" where
  "localLoginFailure f = localFailure f LocalUnauthenticated"

section \<open>Public operations\<close>

subsection \<open>Establishment\<close>

definition reserveEstablishment :: "('w, bool) auth" where
  "reserveEstablishment =
     (\<lambda>s. if pendingEstablishments s \<ge> int (maxPendingEstablishments s) then (Inr False, s)
          else (Inr True, s\<lparr>pendingEstablishments := pendingEstablishments s + 1\<rparr>))"

definition releaseEstablishment :: "('w, unit) auth" where
  "releaseEstablishment = modify (\<lambda>s. s\<lparr>pendingEstablishments := pendingEstablishments s - 1\<rparr>)"

definition enqueueEstablishment :: "slot \<Rightarrow> ('w, unit) auth" where
  "enqueueEstablishment x = modify (\<lambda>s. s\<lparr>establishmentQueue := establishmentQueue s @ [x]\<rparr>)"

text \<open>
  The synchronous part of \<open>bootstrap\<close>, \<open>login\<close> and \<open>setup\<close>. The result is \<open>None\<close> when the promise
  waits on the queue.
\<close>

definition bootstrap_begin :: "UpstreamAuthentication \<Rightarrow> ('w, AuthBootstrapResult option) auth" where
  "bootstrap_begin input =
     bind reserveEstablishment (\<lambda>ok.
       if \<not> ok then throw AuthServiceError
       else bind (enqueueEstablishment (BootstrapSlot input)) (\<lambda>_. ret None))"

definition login_begin ::
  "'w auth_env \<Rightarrow> ustring \<Rightarrow> string \<Rightarrow> ('w, AuthBootstrapResult option) auth"
where
  "login_begin E username rawAddress =
     bind (gets service_mode) (\<lambda>m.
     if m \<noteq> Local then throw AuthServiceError
     else bind (call (isInitialized E)) (\<lambda>init.
     case init of
       None \<Rightarrow> throw AuthServiceError
     | Some False \<Rightarrow>
         bind (localBootstrap E (Some True)) (\<lambda>b. ret (Some (localFailure SetupIsRequired b)))
     | Some True \<Rightarrow>
         bind (gets (\<lambda>s. pendingLocalAttempts s \<ge> int (maxSessions s))) (\<lambda>full.
         if full then ret (Some (localLoginFailure RateLimited))
         else bind reserveEstablishment (\<lambda>ok.
         if \<not> ok then ret (Some (localLoginFailure RateLimited))
         else
           case normalizeLabel E username of
             None \<Rightarrow> bind releaseEstablishment (\<lambda>_. throw AuthServiceError)
           | Some label \<Rightarrow>
               bind (call (\<lambda>w. limiterConsume E w (boundedAddress rawAddress))) (\<lambda>allowed.
               case allowed of
                 None \<Rightarrow> bind releaseEstablishment (\<lambda>_. throw AuthServiceError)
               | Some False \<Rightarrow>
                   bind releaseEstablishment (\<lambda>_. ret (Some (localLoginFailure RateLimited)))
               | Some True \<Rightarrow>
                   bind (modify (\<lambda>s. s\<lparr>pendingLocalAttempts := pendingLocalAttempts s + 1\<rparr>)) (\<lambda>_.
                   bind (enqueueEstablishment (LoginSlot label (boundedAddress rawAddress))) (\<lambda>_.
                   ret None)))))))"

definition setup_begin :: "'w auth_env \<Rightarrow> string \<Rightarrow> ('w, AuthBootstrapResult option) auth" where
  "setup_begin E rawAddress =
     bind (gets service_mode) (\<lambda>m.
     if m \<noteq> Local then throw AuthServiceError
     else bind (call (isInitialized E)) (\<lambda>init.
     case init of
       None \<Rightarrow> throw AuthServiceError
     | Some True \<Rightarrow>
         bind (localBootstrap E (Some False)) (\<lambda>b. ret (Some (localFailure AlreadyInitialized b)))
     | Some False \<Rightarrow>
         bind (gets (\<lambda>s. pendingLocalAttempts s \<ge> int (maxSessions s))) (\<lambda>full.
         if full
         then bind (localBootstrap E (Some True)) (\<lambda>b. ret (Some (localFailure RateLimited b)))
         else bind reserveEstablishment (\<lambda>ok.
         if \<not> ok
         then bind (localBootstrap E (Some True)) (\<lambda>b. ret (Some (localFailure RateLimited b)))
         else
           bind (call (\<lambda>w. limiterConsume E w (boundedAddress rawAddress))) (\<lambda>allowed.
           case allowed of
             None \<Rightarrow> bind releaseEstablishment (\<lambda>_. throw AuthServiceError)
           | Some False \<Rightarrow>
               bind releaseEstablishment (\<lambda>_.
               bind (localBootstrap E (Some True)) (\<lambda>b. ret (Some (localFailure RateLimited b))))
           | Some True \<Rightarrow>
               bind (modify (\<lambda>s. s\<lparr>pendingLocalAttempts := pendingLocalAttempts s + 1\<rparr>)) (\<lambda>_.
               bind (enqueueEstablishment (SetupSlot (boundedAddress rawAddress))) (\<lambda>_.
               ret None)))))))"

definition completeBootstrap ::
  "'w auth_env \<Rightarrow> UpstreamAuthentication \<Rightarrow> ('w, AuthBootstrapResult) auth"
where
  "completeBootstrap E input =
     bind (gets service_mode) (\<lambda>m.
     if m = Local then
       (if input \<noteq> NoUpstream then throw AuthServiceError
        else bind (localBootstrap E None) (\<lambda>b.
               ret \<lparr>bootstrap = b, cookieValue = None, failure = None\<rparr>))
     else if m = NoAuth then
       (if input \<noteq> NoUpstream then throw AuthServiceError
        else safeEstablish E NoAuth (map of_char ''anonymous'') None None)
     else case input of
       NoUpstream \<Rightarrow> throw AuthServiceError
     | UpstreamIdentified u \<Rightarrow>
         if up_mode u \<noteq> m then throw AuthServiceError
         else (case validateIdentity E u of
                 None \<Rightarrow> throw AuthServiceError
               | Some (um, label, expires) \<Rightarrow>
                   if m = CloudflareAccess \<and> expires = None then throw AuthServiceError
                   else (case expires of
                           None \<Rightarrow> safeEstablish E m label None None
                         | Some x \<Rightarrow>
                             bind (now E) (\<lambda>t.
                               if x \<le> t then throw AuthServiceError
                               else safeEstablish E m label (Some x) None))))"

definition completeLoginSlot ::
  "'w auth_env \<Rightarrow> bool option \<Rightarrow> ustring \<Rightarrow> string \<Rightarrow> ('w, AuthBootstrapResult) auth"
where
  "completeLoginSlot E verification label address =
     (case verification of
        None \<Rightarrow> throw AuthServiceError
      | Some False \<Rightarrow> ret (localLoginFailure AuthenticationFailed)
      | Some True \<Rightarrow> safeEstablish E Local label None (Some address))"

definition completeSetup ::
  "'w auth_env \<Rightarrow> enrollment \<Rightarrow> string \<Rightarrow> ('w, AuthBootstrapResult) auth"
where
  "completeSetup E enrolled address =
     (case enrolled of
        EnrollThrew \<Rightarrow> throw AuthServiceError
      | EnrollAlready \<Rightarrow>
          bind (localBootstrap E (Some False)) (\<lambda>b. ret (localFailure AlreadyInitialized b))
      | EnrollNotCommitted \<Rightarrow> throw AuthServiceError
      | EnrollCommitted uncertain \<Rightarrow>
          bind (if uncertain then modify (\<lambda>s. s\<lparr>world := durabilityUncertain E (world s)\<rparr>) else ret ()) (\<lambda>_.
          bind (gets localUsername) (\<lambda>u. safeEstablish E Local u None (Some address))))"

text \<open>
  The head of the queue runs to completion once what it awaits has settled; its reservation is
  released by a later callback.
\<close>

definition settleNext ::
  "'w auth_env \<Rightarrow> bool option \<Rightarrow> enrollment \<Rightarrow> ('w, AuthBootstrapResult option) auth"
where
  "settleNext E verification enrolled =
     bind (gets establishmentQueue) (\<lambda>q.
       case q of
         [] \<Rightarrow> ret None
       | x # xs \<Rightarrow>
           bind (modify (\<lambda>s. s\<lparr>establishmentQueue := xs, unreleased := unreleased s @ [x]\<rparr>)) (\<lambda>_.
           bind (case x of
                   BootstrapSlot input \<Rightarrow> completeBootstrap E input
                 | LoginSlot label address \<Rightarrow> completeLoginSlot E verification label address
                 | SetupSlot address \<Rightarrow> completeSetup E enrolled address) (\<lambda>r.
           ret (Some r))))"

fun local_slot :: "slot \<Rightarrow> bool" where
  "local_slot (BootstrapSlot _) = False"
| "local_slot _ = True"

definition releaseNext :: "('w, unit) auth" where
  "releaseNext = modify (\<lambda>s.
     case unreleased s of
       [] \<Rightarrow> s
     | x # xs \<Rightarrow>
         s\<lparr>unreleased := xs, pendingEstablishments := pendingEstablishments s - 1,
           pendingLocalAttempts := pendingLocalAttempts s - (if local_slot x then 1 else 0)\<rparr>)"

subsection \<open>Requests on an established session\<close>

definition lookupCookie :: "'w auth_env \<Rightarrow> string option \<Rightarrow> ('w, nat option) auth" where
  "lookupCookie E raw =
     (case raw of
        None \<Rightarrow> ret None
      | Some c \<Rightarrow>
          if \<not> TOKEN_PATTERN c then ret None
          else bind (gets (\<lambda>s. jm_get (byDigest s) (sha256 E c))) (\<lambda>found.
                 case found of
                   None \<Rightarrow> ret None
                 | Some r \<Rightarrow> bind (unexpired E r) (\<lambda>ok. ret (if ok then Some r else None))))"

definition authenticateCookie :: "'w auth_env \<Rightarrow> string option \<Rightarrow> ('w, AuthenticatedSession option) auth" where
  "authenticateCookie E raw =
     bind (lookupCookie E raw) (\<lambda>found.
       case found of None \<Rightarrow> ret None | Some r \<Rightarrow> gets (\<lambda>s. Some (view (stored s r))))"

definition authenticateAuthority ::
  "'w auth_env \<Rightarrow> string option \<Rightarrow> ('w, (AuthenticatedSession \<times> nat) option) auth"
where
  "authenticateAuthority E raw =
     bind (lookupCookie E raw) (\<lambda>found.
       case found of None \<Rightarrow> ret None | Some r \<Rightarrow> gets (\<lambda>s. Some (authorityView (stored s r))))"

text \<open>Lookup by id; \<open>None\<close> when there is no session or it has just been revoked as expired.\<close>

definition lookupId :: "'w auth_env \<Rightarrow> string \<Rightarrow> ('w, nat option) auth" where
  "lookupId E i =
     bind (gets (\<lambda>s. jm_get (byId s) i)) (\<lambda>found.
       case found of
         None \<Rightarrow> ret None
       | Some r \<Rightarrow> bind (unexpired E r) (\<lambda>ok. ret (if ok then Some r else None)))"

definition lookupAuthority :: "'w auth_env \<Rightarrow> string \<Rightarrow> nat \<Rightarrow> ('w, nat option) auth" where
  "lookupAuthority E i g =
     bind (gets (\<lambda>s. case jm_get (byId s) i of
                       Some r \<Rightarrow> stored_generation (stored s r) = g | None \<Rightarrow> False)) (\<lambda>same.
       if same then lookupId E i else ret None)"

definition isActiveAuthority :: "'w auth_env \<Rightarrow> string \<Rightarrow> nat \<Rightarrow> ('w, bool) auth" where
  "isActiveAuthority E i g = bind (lookupAuthority E i g) (\<lambda>found. ret (found \<noteq> None))"

definition touch_object :: "nat \<Rightarrow> real \<Rightarrow> 'w AuthService \<Rightarrow> 'w AuthService" where
  "touch_object r t s =
     s\<lparr>objects := (objects s)(r \<mapsto> (stored s r)\<lparr>lastSeen := t,
         idleExpiresAt := min (absoluteExpiresAt (stored s r)) (t + idleDuration s)\<rparr>)\<rparr>"

definition touchAuthority :: "'w auth_env \<Rightarrow> string \<Rightarrow> nat \<Rightarrow> ('w, bool) auth" where
  "touchAuthority E i g =
     bind (lookupAuthority E i g) (\<lambda>found.
       case found of
         None \<Rightarrow> ret False
       | Some r \<Rightarrow>
           bind (now E) (\<lambda>t.
           bind (modify (touch_object r t)) (\<lambda>_.
           gets (\<lambda>s. jm_get (byId s) i = Some r \<and> stored_generation (stored s r) = g))))"

definition touch_session :: "'w auth_env \<Rightarrow> string \<Rightarrow> ('w, unit) auth" where
  "touch_session E i =
     bind (lookupId E i) (\<lambda>found.
       case found of
         None \<Rightarrow> ret ()
       | Some r \<Rightarrow> bind (now E) (\<lambda>t. modify (touch_object r t)))"

definition resume :: "'w auth_env \<Rightarrow> string \<Rightarrow> ('w, AuthBootstrapResult option) auth" where
  "resume E i =
     bind (lookupId E i) (\<lambda>found.
       case found of
         None \<Rightarrow> ret None
       | Some r \<Rightarrow>
           bind (createCsrf E) (\<lambda>issued.
           bind (gets (\<lambda>s. stored s r)) (\<lambda>ob.
             if (case upstreamExpiresAt ob of None \<Rightarrow> True | Some u \<Rightarrow> date_ok u)
             then bind (modify (\<lambda>s. s\<lparr>objects := (objects s)(r \<mapsto>
                          (stored s r)\<lparr>csrf_record := snd issued\<rparr>)\<rparr>)) (\<lambda>_.
                    ret (Some \<lparr>bootstrap = Authenticated (stored_mode ob) (identityLabel ob)
                                  (fst issued) (upstreamExpiresAt ob),
                               cookieValue = None, failure = None\<rparr>))
             else throw AuthServiceError)))"

definition refresh ::
  "'w auth_env \<Rightarrow> string \<Rightarrow> UpstreamIdentity \<Rightarrow> ('w, AuthenticatedSession option) auth"
where
  "refresh E i upstream =
     bind (lookupId E i) (\<lambda>found.
       case found of
         None \<Rightarrow> ret None
       | Some r \<Rightarrow>
           bind (gets (\<lambda>s. stored s r)) (\<lambda>ob.
           if stored_mode ob = Local \<or> stored_mode ob = NoAuth then ret None
           else case validateIdentity E upstream of
                  None \<Rightarrow> ret None
                | Some (um, label, expires) \<Rightarrow>
                    if um \<noteq> stored_mode ob \<or> label \<noteq> identityLabel ob then ret None
                    else (case expires of
                            None \<Rightarrow>
                              ret (if stored_mode ob = TrustedHeader \<and> upstreamExpiresAt ob = None
                                   then Some (view ob) else None)
                          | Some x \<Rightarrow>
                              bind (now E) (\<lambda>t.
                              if x \<le> t \<or> (case upstreamExpiresAt ob of None \<Rightarrow> False | Some u \<Rightarrow> x \<le> u)
                              then ret None
                              else bind (modify (\<lambda>s. s\<lparr>objects := (objects s)(r \<mapsto>
                                           (stored s r)\<lparr>upstreamExpiresAt := Some x\<rparr>)\<rparr>)) (\<lambda>_.
                                   gets (\<lambda>s. Some (view (stored s r))))))))"

definition verifyCsrf :: "'w auth_env \<Rightarrow> string \<Rightarrow> string option \<Rightarrow> ('w, bool) auth" where
  "verifyCsrf E i supplied =
     bind (lookupId E i) (\<lambda>found.
       case found of
         None \<Rightarrow> ret False
       | Some r \<Rightarrow>
           gets (\<lambda>s. csrf_verify (sha256 E) (csrf_service s) (csrf_record (stored s r)) supplied))"

definition logout :: "string \<Rightarrow> ('w, unit) auth" where
  "logout i =
     bind (gets (\<lambda>s. jm_get (byId s) i)) (\<lambda>found.
       case found of None \<Rightarrow> ret () | Some r \<Rightarrow> revoke r Logout)"

fun sweep_refs :: "'w auth_env \<Rightarrow> nat list \<Rightarrow> ('w, unit) auth" where
  "sweep_refs E [] = ret ()"
| "sweep_refs E (r # rs) = bind (unexpired E r) (\<lambda>_. sweep_refs E rs)"

definition sweepExpired :: "'w auth_env \<Rightarrow> ('w, unit) auth" where
  "sweepExpired E =
     bind (gets (\<lambda>s. stable_sort (\<lambda>a b. collate E (stored_id (stored s a)) (stored_id (stored s b)) \<le> 0)
                       (map snd (byId s)))) (sweep_refs E)"

definition onRevoked :: "('w, nat) auth" where
  "onRevoked =
     (\<lambda>s. if length (observers s) \<ge> observerMax s then (Inl AuthServiceError, s)
          else (Inr (next_observer s), s\<lparr>observers := observers s @ [next_observer s],
                   next_observer := Suc (next_observer s)\<rparr>))"

definition unsubscribe :: "nat \<Rightarrow> ('w, unit) auth" where
  "unsubscribe ob = modify (\<lambda>s. s\<lparr>observers := js_remove ob (observers s)\<rparr>)"

subsection \<open>Password change\<close>

text \<open>The three stretches of \<open>#runPasswordChange\<close> between its awaits, and the final callback.\<close>

definition change_check :: "'w auth_env \<Rightarrow> nat \<Rightarrow> change_phase \<Rightarrow> ('w, bool option) auth" where
  "change_check E r phase =
     bind (unexpired E r) (\<lambda>ok.
       if \<not> ok then ret (Some False)
       else bind (modify (\<lambda>s. s\<lparr>passwordChange := phase\<rparr>)) (\<lambda>_. ret None))"

definition changePassword_begin :: "'w auth_env \<Rightarrow> string \<Rightarrow> ('w, bool option) auth" where
  "changePassword_begin E i =
     bind (gets passwordChangeActive) (\<lambda>busy.
       if busy then ret (Some False)
       else
         bind (modify (\<lambda>s. s\<lparr>passwordChangeActive := True, passwordChange := ChangeSettled\<rparr>)) (\<lambda>_.
         bind (gets (\<lambda>s. case jm_get (byId s) i of
                           Some r \<Rightarrow> if stored_mode (stored s r) = Local then Some r else None
                         | None \<Rightarrow> None)) (\<lambda>found.
           case found of
             None \<Rightarrow> ret (Some False)
           | Some r \<Rightarrow> change_check E r (AwaitVerify r i))))"

definition changePassword_verified :: "'w auth_env \<Rightarrow> bool option \<Rightarrow> ('w, bool option) auth" where
  "changePassword_verified E valid =
     bind (gets passwordChange) (\<lambda>phase.
       case phase of
         AwaitVerify r i \<Rightarrow>
           bind (modify (\<lambda>s. s\<lparr>passwordChange := ChangeSettled\<rparr>)) (\<lambda>_.
           case valid of
             None \<Rightarrow> throw AuthServiceError
           | Some False \<Rightarrow> ret (Some False)
           | Some True \<Rightarrow>
               bind (gets (\<lambda>s. jm_get (byId s) i = Some r)) (\<lambda>same.
               if \<not> same then ret (Some False) else change_check E r AwaitReplace))
       | _ \<Rightarrow> ret None)"

definition revoke_all :: "RevocationReason \<Rightarrow> 'w AuthService \<Rightarrow> 'w AuthService" where
  "revoke_all reason s = fold (\<lambda>r. revoke_session r reason) (map snd (byId s)) s"

definition changePassword_replaced :: "bool option \<Rightarrow> ('w, bool option) auth" where
  "changePassword_replaced committed =
     bind (gets passwordChange) (\<lambda>phase.
       case phase of
         AwaitReplace \<Rightarrow>
           bind (modify (\<lambda>s. s\<lparr>passwordChange := ChangeSettled\<rparr>)) (\<lambda>_.
           case committed of
             None \<Rightarrow> throw AuthServiceError
           | Some False \<Rightarrow> ret (Some False)
           | Some True \<Rightarrow> bind (modify (revoke_all PasswordChanged)) (\<lambda>_. ret (Some True)))
       | _ \<Rightarrow> ret None)"

definition changePassword_finally :: "('w, unit) auth" where
  "changePassword_finally = modify (\<lambda>s.
     if passwordChange s = ChangeSettled
     then s\<lparr>passwordChangeActive := False, passwordChange := NoChange\<rparr> else s)"

section \<open>Expiry\<close>

lemma set_insert_sorted: "set (insert_sorted le x ys) = insert x (set ys)"
  by (induction ys) auto

lemma length_insert_sorted: "length (insert_sorted le x ys) = Suc (length ys)"
  by (induction ys) auto

lemma set_stable_sort [simp]: "set (stable_sort le xs) = set xs"
  unfolding stable_sort_def by (induction xs) (auto simp: set_insert_sorted)

lemma length_stable_sort [simp]: "length (stable_sort le xs) = length xs"
  unfolding stable_sort_def by (induction xs) (auto simp: length_insert_sorted)

lemma expiredReasonAt_None:
  "expiredReasonAt s t = None \<longleftrightarrow>
     t < idleExpiresAt s \<and> t < absoluteExpiresAt s \<and>
     (case upstreamExpiresAt s of None \<Rightarrow> True | Some u \<Rightarrow> t < u)"
  by (cases "upstreamExpiresAt s") (auto simp: expiredReasonAt_def stable_sort_def)

lemma expiredReasonAt_not_absolute:
  "idleExpiresAt s \<le> absoluteExpiresAt s \<Longrightarrow> expiredReasonAt s t \<noteq> Some Absolute"
  by (cases "upstreamExpiresAt s") (auto simp: expiredReasonAt_def stable_sort_def)

section \<open>Invariant\<close>

definition live :: "'w AuthService \<Rightarrow> nat set" where
  "live s = {r. \<exists>i. jm_get (byId s) i = Some r}"

definition maps_ok :: "'w AuthService \<Rightarrow> bool" where
  "maps_ok s \<longleftrightarrow>
     jm_wf (byId s) \<and> jm_wf (byDigest s) \<and> 0 < maxSessions s \<and> length (byId s) \<le> maxSessions s \<and>
     (\<forall>i r. jm_get (byId s) i = Some r \<longrightarrow>
        objects s r \<noteq> None \<and> stored_id (stored s r) = i \<and>
        jm_get (byDigest s) (digest (stored s r)) = Some r) \<and>
     (\<forall>d r. jm_get (byDigest s) d = Some r \<longrightarrow>
        digest (stored s r) = d \<and> jm_get (byId s) (stored_id (stored s r)) = Some r)"

definition objects_ok :: "'w AuthService \<Rightarrow> bool" where
  "objects_ok s \<longleftrightarrow>
     0 < idleDuration s \<and> 0 < absoluteDuration s \<and>
     (\<forall>r ob. objects s r = Some ob \<longrightarrow>
        stored_generation ob = r \<and> r \<le> service_generation s \<and>
        idleExpiresAt ob \<le> absoluteExpiresAt ob)"

definition auth_inv :: "'w AuthService \<Rightarrow> bool" where
  "auth_inv s \<longleftrightarrow> maps_ok s \<and> objects_ok s"

text \<open>
  What one operation may do to the sessions: no session comes back, every object keeps its identity,
  a session that stays keeps its digest, and a session that goes is announced to every observer.
\<close>

definition same_identity :: "Stored \<Rightarrow> Stored \<Rightarrow> bool" where
  "same_identity a b \<longleftrightarrow>
     stored_id a = stored_id b \<and> stored_generation a = stored_generation b \<and>
     stored_mode a = stored_mode b \<and> identityLabel a = identityLabel b \<and>
     createdAt a = createdAt b \<and> absoluteExpiresAt a = absoluteExpiresAt b"

definition auth_rel :: "'w AuthService \<Rightarrow> 'w AuthService \<Rightarrow> bool" where
  "auth_rel s t \<longleftrightarrow>
     observers t = observers s \<and> service_generation s \<le> service_generation t \<and>
     maxSessions t = maxSessions s \<and>
     (\<forall>r \<in> live t. r \<in> live s \<or> service_generation s < r) \<and>
     (\<forall>r ob. objects s r = Some ob \<longrightarrow> (\<exists>ob'. objects t r = Some ob' \<and> same_identity ob ob')) \<and>
     (\<forall>r. r \<in> live s \<longrightarrow> r \<le> service_generation s \<longrightarrow> r \<in> live t \<longrightarrow> digest (stored t r) = digest (stored s r)) \<and>
     (\<exists>entries. notified t = notified s @ entries \<and> (\<forall>e \<in> set entries. snd (snd e) \<noteq> Absolute) \<and>
        (\<forall>r \<in> live s - live t. objects s r \<noteq> None \<longrightarrow>
           (\<forall>ob \<in> set (observers s). \<exists>x. (ob, stored_id (stored s r), x) \<in> set entries)))"

lemma same_identity_refl [simp]: "same_identity a a"
  by (simp add: same_identity_def)

lemma same_identity_trans: "same_identity a b \<Longrightarrow> same_identity b c \<Longrightarrow> same_identity a c"
  by (simp add: same_identity_def)

lemma auth_rel_refl: "auth_rel s s"
  by (simp add: auth_rel_def)

lemma auth_relI:
  assumes "observers t = observers s" "service_generation s \<le> service_generation t"
    and "maxSessions t = maxSessions s"
    and "\<And>r. r \<in> live t \<Longrightarrow> r \<in> live s \<or> service_generation s < r"
    and "\<And>r ob. objects s r = Some ob \<Longrightarrow> \<exists>ob'. objects t r = Some ob' \<and> same_identity ob ob'"
    and "notified t = notified s @ entries" "\<And>e. e \<in> set entries \<Longrightarrow> snd (snd e) \<noteq> Absolute"
    and "\<And>r ob. \<lbrakk>r \<in> live s; r \<notin> live t; objects s r \<noteq> None; ob \<in> set (observers s)\<rbrakk>
           \<Longrightarrow> \<exists>x. (ob, stored_id (stored s r), x) \<in> set entries"
    and "\<And>r. \<lbrakk>r \<in> live s; r \<le> service_generation s; r \<in> live t\<rbrakk> \<Longrightarrow> digest (stored t r) = digest (stored s r)"
  shows "auth_rel s t"
  using assms unfolding auth_rel_def by blast

lemma auth_rel_trans:
  assumes "auth_rel s t" "auth_rel t u"
  shows "auth_rel s u"
proof -
  from assms(1) obtain l1 where l1: "notified t = notified s @ l1" "\<forall>e \<in> set l1. snd (snd e) \<noteq> Absolute"
    "\<And>r ob. \<lbrakk>r \<in> live s; r \<notin> live t; objects s r \<noteq> None; ob \<in> set (observers s)\<rbrakk>
       \<Longrightarrow> \<exists>x. (ob, stored_id (stored s r), x) \<in> set l1"
    unfolding auth_rel_def by blast
  from assms(2) obtain l2 where l2: "notified u = notified t @ l2" "\<forall>e \<in> set l2. snd (snd e) \<noteq> Absolute"
    "\<And>r ob. \<lbrakk>r \<in> live t; r \<notin> live u; objects t r \<noteq> None; ob \<in> set (observers t)\<rbrakk>
       \<Longrightarrow> \<exists>x. (ob, stored_id (stored t r), x) \<in> set l2"
    unfolding auth_rel_def by blast
  have obj1: "\<exists>ob'. objects t r = Some ob' \<and> same_identity ob ob'" if "objects s r = Some ob" for r ob
    using assms(1) that unfolding auth_rel_def by blast
  have obj2: "\<exists>ob'. objects u r = Some ob' \<and> same_identity ob ob'" if "objects t r = Some ob" for r ob
    using assms(2) that unfolding auth_rel_def by blast
  have fields: "observers t = observers s" "observers u = observers t"
    "service_generation s \<le> service_generation t" "service_generation t \<le> service_generation u"
    "maxSessions t = maxSessions s" "maxSessions u = maxSessions t"
    using assms unfolding auth_rel_def by blast+
  show ?thesis
  proof (rule auth_relI [where entries = "l1 @ l2"])
    show "r \<in> live s \<or> service_generation s < r" if "r \<in> live u" for r
      using assms that fields unfolding auth_rel_def by (meson le_less_trans)
    show "\<exists>ob'. objects u r = Some ob' \<and> same_identity ob ob'" if "objects s r = Some ob" for r ob
      using obj1 [OF that] obj2 same_identity_trans by blast
    show "digest (stored u r) = digest (stored s r)" if "r \<in> live s" "r \<le> service_generation s" "r \<in> live u" for r
    proof -
      have "r \<le> service_generation t" using that(2) fields(3) by simp
      moreover from this have "r \<in> live t" using assms(2) that(3) unfolding auth_rel_def by (meson leD)
      ultimately show ?thesis using assms that unfolding auth_rel_def by metis
    qed
    show "\<exists>x. (ob, stored_id (stored s r), x) \<in> set (l1 @ l2)"
      if r: "r \<in> live s" "r \<notin> live u" "objects s r \<noteq> None" "ob \<in> set (observers s)" for r ob
    proof (cases "r \<in> live t")
      case False
      with l1(3) [OF r(1) False r(3,4)] show ?thesis by auto
    next
      case True
      obtain a where a: "objects s r = Some a" using r(3) by blast
      then obtain b where "objects t r = Some b" "same_identity a b" using obj1 by blast
      with a have "objects t r \<noteq> None" "stored_id (stored t r) = stored_id (stored s r)"
        by (auto simp: stored_def same_identity_def)
      with l2(3) [OF True r(2), of ob] r(4) fields show ?thesis by auto
    qed
  qed (use fields l1(1,2) l2(1,2) in auto)
qed

interpretation sessions: frame_relation "auth_inv :: 'w AuthService \<Rightarrow> bool" auth_rel
  by unfold_locales (auto intro: auth_rel_refl auth_rel_trans)

subsection \<open>Steps that leave the sessions alone\<close>

definition same_sessions :: "'w AuthService \<Rightarrow> 'w AuthService \<Rightarrow> bool" where
  "same_sessions s t \<longleftrightarrow>
     byId t = byId s \<and> byDigest t = byDigest s \<and> objects t = objects s \<and>
     observers t = observers s \<and> notified t = notified s \<and> maxSessions t = maxSessions s \<and>
     service_generation t = service_generation s \<and>
     idleDuration t = idleDuration s \<and> absoluteDuration t = absoluteDuration s"

lemma same_sessions_ok:
  assumes "same_sessions s t" "auth_inv s"
  shows "auth_inv t \<and> auth_rel s t"
proof -
  have "stored t = stored s" "live t = live s"
    using assms(1) by (auto simp: same_sessions_def stored_def live_def fun_eq_iff)
  then show ?thesis using assms
    by (auto simp: same_sessions_def auth_inv_def maps_ok_def objects_ok_def auth_rel_def)
qed

lemma keeps_modify_same:
  "(\<And>s. same_sessions s (f s)) \<Longrightarrow> sessions.keeps (modify f)"
  by (rule sessions.keeps_modify) (rule same_sessions_ok)

lemma keeps_call [intro]: "sessions.keeps (call f)"
  by (rule sessions.keepsI, rule same_sessions_ok)
    (auto simp: call_def same_sessions_def split: prod.split)

lemma keeps_now [intro]: "sessions.keeps (now E)"
  unfolding now_def by (intro sessions.keeps_bind keeps_call) (auto split: jsnum.split)

subsection \<open>Removing sessions\<close>

lemma live_iff: "maps_ok s \<Longrightarrow> r \<in> live s \<longleftrightarrow> jm_get (byId s) (stored_id (stored s r)) = Some r"
  by (auto simp: live_def maps_ok_def)

lemma live_stored:
  assumes "maps_ok s" "r \<in> live s"
  shows "objects s r = Some (stored s r)" "jm_get (byId s) (stored_id (stored s r)) = Some r"
    "jm_get (byDigest s) (digest (stored s r)) = Some r"
  using assms by (auto simp: live_def maps_ok_def stored_def)

lemma stored_other:
  "objects t = (objects s)(r \<mapsto> ob) \<Longrightarrow> stored t k = (if k = r then ob else stored s k)"
  by (simp add: stored_def)

lemma remove_session_live:
  assumes "maps_ok s" "r \<in> live s"
  obtains t where "remove_session r s = (True, t)"
    "byId t = jm_delete (byId s) (stored_id (stored s r))"
    "byDigest t = jm_delete (byDigest s) (digest (stored s r))"
    "objects t = (objects s)(r \<mapsto> (stored s r)\<lparr>digest := ''''\<rparr>)"
    "observers t = observers s" "notified t = notified s" "maxSessions t = maxSessions s"
    "service_generation t = service_generation s" "idleDuration t = idleDuration s"
    "absoluteDuration t = absoluteDuration s"
  using live_stored(2) [OF assms] by (auto simp: remove_session_def intro!: that)

lemma remove_session_ok:
  assumes inv: "auth_inv s" and r: "r \<in> live s" and run: "remove_session r s = (b, t)"
  shows "b" "auth_inv t" "live t = live s - {r}" "stored_id (stored t k) = stored_id (stored s k)"
proof -
  have m: "maps_ok s" and ok: "objects_ok s" using inv by (simp_all add: auth_inv_def)
  note own = live_stored [OF m r]
  obtain t' where t': "remove_session r s = (True, t')"
    and f: "byId t' = jm_delete (byId s) (stored_id (stored s r))"
      "byDigest t' = jm_delete (byDigest s) (digest (stored s r))"
      "objects t' = (objects s)(r \<mapsto> (stored s r)\<lparr>digest := ''''\<rparr>)"
      "maxSessions t' = maxSessions s" "service_generation t' = service_generation s"
      "idleDuration t' = idleDuration s" "absoluteDuration t' = absoluteDuration s"
    by (rule remove_session_live [OF m r])
  with run have t: "b" "t = t'" by simp_all
  note st = stored_other [OF f(3)]
  show "b" by (rule t)
  show "stored_id (stored t k) = stored_id (stored s k)" by (simp add: t st)
  have inj: "jm_get (byId s) i = Some k \<Longrightarrow> i \<noteq> stored_id (stored s r) \<Longrightarrow> k \<noteq> r" for i k
    using m by (auto simp: maps_ok_def)
  show "live t = live s - {r}"
    using own(2) inj by (auto simp: live_def t f) (metis option.inject)
  have "maps_ok t'" unfolding maps_ok_def
  proof (intro conjI allI impI)
    show "length (byId t') \<le> maxSessions t'"
      using m length_jm_delete_le [of "stored_id (stored s r)" "byId s"] by (simp add: f maps_ok_def)
  next
    fix i k
    assume "jm_get (byId t') i = Some k"
    then have i: "i \<noteq> stored_id (stored s r)" "jm_get (byId s) i = Some k"
      by (auto simp: f split: if_splits)
    note k = inj [OF i(2,1)]
    with i(2) m show "objects t' k \<noteq> None" "stored_id (stored t' k) = i"
      by (simp_all add: f(3) st maps_ok_def)
    have "jm_get (byDigest s) (digest (stored s k)) = Some k" using i(2) m by (simp add: maps_ok_def)
    moreover have "digest (stored s k) \<noteq> digest (stored s r)" using calculation own(3) k by auto
    ultimately show "jm_get (byDigest t') (digest (stored t' k)) = Some k" using k by (simp add: f st)
  next
    fix d k
    assume "jm_get (byDigest t') d = Some k"
    then have d: "d \<noteq> digest (stored s r)" "jm_get (byDigest s) d = Some k"
      by (auto simp: f split: if_splits)
    then have k: "digest (stored s k) = d" "jm_get (byId s) (stored_id (stored s k)) = Some k" "k \<noteq> r"
      using m by (auto simp: maps_ok_def)
    then show "digest (stored t' k) = d" by (simp add: st)
    have "stored_id (stored s k) \<noteq> stored_id (stored s r)" using k own(2) by auto
    with k show "jm_get (byId t') (stored_id (stored t' k)) = Some k" by (simp add: f st)
  qed (use m in \<open>simp_all add: f maps_ok_def\<close>)
  moreover have "objects_ok t'"
    using ok own(1) by (auto simp: objects_ok_def f)
  ultimately show "auth_inv t" by (simp add: auth_inv_def t)
qed

lemma emit_frame [simp]:
  "byId (emitRevocation i x s) = byId s" "byDigest (emitRevocation i x s) = byDigest s"
  "objects (emitRevocation i x s) = objects s" "observers (emitRevocation i x s) = observers s"
  "service_generation (emitRevocation i x s) = service_generation s"
  "maxSessions (emitRevocation i x s) = maxSessions s"
  "idleDuration (emitRevocation i x s) = idleDuration s"
  "absoluteDuration (emitRevocation i x s) = absoluteDuration s"
  "stored (emitRevocation i x s) = stored s" "live (emitRevocation i x s) = live s"
  "notified (emitRevocation i x s) = notified s @ map (\<lambda>ob. (ob, i, x)) (observers s)"
  by (simp_all add: emitRevocation_def stored_def live_def fun_eq_iff)

lemma emit_inv [simp]: "auth_inv (emitRevocation i x s) = auth_inv s"
  by (simp add: auth_inv_def maps_ok_def objects_ok_def)

lemma revoke_session_ok:
  assumes inv: "auth_inv s" and r: "r \<in> live s" and x: "x \<noteq> Absolute"
  shows "auth_inv (revoke_session r x s) \<and> auth_rel s (revoke_session r x s) \<and>
    live (revoke_session r x s) = live s - {r}"
proof -
  have m: "maps_ok s" using inv by (simp add: auth_inv_def)
  obtain t where t: "remove_session r s = (True, t)"
    and f: "objects t = (objects s)(r \<mapsto> (stored s r)\<lparr>digest := ''''\<rparr>)"
      "observers t = observers s" "notified t = notified s" "maxSessions t = maxSessions s"
      "service_generation t = service_generation s"
    by (rule remove_session_live [OF m r])
  note ok = remove_session_ok [OF inv r t]
  let ?u = "emitRevocation (stored_id (stored s r)) x t"
  have u: "revoke_session r x s = ?u" by (simp add: revoke_session_def t)
  have "auth_rel s ?u"
  proof (rule auth_relI [where entries = "map (\<lambda>ob. (ob, stored_id (stored s r), x)) (observers s)"])
    show "\<exists>ob'. objects ?u k = Some ob' \<and> same_identity ob ob'" if "objects s k = Some ob" for k ob
      using that by (auto simp: f stored_def same_identity_def)
    show "digest (stored ?u k) = digest (stored s k)" if "k \<in> live ?u" for k
      using that ok(3) f(1) by (auto simp: stored_def)
    show "\<exists>y. (ob, stored_id (stored s k), y) \<in> set (map (\<lambda>ob. (ob, stored_id (stored s r), x)) (observers s))"
      if "k \<in> live s" "k \<notin> live ?u" "ob \<in> set (observers s)" for k ob
      using that ok(3) by auto
    show "snd (snd e) \<noteq> Absolute"
      if "e \<in> set (map (\<lambda>ob. (ob, stored_id (stored s r), x)) (observers s))" for e
      using that x by auto
  qed (use f ok(3) in auto)
  with ok u show ?thesis by simp
qed

text \<open>The expiry check: it keeps the session if and only if its answer is positive.\<close>

lemma unexpired_ok:
  assumes "auth_inv s" "r \<in> live s" "unexpired E r s = (res, t)"
  shows "auth_inv t \<and> auth_rel s t \<and>
    (case res of Inl _ \<Rightarrow> live t = live s
     | Inr ok \<Rightarrow> live t = (if ok then live s else live s - {r}) \<and>
         (ok \<longrightarrow> same_sessions s t \<and> (\<exists>w. \<exists>n. clock E (world s) = (Num n, w) \<and>
            expiredReasonAt (stored s r) n = None)))"
proof -
  obtain n w where c: "clock E (world s) = (n, w)" by (metis surj_pair)
  let ?s = "s\<lparr>world := w\<rparr>"
  have same: "same_sessions s ?s" by (simp add: same_sessions_def)
  have e: "stored ?s = stored s" "live ?s = live s" by (simp_all add: stored_def live_def fun_eq_iff)
  note ok = same_sessions_ok [OF same assms(1)]
  show ?thesis
  proof (cases n)
    case (Num v)
    show ?thesis
    proof (cases "expiredReasonAt (stored s r) v")
      case None
      with assms(3) c Num ok same e show ?thesis
        by (auto simp: unexpired_def expiredReason_def now_def call_def em_simps)
    next
      case (Some x)
      with assms(3) c Num e have "res = Inr False" "t = revoke_session r x ?s"
        by (auto simp: unexpired_def expiredReason_def now_def call_def revoke_def em_simps)
      moreover have "x \<noteq> Absolute"
        using Some expiredReasonAt_not_absolute live_stored(1) [OF _ assms(2)] assms(1)
        by (auto simp: auth_inv_def objects_ok_def)
      ultimately show ?thesis using revoke_session_ok [of ?s r x] ok assms(2) e
        by (auto intro: auth_rel_trans)
    qed
  qed (use assms(3) c ok e in \<open>auto simp: unexpired_def expiredReason_def now_def call_def em_simps\<close>)
qed

lemma live_get: "jm_get (byId s) i = Some r \<Longrightarrow> r \<in> live s"
  by (auto simp: live_def)

lemma live_digest: "auth_inv s \<Longrightarrow> jm_get (byDigest s) d = Some r \<Longrightarrow> r \<in> live s"
  unfolding auth_inv_def maps_ok_def live_def by blast

lemma same_sessions_live:
  "same_sessions s t \<Longrightarrow> live t = live s" "same_sessions s t \<Longrightarrow> stored t = stored s"
  by (simp_all add: same_sessions_def live_def stored_def fun_eq_iff)

lemma same_sessions_trans: "same_sessions s t \<Longrightarrow> same_sessions t u \<Longrightarrow> same_sessions s u"
  by (simp add: same_sessions_def)

subsection \<open>Looking a session up\<close>

text \<open>
  The outcome of a lookup: a session it returns is live, was not expired at the instant it read, and
  nothing about the sessions has changed; otherwise at most expired sessions are gone.
\<close>

definition lookup_spec :: "'w auth_env \<Rightarrow> ('w, nat option) auth \<Rightarrow> bool" where
  "lookup_spec E m \<longleftrightarrow>
     (\<forall>s res t. auth_inv s \<longrightarrow> m s = (res, t) \<longrightarrow>
        auth_inv t \<and> auth_rel s t \<and>
        (case res of
           Inr (Some r) \<Rightarrow> same_sessions s t \<and> r \<in> live s \<and>
             (\<exists>w n. clock E (world s) = (Num n, w) \<and> expiredReasonAt (stored s r) n = None)
         | _ \<Rightarrow> True))"

lemma lookup_specD:
  assumes "lookup_spec E m" "auth_inv s" "m s = (Inr (Some r), t)"
  shows "auth_inv t" "auth_rel s t" "same_sessions s t" "r \<in> live t" "objects t r = Some (stored t r)"
    "\<exists>w n. clock E (world s) = (Num n, w) \<and> expiredReasonAt (stored s r) n = None"
proof -
  have d: "auth_inv t \<and> auth_rel s t \<and> same_sessions s t \<and> r \<in> live s \<and>
      (\<exists>w n. clock E (world s) = (Num n, w) \<and> expiredReasonAt (stored s r) n = None)"
    using assms unfolding lookup_spec_def by fastforce
  then show "auth_inv t" "auth_rel s t" "same_sessions s t" "r \<in> live t"
    "\<exists>w n. clock E (world s) = (Num n, w) \<and> expiredReasonAt (stored s r) n = None"
    using same_sessions_live(1) by blast+
  then show "objects t r = Some (stored t r)"
    using live_stored(1) [of t r] by (simp add: auth_inv_def)
qed

lemma lookup_keeps: "lookup_spec E m \<Longrightarrow> sessions.keeps m"
  by (rule sessions.keepsI) (metis lookup_spec_def prod.collapse)

lemma lookup_unexpired:
  assumes "auth_inv s" "r \<in> live s"
    and "bind (unexpired E r) (\<lambda>ok. ret (if ok then Some r else None)) s = (res, t)"
  shows "auth_inv t \<and> auth_rel s t \<and>
    (case res of
       Inr (Some k) \<Rightarrow> same_sessions s t \<and> k \<in> live s \<and>
         (\<exists>w n. clock E (world s) = (Num n, w) \<and> expiredReasonAt (stored s k) n = None)
     | _ \<Rightarrow> True)"
proof -
  obtain a u where u: "unexpired E r s = (a, u)" by (metis surj_pair)
  from unexpired_ok [OF assms(1,2) this] assms(2,3) u show ?thesis
    by (cases a) (auto simp: em_simps)
qed

lemma lookup_nothing: "auth_inv s \<Longrightarrow> ret None s = (res, t) \<Longrightarrow>
   auth_inv t \<and> auth_rel s t \<and>
    (case res of
       Inr (Some k) \<Rightarrow> same_sessions s t \<and> k \<in> live s \<and>
         (\<exists>w n. clock E (world s) = (Num n, w) \<and> expiredReasonAt (stored s k) n = None)
     | _ \<Rightarrow> True)"
  by (auto simp: ret_def auth_rel_refl)

lemma lookupId_spec: "lookup_spec E (lookupId E i)"
  unfolding lookup_spec_def
proof (intro allI impI)
  fix s :: "'a AuthService" and res t
  assume s: "auth_inv s" and run: "lookupId E i s = (res, t)"
  show "auth_inv t \<and> auth_rel s t \<and> (case res of
           Inr (Some r) \<Rightarrow> same_sessions s t \<and> r \<in> live s \<and>
             (\<exists>w n. clock E (world s) = (Num n, w) \<and> expiredReasonAt (stored s r) n = None)
         | _ \<Rightarrow> True)"
  proof (cases "jm_get (byId s) i")
    case None
    with run have "ret None s = (res, t)" by (simp add: lookupId_def em_simps)
    with s show ?thesis by (rule lookup_nothing)
  next
    case (Some r)
    with run have "bind (unexpired E r) (\<lambda>ok. ret (if ok then Some r else None)) s = (res, t)"
      by (simp add: lookupId_def bind_apply gets_def)
    with s live_get [OF Some] show ?thesis by (rule lookup_unexpired)
  qed
qed

lemma lookupCookie_spec: "lookup_spec E (lookupCookie E c)"
  unfolding lookup_spec_def
proof (intro allI impI)
  fix s :: "'a AuthService" and res t
  assume s: "auth_inv s" and run: "lookupCookie E c s = (res, t)"
  show "auth_inv t \<and> auth_rel s t \<and> (case res of
           Inr (Some r) \<Rightarrow> same_sessions s t \<and> r \<in> live s \<and>
             (\<exists>w n. clock E (world s) = (Num n, w) \<and> expiredReasonAt (stored s r) n = None)
         | _ \<Rightarrow> True)"
  proof (cases "\<exists>k r. c = Some k \<and> TOKEN_PATTERN k \<and> jm_get (byDigest s) (sha256 E k) = Some r")
    case False
    with run have "ret None s = (res, t)"
      by (cases c) (auto simp: lookupCookie_def em_simps split: if_splits option.splits)
    with s show ?thesis by (rule lookup_nothing)
  next
    case True
    then obtain k r where k: "c = Some k" "TOKEN_PATTERN k" "jm_get (byDigest s) (sha256 E k) = Some r"
      by blast
    with run have "bind (unexpired E r) (\<lambda>ok. ret (if ok then Some r else None)) s = (res, t)"
      by (simp add: lookupCookie_def bind_apply gets_def)
    with s live_digest [OF s k(3)] show ?thesis by (rule lookup_unexpired)
  qed
qed

lemma lookupAuthority_spec: "lookup_spec E (lookupAuthority E i g)"
  using lookupId_spec [of E i]
  unfolding lookup_spec_def
  by (auto simp: lookupAuthority_def em_simps auth_rel_refl)

text \<open>An operation that continues with the session it has looked up.\<close>

lemma keeps_lookup:
  assumes "lookup_spec E m" and "sessions.keeps f"
    and "\<And>r s. \<lbrakk>auth_inv s; r \<in> live s; objects s r = Some (stored s r)\<rbrakk>
           \<Longrightarrow> auth_inv (snd (g r s)) \<and> auth_rel s (snd (g r s))"
  shows "sessions.keeps (bind m (\<lambda>x. case x of None \<Rightarrow> f | Some r \<Rightarrow> g r))"
proof (rule sessions.keeps_bind_post [OF lookup_keeps [OF assms(1)]])
  fix s x t
  assume s: "auth_inv s" and m: "m s = (Inr x, t)" and t: "auth_inv t"
  show "auth_inv (snd ((case x of None \<Rightarrow> f | Some r \<Rightarrow> g r) t)) \<and>
      auth_rel t (snd ((case x of None \<Rightarrow> f | Some r \<Rightarrow> g r) t))"
  proof (cases x)
    case None
    then show ?thesis using sessions.keepsD [OF assms(2) t] by simp
  next
    case (Some r)
    then show ?thesis
      using assms(3) [OF t, of r] lookup_specD(4,5) [OF assms(1) s m [unfolded Some]] by simp
  qed
qed

subsection \<open>Updating a session in place\<close>

lemma update_object_ok:
  assumes "auth_inv s" "objects s r = Some ob" "same_identity ob ob'" "digest ob' = digest ob"
    and "idleExpiresAt ob' \<le> absoluteExpiresAt ob'"
  shows "auth_inv (s\<lparr>objects := (objects s)(r \<mapsto> ob')\<rparr>) \<and>
    auth_rel s (s\<lparr>objects := (objects s)(r \<mapsto> ob')\<rparr>)"
proof -
  let ?t = "s\<lparr>objects := (objects s)(r \<mapsto> ob')\<rparr>"
  have ids: "stored_id (stored ?t k) = stored_id (stored s k)" "digest (stored ?t k) = digest (stored s k)" for k
    using assms(2-4) by (auto simp: stored_def same_identity_def)
  have "live ?t = live s" by (simp add: live_def)
  then have "auth_rel s ?t"
    using assms(2,3) ids(2) by (auto simp: auth_rel_def)
  moreover have "maps_ok ?t"
    using assms(1) unfolding auth_inv_def maps_ok_def ids by auto
  moreover have "objects_ok ?t"
    using assms by (auto simp: auth_inv_def objects_ok_def same_identity_def)
  ultimately show ?thesis by (simp add: auth_inv_def)
qed

lemma touch_object_ok:
  assumes "auth_inv s" "objects s r = Some (stored s r)"
  shows "auth_inv (touch_object r t s) \<and> auth_rel s (touch_object r t s)"
  unfolding touch_object_def
  by (rule update_object_ok [OF assms]) (simp_all add: same_identity_def)

lemma same_sessions_world: "same_sessions s (s\<lparr>world := w\<rparr>)"
  by (simp add: same_sessions_def)

lemma keeps_touch:
  assumes "auth_inv s" "objects s r = Some (stored s r)"
  shows "auth_inv (snd (bind (now E) (\<lambda>t. modify (touch_object r t)) s)) \<and>
    auth_rel s (snd (bind (now E) (\<lambda>t. modify (touch_object r t)) s))"
proof -
  obtain n w where c: "clock E (world s) = (n, w)" by (metis surj_pair)
  note ok = same_sessions_ok [OF same_sessions_world assms(1), of w]
  have "objects (s\<lparr>world := w\<rparr>) r = Some (stored (s\<lparr>world := w\<rparr>) r)"
    using assms(2) by (simp add: stored_def)
  from touch_object_ok [OF conjunct1 [OF ok] this] ok c show ?thesis
    by (cases n) (auto simp: now_def call_def em_simps intro: auth_rel_trans)
qed

lemma keeps_createCsrf [intro]: "sessions.keeps (createCsrf E)"
  unfolding createCsrf_def
proof (rule sessions.keeps_bind [OF keeps_call], rule sessions.keepsI, rule same_sessions_ok)
  fix x and s :: "'a AuthService"
  show "same_sessions s (snd ((\<lambda>s. case csrf_create (sha256 E) x (csrf_service s) of
       (None, c) \<Rightarrow> (Inl AuthServiceError, s\<lparr>csrf_service := c\<rparr>)
     | (Some issued, c) \<Rightarrow> (Inr issued, s\<lparr>csrf_service := c\<rparr>)) s))"
    by (auto simp: same_sessions_def split: prod.split option.split)
qed

lemma keeps_touchAuthority: "sessions.keeps (touchAuthority E i g)"
  unfolding touchAuthority_def
proof (rule keeps_lookup [OF lookupAuthority_spec])
  fix r and s :: "'a AuthService"
  assume s: "auth_inv s" "objects s r = Some (stored s r)"
  have "snd (bind (now E) (\<lambda>t. bind (modify (touch_object r t)) (\<lambda>_. gets f)) s) =
      snd (bind (now E) (\<lambda>t. modify (touch_object r t)) s)" for f :: "'a AuthService \<Rightarrow> bool"
    by (auto simp: em_simps split: prod.split sum.split)
  with keeps_touch [OF s, of E]
  show "auth_inv (snd (bind (now E) (\<lambda>t. bind (modify (touch_object r t)) (\<lambda>_.
      gets (\<lambda>s. jm_get (byId s) i = Some r \<and> stored_generation (stored s r) = g))) s)) \<and>
    auth_rel s (snd (bind (now E) (\<lambda>t. bind (modify (touch_object r t)) (\<lambda>_.
      gets (\<lambda>s. jm_get (byId s) i = Some r \<and> stored_generation (stored s r) = g))) s))"
    by simp
qed auto

lemma keeps_touch_session: "sessions.keeps (touch_session E i)"
  unfolding touch_session_def
  by (rule keeps_lookup [OF lookupId_spec sessions.keeps_ret]) (rule keeps_touch)

text \<open>An update of one object after steps that leave the sessions alone.\<close>

lemma update_later:
  assumes s: "auth_inv s" and same: "same_sessions s u" and r: "objects s r = Some (stored s r)"
    and "same_identity (stored s r) ob'" "digest ob' = digest (stored s r)"
    and "idleExpiresAt ob' \<le> absoluteExpiresAt ob'"
  shows "auth_inv (u\<lparr>objects := (objects u)(r \<mapsto> ob')\<rparr>) \<and> auth_rel s (u\<lparr>objects := (objects u)(r \<mapsto> ob')\<rparr>)"
proof -
  note u = same_sessions_ok [OF same s]
  have "objects u r = Some (stored s r)" using same r by (simp add: same_sessions_def)
  from update_object_ok [OF conjunct1 [OF u] this assms(4-6)] u show ?thesis
    by (auto intro: auth_rel_trans)
qed

lemma createCsrf_same: "createCsrf E s = (x, t) \<Longrightarrow> same_sessions s t"
  by (auto simp: createCsrf_def call_def bind_apply same_sessions_def split: prod.splits option.splits)

lemma now_same: "now E s = (x, t) \<Longrightarrow> same_sessions s t"
  by (auto simp: now_def call_def em_simps same_sessions_def split: prod.splits jsnum.splits)

lemma objects_ok_idle:
  "auth_inv s \<Longrightarrow> objects s r = Some ob \<Longrightarrow> idleExpiresAt ob \<le> absoluteExpiresAt ob"
  by (simp add: auth_inv_def objects_ok_def)

lemma keeps_resume: "sessions.keeps (resume E i)"
  unfolding resume_def
proof (rule keeps_lookup [OF lookupId_spec], goal_cases)
  case (2 r s)
  obtain x u where u: "createCsrf E s = (x, u)" by (metis surj_pair)
  note same = createCsrf_same [OF u]
  have "stored u r = stored s r" using same_sessions_live(2) [OF same] by simp
  then show ?case
    using same_sessions_ok [OF same 2(1)] objects_ok_idle [OF 2(1,3)] update_later [OF 2(1) same 2(3)] u
    by (cases x) (auto simp: em_simps same_identity_def)
qed auto

lemma keeps_refresh: "sessions.keeps (refresh E i up)"
  unfolding refresh_def
proof (rule keeps_lookup [OF lookupId_spec], goal_cases)
  case (2 r s)
  obtain x u where u: "now E s = (x, u)" by (metis surj_pair)
  note same = now_same [OF u]
  have e: "stored u r = stored s r" using same_sessions_live(2) [OF same] by simp
  have upd: "auth_inv (u\<lparr>objects := (objects u)(r \<mapsto> (stored u r)\<lparr>upstreamExpiresAt := Some v\<rparr>)\<rparr>) \<and>
      auth_rel s (u\<lparr>objects := (objects u)(r \<mapsto> (stored u r)\<lparr>upstreamExpiresAt := Some v\<rparr>)\<rparr>)" for v
    unfolding e by (rule update_later [OF 2(1) same 2(3)])
      (use objects_ok_idle [OF 2(1,3)] in \<open>simp_all add: same_identity_def\<close>)
  show ?case
    using same_sessions_ok [OF same 2(1)] upd u 2(1) auth_rel_refl [of s]
    by (cases x) (auto simp: em_simps split: option.split)
qed auto

lemma keeps_verifyCsrf: "sessions.keeps (verifyCsrf E i supplied)"
  unfolding verifyCsrf_def by (intro sessions.keeps_bind lookup_keeps [OF lookupId_spec]) auto

lemma keeps_authenticateCookie: "sessions.keeps (authenticateCookie E c)"
  unfolding authenticateCookie_def by (intro sessions.keeps_bind lookup_keeps [OF lookupCookie_spec]) auto

lemma keeps_authenticateAuthority: "sessions.keeps (authenticateAuthority E c)"
  unfolding authenticateAuthority_def
  by (intro sessions.keeps_bind lookup_keeps [OF lookupCookie_spec]) auto

lemma keeps_isActiveAuthority: "sessions.keeps (isActiveAuthority E i g)"
  unfolding isActiveAuthority_def
  by (intro sessions.keeps_bind lookup_keeps [OF lookupAuthority_spec]) auto

subsection \<open>Ending sessions\<close>

lemma keeps_logout: "sessions.keeps (logout i)"
proof (rule sessions.keepsI)
  fix s :: "'a AuthService"
  assume s: "auth_inv s"
  show "auth_inv (snd (logout i s)) \<and> auth_rel s (snd (logout i s))"
    using s revoke_session_ok [OF s live_get, of i _ Logout] auth_rel_refl [of s]
    by (auto simp: logout_def revoke_def em_simps split: option.split)
qed

lemma sweep_refs_ok:
  assumes "auth_inv s" "set rs \<subseteq> live s" "distinct rs"
  shows "auth_inv (snd (sweep_refs E rs s)) \<and> auth_rel s (snd (sweep_refs E rs s))"
  using assms
proof (induction rs arbitrary: s)
  case Nil
  then show ?case by (simp add: ret_def auth_rel_refl)
next
  case (Cons r rs)
  obtain a t where a: "unexpired E r s = (a, t)" by (metis surj_pair)
  from Cons.prems have ok: "auth_inv t \<and> auth_rel s t \<and> live s - {r} \<subseteq> live t"
    using unexpired_ok [OF Cons.prems(1) _ a] by (auto split: sum.splits if_splits)
  moreover have "set rs \<subseteq> live s - {r}" using Cons.prems(2,3) by auto
  ultimately have "auth_inv (snd (sweep_refs E rs t)) \<and> auth_rel t (snd (sweep_refs E rs t))"
    using Cons.IH [of t] Cons.prems(3) by auto
  with ok a show ?case
    by (cases a) (auto simp: bind_apply intro: auth_rel_trans)
qed

lemma distinct_insert_sorted: "distinct (insert_sorted le x ys) \<longleftrightarrow> x \<notin> set ys \<and> distinct ys"
  by (induction ys) (auto simp: set_insert_sorted)

lemma distinct_stable_sort [simp]: "distinct (stable_sort le xs) = distinct xs"
proof -
  have "set (foldr (insert_sorted le) ys []) = set ys" for ys
    by (induction ys) (auto simp: set_insert_sorted)
  then show ?thesis unfolding stable_sort_def
    by (induction xs) (auto simp: distinct_insert_sorted)
qed

lemma byId_refs:
  assumes "maps_ok s"
  shows "set (map snd (byId s)) = live s" "distinct (map snd (byId s))"
proof -
  have wf: "jm_wf (byId s)" and ids: "(i, r) \<in> set (byId s) \<Longrightarrow> stored_id (stored s r) = i" for i r
    using assms by (auto simp: maps_ok_def jm_get_in)
  show "set (map snd (byId s)) = live s"
    by (force simp: live_def jm_get_in [OF wf])
  have "inj_on snd (set (byId s))"
  proof (rule inj_onI)
    fix p q
    assume "p \<in> set (byId s)" "q \<in> set (byId s)" "snd p = snd q"
    then show "p = q" using ids by (metis prod.collapse)
  qed
  moreover have "distinct (byId s)" using wf by (simp add: distinct_map)
  ultimately show "distinct (map snd (byId s))" by (simp add: distinct_map)
qed

lemma keeps_sweepExpired: "sessions.keeps (sweepExpired E)"
proof (rule sessions.keepsI)
  fix s :: "'a AuthService"
  assume s: "auth_inv s"
  then have "maps_ok s" by (simp add: auth_inv_def)
  note refs = byId_refs [OF this]
  show "auth_inv (snd (sweepExpired E s)) \<and> auth_rel s (snd (sweepExpired E s))"
    using sweep_refs_ok [OF s] refs by (simp add: sweepExpired_def bind_apply gets_def)
qed

lemma revoke_list_ok:
  assumes "auth_inv s" "set rs \<subseteq> live s" "distinct rs" "x \<noteq> Absolute"
  shows "auth_inv (fold (\<lambda>r. revoke_session r x) rs s) \<and>
    auth_rel s (fold (\<lambda>r. revoke_session r x) rs s) \<and>
    live (fold (\<lambda>r. revoke_session r x) rs s) = live s - set rs"
  using assms
proof (induction rs arbitrary: s)
  case (Cons r rs)
  from Cons.prems have ok: "auth_inv (revoke_session r x s) \<and> auth_rel s (revoke_session r x s) \<and>
      live (revoke_session r x s) = live s - {r}"
    by (intro revoke_session_ok) auto
  with Cons.IH [of "revoke_session r x s"] Cons.prems show ?case
    by (auto intro: auth_rel_trans)
qed (simp add: auth_rel_refl)

lemma revoke_all_ok:
  assumes "auth_inv s" "x \<noteq> Absolute"
  shows "auth_inv (revoke_all x s) \<and> auth_rel s (revoke_all x s) \<and> live (revoke_all x s) = {}"
proof -
  have "maps_ok s" using assms(1) by (simp add: auth_inv_def)
  note refs = byId_refs [OF this]
  show ?thesis using revoke_list_ok [OF assms(1), of "map snd (byId s)" x] refs assms(2)
    by (simp add: revoke_all_def)
qed

lemma change_check_ok:
  assumes "auth_inv s" "r \<in> live s"
  shows "auth_inv (snd (change_check E r p s)) \<and> auth_rel s (snd (change_check E r p s))"
proof -
  obtain a t where a: "unexpired E r s = (a, t)" by (metis surj_pair)
  have same: "same_sessions t (t\<lparr>passwordChange := p\<rparr>)" by (simp add: same_sessions_def)
  from unexpired_ok [OF assms a] same_sessions_ok [OF same] a show ?thesis
    by (cases a) (auto simp: change_check_def em_simps intro: auth_rel_trans)
qed

lemma keeps_change_begin: "sessions.keeps (changePassword_begin E i)"
proof (rule sessions.keepsI)
  fix s :: "'a AuthService"
  assume s: "auth_inv s"
  define t where "t = s\<lparr>passwordChangeActive := True, passwordChange := ChangeSettled\<rparr>"
  have t: "auth_inv t \<and> auth_rel s t"
    by (rule same_sessions_ok [OF _ s]) (simp add: t_def same_sessions_def)
  show "auth_inv (snd (changePassword_begin E i s)) \<and> auth_rel s (snd (changePassword_begin E i s))"
    using t change_check_ok [OF conjunct1 [OF t] live_get] s auth_rel_refl [of s]
    by (auto simp: changePassword_begin_def em_simps t_def [symmetric] split: option.split
        intro: auth_rel_trans)
qed

lemma keeps_change_verified: "sessions.keeps (changePassword_verified E v)"
proof (rule sessions.keepsI)
  fix s :: "'a AuthService"
  assume s: "auth_inv s"
  define t where "t = s\<lparr>passwordChange := ChangeSettled\<rparr>"
  have t: "auth_inv t \<and> auth_rel s t"
    by (rule same_sessions_ok [OF _ s]) (simp add: t_def same_sessions_def)
  show "auth_inv (snd (changePassword_verified E v s)) \<and> auth_rel s (snd (changePassword_verified E v s))"
    using t change_check_ok [OF conjunct1 [OF t] live_get] s auth_rel_refl [of s]
    by (auto simp: changePassword_verified_def em_simps t_def [symmetric]
        split: option.split bool.split change_phase.split intro: auth_rel_trans)
qed

lemma keeps_change_replaced: "sessions.keeps (changePassword_replaced v)"
proof (rule sessions.keepsI)
  fix s :: "'a AuthService"
  assume s: "auth_inv s"
  define t where "t = s\<lparr>passwordChange := ChangeSettled\<rparr>"
  have t: "auth_inv t \<and> auth_rel s t"
    by (rule same_sessions_ok [OF _ s]) (simp add: t_def same_sessions_def)
  show "auth_inv (snd (changePassword_replaced v s)) \<and> auth_rel s (snd (changePassword_replaced v s))"
    using t revoke_all_ok [OF conjunct1 [OF t], of PasswordChanged] s auth_rel_refl [of s]
    by (auto simp: changePassword_replaced_def em_simps t_def [symmetric]
        split: option.split bool.split change_phase.split intro: auth_rel_trans)
qed

lemma keeps_change_finally: "sessions.keeps changePassword_finally"
  unfolding changePassword_finally_def by (rule keeps_modify_same) (simp add: same_sessions_def)

subsection \<open>Committing a session\<close>

text \<open>\<open>reshaped s t\<close>: the state \<open>t\<close> has the same sessions as \<open>s\<close> up to the removal of some.\<close>

definition reshaped :: "'w AuthService \<Rightarrow> 'w AuthService \<Rightarrow> bool" where
  "reshaped s t \<longleftrightarrow>
     observers t = observers s \<and> notified t = notified s \<and> maxSessions t = maxSessions s \<and>
     service_generation t = service_generation s \<and>
     (\<forall>r ob. objects s r = Some ob \<longrightarrow> (\<exists>ob'. objects t r = Some ob' \<and> same_identity ob ob')) \<and>
     (\<forall>r. r \<notin> live s \<longrightarrow> objects t r = objects s r) \<and>
     (\<forall>r. stored_id (stored t r) = stored_id (stored s r)) \<and>
     (\<forall>d. jm_get (byDigest s) d = None \<longrightarrow> jm_get (byDigest t) d = None) \<and>
     (\<forall>i. jm_get (byId s) i = None \<longrightarrow> jm_get (byId t) i = None)"

lemma reshaped_refl: "reshaped s s"
  by (simp add: reshaped_def)

lemma reshaped_trans:
  assumes "reshaped s t" "reshaped t u" "live t \<subseteq> live s"
  shows "reshaped s u"
proof -
  have "\<exists>ob'. objects u r = Some ob' \<and> same_identity ob ob'" if "objects s r = Some ob" for r ob
    using assms(1,2) that unfolding reshaped_def by (meson same_identity_trans)
  moreover have "objects u r = objects s r" if "r \<notin> live s" for r
    using assms that unfolding reshaped_def by (metis subsetD)
  ultimately show ?thesis using assms(1,2) unfolding reshaped_def by simp
qed

lemma remove_reshapes:
  assumes inv: "auth_inv s" and r: "r \<in> live s"
  shows "reshaped s (snd (remove_session r s))"
proof -
  have m: "maps_ok s" using inv by (simp add: auth_inv_def)
  obtain t where t: "remove_session r s = (True, t)"
    and f: "byId t = jm_delete (byId s) (stored_id (stored s r))"
      "byDigest t = jm_delete (byDigest s) (digest (stored s r))"
      "objects t = (objects s)(r \<mapsto> (stored s r)\<lparr>digest := ''''\<rparr>)"
      "observers t = observers s" "notified t = notified s" "maxSessions t = maxSessions s"
      "service_generation t = service_generation s"
    by (rule remove_session_live [OF m r])
  have "\<exists>ob'. objects t k = Some ob' \<and> same_identity ob ob'" if "objects s k = Some ob" for k ob
    using that by (auto simp: f stored_def same_identity_def)
  moreover have "objects t k = objects s k" if "k \<notin> live s" for k using that r by (auto simp: f)
  moreover have "stored_id (stored t k) = stored_id (stored s k)" for k
    by (simp add: stored_other [OF f(3)])
  ultimately show ?thesis by (simp add: reshaped_def t f)
qed

lemma removes_ok:
  assumes "auth_inv s" "fst ` set rs \<subseteq> live s" "distinct (map fst rs)"
    and "t = fold (\<lambda>(r, _) s. snd (remove_session r s)) rs s"
  shows "auth_inv t \<and> live t = live s - fst ` set rs \<and> reshaped s t \<and> (\<forall>k \<in> live t. objects t k = objects s k)"
  using assms
proof (induction rs arbitrary: s)
  case Nil
  then show ?case by (simp add: reshaped_refl)
next
  case (Cons p rs)
  obtain r x where p: "p = (r, x)" by (metis surj_pair)
  let ?u = "snd (remove_session r s)"
  have r: "r \<in> live s" using Cons.prems(2) p by simp
  note u = remove_session_ok [OF Cons.prems(1) r surjective_pairing]
  have t: "auth_inv t \<and> live t = live ?u - fst ` set rs \<and> reshaped ?u t \<and> (\<forall>k \<in> live t. objects t k = objects ?u k)"
    by (rule Cons.IH) (use Cons.prems p u in auto)
  have "objects ?u k = objects s k" if "k \<noteq> r" for k
    using that remove_session_live [OF _ r] Cons.prems(1) by (metis auth_inv_def fun_upd_apply snd_conv)
  with t u(3) have "\<forall>k \<in> live t. objects t k = objects s k" by auto
  moreover have "live ?u \<subseteq> live s" using u(3) by auto
  ultimately show ?case
    using t u(3) reshaped_trans [OF remove_reshapes [OF Cons.prems(1) r]] p by auto
qed

lemma emits_ok:
  assumes "t = fold (\<lambda>(r, x) s. emitRevocation (stored_id (stored s r)) x s) rs s"
  shows "byId t = byId s \<and> byDigest t = byDigest s \<and> objects t = objects s \<and> observers t = observers s \<and>
    service_generation t = service_generation s \<and> maxSessions t = maxSessions s \<and>
    auth_inv t = auth_inv s \<and> live t = live s \<and>
    notified t = notified s @
      concat (map (\<lambda>(r, x). map (\<lambda>ob. (ob, stored_id (stored s r), x)) (observers s)) rs)"
  using assms
proof (induction rs arbitrary: s)
  case (Cons p rs)
  obtain r x where p: "p = (r, x)" by (metis surj_pair)
  from Cons.IH [of "emitRevocation (stored_id (stored s r)) x s"] Cons.prems p show ?case by simp
qed simp

lemma install_ok:
  assumes inv: "auth_inv s" and g: "objects s g = Some ob" "g \<notin> live s"
    and fresh: "jm_get (byDigest s) (digest ob) = None" "jm_get (byId s) (stored_id ob) = None"
    and room: "length (byId s) < maxSessions s"
  shows "auth_inv (install g s)" "live (install g s) = insert g (live s)"
proof -
  let ?t = "install g s"
  have m: "maps_ok s" and ok: "objects_ok s" using inv by (simp_all add: auth_inv_def)
  have gob: "stored s g = ob" using g by (simp add: stored_def)
  have f: "byDigest ?t = jm_set (byDigest s) (digest ob) g" "byId ?t = jm_set (byId s) (stored_id ob) g"
    "objects ?t = objects s" "stored ?t = stored s" "maxSessions ?t = maxSessions s"
    using gob by (simp_all add: install_def) (simp add: stored_def fun_eq_iff)
  show "live ?t = insert g (live s)"
    using fresh(2) by (auto simp: live_def f split: if_splits) (metis option.distinct(1))
  have "stored_id ob \<notin> set (jm_keys (byId s))" using fresh(2) by (simp add: jm_get_None)
  then have len: "length (byId ?t) = Suc (length (byId s))" by (simp add: f length_jm_set)
  have "maps_ok ?t" unfolding maps_ok_def
  proof (intro conjI allI impI)
    show "length (byId ?t) \<le> maxSessions ?t" using len room by (simp add: f)
  next
    fix i r
    assume "jm_get (byId ?t) i = Some r"
    then have "i = stored_id ob \<and> r = g \<or> i \<noteq> stored_id ob \<and> jm_get (byId s) i = Some r"
      by (auto simp: f split: if_splits)
    moreover have "objects s r \<noteq> None" "stored_id (stored s r) = i"
        "jm_get (byDigest s) (digest (stored s r)) = Some r" if "jm_get (byId s) i = Some r"
      using m that by (auto simp: maps_ok_def)
    moreover have "digest (stored s r) \<noteq> digest ob" if "jm_get (byDigest s) (digest (stored s r)) = Some r"
      using that fresh(1) by auto
    ultimately show "objects ?t r \<noteq> None" "stored_id (stored ?t r) = i"
      "jm_get (byDigest ?t) (digest (stored ?t r)) = Some r"
      using g gob by (auto simp: f)
  next
    fix d r
    assume "jm_get (byDigest ?t) d = Some r"
    then have "d = digest ob \<and> r = g \<or> d \<noteq> digest ob \<and> jm_get (byDigest s) d = Some r"
      by (auto simp: f split: if_splits)
    moreover have "digest (stored s r) = d" "jm_get (byId s) (stored_id (stored s r)) = Some r"
      if "jm_get (byDigest s) d = Some r"
      using m that by (auto simp: maps_ok_def)
    moreover have "stored_id (stored s r) \<noteq> stored_id ob"
      if "jm_get (byId s) (stored_id (stored s r)) = Some r"
      using that fresh(2) by auto
    ultimately show "digest (stored ?t r) = d" "jm_get (byId ?t) (stored_id (stored ?t r)) = Some r"
      using gob by (auto simp: f)
  qed (use m in \<open>simp_all add: f maps_ok_def\<close>)
  moreover have "objects_ok ?t" using ok by (simp add: objects_ok_def install_def)
  ultimately show "auth_inv ?t" by (simp add: auth_inv_def)
qed

lemma card_live: "maps_ok s \<Longrightarrow> card (live s) = length (byId s)"
  using byId_refs [of s] by (metis distinct_card length_map)

lemma applyCommit_ok:
  assumes inv: "auth_inv s" and g: "objects s g = Some ob" "g \<notin> live s"
    and fresh: "jm_get (byDigest s) (digest ob) = None" "jm_get (byId s) (stored_id ob) = None"
    and rs: "fst ` set rs \<subseteq> live s" "distinct (map fst rs)"
    and room: "card (live s - fst ` set rs) < maxSessions s"
    and t: "t = applyCommit g rs s"
  shows "auth_inv t" "live t = insert g (live s - fst ` set rs)"
    "observers t = observers s" "service_generation t = service_generation s"
    "maxSessions t = maxSessions s"
    "\<And>r b. objects s r = Some b \<Longrightarrow> \<exists>b'. objects t r = Some b' \<and> same_identity b b'"
    "stored t g = ob" "jm_get (byDigest t) (digest ob) = Some g"
    "notified t = notified s @
      concat (map (\<lambda>(r, x). map (\<lambda>ob. (ob, stored_id (stored s r), x)) (observers s)) rs)"
    "\<And>k. k \<in> live s \<Longrightarrow> k \<in> live t \<Longrightarrow> stored t k = stored s k"
proof -
  define u where "u = fold (\<lambda>(r, _) s. snd (remove_session r s)) rs s"
  have u: "auth_inv u" "live u = live s - fst ` set rs" "reshaped s u" "\<forall>k \<in> live u. objects u k = objects s k"
    using removes_ok [OF inv rs u_def] by blast+
  then have gu: "objects u g = Some ob" "g \<notin> live u" using g by (auto simp: reshaped_def)
  have fr: "jm_get (byDigest u) (digest ob) = None" "jm_get (byId u) (stored_id ob) = None"
    using fresh u(3) by (auto simp: reshaped_def)
  have "length (byId u) < maxSessions u"
    using room u(1-3) card_live [of u] by (simp add: auth_inv_def reshaped_def)
  note i = install_ok [OF u(1) gu fr this]
  have f: "objects (install g u) = objects u" "observers (install g u) = observers u"
    "service_generation (install g u) = service_generation u"
    "maxSessions (install g u) = maxSessions u" "notified (install g u) = notified u"
    "stored (install g u) = stored u"
    by (simp_all add: install_def stored_def fun_eq_iff)
  have "t = fold (\<lambda>(r, x) s. emitRevocation (stored_id (stored s r)) x s) rs (install g u)"
    by (simp add: t applyCommit_def u_def)
  note e = emits_ok [OF this]
  have r: "observers u = observers s" "notified u = notified s" "maxSessions u = maxSessions s"
    "service_generation u = service_generation s" "stored_id (stored u k) = stored_id (stored s k)" for k
    using u(3) by (auto simp: reshaped_def)
  show "auth_inv t" "live t = insert g (live s - fst ` set rs)" "observers t = observers s"
    "service_generation t = service_generation s" "maxSessions t = maxSessions s"
    using e i u(2) f r by simp_all
  show "\<exists>b'. objects t k = Some b' \<and> same_identity b b'" if "objects s k = Some b" for k b
    using that u(3) e f by (simp add: reshaped_def)
  show "stored t k = stored s k" if "k \<in> live s" "k \<in> live t" for k
  proof -
    have "k \<noteq> g" using that(1) g(2) by auto
    then have "k \<in> live u" using that(2) e i u(2) f by simp
    then show ?thesis using u(4) e f by (simp add: stored_def)
  qed
  have gob: "stored u g = ob" using gu by (simp add: stored_def)
  then show "stored t g = ob" using e f by (simp add: stored_def)
  show "jm_get (byDigest t) (digest ob) = Some g" using e gob by (simp add: install_def)
  show "notified t = notified s @
      concat (map (\<lambda>(r, x). map (\<lambda>ob. (ob, stored_id (stored s r), x)) (observers s)) rs)"
    using e f r by simp
qed

lemma expired_refs:
  "map fst (concat (map (\<lambda>r. case e r of None \<Rightarrow> [] | Some x \<Rightarrow> [(r, x)]) refs)) =
     filter (\<lambda>r. e r \<noteq> None) refs"
  by (induction refs) (auto split: option.split)

lemma displaced_reasons:
  assumes "auth_inv s" "(r, x) \<in> set (displaced E t s)"
  shows "x \<noteq> Absolute"
proof -
  have no: "False" if "(i, k) \<in> set (byId s)" "Some Absolute = expiredReasonAt (stored s k) t" for i k
  proof -
    have "k \<in> live s" using that(1) byId_refs(1) [of s] assms(1) by (force simp: auth_inv_def)
    then have "objects s k = Some (stored s k)" using live_stored(1) [of s k] assms(1) by (simp add: auth_inv_def)
    from expiredReasonAt_not_absolute [OF objects_ok_idle [OF assms(1) this], of t] that(2)
    show ?thesis by simp
  qed
  show ?thesis using assms(2)
    by (auto simp: displaced_def Let_def dest: no split: if_splits list.splits option.splits)
qed

text \<open>What a commit displaces leaves room for one more session.\<close>

lemma displaced_ok:
  assumes inv: "auth_inv s"
  shows "fst ` set (displaced E t s) \<subseteq> live s" "distinct (map fst (displaced E t s))"
    "card (live s - fst ` set (displaced E t s)) < maxSessions s"
proof -
  have m: "maps_ok s" using inv by (simp add: auth_inv_def)
  define refs where "refs = map snd (byId s)"
  have refs: "set refs = live s" "distinct refs" using byId_refs [OF m] by (simp_all add: refs_def)
  define e where "e r = expiredReasonAt (stored s r) t" for r
  define ex where "ex = concat (map (\<lambda>r. case e r of None \<Rightarrow> [] | Some x \<Rightarrow> [(r, x)]) refs)"
  define act where "act = filter (\<lambda>r. e r = None) refs"
  have ex: "map fst ex = filter (\<lambda>r. e r \<noteq> None) refs" unfolding ex_def by (rule expired_refs)
  then have exs: "fst ` set ex = {r \<in> live s. e r \<noteq> None}" using refs(1) by (metis list.set_map set_filter)
  have actset: "set act = live s - fst ` set ex" using refs(1) exs by (auto simp: act_def)
  have actlen: "card (set act) = length act" by (rule distinct_card) (simp add: act_def refs(2))
  have small: "length act \<le> maxSessions s"
  proof -
    have "length act \<le> length refs" by (simp add: act_def)
    also have "\<dots> = length (byId s)" by (simp add: refs_def)
    finally show ?thesis using m by (simp add: maps_ok_def)
  qed
  have all: "fst ` set (displaced E t s) \<subseteq> live s \<and> distinct (map fst (displaced E t s)) \<and>
      card (live s - fst ` set (displaced E t s)) < maxSessions s"
  proof (cases "length act \<ge> maxSessions s")
    case False
    then have "displaced E t s = ex"
      by (simp add: displaced_def Let_def refs_def [symmetric] e_def [symmetric] ex_def act_def)
    with False show ?thesis using ex exs refs(2) actset actlen by auto
  next
    case True
    define srt where "srt = stable_sort (\<lambda>a b. older E (stored s a) (stored s b)) act"
    have "srt \<noteq> []"
      using True m by (metis length_0_conv length_stable_sort le_zero_eq maps_ok_def not_less0 srt_def)
    then obtain a as where a: "srt = a # as" by (cases srt) auto
    then have "a \<in> set act" using set_stable_sort [of _ act] by (metis list.set_intros(1) srt_def)
    moreover have "displaced E t s = ex @ [(a, Capacity)]"
      using True a by (simp add: displaced_def Let_def refs_def [symmetric] e_def [symmetric] ex_def
          act_def srt_def)
    moreover have "live s - fst ` set (ex @ [(a, Capacity)]) = set act - {a}" using actset by auto
    moreover have "card (set act - {a}) < card (set act)"
      using \<open>a \<in> set act\<close> by (intro card_Diff1_less) auto
    ultimately show ?thesis using ex exs refs actset actlen small by auto
  qed
  then show "fst ` set (displaced E t s) \<subseteq> live s" "distinct (map fst (displaced E t s))"
    "card (live s - fst ` set (displaced E t s)) < maxSessions s" by blast+
qed

subsection \<open>Preparing a session\<close>

lemma token_ok:
  "token E n s = (x, t) \<Longrightarrow> same_sessions s t \<and>
     (case x of Inr c \<Rightarrow> \<exists>bs. length bs = n \<and> c = base64url bs | Inl _ \<Rightarrow> True)"
  by (fastforce simp: token_def call_def em_simps same_sessions_def
      split: prod.splits option.splits if_splits)

lemma drawCookie_ok:
  "drawCookie E k s = (x, t) \<Longrightarrow> same_sessions s t \<and>
     (case x of
        Inr (Some (c, d)) \<Rightarrow> d = sha256 E c \<and> TOKEN_PATTERN c \<and> jm_get (byDigest s) d = None
      | _ \<Rightarrow> True)"
proof (induction k arbitrary: s)
  case 0
  then show ?case by (auto simp: ret_def same_sessions_def)
next
  case (Suc k)
  obtain a u where a: "token E 32 s = (a, u)" by (metis surj_pair)
  note tok = token_ok [OF a]
  show ?case
  proof (cases a)
    case (Inl e)
    with Suc.prems a tok show ?thesis by (auto simp: bind_apply)
  next
    case (Inr c)
    with tok have c: "same_sessions s u" "TOKEN_PATTERN c" by (auto simp: token_pattern_base64url)
    then have "byDigest u = byDigest s" by (simp add: same_sessions_def)
    with Suc.prems Suc.IH [of u] a Inr c show ?thesis
      by (cases "jm_get (byDigest s) (sha256 E c)")
        (auto simp: em_simps split: sum.splits option.splits intro: same_sessions_trans)
  qed
qed

lemma drawId_ok:
  "drawId E k s = (x, t) \<Longrightarrow> same_sessions s t \<and>
     (case x of Inr (Some i) \<Rightarrow> jm_get (byId s) i = None | _ \<Rightarrow> True)"
proof (induction k arbitrary: s)
  case 0
  then show ?case by (auto simp: ret_def same_sessions_def)
next
  case (Suc k)
  obtain a u where a: "token E 16 s = (a, u)" by (metis surj_pair)
  note tok = token_ok [OF a]
  then have "byId u = byId s" by (simp add: same_sessions_def)
  with Suc.prems Suc.IH [of u] a tok show ?case
    by (cases a) (auto simp: em_simps split: sum.splits option.splits if_splits intro: same_sessions_trans)
qed

text \<open>
  A prepared session: a new object with a generation above every earlier one, a cookie whose digest is
  not in use and an unused id; the maps are still as they were.
\<close>

definition prepared_ok :: "'w auth_env \<Rightarrow> 'w AuthService \<Rightarrow> nat \<times> AuthBootstrapResult \<Rightarrow> 'w AuthService \<Rightarrow> bool" where
  "prepared_ok E s p t \<longleftrightarrow>
     service_generation s < fst p \<and> objects t (fst p) = Some (stored t (fst p)) \<and>
     jm_get (byDigest s) (digest (stored t (fst p))) = None \<and>
     jm_get (byId s) (stored_id (stored t (fst p))) = None \<and>
     failure (snd p) = None \<and>
     (\<exists>c. cookieValue (snd p) = Some c \<and> TOKEN_PATTERN c \<and> digest (stored t (fst p)) = sha256 E c)"

definition grown :: "'w AuthService \<Rightarrow> 'w AuthService \<Rightarrow> bool" where
  "grown s t \<longleftrightarrow>
     byId t = byId s \<and> byDigest t = byDigest s \<and> observers t = observers s \<and> notified t = notified s \<and>
     maxSessions t = maxSessions s \<and> idleDuration t = idleDuration s \<and>
     absoluteDuration t = absoluteDuration s \<and> service_generation s \<le> service_generation t \<and>
     (\<forall>r. r \<le> service_generation s \<longrightarrow> objects t r = objects s r) \<and>
     (\<forall>r ob. objects t r = Some ob \<longrightarrow> objects s r = Some ob \<or>
        stored_generation ob = r \<and> r \<le> service_generation t \<and> idleExpiresAt ob \<le> absoluteExpiresAt ob)"

lemma grown_same: "same_sessions s t \<Longrightarrow> grown t u \<Longrightarrow> grown s u"
  by (simp add: same_sessions_def grown_def)

lemma same_grown: "same_sessions s t \<Longrightarrow> grown s t"
  by (simp add: same_sessions_def grown_def)

lemma grown_ok:
  assumes "grown s t" "auth_inv s"
  shows "auth_inv t \<and> auth_rel s t \<and> live t = live s"
proof -
  note g = assms(1) [unfolded grown_def]
  have m: "maps_ok s" and ok: "objects_ok s" using assms(2) by (simp_all add: auth_inv_def)
  have live: "live t = live s" using g by (simp add: live_def)
  have keep: "objects t r = objects s r \<and> stored t r = stored s r" if "objects s r \<noteq> None" for r
    using that ok g by (auto simp: objects_ok_def stored_def)
  have "maps_ok t" unfolding maps_ok_def
  proof (intro conjI allI impI)
    fix i r assume "jm_get (byId t) i = Some r"
    with g m have "objects s r \<noteq> None" "stored_id (stored s r) = i"
      "jm_get (byDigest s) (digest (stored s r)) = Some r" by (auto simp: maps_ok_def)
    with keep [of r] g show "objects t r \<noteq> None" "stored_id (stored t r) = i"
      "jm_get (byDigest t) (digest (stored t r)) = Some r" by auto
  next
    fix d r assume "jm_get (byDigest t) d = Some r"
    with g m have d: "digest (stored s r) = d" "jm_get (byId s) (stored_id (stored s r)) = Some r"
      by (auto simp: maps_ok_def)
    with m have "objects s r \<noteq> None" by (auto simp: maps_ok_def)
    with keep [of r] g d show "digest (stored t r) = d" "jm_get (byId t) (stored_id (stored t r)) = Some r"
      by auto
  qed (use g m in \<open>simp_all add: maps_ok_def\<close>)
  moreover have "objects_ok t" unfolding objects_ok_def
    using g ok by (fastforce simp: objects_ok_def)
  moreover have "auth_rel s t"
    by (rule auth_relI [where entries = "[]"]) (use g live keep in \<open>auto simp: stored_def\<close>)
  ultimately show ?thesis using live by (simp add: auth_inv_def)
qed

lemma nextGeneration_eq:
  "nextGeneration s =
     (if safe_int (int (Suc (service_generation s))) then Inr (Suc (service_generation s))
      else Inl AuthServiceError,
      s\<lparr>service_generation := Suc (service_generation s)\<rparr>)"
  by (simp add: nextGeneration_def em_simps)

lemma allocate_ok:
  assumes inv: "auth_inv s" and c: "TOKEN_PATTERN c" "d = sha256 E c"
    and fresh: "jm_get (byDigest s) d = None" "jm_get (byId s) i = None"
    and run: "allocate E m label up nn c d i issued s = (x, t)"
  shows "grown s t \<and> (case x of Inr p \<Rightarrow> prepared_ok E s p t | Inl _ \<Rightarrow> True)"
proof -
  have none: "objects s (Suc (service_generation s)) = None"
    using inv by (cases "objects s (Suc (service_generation s))")
      (auto simp: auth_inv_def objects_ok_def dest!: spec [of _ "Suc (service_generation s)"])
  show ?thesis
    using run fresh c none
    by (auto simp: allocate_def nextGeneration_eq bind_apply em_simps grown_def prepared_ok_def stored_def
        split: if_splits option.splits)
qed

lemma prepareSession_ok:
  assumes inv: "auth_inv s" and run: "prepareSession E m label up s = (x, t)"
  shows "grown s t \<and> (case x of Inr p \<Rightarrow> prepared_ok E s p t | Inl _ \<Rightarrow> True)"
proof -
  obtain n s1 where n: "now E s = (n, s1)" by (metis surj_pair)
  obtain a s2 where a: "drawCookie E 8 s1 = (a, s2)" by (metis surj_pair)
  obtain b s3 where b: "drawId E 8 s2 = (b, s3)" by (metis surj_pair)
  obtain v s4 where v: "createCsrf E s3 = (v, s4)" by (metis surj_pair)
  note cookie = drawCookie_ok [OF a] and ident = drawId_ok [OF b]
  have same: "same_sessions s s1" "same_sessions s s2" "same_sessions s s3" "same_sessions s s4"
    using now_same [OF n] cookie ident createCsrf_same [OF v] same_sessions_trans by blast+
  have early: "grown s t" if "t = s1 \<or> t = s2 \<or> t = s3 \<or> t = s4" using that same same_grown by blast
  show ?thesis
  proof (cases "\<exists>nn c d i w. n = Inr nn \<and> a = Inr (Some (c, d)) \<and> b = Inr (Some i) \<and> v = Inr w")
    case False
    with run n a b v early show ?thesis
      by (auto simp: prepareSession_def bind_apply throw_def split: sum.splits option.splits prod.splits)
  next
    case True
    then obtain nn c d i w where r: "n = Inr nn" "a = Inr (Some (c, d))" "b = Inr (Some i)" "v = Inr w"
      by blast
    with run n a b v have alloc: "allocate E m label up nn c d i w s4 = (x, t)"
      by (simp add: prepareSession_def bind_apply)
    have maps: "byDigest s4 = byDigest s" "byId s4 = byId s" "byDigest s1 = byDigest s" "byId s2 = byId s"
      "service_generation s4 = service_generation s"
      using same by (auto simp: same_sessions_def)
    have "grown s4 t \<and> (case x of Inr p \<Rightarrow> prepared_ok E s4 p t | Inl _ \<Rightarrow> True)"
      by (rule allocate_ok [OF _ _ _ _ _ alloc])
        (use same_sessions_ok [OF same(4) inv] cookie ident r maps in auto)
    then show ?thesis using grown_same [OF same(4)] maps
      by (auto simp: prepared_ok_def split: sum.splits)
  qed
qed

subsection \<open>Establishing a session\<close>

text \<open>Success installs one new session that its cookie finds; failure leaves every session alone.\<close>

definition established :: "'w auth_env \<Rightarrow> 'w AuthService \<Rightarrow> AuthBootstrapResult \<Rightarrow> 'w AuthService \<Rightarrow> bool" where
  "established E s result t \<longleftrightarrow>
     (\<exists>g c. service_generation s < g \<and> g \<in> live t \<and> live t \<subseteq> insert g (live s) \<and>
        cookieValue result = Some c \<and> TOKEN_PATTERN c \<and> failure result = None \<and>
        jm_get (byDigest t) (sha256 E c) = Some g)"

lemma commit_apply:
  assumes inv: "auth_inv s0" and grown: "grown s0 s1" and prep: "prepared_ok E s0 p s1"
    and same: "same_sessions s1 s2"
  shows "auth_inv (applyCommit (fst p) (displaced E n s2) s2) \<and>
    auth_rel s0 (applyCommit (fst p) (displaced E n s2) s2) \<and>
    established E s0 (snd p) (applyCommit (fst p) (displaced E n s2) s2)"
proof -
  let ?g = "fst p" and ?rs = "displaced E n s2"
  define t where "t = applyCommit ?g ?rs s2"
  note s1 = grown_ok [OF grown inv]
  have inv2: "auth_inv s2" using same_sessions_ok [OF same] s1 by blast
  have live2: "live s2 = live s0" and st2: "stored s2 = stored s1"
    using same_sessions_live [OF same] s1 by simp_all
  have s2: "byId s2 = byId s0" "byDigest s2 = byDigest s0" "observers s2 = observers s0"
    "notified s2 = notified s0" "maxSessions s2 = maxSessions s0" "objects s2 = objects s1"
    "service_generation s2 = service_generation s1" "service_generation s0 \<le> service_generation s1"
    using same grown by (simp_all add: same_sessions_def grown_def)
  have g: "objects s2 ?g = Some (stored s2 ?g)" "service_generation s0 < ?g"
    "jm_get (byDigest s2) (digest (stored s2 ?g)) = None" "jm_get (byId s2) (stored_id (stored s2 ?g)) = None"
    using prep s2 st2 by (simp_all add: prepared_ok_def)
  have old: "r \<le> service_generation s0" if "objects s0 r \<noteq> None" for r
    using inv that by (auto simp: auth_inv_def objects_ok_def)
  have "r \<le> service_generation s0" if "r \<in> live s0" for r
    using live_stored(1) [OF _ that] inv old by (auto simp: auth_inv_def)
  then have "?g \<notin> live s2" using g(2) live2 by fastforce
  note c = applyCommit_ok [OF inv2 g(1) this g(3,4) displaced_ok [OF inv2] t_def]
  have objs: "objects s2 r = objects s0 r" if "objects s0 r \<noteq> None" for r
    using old [OF that] grown s2 by (simp add: grown_def)
  have "auth_rel s0 t"
  proof (rule auth_relI)
    show "notified t = notified s0 @
      concat (map (\<lambda>(r, x). map (\<lambda>ob. (ob, stored_id (stored s2 r), x)) (observers s2)) ?rs)"
      using c(9) s2 by simp
    fix r ob
    assume r: "r \<in> live s0" "r \<notin> live t" "objects s0 r \<noteq> None" "ob \<in> set (observers s0)"
    then obtain x where "(r, x) \<in> set ?rs" using c(2) live2 by force
    moreover have "stored s2 r = stored s0 r" using objs r(3) by (simp add: stored_def)
    ultimately show "\<exists>x. (ob, stored_id (stored s0 r), x) \<in> set
        (concat (map (\<lambda>(r, x). map (\<lambda>ob. (ob, stored_id (stored s2 r), x)) (observers s2)) ?rs))"
      using r(4) s2 by (auto intro!: exI [of _ x] bexI [of _ "(r, x)"])
  next
    fix e
    assume "e \<in> set (concat (map (\<lambda>(r, x). map (\<lambda>ob. (ob, stored_id (stored s2 r), x)) (observers s2)) ?rs))"
    then show "snd (snd e) \<noteq> Absolute" using displaced_reasons [OF inv2] by auto
  next
    show "\<exists>ob'. objects t r = Some ob' \<and> same_identity ob ob'" if "objects s0 r = Some ob" for r ob
      using c(6) [of r ob] objs [of r] that by simp
    show "digest (stored t r) = digest (stored s0 r)" if "r \<in> live s0" "r \<in> live t" for r
    proof -
      have "objects s0 r \<noteq> None" using live_stored(1) [OF _ that(1)] inv by (simp add: auth_inv_def)
      then have "stored s2 r = stored s0 r" using objs by (simp add: stored_def)
      with c(10) [of r] that live2 show ?thesis by simp
    qed
  qed (use c s2 g(2) live2 in auto)
  moreover have "established E s0 (snd p) t"
    using prep c(2,8) g(2) live2 st2 unfolding established_def prepared_ok_def by auto
  ultimately show ?thesis using c(1) by (simp add: t_def)
qed

lemma commitSession_ok:
  assumes inv: "auth_inv s0" and grown: "grown s0 s1" and prep: "prepared_ok E s0 p s1"
    and run: "commitSession E p reset s1 = (x, t)"
  shows "auth_inv t \<and> auth_rel s0 t \<and>
    (case x of Inr r \<Rightarrow> established E s0 r t | Inl _ \<Rightarrow> live t = live s0)"
proof -
  obtain n s2 where n: "now E s1 = (n, s2)" by (metis surj_pair)
  note same2 = now_same [OF n]
  have stop: "auth_inv u \<and> auth_rel s0 u \<and> live u = live s0" if "same_sessions s1 u" for u
    using grown_ok [OF grown inv] same_sessions_ok [OF that] same_sessions_live(1) [OF that]
    by (auto intro: auth_rel_trans)
  define w where "w = (case reset of None \<Rightarrow> (True, world s2) | Some a \<Rightarrow> limiterReset E (world s2) a)"
  define s3 where "s3 = s2\<lparr>world := snd w\<rparr>"
  have same3: "same_sessions s1 s3"
    using same2 same_sessions_world [of s2 "snd w"] same_sessions_trans by (auto simp: s3_def)
  have w: "(case reset of None \<Rightarrow> ret True | Some a \<Rightarrow> call (\<lambda>w. limiterReset E w a)) s2 = (Inr (fst w), s3)"
    by (auto simp: w_def s3_def ret_def call_def split: option.split prod.split)
  have "stored s3 = stored s2" by (simp add: s3_def stored_def fun_eq_iff)
  then have d: "displaced E k s3 = displaced E k s2" for k
    unfolding displaced_def \<open>stored s3 = stored s2\<close> by (simp add: s3_def)
  have final: "commitSession E p reset s1 =
     (if jm_get (byDigest s1) (digest (stored s1 (fst p))) \<noteq> None \<or>
         jm_get (byId s1) (stored_id (stored s1 (fst p))) \<noteq> None then (Inl AuthServiceError, s1)
      else case n of Inl e \<Rightarrow> (Inl e, s2)
           | Inr k \<Rightarrow> if fst w then (Inr (snd p), applyCommit (fst p) (displaced E k s2) s3)
                     else (Inl AuthServiceError, s3))"
    using n w by (auto simp: commitSession_def bind_apply gets_def throw_def modify_def ret_def
        split: sum.split)
  show ?thesis
    using run stop [OF same2] stop [OF same3] stop [of s1] commit_apply [OF inv grown prep same3] d
    by (auto simp: final same_sessions_def split: if_splits sum.splits)
qed

lemma safeEstablish_ok:
  assumes inv: "auth_inv s" and run: "safeEstablish E m label up reset s = (x, t)"
  shows "auth_inv t \<and> auth_rel s t \<and>
    (case x of Inr r \<Rightarrow> established E s r t | Inl _ \<Rightarrow> live t = live s)"
proof -
  obtain a u where a: "prepareSession E m label up s = (a, u)" by (metis surj_pair)
  note p = prepareSession_ok [OF inv a]
  show ?thesis
  proof (cases a)
    case (Inl e)
    with run a p grown_ok [OF _ inv, of u] show ?thesis
      by (auto simp: safeEstablish_def em_simps)
  next
    case (Inr q)
    obtain b v where b: "commitSession E q reset u = (b, v)" by (metis surj_pair)
    from p Inr commitSession_ok [OF inv _ _ b] run a b show ?thesis
      by (cases b) (auto simp: safeEstablish_def em_simps)
  qed
qed

lemma keeps_safeEstablish [intro]: "sessions.keeps (safeEstablish E m label up reset)"
  by (rule sessions.keepsI) (metis safeEstablish_ok prod.collapse)

lemma keeps_localBootstrap [intro]: "sessions.keeps (localBootstrap E b)"
  unfolding localBootstrap_def by (cases b) (auto split: option.split)

section \<open>The service as a state machine\<close>

datatype auth_event =
    BootstrapBegin UpstreamAuthentication
  | LoginBegin ustring string
  | SetupBegin string
  | Settle "bool option" enrollment
  | Release
  | AuthenticateCookie "string option"
  | AuthenticateAuthority "string option"
  | IsActiveAuthority string nat
  | TouchAuthority string nat
  | TouchSession string
  | Resume string
  | Refresh string UpstreamIdentity
  | VerifyCsrf string "string option"
  | LogoutSession string
  | SweepExpired
  | Subscribe
  | Unsubscribe nat
  | ChangeBegin string
  | ChangeVerified "bool option"
  | ChangeReplaced "bool option"
  | ChangeFinally

fun auth_step :: "'w auth_env \<Rightarrow> auth_event \<Rightarrow> 'w AuthService \<Rightarrow> 'w AuthService" where
  "auth_step E (BootstrapBegin u) s = snd (bootstrap_begin u s)"
| "auth_step E (LoginBegin u a) s = snd (login_begin E u a s)"
| "auth_step E (SetupBegin a) s = snd (setup_begin E a s)"
| "auth_step E (Settle v en) s = snd (settleNext E v en s)"
| "auth_step E Release s = snd (releaseNext s)"
| "auth_step E (AuthenticateCookie c) s = snd (authenticateCookie E c s)"
| "auth_step E (AuthenticateAuthority c) s = snd (authenticateAuthority E c s)"
| "auth_step E (IsActiveAuthority i g) s = snd (isActiveAuthority E i g s)"
| "auth_step E (TouchAuthority i g) s = snd (touchAuthority E i g s)"
| "auth_step E (TouchSession i) s = snd (touch_session E i s)"
| "auth_step E (Resume i) s = snd (resume E i s)"
| "auth_step E (Refresh i u) s = snd (refresh E i u s)"
| "auth_step E (VerifyCsrf i c) s = snd (verifyCsrf E i c s)"
| "auth_step E (LogoutSession i) s = snd (logout i s)"
| "auth_step E SweepExpired s = snd (sweepExpired E s)"
| "auth_step E Subscribe s = snd (onRevoked s)"
| "auth_step E (Unsubscribe ob) s = snd (unsubscribe ob s)"
| "auth_step E (ChangeBegin i) s = snd (changePassword_begin E i s)"
| "auth_step E (ChangeVerified v) s = snd (changePassword_verified E v s)"
| "auth_step E (ChangeReplaced c) s = snd (changePassword_replaced c s)"
| "auth_step E ChangeFinally s = snd (changePassword_finally s)"

definition auth_run :: "'w auth_env \<Rightarrow> auth_event list \<Rightarrow> 'w AuthService \<Rightarrow> 'w AuthService" where
  "auth_run E es s = fold (auth_step E) es s"

lemma keeps_reserve [intro]: "sessions.keeps reserveEstablishment"
  by (rule sessions.keepsI, rule same_sessions_ok)
    (auto simp: reserveEstablishment_def same_sessions_def)

lemma keeps_release [intro]: "sessions.keeps releaseEstablishment"
  unfolding releaseEstablishment_def by (rule keeps_modify_same) (simp add: same_sessions_def)

lemma keeps_enqueue [intro]: "sessions.keeps (enqueueEstablishment x)"
  unfolding enqueueEstablishment_def by (rule keeps_modify_same) (simp add: same_sessions_def)

lemma keeps_pending [intro]:
  "sessions.keeps (modify (\<lambda>s. s\<lparr>pendingLocalAttempts := f (pendingLocalAttempts s)\<rparr>))"
  by (rule keeps_modify_same) (simp add: same_sessions_def)

lemmas keeps_establish = sessions.keeps_intros keeps_call keeps_now keeps_reserve keeps_release
  keeps_enqueue keeps_pending keeps_localBootstrap keeps_safeEstablish

lemma keeps_bootstrap_begin: "sessions.keeps (bootstrap_begin u)"
  unfolding bootstrap_begin_def by (intro keeps_establish)

lemma keeps_login_begin: "sessions.keeps (login_begin E u a)"
  unfolding login_begin_def by (intro keeps_establish)

lemma keeps_setup_begin: "sessions.keeps (setup_begin E a)"
  unfolding setup_begin_def by (intro keeps_establish)

lemma keeps_case_upstream:
  "\<lbrakk>sessions.keeps m; \<And>i. sessions.keeps (f i)\<rbrakk> \<Longrightarrow>
   sessions.keeps (case u of NoUpstream \<Rightarrow> m | UpstreamIdentified i \<Rightarrow> f i)"
  by (cases u) auto

lemma keeps_completeBootstrap: "sessions.keeps (completeBootstrap E u)"
  unfolding completeBootstrap_def by (intro keeps_establish keeps_case_upstream)

lemma keeps_completeLogin: "sessions.keeps (completeLoginSlot E v l a)"
  unfolding completeLoginSlot_def by (intro keeps_establish)

lemma keeps_durability: "sessions.keeps (modify (\<lambda>s. s\<lparr>world := f (world s)\<rparr>))"
  by (rule keeps_modify_same) (simp add: same_sessions_def)

lemma keeps_completeSetup: "sessions.keeps (completeSetup E en a)"
  unfolding completeSetup_def
  by (cases en) (simp_all only: enrollment.case, (intro keeps_establish keeps_durability)+)

lemma keeps_queue:
  "sessions.keeps (modify (\<lambda>s. s\<lparr>establishmentQueue := f s, unreleased := g s\<rparr>))"
  by (rule keeps_modify_same) (simp add: same_sessions_def)

lemma keeps_case_slot:
  "\<lbrakk>\<And>u. sessions.keeps (f u); \<And>l a. sessions.keeps (g l a); \<And>a. sessions.keeps (h a)\<rbrakk> \<Longrightarrow>
   sessions.keeps (case x of BootstrapSlot u \<Rightarrow> f u | LoginSlot l a \<Rightarrow> g l a | SetupSlot a \<Rightarrow> h a)"
  by (cases x) auto

lemma keeps_settleNext: "sessions.keeps (settleNext E v en)"
  unfolding settleNext_def
  by (intro sessions.keeps_intros keeps_queue keeps_case_slot keeps_completeBootstrap
      keeps_completeLogin keeps_completeSetup)

lemma keeps_releaseNext: "sessions.keeps releaseNext"
  unfolding releaseNext_def by (rule keeps_modify_same) (simp add: same_sessions_def split: list.split)

lemmas keeps_auth = keeps_bootstrap_begin keeps_login_begin keeps_setup_begin keeps_settleNext
  keeps_releaseNext keeps_authenticateCookie keeps_authenticateAuthority keeps_isActiveAuthority
  keeps_touchAuthority keeps_touch_session keeps_resume keeps_refresh keeps_verifyCsrf keeps_logout
  keeps_sweepExpired keeps_change_begin keeps_change_verified keeps_change_replaced
  keeps_change_finally

fun subscription :: "auth_event \<Rightarrow> bool" where
  "subscription Subscribe = True"
| "subscription (Unsubscribe ob) = True"
| "subscription _ = False"

lemma auth_step_ok:
  assumes "auth_inv s" "\<not> subscription e"
  shows "auth_inv (auth_step E e s) \<and> auth_rel s (auth_step E e s)"
  using assms(2) by (cases e) (simp_all add: keeps_auth [THEN sessions.keepsD, OF assms(1)])

text \<open>Subscriptions change only the observers.\<close>

lemma auth_step_subscription:
  assumes "subscription e"
  shows "byId (auth_step E e s) = byId s \<and> byDigest (auth_step E e s) = byDigest s \<and>
    objects (auth_step E e s) = objects s \<and> maxSessions (auth_step E e s) = maxSessions s \<and>
    service_generation (auth_step E e s) = service_generation s \<and>
    idleDuration (auth_step E e s) = idleDuration s \<and>
    absoluteDuration (auth_step E e s) = absoluteDuration s"
  using assms by (cases e) (simp_all add: onRevoked_def unsubscribe_def modify_def)

lemma inv_cong:
  assumes "byId t = byId s" "byDigest t = byDigest s" "objects t = objects s"
    "maxSessions t = maxSessions s" "service_generation t = service_generation s"
    "idleDuration t = idleDuration s" "absoluteDuration t = absoluteDuration s"
  shows "auth_inv t = auth_inv s" "live t = live s"
proof -
  have "stored t = stored s" using assms by (simp add: stored_def fun_eq_iff)
  then show "auth_inv t = auth_inv s" using assms by (simp add: auth_inv_def maps_ok_def objects_ok_def)
  show "live t = live s" using assms by (simp add: live_def)
qed

text \<open>Every event keeps the invariant and never revives a session.\<close>

lemma auth_step_inv:
  assumes "auth_inv s"
  shows "auth_inv (auth_step E e s) \<and> service_generation s \<le> service_generation (auth_step E e s) \<and>
    (\<forall>r \<in> live (auth_step E e s). r \<in> live s \<or> service_generation s < r) \<and>
    maxSessions (auth_step E e s) = maxSessions s"
proof (cases "subscription e")
  case True
  note f = auth_step_subscription [OF True, of E s]
  then have "auth_inv (auth_step E e s) = auth_inv s" "live (auth_step E e s) = live s"
    using inv_cong [of "auth_step E e s" s] by blast+
  with f assms show ?thesis by simp
next
  case False
  with auth_step_ok [OF assms False, of E] show ?thesis by (simp add: auth_rel_def)
qed

lemma auth_run_inv:
  "auth_inv s \<Longrightarrow> auth_inv (auth_run E es s) \<and>
     service_generation s \<le> service_generation (auth_run E es s) \<and>
     (\<forall>r \<in> live (auth_run E es s). r \<in> live s \<or> service_generation s < r) \<and>
     maxSessions (auth_run E es s) = maxSessions s"
  unfolding auth_run_def
proof (induction es arbitrary: s)
  case (Cons e es)
  note st = auth_step_inv [OF Cons.prems, of E e]
  from Cons.IH [OF conjunct1 [OF st]] st show ?case by (auto dest: less_le_trans le_less_trans)
qed simp

lemma make_auth_inv:
  assumes "make_auth E m u cb i a n ob w = Some s"
  shows "auth_inv s" "live s = {}" "service_generation s = 0"
proof -
  have "byId s = [] \<and> byDigest s = [] \<and> objects s = (\<lambda>_. None) \<and> 0 < maxSessions s \<and>
      0 < idleDuration s \<and> 0 < absoluteDuration s \<and> service_generation s = 0"
    using assms by (auto simp: make_auth_def Let_def split: jsnum.splits if_splits option.splits)
  then show "auth_inv s" "live s = {}" "service_generation s = 0"
    by (simp_all add: auth_inv_def maps_ok_def objects_ok_def live_def)
qed

section \<open>Reservations\<close>

text \<open>What every operation on an established session leaves alone.\<close>

definition quiet :: "'w AuthService \<Rightarrow> 'w AuthService \<Rightarrow> bool" where
  "quiet s t \<longleftrightarrow>
     service_generation t = service_generation s \<and> establishmentQueue t = establishmentQueue s \<and>
     unreleased t = unreleased s \<and> pendingEstablishments t = pendingEstablishments s \<and>
     pendingLocalAttempts t = pendingLocalAttempts s \<and> maxSessions t = maxSessions s \<and>
     maxPendingEstablishments t = maxPendingEstablishments s \<and> service_mode t = service_mode s"

interpretation quiet: frame_relation "\<lambda>_ :: 'w AuthService. True" quiet
  by unfold_locales (simp_all add: quiet_def)

lemma quiet_modify: "(\<And>s. quiet s (f s)) \<Longrightarrow> quiet.keeps (modify f)"
  by (rule quiet.keeps_modify) simp

lemma quiet_call: "quiet.keeps (call f)"
  by (rule quiet.keepsI) (auto simp: call_def quiet_def split: prod.split)

lemma quiet_case_jsnum:
  "\<lbrakk>\<And>x. quiet.keeps (f x); quiet.keeps a; quiet.keeps b; quiet.keeps c\<rbrakk> \<Longrightarrow>
   quiet.keeps (case n of Num x \<Rightarrow> f x | PosInf \<Rightarrow> a | NegInf \<Rightarrow> b | NaN \<Rightarrow> c)"
  by (cases n) auto

lemma quiet_now: "quiet.keeps (now E)"
  unfolding now_def by (intro quiet.keeps_intros quiet_call quiet_case_jsnum)

lemma quiet_remove: "quiet s (snd (remove_session r s))"
  by (simp add: remove_session_def quiet_def)

lemma quiet_emit: "quiet s (emitRevocation i x s)"
  by (simp add: emitRevocation_def quiet_def)

lemma quiet_revoke_session: "quiet s (revoke_session r x s)"
  using quiet_remove [of s r] quiet_emit quiet.R_trans
  by (fastforce simp: revoke_session_def split: prod.split bool.split)

lemma quiet_revoke: "quiet.keeps (revoke r x)"
  unfolding revoke_def by (rule quiet_modify) (rule quiet_revoke_session)

lemma quiet_unexpired: "quiet.keeps (unexpired E r)"
  unfolding unexpired_def expiredReason_def
  by (intro quiet.keeps_intros quiet_now quiet_revoke)

lemma quiet_createCsrf: "quiet.keeps (createCsrf E)"
  by (rule quiet.keepsI)
    (auto simp: createCsrf_def call_def bind_apply quiet_def split: prod.split option.split)

lemma quiet_touch: "quiet.keeps (modify (touch_object r t))"
  by (rule quiet_modify) (simp add: touch_object_def quiet_def)

lemma quiet_objects: "quiet.keeps (modify (\<lambda>s. s\<lparr>objects := f s\<rparr>))"
  by (rule quiet_modify) (simp add: quiet_def)

lemma quiet_phase: "quiet.keeps (modify (\<lambda>s. s\<lparr>passwordChange := p\<rparr>))"
  "quiet.keeps (modify (\<lambda>s. s\<lparr>passwordChangeActive := b, passwordChange := p\<rparr>))"
  by (rule quiet_modify, simp add: quiet_def)+

lemma quiet_sweep_refs: "quiet.keeps (sweep_refs E rs)"
  by (induction rs) (auto intro!: quiet.keeps_intros quiet_unexpired)

lemma quiet_case_phase:
  "\<lbrakk>quiet.keeps a; \<And>r i. quiet.keeps (f r i); quiet.keeps b; quiet.keeps c\<rbrakk> \<Longrightarrow>
   quiet.keeps (case p of NoChange \<Rightarrow> a | AwaitVerify r i \<Rightarrow> f r i | AwaitReplace \<Rightarrow> b | ChangeSettled \<Rightarrow> c)"
  by (cases p) auto

lemma quiet_revoke_all: "quiet.keeps (modify (revoke_all x))"
proof (rule quiet_modify)
  fix s :: "'a AuthService"
  show "quiet s (revoke_all x s)"
    using quiet.keeps_fold [of "\<lambda>r. revoke_session r x" s "map snd (byId s)"] quiet_revoke_session
    by (auto simp: revoke_all_def)
qed

lemmas quiet_defs = authenticateCookie_def authenticateAuthority_def isActiveAuthority_def
  touchAuthority_def touch_session_def resume_def refresh_def verifyCsrf_def logout_def
  sweepExpired_def changePassword_begin_def changePassword_verified_def changePassword_replaced_def
  lookupCookie_def lookupAuthority_def lookupId_def change_check_def

lemmas quiet_intros = quiet.keeps_intros quiet_call quiet_now quiet_revoke quiet_unexpired
  quiet_createCsrf quiet_touch quiet_objects quiet_phase quiet_sweep_refs quiet_case_phase
  quiet_revoke_all

lemma quiet_operations:
  "quiet.keeps (authenticateCookie E c)" "quiet.keeps (authenticateAuthority E c)"
  "quiet.keeps (isActiveAuthority E i g)" "quiet.keeps (touchAuthority E i g)"
  "quiet.keeps (touch_session E i)" "quiet.keeps (resume E i)" "quiet.keeps (refresh E i u)"
  "quiet.keeps (verifyCsrf E i supplied)" "quiet.keeps (logout i)" "quiet.keeps (sweepExpired E)"
  "quiet.keeps (changePassword_begin E i)" "quiet.keeps (changePassword_verified E v)"
  "quiet.keeps (changePassword_replaced v)"
  unfolding quiet_defs by (intro quiet_intros)+

text \<open>The counters count the operations that are queued or not yet released.\<close>

definition slots :: "'w AuthService \<Rightarrow> slot list" where
  "slots s = establishmentQueue s @ unreleased s"

definition counters_ok :: "'w AuthService \<Rightarrow> bool" where
  "counters_ok s \<longleftrightarrow>
     pendingEstablishments s = int (length (slots s)) \<and>
     pendingLocalAttempts s = int (length (filter local_slot (slots s))) \<and>
     pendingEstablishments s \<le> int (maxPendingEstablishments s) \<and>
     pendingLocalAttempts s \<le> int (maxSessions s)"

lemma quiet_counters: "quiet s t \<Longrightarrow> counters_ok t = counters_ok s"
  by (simp add: quiet_def counters_ok_def slots_def)

lemma counters_world: "counters_ok (s\<lparr>world := w\<rparr>) = counters_ok s"
  by (simp add: counters_ok_def slots_def)

text \<open>Accepting an attempt adds its slot to the queue and to the counters.\<close>

lemma counters_enqueue:
  assumes "counters_ok s" "\<not> pendingEstablishments s \<ge> int (maxPendingEstablishments s)"
    and "local_slot x \<Longrightarrow> \<not> pendingLocalAttempts s \<ge> int (maxSessions s)"
  shows "counters_ok (s\<lparr>pendingEstablishments := pendingEstablishments s + 1,
    pendingLocalAttempts := pendingLocalAttempts s + (if local_slot x then 1 else 0),
    establishmentQueue := establishmentQueue s @ [x]\<rparr>)"
  using assms by (auto simp: counters_ok_def slots_def)

lemma counters_bootstrap: "counters_ok s \<Longrightarrow> counters_ok (snd (bootstrap_begin u s))"
  using counters_enqueue [of s "BootstrapSlot u"]
  by (auto simp: bootstrap_begin_def reserveEstablishment_def enqueueEstablishment_def em_simps)

lemma localBootstrap_known [simp]:
  "localBootstrap E (Some b) s =
     (Inr (if b then SetupRequired (localUsername s) else LocalUnauthenticated), s)"
  by (simp add: localBootstrap_def em_simps)

lemma call_eq: "call f s = (Inr (fst (f (world s))), s\<lparr>world := snd (f (world s))\<rparr>)"
  by (simp add: call_def split: prod.split)

lemma counters_accept:
  assumes "counters_ok s" "local_slot x" "\<not> pendingEstablishments s \<ge> int (maxPendingEstablishments s)"
    and "\<not> pendingLocalAttempts s \<ge> int (maxSessions s)"
  shows "counters_ok (s\<lparr>pendingEstablishments := pendingEstablishments s + 1, world := w,
      pendingLocalAttempts := pendingLocalAttempts s + 1,
      establishmentQueue := establishmentQueue s @ [x]\<rparr>)"
  using assms by (auto simp: counters_ok_def slots_def)

lemmas begin_defs = call_eq reserveEstablishment_def releaseEstablishment_def
  enqueueEstablishment_def bind_apply gets_def throw_def ret_def modify_def

lemma counters_login: "counters_ok s \<Longrightarrow> counters_ok (snd (login_begin E u a s))"
  using counters_accept [of s "LoginSlot l b" for l b]
  by (auto simp: login_begin_def begin_defs counters_world split: option.split bool.split)

lemma counters_setup: "counters_ok s \<Longrightarrow> counters_ok (snd (setup_begin E a s))"
  using counters_accept [of s "SetupSlot b" for b]
  by (auto simp: setup_begin_def begin_defs counters_world split: option.split bool.split)

text \<open>Running a slot touches neither the queue nor the counters.\<close>

definition steady :: "'w AuthService \<Rightarrow> 'w AuthService \<Rightarrow> bool" where
  "steady s t \<longleftrightarrow>
     establishmentQueue t = establishmentQueue s \<and> unreleased t = unreleased s \<and>
     pendingEstablishments t = pendingEstablishments s \<and>
     pendingLocalAttempts t = pendingLocalAttempts s \<and> maxSessions t = maxSessions s \<and>
     maxPendingEstablishments t = maxPendingEstablishments s \<and> service_mode t = service_mode s"

interpretation steady: frame_relation "\<lambda>_ :: 'w AuthService. True" steady
  by unfold_locales (simp_all add: steady_def)

lemma quiet_steady: "quiet.keeps m \<Longrightarrow> steady.keeps m"
  by (auto simp: quiet.keeps_def steady.keeps_def quiet_def steady_def)

lemma steady_modify: "(\<And>s. steady s (f s)) \<Longrightarrow> steady.keeps (modify f)"
  by (rule steady.keeps_modify) simp

lemma quiet_token: "quiet.keeps (token E n)"
  unfolding token_def by (intro quiet_intros)

lemma quiet_draws: "quiet.keeps (drawCookie E k)" "quiet.keeps (drawId E k)"
  by (induction k) (auto intro!: quiet.keeps_intros quiet_token)

lemma steady_allocate: "steady.keeps (allocate E m label up t c d i issued)"
  unfolding allocate_def nextGeneration_def
  by (intro steady.keeps_intros steady_modify) (simp_all add: steady_def)

lemma steady_applyCommit: "steady s (applyCommit g rs s)"
proof -
  have one: "steady s (snd (remove_session r s))" "steady s (emitRevocation i x s)" "steady s (install g s)"
    for r i x and s :: "'a AuthService"
    by (simp_all add: remove_session_def emitRevocation_def install_def steady_def)
  have 1: "steady s (fold (\<lambda>(r, _) s. snd (remove_session r s)) rs s)"
    using steady.keeps_fold [of "\<lambda>(r, _) s. snd (remove_session r s)" s rs] one(1)
    by (auto split: prod.splits)
  have 3: "steady t (fold (\<lambda>(r, x) s. emitRevocation (stored_id (stored s r)) x s) rs t)" for t :: "'a AuthService"
    using steady.keeps_fold [of "\<lambda>(r, x) s. emitRevocation (stored_id (stored s r)) x s" t rs] one(2)
    by (auto split: prod.splits)
  show ?thesis unfolding applyCommit_def Let_def
    by (rule steady.R_trans [OF 1 steady.R_trans [OF one(3) 3]])
qed

lemmas steady_intros = steady.keeps_intros quiet_steady [OF quiet_now] quiet_steady [OF quiet_call]
  quiet_steady [OF quiet_draws(1)] quiet_steady [OF quiet_draws(2)] quiet_steady [OF quiet_createCsrf]
  steady_allocate

lemma steady_safeEstablish: "steady.keeps (safeEstablish E m label up reset)"
  unfolding safeEstablish_def prepareSession_def commitSession_def
  by (intro steady_intros steady_modify steady_applyCommit)

lemma steady_localBootstrap: "steady.keeps (localBootstrap E b)"
  unfolding localBootstrap_def by (intro steady_intros)

lemma steady_slot:
  "steady.keeps (case x of BootstrapSlot input \<Rightarrow> completeBootstrap E input
     | LoginSlot label address \<Rightarrow> completeLoginSlot E v label address
     | SetupSlot address \<Rightarrow> completeSetup E en address)"
proof (cases x)
  case (BootstrapSlot u)
  show ?thesis unfolding BootstrapSlot slot.case completeBootstrap_def
    by (cases u) (simp_all only: UpstreamAuthentication.case,
        (intro steady_intros steady_safeEstablish steady_localBootstrap)+)
next
  case (LoginSlot l a)
  show ?thesis unfolding LoginSlot slot.case completeLoginSlot_def
    by (intro steady_intros steady_safeEstablish)
next
  case (SetupSlot a)
  have "steady.keeps (modify (\<lambda>s :: 'a AuthService. s\<lparr>world := f (world s)\<rparr>))" for f
    by (rule steady_modify) (simp add: steady_def)
  then show ?thesis unfolding SetupSlot slot.case completeSetup_def
    by (cases en) (simp_all only: enrollment.case,
        (intro steady_intros steady_safeEstablish steady_localBootstrap | assumption)+)
qed

lemma counters_settle:
  assumes "counters_ok s"
  shows "counters_ok (snd (settleNext E v en s))"
proof (cases "establishmentQueue s")
  case Nil
  with assms show ?thesis by (simp add: settleNext_def em_simps)
next
  case (Cons x xs)
  define s1 where "s1 = s\<lparr>establishmentQueue := xs, unreleased := unreleased s @ [x]\<rparr>"
  define m where "m = (case x of BootstrapSlot input \<Rightarrow> completeBootstrap E input
     | LoginSlot label address \<Rightarrow> completeLoginSlot E v label address
     | SetupSlot address \<Rightarrow> completeSetup E en address)"
  have "counters_ok s1" using assms Cons by (simp add: s1_def counters_ok_def slots_def)
  moreover have "steady s1 (snd (m s1))" using steady.keepsD [OF steady_slot] by (simp add: m_def)
  ultimately have "counters_ok (snd (m s1))" by (simp add: steady_def counters_ok_def slots_def)
  moreover have "snd (settleNext E v en s) = snd (m s1)"
    using Cons by (auto simp: settleNext_def em_simps s1_def m_def split: prod.split sum.split)
  ultimately show ?thesis by simp
qed

lemma counters_release: "counters_ok s \<Longrightarrow> counters_ok (snd (releaseNext s))"
  by (auto simp: releaseNext_def modify_def counters_ok_def slots_def split: list.split if_splits)

lemma counters_step:
  assumes "counters_ok s"
  shows "counters_ok (auth_step E e s)"
proof -
  have q: "counters_ok (snd (m s))" if "quiet.keeps m" for m :: "('a, 'b) auth"
    using quiet.keepsD [OF that, of s] quiet_counters [of s "snd (m s)"] assms by simp
  show ?thesis
  proof (cases e)
    case Subscribe
    then show ?thesis using assms by (simp add: onRevoked_def counters_ok_def slots_def)
  next
    case (Unsubscribe ob)
    then show ?thesis using assms by (simp add: unsubscribe_def modify_def counters_ok_def slots_def)
  next
    case ChangeFinally
    then show ?thesis
      using assms by (simp add: changePassword_finally_def modify_def counters_ok_def slots_def)
  qed (simp_all add: counters_bootstrap counters_login counters_setup counters_settle counters_release
      assms q [OF quiet_operations(1)] q [OF quiet_operations(2)] q [OF quiet_operations(3)]
      q [OF quiet_operations(4)] q [OF quiet_operations(5)] q [OF quiet_operations(6)]
      q [OF quiet_operations(7)] q [OF quiet_operations(8)] q [OF quiet_operations(9)]
      q [OF quiet_operations(10)] q [OF quiet_operations(11)] q [OF quiet_operations(12)]
      q [OF quiet_operations(13)])
qed

lemma auth_run_counters: "counters_ok s \<Longrightarrow> counters_ok (auth_run E es s)"
  unfolding auth_run_def by (induction es arbitrary: s) (auto intro: counters_step)

lemma make_auth_counters: "make_auth E m u cb i a n ob w = Some s \<Longrightarrow> counters_ok s"
  by (auto simp: make_auth_def Let_def counters_ok_def slots_def split: jsnum.splits if_splits option.splits)

section \<open>Who may establish a session\<close>

text \<open>What the head of the queue must have proved for a session to be established.\<close>

definition entitled :: "'w AuthService \<Rightarrow> bool option \<Rightarrow> enrollment \<Rightarrow> slot \<Rightarrow> bool" where
  "entitled s verification enrolled x \<longleftrightarrow>
     (case x of
        LoginSlot _ _ \<Rightarrow> verification = Some True
      | SetupSlot _ \<Rightarrow> (\<exists>u. enrolled = EnrollCommitted u)
      | BootstrapSlot NoUpstream \<Rightarrow> service_mode s = NoAuth
      | BootstrapSlot (UpstreamIdentified u) \<Rightarrow>
          up_mode u = service_mode s \<and> service_mode s \<in> {CloudflareAccess, TrustedHeader})"

lemma completeBootstrap_quiet:
  assumes "service_mode s \<noteq> NoAuth" "u = NoUpstream"
  shows "quiet s (snd (completeBootstrap E u s))"
proof -
  have "quiet.keeps (localBootstrap E None)" unfolding localBootstrap_def by (intro quiet_intros)
  from quiet.keepsD [OF this, of s] assms show ?thesis
    by (cases "service_mode s")
      (auto simp: completeBootstrap_def em_simps quiet_def split: prod.split sum.split)
qed

lemma completeBootstrap_mismatch:
  "service_mode s = Local \<or> service_mode s = NoAuth \<or> up_mode u \<noteq> service_mode s \<Longrightarrow>
   snd (completeBootstrap E (UpstreamIdentified u) s) = s"
  by (auto simp: completeBootstrap_def em_simps)

lemma settle_unentitled:
  assumes "establishmentQueue s = x # xs" "\<not> entitled s v en x"
  shows "service_generation (snd (settleNext E v en s)) = service_generation s"
proof -
  define s1 where "s1 = s\<lparr>establishmentQueue := xs, unreleased := unreleased s @ [x]\<rparr>"
  define m where "m = (case x of BootstrapSlot input \<Rightarrow> completeBootstrap E input
     | LoginSlot label address \<Rightarrow> completeLoginSlot E v label address
     | SetupSlot address \<Rightarrow> completeSetup E en address)"
  have "snd (settleNext E v en s) = snd (m s1)"
    using assms(1) by (auto simp: settleNext_def em_simps s1_def m_def split: prod.split sum.split)
  moreover have "service_generation (snd (m s1)) = service_generation s1"
  proof (cases x)
    case (LoginSlot l a)
    with assms(2) show ?thesis
      by (auto simp: m_def entitled_def completeLoginSlot_def em_simps split: option.split bool.split)
  next
    case (SetupSlot a)
    with assms(2) show ?thesis
      by (cases en) (auto simp: m_def entitled_def completeSetup_def em_simps)
  next
    case (BootstrapSlot u)
    have mode: "service_mode s1 = service_mode s" by (simp add: s1_def)
    show ?thesis
    proof (cases u)
      case NoUpstream
      with BootstrapSlot assms(2) completeBootstrap_quiet [of s1 u E] mode show ?thesis
        by (simp add: m_def entitled_def quiet_def)
    next
      case (UpstreamIdentified i)
      have "service_mode s1 = Local \<or> service_mode s1 = NoAuth \<or> up_mode i \<noteq> service_mode s1"
        using UpstreamIdentified BootstrapSlot assms(2) mode
        by (cases "service_mode s") (auto simp: entitled_def)
      with UpstreamIdentified BootstrapSlot completeBootstrap_mismatch [of s1 i E] show ?thesis
        by (simp add: m_def)
    qed
  qed
  ultimately show ?thesis by (simp add: s1_def)
qed

lemma generation_step:
  assumes "service_generation (auth_step E e s) \<noteq> service_generation s"
  shows "\<exists>v en x xs. e = Settle v en \<and> establishmentQueue s = x # xs \<and> entitled s v en x"
proof -
  have q: "service_generation (snd (m s)) = service_generation s" if "quiet.keeps m" for m :: "('a, 'b) auth"
    using quiet.keepsD [OF that, of s] by (simp add: quiet_def)
  show ?thesis
  proof (cases e)
    case (BootstrapBegin u)
    with assms show ?thesis by (simp add: bootstrap_begin_def begin_defs split: if_splits)
  next
    case (LoginBegin u a)
    with assms show ?thesis
      by (auto simp: login_begin_def begin_defs split: if_splits option.splits bool.splits)
  next
    case (SetupBegin a)
    with assms show ?thesis
      by (auto simp: setup_begin_def begin_defs split: if_splits option.splits bool.splits)
  next
    case (Settle v en)
    with assms settle_unentitled [of s _ _ v en E] show ?thesis
      by (cases "establishmentQueue s") (auto simp: settleNext_def em_simps)
  qed (use assms q [OF quiet_operations(1)] q [OF quiet_operations(2)] q [OF quiet_operations(3)]
      q [OF quiet_operations(4)] q [OF quiet_operations(5)] q [OF quiet_operations(6)]
      q [OF quiet_operations(7)] q [OF quiet_operations(8)] q [OF quiet_operations(9)]
      q [OF quiet_operations(10)] q [OF quiet_operations(11)] q [OF quiet_operations(12)]
      q [OF quiet_operations(13)] in \<open>auto simp: releaseNext_def onRevoked_def unsubscribe_def
      changePassword_finally_def modify_def split: list.splits if_splits\<close>)
qed

text \<open>A slot that settles with a cookie ended in \<open>#safeEstablish\<close>.\<close>

lemma localBootstrap_same: "localBootstrap E b s = (x, t) \<Longrightarrow> same_sessions s t"
  by (cases b) (auto simp: localBootstrap_def call_eq em_simps same_sessions_def split: option.splits)

lemma same_sessions_refl: "same_sessions s s"
  by (simp add: same_sessions_def)

lemma slot_establishes:
  assumes "(case x of BootstrapSlot input \<Rightarrow> completeBootstrap E input
     | LoginSlot label address \<Rightarrow> completeLoginSlot E v label address
     | SetupSlot address \<Rightarrow> completeSetup E en address) s = (Inr result, t)"
    and "cookieValue result = Some c"
  shows "\<exists>md label up reset s2. same_sessions s s2 \<and>
    safeEstablish E md label up reset s2 = (Inr result, t)"
proof (cases x)
  case (LoginSlot l a)
  with assms have "safeEstablish E Local l None (Some a) s = (Inr result, t)"
    by (auto simp: completeLoginSlot_def localLoginFailure_def localFailure_def em_simps
        split: option.splits bool.splits)
  with same_sessions_refl [of s] show ?thesis by blast
next
  case (SetupSlot a)
  show ?thesis
  proof (cases en)
    case (EnrollCommitted b)
    define s2 where "s2 = (if b then s\<lparr>world := durabilityUncertain E (world s)\<rparr> else s)"
    have "same_sessions s s2" by (simp add: s2_def same_sessions_def)
    moreover have "safeEstablish E Local (localUsername s2) None (Some a) s2 = (Inr result, t)"
      using assms(1) SetupSlot EnrollCommitted
      by (cases b) (auto simp: completeSetup_def em_simps s2_def)
    ultimately show ?thesis by blast
  qed (use assms SetupSlot in \<open>auto simp: completeSetup_def localFailure_def em_simps\<close>)
next
  case (BootstrapSlot u)
  with assms(1) have run: "completeBootstrap E u s = (Inr result, t)" by simp
  show ?thesis
  proof (cases "service_mode s = Local \<or> service_mode s = NoAuth")
    case True
    with run assms(2)
    have "safeEstablish E NoAuth (map of_char ''anonymous'') None None s = (Inr result, t)"
      by (auto simp: completeBootstrap_def em_simps split: if_splits sum.splits prod.splits)
    with same_sessions_refl [of s] show ?thesis by blast
  next
    case False
    obtain n s1 where n: "now E s = (n, s1)" by (metis surj_pair)
    from False run n now_same [OF n] same_sessions_refl [of s] show ?thesis
      by (auto simp: completeBootstrap_def em_simps
          split: if_splits sum.splits UpstreamAuthentication.splits option.splits prod.splits) blast+
  qed
qed

section \<open>Properties\<close>

text \<open>A concrete instance: a counting world, the identity as hash, collation by equality.\<close>

definition example_auth_env :: "nat auth_env" where
  "example_auth_env =
     \<lparr>clock = (\<lambda>w. (Num (real w), w)), random = (\<lambda>w n. (Some (replicate n (w mod 256)), Suc w)),
      isInitialized = (\<lambda>w. (Some True, w)), limiterConsume = (\<lambda>w a. (Some True, w)),
      limiterReset = (\<lambda>w a. (True, w)), durabilityUncertain = (\<lambda>w. w), sha256 = (\<lambda>s. s),
      collate = (\<lambda>a b. 0), nfc = (\<lambda>l. l)\<rparr>"

definition example_auth :: "nat AuthService" where
  "example_auth =
     \<lparr>service_mode = Local, localUsername = [97], idleDuration = 10, absoluteDuration = 25,
      maxSessions = 1, maxPendingEstablishments = 8, observerMax = 64, byDigest = [], byId = [],
      objects = (\<lambda>_. None), observers = [], next_observer = 0, notified = [],
      establishmentQueue = [], unreleased = [], pendingEstablishments = 0, pendingLocalAttempts = 0,
      passwordChangeActive = False, passwordChange = NoChange, service_generation = 0,
      csrf_service = new_csrf, world = 0\<rparr>"

definition example_login :: "auth_event list" where
  "example_login = [Subscribe, LoginBegin [97] ''10.0.0.1'', Settle (Some True) EnrollThrew, Release]"

lemma example_auth_make:
  "make_auth example_auth_env Local (Some [97]) True (Num 10) (Num 25) (Num 1) None 0 = Some example_auth"
  by (simp add: make_auth_def example_auth_def normalizeLabel_def example_auth_env_def Let_def
      utf8_length_def)

lemma reachable_inv:
  assumes "make_auth E m u cb i a n ob w = Some s0" and "s = auth_run E es s0"
  shows "auth_inv s" "maxSessions s = maxSessions s0"
  using auth_run_inv [OF make_auth_inv(1) [OF assms(1)], of E es] assms(2) by simp_all

lemma live_le: "auth_inv s \<Longrightarrow> r \<in> live s \<Longrightarrow> r \<le> service_generation s"
  using live_stored(1) [of s r] by (auto simp: auth_inv_def objects_ok_def)

text \<open>
  C17. The two maps of the session service always describe the same sessions: after any sequence of
  operations, an id and a cookie digest lead to the same object, that object carries the id and the
  digest under which it is filed, its idle deadline never exceeds its absolute one, and there are
  never more sessions than configured.
\<close>

theorem auth_maps_consistent:
  assumes "make_auth E m u cb i a n ob w = Some s0" and "s = auth_run E es s0"
  shows "(\<forall>k r. jm_get (byId s) k = Some r \<longrightarrow>
            (\<exists>x. objects s r = Some x \<and> stored_id x = k \<and> stored_generation x = r \<and>
               jm_get (byDigest s) (digest x) = Some r \<and> idleExpiresAt x \<le> absoluteExpiresAt x)) \<and>
         (\<forall>d r. jm_get (byDigest s) d = Some r \<longrightarrow>
            (\<exists>x. objects s r = Some x \<and> digest x = d \<and> jm_get (byId s) (stored_id x) = Some r)) \<and>
         length (byId s) \<le> maxSessions s0"
proof -
  note inv = reachable_inv [OF assms]
  then have m: "maps_ok s" and ok: "objects_ok s" by (simp_all add: auth_inv_def)
  have obj: "objects s r = Some (stored s r) \<and> stored_generation (stored s r) = r \<and>
      idleExpiresAt (stored s r) \<le> absoluteExpiresAt (stored s r)" if "r \<in> live s" for r
    using live_stored(1) [OF m that] ok by (auto simp: objects_ok_def)
  have "\<exists>x. objects s r = Some x \<and> stored_id x = k \<and> stored_generation x = r \<and>
      jm_get (byDigest s) (digest x) = Some r \<and> idleExpiresAt x \<le> absoluteExpiresAt x"
    if "jm_get (byId s) k = Some r" for k r
    using obj [OF live_get [OF that]] m that by (auto simp: maps_ok_def)
  moreover have "\<exists>x. objects s r = Some x \<and> digest x = d \<and> jm_get (byId s) (stored_id x) = Some r"
    if "jm_get (byDigest s) d = Some r" for d r
    using obj [OF live_digest [OF inv(1) that]] m that by (auto simp: maps_ok_def)
  moreover have "length (byId s) \<le> maxSessions s0" using m inv(2) by (simp add: maps_ok_def)
  ultimately show ?thesis by blast
qed

text \<open>A lookup that succeeds: the session it finds, the clock it read, and what it leaves as it was.\<close>

definition unexpired_at :: "'w auth_env \<Rightarrow> 'w AuthService \<Rightarrow> Stored \<Rightarrow> bool" where
  "unexpired_at E s x \<longleftrightarrow> (\<exists>n w. clock E (world s) = (Num n, w) \<and> n < idleExpiresAt x \<and> n < absoluteExpiresAt x \<and>
     (case upstreamExpiresAt x of None \<Rightarrow> True | Some e \<Rightarrow> n < e))"

lemma lookupCookie_live:
  assumes inv: "auth_inv s" and run: "lookupCookie E (Some c) s = (Inr (Some r), t)"
  shows "jm_get (byDigest s) (sha256 E c) = Some r" "objects s r = Some (stored s r)" "stored t = stored s"
    "unexpired_at E s (stored s r)" "same_sessions s t" "auth_inv t"
proof -
  note l = lookup_specD [OF lookupCookie_spec inv run]
  show st: "stored t = stored s" using same_sessions_live(2) [OF l(3)] .
  show "jm_get (byDigest s) (sha256 E c) = Some r"
    using run by (auto simp: lookupCookie_def em_simps split: if_splits option.splits prod.splits sum.splits)
  show "objects s r = Some (stored s r)" using l(3,5) st by (simp add: same_sessions_def)
  show "unexpired_at E s (stored s r)" using l(6) by (auto simp: unexpired_at_def expiredReasonAt_None)
  show "same_sessions s t" "auth_inv t" using l by simp_all
qed

text \<open>
  C2. A cookie authenticates only a session that is filed under its digest and that has reached none
  of its deadlines at the instant the clock is read; the answer is that session's data and the lookup
  changes no session.
\<close>

theorem cookie_authenticates_unexpired:
  assumes "make_auth E m u cb i a n ob w = Some s0" and "s = auth_run E es s0"
    and "authenticateCookie E (Some c) s = (Inr (Some v), t)"
  shows "\<exists>r x now w'. jm_get (byDigest s) (sha256 E c) = Some r \<and> objects s r = Some x \<and> v = view x \<and>
           clock E (world s) = (Num now, w') \<and> now < idleExpiresAt x \<and> now < absoluteExpiresAt x \<and>
           (case upstreamExpiresAt x of None \<Rightarrow> True | Some e \<Rightarrow> now < e) \<and>
           byId t = byId s \<and> byDigest t = byDigest s \<and> objects t = objects s"
proof -
  obtain r where run: "lookupCookie E (Some c) s = (Inr (Some r), t)" and v: "v = view (stored t r)"
    using assms(3) by (auto simp: authenticateCookie_def em_simps split: prod.splits sum.splits option.splits)
  from lookupCookie_live [OF reachable_inv(1) [OF assms(1,2)] run] v show ?thesis
    by (auto simp: unexpired_at_def same_sessions_def)
qed

text \<open>
  C16. Revocation is final: once a session is gone, no later sequence of operations makes its authority
  active again, even if its id were drawn a second time.
\<close>

theorem revoked_stays_revoked:
  assumes "make_auth E m u cb i a n ob w = Some s0" and "s = auth_run E es0 s0"
    and "g \<le> service_generation s" and "g \<notin> live s"
  shows "fst (isActiveAuthority E k g (auth_run E es s)) \<noteq> Inr True"
proof
  let ?t = "auth_run E es s"
  note inv = reachable_inv(1) [OF assms(1,2)]
  note run = auth_run_inv [OF inv, of E es]
  have dead: "g \<notin> live ?t" using run assms(3,4) by (meson leD)
  assume act: "fst (isActiveAuthority E k g ?t) = Inr True"
  then obtain r where r: "jm_get (byId ?t) k = Some r" "stored_generation (stored ?t r) = g"
    by (auto simp: isActiveAuthority_def lookupAuthority_def em_simps split: if_splits option.splits)
  have "stored_generation (stored ?t r) = r"
    using conjunct1 [OF run] live_stored(1) [OF _ live_get [OF r(1)]] by (auto simp: auth_inv_def objects_ok_def)
  with r live_get dead show False by auto
qed

text \<open>
  C1. Only a proof of identity establishes a session: if some step makes a session live that was not
  live before, the step ran the head of the establishment queue, and that was a login whose password
  verified, a setup whose enrolment was committed, an anonymous bootstrap in mode none, or a bootstrap
  with an upstream identity of the configured upstream mode.
\<close>

theorem session_needs_proof:
  assumes "make_auth E m u cb i a n ob w = Some s0" and "s = auth_run E es s0"
    and "r \<in> live (auth_step E e s)" and "r \<notin> live s"
  shows "\<exists>v en x xs. e = Settle v en \<and> establishmentQueue s = x # xs \<and> entitled s v en x"
proof -
  note inv = reachable_inv(1) [OF assms(1,2)]
  note st = auth_step_inv [OF inv, of E e]
  have "service_generation s < r" using st assms(3,4) by blast
  moreover have "r \<le> service_generation (auth_step E e s)"
    by (rule live_le [OF conjunct1 [OF st] assms(3)])
  ultimately show ?thesis by (intro generation_step [of E]) auto
qed

text \<open>A session that is still live keeps its digest along a run, and so stays filed under it.\<close>

lemma run_keeps_digest:
  assumes "auth_inv s" "r \<in> live s" "r \<in> live (auth_run E es s)"
  shows "digest (stored (auth_run E es s) r) = digest (stored s r)"
  using assms
proof (induction es arbitrary: s)
  case (Cons e es)
  let ?t = "auth_step E e s"
  note st = auth_step_inv [OF Cons.prems(1), of E e]
  have le: "r \<le> service_generation s" by (rule live_le [OF Cons.prems(1,2)])
  have fin: "r \<in> live (auth_run E es ?t)" using Cons.prems(3) by (simp add: auth_run_def)
  have t: "r \<in> live ?t" using auth_run_inv [OF conjunct1 [OF st], of E es] fin st le by force
  have "digest (stored ?t r) = digest (stored s r)"
  proof (cases "subscription e")
    case True
    then show ?thesis using auth_step_subscription [OF True, of E s] by (simp add: stored_def)
  next
    case False
    then show ?thesis using auth_step_ok [OF Cons.prems(1) False, of E] Cons.prems(2) t le unfolding auth_rel_def by blast
  qed
  with Cons.IH [OF conjunct1 [OF st] t fin] show ?case by (simp add: auth_run_def)
qed (simp add: auth_run_def)

text \<open>
  C25. A cookie handed out works while its session lasts: when an establishment settles with a cookie,
  exactly one new session is live. In every later state in which this session has been neither revoked
  nor removed and has not reached a deadline, the cookie authenticates, as this session.
\<close>

theorem established_cookie_authenticates:
  assumes "make_auth E m u cb i a n ob w = Some s0" and "s = auth_run E es s0"
    and "settleNext E v en s = (Inr (Some result), t)" and "cookieValue result = Some c"
  shows "\<exists>r. r \<notin> live s \<and> r \<in> live t \<and> live t \<subseteq> insert r (live s) \<and>
    (\<forall>es' now w'. r \<in> live (auth_run E es' t) \<and> clock E (world (auth_run E es' t)) = (Num now, w') \<and>
         expiredReasonAt (stored (auth_run E es' t) r) now = None \<longrightarrow>
       fst (authenticateCookie E (Some c) (auth_run E es' t)) = Inr (Some (view (stored (auth_run E es' t) r))))"
proof -
  note inv = reachable_inv(1) [OF assms(1,2)]
  obtain x xs where q: "establishmentQueue s = x # xs"
    using assms(3) by (cases "establishmentQueue s") (auto simp: settleNext_def em_simps)
  define s1 where "s1 = s\<lparr>establishmentQueue := xs, unreleased := unreleased s @ [x]\<rparr>"
  have same: "same_sessions s s1" by (simp add: s1_def same_sessions_def)
  have run: "(case x of BootstrapSlot input \<Rightarrow> completeBootstrap E input
     | LoginSlot label address \<Rightarrow> completeLoginSlot E v label address
     | SetupSlot address \<Rightarrow> completeSetup E en address) s1 = (Inr result, t)"
    using assms(3) q by (auto simp: settleNext_def em_simps s1_def split: prod.splits sum.splits)
  obtain md label up reset s2 where est: "same_sessions s1 s2" "safeEstablish E md label up reset s2 = (Inr result, t)"
    using slot_establishes [OF run assms(4)] by blast
  note inv2 = same_sessions_ok [OF same_sessions_trans [OF same est(1)] inv]
  note ok = safeEstablish_ok [OF conjunct1 [OF inv2] est(2)]
  have l2: "live s2 = live s" "service_generation s2 = service_generation s"
    using same_sessions_live(1) [OF same_sessions_trans [OF same est(1)]] same est(1)
    by (simp_all add: same_sessions_def)
  from ok assms(4) l2 obtain g where g: "service_generation s < g" "g \<in> live t" "live t \<subseteq> insert g (live s)"
    "TOKEN_PATTERN c" "jm_get (byDigest t) (sha256 E c) = Some g"
    by (auto simp: established_def)
  have invt: "auth_inv t" using ok by blast
  then have d: "digest (stored t g) = sha256 E c" using g(5) by (auto simp: auth_inv_def maps_ok_def)
  have "g \<notin> live s" using live_le [OF inv] g(1) by fastforce
  moreover have "fst (authenticateCookie E (Some c) (auth_run E es' t)) = Inr (Some (view (stored (auth_run E es' t) g)))"
    if h: "g \<in> live (auth_run E es' t)" "clock E (world (auth_run E es' t)) = (Num nn, w')"
      "expiredReasonAt (stored (auth_run E es' t) g) nn = None" for es' nn w'
  proof -
    have "auth_inv (auth_run E es' t)" using auth_run_inv [OF invt] by blast
    then have "jm_get (byDigest (auth_run E es' t)) (digest (stored (auth_run E es' t) g)) = Some g"
      using h(1) by (auto simp: auth_inv_def maps_ok_def live_def)
    then have "jm_get (byDigest (auth_run E es' t)) (sha256 E c) = Some g"
      using run_keeps_digest [OF invt g(2) h(1)] d by simp
    with g(4) h(2,3) show ?thesis
      by (simp add: authenticateCookie_def lookupCookie_def unexpired_def expiredReason_def now_def call_def em_simps stored_def)
  qed
  ultimately show ?thesis using g by blast
qed

definition example_stored :: Stored where
  "example_stored =
     \<lparr>stored_id = base64url (replicate 16 1), stored_generation = 1, stored_mode = Local,
      identityLabel = [97], createdAt = 0, lastSeen = 0, idleExpiresAt = 10, absoluteExpiresAt = 25,
      upstreamExpiresAt = None, csrf_record = 0, digest = base64url (replicate 32 0)\<rparr>"

definition example_session :: "nat AuthService" where
  "example_session = example_auth\<lparr>byDigest := [(base64url (replicate 32 0), 1)],
     byId := [(base64url (replicate 16 1), 1)], objects := [1 \<mapsto> example_stored],
     observers := [0], next_observer := 1, service_generation := 1,
     csrf_service := \<lparr>records = [(0, base64url (replicate 32 2))], next_record = 1\<rparr>, world := 3\<rparr>"

lemma example_login_queued:
  "auth_run example_auth_env [Subscribe, LoginBegin [97] ''10.0.0.1''] example_auth =
     example_auth\<lparr>observers := [0], next_observer := 1, pendingEstablishments := 1,
       pendingLocalAttempts := 1, establishmentQueue := [LoginSlot [97] ''10.0.0.1'']\<rparr>"
  by (simp add: auth_run_def onRevoked_def example_auth_def login_begin_def begin_defs
      example_auth_env_def normalizeLabel_def utf8_length_def boundedAddress_def Let_def)

lemma example_now: "now example_auth_env s = (Inr (real (world s)), s)"
  by (simp add: now_def call_eq em_simps example_auth_env_def)

lemma example_token:
  "token example_auth_env n s =
     (Inr (base64url (replicate n (world s mod 256))), s\<lparr>world := Suc (world s)\<rparr>)"
  by (simp add: token_def call_eq em_simps example_auth_env_def)

lemma example_cookie:
  "jm_get (byDigest s) (base64url (replicate 32 (world s mod 256))) = None \<Longrightarrow>
   drawCookie example_auth_env 8 s =
     (Inr (Some (base64url (replicate 32 (world s mod 256)), base64url (replicate 32 (world s mod 256)))),
      s\<lparr>world := Suc (world s)\<rparr>)"
  using drawCookie.simps(2) [of example_auth_env 7]
  by (simp add: em_simps example_token) (simp add: example_auth_env_def)

lemma example_id_drawn:
  "jm_get (byId s) (base64url (replicate 16 (world s mod 256))) = None \<Longrightarrow>
   drawId example_auth_env 8 s =
     (Inr (Some (base64url (replicate 16 (world s mod 256)))), s\<lparr>world := Suc (world s)\<rparr>)"
  using drawId.simps(2) [of example_auth_env 7] by (simp add: em_simps example_token)

lemma example_csrf:
  "createCsrf example_auth_env s =
     (Inr (base64url (replicate 32 (world s mod 256)), next_record (csrf_service s)),
      s\<lparr>world := Suc (world s),
        csrf_service := (csrf_service s)\<lparr>records := jm_set (records (csrf_service s))
            (next_record (csrf_service s)) (base64url (replicate 32 (world s mod 256))),
          next_record := Suc (next_record (csrf_service s))\<rparr>\<rparr>)"
  by (simp add: createCsrf_def call_eq bind_apply csrf_create_def Let_def example_auth_env_def)

lemma example_prepare:
  assumes "s = example_auth\<lparr>observers := [0], next_observer := 1, pendingEstablishments := 1,
       pendingLocalAttempts := 1, unreleased := [LoginSlot [97] ''10.0.0.1'']\<rparr>"
  shows "prepareSession example_auth_env Local [97] None s =
    (Inr (1, \<lparr>bootstrap = Authenticated Local [97] (base64url (replicate 32 2)) None,
        cookieValue = Some (base64url (replicate 32 0)), failure = None\<rparr>),
     s\<lparr>objects := [1 \<mapsto> example_stored], service_generation := 1,
       csrf_service := \<lparr>records = [(0, base64url (replicate 32 2))], next_record = 1\<rparr>, world := 3\<rparr>)"
  unfolding assms
  by (simp add: prepareSession_def bind_apply example_now example_cookie example_id_drawn example_csrf
      example_auth_def allocate_def nextGeneration_eq safe_int_def MAX_SAFE_INTEGER_def em_simps
      normalizeLabel_def utf8_length_def new_csrf_def example_stored_def)
    (simp add: example_auth_env_def em_simps numeral_2_eq_2 numeral_3_eq_3)

definition example_result :: AuthBootstrapResult where
  "example_result = \<lparr>bootstrap = Authenticated Local [97] (base64url (replicate 32 2)) None,
     cookieValue = Some (base64url (replicate 32 0)), failure = None\<rparr>"

definition example_waiting :: "nat AuthService" where
  "example_waiting = auth_run example_auth_env [Subscribe, LoginBegin [97] ''10.0.0.1''] example_auth"

lemma example_waiting_eq:
  "example_waiting = example_auth\<lparr>observers := [0], next_observer := 1, pendingEstablishments := 1,
       pendingLocalAttempts := 1, establishmentQueue := [LoginSlot [97] ''10.0.0.1'']\<rparr>"
  unfolding example_waiting_def by (rule example_login_queued)

definition example_settled :: "nat AuthService" where
  "example_settled = example_session\<lparr>pendingEstablishments := 1, pendingLocalAttempts := 1,
     unreleased := [LoginSlot [97] ''10.0.0.1'']\<rparr>"

lemma example_settles:
  "settleNext example_auth_env (Some True) EnrollThrew example_waiting =
     (Inr (Some example_result), example_settled)"
proof -
  let ?s = "example_auth\<lparr>observers := [0], next_observer := 1, pendingEstablishments := 1,
       pendingLocalAttempts := 1, unreleased := [LoginSlot [97] ''10.0.0.1'']\<rparr>"
  let ?t = "?s\<lparr>objects := [1 \<mapsto> example_stored], service_generation := 1,
       csrf_service := \<lparr>records = [(0, base64url (replicate 32 2))], next_record = 1\<rparr>, world := 3\<rparr>"
  have "commitSession example_auth_env (1, example_result) (Some ''10.0.0.1'') ?t =
      (Inr example_result, example_settled)"
    by (simp add: commitSession_def bind_apply gets_def example_now call_eq modify_def ret_def
        displaced_def applyCommit_def install_def stored_def example_auth_def example_settled_def
        example_session_def)
      (simp add: example_auth_env_def example_stored_def)
  then have "safeEstablish example_auth_env Local [97] None (Some ''10.0.0.1'') ?s =
      (Inr example_result, example_settled)"
    unfolding safeEstablish_def bind_apply catch_apply example_prepare [OF refl]
      example_result_def [symmetric] by simp
  then show ?thesis
    by (simp add: settleNext_def example_waiting_eq bind_apply gets_def modify_def
        completeLoginSlot_def ret_def example_auth_def)
qed

lemma example_login_run: "auth_run example_auth_env example_login example_auth = example_session"
proof -
  have "auth_run example_auth_env example_login example_auth =
      snd (releaseNext (snd (settleNext example_auth_env (Some True) EnrollThrew example_waiting)))"
    by (simp add: example_login_def auth_run_def example_waiting_def)
  then show ?thesis
    by (simp add: example_settles releaseNext_def modify_def example_settled_def example_session_def
        example_auth_def)
qed

theorem auth_maps_consistent_witness:
  "\<exists>x. objects example_session 1 = Some x \<and> stored_id x = base64url (replicate 16 1) \<and>
     stored_generation x = 1 \<and> jm_get (byDigest example_session) (digest x) = Some 1 \<and>
     idleExpiresAt x \<le> absoluteExpiresAt x"
proof -
  have "jm_get (byId example_session) (base64url (replicate 16 1)) = Some 1"
    by (simp add: example_session_def example_auth_def)
  with auth_maps_consistent [OF example_auth_make example_login_run [symmetric]] show ?thesis by blast
qed

lemma example_cookie_lookup:
  "authenticateCookie example_auth_env (Some (base64url (replicate 32 0))) example_session =
   (Inr (Some (view example_stored)), example_session)"
proof -
  have none: "expiredReasonAt example_stored 3 = None"
    by (simp add: expiredReasonAt_None example_stored_def)
  have "sha256 example_auth_env c = c" for c by (simp add: example_auth_env_def)
  with none show ?thesis
    by (simp add: authenticateCookie_def lookupCookie_def token_pattern_base64url
      bind_apply gets_def ret_def unexpired_def expiredReason_def example_now stored_def)
     (simp add: example_session_def em_simps example_now stored_def)
qed

theorem cookie_authenticates_unexpired_witness:
  "\<exists>r x now w'. jm_get (byDigest example_session) (sha256 example_auth_env (base64url (replicate 32 0))) = Some r \<and>
     objects example_session r = Some x \<and> view example_stored = view x \<and>
     clock example_auth_env (world example_session) = (Num now, w') \<and>
     now < idleExpiresAt x \<and> now < absoluteExpiresAt x \<and>
     (case upstreamExpiresAt x of None \<Rightarrow> True | Some e \<Rightarrow> now < e) \<and>
     byId example_session = byId example_session \<and> byDigest example_session = byDigest example_session \<and>
     objects example_session = objects example_session"
  by (rule cookie_authenticates_unexpired [OF example_auth_make example_login_run [symmetric] example_cookie_lookup])

theorem revoked_stays_revoked_witness:
  "fst (isActiveAuthority example_auth_env (base64url (replicate 16 1)) 1
     (auth_run example_auth_env [SweepExpired]
       (auth_run example_auth_env (example_login @ [LogoutSession (base64url (replicate 16 1))])
         example_auth))) \<noteq> Inr True"
proof (rule revoked_stays_revoked [OF example_auth_make refl])
  let ?t = "auth_run example_auth_env (example_login @ [LogoutSession (base64url (replicate 16 1))]) example_auth"
  have t: "?t = snd (logout (base64url (replicate 16 1)) example_session)"
    using example_login_run by (simp add: auth_run_def)
  show "1 \<le> service_generation ?t" "1 \<notin> live ?t"
    unfolding t
    by (simp_all add: logout_def em_simps revoke_def revoke_session_def remove_session_def stored_def
        example_session_def example_stored_def example_auth_def live_def)
qed

theorem session_needs_proof_witness:
  "\<exists>v en x xs. Settle (Some True) EnrollThrew = Settle v en \<and>
     establishmentQueue example_waiting = x # xs \<and> entitled example_waiting v en x"
proof (rule session_needs_proof [OF example_auth_make example_waiting_def, of 1])
  show "1 \<in> live (auth_step example_auth_env (Settle (Some True) EnrollThrew) example_waiting)"
    by (simp add: example_settles live_def example_settled_def example_session_def)
  show "1 \<notin> live example_waiting"
    by (simp add: example_waiting_eq live_def example_auth_def)
qed

theorem established_cookie_authenticates_witness:
  "fst (authenticateCookie example_auth_env (Some (base64url (replicate 32 0)))
     (auth_run example_auth_env [Subscribe] example_settled)) = Inr (Some (view example_stored))"
proof -
  let ?t = "auth_run example_auth_env [Subscribe] example_settled"
  have "cookieValue example_result = Some (base64url (replicate 32 0))" by (simp add: example_result_def)
  from established_cookie_authenticates [OF example_auth_make example_waiting_def example_settles this]
  obtain r where r: "r \<in> live example_settled"
    "\<And>es' now w'. r \<in> live (auth_run example_auth_env es' example_settled) \<Longrightarrow>
       clock example_auth_env (world (auth_run example_auth_env es' example_settled)) = (Num now, w') \<Longrightarrow>
       expiredReasonAt (stored (auth_run example_auth_env es' example_settled) r) now = None \<Longrightarrow>
       fst (authenticateCookie example_auth_env (Some (base64url (replicate 32 0)))
         (auth_run example_auth_env es' example_settled)) = Inr (Some (view (stored (auth_run example_auth_env es' example_settled) r)))"
    by blast
  have t: "live ?t = {1}" "world ?t = 3" "stored ?t 1 = example_stored" "live example_settled = {1}"
    by (auto simp: auth_run_def onRevoked_def em_simps modify_def example_settled_def example_session_def example_auth_def live_def stored_def)
  have "expiredReasonAt example_stored 3 = None" by (simp add: expiredReasonAt_None example_stored_def)
  then show ?thesis using r(2) [of "[Subscribe]" 3 3] r(1) t by (simp add: example_auth_env_def)
qed

subsection \<open>Announcements\<close>

lemma revoke_session_effect:
  assumes inv: "auth_inv s" and r: "r \<in> live s"
  shows "notified (revoke_session r x s) =
      notified s @ map (\<lambda>ob. (ob, stored_id (stored s r), x)) (observers s)"
    "observers (revoke_session r x s) = observers s"
    "stored_id (stored (revoke_session r x s) k) = stored_id (stored s k)"
proof -
  have m: "maps_ok s" using inv by (simp add: auth_inv_def)
  obtain t where t: "remove_session r s = (True, t)"
    and f: "observers t = observers s" "notified t = notified s"
    by (rule remove_session_live [OF m r])
  note id = remove_session_ok(4) [OF inv r t, of k]
  from t f id show "notified (revoke_session r x s) =
      notified s @ map (\<lambda>ob. (ob, stored_id (stored s r), x)) (observers s)"
    "observers (revoke_session r x s) = observers s"
    "stored_id (stored (revoke_session r x s) k) = stored_id (stored s k)"
    by (simp_all add: revoke_session_def)
qed

lemma revoke_list_notified:
  assumes "auth_inv s" "set rs \<subseteq> live s" "distinct rs" "x \<noteq> Absolute"
  shows "notified (fold (\<lambda>r. revoke_session r x) rs s) =
    notified s @ concat (map (\<lambda>r. map (\<lambda>ob. (ob, stored_id (stored s r), x)) (observers s)) rs)"
  using assms
proof (induction rs arbitrary: s)
  case (Cons r rs)
  have r: "r \<in> live s" using Cons.prems(2) by simp
  note ok = revoke_session_ok [OF Cons.prems(1) r Cons.prems(4)]
  have "notified (fold (\<lambda>r. revoke_session r x) rs (revoke_session r x s)) =
      notified (revoke_session r x s) @ concat (map (\<lambda>k. map (\<lambda>ob.
        (ob, stored_id (stored (revoke_session r x s) k), x)) (observers (revoke_session r x s))) rs)"
    by (rule Cons.IH) (use ok Cons.prems in auto)
  then show ?case by (simp add: revoke_session_effect [OF Cons.prems(1) r])
qed simp

lemma no_live: "auth_inv s \<Longrightarrow> live s = {} \<Longrightarrow> byId s = [] \<and> byDigest s = []"
proof -
  assume inv: "auth_inv s" and none: "live s = {}"
  have "byId s = []"
  proof (cases "byId s")
    case (Cons p xs)
    then have "jm_get (byId s) (fst p) = Some (snd p)" by (cases p) simp
    with live_get none show ?thesis by blast
  qed simp
  moreover have "byDigest s = []"
  proof (cases "byDigest s")
    case (Cons p xs)
    then have "jm_get (byDigest s) (fst p) = Some (snd p)" by (cases p) simp
    with live_digest [OF inv] none show ?thesis by blast
  qed simp
  ultimately show ?thesis by simp
qed

text \<open>
  C26. A committed password change ends every session: the operation answers true, both maps are empty,
  no cookie authenticates any more, and every observer has been told about every session with the
  reason that the password changed.
\<close>

theorem password_change_revokes_all:
  assumes "make_auth E m u cb i a n ob w = Some s0" and "s = auth_run E es s0"
    and "passwordChange s = AwaitReplace" and "changePassword_replaced (Some True) s = (res, t)"
  shows "res = Inr (Some True) \<and> byId t = [] \<and> byDigest t = [] \<and>
    fst (authenticateCookie E c t) = Inr None \<and>
    (\<forall>k \<in> set (jm_keys (byId s)). \<forall>o' \<in> set (observers s). (o', k, PasswordChanged) \<in> set (notified t))"
proof -
  note inv = reachable_inv(1) [OF assms(1,2)]
  define s1 where "s1 = s\<lparr>passwordChange := ChangeSettled\<rparr>"
  have same: "same_sessions s s1" by (simp add: s1_def same_sessions_def)
  have inv1: "auth_inv s1" using same_sessions_ok [OF same inv] by simp
  then have m: "maps_ok s1" by (simp add: auth_inv_def)
  have t: "res = Inr (Some True)" "t = revoke_all PasswordChanged s1"
    using assms(3,4) by (auto simp: changePassword_replaced_def em_simps s1_def)
  note all = revoke_all_ok [OF inv1, of PasswordChanged]
  have empty: "byId t = [] \<and> byDigest t = []" using no_live all t(2) by auto
  then have "fst (authenticateCookie E c t) = Inr None"
    by (cases c) (auto simp: authenticateCookie_def lookupCookie_def em_simps)
  moreover have "(o', k, PasswordChanged) \<in> set (notified t)"
    if k: "k \<in> set (jm_keys (byId s))" and o: "o' \<in> set (observers s)" for k o'
  proof -
    have "k \<in> set (jm_keys (byId s1))" "o' \<in> set (observers s1)" using k o by (simp_all add: s1_def)
    then obtain r where r: "(k, r) \<in> set (byId s1)" by auto
    then have "stored_id (stored s1 r) = k" using m by (auto simp: maps_ok_def jm_get_in)
    moreover have "notified t = notified s1 @ concat (map (\<lambda>r. map (\<lambda>ob.
        (ob, stored_id (stored s1 r), PasswordChanged)) (observers s1)) (map snd (byId s1)))"
      unfolding t(2) revoke_all_def by (rule revoke_list_notified [OF inv1]) (use byId_refs [OF m] in auto)
    ultimately show ?thesis
      using \<open>o' \<in> set (observers s1)\<close> r by (fastforce simp: image_iff)
  qed
  ultimately show ?thesis using t(1) empty by blast
qed

theorem password_change_revokes_all_witness:
  "passwordChange (auth_run example_auth_env (example_login @
     [ChangeBegin (base64url (replicate 16 1)), ChangeVerified (Some True)]) example_auth) = AwaitReplace \<and>
   byId (snd (changePassword_replaced (Some True) (auth_run example_auth_env (example_login @
     [ChangeBegin (base64url (replicate 16 1)), ChangeVerified (Some True)]) example_auth))) = []"
proof -
  let ?es = "[ChangeBegin (base64url (replicate 16 1)), ChangeVerified (Some True)]"
  let ?t = "auth_run example_auth_env (example_login @ ?es) example_auth"
  have "?t = auth_run example_auth_env ?es example_session"
    using example_login_run by (simp add: auth_run_def)
  also have "passwordChange \<dots> = AwaitReplace"
    by (simp add: auth_run_def changePassword_begin_def changePassword_verified_def change_check_def
        unexpired_def expiredReason_def example_now em_simps example_session_def stored_def
        example_auth_def expiredReasonAt_None example_stored_def expiredReasonAt_def stable_sort_def)
  finally have p: "passwordChange ?t = AwaitReplace" .
  from password_change_revokes_all [OF example_auth_make refl p surjective_pairing] p show ?thesis by blast
qed

text \<open>
  No session ends unannounced: whenever a step removes a session, every observer subscribed at that
  moment is notified of that session's id during the step.
\<close>

theorem removal_announced:
  assumes "make_auth E m u cb i a n ob w = Some s0" and "s = auth_run E es s0"
    and "r \<in> live s" and "r \<notin> live (auth_step E e s)" and "o' \<in> set (observers s)"
  shows "\<exists>entries x. notified (auth_step E e s) = notified s @ entries \<and>
    (o', stored_id (stored s r), x) \<in> set entries"
proof -
  note inv = reachable_inv(1) [OF assms(1,2)]
  have sub: "\<not> subscription e"
    using assms(3,4) inv_cong(2) [of "auth_step E e s" s] auth_step_subscription [of e E s] by metis
  have "objects s r \<noteq> None" using live_stored(1) [OF _ assms(3)] inv by (simp add: auth_inv_def)
  with auth_step_ok [OF inv sub, of E] assms(3-5) show ?thesis
    unfolding auth_rel_def by blast
qed

theorem removal_announced_witness:
  "\<exists>entries x. notified (auth_step example_auth_env (LogoutSession (base64url (replicate 16 1)))
       example_session) = notified example_session @ entries \<and>
     (0, stored_id (stored example_session 1), x) \<in> set entries"
proof (rule removal_announced [OF example_auth_make example_login_run [symmetric]])
  show "1 \<in> live example_session" "0 \<in> set (observers example_session)"
    by (simp_all add: example_session_def live_def)
  show "1 \<notin> live (auth_step example_auth_env (LogoutSession (base64url (replicate 16 1))) example_session)"
    by (simp add: logout_def em_simps revoke_def revoke_session_def remove_session_def stored_def
        example_session_def example_stored_def example_auth_def live_def)
qed

text \<open>
  The revocation reason for the absolute deadline is never reported: in every reachable state no
  observer has been notified with it, because the idle deadline is capped by the absolute one and wins
  ties.
\<close>

theorem absolute_never_reported:
  assumes "make_auth E m u cb i a n ob w = Some s0" and "s = auth_run E es s0"
  shows "\<forall>e \<in> set (notified s). snd (snd e) \<noteq> Absolute"
proof -
  have step: "\<forall>e' \<in> set (notified (auth_step E e t)). snd (snd e') \<noteq> Absolute"
    if "auth_inv t" "\<forall>e' \<in> set (notified t). snd (snd e') \<noteq> Absolute" for t e
  proof (cases "subscription e")
    case True
    then have "notified (auth_step E e t) = notified t"
      by (cases e) (simp_all add: onRevoked_def unsubscribe_def modify_def)
    with that show ?thesis by simp
  next
    case False
    from auth_step_ok [OF that(1) False, of E] obtain entries
      where "notified (auth_step E e t) = notified t @ entries" "\<forall>e \<in> set entries. snd (snd e) \<noteq> Absolute"
      unfolding auth_rel_def by blast
    with that(2) show ?thesis by (metis Un_iff set_append)
  qed
  have "\<forall>e \<in> set (notified (auth_run E es t)). snd (snd e) \<noteq> Absolute"
    if "auth_inv t" "\<forall>e \<in> set (notified t). snd (snd e) \<noteq> Absolute" for t
    unfolding auth_run_def using that
    by (induction es arbitrary: t) (auto dest: step conjunct1 [OF auth_step_inv])
  moreover have "notified s0 = []"
    using assms(1) by (auto simp: make_auth_def Let_def split: jsnum.splits if_splits option.splits)
  ultimately show ?thesis using make_auth_inv(1) [OF assms(1)] assms(2) by simp
qed

text \<open>
  The establishment queue is bounded and its counters are exact: the number of reserved
  establishments equals the number of operations queued or not yet released, the number of pending
  local attempts equals the local ones among them, and neither exceeds its limit.
\<close>

theorem pending_bounded:
  assumes "make_auth E m u cb i a n ob w = Some s0" and "s = auth_run E es s0"
  shows "pendingEstablishments s = int (length (establishmentQueue s @ unreleased s)) \<and>
    pendingLocalAttempts s = int (length (filter local_slot (establishmentQueue s @ unreleased s))) \<and>
    pendingEstablishments s \<le> int (maxPendingEstablishments s) \<and>
    pendingLocalAttempts s \<le> int (maxSessions s)"
  using auth_run_counters [OF make_auth_counters [OF assms(1)], of E es]
  by (simp add: assms(2) counters_ok_def slots_def)

theorem pending_bounded_witness:
  "pendingEstablishments example_waiting =
     int (length (establishmentQueue example_waiting @ unreleased example_waiting))"
  using pending_bounded [OF example_auth_make example_waiting_def] by blast

end
