(* ===== verification/TabDocument.thy ===== *)
theory TabDocument
  imports SessionId
begin

text \<open>
  Validated text and the persisted tab document: \<open>packages/shared/src/safe-string.ts\<close> and the
  schemas of \<open>packages/shared/src/tabs.ts\<close>. A string is the list of its code points. Unicode data the
  sources do not contain (the category of format controls, normalisation form NFC) and the validator
  of UTC timestamps, which belongs to zod, are parameters collected in \<open>text_env\<close>. Parsing a document
  returns the document with its names normalised, or nothing.
\<close>

section \<open>Safe strings\<close>

type_synonym utext = "nat list"

record text_env =
  format_control :: "nat \<Rightarrow> bool"
  nfc_form :: "utext \<Rightarrow> utext"
  utc_timestamp :: "string \<Rightarrow> bool"

text \<open>The categories Cc, Cs, Zl and Zp.\<close>

definition forbiddenCharacter :: "nat \<Rightarrow> bool" where
  "forbiddenCharacter c \<longleftrightarrow>
     c < 32 \<or> 127 \<le> c \<and> c < 160 \<or> 0xD800 \<le> c \<and> c < 0xE000 \<or> c = 0x2028 \<or> c = 0x2029"

text \<open>The white space and line terminators \<open>String.prototype.trim\<close> removes.\<close>

definition white_space :: "nat \<Rightarrow> bool" where
  "white_space c \<longleftrightarrow>
     9 \<le> c \<and> c \<le> 13 \<or> c = 32 \<or> c = 160 \<or> c = 0x1680 \<or> 0x2000 \<le> c \<and> c \<le> 0x200A \<or>
     c = 0x2028 \<or> c = 0x2029 \<or> c = 0x202F \<or> c = 0x205F \<or> c = 0x3000 \<or> c = 0xFEFF"

definition js_trim :: "utext \<Rightarrow> utext" where
  "js_trim s = rev (dropWhile white_space (rev (dropWhile white_space s)))"

definition utf8ByteLength :: "utext \<Rightarrow> nat" where
  "utf8ByteLength s =
     sum_list (map (\<lambda>c. if c < 128 then 1 else if c < 2048 then 2 else if c < 65536 then 3 else 4) s)"

definition safe_character :: "text_env \<Rightarrow> bool \<Rightarrow> nat \<Rightarrow> bool" where
  "safe_character U joins c \<longleftrightarrow>
     \<not> forbiddenCharacter c \<and> (\<not> format_control U c \<or> joins \<and> (c = 0x200C \<or> c = 0x200D))"

definition safeNormalizedString ::
  "text_env \<Rightarrow> nat option \<Rightarrow> bool \<Rightarrow> bool \<Rightarrow> utext \<Rightarrow> utext option"
where
  "safeNormalizedString U maxBytes trim joins v =
     (if \<not> list_all (safe_character U joins) v then None
      else let n = nfc_form U (if trim then js_trim v else v)
           in if utf8ByteLength n < 1 then None
              else case maxBytes of
                     None \<Rightarrow> Some n
                   | Some m \<Rightarrow> if utf8ByteLength n \<le> m then Some n else None)"

section \<open>Tab records\<close>

datatype DesiredState = Active | Stopped

record TabRecord =
  tab_id :: string
  displayName :: utext
  position :: nat
  tab_createdAt :: string
  lastActivityAt :: string
  desiredState :: DesiredState

record TabDocument =
  structureRevision :: nat
  tabs :: "TabRecord list"

definition persistedDisplayName :: "text_env \<Rightarrow> utext \<Rightarrow> utext option" where
  "persistedDisplayName U v =
     (case safeNormalizedString U None True True v of
        None \<Rightarrow> None
      | Some n \<Rightarrow> if 1 \<le> length n \<and> length n \<le> 80 then Some n else None)"

definition displayNameSchema :: "text_env \<Rightarrow> utext \<Rightarrow> utext option" where
  "displayNameSchema U v =
     (case persistedDisplayName U v of
        None \<Rightarrow> None
      | Some n \<Rightarrow> if utf8ByteLength n \<le> 128 then Some n else None)"

definition parseTab :: "text_env \<Rightarrow> TabRecord \<Rightarrow> TabRecord option" where
  "parseTab U t =
     (if isSessionId (tab_id t) \<and> safe_int (int (position t)) \<and> utc_timestamp U (tab_createdAt t) \<and>
         utc_timestamp U (lastActivityAt t)
      then case persistedDisplayName U (displayName t) of
             None \<Rightarrow> None
           | Some n \<Rightarrow> Some (t\<lparr>displayName := n\<rparr>)
      else None)"

fun parseTabs :: "text_env \<Rightarrow> TabRecord list \<Rightarrow> TabRecord list option" where
  "parseTabs U [] = Some []"
| "parseTabs U (t # ts) =
     (case parseTab U t of
        None \<Rightarrow> None
      | Some p \<Rightarrow> (case parseTabs U ts of None \<Rightarrow> None | Some ps \<Rightarrow> Some (p # ps)))"

text \<open>
  \<open>superRefine\<close>: no id twice, no position twice, and every position is its index. An issue raised
  anywhere makes the parse fail.
\<close>

fun ordered_unique :: "nat \<Rightarrow> string list \<Rightarrow> nat list \<Rightarrow> TabRecord list \<Rightarrow> bool" where
  "ordered_unique index ids positions [] = True"
| "ordered_unique index ids positions (t # ts) =
     (tab_id t \<notin> set ids \<and> position t \<notin> set positions \<and> position t = index \<and>
      ordered_unique (Suc index) (tab_id t # ids) (position t # positions) ts)"

definition parseDocument :: "text_env \<Rightarrow> TabDocument \<Rightarrow> TabDocument option" where
  "parseDocument U d =
     (if \<not> safe_int (int (structureRevision d)) then None
      else case parseTabs U (tabs d) of
             None \<Rightarrow> None
           | Some ts \<Rightarrow>
               if ordered_unique 0 [] [] ts
               then Some \<lparr>structureRevision = structureRevision d, tabs = ts\<rparr> else None)"

section \<open>What a parsed document satisfies\<close>

definition tabs_ok :: "TabRecord list \<Rightarrow> bool" where
  "tabs_ok ts \<longleftrightarrow> distinct (map tab_id ts) \<and> map position ts = [0..<length ts]"

definition document_ok :: "text_env \<Rightarrow> TabDocument \<Rightarrow> bool" where
  "document_ok U d \<longleftrightarrow>
     tabs_ok (tabs d) \<and> safe_int (int (structureRevision d)) \<and>
     (\<forall>t \<in> set (tabs d). isSessionId (tab_id t) \<and> 1 \<le> length (displayName t) \<and>
        length (displayName t) \<le> 80 \<and> utc_timestamp U (tab_createdAt t) \<and>
        utc_timestamp U (lastActivityAt t))"

lemma ordered_unique_iff:
  "ordered_unique k ids ps ts \<longleftrightarrow>
     map position ts = [k..<k + length ts] \<and> distinct (map tab_id ts) \<and>
     set ids \<inter> tab_id ` set ts = {} \<and> set ps \<inter> {k..<k + length ts} = {}"
proof (induction ts arbitrary: k ids ps)
  case (Cons t ts)
  have upt: "[k..<k + length (t # ts)] = k # [Suc k..<Suc k + length ts]"
    by (subst upt_conv_Cons) simp_all
  have range: "{k..<k + length (t # ts)} = insert k {Suc k..<Suc k + length ts}" by auto
  show ?case
    unfolding ordered_unique.simps Cons.IH list.map upt range list.inject
    by auto
qed simp

lemma ordered_unique_ok: "ordered_unique 0 [] [] ts \<longleftrightarrow> tabs_ok ts"
  by (auto simp: ordered_unique_iff tabs_ok_def)

lemma parseTab_Some:
  assumes "parseTab U t = Some p"
  shows "persistedDisplayName U (displayName t) = Some (displayName p)" "p = t\<lparr>displayName := displayName p\<rparr>"
    "isSessionId (tab_id p)" "utc_timestamp U (tab_createdAt p)" "utc_timestamp U (lastActivityAt p)"
    "1 \<le> length (displayName p)" "length (displayName p) \<le> 80" "tab_id p = tab_id t"
    "position p = position t"
  using assms
  by (auto simp: parseTab_def persistedDisplayName_def split: if_splits option.splits)

lemma parseTabs_Some:
  "parseTabs U ts = Some ps \<longleftrightarrow> list_all2 (\<lambda>t p. parseTab U t = Some p) ts ps"
proof (induction ts arbitrary: ps)
  case Nil
  then show ?case by (cases ps) auto
next
  case (Cons t ts)
  show ?case
  proof (cases ps)
    case Nil
    then show ?thesis by (auto split: option.splits)
  next
    case (Cons p ps')
    with Cons.IH [of ps'] show ?thesis by (auto split: option.splits)
  qed
qed

lemma parseTabs_keys:
  assumes "parseTabs U ts = Some ps"
  shows "length ps = length ts" "map tab_id ps = map tab_id ts" "map position ps = map position ts"
proof -
  have all: "list_all2 (\<lambda>t p. parseTab U t = Some p) ts ps" using assms by (simp add: parseTabs_Some)
  then show "length ps = length ts" by (simp add: list_all2_lengthD)
  show "map tab_id ps = map tab_id ts" "map position ps = map position ts"
    using all by (induction rule: list_all2_induct) (auto dest: parseTab_Some)
qed

lemma parseDocument_Some:
  assumes "parseDocument U d = Some e"
  shows "document_ok U e" "structureRevision e = structureRevision d"
    "map tab_id (tabs e) = map tab_id (tabs d)" "length (tabs e) = length (tabs d)"
    "list_all2 (\<lambda>t p. parseTab U t = Some p) (tabs d) (tabs e)"
proof -
  obtain ts where ts: "parseTabs U (tabs d) = Some ts" "ordered_unique 0 [] [] ts"
    "e = \<lparr>structureRevision = structureRevision d, tabs = ts\<rparr>" "safe_int (int (structureRevision d))"
    using assms by (auto simp: parseDocument_def split: if_splits option.splits)
  then have all: "list_all2 (\<lambda>t p. parseTab U t = Some p) (tabs d) ts" by (simp add: parseTabs_Some)
  show "structureRevision e = structureRevision d" "map tab_id (tabs e) = map tab_id (tabs d)"
    "length (tabs e) = length (tabs d)" "list_all2 (\<lambda>t p. parseTab U t = Some p) (tabs d) (tabs e)"
    using ts parseTabs_keys [OF ts(1)] all by simp_all
  have "isSessionId (tab_id p) \<and> 1 \<le> length (displayName p) \<and> length (displayName p) \<le> 80 \<and>
      utc_timestamp U (tab_createdAt p) \<and> utc_timestamp U (lastActivityAt p)" if "p \<in> set ts" for p
  proof -
    obtain k where k: "k < length ts" "ts ! k = p" using \<open>p \<in> set ts\<close> by (auto simp: in_set_conv_nth)
    then have "parseTab U (tabs d ! k) = Some p" using all by (auto simp: list_all2_conv_all_nth)
    from parseTab_Some [OF this] show ?thesis by simp
  qed
  then show "document_ok U e" using ts by (simp add: document_ok_def ordered_unique_ok)
qed

section \<open>Normalisation is stable\<close>

text \<open>
  Documented properties of NFC (Unicode Standard Annex 15): it is idempotent, it does not expose new
  white space at the ends of a trimmed string, and it maps allowed characters to allowed characters.
\<close>

definition unicode_ok :: "text_env \<Rightarrow> bool" where
  "unicode_ok U \<longleftrightarrow>
     (\<forall>s. nfc_form U (nfc_form U s) = nfc_form U s) \<and>
     (\<forall>s. js_trim (nfc_form U (js_trim s)) = nfc_form U (js_trim s)) \<and>
     (\<forall>s. list_all (safe_character U True) s \<longrightarrow> list_all (safe_character U True) (nfc_form U s))"

lemma js_trim_safe: "list_all P s \<Longrightarrow> list_all P (js_trim s)"
  by (auto simp: js_trim_def list_all_iff dest!: set_dropWhileD)

lemma name_stable:
  assumes "unicode_ok U" "persistedDisplayName U v = Some n"
  shows "persistedDisplayName U n = Some n"
proof -
  have v: "list_all (safe_character U True) v" "n = nfc_form U (js_trim v)" "\<not> utf8ByteLength n < 1"
    "1 \<le> length n" "length n \<le> 80"
    using assms(2)
    by (auto simp: persistedDisplayName_def safeNormalizedString_def Let_def split: if_splits option.splits)
  then have "list_all (safe_character U True) n" "js_trim n = n" "nfc_form U n = n"
    using assms(1) js_trim_safe [OF v(1)] by (auto simp: unicode_ok_def)
  then show ?thesis using v by (simp add: persistedDisplayName_def safeNormalizedString_def Let_def)
qed

lemma parseTab_stable: "unicode_ok U \<Longrightarrow> parseTab U t = Some p \<Longrightarrow> parseTab U p = Some p"
  using name_stable [of U "displayName t"]
  by (auto simp: parseTab_def split: if_splits option.splits)

lemma parseDocument_stable:
  assumes "unicode_ok U" "parseDocument U d = Some e"
  shows "parseDocument U e = Some e"
proof -
  note p = parseDocument_Some [OF assms(2)]
  have "list_all2 (\<lambda>t p. parseTab U t = Some p) (tabs e) (tabs e)"
    using p(5) parseTab_stable [OF assms(1)] unfolding list_all2_conv_all_nth by metis
  then have "parseTabs U (tabs e) = Some (tabs e)" by (simp add: parseTabs_Some)
  with p(1) show ?thesis by (simp add: parseDocument_def document_ok_def ordered_unique_ok)
qed

end
