(* ===== verification/DocumentCodec.thy ===== *)
theory DocumentCodec
  imports TabDocument
begin

text \<open>
  A concrete instance of the parameters of the tab store: a prefix code for tab documents with its
  decoder, and the identity as normalisation. It serves as the example environment in which the
  hypotheses about \<open>JSON\<close> and Unicode hold.
\<close>

section \<open>A prefix code\<close>

definition put_nat :: "nat \<Rightarrow> string" where
  "put_nat n = replicate n (CHR ''1'') @ ''0''"

definition get_nat :: "string \<Rightarrow> nat \<times> string" where
  "get_nat s = (length (takeWhile (\<lambda>c. c = CHR ''1'') s), tl (dropWhile (\<lambda>c. c = CHR ''1'') s))"

fun get_many :: "(string \<Rightarrow> 'a \<times> string) \<Rightarrow> nat \<Rightarrow> string \<Rightarrow> 'a list \<times> string" where
  "get_many g 0 s = ([], s)"
| "get_many g (Suc n) s = (let (x, r) = g s; (xs, q) = get_many g n r in (x # xs, q))"

definition put_list :: "('a \<Rightarrow> string) \<Rightarrow> 'a list \<Rightarrow> string" where
  "put_list p xs = put_nat (length xs) @ concat (map p xs)"

definition get_list :: "(string \<Rightarrow> 'a \<times> string) \<Rightarrow> string \<Rightarrow> 'a list \<times> string" where
  "get_list g s = (let (n, r) = get_nat s in get_many g n r)"

definition put_string :: "string \<Rightarrow> string" where
  "put_string s = put_list (\<lambda>c. [c]) s"

definition get_string :: "string \<Rightarrow> string \<times> string" where
  "get_string = get_list (\<lambda>s. (hd s, tl s))"

definition put_tab :: "TabRecord \<Rightarrow> string" where
  "put_tab t = put_string (tab_id t) @ put_list put_nat (displayName t) @ put_nat (position t) @
     put_string (tab_createdAt t) @ put_string (lastActivityAt t) @
     put_nat (case desiredState t of Active \<Rightarrow> 0 | Stopped \<Rightarrow> 1)"

definition get_tab :: "string \<Rightarrow> TabRecord \<times> string" where
  "get_tab s =
     (let (i, s1) = get_string s; (n, s2) = get_list get_nat s1; (p, s3) = get_nat s2;
          (c, s4) = get_string s3; (a, s5) = get_string s4; (d, s6) = get_nat s5
      in (\<lparr>tab_id = i, displayName = n, position = p, tab_createdAt = c, lastActivityAt = a,
           desiredState = (if d = 0 then Active else Stopped)\<rparr>, s6))"

definition put_document :: "TabDocument \<Rightarrow> string" where
  "put_document d = put_nat (structureRevision d) @ put_list put_tab (tabs d)"

definition get_document :: "string \<Rightarrow> TabDocument option" where
  "get_document s =
     (let (v, r) = get_nat s; (ts, q) = get_list get_tab r
      in Some \<lparr>structureRevision = v, tabs = ts\<rparr>)"

lemma get_put_nat [simp]: "get_nat (put_nat n @ r) = (n, r)"
  by (induction n) (auto simp: get_nat_def put_nat_def)

lemma get_put_many:
  "(\<And>x r. g (p x @ r) = (x, r)) \<Longrightarrow> get_many g (length xs) (concat (map p xs) @ r) = (xs, r)"
  by (induction xs) auto

lemma get_put_list: "(\<And>x r. g (p x @ r) = (x, r)) \<Longrightarrow> get_list g (put_list p xs @ r) = (xs, r)"
  by (simp add: get_list_def put_list_def get_put_many)

lemma get_put_string [simp]: "get_string (put_string s @ r) = (s, r)"
  unfolding get_string_def put_string_def by (rule get_put_list) simp

lemma get_put_tab: "get_tab (put_tab t @ r) = (t, r)"
  by (cases "desiredState t") (simp_all add: get_tab_def put_tab_def get_put_list)

lemma get_put_document: "get_document (put_document d) = Some d"
  using get_put_list [of get_tab put_tab "tabs d" "[]"] get_put_tab
  by (simp add: get_document_def put_document_def)

section \<open>Plain text\<close>

definition plain_text :: text_env where
  "plain_text = \<lparr>format_control = (\<lambda>_. False), nfc_form = (\<lambda>s. s), utc_timestamp = (\<lambda>_. True)\<rparr>"

lemma dropWhile_last: "xs \<noteq> [] \<Longrightarrow> \<not> P (last xs) \<Longrightarrow> rev (dropWhile P (rev xs)) = xs"
  by (cases xs rule: rev_cases) auto

lemma js_trim_idem: "js_trim (js_trim s) = js_trim s"
proof -
  let ?a = "dropWhile white_space s"
  let ?b = "rev (dropWhile white_space (rev ?a))"
  show ?thesis
  proof (cases "?b = []")
    case True
    then show ?thesis unfolding js_trim_def True by simp
  next
    case False
    have "\<exists>xs. rev ?a = xs @ rev ?b"
      by (intro exI [of _ "takeWhile white_space (rev ?a)"]) simp
    then obtain xs where xs: "?a = ?b @ rev xs" by (metis rev_append rev_rev_ident)
    with False have "hd ?b = hd ?a" "?a \<noteq> []" by (metis hd_append2, force)
    then have "\<not> white_space (hd ?b)" using hd_dropWhile by metis
    with False have lead: "dropWhile white_space ?b = ?b" by (cases ?b) auto
    have "dropWhile white_space (rev ?a) \<noteq> []" using False by simp
    from hd_dropWhile [OF this] have "\<not> white_space (last ?b)" by (simp add: last_rev)
    with False have "rev (dropWhile white_space (rev ?b)) = ?b" by (rule dropWhile_last)
    with lead show ?thesis unfolding js_trim_def by simp
  qed
qed

lemma plain_text_ok: "unicode_ok plain_text"
  by (simp add: unicode_ok_def plain_text_def js_trim_idem)

end
