(* ===== verification/TabStore.thy ===== *)
theory TabStore
  imports DocumentCodec Frames Generations
begin

text \<open>
  The persistent tab store (\<open>apps/server/src/tab-store.ts\<close>). The data directory is modelled as the
  content of the primary file and the temporary files beside it; every file-system call consumes the
  next element of a script, which lets it succeed, fail with an error code, or (for a write) fail after
  part of the data reached the file. The mutation queue runs one operation at a time, so an operation
  is a program in the exception-and-state monad. Serialisation (\<open>JSON\<close>, UTF-8), identifiers and the
  clock are parameters. The invariant says that memory and disk agree.
\<close>

section \<open>State\<close>

datatype syscall = Succeeds | Fails string | FailsAfter string string | ShortRead nat

datatype store_error =
    NotInitialized | AlreadyInitializedStore | TabNotFound | SessionLimit | OrderConflict
  | InvalidDocument | DocumentTooLarge | NoTemporaryFile | SchemaViolation | SystemError string

datatype dirent = Regular string | Symlink

record TabStore =
  sessionMaxCount :: nat
  document :: "TabDocument option"
  ready :: bool
  durability_events :: nat
  primary :: "string option"
  temporaries :: "(string, dirent) jsmap"
  script :: "syscall list"
  uuids :: nat

record store_env =
  text_rules :: text_env
  serialize :: "TabDocument \<Rightarrow> string"
  deserialize :: "string \<Rightarrow> TabDocument option"
  store_now :: "nat \<Rightarrow> string"
  randomUUID :: "nat \<Rightarrow> string"

type_synonym 'a store = "(TabStore, store_error, 'a) em"

definition MAX_DOCUMENT_BYTES :: nat where
  "MAX_DOCUMENT_BYTES = 65536"

definition new_store :: "nat \<Rightarrow> string option \<Rightarrow> (string, dirent) jsmap \<Rightarrow> syscall list \<Rightarrow> TabStore" where
  "new_store n p ts sc = \<lparr>sessionMaxCount = n, document = None, ready = False, durability_events = 0,
     primary = p, temporaries = ts, script = sc, uuids = 0\<rparr>"

section \<open>File system\<close>

definition next_syscall :: "syscall store" where
  "next_syscall = (\<lambda>s. case script s of [] \<Rightarrow> (Inr Succeeds, s) | x # xs \<Rightarrow> (Inr x, s\<lparr>script := xs\<rparr>))"

definition sys :: "unit store" where
  "sys = bind next_syscall (\<lambda>r.
     case r of
       Fails c \<Rightarrow> throw (SystemError c)
     | FailsAfter _ c \<Rightarrow> throw (SystemError c)
     | _ \<Rightarrow> ret ())"

definition fs_open_temporary :: "string \<Rightarrow> unit store" where
  "fs_open_temporary path = bind sys (\<lambda>_ s.
     if jm_get (temporaries s) path \<noteq> None then (Inl (SystemError ''EEXIST''), s)
     else (Inr (), s\<lparr>temporaries := jm_set (temporaries s) path (Regular [])\<rparr>))"

definition fs_write :: "string \<Rightarrow> string \<Rightarrow> unit store" where
  "fs_write path data = bind next_syscall (\<lambda>r s.
     case r of
       Fails c \<Rightarrow> (Inl (SystemError c), s)
     | FailsAfter part c \<Rightarrow>
         (Inl (SystemError c), s\<lparr>temporaries := jm_set (temporaries s) path (Regular part)\<rparr>)
     | _ \<Rightarrow> (Inr (), s\<lparr>temporaries := jm_set (temporaries s) path (Regular data)\<rparr>))"

definition fs_rename :: "string \<Rightarrow> unit store" where
  "fs_rename path = bind sys (\<lambda>_ s.
     case jm_get (temporaries s) path of
       Some (Regular content) \<Rightarrow>
         (Inr (), s\<lparr>primary := Some content, temporaries := jm_delete (temporaries s) path\<rparr>)
     | _ \<Rightarrow> (Inl (SystemError ''ENOENT''), s))"

definition fs_unlink :: "string \<Rightarrow> unit store" where
  "fs_unlink path = bind sys (\<lambda>_. modify (\<lambda>s. s\<lparr>temporaries := jm_delete (temporaries s) path\<rparr>))"

definition ignore :: "'a store \<Rightarrow> unit store" where
  "ignore m = bind (attempt m) (\<lambda>_. ret ())"

section \<open>Private operations\<close>

definition requireDocument :: "TabDocument store" where
  "requireDocument = bind (gets document) (\<lambda>d.
     case d of None \<Rightarrow> throw NotInitialized | Some x \<Rightarrow> ret x)"

text \<open>At most eight attempts to create a temporary file whose name is not taken.\<close>

definition temporary_name :: "string \<Rightarrow> string" where
  "temporary_name u = ''tabs.json.tmp.'' @ u"

fun allocateTemporary :: "store_env \<Rightarrow> nat \<Rightarrow> string option store" where
  "allocateTemporary V 0 = ret None"
| "allocateTemporary V (Suc attempts) =
     bind (\<lambda>s. (Inr (temporary_name (randomUUID V (uuids s))), s\<lparr>uuids := Suc (uuids s)\<rparr>)) (\<lambda>path.
     bind (attempt (fs_open_temporary path)) (\<lambda>r.
       case r of
         Inr _ \<Rightarrow> ret (Some path)
       | Inl e \<Rightarrow> if e = SystemError ''EEXIST'' then allocateTemporary V attempts else throw e))"

text \<open>
  Writing, syncing and closing the temporary file; a failure closes the handle again and removes the
  file, whatever those two calls answer.
\<close>

definition writeTemporary :: "string \<Rightarrow> string \<Rightarrow> unit store" where
  "writeTemporary path data =
     catch (bind (fs_write path data) (\<lambda>_. bind sys (\<lambda>_. sys)))
       (\<lambda>e. bind (ignore sys) (\<lambda>_. bind (ignore (fs_unlink path)) (\<lambda>_. throw e)))"

definition publish :: "string \<Rightarrow> unit store" where
  "publish path =
     catch (fs_rename path) (\<lambda>e. bind (ignore (fs_unlink path)) (\<lambda>_. throw e))"

definition syncDirectory :: "unit store" where
  "syncDirectory = bind sys (\<lambda>_.
     bind (attempt sys) (\<lambda>synced.
     bind (attempt sys) (\<lambda>closed.
       case synced of
         Inl e \<Rightarrow> throw e
       | Inr _ \<Rightarrow> (case closed of Inl e \<Rightarrow> throw e | Inr _ \<Rightarrow> ret ()))))"

definition unsupported_sync :: "store_error \<Rightarrow> bool" where
  "unsupported_sync e \<longleftrightarrow> e \<in> {SystemError ''EINVAL'', SystemError ''ENOTSUP'', SystemError ''ENOSYS''}"

text \<open>The tail of \<open>persist\<close>, once a temporary file is open.\<close>

definition commit_to :: "store_env \<Rightarrow> TabDocument \<Rightarrow> string \<Rightarrow> unit store" where
  "commit_to V nxt path =
     bind (writeTemporary path (serialize V nxt)) (\<lambda>_.
     bind (publish path) (\<lambda>_.
     bind (modify (\<lambda>s. s\<lparr>document := Some nxt\<rparr>)) (\<lambda>_.
     bind (attempt syncDirectory) (\<lambda>r.
       modify (\<lambda>s. case r of
           Inr _ \<Rightarrow> s\<lparr>ready := True\<rparr>
         | Inl e \<Rightarrow> if unsupported_sync e then s\<lparr>ready := True\<rparr>
                   else s\<lparr>ready := False, durability_events := Suc (durability_events s)\<rparr>)))))"

definition persist :: "store_env \<Rightarrow> TabDocument \<Rightarrow> unit store" where
  "persist V candidate =
     (case parseDocument (text_rules V) candidate of
        None \<Rightarrow> throw SchemaViolation
      | Some nxt \<Rightarrow>
          if length (serialize V nxt) > MAX_DOCUMENT_BYTES then throw DocumentTooLarge
          else
            bind (allocateTemporary V 8) (\<lambda>temp.
              case temp of None \<Rightarrow> throw NoTemporaryFile | Some path \<Rightarrow> commit_to V nxt path))"

text \<open>
  The body of \<open>mutate\<close>: \<open>build\<close> decides from the current document; its result function runs on the
  state after the commit.
\<close>

definition mutate ::
  "store_env \<Rightarrow> (TabDocument \<Rightarrow> TabStore \<Rightarrow> (store_error + (TabDocument \<times> 'a store) option) \<times> TabStore)
   \<Rightarrow> 'a option store"
where
  "mutate V build =
     bind requireDocument (\<lambda>current.
     bind (build current) (\<lambda>mutation.
       case mutation of
         None \<Rightarrow> ret None
       | Some (nxt, result) \<Rightarrow> bind (persist V nxt) (\<lambda>_. bind result (\<lambda>r. ret (Some r)))))"

definition structuralDocument :: "store_env \<Rightarrow> TabDocument \<Rightarrow> TabRecord list \<Rightarrow> TabDocument store" where
  "structuralDocument V current ts =
     (case parseDocument (text_rules V) \<lparr>structureRevision = Suc (structureRevision current), tabs = ts\<rparr> of
        None \<Rightarrow> throw SchemaViolation
      | Some d \<Rightarrow> ret d)"

definition requireTab :: "TabDocument \<Rightarrow> string \<Rightarrow> TabRecord store" where
  "requireTab d i =
     (case find (\<lambda>t. tab_id t = i) (tabs d) of None \<Rightarrow> throw TabNotFound | Some t \<Rightarrow> ret t)"

definition findTab :: "string \<Rightarrow> TabRecord store" where
  "findTab i = bind requireDocument (\<lambda>d. requireTab d i)"

section \<open>Public operations\<close>

definition store_snapshot :: "TabDocument store" where
  "store_snapshot = requireDocument"

definition store_has :: "string \<Rightarrow> bool store" where
  "store_has i = bind requireDocument (\<lambda>d. ret (\<exists>t \<in> set (tabs d). tab_id t = i))"

text \<open>\<open>`Terminal ${n}`\<close>.\<close>

fun decimal :: "nat \<Rightarrow> utext" where
  "decimal n = (if n < 10 then [48 + n] else decimal (n div 10) @ [48 + n mod 10])"

definition default_name :: "nat \<Rightarrow> utext" where
  "default_name n = map of_char ''Terminal '' @ decimal n"

definition draw_uuid :: "store_env \<Rightarrow> string store" where
  "draw_uuid V = (\<lambda>s. (Inr (randomUUID V (uuids s)), s\<lparr>uuids := Suc (uuids s)\<rparr>))"

definition new_tab :: "store_env \<Rightarrow> nat \<Rightarrow> string \<Rightarrow> utext \<Rightarrow> nat \<Rightarrow> TabRecord" where
  "new_tab V tick i name pos = \<lparr>tab_id = i, displayName = name, position = pos,
     tab_createdAt = store_now V tick, lastActivityAt = store_now V tick, desiredState = Active\<rparr>"

definition build_create :: "store_env \<Rightarrow> nat \<Rightarrow> utext option \<Rightarrow> TabDocument \<Rightarrow> (TabDocument \<times> TabRecord store) option store" where
  "build_create V tick name current =
     bind (gets sessionMaxCount) (\<lambda>limit.
     if length (tabs current) \<ge> limit then throw SessionLimit
     else bind (draw_uuid V) (\<lambda>i.
       case (case name of
               None \<Rightarrow> Some (default_name (length (tabs current) + 1))
             | Some v \<Rightarrow> displayNameSchema (text_rules V) v) of
         None \<Rightarrow> throw SchemaViolation
       | Some n \<Rightarrow>
           bind (structuralDocument V current
                   (tabs current @ [new_tab V tick i n (length (tabs current))])) (\<lambda>d.
           ret (Some (d, findTab i)))))"

definition store_create :: "store_env \<Rightarrow> nat \<Rightarrow> utext option \<Rightarrow> TabRecord option store" where
  "store_create V tick name = mutate V (build_create V tick name)"

definition build_ensureInitialTab :: "store_env \<Rightarrow> nat \<Rightarrow> TabDocument \<Rightarrow> (TabDocument \<times> TabRecord store) option store" where
  "build_ensureInitialTab V tick current =
     (if length (tabs current) > 0 then ret None
     else
       bind (gets sessionMaxCount) (\<lambda>limit.
       if length (tabs current) \<ge> limit then throw SessionLimit
       else bind (draw_uuid V) (\<lambda>i.
         bind (structuralDocument V current [new_tab V tick i (map of_char ''Terminal 1'') 0]) (\<lambda>d.
         ret (Some (d, findTab i))))))"

definition store_ensureInitialTab :: "store_env \<Rightarrow> nat \<Rightarrow> TabRecord option store" where
  "store_ensureInitialTab V tick = mutate V (build_ensureInitialTab V tick)"

definition build_rename :: "store_env \<Rightarrow> string \<Rightarrow> utext \<Rightarrow> TabDocument \<Rightarrow> (TabDocument \<times> TabRecord store) option store" where
  "build_rename V i name current =
     bind (requireTab current i) (\<lambda>_.
     case displayNameSchema (text_rules V) name of
       None \<Rightarrow> throw SchemaViolation
     | Some n \<Rightarrow>
         bind (structuralDocument V current
                 (map (\<lambda>t. if tab_id t = i then t\<lparr>displayName := n\<rparr> else t) (tabs current))) (\<lambda>d.
         ret (Some (d, findTab i))))"

definition store_rename :: "store_env \<Rightarrow> string \<Rightarrow> utext \<Rightarrow> TabRecord option store" where
  "store_rename V i name = mutate V (build_rename V i name)"

definition reordered :: "TabRecord list \<Rightarrow> string list \<Rightarrow> TabRecord list" where
  "reordered ts ids =
     map (\<lambda>(k, i). (the (map_of (map (\<lambda>t. (tab_id t, t)) ts) i))\<lparr>position := k\<rparr>)
       (zip [0..<length ids] ids)"

definition build_reorder :: "store_env \<Rightarrow> nat \<Rightarrow> string list \<Rightarrow> TabDocument \<Rightarrow> (TabDocument \<times> TabDocument store) option store" where
  "build_reorder V revision ids current =
     (if revision \<noteq> structureRevision current \<or> length ids \<noteq> length (tabs current) \<or>
        length (remdups ids) \<noteq> length (tabs current) \<or>
        (\<exists>i \<in> set ids. \<not> (\<exists>t \<in> set (tabs current). tab_id t = i))
     then throw OrderConflict
     else
       bind (structuralDocument V current (reordered (tabs current) ids)) (\<lambda>d.
       ret (Some (d, store_snapshot))))"

definition store_reorder :: "store_env \<Rightarrow> nat \<Rightarrow> string list \<Rightarrow> TabDocument option store" where
  "store_reorder V revision ids = mutate V (build_reorder V revision ids)"

definition build_setDesiredState :: "store_env \<Rightarrow> string \<Rightarrow> DesiredState \<Rightarrow> TabDocument \<Rightarrow> (TabDocument \<times> TabRecord store) option store" where
  "build_setDesiredState V i st current =
     bind (requireTab current i) (\<lambda>_.
     bind (structuralDocument V current
             (map (\<lambda>t. if tab_id t = i then t\<lparr>desiredState := st\<rparr> else t) (tabs current))) (\<lambda>d.
     ret (Some (d, findTab i))))"

definition store_setDesiredState :: "store_env \<Rightarrow> string \<Rightarrow> DesiredState \<Rightarrow> TabRecord option store" where
  "store_setDesiredState V i st = mutate V (build_setDesiredState V i st)"

definition renumbered :: "TabRecord list \<Rightarrow> TabRecord list" where
  "renumbered ts = map (\<lambda>(k, t). t\<lparr>position := k\<rparr>) (zip [0..<length ts] ts)"

definition build_remove :: "store_env \<Rightarrow> string \<Rightarrow> TabDocument \<Rightarrow> (TabDocument \<times> unit store) option store" where
  "build_remove V i current =
     bind (requireTab current i) (\<lambda>_.
     bind (structuralDocument V current
             (renumbered (filter (\<lambda>t. tab_id t \<noteq> i) (tabs current)))) (\<lambda>d.
     ret (Some (d, ret ()))))"

definition store_remove :: "store_env \<Rightarrow> string \<Rightarrow> unit option store" where
  "store_remove V i = mutate V (build_remove V i)"

definition build_flushActivity :: "store_env \<Rightarrow> string list \<Rightarrow> string \<Rightarrow> TabDocument \<Rightarrow> (TabDocument \<times> unit store) option store" where
  "build_flushActivity V ids timestamp current =
     (if \<not> (\<exists>t \<in> set (tabs current). tab_id t \<in> set ids) then ret None
     else
       (case parseDocument (text_rules V) (current\<lparr>tabs := map (\<lambda>t.
               if tab_id t \<in> set ids then t\<lparr>lastActivityAt := timestamp\<rparr> else t) (tabs current)\<rparr>) of
          None \<Rightarrow> throw SchemaViolation
        | Some d \<Rightarrow> ret (Some (d, ret ()))))"

definition store_flushActivity :: "store_env \<Rightarrow> string list \<Rightarrow> string \<Rightarrow> unit option store" where
  "store_flushActivity V ids timestamp = mutate V (build_flushActivity V ids timestamp)"

section \<open>Initialisation\<close>

text \<open>
  The read loop fills a buffer of one byte more than the limit; a read returns what is left of the
  file, or less.
\<close>

function read_loop :: "string \<Rightarrow> nat \<Rightarrow> syscall list \<Rightarrow> (store_error + nat) \<times> syscall list" where
  "read_loop content got sc =
     (if got \<ge> MAX_DOCUMENT_BYTES + 1 then (Inr got, sc)
      else
        let room = MAX_DOCUMENT_BYTES + 1 - got;
            left = min room (length content - got);
            rest = tl sc
        in case (if sc = [] then Succeeds else hd sc) of
             Fails c \<Rightarrow> (Inl (SystemError c), rest)
           | FailsAfter _ c \<Rightarrow> (Inl (SystemError c), rest)
           | Succeeds \<Rightarrow> if left = 0 then (Inr got, rest) else read_loop content (got + left) rest
           | ShortRead k \<Rightarrow>
               if left = 0 then (Inr got, rest)
               else read_loop content (got + min (Suc k) left) rest)"
  by pat_completeness auto

termination read_loop
  by (relation "measure (\<lambda>(_, got, _). MAX_DOCUMENT_BYTES + 1 - got)") auto

definition read_file :: "string \<Rightarrow> string store" where
  "read_file content =
     bind sys (\<lambda>_ s.
       if length content > MAX_DOCUMENT_BYTES then (Inl InvalidDocument, s)
       else case read_loop content 0 (script s) of
              (Inl e, sc) \<Rightarrow> (Inl e, s\<lparr>script := sc\<rparr>)
            | (Inr n, sc) \<Rightarrow>
                (if n > MAX_DOCUMENT_BYTES then Inl InvalidDocument else Inr (take n content),
                 s\<lparr>script := sc\<rparr>))"

definition decode_document :: "store_env \<Rightarrow> nat \<Rightarrow> string \<Rightarrow> TabDocument option" where
  "decode_document V limit bytes =
     (case deserialize V bytes of
        None \<Rightarrow> None
      | Some raw \<Rightarrow>
          (case parseDocument (text_rules V) raw of
             None \<Rightarrow> None
           | Some d \<Rightarrow> if length (tabs d) > limit then None else Some d))"

text \<open>
  \<open>finally { await handle.close() }\<close>: a failing close replaces the outcome. \<open>primary\<close> is the content of a regular
  file; a primary path that is anything else is refused by \<open>O_NOFOLLOW\<close> or the \<open>isFile\<close> test, which the script of
  the file system represents as a failing call.
\<close>

definition readPrimary :: "store_env \<Rightarrow> TabDocument store" where
  "readPrimary V =
     bind sys (\<lambda>_.
     bind (gets primary) (\<lambda>p.
       case p of
         None \<Rightarrow> throw (SystemError ''ENOENT'')
       | Some content \<Rightarrow>
           bind (attempt (read_file content)) (\<lambda>r.
           bind sys (\<lambda>_.
             case r of
               Inl e \<Rightarrow> throw e
             | Inr bytes \<Rightarrow>
                 bind (gets sessionMaxCount) (\<lambda>limit.
                 case decode_document V limit bytes of
                   None \<Rightarrow> throw InvalidDocument
                 | Some d \<Rightarrow> ret d)))))"

definition TEMP_FILENAME_PATTERN :: "(char \<Rightarrow> bool) list" where
  "TEMP_FILENAME_PATTERN = map (\<lambda>c d. d = c) ''tabs.json.tmp.'' @ TAB_ID_PATTERN"

fun cleanup_names :: "string list \<Rightarrow> unit store" where
  "cleanup_names [] = ret ()"
| "cleanup_names (name # names) =
     bind (ignore (bind sys (\<lambda>_.
       bind (gets (\<lambda>s. jm_get (temporaries s) name)) (\<lambda>f.
         case f of
           Some (Regular _) \<Rightarrow> fs_unlink name
         | _ \<Rightarrow> ret ())))) (\<lambda>_. cleanup_names names)"

definition cleanupTemps :: "unit store" where
  "cleanupTemps =
     bind (attempt sys) (\<lambda>r.
       case r of
         Inl _ \<Rightarrow> ret ()
       | Inr _ \<Rightarrow>
           bind (gets (\<lambda>s. filter (matches TEMP_FILENAME_PATTERN) (jm_keys (temporaries s)))) cleanup_names)"

definition empty_document :: TabDocument where
  "empty_document = \<lparr>structureRevision = 0, tabs = []\<rparr>"

text \<open>The \<open>try\<close> block of \<open>initialize\<close>: a missing primary file is replaced by an empty document.\<close>

definition load_document :: "store_env \<Rightarrow> TabDocument store" where
  "load_document V = bind (attempt (readPrimary V)) (\<lambda>r.
     case r of
       Inr doc \<Rightarrow> bind (modify (\<lambda>s. s\<lparr>ready := True\<rparr>)) (\<lambda>_. ret doc)
     | Inl e \<Rightarrow>
         if e \<noteq> SystemError ''ENOENT'' then throw e
         else (case parseDocument (text_rules V) empty_document of
                 None \<Rightarrow> throw SchemaViolation
               | Some doc \<Rightarrow> bind (persist V doc) (\<lambda>_. ret doc)))"

definition initialize :: "store_env \<Rightarrow> unit store" where
  "initialize V = bind (gets document) (\<lambda>d.
     if d \<noteq> None then throw AlreadyInitializedStore
     else bind sys (\<lambda>_. bind (load_document V) (\<lambda>doc.
       bind (modify (\<lambda>s. case document s of None \<Rightarrow> s\<lparr>document := Some doc\<rparr> | Some _ \<Rightarrow> s)) (\<lambda>_.
       cleanupTemps))))"

section \<open>What a file-system call may change\<close>

declare read_loop.simps [simp del]

declare map_of_eq_Some_iff [simp del] Some_eq_map_of_iff [simp del]

definition same_store :: "TabStore \<Rightarrow> TabStore \<Rightarrow> bool" where
  "same_store s t \<longleftrightarrow> sessionMaxCount t = sessionMaxCount s \<and> document t = document s \<and>
     ready t = ready s \<and> durability_events t = durability_events s \<and> primary t = primary s"

definition same_files :: "TabStore \<Rightarrow> TabStore \<Rightarrow> bool" where
  "same_files s t \<longleftrightarrow> same_store s t \<and> temporaries t = temporaries s"

text \<open>All temporary files but one are untouched.\<close>

definition others_same :: "string \<Rightarrow> TabStore \<Rightarrow> TabStore \<Rightarrow> bool" where
  "others_same path s t \<longleftrightarrow>
     same_store s t \<and> (\<forall>n. n \<noteq> path \<longrightarrow> jm_get (temporaries t) n = jm_get (temporaries s) n)"

interpretation store_io: frame_relation "\<lambda>_. True" same_store
  by unfold_locales (auto simp: same_store_def)

interpretation store_files: frame_relation "\<lambda>_. True" same_files
  by unfold_locales (auto simp: same_files_def same_store_def)

interpretation store_one: frame_relation "\<lambda>_. True" "others_same path" for path
  by unfold_locales (auto simp: others_same_def same_store_def)

lemma same_files_store: "same_files s t \<Longrightarrow> same_store s t"
  by (simp add: same_files_def)

lemma same_files_others: "same_files s t \<Longrightarrow> others_same path s t"
  by (simp add: same_files_def others_same_def)

lemma files_one: "store_files.keeps m \<Longrightarrow> store_one.keeps path m"
  by (auto simp: store_files.keeps_def store_one.keeps_def same_files_others)

lemma next_syscall_files: "store_files.keeps next_syscall"
  by (rule store_files.keepsI)
     (auto simp: next_syscall_def same_files_def same_store_def split: list.split)

lemma sys_files: "store_files.keeps sys"
  unfolding sys_def
  by (intro store_files.keeps_bind next_syscall_files) (auto split: syscall.split)

lemma ignore_one: "store_one.keeps path m \<Longrightarrow> store_one.keeps path (ignore m)"
  unfolding ignore_def by (intro store_one.keeps_intros)

lemma ignore_files: "store_files.keeps m \<Longrightarrow> store_files.keeps (ignore m)"
  unfolding ignore_def by (intro store_files.keeps_intros)

lemma unlink_one: "store_one.keeps path (fs_unlink path)"
  unfolding fs_unlink_def
  by (intro store_one.keeps_bind files_one [OF sys_files] store_one.keeps_modify)
     (auto simp: others_same_def same_store_def)

lemma sys_run: "sys s = (r, t) \<Longrightarrow> same_files s t"
  using store_files.keepsD [OF sys_files, of s] by simp

lemma next_syscall_run: "next_syscall s = (r, t) \<Longrightarrow> same_files s t \<and> (\<exists>x. r = Inr x)"
  using store_files.keepsD [OF next_syscall_files, of s]
  by (auto simp: next_syscall_def split: list.splits)

section \<open>The steps of a commit\<close>

lemma open_temporary_run:
  assumes "fs_open_temporary path s = (r, t)"
  shows "same_store s t \<and>
    (case r of
       Inr _ \<Rightarrow> jm_get (temporaries s) path = None \<and> temporaries t = jm_set (temporaries s) path (Regular [])
     | Inl _ \<Rightarrow> temporaries t = temporaries s)"
proof -
  obtain r' u where u: "sys s = (r', u)" by (cases "sys s")
  have su: "same_files s u" by (rule sys_run [OF u])
  show ?thesis using assms u su
    by (cases r') (auto simp: fs_open_temporary_def em_simps same_files_def same_store_def split: if_splits)
qed

lemma allocateTemporary_run:
  "allocateTemporary V n s = (r, t) \<Longrightarrow> same_store s t \<and>
    (case r of
       Inr (Some path) \<Rightarrow> jm_get (temporaries s) path = None \<and>
         temporaries t = jm_set (temporaries s) path (Regular [])
     | _ \<Rightarrow> temporaries t = temporaries s)"
proof (induction n arbitrary: s)
  case 0
  then show ?case by (auto simp: em_simps same_store_def)
next
  case (Suc n)
  let ?path = "temporary_name (randomUUID V (uuids s))" and ?s = "s\<lparr>uuids := Suc (uuids s)\<rparr>"
  obtain r' u where u: "fs_open_temporary ?path ?s = (r', u)" by (metis surj_pair)
  have same: "same_store ?s v \<longleftrightarrow> same_store s v" for v by (simp add: same_store_def)
  note run = open_temporary_run [OF u, unfolded same]
  show ?case
  proof (cases "r' = Inl (SystemError ''EEXIST'')")
    case True
    then have "allocateTemporary V n u = (r, t)" using Suc.prems u by (simp add: em_simps)
    from Suc.IH [OF this] run True show ?thesis
      by (auto simp: same_store_def split: sum.splits option.splits)
  next
    case False
    with Suc.prems u run show ?thesis
      by (auto simp: em_simps same_store_def split: sum.splits if_splits)
  qed
qed

lemma fs_write_run:
  assumes "fs_write path data s = (r, t)"
  shows "others_same path s t \<and>
    (r = Inr () \<longrightarrow> jm_get (temporaries t) path = Some (Regular data))"
proof -
  obtain r' u where u: "next_syscall s = (r', u)" by (metis surj_pair)
  from next_syscall_run [OF u] obtain x where x: "same_files s u" "r' = Inr x" by auto
  show ?thesis using assms u x
    by (cases x) (auto simp: fs_write_def em_simps others_same_def same_files_def same_store_def)
qed

lemma write_one: "store_one.keeps path (fs_write path data)"
proof (rule store_one.keepsI)
  fix s
  show "True \<and> others_same path s (snd (fs_write path data s))"
    using fs_write_run [of path data s] by (metis prod.collapse)
qed

lemma writeTemporary_run:
  assumes "writeTemporary path data s = (r, t)"
  shows "others_same path s t \<and> (r = Inr () \<longrightarrow> jm_get (temporaries t) path = Some (Regular data))"
proof -
  have "store_one.keeps path (writeTemporary path data)"
    unfolding writeTemporary_def
    by (intro store_one.keeps_intros write_one files_one [OF sys_files] ignore_one unlink_one)
  then have one: "others_same path s t" using assms by (metis snd_conv store_one.keepsD)
  have "jm_get (temporaries t) path = Some (Regular data)" if "r = Inr ()"
  proof -
    obtain r1 s1 where 1: "fs_write path data s = (r1, s1)" by (metis surj_pair)
    have r1: "r1 = Inr ()"
      using assms that 1 by (cases r1) (auto simp: writeTemporary_def em_simps split: prod.splits sum.splits)
    obtain r2 s2 where 2: "sys s1 = (r2, s2)" by (metis surj_pair)
    have r2: "r2 = Inr ()"
      using assms that 1 2 r1 by (cases r2) (auto simp: writeTemporary_def em_simps split: prod.splits sum.splits)
    obtain r3 s3 where 3: "sys s2 = (r3, s3)" by (metis surj_pair)
    have r3: "r3 = Inr () \<and> t = s3"
      using assms that 1 2 3 r1 r2 by (cases r3) (auto simp: writeTemporary_def em_simps split: prod.splits sum.splits)
    with sys_run [OF 2] sys_run [OF 3] fs_write_run [OF 1] r1 show ?thesis
      by (simp add: same_files_def)
  qed
  with one show ?thesis by blast
qed

lemma fs_rename_run:
  assumes "fs_rename path s = (r, t)"
  shows "case r of
     Inl _ \<Rightarrow> same_files s t
   | Inr _ \<Rightarrow> (\<exists>c. jm_get (temporaries s) path = Some (Regular c) \<and> primary t = Some c) \<and>
       temporaries t = jm_delete (temporaries s) path \<and> document t = document s \<and>
       sessionMaxCount t = sessionMaxCount s \<and> ready t = ready s \<and> durability_events t = durability_events s"
proof -
  obtain r' u where u: "sys s = (r', u)" by (metis surj_pair)
  have su: "same_files s u" by (rule sys_run [OF u])
  show ?thesis using assms u su
    by (cases r') (auto simp: fs_rename_def em_simps same_files_def same_store_def split: option.splits dirent.splits)
qed

lemma publish_run:
  assumes "publish path s = (r, t)" "jm_get (temporaries s) path = Some (Regular c)"
  shows "case r of
     Inl _ \<Rightarrow> others_same path s t
   | Inr _ \<Rightarrow> primary t = Some c \<and> temporaries t = jm_delete (temporaries s) path \<and>
       document t = document s \<and> sessionMaxCount t = sessionMaxCount s"
proof -
  obtain r' u where u: "fs_rename path s = (r', u)" by (metis surj_pair)
  show ?thesis
  proof (cases r')
    case (Inr x)
    with assms u fs_rename_run [OF u] show ?thesis by (auto simp: publish_def em_simps)
  next
    case (Inl e)
    then have su: "others_same path s u" using fs_rename_run [OF u] by (simp add: same_files_others)
    have keeps: "store_one.keeps path (bind (ignore (fs_unlink path)) (\<lambda>_. throw e))"
      by (intro store_one.keeps_intros ignore_one unlink_one)
    have t: "bind (ignore (fs_unlink path)) (\<lambda>_. throw e) u = (r, t)"
      using assms(1) u Inl by (simp add: publish_def catch_apply)
    then have "others_same path u t" by (metis keeps snd_conv store_one.keepsD)
    with su have st: "others_same path s t" by (rule store_one.R_trans)
    obtain y where "r = Inl y" using t by (cases r) (auto simp: bind_apply throw_def split: prod.splits sum.splits)
    with st show ?thesis by simp
  qed
qed

lemma syncDirectory_files: "store_files.keeps syncDirectory"
  unfolding syncDirectory_def
  by (intro store_files.keeps_bind sys_files store_files.keeps_attempt) (auto split: sum.split)

section \<open>Commit or nothing\<close>

definition committed :: "store_env \<Rightarrow> TabStore \<Rightarrow> TabDocument \<Rightarrow> TabStore \<Rightarrow> bool" where
  "committed V s d t \<longleftrightarrow> document t = Some d \<and> primary t = Some (serialize V d) \<and>
     length (serialize V d) \<le> MAX_DOCUMENT_BYTES \<and> sessionMaxCount t = sessionMaxCount s \<and>
     (\<forall>n. jm_get (temporaries t) n = jm_get (temporaries s) n)"

text \<open>Nothing but, at worst, one new temporary file is left behind.\<close>

definition rolled_back :: "TabStore \<Rightarrow> TabStore \<Rightarrow> bool" where
  "rolled_back s t \<longleftrightarrow>
     same_files s t \<or> (\<exists>path. jm_get (temporaries s) path = None \<and> others_same path s t)"

lemma rolled_back_store: "rolled_back s t \<Longrightarrow> same_store s t"
  by (auto simp: rolled_back_def same_files_def others_same_def)

lemma rolled_back_kept:
  assumes "rolled_back s t"
  shows "\<forall>n f. jm_get (temporaries s) n = Some f \<longrightarrow> jm_get (temporaries t) n = Some f"
  using assms unfolding rolled_back_def same_files_def others_same_def
  by (metis option.distinct(1))

lemma rolled_back_files: "same_files s t \<Longrightarrow> rolled_back s t"
  by (simp add: rolled_back_def)

lemma same_files_rolled_back: "same_files s t \<Longrightarrow> rolled_back t u \<Longrightarrow> rolled_back s u"
  by (auto simp: rolled_back_def same_files_def others_same_def same_store_def)

lemma same_files_committed: "same_files s t \<Longrightarrow> committed V t d u \<Longrightarrow> committed V s d u"
  by (auto simp: committed_def same_files_def same_store_def)

lemma committed_same_files: "committed V s d t \<Longrightarrow> same_files t u \<Longrightarrow> committed V s d u"
  by (auto simp: committed_def same_files_def same_store_def)

lemma commit_to_run:
  assumes "commit_to V nxt path s = (r, t)" "length (serialize V nxt) \<le> MAX_DOCUMENT_BYTES"
  shows "case r of
     Inl _ \<Rightarrow> others_same path s t
   | Inr _ \<Rightarrow> document t = Some nxt \<and> primary t = Some (serialize V nxt) \<and>
       sessionMaxCount t = sessionMaxCount s \<and>
       (\<forall>n. jm_get (temporaries t) n = (if n = path then None else jm_get (temporaries s) n))"
proof -
  obtain r1 s1 where 1: "writeTemporary path (serialize V nxt) s = (r1, s1)" by (metis surj_pair)
  note w = writeTemporary_run [OF 1]
  show ?thesis
  proof (cases r1)
    case (Inl e)
    with assms 1 w show ?thesis by (auto simp: commit_to_def bind_apply)
  next
    case (Inr x)
    with w have written: "jm_get (temporaries s1) path = Some (Regular (serialize V nxt))" by simp
    obtain r2 s2 where 2: "publish path s1 = (r2, s2)" by (metis surj_pair)
    note p = publish_run [OF 2 written]
    show ?thesis
    proof (cases r2)
      case (Inl e)
      with p have "others_same path s1 s2" by simp
      with w have "others_same path s s2" by (blast intro: store_one.R_trans)
      with assms 1 2 Inr Inl show ?thesis by (auto simp: commit_to_def bind_apply)
    next
      case (Inr y)
      let ?s3 = "s2\<lparr>document := Some nxt\<rparr>"
      obtain r4 s4 where 4: "syncDirectory ?s3 = (r4, s4)" by (metis surj_pair)
      have same: "same_files ?s3 s4" using store_files.keepsD [OF syncDirectory_files, of ?s3] 4 by simp
      have "r = Inr ()" and t: "document t = document s4" "primary t = primary s4"
        "sessionMaxCount t = sessionMaxCount s4" "temporaries t = temporaries s4"
        using assms(1) 1 2 4 \<open>r1 = Inr x\<close> Inr
        by (auto simp: commit_to_def em_simps split: sum.splits if_splits)
      with same p w Inr show ?thesis
        by (auto simp: same_files_def same_store_def others_same_def)
    qed
  qed
qed

lemma persist_run:
  assumes "persist V candidate s = (r, t)"
  shows "case r of
     Inl _ \<Rightarrow> rolled_back s t
   | Inr _ \<Rightarrow> \<exists>d. parseDocument (text_rules V) candidate = Some d \<and> committed V s d t"
proof (cases "parseDocument (text_rules V) candidate")
  case None
  with assms show ?thesis by (auto simp: persist_def em_simps rolled_back_files same_files_def same_store_def)
next
  case (Some d)
  show ?thesis
  proof (cases "length (serialize V d) > MAX_DOCUMENT_BYTES")
    case True
    with assms Some show ?thesis
      by (auto simp: persist_def em_simps rolled_back_files same_files_def same_store_def)
  next
    case False
    obtain r1 s1 where 1: "allocateTemporary V 8 s = (r1, s1)" by (metis surj_pair)
    note alloc = allocateTemporary_run [OF 1]
    show ?thesis
    proof (cases "\<exists>path. r1 = Inr (Some path)")
      case False
      then have "same_files s s1" "\<exists>e. r = Inl e" "t = s1"
        using alloc assms Some \<open>\<not> length (serialize V d) > MAX_DOCUMENT_BYTES\<close> 1
        by (auto simp: persist_def em_simps same_files_def split: sum.splits option.splits)
      then show ?thesis by (auto simp: rolled_back_files)
    next
      case True
      then obtain path where path: "r1 = Inr (Some path)" by blast
      have run: "commit_to V d path s1 = (r, t)"
        using assms Some False 1 path by (simp add: persist_def bind_apply)
      have s1: "jm_get (temporaries s) path = None" "others_same path s s1"
        "sessionMaxCount s1 = sessionMaxCount s"
        using alloc path by (auto simp: others_same_def same_store_def)
      show ?thesis
      proof (cases r)
        case (Inl e)
        with commit_to_run [OF run] False have "others_same path s1 t" by simp
        with s1 have "others_same path s t" by (blast intro: store_one.R_trans)
        with s1 Inl show ?thesis by (auto simp: rolled_back_def)
      next
        case (Inr x)
        with commit_to_run [OF run] False s1 have "committed V s d t"
          by (auto simp: committed_def others_same_def)
        with Inr Some show ?thesis by simp
      qed
    qed
  qed
qed

section \<open>Operations\<close>

lemma requireDocument_files: "store_files.keeps requireDocument"
  unfolding requireDocument_def by (intro store_files.keeps_intros)

lemma requireTab_files: "store_files.keeps (requireTab d i)"
  unfolding requireTab_def by (intro store_files.keeps_intros)

lemma structuralDocument_files: "store_files.keeps (structuralDocument V d ts)"
  unfolding structuralDocument_def by (intro store_files.keeps_intros)

lemma draw_uuid_files: "store_files.keeps (draw_uuid V)"
  by (rule store_files.keepsI) (simp add: draw_uuid_def same_files_def same_store_def)

lemmas build_files = requireDocument_files requireTab_files structuralDocument_files draw_uuid_files

lemma mutate_run:
  assumes run: "mutate V build s = (r, t)"
    and files: "\<And>d. store_files.keeps (build d)"
    and result: "\<And>d s1 nxt res u. build d s1 = (Inr (Some (nxt, res)), u) \<Longrightarrow> store_files.keeps res"
  shows "rolled_back s t \<and> (r = Inr None \<or> (\<exists>e. r = Inl e)) \<or>
    (\<exists>cur nxt res u d v r'. document s = Some cur \<and> build cur s = (Inr (Some (nxt, res)), u) \<and>
       parseDocument (text_rules V) nxt = Some d \<and> committed V s d v \<and> res v = (r', t) \<and>
       r = map_sum id Some r' \<and> committed V s d t)"
proof (cases "document s")
  case None
  then have "r = Inl NotInitialized \<and> t = s" using run by (auto simp: mutate_def requireDocument_def em_simps)
  then show ?thesis by (simp add: rolled_back_files store_files.R_refl)
next
  case (Some cur)
  obtain rb u where b: "build cur s = (rb, u)" by (metis surj_pair)
  have su: "same_files s u" using store_files.keepsD [OF files, of s cur] b by simp
  have m: "mutate V build s = (case rb of Inl e \<Rightarrow> (Inl e, u) | Inr None \<Rightarrow> (Inr None, u)
     | Inr (Some (nxt, res)) \<Rightarrow> bind (persist V nxt) (\<lambda>_. bind res (\<lambda>r. ret (Some r))) u)"
    using Some b by (auto simp: mutate_def requireDocument_def bind_apply em_simps split: sum.split option.split)
  show ?thesis
  proof (cases "\<exists>nxt res. rb = Inr (Some (nxt, res))")
    case False
    then have "t = u \<and> (r = Inr None \<or> (\<exists>e. r = Inl e))"
      using m run by (auto split: sum.splits option.splits)
    with su show ?thesis by (auto simp: rolled_back_files)
  next
    case True
    then obtain nxt res where rb: "rb = Inr (Some (nxt, res))" by blast
    obtain rp v where p: "persist V nxt u = (rp, v)" by (metis surj_pair)
    show ?thesis
    proof (cases rp)
      case (Inl e)
      then have "r = Inl e" "t = v" using m run rb p by (auto simp: bind_apply)
      with persist_run [OF p] Inl su show ?thesis by (auto intro: same_files_rolled_back)
    next
      case (Inr x)
      then obtain d where d: "parseDocument (text_rules V) nxt = Some d" "committed V s d v"
        using persist_run [OF p] su by (auto intro: same_files_committed)
      obtain r' w where w: "res v = (r', w)" by (metis surj_pair)
      have "same_files v w" using store_files.keepsD [OF result [OF b [unfolded rb]], of v] w by simp
      moreover have "t = w" "r = map_sum id Some r'"
        using m run rb p Inr w by (auto simp: bind_apply ret_def split: sum.splits)
      ultimately show ?thesis using Some b rb d w by (blast intro: committed_same_files)
    qed
  qed
qed

text \<open>
  What the builders return: the candidate parsed successfully, and its raw form is the current
  document with the change applied and the revision advanced.
\<close>

definition candidate :: "store_env \<Rightarrow> TabDocument \<Rightarrow> TabRecord list \<Rightarrow> TabDocument \<Rightarrow> bool" where
  "candidate V cur ts d \<longleftrightarrow>
     parseDocument (text_rules V) \<lparr>structureRevision = Suc (structureRevision cur), tabs = ts\<rparr> = Some d"

lemma structuralDocument_run:
  "structuralDocument V cur ts s = (Inr d, t) \<longleftrightarrow> candidate V cur ts d \<and> t = s"
  by (auto simp: structuralDocument_def candidate_def em_simps split: option.splits)

lemma requireTab_run:
  "requireTab d i s = (Inr x, t) \<longleftrightarrow> find (\<lambda>t. tab_id t = i) (tabs d) = Some x \<and> t = s"
  by (auto simp: requireTab_def em_simps split: option.splits)

lemma build_create_run:
  assumes "build_create V tick name cur s = (Inr (Some (d, res)), u)"
  shows "length (tabs cur) < sessionMaxCount s"
    "\<exists>n. candidate V cur (tabs cur @ [new_tab V tick (randomUUID V (uuids s)) n (length (tabs cur))]) d \<and>
       (case name of None \<Rightarrow> n = default_name (length (tabs cur) + 1)
        | Some v \<Rightarrow> displayNameSchema (text_rules V) v = Some n)"
    "res = findTab (randomUUID V (uuids s))"
  using assms
  by (auto simp: build_create_def run_simps structuralDocument_run draw_uuid_def
      split: if_splits option.splits)

lemma build_ensure_run:
  assumes "build_ensureInitialTab V tick cur s = (Inr (Some (d, res)), u)"
  shows "tabs cur = []" "0 < sessionMaxCount s"
    "candidate V cur [new_tab V tick (randomUUID V (uuids s)) (map of_char ''Terminal 1'') 0] d"
    "res = findTab (randomUUID V (uuids s))"
  using assms
  by (auto simp: build_ensureInitialTab_def run_simps structuralDocument_run draw_uuid_def
      split: if_splits)

lemma build_rename_run:
  assumes "build_rename V i name cur s = (Inr (Some (d, res)), u)"
  shows "i \<in> tab_id ` set (tabs cur)" "res = findTab i"
    "\<exists>n. displayNameSchema (text_rules V) name = Some n \<and>
       candidate V cur (map (\<lambda>t. if tab_id t = i then t\<lparr>displayName := n\<rparr> else t) (tabs cur)) d"
  using assms
  by (auto simp: build_rename_def run_simps structuralDocument_run requireTab_run
      split: option.splits dest!: find_SomeD)

lemma build_reorder_run:
  assumes "build_reorder V rv ids cur s = (Inr (Some (d, res)), u)"
  shows "rv = structureRevision cur" "length ids = length (tabs cur)"
    "distinct ids" "set ids \<subseteq> tab_id ` set (tabs cur)" "candidate V cur (reordered (tabs cur) ids) d"
    "res = store_snapshot"
proof -
  have g: "rv = structureRevision cur" "length ids = length (tabs cur)"
    "length (remdups ids) = length (tabs cur)" "set ids \<subseteq> tab_id ` set (tabs cur)"
    "candidate V cur (reordered (tabs cur) ids) d" "res = store_snapshot"
    using assms by (auto simp: build_reorder_def run_simps structuralDocument_run split: if_splits)
  then show "rv = structureRevision cur" "length ids = length (tabs cur)"
    "set ids \<subseteq> tab_id ` set (tabs cur)" "candidate V cur (reordered (tabs cur) ids) d" "res = store_snapshot"
    by simp_all
  have "length (remdups ids) = length ids" using g by simp
  then show "distinct ids" by simp
qed

lemma build_setDesiredState_run:
  assumes "build_setDesiredState V i st cur s = (Inr (Some (d, res)), u)"
  shows "i \<in> tab_id ` set (tabs cur)" "res = findTab i"
    "candidate V cur (map (\<lambda>t. if tab_id t = i then t\<lparr>desiredState := st\<rparr> else t) (tabs cur)) d"
  using assms
  by (auto simp: build_setDesiredState_def run_simps structuralDocument_run requireTab_run
      dest!: find_SomeD)

lemma build_remove_run:
  assumes "build_remove V i cur s = (Inr (Some (d, res)), u)"
  shows "i \<in> tab_id ` set (tabs cur)" "res = ret ()"
    "candidate V cur (renumbered (filter (\<lambda>t. tab_id t \<noteq> i) (tabs cur))) d"
  using assms
  by (auto simp: build_remove_def run_simps structuralDocument_run requireTab_run
      dest!: find_SomeD)

lemma build_flush_run:
  assumes "build_flushActivity V ids stamp cur s = (Inr (Some (d, res)), u)"
  shows "res = ret ()"
    "parseDocument (text_rules V) (cur\<lparr>tabs := map (\<lambda>t.
        if tab_id t \<in> set ids then t\<lparr>lastActivityAt := stamp\<rparr> else t) (tabs cur)\<rparr>) = Some d"
  using assms by (auto simp: build_flushActivity_def run_simps split: if_splits option.splits)

lemma parseTab_exact:
  "parseTab U t = Some p \<Longrightarrow> persistedDisplayName U (displayName t) = Some (displayName t) \<Longrightarrow> p = t"
  by (auto simp: parseTab_def split: if_splits)

lemma parseTabs_exact:
  assumes "parseTabs U ts = Some ps"
    and "\<forall>t \<in> set ts. persistedDisplayName U (displayName t) = Some (displayName t)"
  shows "ps = ts"
proof (rule nth_equalityI)
  have all: "list_all2 (\<lambda>t p. parseTab U t = Some p) ts ps" using assms(1) by (simp add: parseTabs_Some)
  then show "length ps = length ts" by (simp add: list_all2_lengthD)
  fix k
  assume "k < length ps"
  with all have "parseTab U (ts ! k) = Some (ps ! k)" "ts ! k \<in> set ts"
    by (auto simp: list_all2_conv_all_nth)
  with assms(2) show "ps ! k = ts ! k" using parseTab_exact by blast
qed

lemma parseDocument_exact:
  assumes "parseDocument U d = Some e"
    and "\<forall>t \<in> set (tabs d). persistedDisplayName U (displayName t) = Some (displayName t)"
  shows "e = d"
  using assms parseTabs_exact [of U "tabs d"]
  by (auto simp: parseDocument_def split: if_splits option.splits)

lemma stable_names:
  assumes "parseDocument U d = Some d" "t \<in> set (tabs d)"
  shows "persistedDisplayName U (displayName t) = Some (displayName t)"
proof -
  obtain k where k: "k < length (tabs d)" "tabs d ! k = t" using assms(2) by (auto simp: in_set_conv_nth)
  then have "parseTab U t = Some t" using parseDocument_Some(5) [OF assms(1)] by (auto simp: list_all2_conv_all_nth)
  then show ?thesis by (rule parseTab_Some(1))
qed

lemma displayNameSchema_stable:
  "unicode_ok U \<Longrightarrow> displayNameSchema U v = Some n \<Longrightarrow> persistedDisplayName U n = Some n"
  by (auto simp: displayNameSchema_def split: option.splits if_splits dest: name_stable)

lemma candidate_exact:
  assumes "candidate V cur ts d"
    and "\<And>t. t \<in> set ts \<Longrightarrow> persistedDisplayName (text_rules V) (displayName t) = Some (displayName t)"
  shows "d = \<lparr>structureRevision = Suc (structureRevision cur), tabs = ts\<rparr>"
  using parseDocument_exact assms unfolding candidate_def by force

lemma candidate_facts:
  assumes "candidate V cur ts d"
  shows "structureRevision d = Suc (structureRevision cur)" "map tab_id (tabs d) = map tab_id ts"
    "length (tabs d) = length ts"
  using parseDocument_Some [OF assms [unfolded candidate_def]] by simp_all

lemma length_reordered [simp]: "length (reordered ts ids) = length ids"
  by (simp add: reordered_def)

lemma length_renumbered [simp]: "length (renumbered ts) = length ts"
  by (simp add: renumbered_def)

lemma reordered_nth:
  assumes "set ids \<subseteq> tab_id ` set ts" "distinct (map tab_id ts)" "k < length ids"
  shows "\<exists>t \<in> set ts. tab_id t = ids ! k \<and> reordered ts ids ! k = t\<lparr>position := k\<rparr>"
proof -
  obtain t where t: "t \<in> set ts" "tab_id t = ids ! k" using assms(1,3) by (metis imageE nth_mem subsetD)
  have "map_of (map (\<lambda>t. (tab_id t, t)) ts) (ids ! k) = Some t"
    using t assms(2) by (intro map_of_is_SomeI) (force simp: comp_def image_iff)+
  with t assms(3) show ?thesis by (auto simp: reordered_def)
qed

lemma renumbered_nth: "k < length ts \<Longrightarrow> renumbered ts ! k = (ts ! k)\<lparr>position := k\<rparr>"
  by (simp add: renumbered_def)

lemma renumbered_names: "t \<in> set (renumbered ts) \<Longrightarrow> \<exists>u \<in> set ts. displayName t = displayName u"
proof -
  assume "t \<in> set (renumbered ts)"
  then obtain k where k: "k < length ts" "renumbered ts ! k = t" by (metis in_set_conv_nth length_renumbered)
  then have "displayName t = displayName (ts ! k)" using renumbered_nth [OF k(1)] by auto
  with k show ?thesis by force
qed

lemma reordered_names:
  assumes "set ids \<subseteq> tab_id ` set ts" "distinct (map tab_id ts)" "t \<in> set (reordered ts ids)"
  shows "\<exists>u \<in> set ts. displayName t = displayName u"
proof -
  obtain k where "k < length ids" "reordered ts ids ! k = t" using assms(3) by (metis in_set_conv_nth length_reordered)
  with reordered_nth [OF assms(1,2), of k] show ?thesis by force
qed

section \<open>Invariant\<close>

definition reads_as :: "store_env \<Rightarrow> string \<Rightarrow> TabDocument \<Rightarrow> bool" where
  "reads_as V content d \<longleftrightarrow> length content \<le> MAX_DOCUMENT_BYTES \<and>
     (case deserialize V content of
        None \<Rightarrow> False
      | Some raw \<Rightarrow> parseDocument (text_rules V) raw = Some d)"

definition store_inv :: "store_env \<Rightarrow> TabStore \<Rightarrow> bool" where
  "store_inv V s \<longleftrightarrow>
     (case document s of
        None \<Rightarrow> True
      | Some d \<Rightarrow>
          document_ok (text_rules V) d \<and> parseDocument (text_rules V) d = Some d \<and>
          length (tabs d) \<le> sessionMaxCount s \<and>
          (case primary s of None \<Rightarrow> False | Some c \<Rightarrow> reads_as V c d))"

text \<open>What the environment guarantees: NFC as documented and a JSON round trip.\<close>

definition env_ok :: "store_env \<Rightarrow> bool" where
  "env_ok V \<longleftrightarrow> unicode_ok (text_rules V) \<and> (\<forall>d. deserialize V (serialize V d) = Some d)"

datatype store_op =
    OpCreate nat "utext option" | OpEnsure nat | OpRename string utext | OpReorder nat "string list"
  | OpSetState string DesiredState | OpRemove string | OpFlush "string list" string

definition void :: "'a store \<Rightarrow> unit store" where
  "void m = bind m (\<lambda>_. ret ())"

fun perform :: "store_env \<Rightarrow> store_op \<Rightarrow> unit store" where
  "perform V (OpCreate tick name) = void (store_create V tick name)"
| "perform V (OpEnsure tick) = void (store_ensureInitialTab V tick)"
| "perform V (OpRename i name) = void (store_rename V i name)"
| "perform V (OpReorder rv ids) = void (store_reorder V rv ids)"
| "perform V (OpSetState i st) = void (store_setDesiredState V i st)"
| "perform V (OpRemove i) = void (store_remove V i)"
| "perform V (OpFlush ids stamp) = void (store_flushActivity V ids stamp)"

text \<open>The part of a document the revision covers: everything but the activity times.\<close>

definition shape :: "TabDocument \<Rightarrow> TabRecord list" where
  "shape d = map (\<lambda>t. t\<lparr>lastActivityAt := []\<rparr>) (tabs d)"

definition advances :: "TabDocument \<Rightarrow> TabDocument \<Rightarrow> bool" where
  "advances d e \<longleftrightarrow> structureRevision e = Suc (structureRevision d) \<or>
     structureRevision e = structureRevision d \<and> shape e = shape d"

text \<open>
  The contract every mutation meets: the builder touches no file, the candidate fits the limit and
  advances the revision, and the result function succeeds on the committed document.
\<close>

definition good_build :: "store_env \<Rightarrow> (TabDocument \<Rightarrow> (TabDocument \<times> 'a store) option store) \<Rightarrow> bool" where
  "good_build V build \<longleftrightarrow> (\<forall>d. store_files.keeps (build d)) \<and>
     (\<forall>cur s nxt res u. parseDocument (text_rules V) cur = Some cur \<longrightarrow>
        length (tabs cur) \<le> sessionMaxCount s \<longrightarrow> build cur s = (Inr (Some (nxt, res)), u) \<longrightarrow>
        length (tabs nxt) \<le> sessionMaxCount s \<and> advances cur nxt \<and>
        parseDocument (text_rules V) nxt = Some nxt) \<and>
     (\<forall>cur s nxt res u. build cur s = (Inr (Some (nxt, res)), u) \<longrightarrow>
        store_files.keeps res \<and> (\<forall>v. document v = Some nxt \<longrightarrow> (\<exists>x. fst (res v) = Inr x)))"

lemma candidate_stable: "unicode_ok (text_rules V) \<Longrightarrow> candidate V cur ts d \<Longrightarrow> parseDocument (text_rules V) d = Some d"
  unfolding candidate_def by (rule parseDocument_stable)

lemma candidate_advances: "candidate V cur ts d \<Longrightarrow> advances cur d"
  by (simp add: advances_def candidate_facts)

lemma findTab_files: "store_files.keeps (findTab i)"
  unfolding findTab_def by (intro store_files.keeps_bind requireDocument_files requireTab_files)

lemma findTab_run:
  "document v = Some d \<Longrightarrow> findTab i v =
     ((case find (\<lambda>t. tab_id t = i) (tabs d) of None \<Rightarrow> Inl TabNotFound | Some t \<Rightarrow> Inr t), v)"
  by (simp add: findTab_def requireDocument_def requireTab_def em_simps split: option.split)

lemma findTab_succeeds:
  assumes "document v = Some d" "i \<in> set (map tab_id (tabs d))"
  shows "\<exists>x. fst (findTab i v) = Inr x"
proof -
  have "find (\<lambda>t. tab_id t = i) (tabs d) \<noteq> None" using assms(2) by (auto simp: find_None_iff)
  with findTab_run [OF assms(1), of i] show ?thesis by (auto split: option.splits)
qed

lemma good_structural:
  assumes "unicode_ok (text_rules V)" "\<And>d. store_files.keeps (build d)"
    and cand: "\<And>cur s nxt res u. build cur s = (Inr (Some (nxt, res)), u) \<Longrightarrow>
      \<exists>ts. candidate V cur ts nxt \<and> (length ts \<le> sessionMaxCount s \<or> length ts \<le> length (tabs cur))"
    and res: "\<And>cur s nxt res u. build cur s = (Inr (Some (nxt, res)), u) \<Longrightarrow>
      store_files.keeps res \<and> (\<forall>v. document v = Some nxt \<longrightarrow> (\<exists>x. fst (res v) = Inr x))"
  shows "good_build V build"
  unfolding good_build_def
proof (intro conjI allI impI, goal_cases)
  case (2 cur s nxt res u)
  from cand [OF 2(3)] obtain ts where "candidate V cur ts nxt"
    "length ts \<le> sessionMaxCount s \<or> length ts \<le> length (tabs cur)" by blast
  with 2(2) candidate_facts(3) [of V cur ts nxt] show ?case by auto
next
  case (3 cur s nxt res u)
  then show ?case using cand [OF 3(3)] candidate_advances by blast
next
  case (4 cur s nxt res u)
  then show ?case using cand [OF 4(3)] candidate_stable [OF assms(1)] by blast
qed (use assms(2) res in blast)+

lemma findTab_good:
  assumes "candidate V cur ts nxt" "i \<in> set (map tab_id ts)"
  shows "store_files.keeps (findTab i) \<and>
    (\<forall>v. document v = Some nxt \<longrightarrow> (\<exists>x. fst (findTab i v) = Inr x))"
  using findTab_files findTab_succeeds assms candidate_facts(2) [OF assms(1)] by metis

lemma ret_good: "store_files.keeps (ret x) \<and> (\<forall>v. document v = Some nxt \<longrightarrow> (\<exists>y. fst (ret x v) = Inr y))"
  by (auto simp: ret_def store_files.keeps_def store_files.R_refl)

lemma good_create: "unicode_ok (text_rules V) \<Longrightarrow> good_build V (build_create V tick name)"
proof (rule good_structural, goal_cases)
  case (2 d)
  show ?case unfolding build_create_def by (intro store_files.keeps_intros build_files)
next
  case (3 cur s nxt res u)
  then show ?case using build_create_run(1,2) [OF 3(2)] by fastforce
next
  case (4 cur s nxt res u)
  obtain n where "candidate V cur (tabs cur @ [new_tab V tick (randomUUID V (uuids s)) n (length (tabs cur))]) nxt"
    using build_create_run(2) [OF 4(2)] by blast
  from findTab_good [OF this, of "randomUUID V (uuids s)"] show ?case
    unfolding build_create_run(3) [OF 4(2)] by (simp add: new_tab_def)
qed

lemma good_ensure: "unicode_ok (text_rules V) \<Longrightarrow> good_build V (build_ensureInitialTab V tick)"
proof (rule good_structural, goal_cases)
  case (2 d)
  show ?case unfolding build_ensureInitialTab_def by (intro store_files.keeps_intros build_files)
next
  case (3 cur s nxt res u)
  then show ?case using build_ensure_run(2,3) [OF 3(2)] by fastforce
next
  case (4 cur s nxt res u)
  from findTab_good [OF build_ensure_run(3) [OF 4(2)], of "randomUUID V (uuids s)"] show ?case
    unfolding build_ensure_run(4) [OF 4(2)] by (simp add: new_tab_def)
qed

lemma good_rename: "unicode_ok (text_rules V) \<Longrightarrow> good_build V (build_rename V i name)"
proof (rule good_structural, goal_cases)
  case (2 d)
  show ?case unfolding build_rename_def by (intro store_files.keeps_intros build_files)
next
  case (3 cur s nxt res u)
  then show ?case using build_rename_run(3) [OF 3(2)] by fastforce
next
  case (4 cur s nxt res u)
  obtain n where c: "candidate V cur (map (\<lambda>t. if tab_id t = i then t\<lparr>displayName := n\<rparr> else t) (tabs cur)) nxt"
    using build_rename_run(3) [OF 4(2)] by blast
  have "i \<in> set (map tab_id (map (\<lambda>t. if tab_id t = i then t\<lparr>displayName := n\<rparr> else t) (tabs cur)))"
    using build_rename_run(1) [OF 4(2)] by (force simp: image_iff)
  from findTab_good [OF c this] show ?case unfolding build_rename_run(2) [OF 4(2)] .
qed

lemma good_setDesiredState: "unicode_ok (text_rules V) \<Longrightarrow> good_build V (build_setDesiredState V i st)"
proof (rule good_structural, goal_cases)
  case (2 d)
  show ?case unfolding build_setDesiredState_def by (intro store_files.keeps_intros build_files)
next
  case (3 cur s nxt res u)
  then show ?case using build_setDesiredState_run(3) [OF 3(2)] by fastforce
next
  case (4 cur s nxt res u)
  have "i \<in> set (map tab_id (map (\<lambda>t. if tab_id t = i then t\<lparr>desiredState := st\<rparr> else t) (tabs cur)))"
    using build_setDesiredState_run(1) [OF 4(2)] by (force simp: image_iff)
  from findTab_good [OF build_setDesiredState_run(3) [OF 4(2)] this] show ?case
    unfolding build_setDesiredState_run(2) [OF 4(2)] .
qed

lemma good_reorder: "unicode_ok (text_rules V) \<Longrightarrow> good_build V (build_reorder V rv ids)"
proof (rule good_structural, goal_cases)
  case (2 d)
  show ?case unfolding build_reorder_def by (intro store_files.keeps_intros build_files)
next
  case (3 cur s nxt res u)
  have "length (reordered (tabs cur) ids) \<le> length (tabs cur)" using build_reorder_run(2) [OF 3(2)] by simp
  then show ?case using build_reorder_run(5) [OF 3(2)] by blast
next
  case (4 cur s nxt res u)
  show ?case unfolding build_reorder_run(6) [OF 4(2)] store_snapshot_def
    using requireDocument_files by (auto simp: requireDocument_def em_simps)
qed

lemma good_remove: "unicode_ok (text_rules V) \<Longrightarrow> good_build V (build_remove V i)"
proof (rule good_structural, goal_cases)
  case (2 d)
  show ?case unfolding build_remove_def by (intro store_files.keeps_intros build_files)
next
  case (3 cur s nxt res u)
  have "length (renumbered (filter (\<lambda>t. tab_id t \<noteq> i) (tabs cur))) \<le> length (tabs cur)" by simp
  then show ?case using build_remove_run(3) [OF 3(2)] by blast
next
  case (4 cur s nxt res u)
  show ?case unfolding build_remove_run(2) [OF 4(2)] by (rule ret_good)
qed

lemma good_flush:
  assumes "unicode_ok (text_rules V)"
  shows "good_build V (build_flushActivity V ids stamp)"
  unfolding good_build_def
proof (intro conjI allI impI, goal_cases)
  case (1 d)
  show ?case unfolding build_flushActivity_def by (intro store_files.keeps_intros build_files)
next
  case (2 cur s nxt res u)
  then show ?case using parseDocument_Some(4) [OF build_flush_run(2) [OF 2(3)]] by simp
next
  case (3 cur s nxt res u)
  have "nxt = cur\<lparr>tabs := map (\<lambda>t. if tab_id t \<in> set ids then t\<lparr>lastActivityAt := stamp\<rparr> else t) (tabs cur)\<rparr>"
    by (rule parseDocument_exact [OF build_flush_run(2) [OF 3(3)]])
       (use stable_names [OF 3(1)] in auto)
  then show ?case by (simp add: advances_def shape_def)
next
  case (4 cur s nxt res u)
  then show ?case using parseDocument_stable [OF assms build_flush_run(2)] by blast
next
  case (5 cur s nxt res u)
  show ?case unfolding build_flush_run(1) [OF 5(1)] using ret_good by blast
next
  case (6 cur s nxt res u v)
  then show ?case using build_flush_run(1) [OF 6(1)] by (simp add: ret_def)
qed

lemmas good_builds = good_create good_ensure good_rename good_reorder good_setDesiredState
  good_remove good_flush

lemma store_inv_stored:
  assumes "store_inv V s" "document s = Some d"
  shows "document_ok (text_rules V) d" "parseDocument (text_rules V) d = Some d"
    "length (tabs d) \<le> sessionMaxCount s" "\<exists>c. primary s = Some c \<and> reads_as V c d"
  using assms by (auto simp: store_inv_def split: option.splits)

lemma mutate_good:
  assumes "good_build V build" "store_inv V s" "mutate V build s = (r, t)"
  shows "rolled_back s t \<and> (r = Inr None \<or> (\<exists>e. r = Inl e)) \<or>
    (\<exists>cur d res u v x. document s = Some cur \<and> build cur s = (Inr (Some (d, res)), u) \<and> r = Inr (Some x) \<and>
       committed V s d v \<and> res v = (Inr x, t) \<and> committed V s d t \<and> parseDocument (text_rules V) d = Some d \<and>
       length (tabs d) \<le> sessionMaxCount s \<and> advances cur d)"
proof -
  have files: "store_files.keeps (build d)" for d using assms(1) by (simp add: good_build_def)
  have res: "store_files.keeps q" if "build d z = (Inr (Some (n, q)), u)" for d z n q u
    using assms(1) that unfolding good_build_def by blast
  have "rolled_back s t \<and> (r = Inr None \<or> (\<exists>e. r = Inl e)) \<or>
    (\<exists>cur nxt q u d v r'. document s = Some cur \<and> build cur s = (Inr (Some (nxt, q)), u) \<and>
       parseDocument (text_rules V) nxt = Some d \<and> committed V s d v \<and> q v = (r', t) \<and>
       r = map_sum id Some r' \<and> committed V s d t)"
    by (rule mutate_run [OF assms(3) files]) (rule res)
  then show ?thesis
  proof (elim disjE exE conjE, goal_cases)
    case 1
    then show ?case by blast
  next
    case 2
    then show ?case by blast
  next
    case (3 cur nxt q u d v r')
    note cur = store_inv_stored [OF assms(2) 3(1)]
    have nxt: "length (tabs nxt) \<le> sessionMaxCount s" "advances cur nxt"
      "parseDocument (text_rules V) nxt = Some nxt"
      using assms(1) cur(2,3) 3(2) unfolding good_build_def by blast+
    with 3(3) have d: "d = nxt" by simp
    have "document v = Some nxt" using 3(4) d by (simp add: committed_def)
    then obtain x where "fst (q v) = Inr x" using assms(1) 3(2) unfolding good_build_def by blast
    with 3(5) have "r' = Inr x" by simp
    with 3 nxt d show ?case by auto
  qed
qed

lemma void_Inl: "void m s = (Inl e, t) \<longleftrightarrow> m s = (Inl e, t)"
  by (auto simp: void_def em_simps split: prod.splits sum.splits)

lemma void_Inr: "void m s = (Inr (), t) \<longleftrightarrow> (\<exists>x. m s = (Inr x, t))"
  by (auto simp: void_def em_simps split: prod.splits sum.splits)

definition step_ok :: "store_env \<Rightarrow> TabStore \<Rightarrow> (store_error + unit) \<Rightarrow> TabStore \<Rightarrow> bool" where
  "step_ok V s r t \<longleftrightarrow> rolled_back s t \<or>
     r = Inr () \<and> (\<exists>cur d. document s = Some cur \<and> committed V s d t \<and>
       parseDocument (text_rules V) d = Some d \<and> length (tabs d) \<le> sessionMaxCount s \<and> advances cur d)"

lemma void_mutate:
  assumes "good_build V build" "store_inv V s" "void (mutate V build) s = (r, t)"
  shows "step_ok V s r t"
proof (cases r)
  case (Inl e)
  then have "mutate V build s = (Inl e, t)" using assms(3) by (simp add: void_Inl)
  from mutate_good [OF assms(1,2) this] show ?thesis by (auto simp: step_ok_def)
next
  case (Inr x)
  then obtain y where "mutate V build s = (Inr y, t)" using assms(3) by (auto simp: void_Inr)
  from mutate_good [OF assms(1,2) this] Inr show ?thesis by (auto simp: step_ok_def)
qed

lemmas op_defs = store_create_def store_ensureInitialTab_def store_rename_def store_reorder_def
  store_setDesiredState_def store_remove_def store_flushActivity_def

lemma perform_step:
  assumes "env_ok V" "store_inv V s" "perform V op s = (r, t)"
  shows "step_ok V s r t"
proof -
  have u: "unicode_ok (text_rules V)" using assms(1) by (simp add: env_ok_def)
  show ?thesis
    using assms(3) by (cases op) (auto simp: op_defs intro: void_mutate [OF _ assms(2)] good_builds [OF u])
qed

lemma serialized_reads:
  "env_ok V \<Longrightarrow> committed V s d t \<Longrightarrow> parseDocument (text_rules V) d = Some d \<Longrightarrow> reads_as V (serialize V d) d"
  by (simp add: reads_as_def committed_def env_ok_def)

lemma committed_inv:
  assumes "env_ok V" "committed V s d t" "parseDocument (text_rules V) d = Some d"
    "length (tabs d) \<le> sessionMaxCount s"
  shows "store_inv V t"
  using assms serialized_reads [OF assms(1-3)] parseDocument_Some(1) [OF assms(3)]
  by (simp add: store_inv_def committed_def)

lemma rolled_back_inv: "same_store s t \<Longrightarrow> store_inv V s \<Longrightarrow> store_inv V t"
  by (simp add: same_store_def store_inv_def split: option.splits)

lemma step_inv: "env_ok V \<Longrightarrow> store_inv V s \<Longrightarrow> step_ok V s r t \<Longrightarrow> store_inv V t"
  unfolding step_ok_def by (blast intro: committed_inv rolled_back_inv rolled_back_store)

definition store_exec :: "store_env \<Rightarrow> store_op \<Rightarrow> TabStore \<Rightarrow> TabStore" where
  "store_exec V op s = snd (perform V op s)"

lemma store_exec_inv: "env_ok V \<Longrightarrow> store_inv V s \<Longrightarrow> store_inv V (store_exec V op s)"
  unfolding store_exec_def by (metis perform_step step_inv surjective_pairing)

lemma store_fold_inv: "env_ok V \<Longrightarrow> store_inv V s \<Longrightarrow> store_inv V (fold (store_exec V) ops s)"
  by (induction ops arbitrary: s) (auto intro: store_exec_inv)

section \<open>Reading the document back\<close>

lemma read_loop_complete:
  "read_loop content got sc = (Inr n, sc') \<Longrightarrow> got \<le> length content \<Longrightarrow>
   length content \<le> MAX_DOCUMENT_BYTES \<Longrightarrow> n = length content"
proof (induction content got sc rule: read_loop.induct)
  case (1 content got sc)
  let ?x = "if sc = [] then Succeeds else hd sc"
  let ?left = "min (MAX_DOCUMENT_BYTES + 1 - got) (length content - got)"
  have left: "?left = length content - got" "\<not> MAX_DOCUMENT_BYTES + 1 \<le> got" using 1(4,5) by auto
  note unfold = 1(3) [unfolded read_loop.simps [of content got sc] Let_def left if_not_P [OF left(2)]]
  show ?case
  proof (cases "length content - got = 0")
    case True
    then show ?thesis using unfold 1(4) by (auto split: syscall.splits if_splits)
  next
    case False
    note ih = 1(1,2) [OF left(2) refl refl refl]
    show ?thesis
    proof (cases ?x)
      case Succeeds
      then have "read_loop content (got + (length content - got)) (tl sc) = (Inr n, sc')"
        using unfold False by simp
      then show ?thesis using ih(1) [OF Succeeds] left False 1(4,5) by simp
    next
      case (ShortRead k)
      then have "read_loop content (got + min (Suc k) (length content - got)) (tl sc) = (Inr n, sc')"
        using unfold False by simp
      then show ?thesis using ih(2) [OF ShortRead] left False 1(4,5) by simp
    qed (use unfold in auto)
  qed
qed

lemma read_loop_reliable:
  "got \<le> length content \<Longrightarrow> length content \<le> MAX_DOCUMENT_BYTES \<Longrightarrow>
   read_loop content got [] = (Inr (length content), [])"
proof (induction "length content - got" arbitrary: got rule: less_induct)
  case less
  have left: "min (MAX_DOCUMENT_BYTES + 1 - got) (length content - got) = length content - got"
    "\<not> MAX_DOCUMENT_BYTES + 1 \<le> got" using less.prems by auto
  show ?case
  proof (cases "length content - got = 0")
    case True
    then have "got = length content" using less.prems by simp
    then show ?thesis using left unfolding read_loop.simps [of content got] by simp
  next
    case False
    have "read_loop content (length content) [] = (Inr (length content), [])"
      using less.hyps [of "length content"] False less.prems by simp
    then show ?thesis using left False less.prems unfolding read_loop.simps [of content got] by simp
  qed
qed

lemma read_file_run:
  assumes "read_file content s = (r, t)"
  shows "same_files s t" "r = Inr bytes \<Longrightarrow> bytes = content \<and> length content \<le> MAX_DOCUMENT_BYTES"
proof -
  obtain r' u where u: "sys s = (r', u)" by (metis surj_pair)
  have su: "same_files s u" by (rule sys_run [OF u])
  obtain q sc where q: "read_loop content 0 (script u) = (q, sc)" by (metis surj_pair)
  show "same_files s t"
    using assms u su q
    by (cases r'; cases q) (auto simp: read_file_def bind_apply same_files_def same_store_def split: if_splits)
  show "bytes = content \<and> length content \<le> MAX_DOCUMENT_BYTES" if r: "r = Inr bytes"
  proof -
    have "\<exists>n. q = Inr n \<and> length content \<le> MAX_DOCUMENT_BYTES \<and> bytes = take n content"
      using assms u q r by (cases r'; cases q) (auto simp: read_file_def bind_apply split: if_splits)
    then obtain n where "q = Inr n" "length content \<le> MAX_DOCUMENT_BYTES" "bytes = take n content" by blast
    with read_loop_complete [of content 0 "script u" n sc] q show ?thesis by simp
  qed
qed

lemma read_file_files: "store_files.keeps (read_file content)"
  by (rule store_files.keepsI) (metis read_file_run(1) surjective_pairing)

lemma readPrimary_files: "store_files.keeps (readPrimary V)"
  unfolding readPrimary_def
  by (intro store_files.keeps_intros sys_files read_file_files)

lemma readPrimary_run:
  assumes "readPrimary V s = (Inr d, t)"
  shows "same_files s t" "\<exists>c. primary s = Some c \<and> reads_as V c d" "length (tabs d) \<le> sessionMaxCount s"
proof -
  show "same_files s t" using store_files.keepsD [OF readPrimary_files, of s V] assms by simp
  obtain s1 where 1: "sys s = (Inr (), s1)" "same_files s s1"
    using assms sys_run by (auto simp: readPrimary_def bind_Inr)
  obtain c where c: "primary s1 = Some c" using assms 1(1) by (auto simp: readPrimary_def run_simps split: option.splits)
  obtain r2 s2 where 2: "read_file c s1 = (r2, s2)" by (metis surj_pair)
  obtain s3 where 3: "sys s2 = (Inr (), s3)"
    using assms 1(1) c 2 by (auto simp: readPrimary_def run_simps attempt_def)
  obtain bytes where r2: "r2 = Inr bytes"
    using assms 1(1) c 2 3 by (cases r2) (auto simp: readPrimary_def run_simps attempt_def)
  have d: "decode_document V (sessionMaxCount s3) bytes = Some d"
    using assms 1(1) c 2 3 r2 by (auto simp: readPrimary_def run_simps attempt_def split: option.splits)
  have files: "same_files s s3"
    using 1(2) read_file_run(1) [OF 2] sys_run [OF 3] by (blast intro: store_files.R_trans)
  have bytes: "bytes = c" "length c \<le> MAX_DOCUMENT_BYTES" using read_file_run(2) [OF 2 r2] by auto
  show "\<exists>c. primary s = Some c \<and> reads_as V c d"
    using c d bytes 1(2) unfolding reads_as_def decode_document_def
    by (intro exI [of _ c]) (auto simp: same_files_def same_store_def split: option.splits if_splits)
  show "length (tabs d) \<le> sessionMaxCount s"
    using d files by (auto simp: decode_document_def same_files_def same_store_def split: option.splits if_splits)
qed

lemma unlink_store: "store_io.keeps (fs_unlink name)"
  using unlink_one [of name] by (auto simp: store_one.keeps_def store_io.keeps_def others_same_def)

lemma files_store: "store_files.keeps m \<Longrightarrow> store_io.keeps m"
  by (auto simp: store_files.keeps_def store_io.keeps_def same_files_store)

lemma cleanup_names_store: "store_io.keeps (cleanup_names names)"
  by (induction names)
     (auto simp: ignore_def intro!: store_io.keeps_intros files_store [OF sys_files] unlink_store split: dirent.split)

lemma cleanupTemps_store: "store_io.keeps cleanupTemps"
  unfolding cleanupTemps_def
  by (intro store_io.keeps_bind store_io.keeps_attempt files_store [OF sys_files])
     (auto intro!: store_io.keeps_bind cleanup_names_store split: sum.split)

section \<open>Start-up\<close>

lemma ignore_returns: "fst (ignore m s) = Inr ()"
  by (simp add: ignore_def em_simps split: prod.split)

lemma cleanup_names_returns: "fst (cleanup_names names s) = Inr ()"
proof (induction names arbitrary: s)
  case (Cons name names)
  have returns: "fst (bind (ignore m) (\<lambda>_. cleanup_names names) s) = Inr ()" for m
    using ignore_returns [of m s] Cons.IH by (cases "ignore m s") (simp add: bind_apply)
  show ?case unfolding cleanup_names.simps by (rule returns)
qed (simp add: ret_def)

lemma cleanupTemps_returns: "fst (cleanupTemps s) = Inr ()"
  by (auto simp: cleanupTemps_def em_simps cleanup_names_returns split: prod.split sum.split)

lemma cleanupTemps_run:
  assumes "cleanupTemps s = (r, t)"
  shows "r = Inr ()" "same_store s t"
  using cleanupTemps_returns [of s] store_io.keepsD [OF cleanupTemps_store, of s] assms by simp_all

lemma empty_document_parses: "parseDocument U empty_document = Some empty_document"
  by (simp add: parseDocument_def empty_document_def safe_int_def MAX_SAFE_INTEGER_def)

lemma load_document_run:
  assumes "load_document V s = (r, t)" "document s = None" "env_ok V"
  shows "sessionMaxCount t = sessionMaxCount s \<and>
    (case r of
       Inl _ \<Rightarrow> document t = None \<and> primary t = primary s
     | Inr d \<Rightarrow> (document t = None \<or> document t = Some d) \<and> store_inv V (t\<lparr>document := Some d\<rparr>))"
proof -
  obtain q u where u: "readPrimary V s = (q, u)" by (metis surj_pair)
  have su: "same_files s u" using store_files.keepsD [OF readPrimary_files, of s V] u by simp
  show ?thesis
  proof (cases q)
    case (Inr d)
    note run = readPrimary_run [OF u [unfolded Inr]]
    have "parseDocument (text_rules V) d = Some d"
      using run(2) assms(3) by (auto simp: reads_as_def env_ok_def split: option.splits intro: parseDocument_stable)
    then have "store_inv V (u\<lparr>document := Some d\<rparr>)"
      using run su parseDocument_Some(1) by (auto simp: store_inv_def same_files_def same_store_def)
    then show ?thesis using assms u Inr su
      by (auto simp: load_document_def em_simps same_files_def same_store_def store_inv_def)
  next
    case (Inl e)
    show ?thesis
    proof (cases "e = SystemError ''ENOENT''")
      case False
      with assms u Inl su show ?thesis
        by (auto simp: load_document_def em_simps same_files_def same_store_def)
    next
      case True
      obtain p v where p: "persist V empty_document u = (p, v)" by (metis surj_pair)
      have run: "(r, t) = (map_sum id (\<lambda>_. empty_document) p, v)"
        using assms(1) u Inl True p
        by (cases p) (auto simp: load_document_def em_simps empty_document_parses)
      show ?thesis
      proof (cases p)
        case (Inl e')
        with persist_run [OF p] have "same_store u v" by (simp add: rolled_back_store)
        with run Inl assms(2) su show ?thesis by (auto simp: same_files_def same_store_def)
      next
        case (Inr x)
        with persist_run [OF p] have c: "committed V u empty_document v" by (simp add: empty_document_parses)
        have "store_inv V v"
          by (rule committed_inv [OF assms(3) c empty_document_parses]) (simp add: empty_document_def)
        with run Inr c su show ?thesis
          by (auto simp: committed_def same_files_def same_store_def store_inv_def)
      qed
    qed
  qed
qed

lemma initialize_run:
  assumes "initialize V s = (r, t)" "document s = None" "env_ok V"
  shows "sessionMaxCount t = sessionMaxCount s \<and>
    (case r of
       Inl _ \<Rightarrow> document t = None \<and> primary t = primary s
     | Inr _ \<Rightarrow> document t \<noteq> None \<and> store_inv V t)"
proof -
  obtain r1 s1 where 1: "sys s = (r1, s1)" by (metis surj_pair)
  have s1: "same_files s s1" by (rule sys_run [OF 1])
  obtain r2 s2 where 2: "load_document V s1 = (r2, s2)" by (metis surj_pair)
  note load = load_document_run [OF 2 _ assms(3)]
  have s1d: "document s1 = None" using s1 assms(2) by (simp add: same_files_def same_store_def)
  show ?thesis
  proof (cases "\<exists>x d. r1 = Inr x \<and> r2 = Inr d")
    case False
    then show ?thesis using assms(1,2) 1 2 s1 s1d load
      by (auto simp: initialize_def em_simps same_files_def same_store_def split: sum.splits)
  next
    case True
    then obtain d where d: "r1 = Inr ()" "r2 = Inr d" by auto
    let ?s3 = "case document s2 of None \<Rightarrow> s2\<lparr>document := Some d\<rparr> | Some _ \<Rightarrow> s2"
    have l: "document s2 = None \<or> document s2 = Some d" "store_inv V (s2\<lparr>document := Some d\<rparr>)"
      "sessionMaxCount s2 = sessionMaxCount s1"
      using load s1d d by simp_all
    then have s3: "document ?s3 = Some d" "store_inv V ?s3" "sessionMaxCount ?s3 = sessionMaxCount s1"
      by (auto simp: store_inv_def split: option.split)
    have run: "cleanupTemps ?s3 = (r, t)" using assms(1,2) 1 2 d by (simp add: initialize_def em_simps)
    note c = cleanupTemps_run [OF run]
    show ?thesis using c s3 s1 rolled_back_inv [OF c(2) s3(2)]
      by (simp add: same_files_def same_store_def)
  qed
qed

lemma sys_reliable: "script s = [] \<Longrightarrow> sys s = (Inr (), s)"
  by (simp add: sys_def next_syscall_def em_simps)

lemma readPrimary_reliable:
  assumes "script s = []" "primary s = Some c" "reads_as V c d" "length (tabs d) \<le> sessionMaxCount s"
  shows "readPrimary V s = (Inr d, s)"
proof -
  have len: "length c \<le> MAX_DOCUMENT_BYTES" and dec: "decode_document V (sessionMaxCount s) c = Some d"
    using assms(3,4) by (auto simp: reads_as_def decode_document_def split: option.splits)
  have "read_file c s = (Inr c, s)"
    using len assms(1) read_loop_reliable [of 0 c] by (simp add: read_file_def bind_apply sys_reliable)
  then show ?thesis using dec assms(1,2) by (simp add: readPrimary_def em_simps sys_reliable)
qed

lemma cleanup_names_reliable:
  "script s = [] \<Longrightarrow> \<exists>t. cleanup_names names s = (Inr (), t) \<and> script t = [] \<and>
     (\<forall>n. jm_get (temporaries t) n =
        (case jm_get (temporaries s) n of
           Some (Regular c) \<Rightarrow> if n \<in> set names then None else Some (Regular c)
         | f \<Rightarrow> f))"
proof (induction names arbitrary: s)
  case Nil
  then show ?case by (auto simp: ret_def split: option.split dirent.split)
next
  case (Cons name names)
  let ?u = "case jm_get (temporaries s) name of
      Some (Regular _) \<Rightarrow> s\<lparr>temporaries := jm_delete (temporaries s) name\<rparr> | _ \<Rightarrow> s"
  have run: "cleanup_names (name # names) s = cleanup_names names ?u"
    using Cons.prems
    by (simp add: ignore_def em_simps sys_reliable fs_unlink_def split: option.split dirent.split)
  have "script ?u = []" using Cons.prems by (simp split: option.split dirent.split)
  from Cons.IH [OF this] obtain t where t: "cleanup_names names ?u = (Inr (), t)" "script t = []"
    "\<forall>n. jm_get (temporaries t) n = (case jm_get (temporaries ?u) n of
       Some (Regular c) \<Rightarrow> if n \<in> set names then None else Some (Regular c) | f \<Rightarrow> f)" by blast
  have "jm_get (temporaries t) n = (case jm_get (temporaries s) n of
       Some (Regular c) \<Rightarrow> if n \<in> set (name # names) then None else Some (Regular c) | f \<Rightarrow> f)" for n
    unfolding t(3) [rule_format]
    by (cases "n = name") (auto split: option.split dirent.split)
  with run t show ?case by auto
qed

text \<open>A restart on what the disk holds, with a file system that works.\<close>

lemma restart_reliable:
  assumes "store_inv V s" "document s = Some d"
  shows "\<exists>t. initialize V (new_store (sessionMaxCount s) (primary s) (temporaries s) []) = (Inr (), t) \<and>
    document t = Some d \<and> ready t \<and> primary t = primary s \<and>
    (\<forall>n c. matches TEMP_FILENAME_PATTERN n \<longrightarrow> jm_get (temporaries t) n \<noteq> Some (Regular c))"
proof -
  let ?s0 = "new_store (sessionMaxCount s) (primary s) (temporaries s) []"
  note inv = store_inv_stored [OF assms]
  from inv(4) obtain c where c: "primary s = Some c" "reads_as V c d" by blast
  have read: "readPrimary V ?s0 = (Inr d, ?s0)"
    by (rule readPrimary_reliable [of _ c]) (use c inv(3) in \<open>simp_all add: new_store_def\<close>)
  let ?s1 = "?s0\<lparr>ready := True, document := Some d\<rparr>"
  let ?names = "filter (matches TEMP_FILENAME_PATTERN) (jm_keys (temporaries s))"
  obtain t where t: "cleanup_names ?names ?s1 = (Inr (), t)"
    "\<forall>n. jm_get (temporaries t) n = (case jm_get (temporaries ?s1) n of
        Some (Regular c) \<Rightarrow> if n \<in> set ?names then None else Some (Regular c) | f \<Rightarrow> f)"
    using cleanup_names_reliable [of ?s1 ?names] by (auto simp: new_store_def)
  have clean: "cleanupTemps ?s1 = (Inr (), t)"
    using t(1) by (simp add: cleanupTemps_def em_simps sys_reliable new_store_def)
  have run: "initialize V ?s0 = (Inr (), t)"
    using clean read by (simp add: initialize_def load_document_def em_simps sys_reliable new_store_def)
  have "jm_get (temporaries t) n \<noteq> Some (Regular x)" if "matches TEMP_FILENAME_PATTERN n" for n x
  proof
    assume "jm_get (temporaries t) n = Some (Regular x)"
    then have "n \<notin> set ?names" "jm_get (temporaries s) n = Some (Regular x)"
      using t(2) by (auto simp: new_store_def split: option.splits dirent.splits if_splits)
    with that show False by (auto dest!: map_of_SomeD simp: image_iff)
  qed
  with run cleanupTemps_run(2) [OF clean] show ?thesis by (auto simp: same_store_def new_store_def)
qed

section \<open>Structure revision\<close>

definition revision :: "TabStore \<Rightarrow> unit \<Rightarrow> nat" where
  "revision s _ = (case document s of None \<Rightarrow> 0 | Some d \<Rightarrow> Suc (structureRevision d))"

definition reshaped :: "store_env \<Rightarrow> store_op \<Rightarrow> TabStore \<Rightarrow> unit set" where
  "reshaped V op s =
     (if map_option shape (document (store_exec V op s)) = map_option shape (document s) then {} else {()})"

lemma step_revision:
  assumes "step_ok V s r t"
  shows "revision s k \<le> revision t k"
    "map_option shape (document t) \<noteq> map_option shape (document s) \<Longrightarrow> revision s k < revision t k"
  using assms
  by (auto simp: step_ok_def revision_def committed_def advances_def same_store_def
      dest!: rolled_back_store split: option.splits)

interpretation revisions: generation_source "store_exec V" revision "reshaped V"
  "\<lambda>s. env_ok V \<and> store_inv V s" for V
proof
  fix s e and k :: unit
  assume s: "env_ok V \<and> store_inv V s"
  have ok: "step_ok V s (fst (perform V e s)) (store_exec V e s)"
    unfolding store_exec_def by (rule perform_step) (use s in simp_all)
  show "env_ok V \<and> store_inv V (store_exec V e s)" using s step_inv [OF _ _ ok] by blast
  show "revision s k \<le> revision (store_exec V e s) k" by (rule step_revision(1) [OF ok])
  show "revision s k < revision (store_exec V e s) k" if "k \<in> reshaped V e s"
    by (rule step_revision(2) [OF ok]) (use that in \<open>simp add: reshaped_def split: if_splits\<close>)
qed

lemma untouched_shape:
  "\<not> revisions.touches V () ops s \<Longrightarrow>
   map_option shape (document (fold (store_exec V) ops s)) = map_option shape (document s)"
proof (induction ops arbitrary: s)
  case (Cons op ops)
  then have "() \<notin> reshaped V op s" "\<not> revisions.touches V () ops (store_exec V op s)"
    by (auto simp: revisions.touches_Cons)
  moreover have "map_option shape (document (store_exec V op s)) = map_option shape (document s)"
    if "() \<notin> reshaped V op s" using that by (simp add: reshaped_def split: if_splits)
  ultimately show ?case using Cons.IH by simp
qed simp

section \<open>The contract for the session manager\<close>

text \<open>
  The interface \<open>SessionTabStore\<close> of \<open>apps/server/src/session-manager.ts\<close>: two synchronous readers and
  two asynchronous mutations. The laws say what a mutation does to the document and that a failed one
  does nothing.
\<close>

record 't SessionTabStore =
  ts_snapshot :: "'t \<Rightarrow> store_error + TabDocument"
  ts_has :: "string \<Rightarrow> 't \<Rightarrow> store_error + bool"
  ts_setDesiredState :: "string \<Rightarrow> DesiredState \<Rightarrow> ('t, store_error, unit) em"
  ts_remove :: "string \<Rightarrow> ('t, store_error, unit) em"

definition with_state :: "string \<Rightarrow> DesiredState \<Rightarrow> TabRecord list \<Rightarrow> TabRecord list" where
  "with_state i st ts = map (\<lambda>t. if tab_id t = i then t\<lparr>desiredState := st\<rparr> else t) ts"

definition wants :: "DesiredState \<Rightarrow> TabDocument option \<Rightarrow> string \<Rightarrow> bool" where
  "wants st d i \<longleftrightarrow> (\<exists>x t. d = Some x \<and> t \<in> set (tabs x) \<and> tab_id t = i \<and> desiredState t = st)"

locale session_tab_store =
  fixes S :: "'t SessionTabStore" and doc :: "'t \<Rightarrow> TabDocument option" and tabs_valid :: "'t \<Rightarrow> bool"
  assumes snapshot_law: "ts_snapshot S t = (case doc t of None \<Rightarrow> Inl NotInitialized | Some d \<Rightarrow> Inr d)"
    and has_law: "ts_has S i t = (case doc t of None \<Rightarrow> Inl NotInitialized | Some d \<Rightarrow> Inr (i \<in> tab_id ` set (tabs d)))"
    and distinct_law: "tabs_valid t \<Longrightarrow> doc t = Some d \<Longrightarrow> distinct (map tab_id (tabs d))"
    and set_law: "tabs_valid t \<Longrightarrow> ts_setDesiredState S i st t = (r, u) \<Longrightarrow> tabs_valid u \<and>
      (case r of
         Inl _ \<Rightarrow> doc u = doc t
       | Inr _ \<Rightarrow> \<exists>d e. doc t = Some d \<and> doc u = Some e \<and> i \<in> tab_id ` set (tabs d) \<and> tabs e = with_state i st (tabs d))"
    and remove_law: "tabs_valid t \<Longrightarrow> ts_remove S i t = (r, u) \<Longrightarrow> tabs_valid u \<and>
      (case r of
         Inl _ \<Rightarrow> doc u = doc t
       | Inr _ \<Rightarrow> \<exists>d e. doc t = Some d \<and> doc u = Some e \<and>
           tabs e = renumbered (filter (\<lambda>t. tab_id t \<noteq> i) (tabs d)))"
begin

lemma wants_after_set:
  assumes "tabs_valid t" "ts_setDesiredState S i st t = (Inr (), u)"
  shows "wants st (doc u) i" "j \<noteq> i \<Longrightarrow> wants st' (doc u) j = wants st' (doc t) j"
    "st' \<noteq> st \<Longrightarrow> \<not> wants st' (doc u) i"
proof -
  from set_law [OF assms] obtain d e where d: "doc t = Some d" "doc u = Some e" "i \<in> tab_id ` set (tabs d)"
    "tabs e = with_state i st (tabs d)" by auto
  from d(3) obtain x where x: "x \<in> set (tabs d)" "tab_id x = i" by auto
  then have "x\<lparr>desiredState := st\<rparr> \<in> set (tabs e)" unfolding d(4) with_state_def by force
  with x d show "wants st (doc u) i" by (auto simp: wants_def intro!: bexI [of _ "x\<lparr>desiredState := st\<rparr>"])
  show "wants st' (doc u) j = wants st' (doc t) j" if "j \<noteq> i"
    using that d by (auto simp: wants_def with_state_def image_iff split: if_splits intro!: bexI)
  show "\<not> wants st' (doc u) i" if "st' \<noteq> st"
    using that d by (auto simp: wants_def with_state_def split: if_splits)
qed

lemma wants_after_remove:
  assumes "tabs_valid t" "ts_remove S i t = (Inr (), u)"
  shows "\<not> wants st (doc u) i" "j \<noteq> i \<Longrightarrow> wants st (doc u) j = wants st (doc t) j"
proof -
  from remove_law [OF assms] obtain d e where d: "doc t = Some d" "doc u = Some e"
    "tabs e = renumbered (filter (\<lambda>t. tab_id t \<noteq> i) (tabs d))" by auto
  let ?f = "filter (\<lambda>t. tab_id t \<noteq> i) (tabs d)"
  have mem: "(\<exists>x \<in> set (tabs e). tab_id x = j \<and> desiredState x = st) \<longleftrightarrow>
      (\<exists>x \<in> set ?f. tab_id x = j \<and> desiredState x = st)" for j st
  proof -
    have "(\<exists>k < length ?f. tab_id (renumbered ?f ! k) = j \<and> desiredState (renumbered ?f ! k) = st) \<longleftrightarrow>
        (\<exists>k < length ?f. tab_id (?f ! k) = j \<and> desiredState (?f ! k) = st)"
      by (auto simp: renumbered_nth)
    then show ?thesis unfolding d(3) by (metis in_set_conv_nth length_renumbered)
  qed
  show "\<not> wants st (doc u) i" using mem [of i st] d(2) by (auto simp: wants_def)
  show "wants st (doc u) j = wants st (doc t) j" if "j \<noteq> i"
    using mem [of j st] that d(1,2) by (auto simp: wants_def)
qed

end

definition store_ops :: "store_env \<Rightarrow> TabStore SessionTabStore" where
  "store_ops V = \<lparr>ts_snapshot = (\<lambda>t. fst (store_snapshot t)), ts_has = (\<lambda>i t. fst (store_has i t)),
     ts_setDesiredState = (\<lambda>i st. void (store_setDesiredState V i st)), ts_remove = (\<lambda>i. void (store_remove V i))\<rparr>"

lemma set_state_run:
  assumes "env_ok V" "store_inv V s" "void (store_setDesiredState V i st) s = (r, t)"
  shows "case r of
     Inl _ \<Rightarrow> document t = document s
   | Inr _ \<Rightarrow> \<exists>d e. document s = Some d \<and> document t = Some e \<and> i \<in> tab_id ` set (tabs d) \<and> tabs e = with_state i st (tabs d)"
proof (cases r)
  case (Inl err)
  from perform_step [OF assms(1,2), of "OpSetState i st" r t] assms(3) Inl show ?thesis
    by (auto simp: step_ok_def same_store_def dest!: rolled_back_store)
next
  case (Inr x)
  have u: "unicode_ok (text_rules V)" using assms(1) by (simp add: env_ok_def)
  obtain y where run: "mutate V (build_setDesiredState V i st) s = (Inr y, t)"
    using assms(3) Inr by (auto simp: store_setDesiredState_def void_Inr)
  show ?thesis
  proof (cases y)
    case (Some z)
    obtain cur d res w where m: "document s = Some cur" "build_setDesiredState V i st cur s = (Inr (Some (d, res)), w)"
      "committed V s d t" using mutate_good [OF good_setDesiredState [OF u] assms(2) run] Some by auto
    note b = build_setDesiredState_run [OF m(2)]
    have "d = \<lparr>structureRevision = Suc (structureRevision cur), tabs = with_state i st (tabs cur)\<rparr>"
      unfolding with_state_def
      by (rule candidate_exact [OF b(3)]) (use stable_names [OF store_inv_stored(2) [OF assms(2) m(1)]] in auto)
    with m b(1) Inr show ?thesis by (auto simp: committed_def)
  next
    case None
    have False
    proof (cases "document s")
      case (Some d)
      then show False using run None
        by (auto simp: mutate_def requireDocument_def build_setDesiredState_def run_simps structuralDocument_def
            requireTab_def split: option.splits)
    qed (use run in \<open>auto simp: mutate_def requireDocument_def run_simps\<close>)
    then show ?thesis ..
  qed
qed

lemma remove_run:
  assumes "env_ok V" "store_inv V s" "void (store_remove V i) s = (r, t)"
  shows "case r of
     Inl _ \<Rightarrow> document t = document s
   | Inr _ \<Rightarrow> \<exists>d e. document s = Some d \<and> document t = Some e \<and>
       tabs e = renumbered (filter (\<lambda>t. tab_id t \<noteq> i) (tabs d))"
proof (cases r)
  case (Inl err)
  from perform_step [OF assms(1,2), of "OpRemove i" r t] assms(3) Inl show ?thesis
    by (auto simp: step_ok_def same_store_def dest!: rolled_back_store)
next
  case (Inr x)
  have u: "unicode_ok (text_rules V)" using assms(1) by (simp add: env_ok_def)
  obtain y where run: "mutate V (build_remove V i) s = (Inr y, t)"
    using assms(3) Inr by (auto simp: store_remove_def void_Inr)
  show ?thesis
  proof (cases y)
    case (Some z)
    obtain cur d res w where m: "document s = Some cur" "build_remove V i cur s = (Inr (Some (d, res)), w)"
      "committed V s d t" using mutate_good [OF good_remove [OF u] assms(2) run] Some by auto
    note b = build_remove_run [OF m(2)]
    have "d = \<lparr>structureRevision = Suc (structureRevision cur), tabs = renumbered (filter (\<lambda>t. tab_id t \<noteq> i) (tabs cur))\<rparr>"
      by (rule candidate_exact [OF b(3)])
         (use stable_names [OF store_inv_stored(2) [OF assms(2) m(1)]] renumbered_names in fastforce)
    with m Inr show ?thesis by (auto simp: committed_def)
  next
    case None
    have False
    proof (cases "document s")
      case (Some d)
      then show False using run None
        by (auto simp: mutate_def requireDocument_def build_remove_def run_simps structuralDocument_def
            requireTab_def split: option.splits)
    qed (use run in \<open>auto simp: mutate_def requireDocument_def run_simps\<close>)
    then show ?thesis ..
  qed
qed

interpretation stored: session_tab_store "store_ops V" document "\<lambda>s. env_ok V \<and> store_inv V s" for V
proof (unfold_locales, goal_cases)
  case (1 t)
  show ?case by (simp add: store_ops_def store_snapshot_def requireDocument_def em_simps split: option.split)
next
  case (2 i t)
  show ?case
    by (auto simp: store_ops_def store_has_def requireDocument_def em_simps image_iff split: option.split)
next
  case (3 t d)
  then show ?case using store_inv_stored(1) [of V t d] by (simp add: document_ok_def tabs_ok_def)
next
  case (4 t i st r u)
  then have run: "void (store_setDesiredState V i st) t = (r, u)" by (simp add: store_ops_def)
  have "store_inv V u" using store_exec_inv [of V t "OpSetState i st"] 4(1) run by (simp add: store_exec_def)
  with set_state_run [of V t, OF _ _ run] 4(1) show ?case by simp
next
  case (5 t i r u)
  then have run: "void (store_remove V i) t = (r, u)" by (simp add: store_ops_def)
  have "store_inv V u" using store_exec_inv [of V t "OpRemove i"] 5(1) run by (simp add: store_exec_def)
  with remove_run [of V t, OF _ _ run] 5(1) show ?case by simp
qed

section \<open>Properties\<close>

text \<open>The stores a server can be in: started on any disk, then used.\<close>

definition started :: "store_env \<Rightarrow> TabStore \<Rightarrow> bool" where
  "started V s \<longleftrightarrow>
     (\<exists>n p ts sc s0 ops. initialize V (new_store n p ts sc) = (Inr (), s0) \<and> s = fold (store_exec V) ops s0)"

lemma started_inv:
  assumes "env_ok V" "started V s"
  shows "store_inv V s" "\<exists>d. document s = Some d"
proof -
  obtain n p ts sc s0 ops where s: "initialize V (new_store n p ts sc) = (Inr (), s0)" "s = fold (store_exec V) ops s0"
    using assms(2) by (auto simp: started_def)
  have s0: "document s0 \<noteq> None" "store_inv V s0"
    using initialize_run [OF s(1) _ assms(1)] by (auto simp: new_store_def)
  show "store_inv V s" unfolding s(2) by (rule store_fold_inv [OF assms(1) s0(2)])
  have "revision s0 () \<le> revision s ()"
    using revisions.run_mono [of V s0 "()" ops] assms(1) s0(2) s(2) by (simp add: revisions.run_def)
  with s0(1) show "\<exists>d. document s = Some d" by (auto simp: revision_def split: option.splits)
qed

lemma reordered_tabs:
  assumes "set ids \<subseteq> tab_id ` set ts" "distinct (map tab_id ts)" "distinct ids" "length ids = length ts"
  shows "map tab_id (reordered ts ids) = ids"
    "(\<lambda>t. t\<lparr>position := 0\<rparr>) ` set (reordered ts ids) = (\<lambda>t. t\<lparr>position := 0\<rparr>) ` set ts"
proof -
  note nth = reordered_nth [OF assms(1,2)]
  show "map tab_id (reordered ts ids) = ids"
    by (rule nth_equalityI) (use nth in \<open>fastforce simp: reordered_def\<close>)+
  have ids: "set ids = tab_id ` set ts"
    using assms by (intro card_subset_eq) (simp_all add: distinct_card card_image distinct_map)
  show "(\<lambda>t. t\<lparr>position := 0\<rparr>) ` set (reordered ts ids) = (\<lambda>t. t\<lparr>position := 0\<rparr>) ` set ts" (is "?l = ?r")
  proof
    show "?l \<subseteq> ?r"
    proof (rule image_subsetI)
      fix x
      assume "x \<in> set (reordered ts ids)"
      then obtain k where "k < length ids" "x = reordered ts ids ! k" by (metis in_set_conv_nth length_reordered)
      with nth [of k] obtain t where "t \<in> set ts" "x = t\<lparr>position := k\<rparr>" by auto
      then show "x\<lparr>position := 0\<rparr> \<in> ?r" by (intro image_eqI [of _ _ t]) simp_all
    qed
    show "?r \<subseteq> ?l"
    proof (rule image_subsetI)
      fix t
      assume t: "t \<in> set ts"
      then have "tab_id t \<in> set ids" using ids by auto
      then obtain k where k: "k < length ids" "ids ! k = tab_id t" by (metis in_set_conv_nth)
      from nth [OF k(1)] obtain u where u: "u \<in> set ts" "tab_id u = tab_id t" "reordered ts ids ! k = u\<lparr>position := k\<rparr>"
        using k(2) by auto
      with t assms(2) have "u = t" by (auto simp: distinct_map dest: inj_onD)
      moreover have "reordered ts ids ! k \<in> set (reordered ts ids)" using k(1) by (simp only: nth_mem length_reordered)
      ultimately show "t\<lparr>position := 0\<rparr> \<in> ?l"
        using u(3) by (intro image_eqI [of _ _ "reordered ts ids ! k"]) simp_all
    qed
  qed
qed

text \<open>
  C8. Every document a running store holds is valid and within the session limit, and the primary
  file on disk decodes to exactly that document, whatever sequence of calls was made and however the
  file system behaved during them.
\<close>

theorem store_matches_disk:
  assumes "env_ok V" "started V s"
  shows "\<exists>d c. document s = Some d \<and> document_ok (text_rules V) d \<and> length (tabs d) \<le> sessionMaxCount s \<and>
    primary s = Some c \<and> reads_as V c d"
  using store_inv_stored [OF started_inv(1) [OF assms]] started_inv(2) [OF assms] by blast

text \<open>
  C9. A call is atomic: when it reports an error, the document in memory and the primary file are what
  they were; when it succeeds, either nothing changed or the primary file is the serialisation of the
  new document. In both cases every temporary file that existed before is untouched.
\<close>

theorem store_call_atomic:
  assumes "env_ok V" "started V s" "perform V op s = (r, t)"
  shows "(document t = document s \<and> primary t = primary s \<or>
      r = Inr () \<and> (\<exists>d. document t = Some d \<and> primary t = Some (serialize V d) \<and> 
         length (serialize V d) \<le> MAX_DOCUMENT_BYTES)) \<and>
    (\<forall>n f. jm_get (temporaries s) n = Some f \<longrightarrow> jm_get (temporaries t) n = Some f)"
  using perform_step [OF assms(1) started_inv(1) [OF assms(1,2)] assms(3)] unfolding step_ok_def
proof (elim disjE conjE exE)
  assume "rolled_back s t"
  with rolled_back_store [OF this] rolled_back_kept [OF this] show ?thesis by (simp add: same_store_def)
next
  fix d
  assume "r = Inr ()" "committed V s d t"
  then show ?thesis by (auto simp: committed_def)
qed

text \<open>
  C10. A server that stops at any moment and starts again on the same directory, with a file system
  that works, recovers the document the old process held, reports durability, and removes the
  temporary files left behind by interrupted writes.
\<close>

theorem restart_recovers:
  assumes "env_ok V" "started V s"
  shows "\<exists>d t. document s = Some d \<and>
    initialize V (new_store (sessionMaxCount s) (primary s) (temporaries s) []) = (Inr (), t) \<and>
    document t = Some d \<and> ready t \<and>
    (\<forall>n c. matches TEMP_FILENAME_PATTERN n \<longrightarrow> jm_get (temporaries t) n \<noteq> Some (Regular c))"
  using restart_reliable [OF started_inv(1) [OF assms]] started_inv(2) [OF assms] by blast

text \<open>
  Two equal structure revisions mean that nothing but activity times changed in between: no tab
  was created, removed, renamed, moved or switched between active and stopped.
\<close>

theorem structure_revision_detects:
  assumes "env_ok V" "started V s" "document s = Some d" "document (fold (store_exec V) ops s) = Some e"
    "structureRevision e = structureRevision d"
  shows "shape e = shape d"
proof -
  have "revision (revisions.run V ops s) () = revision s ()"
    using assms(3-5) by (simp add: revision_def revisions.run_def)
  then have "\<not> revisions.touches V () ops s"
    using revisions.unchanged [of V s ops "()"] assms(1) started_inv(1) [OF assms(1,2)] by blast
  from untouched_shape [OF this] assms(3,4) show ?thesis by simp
qed

text \<open>
  A reorder that succeeds was given the current revision and each id once; the new document lists
  the tabs in the requested order, with their positions renumbered and nothing else changed, at the
  next revision.
\<close>

theorem reorder_permutes:
  assumes "env_ok V" "started V s" "store_reorder V rv ids s = (Inr (Some d), t)"
  shows "\<exists>cur. document s = Some cur \<and> rv = structureRevision cur \<and> structureRevision d = Suc rv \<and>
    document t = Some d \<and> map tab_id (tabs d) = ids \<and> map position (tabs d) = [0..<length ids] \<and>
    (\<lambda>x. x\<lparr>position := 0\<rparr>) ` set (tabs d) = (\<lambda>x. x\<lparr>position := 0\<rparr>) ` set (tabs cur)"
proof -
  note inv = started_inv(1) [OF assms(1,2)]
  have u: "unicode_ok (text_rules V)" using assms(1) by (simp add: env_ok_def)
  obtain cur e res w v where m: "document s = Some cur" "build_reorder V rv ids cur s = (Inr (Some (e, res)), w)"
    "committed V s e t" "parseDocument (text_rules V) e = Some e" "committed V s e v" "res v = (Inr d, t)"
    using mutate_good [OF good_reorder [OF u] inv assms(3) [unfolded store_reorder_def]] by auto
  note b = build_reorder_run [OF m(2)] and cur = store_inv_stored [OF inv m(1)]
  have dist: "distinct (map tab_id (tabs cur))" using cur(1) by (simp add: document_ok_def tabs_ok_def)
  have e: "e = \<lparr>structureRevision = Suc (structureRevision cur), tabs = reordered (tabs cur) ids\<rparr>"
    by (rule candidate_exact [OF b(5)])
       (use reordered_names [OF b(4) dist] stable_names [OF cur(2)] in fastforce)
  have "tabs_ok (tabs e)" using parseDocument_Some(1) [OF m(4)] by (simp add: document_ok_def)
  moreover have "d = e"
    using m(5,6) b(6) by (simp add: committed_def store_snapshot_def requireDocument_def em_simps)
  ultimately show ?thesis using m b e reordered_tabs [OF b(4) dist b(3,2)]
    by (auto simp: committed_def tabs_ok_def)
qed

text \<open>
  A reorder request whose revision is not the current one, or whose ids are not exactly the ids
  of the tabs, each once, is refused as a conflict and changes nothing.
\<close>

theorem reorder_conflict:
  assumes "document s = Some cur" "distinct (map tab_id (tabs cur))"
    "rv \<noteq> structureRevision cur \<or> \<not> distinct ids \<or> set ids \<noteq> tab_id ` set (tabs cur)"
  shows "store_reorder V rv ids s = (Inl OrderConflict, s)"
proof -
  have "length (remdups ids) = length ids \<longrightarrow> distinct ids" by simp
  moreover have "set ids = tab_id ` set (tabs cur)"
    if "length ids = length (tabs cur)" "distinct ids" "\<forall>i \<in> set ids. \<exists>t \<in> set (tabs cur). tab_id t = i"
    using that assms(2)
    by (intro card_subset_eq) (auto simp: distinct_card card_image distinct_map)
  ultimately have "rv \<noteq> structureRevision cur \<or> length ids \<noteq> length (tabs cur) \<or>
      length (remdups ids) \<noteq> length (tabs cur) \<or> (\<exists>i \<in> set ids. \<not> (\<exists>t \<in> set (tabs cur). tab_id t = i))"
    using assms(3) by metis
  then show ?thesis using assms(1)
    by (simp add: store_reorder_def mutate_def requireDocument_def build_reorder_def em_simps)
qed

section \<open>A concrete store\<close>

definition example_env :: store_env where
  "example_env = \<lparr>text_rules = plain_text, serialize = put_document, deserialize = get_document,
     store_now = (\<lambda>_. ''2026-01-01T00:00:00.000Z''), randomUUID = (\<lambda>k. replicate k (CHR ''x''))\<rparr>"

lemma example_env_ok: "env_ok example_env"
  by (simp add: env_ok_def example_env_def plain_text_ok get_put_document)

definition id_a :: string where "id_a = ''11111111-1111-4111-8111-111111111111''"
definition id_b :: string where "id_b = ''22222222-2222-4222-8222-222222222222''"

definition example_tab :: "string \<Rightarrow> nat \<Rightarrow> nat \<Rightarrow> TabRecord" where
  "example_tab i c k = \<lparr>tab_id = i, displayName = [c], position = k, tab_createdAt = ''t'', lastActivityAt = ''t'',
     desiredState = Active\<rparr>"

definition two_tabs :: TabDocument where
  "two_tabs = \<lparr>structureRevision = 4, tabs = [example_tab id_a 65 0, example_tab id_b 66 1]\<rparr>"

definition swapped_tabs :: TabDocument where
  "swapped_tabs = \<lparr>structureRevision = 5, tabs = [example_tab id_b 66 0, example_tab id_a 65 1]\<rparr>"

definition example_store :: TabStore where
  "example_store = (new_store 3 (Some (put_document two_tabs)) [] [])\<lparr>document := Some two_tabs, ready := True\<rparr>"

lemma example_ids: "isSessionId id_a" "isSessionId id_b" "id_a \<noteq> id_b"
  by (code_simp, code_simp, simp add: id_a_def id_b_def)

lemma example_tab_parses:
  "isSessionId i \<Longrightarrow> c = 65 \<or> c = 66 \<Longrightarrow> k < 2 \<Longrightarrow> parseTab plain_text (example_tab i c k) = Some (example_tab i c k)"
  by (auto simp: parseTab_def example_tab_def plain_text_def persistedDisplayName_def safeNormalizedString_def
      safe_character_def forbiddenCharacter_def js_trim_def white_space_def utf8ByteLength_def safe_int_def
      MAX_SAFE_INTEGER_def)

lemma example_parses:
  "parseDocument plain_text two_tabs = Some two_tabs" "parseDocument plain_text swapped_tabs = Some swapped_tabs"
proof -
  have "ordered_unique 0 [] [] (tabs two_tabs)" "ordered_unique 0 [] [] (tabs swapped_tabs)"
    using example_ids(3) by (auto simp: two_tabs_def swapped_tabs_def example_tab_def)
  then show "parseDocument plain_text two_tabs = Some two_tabs" "parseDocument plain_text swapped_tabs = Some swapped_tabs"
    using example_ids
    by (simp_all add: parseDocument_def two_tabs_def swapped_tabs_def example_tab_parses safe_int_def MAX_SAFE_INTEGER_def)
qed

lemma example_lengths:
  "length (put_document two_tabs) \<le> MAX_DOCUMENT_BYTES" "length (put_document swapped_tabs) \<le> MAX_DOCUMENT_BYTES"
  by (simp_all add: put_document_def two_tabs_def swapped_tabs_def example_tab_def put_list_def put_tab_def
      put_string_def put_nat_def id_a_def id_b_def MAX_DOCUMENT_BYTES_def comp_def)

lemma reliable_start:
  assumes "parseDocument plain_text d = Some d" "length (put_document d) \<le> MAX_DOCUMENT_BYTES" "length (tabs d) \<le> 3"
  shows "initialize example_env (new_store 3 (Some (put_document d)) [] []) =
    (Inr (), (new_store 3 (Some (put_document d)) [] [])\<lparr>document := Some d, ready := True\<rparr>)"
proof -
  let ?s0 = "new_store 3 (Some (put_document d)) [] []"
  have "readPrimary example_env ?s0 = (Inr d, ?s0)"
    by (rule readPrimary_reliable [of _ "put_document d"])
       (use assms get_put_document [of d] in \<open>simp_all add: reads_as_def example_env_def new_store_def\<close>)
  then show ?thesis
    by (simp add: initialize_def load_document_def em_simps sys_reliable new_store_def cleanupTemps_def)
qed

lemma example_starts:
  "initialize example_env (new_store 3 (Some (put_document two_tabs)) [] []) = (Inr (), example_store)"
  using reliable_start [OF example_parses(1) example_lengths(1)] by (simp add: example_store_def two_tabs_def)

lemma example_started: "started example_env (fold (store_exec example_env) ops example_store)"
  unfolding started_def using example_starts by blast

lemma example_store_started: "started example_env example_store"
  using example_started [of "[]"] by simp

lemma example_store_simps [simp]:
  "document example_store = Some two_tabs" "primary example_store = Some (put_document two_tabs)"
  "script example_store = []" "temporaries example_store = []" "uuids example_store = 0"
  "sessionMaxCount example_store = 3"
  by (simp_all add: example_store_def new_store_def)

text \<open>A commit when no call fails.\<close>

lemma persist_reliable:
  assumes "script s = []" "temporaries s = []" "parseDocument (text_rules V) d = Some d"
    "length (serialize V d) \<le> MAX_DOCUMENT_BYTES"
  shows "persist V d s =
    (Inr (), s\<lparr>uuids := Suc (uuids s), primary := Some (serialize V d), document := Some d, ready := True\<rparr>)"
proof -
  let ?path = "temporary_name (randomUUID V (uuids s))"
  have "allocateTemporary V 8 s =
    (Inr (Some ?path), s\<lparr>uuids := Suc (uuids s), temporaries := [(?path, Regular [])]\<rparr>)"
    using assms(1,2) by (simp add: eval_nat_numeral em_simps fs_open_temporary_def sys_reliable)
  then show ?thesis using assms
    by (simp add: persist_def commit_to_def writeTemporary_def publish_def fs_write_def fs_rename_def
        syncDirectory_def sys_reliable next_syscall_def em_simps)
qed

lemma example_reorder:
  "store_reorder example_env 4 [id_b, id_a] example_store =
     (Inr (Some swapped_tabs), snd (persist example_env swapped_tabs example_store))"
proof -
  have build: "build_reorder example_env 4 [id_b, id_a] two_tabs example_store =
      (Inr (Some (swapped_tabs, store_snapshot)), example_store)"
  proof -
    have r: "reordered (tabs two_tabs) [id_b, id_a] = tabs swapped_tabs"
      using example_ids(3) by (simp add: reordered_def two_tabs_def swapped_tabs_def example_tab_def numeral_2_eq_2)
    have "parseDocument plain_text \<lparr>structureRevision = 5, tabs = tabs swapped_tabs\<rparr> = Some swapped_tabs"
      using example_parses(2) by (simp add: swapped_tabs_def)
    moreover have "tab_id ` set (tabs two_tabs) = {id_a, id_b}" "length (tabs two_tabs) = 2"
      "structureRevision two_tabs = 4" by (auto simp: two_tabs_def example_tab_def)
    ultimately show ?thesis using r example_ids(3)
      by (auto simp: build_reorder_def structuralDocument_def em_simps example_env_def two_tabs_def example_tab_def)
  qed
  have "persist example_env swapped_tabs example_store = (Inr (), example_store\<lparr>uuids := 1,
      primary := Some (put_document swapped_tabs), document := Some swapped_tabs, ready := True\<rparr>)"
    using persist_reliable [of example_store example_env swapped_tabs] example_parses(2) example_lengths(2)
    by (simp add: example_env_def)
  with build show ?thesis
    by (simp add: store_reorder_def mutate_def requireDocument_def store_snapshot_def em_simps)
qed

theorem store_matches_disk_witness:
  "\<exists>d c. document (fold (store_exec example_env) [OpRemove id_a, OpRename id_b [67]] example_store) = Some d \<and>
     document_ok plain_text d \<and>
     primary (fold (store_exec example_env) [OpRemove id_a, OpRename id_b [67]] example_store) = Some c \<and>
     reads_as example_env c d"
  using store_matches_disk [OF example_env_ok example_started, of "[OpRemove id_a, OpRename id_b [67]]"]
  by (auto simp: example_env_def)

theorem store_call_atomic_witness:
  "primary (snd (perform example_env (OpRename id_a [65]) example_store)) = Some (put_document two_tabs) \<or>
   (\<exists>d. primary (snd (perform example_env (OpRename id_a [65]) example_store)) = Some (put_document d))"
proof -
  obtain r t where run: "perform example_env (OpRename id_a [65]) example_store = (r, t)" by (metis surj_pair)
  from store_call_atomic [OF example_env_ok example_store_started run] run show ?thesis
    by (auto simp: example_env_def)
qed

theorem restart_recovers_witness:
  "\<exists>t. initialize example_env (new_store 3 (Some (put_document two_tabs)) [] []) = (Inr (), t) \<and>
     document t = Some two_tabs \<and> ready t"
  using restart_recovers [OF example_env_ok example_store_started] by auto

theorem structure_revision_detects_witness:
  "store_exec example_env (OpRemove ''a'') example_store = example_store \<and>
   shape (the (document (store_exec example_env (OpRemove ''a'') example_store))) = shape two_tabs"
proof -
  have e: "store_exec example_env (OpRemove ''a'') example_store = example_store"
    by (simp add: store_exec_def void_def op_defs mutate_def build_remove_def requireDocument_def requireTab_def
        em_simps two_tabs_def example_tab_def id_a_def id_b_def)
  have "document (fold (store_exec example_env) [OpRemove ''a''] example_store) = Some two_tabs"
    by (simp add: e)
  from structure_revision_detects [OF example_env_ok example_store_started _ this] e show ?thesis by simp
qed

theorem reorder_permutes_witness: "map tab_id (tabs swapped_tabs) = [id_b, id_a] \<and> structureRevision swapped_tabs = Suc 4"
  using reorder_permutes [OF example_env_ok example_store_started example_reorder] by auto

theorem reorder_conflict_witness:
  "store_reorder example_env 7 [id_b, id_a] example_store = (Inl OrderConflict, example_store)"
  by (rule reorder_conflict [of _ two_tabs])
     (use example_ids(3) in \<open>simp_all add: two_tabs_def example_tab_def\<close>)

end
