(* ===== verification/Tmux.thy ===== *)
theory Tmux
  imports TabDocument "HOL-Library.Sublist"
begin

text \<open>
  The tmux session preparer (\<open>apps/server/src/tmux.ts\<close>): the commands it issues and how it reads
  their exit codes. The command runner and the random source are parameters over a world \<open>'w\<close>; what
  is relied on of tmux is collected in \<open>tmux_ok\<close>, which states the documented effect of each command on
  the set of live sessions, the lookup of a \<open>-t\<close> target by exact name and then by the start of a name
  included. What is relied on of the other users of the tmux server is \<open>names_apart\<close>. The locale
  \<open>session_runtime\<close> is the contract the session manager builds on, and the preparer is shown to meet it
  under the two; without the second it does not (\<open>longer_name_taken_for_tab\<close>).
\<close>

section \<open>State and commands\<close>

record SessionRuntimeSettings =
  shell :: utext
  historyLimit :: jsnum

record CommandResult =
  exitCode :: int
  stdout :: string

record AttachSpec =
  spec_executable :: string
  spec_args :: "string list"
  spec_cwd :: string
  spec_home :: string
  spec_shell :: utext
  spec_term :: string

record 'w tmux_env =
  tmux_executable :: string
  homeDir :: string
  command_run :: "string \<Rightarrow> string list \<Rightarrow> 'w \<Rightarrow> CommandResult option \<times> 'w"
  random_uuid :: "'w \<Rightarrow> string option \<times> 'w"
  encode_shell :: "utext \<Rightarrow> string"
  number_string :: "jsnum \<Rightarrow> string"

type_synonym ('w, 'a) tm = "('w, tmux_error, 'a) em"

definition lift_sum :: "'e + 'a \<Rightarrow> ('s, 'e, 'a) em" where
  "lift_sum x = (case x of Inl e \<Rightarrow> throw e | Inr y \<Rightarrow> ret y)"

definition tmux_run :: "'w tmux_env \<Rightarrow> string list \<Rightarrow> ('w, CommandResult) tm" where
  "tmux_run E args = (\<lambda>w.
     case command_run E (tmux_executable E) args w of
       (None, w') \<Rightarrow> (Inl TmuxCommandFailed, w')
     | (Some r, w') \<Rightarrow> (Inr r, w'))"

definition tmux_exists :: "'w tmux_env \<Rightarrow> string \<Rightarrow> ('w, bool) tm" where
  "tmux_exists E i =
     bind (lift_sum (tmuxSessionName i)) (\<lambda>name.
     bind (tmux_run E [''has-session'', ''-t'', name]) (\<lambda>r.
       if exitCode r = 0 then ret True
       else if exitCode r = 1 then ret False
       else throw TmuxCommandFailed))"

definition killNamedSession :: "'w tmux_env \<Rightarrow> string \<Rightarrow> ('w, unit) tm" where
  "killNamedSession E name =
     bind (tmux_run E [''kill-session'', ''-t'', name]) (\<lambda>r.
       if exitCode r \<noteq> 0 \<and> exitCode r \<noteq> 1 then throw TmuxCommandFailed else ret ())"

definition tmux_kill :: "'w tmux_env \<Rightarrow> string \<Rightarrow> ('w, unit) tm" where
  "tmux_kill E i = bind (lift_sum (tmuxSessionName i)) (killNamedSession E)"

text \<open>\<open>stdout.split(/\r?\n/u)\<close>.\<close>

definition strip_return :: "string \<Rightarrow> string" where
  "strip_return acc = (case acc of c # cs \<Rightarrow> if c = CHR 0x0D then cs else acc | [] \<Rightarrow> [])"

fun split_lines :: "string \<Rightarrow> string \<Rightarrow> string list" where
  "split_lines acc [] = [rev acc]"
| "split_lines acc (c # cs) =
     (if c = CHR 0x0A then rev (strip_return acc) # split_lines [] cs else split_lines (c # acc) cs)"

definition listActiveSessionIds :: "'w tmux_env \<Rightarrow> ('w, string list) tm" where
  "listActiveSessionIds E =
     bind (tmux_run E [''list-sessions'', ''-F'', ''#{session_name}'']) (\<lambda>r.
       if exitCode r = 1 then ret []
       else if exitCode r \<noteq> 0 then throw TmuxCommandFailed
       else if js_trim (map of_char (stdout r)) = [] then ret []
       else ret (List.map_filter session_of_line (split_lines [] (stdout r))))"

definition attachSpec :: "'w tmux_env \<Rightarrow> string \<Rightarrow> SessionRuntimeSettings option \<Rightarrow> ('w, AttachSpec) tm" where
  "attachSpec E i settings =
     (case settings of
        None \<Rightarrow> throw InvalidRuntimeSettings
      | Some st \<Rightarrow>
          bind (lift_sum (tmuxSessionName i)) (\<lambda>name.
          ret \<lparr>spec_executable = tmux_executable E, spec_args = [''attach-session'', ''-E'', ''-t'', name],
               spec_cwd = homeDir E, spec_home = homeDir E, spec_shell = shell st,
               spec_term = ''xterm-256color''\<rparr>))"

text \<open>
  The one command that builds a session under a temporary name and renames it at the end, so that a
  half-built session never carries the name of a tab.
\<close>

definition create_command :: "'w tmux_env \<Rightarrow> string \<Rightarrow> string \<Rightarrow> SessionRuntimeSettings \<Rightarrow> string list" where
  "create_command E build name st =
     [''new-session'', ''-d'', ''-s'', build, ''/usr/bin/sleep'', ''2147483647'', '';'',
      ''set-option'', ''-t'', build, ''history-limit'', number_string E (historyLimit st), '';'',
      ''set-option'', ''-t'', build, ''default-shell'', encode_shell E (shell st), '';'',
      ''set-option'', ''-t'', build, ''default-command'', [], '';'',
      ''set-window-option'', ''-t'', build @ '':0'', ''window-size'', ''manual'', '';'',
      ''resize-window'', ''-t'', build @ '':0'', ''-x'', ''80'', ''-y'', ''24'', '';'',
      ''set-window-option'', ''-t'', build @ '':0'', ''alternate-screen'', ''off'', '';'',
      ''split-window'', ''-d'', ''-t'', build @ '':'', '';'',
      ''kill-pane'', ''-t'', build @ '':'', '';'',
      ''rename-session'', ''-t'', build, name, '';'',
      ''set-window-option'', ''-t'', name @ '':0'', ''window-size'', ''latest'']"

definition build_session :: "'w tmux_env \<Rightarrow> string \<Rightarrow> string \<Rightarrow> SessionRuntimeSettings \<Rightarrow> ('w, unit) tm" where
  "build_session E build name st =
     catch
       (bind (tmux_run E (create_command E build name st)) (\<lambda>r.
          if exitCode r \<noteq> 0 then throw TmuxCommandFailed else ret ()))
       (\<lambda>_. bind (attempt (killNamedSession E build)) (\<lambda>_. throw TmuxCommandFailed))"

definition configure_session :: "'w tmux_env \<Rightarrow> string \<Rightarrow> ('w, unit) tm" where
  "configure_session E name =
     bind (tmux_run E [''set-window-option'', ''-t'', name @ '':0'', ''alternate-screen'', ''off'']) (\<lambda>r.
       if exitCode r \<noteq> 0 then throw TmuxCommandFailed
       else bind (tmux_run E [''set-option'', ''-t'', name, ''mouse'', ''on'']) (\<lambda>q.
              if exitCode q \<noteq> 0 then throw TmuxCommandFailed else ret ()))"

definition establish :: "'w tmux_env \<Rightarrow> string \<Rightarrow> SessionRuntimeSettings \<Rightarrow> string \<Rightarrow> string \<Rightarrow> ('w, unit) tm" where
  "establish E i st name build =
     bind (tmux_exists E i) (\<lambda>present.
     bind (if present then ret () else build_session E build name st) (\<lambda>_.
     configure_session E name))"

definition prepare :: "'w tmux_env \<Rightarrow> string \<Rightarrow> SessionRuntimeSettings option \<Rightarrow> ('w, AttachSpec) tm" where
  "prepare E i settings =
     bind (lift_sum (tmuxSessionName i)) (\<lambda>name.
       case settings of
         None \<Rightarrow> throw InvalidRuntimeSettings
       | Some st \<Rightarrow>
           bind (\<lambda>w. case random_uuid E w of (u, w') \<Rightarrow> lift_sum (tmuxBuildSessionName u) w') (\<lambda>build.
           bind (establish E i st name build) (\<lambda>_.
           attachSpec E i settings)))"

section \<open>What tmux does\<close>

definition session_name :: "string \<Rightarrow> string" where
  "session_name i = APP_SESSION_PREFIX @ compact_id i"

definition tab_alive :: "('w \<Rightarrow> string set) \<Rightarrow> 'w \<Rightarrow> string \<Rightarrow> bool" where
  "tab_alive live w i \<longleftrightarrow> isSessionId i \<and> session_name i \<in> live w"

text \<open>The names the server gives to sessions, and so the targets it passes.\<close>

definition app_target :: "string \<Rightarrow> bool" where
  "app_target n \<longleftrightarrow> (\<exists>i. isSessionId i \<and> (n = session_name i \<or> n = ''webterm-build-'' @ compact_id i))"

text \<open>
  A target written without a leading \<open>=\<close> names the session of exactly that name or, when there is
  none, a session whose name starts with it. (Patterns come last; the server's targets consist of
  lower case letters, digits and hyphens, and match as patterns only themselves.)
\<close>

definition target_of :: "string set \<Rightarrow> string \<Rightarrow> string \<Rightarrow> bool" where
  "target_of S n s \<longleftrightarrow> s \<in> S \<and> (s = n \<or> n \<notin> S \<and> prefix n s)"

text \<open>
  \<open>has-session\<close> answers by exit code, \<open>kill-session\<close> ends the session that is found and is 1 when none is
  found, the build command ends with the session under its final name, options change no session,
  \<open>list-sessions\<close> prints one name per line and fails with 1 when no server runs. An exit code of 1 is
  read as the code reads it, as the answer of a tmux that reached its server or found none running.
\<close>

definition has_ok :: "'w tmux_env \<Rightarrow> ('w \<Rightarrow> string set) \<Rightarrow> bool" where
  "has_ok E live \<longleftrightarrow>
     (\<forall>w n r v. app_target n \<longrightarrow> command_run E (tmux_executable E) [''has-session'', ''-t'', n] w = (r, v) \<longrightarrow>
        live v = live w \<and>
        (\<forall>x. r = Some x \<longrightarrow> (exitCode x = 0 \<longrightarrow> (\<exists>s. target_of (live w) n s)) \<and> (exitCode x = 1 \<longrightarrow> n \<notin> live w)))"

definition kill_ok :: "'w tmux_env \<Rightarrow> ('w \<Rightarrow> string set) \<Rightarrow> bool" where
  "kill_ok E live \<longleftrightarrow>
     (\<forall>w n r v. app_target n \<longrightarrow> command_run E (tmux_executable E) [''kill-session'', ''-t'', n] w = (r, v) \<longrightarrow>
        (live v = live w \<or> (\<exists>s. target_of (live w) n s \<and> live v = live w - {s})) \<and>
        (\<forall>x. r = Some x \<longrightarrow>
           (exitCode x = 0 \<longrightarrow> (\<exists>s. target_of (live w) n s \<and> live v = live w - {s})) \<and>
           (exitCode x = 1 \<longrightarrow> n \<notin> live w \<and> live v = live w)))"

definition create_ok :: "'w tmux_env \<Rightarrow> ('w \<Rightarrow> string set) \<Rightarrow> bool" where
  "create_ok E live \<longleftrightarrow>
     (\<forall>w b n st r v. command_run E (tmux_executable E) (create_command E b n st) w = (r, v) \<longrightarrow>
        live v - {b, n} = live w - {b, n} \<and> (\<forall>x. r = Some x \<longrightarrow> exitCode x = 0 \<longrightarrow> n \<in> live v))"

definition option_ok :: "'w tmux_env \<Rightarrow> ('w \<Rightarrow> string set) \<Rightarrow> bool" where
  "option_ok E live \<longleftrightarrow>
     (\<forall>cmd w t opt x r v. cmd \<in> {''set-window-option'', ''set-option''} \<longrightarrow>
        command_run E (tmux_executable E) [cmd, ''-t'', t, opt, x] w = (r, v) \<longrightarrow> live v = live w)"

definition list_ok :: "'w tmux_env \<Rightarrow> ('w \<Rightarrow> string set) \<Rightarrow> bool" where
  "list_ok E live \<longleftrightarrow>
     (\<forall>w r v. command_run E (tmux_executable E) [''list-sessions'', ''-F'', ''#{session_name}''] w = (r, v) \<longrightarrow>
        live v = live w \<and> (\<forall>x. r = Some x \<longrightarrow> (exitCode x = 1 \<longrightarrow> live w = {}) \<and>
          (exitCode x = 0 \<longrightarrow> live w = set (split_lines [] (stdout x)) - {[]})))"

definition tmux_ok :: "'w tmux_env \<Rightarrow> ('w \<Rightarrow> string set) \<Rightarrow> bool" where
  "tmux_ok E live \<longleftrightarrow> has_ok E live \<and> kill_ok E live \<and> create_ok E live \<and> option_ok E live \<and> list_ok E live \<and>
     (\<forall>w u v. random_uuid E w = (u, v) \<longrightarrow> live v = live w)"

text \<open>
  No session on the tmux server has a name that properly extends one of the server's own. The names
  the server gives never do so to each other (\<open>app_targets_apart\<close>), so this is about sessions that
  others create on the same tmux server.
\<close>

definition names_apart :: "('w \<Rightarrow> string set) \<Rightarrow> bool" where
  "names_apart live \<longleftrightarrow> (\<forall>w n s. app_target n \<longrightarrow> s \<in> live w \<longrightarrow> prefix n s \<longrightarrow> s = n)"

section \<open>The runtime contract\<close>

record 'w SessionRuntimeController =
  rt_prepare :: "string \<Rightarrow> SessionRuntimeSettings option \<Rightarrow> ('w, AttachSpec) tm"
  rt_exists :: "string \<Rightarrow> ('w, bool) tm"
  rt_kill :: "string \<Rightarrow> ('w, unit) tm"
  rt_list :: "('w, string list) tm"

locale session_runtime =
  fixes R :: "'w SessionRuntimeController" and alive :: "'w \<Rightarrow> string \<Rightarrow> bool" and runtime_ok :: bool
  assumes prepare_law: "runtime_ok \<Longrightarrow> rt_prepare R i st w = (r, v) \<Longrightarrow>
      (\<forall>x. r = Inr x \<longrightarrow> alive v i) \<and> (alive w i \<longrightarrow> alive v i) \<and> (\<forall>j. j \<noteq> i \<longrightarrow> alive v j = alive w j)"
    and exists_law: "runtime_ok \<Longrightarrow> rt_exists R i w = (q, v) \<Longrightarrow>
      (\<forall>b. q = Inr b \<longrightarrow> b = alive w i) \<and> (\<forall>j. alive v j = alive w j)"
    and kill_law: "runtime_ok \<Longrightarrow> rt_kill R i w = (k, v) \<Longrightarrow>
      (k = Inr () \<longrightarrow> \<not> alive v i) \<and> (\<forall>j. j \<noteq> i \<longrightarrow> alive v j = alive w j)"
    and list_law: "runtime_ok \<Longrightarrow> rt_list R w = (l, v) \<Longrightarrow>
      (\<forall>is. l = Inr is \<longrightarrow> set is = {j. alive w j}) \<and> (\<forall>j. alive v j = alive w j)"
begin

text \<open>A session that was prepared and then killed is gone, whatever happened to others in between.\<close>

lemma prepare_then_kill:
  assumes "runtime_ok" "rt_prepare R i st w = (Inr x, v)" "rt_exists R i v = (Inr b, u)" "rt_kill R i u = (Inr (), t)"
  shows "b \<and> \<not> alive t i"
  using prepare_law [OF assms(1,2)] exists_law [OF assms(1,3)] kill_law [OF assms(1,4)] by simp

end

definition tmux_controller :: "'w tmux_env \<Rightarrow> 'w SessionRuntimeController" where
  "tmux_controller E = \<lparr>rt_prepare = prepare E, rt_exists = tmux_exists E, rt_kill = tmux_kill E,
     rt_list = listActiveSessionIds E\<rparr>"

section \<open>The preparer meets the contract\<close>

lemma app_target_names: "isSessionId i \<Longrightarrow> app_target (session_name i)"
  "tmuxBuildSessionName u = Inr b \<Longrightarrow> app_target b"
  by (auto simp: app_target_def tmuxBuildSessionName_def split: option.splits if_splits)

lemma app_targets_apart:
  assumes "app_target n" "app_target m" "prefix n m"
  shows "n = m"
proof -
  from assms(1,2) obtain i j where ij: "isSessionId i" "isSessionId j"
    "n = session_name i \<or> n = ''webterm-build-'' @ compact_id i" "m = session_name j \<or> m = ''webterm-build-'' @ compact_id j"
    by (auto simp: app_target_def)
  have "length (compact_id i) = length (compact_id j)" using ij(1,2) compact_id_groups by simp
  with ij(3,4) assms(3) show ?thesis
    by (elim disjE) (auto simp: session_name_def APP_SESSION_PREFIX_def prefix_def)
qed

lemma target_exact: "names_apart live \<Longrightarrow> app_target n \<Longrightarrow> target_of (live w) n s \<longleftrightarrow> s = n \<and> n \<in> live w"
  by (auto simp: target_of_def names_apart_def)

lemma tmux_ok_has:
  assumes "tmux_ok E live" "names_apart live" "app_target n"
    "command_run E (tmux_executable E) [''has-session'', ''-t'', n] w = (r, v)"
  shows "live v = live w" "r = Some x \<Longrightarrow> exitCode x = 0 \<Longrightarrow> n \<in> live w" "r = Some x \<Longrightarrow> exitCode x = 1 \<Longrightarrow> n \<notin> live w"
proof -
  have "live v = live w \<and> (\<forall>x. r = Some x \<longrightarrow> (exitCode x = 0 \<longrightarrow> (\<exists>s. target_of (live w) n s)) \<and> (exitCode x = 1 \<longrightarrow> n \<notin> live w))"
    using assms(1,3,4) unfolding tmux_ok_def has_ok_def by blast
  then show "live v = live w" "r = Some x \<Longrightarrow> exitCode x = 0 \<Longrightarrow> n \<in> live w" "r = Some x \<Longrightarrow> exitCode x = 1 \<Longrightarrow> n \<notin> live w"
    using target_exact [OF assms(2,3)] by auto
qed

lemma tmux_ok_kill:
  assumes "tmux_ok E live" "names_apart live" "app_target n"
    "command_run E (tmux_executable E) [''kill-session'', ''-t'', n] w = (r, v)"
  shows "live v - {n} = live w - {n}" "r = Some x \<Longrightarrow> exitCode x = 0 \<or> exitCode x = 1 \<Longrightarrow> n \<notin> live v"
proof -
  have "(live v = live w \<or> (\<exists>s. target_of (live w) n s \<and> live v = live w - {s})) \<and>
      (\<forall>x. r = Some x \<longrightarrow> (exitCode x = 0 \<longrightarrow> (\<exists>s. target_of (live w) n s \<and> live v = live w - {s})) \<and>
         (exitCode x = 1 \<longrightarrow> n \<notin> live w \<and> live v = live w))"
    using assms(1,3,4) unfolding tmux_ok_def kill_ok_def by blast
  then show "live v - {n} = live w - {n}" "r = Some x \<Longrightarrow> exitCode x = 0 \<or> exitCode x = 1 \<Longrightarrow> n \<notin> live v"
    using target_exact [OF assms(2,3)] by auto
qed

lemma tmux_ok_create:
  assumes "tmux_ok E live" "command_run E (tmux_executable E) (create_command E b n st) w = (r, v)"
  shows "live v - {b, n} = live w - {b, n}" "r = Some x \<Longrightarrow> exitCode x = 0 \<Longrightarrow> n \<in> live v"
  using assms unfolding tmux_ok_def create_ok_def by metis+

lemma tmux_ok_option:
  assumes "tmux_ok E live" "cmd = ''set-window-option'' \<or> cmd = ''set-option''"
    "command_run E (tmux_executable E) [cmd, ''-t'', t, opt, y] w = (r, v)"
  shows "live v = live w"
  using assms unfolding tmux_ok_def option_ok_def by blast

lemma tmux_ok_list:
  assumes "tmux_ok E live" "command_run E (tmux_executable E) [''list-sessions'', ''-F'', ''#{session_name}''] w = (r, v)"
  shows "live v = live w" "r = Some x \<Longrightarrow> exitCode x = 1 \<Longrightarrow> live w = {}"
    "r = Some x \<Longrightarrow> exitCode x = 0 \<Longrightarrow> live w = set (split_lines [] (stdout x)) - {[]}"
  using assms unfolding tmux_ok_def list_ok_def by metis+

lemma tmux_ok_uuid: "tmux_ok E live \<Longrightarrow> random_uuid E w = (u, v) \<Longrightarrow> live v = live w"
  unfolding tmux_ok_def by blast

lemma tmuxSessionName_session: "tmuxSessionName i = (if isSessionId i then Inr (session_name i) else Inl InvalidSession)"
  by (simp add: tmuxSessionName_def session_name_def)

lemma session_name_inj: "isSessionId i \<Longrightarrow> isSessionId j \<Longrightarrow> session_name i = session_name j \<Longrightarrow> i = j"
  by (metis option.inject session_name_def session_of_line_name)

lemma tmux_run_cases:
  assumes "tmux_run E args w = (r, v)"
  obtains x where "r = Inr x" "command_run E (tmux_executable E) args w = (Some x, v)"
  | "r = Inl TmuxCommandFailed" "command_run E (tmux_executable E) args w = (None, v)"
  using assms by (auto simp: tmux_run_def split: prod.splits option.splits)

lemma exists_run:
  assumes "tmux_ok E live" "names_apart live" "tmux_exists E i w = (r, v)"
  shows "live v = live w" "r = Inr b \<Longrightarrow> b = tab_alive live w i"
proof -
  have "live v = live w \<and> (\<forall>b. r = Inr b \<longrightarrow> b = tab_alive live w i)"
  proof (cases "isSessionId i")
    case False
    with assms(3) show ?thesis
      by (auto simp: tmux_exists_def tmuxSessionName_session lift_sum_def em_simps)
  next
    case True
    obtain q u where u: "tmux_run E [''has-session'', ''-t'', session_name i] w = (q, u)" by (metis surj_pair)
    from u show ?thesis
    proof (cases rule: tmux_run_cases)
      case (1 x)
      with assms True u tmux_ok_has [OF assms(1,2) app_target_names(1) [OF True] 1(2)] show ?thesis
        by (auto simp: tmux_exists_def tmuxSessionName_session lift_sum_def em_simps tab_alive_def split: if_splits)
    next
      case 2
      with assms True u tmux_ok_has [OF assms(1,2) app_target_names(1) [OF True] 2(2)] show ?thesis
        by (auto simp: tmux_exists_def tmuxSessionName_session lift_sum_def em_simps)
    qed
  qed
  then show "live v = live w" "r = Inr b \<Longrightarrow> b = tab_alive live w i" by blast+
qed

lemma killNamed_run:
  assumes "tmux_ok E live" "names_apart live" "app_target n" "killNamedSession E n w = (r, v)"
  shows "live v - {n} = live w - {n}" "r = Inr () \<Longrightarrow> n \<notin> live v"
proof -
  obtain q u where u: "tmux_run E [''kill-session'', ''-t'', n] w = (q, u)" by (metis surj_pair)
  then have "live v - {n} = live w - {n} \<and> (r = Inr () \<longrightarrow> n \<notin> live v)"
  proof (cases rule: tmux_run_cases)
    case (1 x)
    with assms(4) u tmux_ok_kill [OF assms(1-3) 1(2)] show ?thesis
      by (auto simp: killNamedSession_def em_simps split: if_splits)
  next
    case 2
    with assms(4) u tmux_ok_kill [OF assms(1-3) 2(2)] show ?thesis by (auto simp: killNamedSession_def em_simps)
  qed
  then show "live v - {n} = live w - {n}" "r = Inr () \<Longrightarrow> n \<notin> live v" by blast+
qed

lemma build_run:
  assumes "tmux_ok E live" "names_apart live" "app_target b" "build_session E b n st w = (r, v)"
  shows "live v - {b, n} = live w - {b, n}" "r = Inr () \<Longrightarrow> n \<in> live v"
proof -
  obtain q u where u: "tmux_run E (create_command E b n st) w = (q, u)" by (metis surj_pair)
  obtain k t where k: "killNamedSession E b u = (k, t)" by (metis surj_pair)
  note kill = killNamed_run [OF assms(1-3) k]
  have lu: "live u - {b, n} = live w - {b, n}" "q = Inr x \<Longrightarrow> exitCode x = 0 \<Longrightarrow> n \<in> live u" for x
    using u by (rule tmux_run_cases; use tmux_ok_create [OF assms(1)] in force)+
  show "live v - {b, n} = live w - {b, n}" "r = Inr () \<Longrightarrow> n \<in> live v"
    using assms(4) u k kill lu by (cases q; auto simp: build_session_def em_simps split: if_splits)+
qed

lemma configure_run:
  assumes "tmux_ok E live" "configure_session E n w = (r, v)"
  shows "live v = live w"
proof -
  obtain q u where u: "tmux_run E [''set-window-option'', ''-t'', n @ '':0'', ''alternate-screen'', ''off''] w = (q, u)"
    by (metis surj_pair)
  obtain p t where t: "tmux_run E [''set-option'', ''-t'', n, ''mouse'', ''on''] u = (p, t)" by (metis surj_pair)
  have "live u = live w" using u by (cases rule: tmux_run_cases) (use tmux_ok_option [OF assms(1)] in blast)+
  moreover have "live t = live u" using t by (cases rule: tmux_run_cases) (use tmux_ok_option [OF assms(1)] in blast)+
  ultimately show ?thesis using assms(2) u t
    by (cases q; cases p) (auto simp: configure_session_def em_simps split: if_splits)
qed

lemma build_name_fresh:
  assumes "tmuxBuildSessionName u = Inr b"
  shows "b \<noteq> session_name i"
  using assms by (auto simp: tmuxBuildSessionName_def session_name_def APP_SESSION_PREFIX_def split: option.splits if_splits)

lemma attach_run: "attachSpec E i st w = (r, v) \<Longrightarrow> v = w"
  by (auto simp: attachSpec_def lift_sum_def em_simps split: option.splits sum.splits)

lemma establish_run:
  assumes ok: "tmux_ok E live" and apart: "names_apart live" and i: "isSessionId i" and b: "b \<noteq> session_name i" "app_target b"
    and run: "establish E i st (session_name i) b w = (r, v)"
  shows "live v - {b, session_name i} = live w - {b, session_name i}" "r = Inr () \<Longrightarrow> tab_alive live v i"
    "tab_alive live w i \<Longrightarrow> tab_alive live v i"
proof -
  obtain q w2 where q: "tmux_exists E i w = (q, w2)" by (metis surj_pair)
  have l2: "live w2 = live w" "\<And>x. q = Inr x \<Longrightarrow> x = tab_alive live w i" using exists_run [OF ok apart q] by auto
  have "live v - {b, session_name i} = live w - {b, session_name i} \<and> (r = Inr () \<longrightarrow> tab_alive live v i) \<and>
    (tab_alive live w i \<longrightarrow> tab_alive live v i)"
  proof (cases q)
    case (Inl e)
    with run q l2 show ?thesis by (auto simp: establish_def em_simps tab_alive_def)
  next
    case (Inr x)
    obtain k w3 where k: "(if x then ret () else build_session E b (session_name i) st) w2 = (k, w3)" by (metis surj_pair)
    have l3: "live w3 - {b, session_name i} = live w2 - {b, session_name i}" "k = Inr () \<Longrightarrow> session_name i \<in> live w3"
      "x \<Longrightarrow> w3 = w2"
    proof (atomize (full), cases x)
      case True
      with k have "w3 = w2" by (simp add: ret_def)
      moreover have "session_name i \<in> live w2" using l2(2) [OF Inr] l2(1) True by (simp add: tab_alive_def)
      ultimately show "live w3 - {b, session_name i} = live w2 - {b, session_name i} \<and>
          (k = Inr () \<longrightarrow> session_name i \<in> live w3) \<and> (x \<longrightarrow> w3 = w2)" by simp
    next
      case False
      with k have "build_session E b (session_name i) st w2 = (k, w3)" by simp
      from build_run [OF ok apart b(2) this] False show "live w3 - {b, session_name i} = live w2 - {b, session_name i} \<and>
          (k = Inr () \<longrightarrow> session_name i \<in> live w3) \<and> (x \<longrightarrow> w3 = w2)" by simp
    qed
    obtain c w4 where c: "configure_session E (session_name i) w3 = (c, w4)" by (metis surj_pair)
    have l4: "live w4 = live w3" by (rule configure_run [OF ok c])
    show ?thesis
    proof (cases k)
      case (Inl e)
      then have "v = w3 \<and> r = Inl e" using run q \<open>q = Inr x\<close> k by (auto simp: establish_def bind_apply)
      with l3(1,3) l2(1) l2(2) [OF \<open>q = Inr x\<close>] show ?thesis by (auto simp: tab_alive_def)
    next
      case k': (Inr y)
      then have "v = w4" using run q \<open>q = Inr x\<close> k c by (auto simp: establish_def bind_apply)
      with k' l2 l3 l4 i show ?thesis by (simp add: tab_alive_def)
    qed
  qed
  then show "live v - {b, session_name i} = live w - {b, session_name i}" "r = Inr () \<Longrightarrow> tab_alive live v i"
    "tab_alive live w i \<Longrightarrow> tab_alive live v i" by auto
qed

lemma other_session_tab:
  assumes "isSessionId i" "tmuxBuildSessionName u = Inr b" "j \<noteq> i"
    and "live v - {b, session_name i} = live w - {b, session_name i}"
  shows "tab_alive live v j = tab_alive live w j"
proof (cases "isSessionId j")
  case True
  then have "session_name j \<notin> {b, session_name i}"
    using assms(3) session_name_inj [OF True assms(1)] build_name_fresh [OF assms(2), of j] by auto
  then have "session_name j \<in> live v \<longleftrightarrow> session_name j \<in> live w" using assms(4) by blast
  then show ?thesis by (simp add: tab_alive_def)
qed (simp add: tab_alive_def)

lemma prepare_run:
  assumes ok: "tmux_ok E live" and apart: "names_apart live" and run: "prepare E i settings w = (r, v)"
  shows "(\<forall>x. r = Inr x \<longrightarrow> tab_alive live v i) \<and> (tab_alive live w i \<longrightarrow> tab_alive live v i) \<and>
    (\<forall>j. j \<noteq> i \<longrightarrow> tab_alive live v j = tab_alive live w j)"
proof (cases "isSessionId i \<and> settings \<noteq> None")
  case False
  then show ?thesis using run
    by (cases "isSessionId i"; cases settings) (auto simp: prepare_def tmuxSessionName_session lift_sum_def em_simps)
next
  case True
  then obtain st where st: "isSessionId i" "settings = Some st" by auto
  obtain u w1 where u: "random_uuid E w = (u, w1)" by (metis surj_pair)
  have l1: "live w1 = live w" by (rule tmux_ok_uuid [OF ok u])
  show ?thesis
  proof (cases "tmuxBuildSessionName u")
    case (Inl e)
    with run st u l1 show ?thesis
      by (auto simp: prepare_def tmuxSessionName_session lift_sum_def em_simps tab_alive_def)
  next
    case (Inr b)
    obtain q w2 where q: "establish E i st (session_name i) b w1 = (q, w2)" by (metis surj_pair)
    obtain a w3 where a: "attachSpec E i settings w2 = (a, w3)" by (metis surj_pair)
    have v: "v = w2" "\<And>x. r = Inr x \<Longrightarrow> q = Inr ()"
      using run st u Inr q a attach_run [OF a]
      by (cases q; auto simp: prepare_def tmuxSessionName_session lift_sum_def em_simps)+
    note e = establish_run [OF ok apart st(1) build_name_fresh [OF Inr] app_target_names(2) [OF Inr] q]
    have "tab_alive live v j = tab_alive live w j" if "j \<noteq> i" for j
      using other_session_tab [OF st(1) Inr that, of live w2 w] e(1) l1 v(1) by simp
    moreover have "tab_alive live w i \<Longrightarrow> tab_alive live v i" using e(3) v(1) l1 by (simp add: tab_alive_def)
    ultimately show ?thesis using e(2) v by auto
  qed
qed

lemma kill_run:
  assumes ok: "tmux_ok E live" and apart: "names_apart live" and run: "tmux_kill E i w = (r, v)"
  shows "(r = Inr () \<longrightarrow> \<not> tab_alive live v i) \<and> (\<forall>j. j \<noteq> i \<longrightarrow> tab_alive live v j = tab_alive live w j)"
proof (cases "isSessionId i")
  case False
  then show ?thesis using run by (auto simp: tmux_kill_def tmuxSessionName_session lift_sum_def em_simps)
next
  case True
  then have k: "killNamedSession E (session_name i) w = (r, v)"
    using run by (simp add: tmux_kill_def tmuxSessionName_session lift_sum_def em_simps)
  note kill = killNamed_run [OF ok apart app_target_names(1) [OF True] k]
  have "tab_alive live v j = tab_alive live w j" if "j \<noteq> i" for j
  proof -
    have "session_name j \<noteq> session_name i" if "isSessionId j" using session_name_inj [OF that True] \<open>j \<noteq> i\<close> by blast
    with kill(1) show ?thesis unfolding tab_alive_def by blast
  qed
  with kill(2) show ?thesis by (auto simp: tab_alive_def)
qed

lemma split_lines_chars: "l \<in> set (split_lines acc s) \<Longrightarrow> set l \<subseteq> set acc \<union> set s"
proof (induction acc s rule: split_lines.induct)
  case (2 acc c cs)
  have "set (strip_return acc) \<subseteq> set acc" by (auto simp: strip_return_def split: list.splits if_splits)
  with 2 show ?case by (fastforce split: if_splits)
qed simp

lemma js_trim_blank: "js_trim s = [] \<Longrightarrow> \<forall>c \<in> set s. white_space c"
proof -
  assume "js_trim s = []"
  then have "\<forall>c \<in> set (dropWhile white_space s). white_space c" by (simp add: js_trim_def)
  then have "dropWhile white_space s = []" using hd_dropWhile by (metis list.set_sel(1))
  then show ?thesis by simp
qed

lemma map_filter_set: "set (List.map_filter f xs) = {y. \<exists>x \<in> set xs. f x = Some y}"
  by (induction xs) (auto simp: List.map_filter_simps split: option.splits)

lemma list_run:
  assumes ok: "tmux_ok E live" and run: "listActiveSessionIds E w = (r, v)"
  shows "(\<forall>is. r = Inr is \<longrightarrow> set is = {j. tab_alive live w j}) \<and> (\<forall>j. tab_alive live v j = tab_alive live w j)"
proof -
  obtain q u where u: "tmux_run E [''list-sessions'', ''-F'', ''#{session_name}''] w = (q, u)" by (metis surj_pair)
  then have lu: "live u = live w" using tmux_ok_list(1) [OF ok] by (auto elim!: tmux_run_cases)
  have v: "v = u" using run u by (cases q) (auto simp: listActiveSessionIds_def em_simps split: if_splits)
  have "set is = {j. tab_alive live w j}" if is_def: "r = Inr is" for "is"
  proof -
    obtain x where x: "q = Inr x" "exitCode x = 0 \<or> exitCode x = 1"
      using run u is_def by (cases q) (auto simp: listActiveSessionIds_def em_simps split: if_splits)
    have cmd: "command_run E (tmux_executable E) [''list-sessions'', ''-F'', ''#{session_name}''] w = (Some x, u)"
      using u x by (auto elim!: tmux_run_cases)
    show ?thesis
    proof (cases "exitCode x = 1 \<or> js_trim (map of_char (stdout x)) = []")
      case True
      have "session_name j \<notin> live w" for j
      proof (cases "exitCode x = 1")
        case False
        then have live: "live w = set (split_lines [] (stdout x)) - {[]}" using tmux_ok_list(3) [OF ok cmd] x by simp
        have "white_space (of_char c)" if "c \<in> set (stdout x)" for c
          using True False that js_trim_blank by fastforce
        moreover have "CHR ''w'' \<in> set (session_name j)" by (simp add: session_name_def APP_SESSION_PREFIX_def)
        moreover have "\<not> white_space (of_char CHR ''w'')" by (simp add: white_space_def)
        moreover have "session_name j \<in> set (split_lines [] (stdout x)) \<Longrightarrow> set (session_name j) \<subseteq> set (stdout x)"
          using split_lines_chars [of "session_name j" "[]" "stdout x"] by simp
        ultimately show ?thesis using live by (metis Diff_iff subsetD)
      qed (use tmux_ok_list(2) [OF ok cmd] in simp)
      moreover have "is = []" using run u x is_def True by (auto simp: listActiveSessionIds_def em_simps split: if_splits)
      ultimately show ?thesis by (simp add: tab_alive_def)
    next
      case False
      then have live: "live w = set (split_lines [] (stdout x)) - {[]}" using tmux_ok_list(3) [OF ok cmd] x by simp
      have "is = List.map_filter session_of_line (split_lines [] (stdout x))"
        using run u x False is_def by (auto simp: listActiveSessionIds_def em_simps)
      moreover have "session_of_line l = Some j \<longleftrightarrow> isSessionId j \<and> l = session_name j" for l j
        using session_of_line_name [of j] session_of_line_sound [of l j] session_of_line_valid [of l j]
        by (auto simp: tmuxSessionName_session session_name_def)
      moreover have "session_name j \<noteq> []" for j by (simp add: session_name_def APP_SESSION_PREFIX_def)
      ultimately show ?thesis using live by (auto simp: map_filter_set tab_alive_def)
    qed
  qed
  with v lu show ?thesis by (simp add: tab_alive_def)
qed

interpretation tmux_rt: session_runtime "tmux_controller E" "tab_alive live" "tmux_ok E live \<and> names_apart live" for E live
proof (unfold_locales, goal_cases)
  case (1 i st w r v)
  then have "prepare E i st w = (r, v)" by (simp add: tmux_controller_def)
  from prepare_run [OF _ _ this] 1(1) show ?case by blast
next
  case (2 i w q v)
  then have "tmux_exists E i w = (q, v)" by (simp add: tmux_controller_def)
  from exists_run [OF conjunct1 [OF 2(1)] conjunct2 [OF 2(1)] this] show ?case by (simp add: tab_alive_def)
next
  case (3 i w k v)
  then have "tmux_kill E i w = (k, v)" by (simp add: tmux_controller_def)
  from kill_run [OF _ _ this] 3(1) show ?case by blast
next
  case (4 w l v)
  then have "listActiveSessionIds E w = (l, v)" by (simp add: tmux_controller_def)
  from list_run [OF _ this] 4(1) show ?case by blast
qed

section \<open>A tmux server shared with others\<close>

text \<open>A tmux that looks up targets as documented; the world is the list of live session names.\<close>

definition find_target :: "string \<Rightarrow> string list \<Rightarrow> string option" where
  "find_target n w = (if n \<in> set w then Some n else find (prefix n) w)"

definition shared_command :: "string list \<Rightarrow> string list \<Rightarrow> CommandResult option \<times> string list" where
  "shared_command args w =
     (if hd args = ''has-session'' then
        (Some \<lparr>exitCode = (if find_target (last args) w = None then 1 else 0), stdout = []\<rparr>, w)
      else if hd args = ''kill-session'' then
        (case find_target (last args) w of
           None \<Rightarrow> (Some \<lparr>exitCode = 1, stdout = []\<rparr>, w)
         | Some s \<Rightarrow> (Some \<lparr>exitCode = 0, stdout = []\<rparr>, removeAll s w))
      else if hd args = ''new-session'' then
        (Some \<lparr>exitCode = 0, stdout = []\<rparr>, args ! (length args - 7) # w)
      else if hd args \<in> {''set-option'', ''set-window-option''} then (Some \<lparr>exitCode = 0, stdout = []\<rparr>, w)
      else (None, w))"

definition shared_tmux :: "string list tmux_env" where
  "shared_tmux = \<lparr>tmux_executable = ''tmux'', homeDir = ''/'', command_run = (\<lambda>_. shared_command),
     random_uuid = (\<lambda>w. (None, w)), encode_shell = (\<lambda>_. []), number_string = (\<lambda>_. [])\<rparr>"

lemma find_target_Some: "find_target n w = Some s \<Longrightarrow> target_of (set w) n s"
  by (auto simp: find_target_def target_of_def find_Some_iff split: if_splits)

lemma find_target_None: "find_target n w = None \<Longrightarrow> n \<notin> set w"
  by (auto simp: find_target_def split: if_splits)

lemma shared_tmux_ok: "tmux_ok shared_tmux set"
proof -
  have "has_ok shared_tmux set"
    by (auto simp: has_ok_def shared_tmux_def shared_command_def dest: find_target_Some find_target_None split: if_splits)
  moreover have "kill_ok shared_tmux set"
    by (auto simp: kill_ok_def shared_tmux_def shared_command_def dest: find_target_Some find_target_None
        split: if_splits option.splits)
  ultimately show ?thesis
    unfolding tmux_ok_def create_ok_def option_ok_def list_ok_def
    by (auto simp: shared_tmux_def shared_command_def create_command_def split: if_splits)
qed

text \<open>
  With a session of a longer name on the server, the preparer takes that session for the tab's own:
  it reports the tab as running when its session is gone, and ends the other session instead.
\<close>

theorem longer_name_taken_for_tab:
  assumes "isSessionId i" "c \<noteq> []"
  shows "tmux_ok shared_tmux set \<and> \<not> tab_alive set [session_name i @ c] i \<and>
    tmux_exists shared_tmux i [session_name i @ c] = (Inr True, [session_name i @ c]) \<and>
    tmux_kill shared_tmux i [session_name i @ c] = (Inr (), [])"
  using assms shared_tmux_ok
  by (simp add: tab_alive_def tmux_exists_def tmux_kill_def killNamedSession_def tmuxSessionName_session lift_sum_def
      em_simps tmux_run_def shared_tmux_def shared_command_def find_target_def)

end
