(* ===== verification/BridgeRegistry.thy ===== *)
theory BridgeRegistry
  imports SessionId
begin

text \<open>
  The registry of terminal bridges (\<open>apps/server/src/bridge-registry.ts\<close>): at most one owner per
  session, replaced and closed through a queue per session, and a final shutdown. An owner is a
  handle; closing it is an effect on the surrounding world \<open>'w\<close> that may reject. The queue runs the
  operations of a session one after the other and a call made during shutdown runs after it, so an
  operation is a program that runs to completion. The registry is extended by the session manager's
  state, hence the scheme types.
\<close>

section \<open>State\<close>

record 'w BridgeRegistry =
  owners :: "(string, nat) jsmap"
  shuttingDown :: bool
  shutdown_rejected :: bool
  world :: 'w
  closings :: "(nat \<times> nat \<times> string) list"

datatype registry_error = RegistryShuttingDown | OwnerCloseFailed

record 'w owner_env =
  owner_close :: "nat \<Rightarrow> nat \<Rightarrow> string \<Rightarrow> 'w \<Rightarrow> bool \<times> 'w"
  owner_pid :: "nat \<Rightarrow> 'w \<Rightarrow> jsnum option"
  localeCompare :: "string \<Rightarrow> string \<Rightarrow> int"

record BridgeRuntimeSnapshot =
  snapshot_id :: string
  snapshot_pid :: "int option"

type_synonym ('w, 'm, 'a) registry = "(('w, 'm) BridgeRegistry_scheme, registry_error, 'a) em"

definition REGISTRY_SNAPSHOTS :: nat where
  "REGISTRY_SNAPSHOTS = 20"

definition new_registry :: "'w \<Rightarrow> 'w BridgeRegistry" where
  "new_registry w = \<lparr>owners = [], shuttingDown = False, shutdown_rejected = False, world = w, closings = []\<rparr>"

section \<open>Operations\<close>

definition close_owner :: "'w owner_env \<Rightarrow> nat \<Rightarrow> nat \<Rightarrow> string \<Rightarrow> ('w, 'm, unit) registry" where
  "close_owner E h code reason = (\<lambda>s.
     case owner_close E h code reason (world s) of
       (resolved, w) \<Rightarrow>
         ((if resolved then Inr () else Inl OwnerCloseFailed),
          s\<lparr>world := w, closings := closings s @ [(h, code, reason)]\<rparr>))"

definition closeRejectedOwner :: "'w owner_env \<Rightarrow> nat \<Rightarrow> nat \<Rightarrow> string \<Rightarrow> ('w, 'm, unit) registry" where
  "closeRejectedOwner E h code reason = bind (attempt (close_owner E h code reason)) (\<lambda>_. ret ())"

definition ownerPid :: "'w owner_env \<Rightarrow> nat \<Rightarrow> 'w \<Rightarrow> int option" where
  "ownerPid E h w =
     (case owner_pid E h w of
        Some (Num r) \<Rightarrow> if isInteger (Num r) \<and> r > 0 then Some \<lfloor>r\<rfloor> else None
      | _ \<Rightarrow> None)"

definition registry_get :: "string \<Rightarrow> ('w, 'm) BridgeRegistry_scheme \<Rightarrow> nat option" where
  "registry_get i s = jm_get (owners s) i"

definition registry_entries :: "'w owner_env \<Rightarrow> ('w, 'm) BridgeRegistry_scheme \<Rightarrow> BridgeRuntimeSnapshot list" where
  "registry_entries E s =
     map (\<lambda>(i, h). \<lparr>snapshot_id = i, snapshot_pid = ownerPid E h (world s)\<rparr>)
       (take REGISTRY_SNAPSHOTS (stable_sort (\<lambda>a b. localeCompare E (fst a) (fst b) \<le> 0) (owners s)))"

fun snapshot_loop ::
  "'w owner_env \<Rightarrow> ('w, 'm) BridgeRegistry_scheme \<Rightarrow> string list \<Rightarrow> string list \<Rightarrow> BridgeRuntimeSnapshot list"
where
  "snapshot_loop E s seen [] = []"
| "snapshot_loop E s seen (i # is) =
     (if \<not> isSessionId i \<or> i \<in> set seen then snapshot_loop E s seen is
      else case jm_get (owners s) i of
             None \<Rightarrow> snapshot_loop E s (i # seen) is
           | Some h \<Rightarrow>
               \<lparr>snapshot_id = i, snapshot_pid = ownerPid E h (world s)\<rparr> # snapshot_loop E s (i # seen) is)"

definition snapshotFor ::
  "'w owner_env \<Rightarrow> string list \<Rightarrow> ('w, 'm) BridgeRegistry_scheme \<Rightarrow> BridgeRuntimeSnapshot list"
where
  "snapshotFor E is s = snapshot_loop E s [] (take REGISTRY_SNAPSHOTS is)"

definition registeredCount :: "('w, 'm) BridgeRegistry_scheme \<Rightarrow> nat" where
  "registeredCount s = length (owners s)"

definition registry_replace :: "'w owner_env \<Rightarrow> string \<Rightarrow> nat \<Rightarrow> ('w, 'm, unit) registry" where
  "registry_replace E i h =
     bind (gets shuttingDown) (\<lambda>down.
       if down then
         bind (closeRejectedOwner E h 1001 ''server_shutdown'') (\<lambda>_. throw RegistryShuttingDown)
       else
         catch
           (bind (gets (\<lambda>s. jm_get (owners s) i)) (\<lambda>prior.
            bind (case prior of
                    None \<Rightarrow> ret ()
                  | Some p \<Rightarrow> if p \<noteq> h then close_owner E p 4001 ''session_replaced'' else ret ()) (\<lambda>_.
            modify (\<lambda>s. if jm_get (owners s) i = prior then s\<lparr>owners := jm_set (owners s) i h\<rparr> else s))))
           (\<lambda>e. bind (closeRejectedOwner E h 1011 ''registration_failed'') (\<lambda>_. throw e)))"

definition registry_remove :: "string \<Rightarrow> nat \<Rightarrow> ('w, 'm, unit) registry" where
  "registry_remove i h =
     modify (\<lambda>s. if shuttingDown s then s
                 else if jm_get (owners s) i = Some h then s\<lparr>owners := jm_delete (owners s) i\<rparr> else s)"

definition registry_close :: "'w owner_env \<Rightarrow> string \<Rightarrow> nat \<Rightarrow> string \<Rightarrow> ('w, 'm, unit) registry" where
  "registry_close E i code reason =
     bind (gets shuttingDown) (\<lambda>down.
       if down then ret ()
       else
         bind (gets (\<lambda>s. jm_get (owners s) i)) (\<lambda>current.
           case current of
             None \<Rightarrow> ret ()
           | Some h \<Rightarrow>
               bind (close_owner E h code reason) (\<lambda>_.
               modify (\<lambda>s. if jm_get (owners s) i = Some h then s\<lparr>owners := jm_delete (owners s) i\<rparr> else s))))"

text \<open>
  \<open>Promise.allSettled\<close> over the entries: each is closed and deleted even when closing rejects; the
  first rejection, if any, is the result.
\<close>

fun close_entries :: "'w owner_env \<Rightarrow> (string \<times> nat) list \<Rightarrow> ('w, 'm, bool) registry" where
  "close_entries E [] = ret False"
| "close_entries E ((i, h) # es) =
     bind (attempt (close_owner E h 1001 ''server_shutdown'')) (\<lambda>r.
     bind (modify (\<lambda>s. if jm_get (owners s) i = Some h then s\<lparr>owners := jm_delete (owners s) i\<rparr> else s)) (\<lambda>_.
     bind (close_entries E es) (\<lambda>failed.
     ret (failed \<or> r \<noteq> Inr ()))))"

definition closeAll :: "'w owner_env \<Rightarrow> ('w, 'm, unit) registry" where
  "closeAll E =
     bind (gets (\<lambda>s. (shuttingDown s, shutdown_rejected s))) (\<lambda>(down, rejected).
       if down then (if rejected then throw OwnerCloseFailed else ret ())
       else
         bind (modify (\<lambda>s. s\<lparr>shuttingDown := True\<rparr>)) (\<lambda>_.
         bind (gets owners) (\<lambda>es.
         bind (close_entries E es) (\<lambda>failed.
         bind (modify (\<lambda>s. s\<lparr>shutdown_rejected := failed\<rparr>)) (\<lambda>_.
         if failed then throw OwnerCloseFailed else ret ())))))"

section \<open>Ownership\<close>

definition asked_to_close :: "('w, 'm) BridgeRegistry_scheme \<Rightarrow> nat \<Rightarrow> bool" where
  "asked_to_close s h \<longleftrightarrow> h \<in> fst ` set (closings s)"

definition held :: "('w, 'm) BridgeRegistry_scheme \<Rightarrow> nat \<Rightarrow> bool" where
  "held s h \<longleftrightarrow> h \<in> snd ` set (owners s)"

text \<open>Registered or closing.\<close>

definition accounted :: "('w, 'm) BridgeRegistry_scheme \<Rightarrow> nat \<Rightarrow> bool" where
  "accounted s h \<longleftrightarrow> held s h \<or> asked_to_close s h"

definition registry_inv :: "('w, 'm) BridgeRegistry_scheme \<Rightarrow> bool" where
  "registry_inv s \<longleftrightarrow> jm_wf (owners s) \<and> (shuttingDown s \<longrightarrow> owners s = [])"

declare map_of_eq_Some_iff [simp del] Some_eq_map_of_iff [simp del]

lemma close_owner_run:
  assumes "close_owner E h c r s = (q, t)"
  shows "owners t = owners s" "shuttingDown t = shuttingDown s" "closings t = closings s @ [(h, c, r)]"
  using assms by (auto simp: close_owner_def split: prod.splits)

lemma closeRejected_run:
  assumes "closeRejectedOwner E h c r s = (q, t)"
  shows "owners t = owners s" "shuttingDown t = shuttingDown s" "closings t = closings s @ [(h, c, r)]"
    "q = Inr ()"
proof -
  obtain q' u where u: "close_owner E h c r s = (q', u)" by (metis surj_pair)
  with assms have "t = u" "q = Inr ()" by (auto simp: closeRejectedOwner_def em_simps)
  with close_owner_run [OF u] show "owners t = owners s" "shuttingDown t = shuttingDown s"
    "closings t = closings s @ [(h, c, r)]" "q = Inr ()" by simp_all
qed

lemma in_values: "jm_wf m \<Longrightarrow> (k, v) \<in> set m \<longleftrightarrow> jm_get m k = Some v"
  by (simp add: jm_get_in)

lemma replace_run:
  assumes "registry_replace E i h s = (q, t)"
  shows "(case q of
     Inr _ \<Rightarrow> \<not> shuttingDown s \<and> owners t = jm_set (owners s) i h \<and>
       (\<forall>p. jm_get (owners s) i = Some p \<longrightarrow> p \<noteq> h \<longrightarrow> asked_to_close t p)
   | Inl _ \<Rightarrow> owners t = owners s \<and> asked_to_close t h) \<and>
    shuttingDown t = shuttingDown s \<and> set (closings s) \<subseteq> set (closings t)"
proof (cases "shuttingDown s")
  case True
  obtain q' u where u: "closeRejectedOwner E h 1001 ''server_shutdown'' s = (q', u)" by (metis surj_pair)
  from assms True u closeRejected_run [OF u] show ?thesis
    by (auto simp: registry_replace_def em_simps asked_to_close_def)
next
  case False
  show ?thesis
  proof (cases "\<exists>p. jm_get (owners s) i = Some p \<and> p \<noteq> h")
    case False
    then show ?thesis using assms \<open>\<not> shuttingDown s\<close>
      by (auto simp: registry_replace_def em_simps split: option.splits if_splits)
  next
    case True
    then obtain p where p: "jm_get (owners s) i = Some p" "p \<noteq> h" by blast
    obtain q1 s1 where 1: "close_owner E p 4001 ''session_replaced'' s = (q1, s1)" by (metis surj_pair)
    obtain q2 s2 where 2: "closeRejectedOwner E h 1011 ''registration_failed'' s1 = (q2, s2)" by (metis surj_pair)
    note c = close_owner_run [OF 1] closeRejected_run [OF 2]
    show ?thesis using assms \<open>\<not> shuttingDown s\<close> p 1 2 c
      by (cases q1) (auto simp: registry_replace_def em_simps asked_to_close_def)
  qed
qed

lemma close_run:
  assumes "registry_close E i c r s = (q, t)"
  shows "(case q of
     Inr _ \<Rightarrow> shuttingDown s \<and> owners t = owners s \<or> \<not> shuttingDown s \<and> owners t = jm_delete (owners s) i \<and>
       (\<forall>h. jm_get (owners s) i = Some h \<longrightarrow> asked_to_close t h)
   | Inl _ \<Rightarrow> owners t = owners s) \<and>
    shuttingDown t = shuttingDown s \<and> set (closings s) \<subseteq> set (closings t)"
proof (cases "shuttingDown s \<or> jm_get (owners s) i = None")
  case True
  moreover have "jm_get (owners s) i = None \<Longrightarrow> jm_delete (owners s) i = owners s"
    by (simp add: delete_id jm_get_None)
  ultimately show ?thesis using assms by (auto simp: registry_close_def em_simps split: if_splits)
next
  case False
  then obtain h where h: "jm_get (owners s) i = Some h" by auto
  obtain q1 s1 where 1: "close_owner E h c r s = (q1, s1)" by (metis surj_pair)
  note run = close_owner_run [OF 1]
  show ?thesis using assms False h 1 run
    by (cases q1) (auto simp: registry_close_def em_simps asked_to_close_def)
qed

lemma close_entries_run:
  assumes "close_entries E es s = (q, t)" "jm_wf (owners s)"
  shows "(\<exists>f. q = Inr f) \<and> owners t = filter (\<lambda>e. e \<notin> set es) (owners s) \<and> shuttingDown t = shuttingDown s \<and>
    set (closings s) \<subseteq> set (closings t) \<and> (\<forall>(i, h) \<in> set es. asked_to_close t h)"
  using assms
proof (induction es arbitrary: s q t)
  case Nil
  then show ?case by (auto simp: ret_def)
next
  case (Cons e es)
  obtain i h where e: "e = (i, h)" by (cases e)
  obtain q1 s1 where 1: "close_owner E h 1001 ''server_shutdown'' s = (q1, s1)" by (metis surj_pair)
  note run = close_owner_run [OF 1]
  let ?s2 = "if jm_get (owners s1) i = Some h then s1\<lparr>owners := jm_delete (owners s1) i\<rparr> else s1"
  obtain q3 s3 where 3: "close_entries E es ?s2 = (q3, s3)" by (metis surj_pair)
  have wf: "jm_wf (owners ?s2)" using Cons.prems(2) run by simp
  note ih = Cons.IH [OF 3 wf]
  have "owners ?s2 = filter (\<lambda>x. x \<noteq> (i, h)) (owners s)"
  proof (cases "jm_get (owners s) i = Some h")
    case True
    then have "(i, h) \<in> set (owners s)" by (rule map_of_SomeD)
    then have "jm_delete (owners s) i = filter (\<lambda>x. x \<noteq> (i, h)) (owners s)"
      unfolding AList.delete_eq using Cons.prems(2)
      by (intro filter_cong) (auto dest: eq_key_imp_eq_value)
    with True run show ?thesis by simp
  next
    case False
    then have "(i, h) \<notin> set (owners s)" using Cons.prems(2) by (auto simp: jm_get_in)
    then have "filter (\<lambda>x. x \<noteq> (i, h)) (owners s) = owners s" by (auto intro: filter_True)
    with False run show ?thesis by simp
  qed
  moreover have "t = s3 \<and> (\<exists>f. q = Inr f)"
    using Cons.prems(1) e 1 3 ih by (auto simp: em_simps)
  moreover have "asked_to_close s3 h"
  proof -
    have "(h, 1001, ''server_shutdown'') \<in> set (closings s3)" using ih run by (auto split: if_splits)
    then show ?thesis by (force simp: asked_to_close_def)
  qed
  ultimately show ?case using ih run e
    by (auto simp: conj_commute split: if_splits intro: filter_cong)
qed

lemma closeAll_run:
  assumes "closeAll E s = (q, t)" "registry_inv s"
  shows "owners t = []" "shuttingDown t" "set (closings s) \<subseteq> set (closings t)"
    "held s h \<Longrightarrow> asked_to_close t h"
proof -
  have "owners t = [] \<and> shuttingDown t \<and> set (closings s) \<subseteq> set (closings t) \<and> (held s h \<longrightarrow> asked_to_close t h)"
  proof (cases "shuttingDown s")
    case True
    with assms show ?thesis
      by (auto simp: closeAll_def em_simps registry_inv_def held_def split: if_splits)
  next
    case False
    let ?s1 = "s\<lparr>shuttingDown := True\<rparr>"
    obtain q2 s2 where 2: "close_entries E (owners s) ?s1 = (q2, s2)" by (metis surj_pair)
    have "jm_wf (owners ?s1)" using assms(2) by (simp add: registry_inv_def)
    note run = close_entries_run [OF 2 this]
    then obtain f where f: "q2 = Inr f" by blast
    have t: "t = s2\<lparr>shutdown_rejected := f\<rparr>"
      using assms(1) False 2 f by (auto simp: closeAll_def em_simps split: if_splits)
    have "held s h \<Longrightarrow> asked_to_close s2 h" using run by (auto simp: held_def)
    with run t show ?thesis by (auto simp: asked_to_close_def)
  qed
  then show "owners t = []" "shuttingDown t" "set (closings s) \<subseteq> set (closings t)"
    "held s h \<Longrightarrow> asked_to_close t h" by auto
qed

section \<open>Runs\<close>

datatype registry_event =
    RReplace string nat | RRemove string nat | RClose string nat string | RCloseAll

fun registry_exec :: "'w owner_env \<Rightarrow> registry_event \<Rightarrow> 'w BridgeRegistry \<Rightarrow> 'w BridgeRegistry" where
  "registry_exec E (RReplace i h) s = snd (registry_replace E i h s)"
| "registry_exec E (RRemove i h) s = snd (registry_remove i h s)"
| "registry_exec E (RClose i c r) s = snd (registry_close E i c r s)"
| "registry_exec E RCloseAll s = snd (closeAll E s)"

definition withdrawn :: "registry_event list \<Rightarrow> nat \<Rightarrow> bool" where
  "withdrawn es h \<longleftrightarrow> (\<exists>i. RRemove i h \<in> set es)"

lemma held_iff: "jm_wf (owners s) \<Longrightarrow> held s h \<longleftrightarrow> (\<exists>i. jm_get (owners s) i = Some h)"
  by (force simp: held_def jm_get_in)

lemma registry_exec_inv: "registry_inv s \<Longrightarrow> registry_inv (registry_exec E e s)"
proof (cases e)
  case (RReplace i h)
  assume inv: "registry_inv s"
  obtain q t where t: "registry_replace E i h s = (q, t)" by (metis surj_pair)
  show ?thesis using replace_run [OF t] inv t RReplace
    by (cases q) (auto simp: registry_inv_def)
next
  case (RClose i c r)
  assume inv: "registry_inv s"
  obtain q t where t: "registry_close E i c r s = (q, t)" by (metis surj_pair)
  show ?thesis using close_run [OF t] inv t RClose
    by (cases q) (auto simp: registry_inv_def)
next
  case RCloseAll
  assume inv: "registry_inv s"
  obtain q t where t: "closeAll E s = (q, t)" by (metis surj_pair)
  show ?thesis using closeAll_run [OF t inv] t RCloseAll by (simp add: registry_inv_def)
qed (auto simp: registry_remove_def registry_inv_def em_simps)

lemma registry_exec_accounted:
  assumes "registry_inv s" "accounted s h" "\<forall>i. e \<noteq> RRemove i h"
  shows "accounted (registry_exec E e s) h"
proof (cases e)
  case (RReplace i k)
  obtain q t where t: "registry_replace E i k s = (q, t)" by (metis surj_pair)
  have wf: "jm_wf (owners s)" using assms(1) by (simp add: registry_inv_def)
  have "held t h \<or> asked_to_close t h" if "held s h"
    using that replace_run [OF t] wf
    by (cases q) (auto simp: held_iff jm_wf_set)
  then show ?thesis using replace_run [OF t] assms(2) t RReplace
    by (auto simp: accounted_def asked_to_close_def)
next
  case (RClose i c r)
  obtain q t where t: "registry_close E i c r s = (q, t)" by (metis surj_pair)
  have wf: "jm_wf (owners s)" using assms(1) by (simp add: registry_inv_def)
  have "held t h \<or> asked_to_close t h" if "held s h"
    using that close_run [OF t] wf by (cases q) (auto simp: held_iff, metis)
  then show ?thesis using close_run [OF t] assms(2) t RClose
    by (auto simp: accounted_def asked_to_close_def)
next
  case RCloseAll
  obtain q t where t: "closeAll E s = (q, t)" by (metis surj_pair)
  from closeAll_run [OF t assms(1)] assms(2) t RCloseAll show ?thesis
    by (auto simp: accounted_def asked_to_close_def)
next
  case (RRemove i k)
  have wf: "jm_wf (owners s)" using assms(1) by (simp add: registry_inv_def)
  have "k \<noteq> h" using assms(3) RRemove by auto
  with assms(2) RRemove wf show ?thesis
    by (auto simp: registry_remove_def em_simps accounted_def held_iff asked_to_close_def) (metis option.inject)
qed

lemma registry_fold_inv: "registry_inv s \<Longrightarrow> registry_inv (fold (registry_exec E) es s)"
  by (induction es arbitrary: s) (auto intro: registry_exec_inv)

lemma registry_fold_accounted:
  "registry_inv s \<Longrightarrow> accounted s h \<Longrightarrow> \<not> withdrawn es h \<Longrightarrow> accounted (fold (registry_exec E) es s) h"
proof (induction es arbitrary: s)
  case (Cons e es)
  have "accounted (registry_exec E e s) h"
    by (rule registry_exec_accounted [OF Cons.prems(1,2)]) (use Cons.prems(3) in \<open>auto simp: withdrawn_def\<close>)
  with Cons show ?case by (simp add: withdrawn_def registry_exec_inv)
qed simp

lemma registry_replace_accounted:
  assumes "registry_inv s"
  shows "accounted (registry_exec E (RReplace i h) s) h"
proof -
  obtain q t where t: "registry_replace E i h s = (q, t)" by (metis surj_pair)
  have "jm_wf (owners s)" using assms by (simp add: registry_inv_def)
  then have "q = Inr () \<Longrightarrow> held t h"
    using replace_run [OF t] held_iff [of t h] by (auto simp: jm_wf_set)
  with replace_run [OF t] t show ?thesis by (cases q) (auto simp: accounted_def)
qed

lemma new_registry_inv: "registry_inv (new_registry w)"
  by (simp add: registry_inv_def new_registry_def)

text \<open>
  C18. No bridge is leaked: an owner handed to the registry is, ever after, registered or has been
  asked to close, whether the replacement succeeded, failed or came during shutdown, unless its
  holder withdrew it. No session has two owners, and once the registry has shut down it holds no
  owner of any session, also when closing some of them failed, and this owner was asked to close.
\<close>

theorem owner_never_leaked:
  assumes "RReplace i h \<in> set es" "\<not> withdrawn es h"
  shows "accounted (fold (registry_exec E) es (new_registry w)) h \<and>
    jm_wf (owners (fold (registry_exec E) es (new_registry w))) \<and>
    (shuttingDown (fold (registry_exec E) es (new_registry w)) \<longrightarrow>
       owners (fold (registry_exec E) es (new_registry w)) = [] \<and>
       asked_to_close (fold (registry_exec E) es (new_registry w)) h)"
proof -
  obtain es1 es2 where es: "es = es1 @ RReplace i h # es2" using assms(1) by (meson split_list)
  let ?s = "fold (registry_exec E) es1 (new_registry w)" and ?t = "fold (registry_exec E) es (new_registry w)"
  have s: "registry_inv ?s" by (rule registry_fold_inv [OF new_registry_inv])
  have "accounted ?t h"
    unfolding es fold_append comp_apply fold_simps
    by (rule registry_fold_accounted [OF registry_exec_inv [OF s] registry_replace_accounted [OF s]])
       (use assms(2) es in \<open>auto simp: withdrawn_def\<close>)
  moreover have "registry_inv ?t" by (rule registry_fold_inv [OF new_registry_inv])
  ultimately show ?thesis by (auto simp: registry_inv_def accounted_def held_def)
qed

definition example_owners :: "nat owner_env" where
  "example_owners = \<lparr>owner_close = (\<lambda>h c r w. (w mod 2 = 0, Suc w)), owner_pid = (\<lambda>h w. Some (Num (of_nat h))),
     localeCompare = (\<lambda>a b. 0)\<rparr>"

theorem owner_never_leaked_witness:
  "accounted (fold (registry_exec example_owners) [RReplace ''a'' 1, RReplace ''a'' 2, RCloseAll] (new_registry 1)) 2 \<and>
   owners (fold (registry_exec example_owners) [RReplace ''a'' 1, RReplace ''a'' 2, RCloseAll] (new_registry 1)) = [] \<and>
   asked_to_close (fold (registry_exec example_owners) [RReplace ''a'' 1, RReplace ''a'' 2, RCloseAll] (new_registry 1)) 2"
  using owner_never_leaked [of "''a''" 2 "[RReplace ''a'' 1, RReplace ''a'' 2, RCloseAll]" example_owners 1]
  by (simp add: withdrawn_def registry_replace_def closeAll_def em_simps new_registry_def close_owner_def
      closeRejectedOwner_def example_owners_def)

text \<open>The snapshot lists are bounded and name each session once.\<close>

lemma snapshot_loop_ids:
  "set (map snapshot_id (snapshot_loop E s seen is)) \<subseteq> set is - set seen \<and>
   distinct (map snapshot_id (snapshot_loop E s seen is)) \<and> length (snapshot_loop E s seen is) \<le> length is"
proof (induction E s seen "is" rule: snapshot_loop.induct)
  case (2 E s seen i "is")
  then show ?case
    by (cases "jm_get (owners s) i"; cases "\<not> isSessionId i \<or> i \<in> set seen") (simp_all add: le_SucI, blast+)
qed simp

lemma snapshotFor_bounded:
  "length (snapshotFor E is s) \<le> 20" "distinct (map snapshot_id (snapshotFor E is s))"
  using snapshot_loop_ids [of E s "[]" "take REGISTRY_SNAPSHOTS is"]
  by (auto simp: snapshotFor_def REGISTRY_SNAPSHOTS_def)

end
