(* ===== verification/CleanupEligibility.thy ===== *)
theory CleanupEligibility
  imports TabDocument
begin

text \<open>
  The reader that decides whether a session is stale (\<open>apps/server/src/cleanup-eligibility.ts\<close>). It
  looks at the tab list, the activity tracker, the socket index and the bridge registry twice, before
  and after the asynchronous question whether the tmux session exists, and answers only when both
  looks agree. The sources are the values the other components report at those two moments. The
  calendar arithmetic of the timestamp parser is written out and shown to order instants correctly.
\<close>

section \<open>Data\<close>

datatype CleanupSkipReason =
    SkDisabled | SkInvalid | SkTabAbsent | SkInactive | SkSessionAbsent | SkConnected | SkBridged
  | SkActivityPending | SkRecentActivity | SkInvalidTimestamp | SkDependencyError | SkChanged

record EligibilityGeneration =
  gen_structure :: int
  gen_activity :: int
  gen_sockets :: int

record EligibilitySnapshot =
  el_id :: string
  el_thresholdMs :: jsnum
  el_cutoffMs :: jsnum
  eligible :: bool
  reason :: "CleanupSkipReason option"
  generation :: EligibilityGeneration

record EligibilityRequest =
  rq_id :: string
  rq_thresholdMs :: jsnum
  rq_cutoffMs :: jsnum

record cleanup_sources =
  src_tabs :: "TabDocument option"
  src_activity :: "string \<Rightarrow> (int \<times> bool) option"
  src_sockets :: "string \<Rightarrow> (int \<times> int) option"
  src_bridged :: "string \<Rightarrow> bool option"

record SynchronousState =
  st_structure :: int
  st_desiredState :: DesiredState
  st_createdAt :: string
  st_lastActivityAt :: string
  st_activity :: "int \<times> bool"
  st_sockets :: "int \<times> int"
  st_bridged :: bool

definition MAX_TABS :: nat where "MAX_TABS = 20"
definition MAX_SOCKETS :: int where "MAX_SOCKETS = 1024"
definition MAX_THRESHOLD_MS :: int where "MAX_THRESHOLD_MS = 8760 * 60 * 60 * 1000"

section \<open>Time stamps\<close>

definition digit_class :: "char \<Rightarrow> bool" where
  "digit_class c \<longleftrightarrow> c \<in> set ''0123456789''"

definition UTC_PREFIX :: "(char \<Rightarrow> bool) list" where
  "UTC_PREFIX =
     replicate 4 digit_class @ [\<lambda>c. c = CHR ''-''] @ replicate 2 digit_class @ [\<lambda>c. c = CHR ''-''] @
     replicate 2 digit_class @ [\<lambda>c. c = CHR ''T''] @ replicate 2 digit_class @ [\<lambda>c. c = CHR '':''] @
     replicate 2 digit_class @ [\<lambda>c. c = CHR '':''] @ replicate 2 digit_class"

text \<open>\<open>Number\<close> on a string of digits.\<close>

definition decimal_value :: "string \<Rightarrow> int" where
  "decimal_value s = foldl (\<lambda>n c. 10 * n + int (of_char c - 48)) 0 s"

definition leap_year :: "int \<Rightarrow> bool" where
  "leap_year y \<longleftrightarrow> y mod 4 = 0 \<and> (y mod 100 \<noteq> 0 \<or> y mod 400 = 0)"

definition daysInMonth :: "int \<Rightarrow> int \<Rightarrow> int" where
  "daysInMonth y m =
     (if m = 2 then (if leap_year y then 29 else 28)
      else if m \<in> {4, 6, 9, 11} then 30 else 31)"

text \<open>Day and time arithmetic of \<open>Date\<close> (ECMA-262, Day Number and Time within Day).\<close>

definition day_from_year :: "int \<Rightarrow> int" where
  "day_from_year y = 365 * (y - 1970) + (y - 1969) div 4 - (y - 1901) div 100 + (y - 1601) div 400"

definition day_in_year :: "int \<Rightarrow> int \<Rightarrow> int" where
  "day_in_year y m = (\<Sum>k \<leftarrow> [1..m - 1]. daysInMonth y k)"

definition make_time :: "int \<Rightarrow> int \<Rightarrow> int \<Rightarrow> int \<Rightarrow> int \<Rightarrow> int \<Rightarrow> int \<Rightarrow> int" where
  "make_time y mo d h mi s ms =
     (day_from_year y + day_in_year y mo + (d - 1)) * 86400000 +
     h * 3600000 + mi * 60000 + s * 1000 + ms"

definition valid_fields :: "int \<Rightarrow> int \<Rightarrow> int \<Rightarrow> int \<Rightarrow> int \<Rightarrow> int \<Rightarrow> bool" where
  "valid_fields y mo d h mi s \<longleftrightarrow>
     \<not> (mo < 1 \<or> mo > 12 \<or> d < 1 \<or> d > daysInMonth y mo \<or> h > 23 \<or> mi > 59 \<or> s > 59)"

text \<open>The optional fraction and the final \<open>Z\<close>.\<close>

definition fraction_of :: "string \<Rightarrow> string option" where
  "fraction_of r =
     (if r = ''Z'' then Some []
      else case r of
             [] \<Rightarrow> None
           | c # f \<Rightarrow>
               if c = CHR ''.'' \<and> f \<noteq> [] \<and> last f = CHR ''Z'' \<and> 1 \<le> length (butlast f) \<and>
                  length (butlast f) \<le> 9 \<and> list_all digit_class (butlast f)
               then Some (butlast f) else None)"

definition parseUtcTimestamp :: "string \<Rightarrow> int option" where
  "parseUtcTimestamp v =
     (if \<not> matches UTC_PREFIX (take 19 v) then None
      else case fraction_of (drop 19 v) of
             None \<Rightarrow> None
           | Some f \<Rightarrow>
               let y = decimal_value (take 4 v); mo = decimal_value (take 2 (drop 5 v));
                   d = decimal_value (take 2 (drop 8 v)); h = decimal_value (take 2 (drop 11 v));
                   mi = decimal_value (take 2 (drop 14 v)); s = decimal_value (take 2 (drop 17 v));
                   ms = decimal_value (take 3 (f @ ''000''))
               in if valid_fields y mo d h mi s then Some (make_time y mo d h mi s ms) else None)"

section \<open>The reader\<close>

definition validGeneration :: "int \<Rightarrow> bool" where
  "validGeneration g \<longleftrightarrow> safe_int g \<and> g \<ge> 0"

definition validRequest :: "EligibilityRequest \<Rightarrow> bool" where
  "validRequest q \<longleftrightarrow> isSessionId (rq_id q) \<and> isSafeInteger (rq_thresholdMs q) \<and> num_ge (rq_thresholdMs q) 0 \<and>
     num_le (rq_thresholdMs q) (of_int MAX_THRESHOLD_MS) \<and> isSafeInteger (rq_cutoffMs q)"

text \<open>\<open>None\<close> when the tab is absent; \<open>Inl\<close> when a source throws or reports nonsense.\<close>

definition capture :: "cleanup_sources \<Rightarrow> string \<Rightarrow> unit + SynchronousState option" where
  "capture src i =
     (case src_tabs src of
        None \<Rightarrow> Inl ()
      | Some d \<Rightarrow>
          if \<not> safe_int (int (structureRevision d)) \<or> length (tabs d) > MAX_TABS then Inl ()
          else let found = filter (\<lambda>t. tab_id t = i) (tabs d) in
          if length found > 1 then Inl ()
          else case found of
                 [] \<Rightarrow> Inr None
               | tab # _ \<Rightarrow>
                   (case (src_activity src i, src_sockets src i, src_bridged src i) of
                      (Some (ag, ap), Some (sg, sc), Some br) \<Rightarrow>
                        if \<not> validGeneration ag \<or> \<not> validGeneration sg \<or> \<not> safe_int sc \<or> sc < 0 \<or> sc > MAX_SOCKETS
                        then Inl ()
                        else Inr (Some \<lparr>st_structure = int (structureRevision d), st_desiredState = desiredState tab,
                               st_createdAt = tab_createdAt tab, st_lastActivityAt = lastActivityAt tab,
                               st_activity = (ag, ap), st_sockets = (sg, sc), st_bridged = br\<rparr>)
                    | _ \<Rightarrow> Inl ()))"

definition sameState :: "SynchronousState \<Rightarrow> SynchronousState \<Rightarrow> bool" where
  "sameState a b \<longleftrightarrow>
     st_structure a = st_structure b \<and> st_desiredState a = st_desiredState b \<and>
     st_createdAt a = st_createdAt b \<and> st_lastActivityAt a = st_lastActivityAt b \<and>
     fst (st_activity a) = fst (st_activity b) \<and> snd (st_activity a) = snd (st_activity b) \<and>
     fst (st_sockets a) = fst (st_sockets b) \<and> snd (st_sockets a) = snd (st_sockets b) \<and>
     st_bridged a = st_bridged b"

definition eligibility_result ::
  "EligibilityRequest \<Rightarrow> bool \<Rightarrow> CleanupSkipReason option \<Rightarrow> SynchronousState option \<Rightarrow> EligibilitySnapshot"
where
  "eligibility_result q el why st =
     \<lparr>el_id = (if isSessionId (rq_id q) then rq_id q else []),
      el_thresholdMs = (if isSafeInteger (rq_thresholdMs q) \<and> num_ge (rq_thresholdMs q) 0 then rq_thresholdMs q else Num 0),
      el_cutoffMs = (if isSafeInteger (rq_cutoffMs q) then rq_cutoffMs q else Num 0),
      eligible = el, reason = why,
      generation = (case st of
          None \<Rightarrow> \<lparr>gen_structure = 0, gen_activity = 0, gen_sockets = 0\<rparr>
        | Some s \<Rightarrow> \<lparr>gen_structure = st_structure s, gen_activity = fst (st_activity s), gen_sockets = fst (st_sockets s)\<rparr>)\<rparr>"

text \<open>
  The decision on two captures that agree. A tab of the store always has a \<open>lastActivityAt\<close> (the schema requires
  it), so the fallback on \<open>createdAt\<close> is not reached.
\<close>

definition decide :: "EligibilityRequest \<Rightarrow> bool \<Rightarrow> SynchronousState \<Rightarrow> EligibilitySnapshot" where
  "decide q present st =
     (if st_desiredState st \<noteq> Active then eligibility_result q False (Some SkInactive) (Some st)
      else if \<not> present then eligibility_result q False (Some SkSessionAbsent) (Some st)
      else if snd (st_sockets st) > 0 then eligibility_result q False (Some SkConnected) (Some st)
      else if st_bridged st then eligibility_result q False (Some SkBridged) (Some st)
      else if snd (st_activity st) then eligibility_result q False (Some SkActivityPending) (Some st)
      else case parseUtcTimestamp (st_lastActivityAt st) of
             None \<Rightarrow> eligibility_result q False (Some SkInvalidTimestamp) (Some st)
           | Some t \<Rightarrow>
               if num_le (rq_cutoffMs q) (of_int t)
               then eligibility_result q False (Some SkRecentActivity) (Some st)
               else eligibility_result q True None (Some st))"

definition read_eligibility ::
  "EligibilityRequest \<Rightarrow> cleanup_sources \<Rightarrow> bool option \<Rightarrow> cleanup_sources \<Rightarrow> EligibilitySnapshot"
where
  "read_eligibility q before present after =
     (if \<not> validRequest q then eligibility_result q False (Some SkInvalid) None
      else if rq_thresholdMs q = Num 0 then eligibility_result q False (Some SkDisabled) None
      else case capture before (rq_id q) of
             Inl _ \<Rightarrow> eligibility_result q False (Some SkDependencyError) None
           | Inr None \<Rightarrow> eligibility_result q False (Some SkTabAbsent) None
           | Inr (Some b) \<Rightarrow>
               (case present of
                  None \<Rightarrow> eligibility_result q False (Some SkDependencyError) (Some b)
                | Some ex \<Rightarrow>
                    (case capture after (rq_id q) of
                       Inl _ \<Rightarrow> eligibility_result q False (Some SkDependencyError) (Some b)
                     | Inr None \<Rightarrow> eligibility_result q False (Some SkChanged) (Some b)
                     | Inr (Some a) \<Rightarrow>
                         if \<not> sameState b a then eligibility_result q False (Some SkChanged) (Some a)
                         else decide q ex a)))"

definition sameEligibilityGeneration :: "EligibilitySnapshot \<Rightarrow> EligibilitySnapshot \<Rightarrow> bool" where
  "sameEligibilityGeneration l r \<longleftrightarrow>
     el_id l = el_id r \<and> el_thresholdMs l = el_thresholdMs r \<and> el_cutoffMs l = el_cutoffMs r \<and>
     gen_structure (generation l) = gen_structure (generation r) \<and>
     gen_activity (generation l) = gen_activity (generation r) \<and>
     gen_sockets (generation l) = gen_sockets (generation r)"

section \<open>What eligibility means\<close>

lemma eligibility_result_simps [simp]:
  "eligible (eligibility_result q el why st) = el" "reason (eligibility_result q el why st) = why"
  by (simp_all add: eligibility_result_def)

lemma decide_eligible:
  assumes "eligible (decide q present st)"
  shows "st_desiredState st = Active" "present" "\<not> snd (st_sockets st) > 0" "\<not> st_bridged st"
    "\<not> snd (st_activity st)" "\<exists>t. parseUtcTimestamp (st_lastActivityAt st) = Some t \<and> \<not> num_le (rq_cutoffMs q) (of_int t)"
    "decide q present st = eligibility_result q True None (Some st)"
  using assms by (auto simp: decide_def split: if_splits option.splits)

lemma decide_reason: "eligible (decide q present st) \<longleftrightarrow> reason (decide q present st) = None"
  by (auto simp: decide_def split: option.split)

lemma read_reason: "eligible (read_eligibility q b p a) \<longleftrightarrow> reason (read_eligibility q b p a) = None"
  by (auto simp: read_eligibility_def decide_reason split: sum.split option.split)

lemma read_eligible:
  assumes "eligible (read_eligibility q before present after)"
  obtains b a where "validRequest q" "rq_thresholdMs q \<noteq> Num 0" "capture before (rq_id q) = Inr (Some b)"
    "capture after (rq_id q) = Inr (Some a)" "sameState b a" "present = Some True" "eligible (decide q True a)"
    "read_eligibility q before present after = eligibility_result q True None (Some a)"
proof -
  from assms obtain b a ex where r: "validRequest q" "rq_thresholdMs q \<noteq> Num 0" "capture before (rq_id q) = Inr (Some b)"
    "capture after (rq_id q) = Inr (Some a)" "sameState b a" "present = Some ex" "eligible (decide q ex a)"
    by (auto simp: read_eligibility_def split: if_splits sum.splits option.splits)
  moreover have "ex" using decide_eligible(2) [OF r(7)] .
  moreover have "read_eligibility q before present after = decide q ex a"
    using r by (simp add: read_eligibility_def)
  ultimately show thesis using that decide_eligible(7) [OF r(7)] by auto
qed

lemma capture_tab:
  assumes "capture src i = Inr (Some st)"
  shows "\<exists>d t. src_tabs src = Some d \<and> t \<in> set (tabs d) \<and> tab_id t = i \<and> desiredState t = st_desiredState st \<and>
    lastActivityAt t = st_lastActivityAt st \<and> int (structureRevision d) = st_structure st \<and>
    src_activity src i = Some (st_activity st) \<and> src_sockets src i = Some (st_sockets st) \<and>
    src_bridged src i = Some (st_bridged st)"
proof -
  obtain d where d: "src_tabs src = Some d" using assms by (auto simp: capture_def split: option.splits)
  obtain t ts where t: "filter (\<lambda>t. tab_id t = i) (tabs d) = t # ts"
    using assms d by (auto simp: capture_def Let_def split: if_splits list.splits)
  obtain ag ap sg sc br where src: "src_activity src i = Some (ag, ap)" "src_sockets src i = Some (sg, sc)"
    "src_bridged src i = Some br"
    using assms d t by (auto simp: capture_def Let_def split: if_splits option.splits prod.splits)
  have st: "st = \<lparr>st_structure = int (structureRevision d), st_desiredState = desiredState t,
      st_createdAt = tab_createdAt t, st_lastActivityAt = lastActivityAt t,
      st_activity = (ag, ap), st_sockets = (sg, sc), st_bridged = br\<rparr>"
    using assms d t src by (auto simp: capture_def Let_def split: if_splits)
  have "t \<in> set (filter (\<lambda>t. tab_id t = i) (tabs d))" unfolding t by simp
  then have "t \<in> set (tabs d)" "tab_id t = i" by simp_all
  with d src st show ?thesis by force
qed

lemma capture_counts:
  assumes "capture src i = Inr (Some st)"
  shows "0 \<le> snd (st_sockets st)" "validGeneration (fst (st_activity st))" "validGeneration (fst (st_sockets st))"
    "validGeneration (st_structure st)"
  using assms
  by (auto simp: capture_def Let_def validGeneration_def split: option.splits if_splits list.splits prod.splits)

text \<open>
  C20. A session is reported eligible only if the request carries a positive threshold and, both before
  and after the check that the tmux session exists, the tab is in the list and wanted active, no
  socket is attached, no bridge is registered and no activity is waiting to be written; and its last
  recorded activity is a valid time stamp before the cutoff.
\<close>

theorem eligible_means_idle:
  assumes "eligible (read_eligibility q before present after)" "src = before \<or> src = after"
  shows "present = Some True \<and> rq_thresholdMs q \<noteq> Num 0 \<and>
    (\<exists>d t ms ag sg. src_tabs src = Some d \<and> t \<in> set (tabs d) \<and> tab_id t = rq_id q \<and> desiredState t = Active \<and>
      parseUtcTimestamp (lastActivityAt t) = Some ms \<and> \<not> num_le (rq_cutoffMs q) (of_int ms) \<and>
      src_activity src (rq_id q) = Some (ag, False) \<and> src_sockets src (rq_id q) = Some (sg, 0) \<and>
      src_bridged src (rq_id q) = Some False)"
proof -
  from assms(1) obtain b a where r: "rq_thresholdMs q \<noteq> Num 0" "capture before (rq_id q) = Inr (Some b)"
    "capture after (rq_id q) = Inr (Some a)" "sameState b a" "present = Some True" "eligible (decide q True a)"
    by (rule read_eligible) blast
  note d = decide_eligible [OF r(6)]
  obtain st where st: "capture src (rq_id q) = Inr (Some st)" "sameState st a"
    using assms(2) r(2-4) by (auto simp: sameState_def)
  from d(6) obtain ms where ms: "parseUtcTimestamp (st_lastActivityAt st) = Some ms" "\<not> num_le (rq_cutoffMs q) (of_int ms)"
    using st(2) by (auto simp: sameState_def)
  have sock: "snd (st_sockets st) = 0" using capture_counts(1) [OF st(1)] d(3) st(2) by (simp add: sameState_def)
  have flags: "st_desiredState st = Active" "\<not> st_bridged st" "\<not> snd (st_activity st)"
    using d(1,4,5) st(2) by (simp_all add: sameState_def)
  from capture_tab [OF st(1)] obtain e t where t: "src_tabs src = Some e" "t \<in> set (tabs e)" "tab_id t = rq_id q"
    "desiredState t = Active" "lastActivityAt t = st_lastActivityAt st" "src_activity src (rq_id q) = Some (st_activity st)"
    "src_sockets src (rq_id q) = Some (st_sockets st)" "src_bridged src (rq_id q) = Some False"
    using flags by auto
  have "st_activity st = (fst (st_activity st), False)" "st_sockets st = (fst (st_sockets st), 0)"
    using flags(3) sock by (simp_all add: prod_eq_iff)
  with t ms r(1,5) show ?thesis by metis
qed

section \<open>The calendar\<close>

lemma div_step:
  fixes z k :: int
  assumes "0 < k"
  shows "(z + 1) div k = z div k + (if (z + 1) mod k = 0 then 1 else 0)"
proof -
  let ?q = "z div k" and ?r = "z mod k"
  have z: "z = k * ?q + ?r" by simp
  have r: "0 \<le> ?r" "?r < k" using assms by simp_all
  show ?thesis
  proof (cases "?r + 1 < k")
    case True
    have "(z + 1) div k = ?q" by (rule int_div_pos_eq [of _ _ _ "?r + 1"]) (use z r True in auto)
    moreover have "(z + 1) mod k = ?r + 1" by (rule int_mod_pos_eq [of _ _ ?q]) (use z r True in auto)
    ultimately show ?thesis using r by simp
  next
    case False
    with r have "?r + 1 = k" by simp
    with z have "z + 1 = k * ?q + k" by linarith
    then have "z + 1 = k * (?q + 1)" by (simp add: distrib_left)
    then show ?thesis using assms by simp
  qed
qed

lemma mod_offset: "(y - n * k) mod k = y mod (k :: int)"
  using mod_mult_self1 [of y "- n" k] by (simp add: algebra_simps)

lemma leap_div:
  fixes y :: int
  shows "(y - 1968) div 4 = (y - 1969) div 4 + (if y mod 4 = 0 then 1 else 0)"
    "(y - 1900) div 100 = (y - 1901) div 100 + (if y mod 100 = 0 then 1 else 0)"
    "(y - 1600) div 400 = (y - 1601) div 400 + (if y mod 400 = 0 then 1 else 0)"
proof -
  have "y - 1969 + 1 = y - 492 * 4" "y - 1901 + 1 = y - 19 * 100" "y - 1601 + 1 = y - 4 * 400" by simp_all
  then show "(y - 1968) div 4 = (y - 1969) div 4 + (if y mod 4 = 0 then 1 else 0)"
    "(y - 1900) div 100 = (y - 1901) div 100 + (if y mod 100 = 0 then 1 else 0)"
    "(y - 1600) div 400 = (y - 1601) div 400 + (if y mod 400 = 0 then 1 else 0)"
    using div_step [of 4 "y - 1969"] div_step [of 100 "y - 1901"] div_step [of 400 "y - 1601"]
      mod_offset [of y 492 4] mod_offset [of y 19 100] mod_offset [of y 4 400]
    by (simp_all only: mult_numeral_1 arith_simps zero_less_numeral)
qed

lemma day_from_year_step: "day_from_year (y + 1) = day_from_year y + (if leap_year y then 366 else 365)"
proof -
  have m: "y mod 400 = 0 \<Longrightarrow> y mod 100 = 0" "y mod 100 = 0 \<Longrightarrow> y mod 4 = 0"
    using dvd_trans [of 100 400 y] dvd_trans [of 4 100 y] by (simp_all add: mod_eq_0_iff_dvd)
  have y: "y + 1 - 1969 = y - 1968" "y + 1 - 1901 = y - 1900" "y + 1 - 1601 = y - 1600" by simp_all
  have "day_from_year (y + 1) = day_from_year y + 365 + (if y mod 4 = 0 then 1 else 0) -
      (if y mod 100 = 0 then 1 else 0) + (if y mod 400 = 0 then 1 else 0)"
  proof -
    have "365 * (y + 1 - 1970) + (a + p) - (b + q) + (c + r) = 365 * (y - 1970) + a - b + c + 365 + p - q + r"
      for a b c p q r :: int by simp
    then show ?thesis unfolding day_from_year_def y leap_div .
  qed
  then show ?thesis using m by (cases "y mod 4 = 0"; cases "y mod 100 = 0"; cases "y mod 400 = 0") (simp_all add: leap_year_def)
qed

lemma day_from_year_mono: "y \<le> z \<Longrightarrow> day_from_year y \<le> day_from_year z"
  by (induction z rule: int_ge_induct) (auto simp: day_from_year_step)

lemma day_from_year_less: "y < z \<Longrightarrow> day_from_year y + (if leap_year y then 366 else 365) \<le> day_from_year z"
  using day_from_year_mono [of "y + 1" z] by (simp add: day_from_year_step)

lemma day_in_year_step: "1 \<le> m \<Longrightarrow> day_in_year y (m + 1) = day_in_year y m + daysInMonth y m"
proof -
  assume "1 \<le> m"
  then have "[1..m + 1 - 1] = [1..m - 1] @ [m]" by (simp add: upto_rec2)
  then show ?thesis by (simp add: day_in_year_def)
qed

lemma daysInMonth_pos: "28 \<le> daysInMonth y m \<and> daysInMonth y m \<le> 31"
  by (simp add: daysInMonth_def)

lemma day_in_year_mono:
  assumes "m \<le> n" "1 \<le> m"
  shows "day_in_year y m \<le> day_in_year y n"
  using assms
proof (induction n rule: int_ge_induct)
  case (step i)
  then show ?case using day_in_year_step [of i y] daysInMonth_pos [of y i] by simp
qed simp

lemma day_in_year_less: "1 \<le> m \<Longrightarrow> m < n \<Longrightarrow> day_in_year y m + daysInMonth y m \<le> day_in_year y n"
  using day_in_year_mono [of "m + 1" n y] day_in_year_step [of m y] by simp

lemma year_length: "day_in_year y 13 = (if leap_year y then 366 else 365)"
  by (simp add: day_in_year_def upto.simps daysInMonth_def)

text \<open>The calendar fields in order of significance.\<close>

definition earlier :: "int list \<Rightarrow> int list \<Rightarrow> bool" where
  "earlier a b \<longleftrightarrow> (a, b) \<in> lexord {(x, y). x < y}"

lemma day_bounds:
  assumes "valid_fields y mo d h mi s"
  shows "day_in_year y mo + (d - 1) < (if leap_year y then 366 else 365)" "0 \<le> day_in_year y mo"
proof -
  have v: "1 \<le> mo" "mo \<le> 12" "d \<le> daysInMonth y mo" using assms by (auto simp: valid_fields_def)
  show "day_in_year y mo + (d - 1) < (if leap_year y then 366 else 365)"
    using day_in_year_less [of mo 13 y] v year_length [of y] by simp
  show "0 \<le> day_in_year y mo" using day_in_year_mono [of 1 mo y] v by (simp add: day_in_year_def)
qed

lemma day_number_less:
  assumes "valid_fields y mo d h mi s" "valid_fields y' mo' d' h' mi' s'" "earlier [y, mo, d] [y', mo', d']"
  shows "day_from_year y + day_in_year y mo + (d - 1) < day_from_year y' + day_in_year y' mo' + (d' - 1)"
proof -
  have d: "1 \<le> d'" "1 \<le> mo" "d \<le> daysInMonth y mo" using assms(1,2) by (auto simp: valid_fields_def)
  from assms(3) consider "y < y'" | "y = y'" "mo < mo'" | "y = y'" "mo = mo'" "d < d'" by (auto simp: earlier_def)
  then show ?thesis
  proof cases
    case 1
    with day_from_year_less [OF 1] day_bounds [OF assms(1)] day_bounds(2) [OF assms(2)] d show ?thesis by simp
  next
    case 2
    with day_in_year_less [OF d(2) 2(2), of y] d show ?thesis by simp
  qed simp
qed

definition clock_ms :: "int \<Rightarrow> int \<Rightarrow> int \<Rightarrow> int \<Rightarrow> int" where
  "clock_ms h mi s ms = h * 3600000 + mi * 60000 + s * 1000 + ms"

lemma clock_bounds:
  "valid_fields y mo d h mi s \<Longrightarrow> 0 \<le> h \<Longrightarrow> 0 \<le> mi \<Longrightarrow> 0 \<le> s \<Longrightarrow> 0 \<le> ms \<Longrightarrow> ms < 1000 \<Longrightarrow>
   0 \<le> clock_ms h mi s ms \<and> clock_ms h mi s ms < 86400000"
  by (auto simp: valid_fields_def clock_ms_def)

text \<open>
  The instant computed from calendar fields respects their order: of two valid UTC times, the one
  whose fields are lexicographically earlier has the smaller millisecond count. Month lengths and
  leap years are therefore accounted for consistently with the day numbers.
\<close>

theorem instants_ordered:
  assumes "valid_fields y mo d h mi s" "valid_fields y' mo' d' h' mi' s'"
    and "0 \<le> h" "0 \<le> mi" "0 \<le> s" "0 \<le> ms" "ms < 1000" "0 \<le> h'" "0 \<le> mi'" "0 \<le> s'" "0 \<le> ms'" "ms' < 1000"
    and "earlier [y, mo, d, h, mi, s, ms] [y', mo', d', h', mi', s', ms']"
  shows "make_time y mo d h mi s ms < make_time y' mo' d' h' mi' s' ms'"
proof -
  have t: "make_time a b c e f g k = (day_from_year a + day_in_year a b + (c - 1)) * 86400000 + clock_ms e f g k" for a b c e f g k
    by (simp add: make_time_def clock_ms_def)
  note c = clock_bounds [OF assms(1,3-7)] clock_bounds [OF assms(2,8-12)]
  from assms(13) consider "earlier [y, mo, d] [y', mo', d']"
    | "y = y'" "mo = mo'" "d = d'" "earlier [h, mi, s, ms] [h', mi', s', ms']"
    by (auto simp: earlier_def)
  then show ?thesis
  proof cases
    case 1
    from day_number_less [OF assms(1,2) 1] c show ?thesis unfolding t by simp
  next
    case 2
    have "mi < 60" "mi' < 60" "s < 60" "s' < 60" using assms(1,2) by (auto simp: valid_fields_def)
    then have "clock_ms h mi s ms < clock_ms h' mi' s' ms'"
      using 2(4) assms(3-12) by (auto simp: earlier_def clock_ms_def)
    with 2 show ?thesis unfolding t by simp
  qed
qed

theorem instants_ordered_witness: "make_time 2024 2 29 23 59 59 999 < make_time 2024 3 1 0 0 0 0"
  by (rule instants_ordered) (simp_all add: valid_fields_def daysInMonth_def leap_year_def earlier_def)

section \<open>An example\<close>

definition idle_tab :: TabRecord where
  "idle_tab = \<lparr>tab_id = ''11111111-1111-4111-8111-111111111111'', displayName = [65], position = 0,
     tab_createdAt = ''2026-01-01T00:00:00.000Z'', lastActivityAt = ''2026-01-01T00:00:00.5Z'', desiredState = Active\<rparr>"

definition idle_sources :: cleanup_sources where
  "idle_sources = \<lparr>src_tabs = Some \<lparr>structureRevision = 3, tabs = [idle_tab]\<rparr>, src_activity = (\<lambda>_. Some (2, False)),
     src_sockets = (\<lambda>_. Some (5, 0)), src_bridged = (\<lambda>_. Some False)\<rparr>"

definition idle_request :: EligibilityRequest where
  "idle_request = \<lparr>rq_id = tab_id idle_tab, rq_thresholdMs = Num 3600000, rq_cutoffMs = Num 1767229200000\<rparr>"

lemma idle_id: "isSessionId (tab_id idle_tab)"
  by code_simp

lemma idle_timestamp: "parseUtcTimestamp (lastActivityAt idle_tab) = Some 1767225600500"
  by code_simp

lemma idle_request_valid: "validRequest idle_request"
  using idle_id
  by (simp add: validRequest_def idle_request_def safe_int_def MAX_SAFE_INTEGER_def MAX_THRESHOLD_MS_def)

lemma idle_capture:
  "capture idle_sources (rq_id idle_request) = Inr (Some \<lparr>st_structure = 3, st_desiredState = Active,
     st_createdAt = ''2026-01-01T00:00:00.000Z'', st_lastActivityAt = ''2026-01-01T00:00:00.5Z'',
     st_activity = (2, False), st_sockets = (5, 0), st_bridged = False\<rparr>)"
  by (simp add: capture_def idle_sources_def idle_request_def idle_tab_def safe_int_def MAX_SAFE_INTEGER_def
      MAX_TABS_def MAX_SOCKETS_def validGeneration_def)

lemma idle_eligible: "eligible (read_eligibility idle_request idle_sources (Some True) idle_sources)"
  using idle_request_valid idle_timestamp
  by (simp add: read_eligibility_def idle_capture sameState_def decide_def idle_tab_def)
     (simp add: idle_request_def)

theorem eligible_means_idle_witness:
  "src_sockets idle_sources (rq_id idle_request) = Some (5, 0) \<and>
   (\<exists>d t. src_tabs idle_sources = Some d \<and> t \<in> set (tabs d) \<and> tab_id t = rq_id idle_request \<and> desiredState t = Active)"
  using eligible_means_idle [OF idle_eligible, of idle_sources] by (auto simp: idle_sources_def)

end
