(* ===== verification/Utf8.thy ===== *)
theory Utf8
  imports TabDocument
begin

text \<open>
  \<open>TextEncoder\<close> and the fatal \<open>TextDecoder\<close> of the platform on strings given as code points and bytes
  given as numbers. The encoder replaces a lone surrogate by U+FFFD; the decoder accepts the shortest
  form of scalar values only and drops a leading byte order mark.
\<close>

section \<open>Encoding\<close>

definition surrogate :: "nat \<Rightarrow> bool" where
  "surrogate c \<longleftrightarrow> 0xD800 \<le> c \<and> c < 0xE000"

definition scalar :: "nat \<Rightarrow> bool" where
  "scalar c \<longleftrightarrow> c < 0x110000 \<and> \<not> surrogate c"

definition encode_point :: "nat \<Rightarrow> nat list" where
  "encode_point c0 =
     (let c = if surrogate c0 then 0xFFFD else c0 in
      if c < 0x80 then [c]
      else if c < 0x800 then [0xC0 + c div 64, 0x80 + c mod 64]
      else if c < 0x10000 then [0xE0 + c div 4096, 0x80 + c div 64 mod 64, 0x80 + c mod 64]
      else [0xF0 + c div 262144, 0x80 + c div 4096 mod 64, 0x80 + c div 64 mod 64, 0x80 + c mod 64])"

definition utf8_encode :: "utext \<Rightarrow> nat list" where
  "utf8_encode s = concat (map encode_point s)"

section \<open>Decoding\<close>

definition continuation :: "nat \<Rightarrow> bool" where
  "continuation b \<longleftrightarrow> 0x80 \<le> b \<and> b \<le> 0xBF"

text \<open>The first code point and the remaining bytes.\<close>

definition decode_point :: "nat list \<Rightarrow> (nat \<times> nat list) option" where
  "decode_point bs =
     (case bs of
        [] \<Rightarrow> None
      | b # r \<Rightarrow>
          if b < 0x80 then Some (b, r)
          else if 0xC2 \<le> b \<and> b \<le> 0xDF then
            (case r of
               c # q \<Rightarrow> if continuation c then Some ((b - 0xC0) * 64 + (c - 0x80), q) else None
             | _ \<Rightarrow> None)
          else if 0xE0 \<le> b \<and> b \<le> 0xEF then
            (case r of
               c # d # q \<Rightarrow>
                 if continuation c \<and> continuation d \<and> (b = 0xE0 \<longrightarrow> 0xA0 \<le> c) \<and> (b = 0xED \<longrightarrow> c \<le> 0x9F)
                 then Some ((b - 0xE0) * 4096 + (c - 0x80) * 64 + (d - 0x80), q) else None
             | _ \<Rightarrow> None)
          else if 0xF0 \<le> b \<and> b \<le> 0xF4 then
            (case r of
               c # d # e # q \<Rightarrow>
                 if continuation c \<and> continuation d \<and> continuation e \<and> (b = 0xF0 \<longrightarrow> 0x90 \<le> c) \<and> (b = 0xF4 \<longrightarrow> c \<le> 0x8F)
                 then Some ((b - 0xF0) * 262144 + (c - 0x80) * 4096 + (d - 0x80) * 64 + (e - 0x80), q) else None
             | _ \<Rightarrow> None)
          else None)"

lemma decode_point_shorter: "decode_point bs = Some (c, r) \<Longrightarrow> length r < length bs"
  by (auto simp: decode_point_def split: list.splits if_splits)

function utf8_decode :: "nat list \<Rightarrow> utext option" where
  "utf8_decode bs =
     (if bs = [] then Some []
      else case decode_point bs of
             None \<Rightarrow> None
           | Some (c, r) \<Rightarrow> map_option ((#) c) (utf8_decode r))"
  by pat_completeness auto

termination
  by (relation "measure length") (auto dest: decode_point_shorter)

declare utf8_decode.simps [simp del]

lemma utf8_decode_Nil [simp]: "utf8_decode [] = Some []"
  by (simp add: utf8_decode.simps)

lemma utf8_decode_step: "decode_point bs = Some (c, r) \<Longrightarrow> utf8_decode bs = map_option ((#) c) (utf8_decode r)"
  by (cases bs) (auto simp: utf8_decode.simps decode_point_def)

text \<open>The decoder of \<open>new TextDecoder('utf-8', \<open>fatal\<close>)\<close>.\<close>

definition text_decoder :: "nat list \<Rightarrow> utext option" where
  "text_decoder bs = utf8_decode (if take 3 bs = [0xEF, 0xBB, 0xBF] then drop 3 bs else bs)"

section \<open>Round trip\<close>

lemma length_encode_point: "c < 0x110000 \<Longrightarrow>
  length (encode_point c) = (if c < 128 then 1 else if c < 2048 then 2 else if c < 65536 then 3 else 4)"
  by (auto simp: encode_point_def surrogate_def Let_def)

lemma length_utf8_encode: "list_all (\<lambda>c. c < 0x110000) s \<Longrightarrow> length (utf8_encode s) = utf8ByteLength s"
  by (induction s) (simp_all add: utf8_encode_def utf8ByteLength_def length_encode_point)

lemma nat_split:
  fixes c :: nat
  shows "c div 64 * 64 + c mod 64 = c" "c div 4096 * 4096 + c div 64 mod 64 * 64 + c mod 64 = c"
    "c div 262144 * 262144 + c div 4096 mod 64 * 4096 + c div 64 mod 64 * 64 + c mod 64 = c"
proof -
  show 1: "c div 64 * 64 + c mod 64 = c" by simp
  have d: "c div 4096 = c div 64 div 64" "c div 262144 = c div 4096 div 64" by (simp_all flip: div_mult2_eq)
  have "c div 64 = c div 4096 * 64 + c div 64 mod 64" unfolding d(1) by simp
  then show 2: "c div 4096 * 4096 + c div 64 mod 64 * 64 + c mod 64 = c" using 1 by linarith
  have "c div 4096 = c div 262144 * 64 + c div 4096 mod 64" unfolding d(2) by simp
  then show "c div 262144 * 262144 + c div 4096 mod 64 * 4096 + c div 64 mod 64 * 64 + c mod 64 = c" using 2 by linarith
qed

lemma decode_point_multi:
  "2 \<le> a \<Longrightarrow> a \<le> 31 \<Longrightarrow> m < 64 \<Longrightarrow> decode_point ((192 + a) # (128 + m) # r) = Some (a * 64 + m, r)"
  "a \<le> 15 \<Longrightarrow> b < 64 \<Longrightarrow> m < 64 \<Longrightarrow> (a = 0 \<Longrightarrow> 32 \<le> b) \<Longrightarrow> (a = 13 \<Longrightarrow> b < 32) \<Longrightarrow>
   decode_point ((224 + a) # (128 + b) # (128 + m) # r) = Some (a * 4096 + b * 64 + m, r)"
  "a \<le> 4 \<Longrightarrow> b < 64 \<Longrightarrow> d < 64 \<Longrightarrow> m < 64 \<Longrightarrow> (a = 0 \<Longrightarrow> 16 \<le> b) \<Longrightarrow> (a = 4 \<Longrightarrow> b < 16) \<Longrightarrow>
   decode_point ((240 + a) # (128 + b) # (128 + d) # (128 + m) # r) = Some (a * 262144 + b * 4096 + d * 64 + m, r)"
  by (auto simp: decode_point_def continuation_def)

lemma encode_decode_point:
  assumes "scalar c"
  shows "decode_point (encode_point c @ r) = Some (c, r)"
proof -
  have s: "\<not> surrogate c" "c < 0x110000" using assms by (simp_all add: scalar_def)
  let ?m = "c mod 64" and ?b = "c div 64 mod 64" and ?d = "c div 4096 mod 64"
  have lt: "?m < 64" "?b < 64" "?d < 64" by simp_all
  consider "c < 0x80" | "0x80 \<le> c" "c < 0x800" | "0x800 \<le> c" "c < 0x10000" | "0x10000 \<le> c" by linarith
  then show ?thesis
  proof cases
    case 1
    with s show ?thesis by (simp add: encode_point_def decode_point_def)
  next
    case 2
    have "2 \<le> c div 64" "c div 64 \<le> 31" using nat_split(1) [of c] lt 2 by linarith+
    from decode_point_multi(1) [OF this lt(1)] nat_split(1) [of c] s 2 show ?thesis
      by (simp add: encode_point_def Let_def)
  next
    case 3
    let ?a = "c div 4096"
    have a: "?a \<le> 15" "?a = 0 \<Longrightarrow> 32 \<le> ?b" "?a = 13 \<Longrightarrow> ?b < 32"
      using nat_split(2) [of c] lt 3 s(1) unfolding surrogate_def by linarith+
    from decode_point_multi(2) [OF a(1) lt(2,1) a(2,3)] nat_split(2) [of c] s 3 show ?thesis
      by (simp add: encode_point_def Let_def)
  next
    case 4
    let ?a = "c div 262144"
    have a: "?a \<le> 4" "?a = 0 \<Longrightarrow> 16 \<le> ?d" "?a = 4 \<Longrightarrow> ?d < 16"
      using nat_split(3) [of c] lt 4 s(2) by linarith+
    from decode_point_multi(3) [OF a(1) lt(3,2,1) a(2,3)] nat_split(3) [of c] s 4 show ?thesis
      by (simp add: encode_point_def Let_def)
  qed
qed

lemma utf8_roundtrip: "list_all scalar s \<Longrightarrow> utf8_decode (utf8_encode s) = Some s"
  by (induction s) (simp_all add: utf8_encode_def utf8_decode_step [OF encode_decode_point])

end
