(* ===== verification/Json.thy ===== *)
theory Json
  imports Utf8
begin

text \<open>
  \<open>JSON.parse\<close> and \<open>JSON.stringify\<close> of the language on strings given as code points. The parser is the
  grammar of RFC 8259 with fuel bounded by the length of its input; later duplicates of a key replace
  earlier ones. Numbers are exact; the printer is defined on integers, the only numbers the sources
  print, and prints what the parser reads back.
\<close>

section \<open>Values\<close>

datatype json = JNull | JBool bool | JNum real | JStr utext | JArr "json list" | JObj "(utext \<times> json) list"

definition text_of :: "string \<Rightarrow> utext" where
  "text_of s = map of_char s"

section \<open>Parsing\<close>

definition json_space :: "nat \<Rightarrow> bool" where
  "json_space c \<longleftrightarrow> c = 9 \<or> c = 10 \<or> c = 13 \<or> c = 32"

definition skip_ws :: "utext \<Rightarrow> utext" where
  "skip_ws s = dropWhile json_space s"

definition is_digit :: "nat \<Rightarrow> bool" where
  "is_digit c \<longleftrightarrow> 48 \<le> c \<and> c \<le> 57"

definition hex_value :: "nat \<Rightarrow> nat option" where
  "hex_value c =
     (if is_digit c then Some (c - 48)
      else if 97 \<le> c \<and> c \<le> 102 then Some (c - 87)
      else if 65 \<le> c \<and> c \<le> 70 then Some (c - 55) else None)"

text \<open>What follows a backslash.\<close>

definition escape :: "utext \<Rightarrow> (nat \<times> utext) option" where
  "escape s =
     (case s of
        [] \<Rightarrow> None
      | e # r \<Rightarrow>
          if e = 34 \<or> e = 92 \<or> e = 47 then Some (e, r)
          else if e = 98 then Some (8, r)
          else if e = 102 then Some (12, r)
          else if e = 110 then Some (10, r)
          else if e = 114 then Some (13, r)
          else if e = 116 then Some (9, r)
          else if e = 117 then
            (case r of
               a # b # c # d # q \<Rightarrow>
                 (case (hex_value a, hex_value b, hex_value c, hex_value d) of
                    (Some w, Some x, Some y, Some z) \<Rightarrow> Some (w * 4096 + x * 256 + y * 16 + z, q)
                  | _ \<Rightarrow> None)
             | _ \<Rightarrow> None)
          else None)"

lemma escape_shorter: "escape s = Some (c, r) \<Longrightarrow> length r < length s"
  by (auto simp: escape_def split: list.splits if_splits option.splits)

text \<open>The rest of a string literal, as code units.\<close>

function parse_units :: "utext \<Rightarrow> (utext \<times> utext) option" where
  "parse_units s =
     (case s of
        [] \<Rightarrow> None
      | c # cs \<Rightarrow>
          if c = 34 then Some ([], cs)
          else if c < 32 then None
          else if c = 92 then
            (case escape cs of
               None \<Rightarrow> None
             | Some (u, r) \<Rightarrow> map_option (\<lambda>(us, q). (u # us, q)) (parse_units r))
          else map_option (\<lambda>(us, q). (c # us, q)) (parse_units cs))"
  by pat_completeness auto

termination
  by (relation "measure length") (auto dest: escape_shorter)

declare parse_units.simps [simp del]

text \<open>A high surrogate followed by a low one is one code point.\<close>

fun pair_up :: "utext \<Rightarrow> utext" where
  "pair_up (h # l # r) =
     (if 0xD800 \<le> h \<and> h < 0xDC00 \<and> 0xDC00 \<le> l \<and> l < 0xE000
      then (0x10000 + (h - 0xD800) * 0x400 + (l - 0xDC00)) # pair_up r
      else h # pair_up (l # r))"
| "pair_up s = s"

definition parse_string :: "utext \<Rightarrow> (utext \<times> utext) option" where
  "parse_string s = map_option (\<lambda>(us, r). (pair_up us, r)) (parse_units s)"

definition digits_value :: "utext \<Rightarrow> nat" where
  "digits_value ds = foldl (\<lambda>n c. 10 * n + (c - 48)) 0 ds"

definition parse_integer_part :: "utext \<Rightarrow> (utext \<times> utext) option" where
  "parse_integer_part s =
     (case s of
        [] \<Rightarrow> None
      | c # r \<Rightarrow>
          if c = 48 then Some ([c], r)
          else if is_digit c then Some (takeWhile is_digit s, dropWhile is_digit s)
          else None)"

definition parse_fraction :: "utext \<Rightarrow> (real \<times> utext) option" where
  "parse_fraction s =
     (case s of
        c # r \<Rightarrow>
          if c \<noteq> 46 then Some (0, s)
          else let ds = takeWhile is_digit r in
               if ds = [] then None else Some (of_nat (digits_value ds) / 10 ^ length ds, dropWhile is_digit r)
      | [] \<Rightarrow> Some (0, s))"

definition parse_exponent :: "utext \<Rightarrow> (int \<times> utext) option" where
  "parse_exponent s =
     (case s of
        c # r \<Rightarrow>
          if c \<noteq> 101 \<and> c \<noteq> 69 then Some (0, s)
          else let neg = (r \<noteq> [] \<and> hd r = 45);
                   q = (if r \<noteq> [] \<and> (hd r = 45 \<or> hd r = 43) then tl r else r);
                   ds = takeWhile is_digit q in
               if ds = [] then None
               else Some (if neg then - int (digits_value ds) else int (digits_value ds), dropWhile is_digit q)
      | [] \<Rightarrow> Some (0, s))"

definition power10 :: "int \<Rightarrow> real" where
  "power10 e = (if 0 \<le> e then 10 ^ nat e else 1 / 10 ^ nat (- e))"

definition parse_number :: "utext \<Rightarrow> (real \<times> utext) option" where
  "parse_number s =
     (let neg = (s \<noteq> [] \<and> hd s = 45) in
      case parse_integer_part (if neg then tl s else s) of
        None \<Rightarrow> None
      | Some (ds, r) \<Rightarrow>
          (case parse_fraction r of
             None \<Rightarrow> None
           | Some (f, q) \<Rightarrow>
               (case parse_exponent q of
                  None \<Rightarrow> None
                | Some (e, rest) \<Rightarrow>
                    let m = (of_nat (digits_value ds) + f) * power10 e
                    in Some (if neg then - m else m, rest))))"

definition literal :: "string \<Rightarrow> utext \<Rightarrow> utext option" where
  "literal w s = (if take (length w) s = text_of w then Some (drop (length w) s) else None)"

definition object_of :: "(utext \<times> json) list \<Rightarrow> (utext \<times> json) list" where
  "object_of kvs = fold (\<lambda>(k, v) m. jm_set m k v) kvs []"

fun parse_value :: "nat \<Rightarrow> utext \<Rightarrow> (json \<times> utext) option"
  and parse_elements :: "nat \<Rightarrow> utext \<Rightarrow> (json list \<times> utext) option"
  and parse_members :: "nat \<Rightarrow> utext \<Rightarrow> ((utext \<times> json) list \<times> utext) option"
where
  "parse_value 0 s = None"
| "parse_value (Suc n) s =
     (case skip_ws s of
        [] \<Rightarrow> None
      | c # cs \<Rightarrow>
          if c = 34 then map_option (\<lambda>(x, r). (JStr x, r)) (parse_string cs)
          else if c = 91 then
            (if take 1 (skip_ws cs) = [93] then Some (JArr [], tl (skip_ws cs))
             else map_option (\<lambda>(vs, r). (JArr vs, r)) (parse_elements n cs))
          else if c = 123 then
            (if take 1 (skip_ws cs) = [125] then Some (JObj [], tl (skip_ws cs))
             else map_option (\<lambda>(ms, r). (JObj (object_of ms), r)) (parse_members n cs))
          else if c = 116 then map_option (Pair (JBool True)) (literal ''true'' (c # cs))
          else if c = 102 then map_option (Pair (JBool False)) (literal ''false'' (c # cs))
          else if c = 110 then map_option (Pair JNull) (literal ''null'' (c # cs))
          else map_option (\<lambda>(x, r). (JNum x, r)) (parse_number (c # cs)))"
| "parse_elements 0 s = None"
| "parse_elements (Suc n) s =
     (case parse_value n s of
        None \<Rightarrow> None
      | Some (v, r) \<Rightarrow>
          (case skip_ws r of
             [] \<Rightarrow> None
           | c # q \<Rightarrow>
               if c = 44 then map_option (\<lambda>(vs, z). (v # vs, z)) (parse_elements n q)
               else if c = 93 then Some ([v], q) else None))"
| "parse_members 0 s = None"
| "parse_members (Suc n) s =
     (case skip_ws s of
        [] \<Rightarrow> None
      | d # cs \<Rightarrow>
          if d \<noteq> 34 then None
          else
            (case parse_string cs of
               None \<Rightarrow> None
             | Some (k, r) \<Rightarrow>
                 (case skip_ws r of
                    [] \<Rightarrow> None
                  | e # q \<Rightarrow>
                      if e \<noteq> 58 then None
                      else
                        (case parse_value n q of
                           None \<Rightarrow> None
                         | Some (v, z) \<Rightarrow>
                             (case skip_ws z of
                                [] \<Rightarrow> None
                              | c # y \<Rightarrow>
                                  if c = 44 then map_option (\<lambda>(ms, x). ((k, v) # ms, x)) (parse_members n y)
                                  else if c = 125 then Some ([(k, v)], y) else None)))))"

definition json_parse :: "utext \<Rightarrow> json option" where
  "json_parse s =
     (case parse_value (Suc (Suc (2 * length s))) s of
        None \<Rightarrow> None
      | Some (v, r) \<Rightarrow> if skip_ws r = [] then Some v else None)"

section \<open>Printing\<close>

definition hex_digit :: "nat \<Rightarrow> nat" where
  "hex_digit d = (if d < 10 then 48 + d else 87 + d)"

definition quote_unit :: "nat \<Rightarrow> utext" where
  "quote_unit c =
     (if c = 34 \<or> c = 92 then [92, c]
      else if c = 8 then [92, 98]
      else if c = 12 then [92, 102]
      else if c = 10 then [92, 110]
      else if c = 13 then [92, 114]
      else if c = 9 then [92, 116]
      else if c < 32 \<or> surrogate c
      then [92, 117, hex_digit (c div 4096), hex_digit (c div 256 mod 16), hex_digit (c div 16 mod 16), hex_digit (c mod 16)]
      else [c])"

definition quote_text :: "utext \<Rightarrow> utext" where
  "quote_text s = 34 # concat (map quote_unit s) @ [34]"

fun print_nat :: "nat \<Rightarrow> utext" where
  "print_nat n = (if n < 10 then [48 + n] else print_nat (n div 10) @ [48 + n mod 10])"

declare print_nat.simps [simp del]

definition print_int :: "int \<Rightarrow> utext" where
  "print_int z = (if z < 0 then 45 # print_nat (nat (- z)) else print_nat (nat z))"

fun comma_join :: "utext list \<Rightarrow> utext" where
  "comma_join [] = []"
| "comma_join [x] = x"
| "comma_join (x # y # xs) = x @ 44 # comma_join (y # xs)"

fun stringify :: "json \<Rightarrow> utext" where
  "stringify JNull = text_of ''null''"
| "stringify (JBool b) = (if b then text_of ''true'' else text_of ''false'')"
| "stringify (JNum r) = print_int \<lfloor>r\<rfloor>"
| "stringify (JStr s) = quote_text s"
| "stringify (JArr vs) = 91 # comma_join (map stringify vs) @ [93]"
| "stringify (JObj ms) = 123 # comma_join (map (\<lambda>(k, v). quote_text k @ 58 # stringify v) ms) @ [125]"

section \<open>The fuel is enough\<close>

lemma skip_ws_length: "length (skip_ws s) \<le> length s"
  by (simp add: skip_ws_def length_dropWhile_le)

lemma parse_units_Cons:
  "parse_units (c # cs) =
     (if c = 34 then Some ([], cs)
      else if c < 32 then None
      else if c = 92 then
        (case escape cs of
           None \<Rightarrow> None
         | Some (u, r) \<Rightarrow> map_option (\<lambda>(us, q). (u # us, q)) (parse_units r))
      else map_option (\<lambda>(us, q). (c # us, q)) (parse_units cs))"
  by (subst parse_units.simps) simp

lemma parse_units_shorter: "parse_units s = Some (u, r) \<Longrightarrow> length r < length s"
proof (induction s arbitrary: u r rule: parse_units.induct)
  case (1 s)
  show ?case
  proof (cases s)
    case Nil
    with 1(3) show ?thesis by (simp add: parse_units.simps)
  next
    case (Cons c cs)
    consider "c = 34" | "c < 32" | "c \<noteq> 34" "\<not> c < 32" "c = 92" | "c \<noteq> 34" "\<not> c < 32" "c \<noteq> 92" by linarith
    then show ?thesis
    proof cases
      case 3
      with 1(3) Cons obtain e q us where e: "escape cs = Some (e, q)" "parse_units q = Some (us, r)"
        by (auto simp: parse_units_Cons split: option.splits)
      from 1(1) [OF Cons 3 e(1) refl e(2)] escape_shorter [OF e(1)] Cons show ?thesis by simp
    next
      case 4
      with 1(3) Cons obtain us where "parse_units cs = Some (us, r)" by (auto simp: parse_units_Cons)
      from 1(2) [OF Cons 4 this] Cons show ?thesis by simp
    qed (use 1(3) Cons in \<open>auto simp: parse_units_Cons\<close>)
  qed
qed

lemma parse_string_shorter: "parse_string s = Some (x, r) \<Longrightarrow> length r < length s"
  by (auto simp: parse_string_def dest: parse_units_shorter)

lemma parse_integer_shorter: "parse_integer_part s = Some (ds, p) \<Longrightarrow> length p < length s"
  by (auto simp: parse_integer_part_def length_dropWhile_le le_imp_less_Suc split: list.splits if_splits)

lemma parse_number_shorter:
  assumes "parse_number s = Some (x, r)"
  shows "length r < length s"
proof -
  let ?s = "if s \<noteq> [] \<and> hd s = 45 then tl s else s"
  obtain ds p f q e where i: "parse_integer_part ?s = Some (ds, p)" and f: "parse_fraction p = Some (f, q)"
    and e: "parse_exponent q = Some (e, r)"
    using assms by (auto simp: parse_number_def Let_def split: option.splits)
  have "length p < length ?s" by (rule parse_integer_shorter [OF i])
  moreover have "length q \<le> length p"
    using f by (auto simp: parse_fraction_def Let_def split: list.splits if_splits intro: le_SucI length_dropWhile_le)
  moreover have "length r \<le> length q"
  proof (cases q)
    case Nil
    with e show ?thesis by (simp add: parse_exponent_def)
  next
    case (Cons c cs)
    have "length (dropWhile is_digit (tl cs)) \<le> length cs" "length (dropWhile is_digit cs) \<le> length cs"
      using length_dropWhile_le [of is_digit "tl cs"] length_dropWhile_le [of is_digit cs] by (auto intro: le_trans)
    with e Cons show ?thesis by (auto simp: parse_exponent_def Let_def split: if_splits)
  qed
  moreover have "length ?s \<le> length s" by simp
  ultimately show ?thesis by linarith
qed

lemma literal_shorter: "literal w s = Some r \<Longrightarrow> w \<noteq> [] \<Longrightarrow> s \<noteq> [] \<Longrightarrow> length r < length s"
  by (auto simp: literal_def split: if_splits) 

lemma parse_shorter:
  "parse_value n s = Some (v, r) \<Longrightarrow> length r < length s"
  "parse_elements n s = Some (vs, r) \<Longrightarrow> length r < length s"
  "parse_members n s = Some (ms, r) \<Longrightarrow> length r < length s"
proof (induction n s and n s and n s arbitrary: v r and vs r and ms r
    rule: parse_value_parse_elements_parse_members.induct)
  case (2 n s)
  then obtain c cs where c: "skip_ws s = c # cs" by (auto split: list.splits)
  have len: "length cs < length s" using skip_ws_length [of s] c by simp
  have inner: "length (tl (skip_ws cs)) \<le> length cs" using skip_ws_length [of cs] by simp
  have lit: "literal w (c # cs) = Some r \<Longrightarrow> w \<noteq> [] \<Longrightarrow> length r < length s" for w
    using literal_shorter [of w "c # cs" r] skip_ws_length [of s] c by simp
  have num: "parse_number (c # cs) = Some (x, r) \<Longrightarrow> length r < length s" for x
    using parse_number_shorter [of "c # cs" x r] skip_ws_length [of s] c by simp
  from 2 c len inner lit num show ?case
    by (auto split: if_splits dest!: parse_string_shorter dest: less_trans) (fastforce dest: less_trans)+
next
  case (4 n s)
  then obtain v q where v: "parse_value n s = Some (v, q)" by (auto split: option.splits)
  from 4 v obtain c y where y: "skip_ws q = c # y" by (auto split: list.splits)
  have "length q < length s" by (rule 4(1) [OF v])
  then have "length y < length s" using skip_ws_length [of q] y by simp
  moreover have "length r < length y" if "c = 44" "parse_elements n y = Some (us, r)" for us
    using 4(2) [OF v refl y that(1,2)] .
  ultimately show ?case using 4(3) v y by (auto split: if_splits dest: less_trans)
next
  case (6 n s)
  then obtain cs where cs: "skip_ws s = 34 # cs" by (auto split: list.splits if_splits)
  with 6 obtain k q where k: "parse_string cs = Some (k, q)" by (auto split: option.splits)
  with 6 cs obtain p where p: "skip_ws q = 58 # p" by (auto split: list.splits if_splits)
  with 6 cs k obtain v z where v: "parse_value n p = Some (v, z)" by (auto split: option.splits)
  with 6 cs k p obtain c y where y: "skip_ws z = c # y" by (auto split: list.splits)
  have "length z < length p" using 6 cs k p v by auto
  then have "length y < length s"
    using skip_ws_length [of s] skip_ws_length [of q] skip_ws_length [of z] parse_string_shorter [OF k] cs p y by simp
  moreover have "length r < length y" if "c = 44" "parse_members n y = Some (us, r)" for us
    using 6(2) [OF cs _ k refl p _ v refl y that] by simp
  ultimately show ?case using 6(3) cs k p v y by (auto split: if_splits dest: less_trans)
qed simp_all

text \<open>More fuel than twice the length changes nothing.\<close>

lemma fuel_enough:
  "2 * length s < n \<Longrightarrow> 2 * length s < m \<Longrightarrow> parse_value n s = parse_value m s"
  "2 * length s + 1 < n \<Longrightarrow> 2 * length s + 1 < m \<Longrightarrow> parse_elements n s = parse_elements m s"
  "2 * length s + 1 < n \<Longrightarrow> 2 * length s + 1 < m \<Longrightarrow> parse_members n s = parse_members m s"
proof (induction n s and n s and n s arbitrary: m and m and m rule: parse_value_parse_elements_parse_members.induct)
  case (2 n s)
  obtain k where m: "m = Suc k" using 2(4) by (cases m) auto
  show ?case
  proof (cases "skip_ws s")
    case (Cons c cs)
    have "2 * length cs + 1 < n" "2 * length cs + 1 < k"
      using skip_ws_length [of s] Cons 2(3,4) m by simp_all
    note len = this
    have "parse_elements n cs = parse_elements k cs" if "c = 91" "take 1 (skip_ws cs) \<noteq> [93]"
      by (rule 2(1) [OF Cons]) (use that len in auto)
    moreover have "parse_members n cs = parse_members k cs" if "c = 123" "take 1 (skip_ws cs) \<noteq> [125]"
      by (rule 2(2) [OF Cons]) (use that len in auto)
    ultimately show ?thesis unfolding m parse_value.simps Cons by auto
  qed (simp add: m)
next
  case (4 n s)
  obtain k where m: "m = Suc k" using 4(4) by (cases m) auto
  have eq: "parse_value n s = parse_value k s" by (rule 4(1)) (use 4(3,4) m in auto)
  show ?case
  proof (cases "parse_value n s")
    case (Some y)
    obtain v q where y: "y = (v, q)" by (cases y)
    with Some have v: "parse_value n s = Some (v, q)" by simp
    show ?thesis
    proof (cases "skip_ws q")
      case (Cons c p)
      have "2 * length p + 1 < n" "2 * length p + 1 < k"
        using parse_shorter(1) [OF v] skip_ws_length [of q] Cons 4(3,4) m by simp_all
      note len = this
      have "parse_elements n p = parse_elements k p" if "c = 44"
        by (rule 4(2) [OF v refl Cons that]) (use len in auto)
      then show ?thesis unfolding m parse_elements.simps eq [symmetric] v by (simp add: Cons)
    qed (use v eq m in simp)
  qed (use eq m in simp)
next
  case (6 n s)
  obtain k where m: "m = Suc k" using 6(4) by (cases m) auto
  have members: "parse_members n y = parse_members k y"
    if "skip_ws s = 34 # cs" "parse_string cs = Some (x, q)" "skip_ws q = 58 # p" "parse_value n p = Some (v, z)"
      "skip_ws z = 44 # y" for cs x q p v z y
  proof -
    have "2 * length y + 1 < n" "2 * length y + 1 < k"
      using parse_shorter(1) [OF that(4)] skip_ws_length [of s] skip_ws_length [of q] skip_ws_length [of z]
        parse_string_shorter [OF that(2)] that(1,3,5) 6(3,4) m by simp_all
    then show ?thesis by (intro 6(2) [OF that(1) _ that(2) refl that(3) _ that(4) refl that(5)]) auto
  qed
  have val: "parse_value n p = parse_value k p"
    if "skip_ws s = 34 # cs" "parse_string cs = Some (x, q)" "skip_ws q = 58 # p" for cs x q p
  proof -
    have "2 * length p < n" "2 * length p < k"
      using skip_ws_length [of s] skip_ws_length [of q] parse_string_shorter [OF that(2)] that(1,3) 6(3,4) m by simp_all
    then show ?thesis by (intro 6(1) [OF that(1) _ that(2) refl that(3)]) auto
  qed
  show ?case
  proof (cases "\<exists>cs x q p v z y. skip_ws s = 34 # cs \<and> parse_string cs = Some (x, q) \<and> skip_ws q = 58 # p \<and>
      parse_value n p = Some (v, z) \<and> skip_ws z = 44 # y")
    case True
    then obtain cs x q p v z y where h: "skip_ws s = 34 # cs" "parse_string cs = Some (x, q)" "skip_ws q = 58 # p"
      "parse_value n p = Some (v, z)" "skip_ws z = 44 # y" by blast
    show ?thesis unfolding m parse_members.simps using h val [OF h(1-3)] members [OF h] by simp
  next
    case False
    show ?thesis unfolding m parse_members.simps using False
      by (auto split: list.split option.split prod.split dest: val)
  qed
qed simp_all

section \<open>Round trip\<close>

definition delimited :: "utext \<Rightarrow> bool" where
  "delimited r \<longleftrightarrow> r = [] \<or> hd r = 44 \<or> hd r = 93 \<or> hd r = 125"

lemma delimited_no_digit: "delimited r \<Longrightarrow> takeWhile is_digit r = [] \<and> dropWhile is_digit r = r"
  by (cases r) (auto simp: delimited_def is_digit_def)

lemma print_nat_digits:
  "print_nat n \<noteq> [] \<and> list_all is_digit (print_nat n) \<and> (0 < n \<longrightarrow> hd (print_nat n) \<noteq> 48) \<and> digits_value (print_nat n) = n"
proof (induction n rule: print_nat.induct)
  case (1 n)
  show ?case
  proof (cases "n < 10")
    case True
    then show ?thesis by (auto simp: print_nat.simps [of n] is_digit_def digits_value_def)
  next
    case False
    have "digits_value (xs @ [c]) = 10 * digits_value xs + (c - 48)" for xs c by (simp add: digits_value_def)
    moreover have "0 < n div 10" "n mod 10 < 10" using False by simp_all
    ultimately show ?thesis using 1 [OF False] False by (simp add: print_nat.simps [of n] is_digit_def)
  qed
qed

lemma parse_print_nat:
  assumes "delimited r"
  shows "parse_integer_part (print_nat n @ r) = Some (print_nat n, r)"
proof -
  note d = print_nat_digits [of n]
  obtain c cs where c: "print_nat n = c # cs" using d by (cases "print_nat n") auto
  have "takeWhile is_digit (print_nat n @ r) = print_nat n" "dropWhile is_digit (print_nat n @ r) = r"
    using d delimited_no_digit [OF assms] by (simp_all add: takeWhile_append2 dropWhile_append2 list_all_iff)
  moreover have "c = 48 \<Longrightarrow> cs = []"
  proof -
    assume "c = 48"
    then have "n = 0" using d c by auto
    then show "cs = []" using c by (simp add: print_nat.simps)
  qed
  ultimately show ?thesis using c d by (cases "c = 48") (simp_all add: parse_integer_part_def)
qed

lemma parse_print_int:
  assumes "delimited r"
  shows "parse_number (print_int z @ r) = Some (of_int z, r)"
proof -
  have tail: "parse_fraction r = Some (0, r)" "parse_exponent r = Some (0, r)"
    using assms by (auto simp: parse_fraction_def parse_exponent_def delimited_def split: list.split)
  have hd: "hd (print_nat k @ r) \<noteq> 45" "print_nat k \<noteq> []" for k
    using print_nat_digits [of k] by (cases "print_nat k"; auto simp: is_digit_def)+
  show ?thesis
    using parse_print_nat [OF assms] tail print_nat_digits hd
    by (auto simp: parse_number_def print_int_def Let_def power10_def)
qed

lemma hex_roundtrip: "d < 16 \<Longrightarrow> hex_value (hex_digit d) = Some d"
  by (auto simp: hex_value_def hex_digit_def is_digit_def)

lemma quote_unit_parses:
  assumes "c < 0x110000"
  shows "parse_units (quote_unit c @ r) = map_option (\<lambda>(us, q). (c # us, q)) (parse_units r)"
proof (cases "c < 32 \<or> surrogate c")
  case True
  have c: "c < 65536" using True by (auto simp: surrogate_def)
  have d: "c div 256 = c div 16 div 16" "c div 4096 = c div 256 div 16" by (simp_all flip: div_mult2_eq)
  have "c = c div 16 * 16 + c mod 16" "c div 16 = c div 256 * 16 + c div 16 mod 16"
    "c div 256 = c div 4096 * 16 + c div 256 mod 16" unfolding d by simp_all
  then have sum: "c div 4096 * 4096 + c div 256 mod 16 * 256 + c div 16 mod 16 * 16 + c mod 16 = c" by linarith
  have hex: "hex_value (hex_digit (c div 4096)) = Some (c div 4096)"
    "hex_value (hex_digit (c div 256 mod 16)) = Some (c div 256 mod 16)"
    "hex_value (hex_digit (c div 16 mod 16)) = Some (c div 16 mod 16)" "hex_value (hex_digit (c mod 16)) = Some (c mod 16)"
    using c by (intro hex_roundtrip; simp add: less_mult_imp_div_less)+
  show ?thesis
  proof (cases "c \<in> {34, 92, 8, 12, 10, 13, 9}")
    case True
    then show ?thesis by (auto simp: quote_unit_def parse_units_Cons escape_def)
  next
    case False
    then have "quote_unit c = [92, 117, hex_digit (c div 4096), hex_digit (c div 256 mod 16), hex_digit (c div 16 mod 16),
        hex_digit (c mod 16)]" using True by (simp add: quote_unit_def)
    then show ?thesis using hex sum by (simp add: parse_units_Cons escape_def)
  qed
next
  case False
  then show ?thesis by (auto simp: quote_unit_def parse_units_Cons escape_def)
qed

definition printable_text :: "utext \<Rightarrow> bool" where
  "printable_text s \<longleftrightarrow> list_all (\<lambda>c. c < 0x110000) s \<and> pair_up s = s"

lemma parse_quote_text:
  assumes "printable_text s"
  shows "\<exists>cs. quote_text s @ r = 34 # cs \<and> parse_string cs = Some (s, r)"
proof -
  have "parse_units (concat (map quote_unit s) @ 34 # r) = Some (s, r)" if "list_all (\<lambda>c. c < 0x110000) s" for s
    using that by (induction s) (simp_all add: parse_units_Cons quote_unit_parses)
  with assms show ?thesis by (simp add: quote_text_def parse_string_def printable_text_def)
qed

fun printable :: "json \<Rightarrow> bool" where
  "printable JNull = True"
| "printable (JBool b) = True"
| "printable (JNum r) = (of_int \<lfloor>r\<rfloor> = r)"
| "printable (JStr s) = printable_text s"
| "printable (JArr vs) = list_all printable vs"
| "printable (JObj ms) = (distinct (map fst ms) \<and> list_all (\<lambda>(k, v). printable_text k \<and> printable v) ms)"

lemma object_of_distinct: "distinct (map fst ms) \<Longrightarrow> object_of ms = ms"
proof -
  have "fold (\<lambda>(k, v) m. jm_set m k v) ms acc = acc @ ms" if "distinct (map fst (acc @ ms))" for acc :: "(utext \<times> json) list"
    using that by (induction ms arbitrary: acc) (auto simp: jm_set_fresh)
  then show "distinct (map fst ms) \<Longrightarrow> object_of ms = ms" by (simp add: object_of_def)
qed

text \<open>Enough fuel, for a value followed by anything that ends it.\<close>

definition reads_back :: "json \<Rightarrow> bool" where
  "reads_back v \<longleftrightarrow> (\<forall>r. delimited r \<longrightarrow> (\<exists>N. \<forall>n \<ge> N. parse_value n (stringify v @ r) = Some (v, r)))"

lemma stringify_start: "\<exists>c cs. stringify v = c # cs \<and> \<not> json_space c \<and> c \<noteq> 93 \<and> c \<noteq> 125"
proof (cases v)
  case (JNum r)
  obtain k ks where "print_nat (nat \<lfloor>r\<rfloor>) = k # ks" "is_digit k"
    using print_nat_digits [of "nat \<lfloor>r\<rfloor>"] by (cases "print_nat (nat \<lfloor>r\<rfloor>)") auto
  then have "\<exists>k ks. print_int \<lfloor>r\<rfloor> = k # ks \<and> (is_digit k \<or> k = 45)" by (simp add: print_int_def)
  then show ?thesis using JNum by (fastforce simp: is_digit_def json_space_def)
qed (simp_all add: text_of_def quote_text_def json_space_def)

lemma reads_backD:
  assumes "reads_back v" "delimited r"
  obtains N where "\<And>n. N \<le> n \<Longrightarrow> parse_value n (stringify v @ r) = Some (v, r)"
  using assms by (auto simp: reads_back_def)

lemma skip_solid: "\<not> json_space c \<Longrightarrow> skip_ws (c # cs) = c # cs"
  by (simp add: skip_ws_def)

lemmas solid_marks = skip_solid [of 34] skip_solid [of 44] skip_solid [of 58] skip_solid [of 91] skip_solid [of 93]
  skip_solid [of 123] skip_solid [of 125]

lemma elements_back:
  "vs \<noteq> [] \<Longrightarrow> \<forall>v \<in> set vs. reads_back v \<Longrightarrow>
   \<exists>N. \<forall>n \<ge> N. parse_elements n (comma_join (map stringify vs) @ 93 # r) = Some (vs, r)"
proof (induction vs rule: induct_list012)
  case (2 v)
  obtain N where N: "\<And>n. N \<le> n \<Longrightarrow> parse_value n (stringify v @ 93 # r) = Some (v, 93 # r)"
    using reads_backD [of v "93 # r"] 2 by (auto simp: delimited_def)
  have "parse_elements n (stringify v @ 93 # r) = Some ([v], r)" if "Suc N \<le> n" for n
    using that N [of "n - 1"] by (cases n) (simp_all add: solid_marks json_space_def)
  then show ?case by auto
next
  case (3 v w vs)
  let ?rest = "comma_join (map stringify (w # vs)) @ 93 # r"
  obtain N where N: "\<And>n. N \<le> n \<Longrightarrow> parse_value n (stringify v @ 44 # ?rest) = Some (v, 44 # ?rest)"
    using reads_backD [of v "44 # ?rest"] 3(4) by (auto simp: delimited_def)
  obtain M where M: "\<And>n. M \<le> n \<Longrightarrow> parse_elements n ?rest = Some (w # vs, r)" using 3 by auto
  have "parse_elements n (stringify v @ 44 # ?rest) = Some (v # w # vs, r)" if "Suc (max N M) \<le> n" for n
    using that N [of "n - 1"] M [of "n - 1"] by (cases n) (simp_all add: solid_marks json_space_def)
  then show ?case by auto
qed simp

lemma members_back:
  "ms \<noteq> [] \<Longrightarrow> \<forall>(k, v) \<in> set ms. printable_text k \<and> reads_back v \<Longrightarrow>
   \<exists>N. \<forall>n \<ge> N. parse_members n (comma_join (map (\<lambda>(k, v). quote_text k @ 58 # stringify v) ms) @ 125 # r) = Some (ms, r)"
proof (induction ms rule: induct_list012)
  case (2 m)
  obtain k v where m: "m = (k, v)" by (cases m)
  obtain N where N: "\<And>n. N \<le> n \<Longrightarrow> parse_value n (stringify v @ 125 # r) = Some (v, 125 # r)"
    using reads_backD [of v "125 # r"] 2 m by (auto simp: delimited_def)
  obtain cs where cs: "quote_text k @ 58 # stringify v @ 125 # r = 34 # cs" "parse_string cs = Some (k, 58 # stringify v @ 125 # r)"
    using parse_quote_text [of k "58 # stringify v @ 125 # r"] 2 m by auto
  have "parse_members n (quote_text k @ 58 # stringify v @ 125 # r) = Some ([(k, v)], r)" if "Suc N \<le> n" for n
    unfolding cs(1) using that N [of "n - 1"] cs(2) by (cases n) (simp_all add: solid_marks json_space_def)
  then show ?case unfolding m by auto
next
  case (3 m m' ms)
  obtain k v where m: "m = (k, v)" by (cases m)
  let ?rest = "comma_join (map (\<lambda>(k, v). quote_text k @ 58 # stringify v) (m' # ms)) @ 125 # r"
  obtain N where N: "\<And>n. N \<le> n \<Longrightarrow> parse_value n (stringify v @ 44 # ?rest) = Some (v, 44 # ?rest)"
    using reads_backD [of v "44 # ?rest"] 3(4) m by (auto simp: delimited_def)
  obtain M where M: "\<And>n. M \<le> n \<Longrightarrow> parse_members n ?rest = Some (m' # ms, r)" using 3 by auto
  obtain cs where cs: "quote_text k @ 58 # stringify v @ 44 # ?rest = 34 # cs" "parse_string cs = Some (k, 58 # stringify v @ 44 # ?rest)"
    using parse_quote_text [of k "58 # stringify v @ 44 # ?rest"] 3(4) m by auto
  have "parse_members n (quote_text k @ 58 # stringify v @ 44 # ?rest) = Some ((k, v) # m' # ms, r)" if "Suc (max N M) \<le> n" for n
    unfolding cs(1) using that N [of "n - 1"] M [of "n - 1"] cs(2) by (cases n) (simp_all add: solid_marks json_space_def)
  then show ?case unfolding m by auto
qed simp

lemma body_start:
  "xs \<noteq> [] \<Longrightarrow> \<forall>x \<in> set xs. \<exists>c cs. x = c # cs \<and> \<not> json_space c \<and> c \<noteq> 93 \<and> c \<noteq> 125 \<Longrightarrow>
   \<exists>c cs. comma_join xs @ r = c # cs \<and> \<not> json_space c \<and> c \<noteq> 93 \<and> c \<noteq> 125"
  by (cases xs rule: comma_join.cases) auto

lemma atom_back:
  "(\<And>n r. delimited r \<Longrightarrow> parse_value (Suc n) (stringify v @ r) = Some (v, r)) \<Longrightarrow> reads_back v"
  unfolding reads_back_def by (metis Suc_le_D)

lemma printable_reads_back: "printable v \<Longrightarrow> reads_back v"
proof (induction v)
  case (JNum x)
  obtain c cs where c: "print_int \<lfloor>x\<rfloor> = c # cs" "is_digit c \<or> c = 45"
  proof -
    obtain k ks where "print_nat (nat \<lfloor>x\<rfloor>) = k # ks" "is_digit k"
      using print_nat_digits [of "nat \<lfloor>x\<rfloor>"] by (cases "print_nat (nat \<lfloor>x\<rfloor>)") auto
    then show thesis using that by (cases "\<lfloor>x\<rfloor> < 0") (auto simp: print_int_def)
  qed
  have "parse_value (Suc n) (stringify (JNum x) @ r) = Some (JNum x, r)" if "delimited r" for n r
    using parse_print_int [OF that, of "\<lfloor>x\<rfloor>"] JNum c by (auto simp: skip_ws_def json_space_def is_digit_def)
  then show ?case by (rule atom_back)
next
  case (JStr s)
  have "parse_value (Suc n) (stringify (JStr s) @ r) = Some (JStr s, r)" for n r
    using parse_quote_text [of s r] JStr by (auto simp: solid_marks json_space_def)
  then show ?case by (rule atom_back)
next
  case (JArr vs)
  show ?case
  proof (cases "vs = []")
    case True
    show ?thesis by (rule atom_back) (simp add: True solid_marks json_space_def)
  next
    case False
    have all: "\<forall>v \<in> set vs. reads_back v" using JArr by (auto simp: list_all_iff)
    show ?thesis unfolding reads_back_def
    proof (intro allI impI)
      fix r
      let ?body = "comma_join (map stringify vs) @ 93 # r"
      obtain N where N: "\<And>n. N \<le> n \<Longrightarrow> parse_elements n ?body = Some (vs, r)" using elements_back [OF False all] by blast
      obtain c cs where "?body = c # cs" "\<not> json_space c" "c \<noteq> 93"
        using body_start [of "map stringify vs" "93 # r"] False stringify_start by auto
      then have "take 1 (skip_ws ?body) \<noteq> [93]" by (simp add: skip_ws_def)
      then have "parse_value n (stringify (JArr vs) @ r) = Some (JArr vs, r)" if "Suc N \<le> n" for n
        using that N [of "n - 1"] by (cases n) (simp_all add: solid_marks json_space_def)
      then show "\<exists>N. \<forall>n\<ge>N. parse_value n (stringify (JArr vs) @ r) = Some (JArr vs, r)" by blast
    qed
  qed
next
  case (JObj ms)
  show ?case
  proof (cases "ms = []")
    case True
    show ?thesis by (rule atom_back) (simp add: True solid_marks json_space_def)
  next
    case False
    have all: "\<forall>(k, v) \<in> set ms. printable_text k \<and> reads_back v" using JObj by (fastforce simp: list_all_iff)
    show ?thesis unfolding reads_back_def
    proof (intro allI impI)
      fix r
      let ?body = "comma_join (map (\<lambda>(k, v). quote_text k @ 58 # stringify v) ms) @ 125 # r"
      obtain N where N: "\<And>n. N \<le> n \<Longrightarrow> parse_members n ?body = Some (ms, r)" using members_back [OF False all] by blast
      have "\<forall>x \<in> set (map (\<lambda>(k, v). quote_text k @ 58 # stringify v) ms). \<exists>c cs. x = c # cs \<and> \<not> json_space c \<and> c \<noteq> 93 \<and> c \<noteq> 125"
        by (auto simp: quote_text_def json_space_def split: prod.split)
      then obtain c cs where "?body = c # cs" "\<not> json_space c" "c \<noteq> 125"
        using body_start [of "map (\<lambda>(k, v). quote_text k @ 58 # stringify v) ms" "125 # r"] False by blast
      then have "take 1 (skip_ws ?body) \<noteq> [125]" by (simp add: skip_ws_def)
      then have "parse_value n (stringify (JObj ms) @ r) = Some (JObj ms, r)" if "Suc N \<le> n" for n
        using that N [of "n - 1"] JObj.prems by (cases n) (simp_all add: solid_marks json_space_def object_of_distinct)
      then show "\<exists>N. \<forall>n\<ge>N. parse_value n (stringify (JObj ms) @ r) = Some (JObj ms, r)" by blast
    qed
  qed
qed (auto intro!: atom_back simp: text_of_def skip_ws_def json_space_def literal_def)

lemma json_roundtrip:
  assumes "printable v"
  shows "json_parse (stringify v) = Some v"
proof -
  let ?s = "stringify v"
  obtain N where N: "\<And>n. N \<le> n \<Longrightarrow> parse_value n (?s @ []) = Some (v, [])"
    using reads_backD [OF printable_reads_back [OF assms], of "[]"] by (auto simp: delimited_def)
  have "parse_value (Suc (Suc (2 * length ?s))) ?s = parse_value (max N (Suc (2 * length ?s))) ?s"
    by (rule fuel_enough(1)) auto
  with N [of "max N (Suc (2 * length ?s))"] show ?thesis by (simp add: json_parse_def skip_ws_def)
qed

end
