(* ===== verification/Protocol.thy ===== *)
theory Protocol
  imports Json
begin

text \<open>
  The terminal protocol (\<open>packages/shared/src/protocol.ts\<close>): the frames a socket delivers, their
  decoding and size limits, and the schemas of client and server messages over JSON values.
\<close>

section \<open>Messages\<close>

definition PROTOCOL_VERSION :: int where "PROTOCOL_VERSION = 1"
definition MAX_WS_PAYLOAD_BYTES :: nat where "MAX_WS_PAYLOAD_BYTES = 65536"
definition MAX_INPUT_BYTES :: nat where "MAX_INPUT_BYTES = 16384"
definition MIN_COLS :: real where "MIN_COLS = 2"
definition MAX_COLS :: real where "MAX_COLS = 500"
definition MIN_ROWS :: real where "MIN_ROWS = 2"
definition MAX_ROWS :: real where "MAX_ROWS = 200"

datatype ClientMessage = ClientInput string utext | ClientResize string int int

datatype ServerMessage = ServerReady string | ServerOutput string utext | ServerError string utext

datatype ProtocolParseErrorCode = BinaryPayload | PayloadTooLarge | InvalidJson | InvalidMessage

text \<open>
  What a listener can be handed: a string, bytes (a buffer or a view), an array whose items may be
  bytes, or anything else.
\<close>

datatype frame = TextFrame utext | ByteFrame "nat list" | Fragments "nat list option list" | OtherFrame

section \<open>Decoding a frame\<close>

datatype decoded = Decoded utext nat | TooLarge | Undecodable

definition frame_views :: "frame \<Rightarrow> nat list option list" where
  "frame_views raw =
     (case raw of
        ByteFrame b \<Rightarrow> [Some b]
      | Fragments vs \<Rightarrow> vs
      | _ \<Rightarrow> [None])"

definition decodeTextFrame :: "frame \<Rightarrow> decoded" where
  "decodeTextFrame raw =
     (case raw of
        TextFrame s \<Rightarrow> Decoded s (length (utf8_encode s))
      | _ \<Rightarrow>
          let views = frame_views raw in
          if \<not> list_all (\<lambda>v. v \<noteq> None) views then Undecodable
          else
            let bytes = concat (map the views) in
            if length bytes > MAX_WS_PAYLOAD_BYTES then TooLarge
            else case text_decoder bytes of None \<Rightarrow> Undecodable | Some s \<Rightarrow> Decoded s (length bytes))"

section \<open>Schemas\<close>

definition field :: "string \<Rightarrow> (utext \<times> json) list \<Rightarrow> json option" where
  "field k ms = jm_get ms (text_of k)"

definition strict_fields :: "string list \<Rightarrow> (utext \<times> json) list \<Rightarrow> bool" where
  "strict_fields ks ms \<longleftrightarrow> list_all (\<lambda>(k, _). k \<in> set (map text_of ks)) ms"

definition id_field :: "json option \<Rightarrow> string option" where
  "id_field j =
     (case j of
        Some (JStr s) \<Rightarrow>
          if list_all (\<lambda>c. c < 128) s \<and> isSessionId (map char_of s) then Some (map char_of s) else None
      | _ \<Rightarrow> None)"

definition version_field :: "json option \<Rightarrow> bool" where
  "version_field j \<longleftrightarrow> j = Some (JNum (of_int PROTOCOL_VERSION))"

definition int_field :: "real \<Rightarrow> real \<Rightarrow> json option \<Rightarrow> int option" where
  "int_field lo hi j =
     (case j of
        Some (JNum r) \<Rightarrow> if isSafeInteger (Num r) \<and> num_ge (Num r) lo \<and> num_le (Num r) hi then Some \<lfloor>r\<rfloor> else None
      | _ \<Rightarrow> None)"

definition text_field :: "(utext \<Rightarrow> bool) \<Rightarrow> json option \<Rightarrow> utext option" where
  "text_field P j = (case j of Some (JStr s) \<Rightarrow> if P s then Some s else None | _ \<Rightarrow> None)"

definition clientMessageSchema :: "json \<Rightarrow> ClientMessage option" where
  "clientMessageSchema v =
     (case v of
        JObj ms \<Rightarrow>
          if \<not> version_field (field ''v'' ms) then None
          else if field ''type'' ms = Some (JStr (text_of ''input'')) then
            (case (id_field (field ''sessionId'' ms),
                   text_field (\<lambda>s. length (utf8_encode s) \<le> MAX_INPUT_BYTES) (field ''data'' ms)) of
               (Some i, Some d) \<Rightarrow>
                 if strict_fields [''v'', ''type'', ''sessionId'', ''data''] ms then Some (ClientInput i d) else None
             | _ \<Rightarrow> None)
          else if field ''type'' ms = Some (JStr (text_of ''resize'')) then
            (case (id_field (field ''sessionId'' ms), int_field MIN_COLS MAX_COLS (field ''cols'' ms),
                   int_field MIN_ROWS MAX_ROWS (field ''rows'' ms)) of
               (Some i, Some c, Some r) \<Rightarrow>
                 if strict_fields [''v'', ''type'', ''sessionId'', ''cols'', ''rows''] ms then Some (ClientResize i c r) else None
             | _ \<Rightarrow> None)
          else None
      | _ \<Rightarrow> None)"

text \<open>Length in UTF-16 code units, which \<open>min\<close> and \<open>max\<close> of a string schema count.\<close>

definition utf16_length :: "utext \<Rightarrow> nat" where
  "utf16_length s = sum_list (map (\<lambda>c. if c < 0x10000 then 1 else 2) s)"

definition serverMessageSchema :: "json \<Rightarrow> ServerMessage option" where
  "serverMessageSchema v =
     (case v of
        JObj ms \<Rightarrow>
          if \<not> version_field (field ''v'' ms) then None
          else if field ''type'' ms = Some (JStr (text_of ''ready'')) then
            (case id_field (field ''sessionId'' ms) of
               Some i \<Rightarrow> if strict_fields [''v'', ''type'', ''sessionId''] ms then Some (ServerReady i) else None
             | None \<Rightarrow> None)
          else if field ''type'' ms = Some (JStr (text_of ''output'')) then
            (case (id_field (field ''sessionId'' ms), text_field (\<lambda>_. True) (field ''data'' ms)) of
               (Some i, Some d) \<Rightarrow>
                 if strict_fields [''v'', ''type'', ''sessionId'', ''data''] ms then Some (ServerOutput i d) else None
             | _ \<Rightarrow> None)
          else if field ''type'' ms = Some (JStr (text_of ''error'')) then
            (case (id_field (field ''sessionId'' ms),
                   text_field (\<lambda>s. 1 \<le> utf16_length s \<and> utf16_length s \<le> 100) (field ''code'' ms)) of
               (Some i, Some c) \<Rightarrow>
                 if strict_fields [''v'', ''type'', ''sessionId'', ''code''] ms then Some (ServerError i c) else None
             | _ \<Rightarrow> None)
          else None
      | _ \<Rightarrow> None)"

section \<open>Parsing\<close>

definition parseMessage :: "frame \<Rightarrow> (json \<Rightarrow> 'a option) \<Rightarrow> ProtocolParseErrorCode + 'a" where
  "parseMessage input schema =
     (case input of
        TextFrame s \<Rightarrow>
          if length (utf8_encode s) > MAX_WS_PAYLOAD_BYTES then Inl PayloadTooLarge
          else (case json_parse s of
                  None \<Rightarrow> Inl InvalidJson
                | Some v \<Rightarrow> (case schema v of None \<Rightarrow> Inl InvalidMessage | Some m \<Rightarrow> Inr m))
      | _ \<Rightarrow> Inl BinaryPayload)"

definition parseClientMessage :: "frame \<Rightarrow> bool \<Rightarrow> ProtocolParseErrorCode + ClientMessage" where
  "parseClientMessage raw isBinary =
     (if isBinary then Inl BinaryPayload
      else case decodeTextFrame raw of
             TooLarge \<Rightarrow> Inl PayloadTooLarge
           | Undecodable \<Rightarrow> Inl InvalidMessage
           | Decoded s n \<Rightarrow>
               if n > MAX_WS_PAYLOAD_BYTES then Inl PayloadTooLarge
               else parseMessage (TextFrame s) clientMessageSchema)"

definition parseServerMessage :: "frame \<Rightarrow> ProtocolParseErrorCode + ServerMessage" where
  "parseServerMessage input = parseMessage input serverMessageSchema"

section \<open>Messages as JSON\<close>

text \<open>The object literals the two sides pass to \<open>JSON.stringify\<close>.\<close>

definition message_json :: "string \<Rightarrow> string \<Rightarrow> (string \<times> json) list \<Rightarrow> json" where
  "message_json ty i rest =
     JObj ([(text_of ''v'', JNum (of_int PROTOCOL_VERSION)), (text_of ''type'', JStr (text_of ty)),
            (text_of ''sessionId'', JStr (text_of i))] @ map (\<lambda>(k, v). (text_of k, v)) rest)"

fun client_json :: "ClientMessage \<Rightarrow> json" where
  "client_json (ClientInput i d) = message_json ''input'' i [(''data'', JStr d)]"
| "client_json (ClientResize i c r) =
     message_json ''resize'' i [(''cols'', JNum (of_int c)), (''rows'', JNum (of_int r))]"

fun server_json :: "ServerMessage \<Rightarrow> json" where
  "server_json (ServerReady i) = message_json ''ready'' i []"
| "server_json (ServerOutput i d) = message_json ''output'' i [(''data'', JStr d)]"
| "server_json (ServerError i c) = message_json ''error'' i [(''code'', JStr c)]"

section \<open>Round trips\<close>

lemma pair_up_plain: "list_all (\<lambda>c. \<not> surrogate c) s \<Longrightarrow> pair_up s = s"
  by (induction s rule: pair_up.induct) (auto simp: surrogate_def)

lemma text_of_plain: "printable_text (text_of s)"
proof -
  have "(of_char c :: nat) < 256" for c by simp
  then have "list_all (\<lambda>c. c < 256) (text_of s)" by (simp add: text_of_def list_all_iff)
  then have "list_all (\<lambda>c. \<not> surrogate c) (text_of s)" "list_all (\<lambda>c. c < 0x110000) (text_of s)"
    by (auto simp: list_all_iff surrogate_def)
  then show ?thesis by (simp add: printable_text_def pair_up_plain)
qed

lemma text_of_inj [simp]: "text_of a = text_of b \<longleftrightarrow> a = b"
  unfolding text_of_def by (rule inj_map_eq_map) (auto intro: injI)

lemma session_id_text:
  assumes "isSessionId i"
  shows "id_field (Some (JStr (text_of i))) = Some i"
proof -
  have "\<forall>c \<in> set i. (of_char c :: nat) < 128"
  proof
    fix c assume "c \<in> set i"
    then obtain p where p: "p \<in> set TAB_ID_PATTERN" "p c"
      using assms by (auto simp: isSessionId_def matches_def list_all2_conv_all_nth in_set_conv_nth) metis
    then have "hex_class c \<or> dash_class c \<or> version_class c \<or> variant_class c" by (auto simp: TAB_ID_PATTERN_def)
    then show "(of_char c :: nat) < 128"
      by (auto simp: hex_class_def dash_class_def version_class_def variant_class_def)
  qed
  moreover have "map char_of (text_of i) = i" by (simp add: text_of_def comp_def)
  ultimately show ?thesis using assms by (simp add: id_field_def text_of_def list_all_iff)
qed

text \<open>Messages within the limits of the schemas.\<close>

fun client_ok :: "ClientMessage \<Rightarrow> bool" where
  "client_ok (ClientInput i d) \<longleftrightarrow> isSessionId i \<and> printable_text d \<and> length (utf8_encode d) \<le> MAX_INPUT_BYTES"
| "client_ok (ClientResize i c r) \<longleftrightarrow> isSessionId i \<and> 2 \<le> c \<and> c \<le> 500 \<and> 2 \<le> r \<and> r \<le> 200"

fun server_ok :: "ServerMessage \<Rightarrow> bool" where
  "server_ok (ServerReady i) \<longleftrightarrow> isSessionId i"
| "server_ok (ServerOutput i d) \<longleftrightarrow> isSessionId i \<and> printable_text d"
| "server_ok (ServerError i c) \<longleftrightarrow> isSessionId i \<and> printable_text c \<and> 1 \<le> utf16_length c \<and> utf16_length c \<le> 100"

lemma client_printable: "client_ok m \<Longrightarrow> printable (client_json m)"
  by (cases m) (simp_all add: message_json_def text_of_plain)

lemma server_printable: "server_ok m \<Longrightarrow> printable (server_json m)"
  by (cases m) (simp_all add: message_json_def text_of_plain)

lemma client_schema: "client_ok m \<Longrightarrow> clientMessageSchema (client_json m) = Some m"
  by (cases m)
     (simp_all add: clientMessageSchema_def message_json_def field_def version_field_def session_id_text text_field_def
       strict_fields_def int_field_def safe_int_def MAX_SAFE_INTEGER_def MIN_COLS_def MAX_COLS_def MIN_ROWS_def MAX_ROWS_def)

lemma server_schema: "server_ok m \<Longrightarrow> serverMessageSchema (server_json m) = Some m"
  by (cases m)
     (simp_all add: serverMessageSchema_def message_json_def field_def version_field_def session_id_text text_field_def
       strict_fields_def)

text \<open>The printer escapes what UTF-8 cannot carry.\<close>

lemma scalar_small: "c < 0xD800 \<Longrightarrow> scalar c"
  by (simp add: scalar_def surrogate_def)

lemma quote_scalar: "list_all (\<lambda>c. c < 0x110000) s \<Longrightarrow> list_all scalar (quote_text s)"
proof -
  have hex: "scalar (hex_digit d)" if "d < 16" for d using that by (simp add: hex_digit_def scalar_small)
  have "list_all scalar (quote_unit c)" if "c < 0x110000" for c
    using that by (auto simp: quote_unit_def hex scalar_small surrogate_def less_mult_imp_div_less) (simp add: scalar_def surrogate_def)
  then show "list_all (\<lambda>c. c < 0x110000) s \<Longrightarrow> list_all scalar (quote_text s)"
    by (induction s) (auto simp: quote_text_def scalar_small)
qed

lemma join_scalar: "\<forall>x \<in> set xs. list_all scalar x \<Longrightarrow> list_all scalar (comma_join xs)"
  by (induction xs rule: comma_join.induct) (auto simp: scalar_small)

lemma stringify_scalar: "printable v \<Longrightarrow> list_all scalar (stringify v)"
proof (induction v)
  case (JNum r)
  have "list_all scalar (print_nat n)" for n
    using print_nat_digits [of n] by (auto simp: list_all_iff is_digit_def scalar_small)
  then show ?case by (simp add: print_int_def scalar_small)
next
  case (JStr s)
  then show ?case by (simp add: printable_text_def quote_scalar)
next
  case (JArr vs)
  then have "list_all scalar (comma_join (map stringify vs))" by (intro join_scalar) (auto simp: list_all_iff)
  then show ?case by (simp add: scalar_small)
next
  case (JObj ms)
  have "list_all scalar (comma_join (map (\<lambda>(k, v). quote_text k @ 58 # stringify v) ms))"
  proof (rule join_scalar, clarsimp)
    fix k v assume m: "(k, v) \<in> set ms"
    then have "printable_text k" "printable v" using JObj.prems by (auto simp: list_all_iff)
    with JObj.IH [OF m, of v] show "list_all scalar (quote_text k) \<and> scalar 58 \<and> list_all scalar (stringify v)"
      by (simp add: printable_text_def quote_scalar scalar_small)
  qed
  then show ?case by (simp add: scalar_small)
qed (auto simp: text_of_def scalar_small)

lemma decode_delivered:
  assumes "printable v" "v = JObj ms" "concat views = utf8_encode (stringify v)"
    "length (utf8_encode (stringify v)) \<le> MAX_WS_PAYLOAD_BYTES"
  shows "decodeTextFrame (Fragments (map Some views)) = Decoded (stringify v) (length (utf8_encode (stringify v)))"
proof -
  have "take 3 (utf8_encode (stringify v)) \<noteq> [0xEF, 0xBB, 0xBF]"
    by (simp add: assms(2) utf8_encode_def encode_point_def surrogate_def)
  then have "text_decoder (utf8_encode (stringify v)) = Some (stringify v)"
    using utf8_roundtrip [OF stringify_scalar [OF assms(1)]] by (simp add: text_decoder_def)
  then show ?thesis using assms(3,4)
    by (simp add: decodeTextFrame_def frame_views_def comp_def list_all_iff)
qed

lemma client_text_parses:
  assumes "client_ok m" "length (utf8_encode (stringify (client_json m))) \<le> MAX_WS_PAYLOAD_BYTES"
  shows "parseMessage (TextFrame (stringify (client_json m))) clientMessageSchema = Inr m"
    "parseClientMessage (TextFrame (stringify (client_json m))) False = Inr m"
  using assms(2) json_roundtrip [OF client_printable [OF assms(1)]] client_schema [OF assms(1)]
  by (simp_all add: parseMessage_def parseClientMessage_def decodeTextFrame_def)

text \<open>
  C39. The protocol loses nothing: a client message within the limits, printed as the client prints it,
  is parsed by the server as the same message, whether it arrives as text or as UTF-8 bytes cut into
  fragments at any places, inside a character included.
\<close>

theorem client_message_roundtrip:
  assumes "client_ok m" "length (utf8_encode (stringify (client_json m))) \<le> MAX_WS_PAYLOAD_BYTES"
    and "concat views = utf8_encode (stringify (client_json m))"
  shows "parseClientMessage (TextFrame (stringify (client_json m))) False = Inr m \<and>
    parseClientMessage (Fragments (map Some views)) False = Inr m"
proof -
  obtain ms where ms: "client_json m = JObj ms" by (cases m) (simp_all add: message_json_def)
  note dec = decode_delivered [OF client_printable [OF assms(1)] ms assms(3,2)]
  from client_text_parses [OF assms(1,2)] dec assms(2) show ?thesis by (simp add: parseClientMessage_def decodeTextFrame_def)
qed

lemma server_message_roundtrip:
  "server_ok m \<Longrightarrow> length (utf8_encode (stringify (server_json m))) \<le> MAX_WS_PAYLOAD_BYTES \<Longrightarrow>
   parseServerMessage (TextFrame (stringify (server_json m))) = Inr m"
  using json_roundtrip [OF server_printable] server_schema by (simp add: parseServerMessage_def parseMessage_def)

text \<open>Everything accepted is within the limits.\<close>

lemma client_accepted:
  assumes "parseClientMessage raw b = Inr m"
  shows "\<not> b" "case m of
     ClientInput i d \<Rightarrow> isSessionId i \<and> length (utf8_encode d) \<le> 16384
   | ClientResize i c r \<Rightarrow> isSessionId i \<and> 2 \<le> c \<and> c \<le> 500 \<and> 2 \<le> r \<and> r \<le> 200"
proof -
  show "\<not> b" using assms by (auto simp: parseClientMessage_def)
  obtain s where "parseMessage (TextFrame s) clientMessageSchema = Inr m"
    using assms by (auto simp: parseClientMessage_def split: if_splits decoded.splits)
  then obtain v where v: "clientMessageSchema v = Some m"
    by (auto simp: parseMessage_def split: if_splits option.splits)
  have id: "id_field j = Some i \<Longrightarrow> isSessionId i" for j i
    by (auto simp: id_field_def split: option.splits json.splits if_splits)
  have int: "int_field (of_int lo) (of_int hi) j = Some k \<Longrightarrow> lo \<le> k \<and> k \<le> hi" for lo hi j k
    by (auto simp: int_field_def le_floor_iff floor_le_iff split: option.splits json.splits if_splits)
  have strs: "text_field P j = Some d \<Longrightarrow> P d" for P j d
    by (auto simp: text_field_def split: option.splits json.splits if_splits)
  show "case m of
     ClientInput i d \<Rightarrow> isSessionId i \<and> length (utf8_encode d) \<le> 16384
   | ClientResize i c r \<Rightarrow> isSessionId i \<and> 2 \<le> c \<and> c \<le> 500 \<and> 2 \<le> r \<and> r \<le> 200"
    using v int [of 2 500] int [of 2 200]
    by (auto simp: clientMessageSchema_def MAX_INPUT_BYTES_def MIN_COLS_def MAX_COLS_def MIN_ROWS_def MAX_ROWS_def
        split: json.splits option.splits if_splits dest!: id strs)
qed

definition example_input :: ClientMessage where
  "example_input = ClientInput ''11111111-1111-4111-8111-111111111111'' [233, 10, 0x1F600]"

lemma example_input_ok: "client_ok example_input"
proof -
  have "isSessionId ''11111111-1111-4111-8111-111111111111''" by code_simp
  then show ?thesis
    by (simp add: example_input_def printable_text_def utf8_encode_def encode_point_def surrogate_def MAX_INPUT_BYTES_def)
qed

lemma example_input_length: "length (utf8_encode (stringify (client_json example_input))) \<le> MAX_WS_PAYLOAD_BYTES"
  by (simp add: example_input_def message_json_def text_of_def quote_text_def quote_unit_def surrogate_def
      utf8_encode_def encode_point_def print_int_def print_nat.simps PROTOCOL_VERSION_def MAX_WS_PAYLOAD_BYTES_def)

theorem client_message_roundtrip_witness:
  "parseClientMessage (Fragments (map Some [take 90 (utf8_encode (stringify (client_json example_input))),
     drop 90 (utf8_encode (stringify (client_json example_input)))])) False = Inr example_input"
  using client_message_roundtrip [OF example_input_ok example_input_length,
      of "[take 90 (utf8_encode (stringify (client_json example_input))), drop 90 (utf8_encode (stringify (client_json example_input)))]"]
  by simp

end
