(* ===== verification/SessionManager.thy ===== *)
theory SessionManager
  imports TabStore Tmux BridgeRegistry CleanupEligibility Protocol
begin

text \<open>
  The session manager (\<open>apps/server/src/session-manager.ts\<close>): attach tokens with generations, and the
  lifecycle of a tab's session across the tab store, the tmux runtime and the bridge registry. Its
  state extends the registry's; the tab store is a component \<open>'t\<close> reached through the interface
  \<open>SessionTabStore\<close>, the runtime through \<open>SessionRuntimeController\<close>. The keyed mutex runs the
  operations of one tab one after the other, so an operation is a program; what happens to other
  tabs meanwhile is covered by the frame laws of the two interfaces. PTY creation, bridge creation and
  the settings provider are parameters.
\<close>

section \<open>State\<close>

record AttachToken =
  tok_session :: string
  tok_generation :: nat
  tok_serial :: nat

record ('w, 't) SessionManager = "'w BridgeRegistry" +
  generations :: "(string, nat) jsmap"
  generationClock :: nat
  issuedTokens :: "AttachToken list"
  tab_store :: 't
  marks :: "string list"

datatype SessionState = Running | StoppedSession | Unknown

record SessionHealth =
  health_state :: SessionState
  attached :: bool
  bridgePid :: "int option"

record TabView =
  view_record :: TabRecord
  view_session :: SessionHealth

datatype manager_error =
    InvalidConnection | StaleAttach | NoSuchTab | InvalidSessionState | OperationFailed "TabView option"

record TerminalDimensions =
  cols :: jsnum
  rows :: jsnum

record ('w, 't) manager_env =
  m_owners :: "'w owner_env"
  m_store :: "'t SessionTabStore"
  m_runtime :: "'w SessionRuntimeController"
  has_store :: bool
  has_activity :: bool
  has_runtime :: bool
  m_settings :: "'w \<Rightarrow> SessionRuntimeSettings option"
  m_spawn :: "AttachSpec \<Rightarrow> TerminalDimensions \<Rightarrow> 'w \<Rightarrow> nat option \<times> 'w"
  m_bridge :: "string \<Rightarrow> nat \<Rightarrow> nat \<Rightarrow> 'w \<Rightarrow> nat option \<times> 'w"
  m_text :: text_env

type_synonym ('w, 't, 'a) manager = "(('w, 't) SessionManager, manager_error, 'a) em"

definition new_manager :: "'w \<Rightarrow> 't \<Rightarrow> ('w, 't) SessionManager" where
  "new_manager w t = \<lparr>owners = [], shuttingDown = False, shutdown_rejected = False, world = w, closings = [],
     generations = [], generationClock = 0, issuedTokens = [], tab_store = t, marks = []\<rparr>"

definition compatibilityMode :: "('w, 't) manager_env \<Rightarrow> bool" where
  "compatibilityMode E \<longleftrightarrow> \<not> has_store E \<and> \<not> has_activity E"

section \<open>Validation\<close>

definition isValidDimensions :: "TerminalDimensions \<Rightarrow> bool" where
  "isValidDimensions d \<longleftrightarrow>
     isInteger (cols d) \<and> num_ge (cols d) MIN_COLS \<and> num_le (cols d) MAX_COLS \<and>
     isInteger (rows d) \<and> num_ge (rows d) MIN_ROWS \<and> num_le (rows d) MAX_ROWS"

definition isValidRuntimeSettings :: "text_env \<Rightarrow> SessionRuntimeSettings \<Rightarrow> bool" where
  "isValidRuntimeSettings U st \<longleftrightarrow>
     take 1 (shell st) = [47] \<and> nfc_form U (shell st) = shell st \<and> utf8ByteLength (shell st) \<le> 4096 \<and>
     \<not> list_ex (\<lambda>c. forbiddenCharacter c \<or> format_control U c) (shell st) \<and>
     isInteger (historyLimit st) \<and> num_ge (historyLimit st) 0 \<and> num_le (historyLimit st) 1000000"

definition isValidEligibilityCapture :: "string \<Rightarrow> EligibilitySnapshot \<Rightarrow> bool" where
  "isValidEligibilityCapture i x \<longleftrightarrow>
     isSessionId i \<and> el_id x = i \<and> isSafeInteger (el_thresholdMs x) \<and> num_ge (el_thresholdMs x) 0 \<and>
     isSafeInteger (el_cutoffMs x) \<and>
     (if eligible x then reason x = None else reason x \<noteq> None) \<and>
     validGeneration (gen_structure (generation x)) \<and> validGeneration (gen_activity (generation x)) \<and>
     validGeneration (gen_sockets (generation x))"

section \<open>Reaching the collaborators\<close>

definition on_store :: "('t, store_error, 'a) em \<Rightarrow> ('w, 't, 'a) manager" where
  "on_store m = (\<lambda>s. case m (tab_store s) of
     (Inl _, t) \<Rightarrow> (Inl (OperationFailed None), s\<lparr>tab_store := t\<rparr>)
   | (Inr x, t) \<Rightarrow> (Inr x, s\<lparr>tab_store := t\<rparr>))"

definition on_world :: "('w, 'e, 'a) em \<Rightarrow> ('w, 't, 'a) manager" where
  "on_world m = (\<lambda>s. case m (world s) of
     (Inl _, w) \<Rightarrow> (Inl (OperationFailed None), s\<lparr>world := w\<rparr>)
   | (Inr x, w) \<Rightarrow> (Inr x, s\<lparr>world := w\<rparr>))"

definition on_registry :: "(('w, 't) SessionManager, registry_error, 'a) em \<Rightarrow> ('w, 't, 'a) manager" where
  "on_registry m = catch m (\<lambda>_. throw (OperationFailed None))"

definition quietly :: "('w, 't, 'a) manager \<Rightarrow> ('w, 't, unit) manager" where
  "quietly m = bind (attempt m) (\<lambda>_. ret ())"

text \<open>A creation that may throw: the outcome \<open>None\<close>.\<close>

definition creates :: "('w \<Rightarrow> 'a option \<times> 'w) \<Rightarrow> ('w, 't, 'a) manager" where
  "creates f = on_world (\<lambda>w. case f w of (None, v) \<Rightarrow> (Inl (), v) | (Some x, v) \<Rightarrow> (Inr x, v))"

definition mark_activity :: "('w, 't) manager_env \<Rightarrow> string \<Rightarrow> ('w, 't, unit) manager" where
  "mark_activity E i = modify (\<lambda>s. if has_activity E then s\<lparr>marks := marks s @ [i]\<rparr> else s)"

section \<open>Generations and tokens\<close>

definition nextTabGeneration :: "('w, 't, nat) manager" where
  "nextTabGeneration = (\<lambda>s. (Inr (Suc (generationClock s)), s\<lparr>generationClock := Suc (generationClock s)\<rparr>))"

definition incrementGeneration :: "string \<Rightarrow> ('w, 't, unit) manager" where
  "incrementGeneration i = bind nextTabGeneration (\<lambda>g. modify (\<lambda>s. s\<lparr>generations := jm_set (generations s) i g\<rparr>))"

definition ensureGeneration :: "string \<Rightarrow> ('w, 't, nat) manager" where
  "ensureGeneration i = bind (gets (\<lambda>s. jm_get (generations s) i)) (\<lambda>c.
     case c of
       Some g \<Rightarrow> ret g
     | None \<Rightarrow> bind nextTabGeneration (\<lambda>g.
                 bind (modify (\<lambda>s. s\<lparr>generations := jm_set (generations s) i g\<rparr>)) (\<lambda>_. ret g)))"

definition isIssuedToken :: "('w, 't) SessionManager \<Rightarrow> AttachToken \<Rightarrow> bool" where
  "isIssuedToken s k \<longleftrightarrow> k \<in> set (issuedTokens s)"

definition findRecord :: "TabDocument \<Rightarrow> string \<Rightarrow> TabRecord option" where
  "findRecord d i = find (\<lambda>t. tab_id t = i) (tabs d)"

definition issueToken :: "string \<Rightarrow> ('w, 't, AttachToken) manager" where
  "issueToken i = bind (ensureGeneration i) (\<lambda>g s.
     let k = \<lparr>tok_session = i, tok_generation = g, tok_serial = length (issuedTokens s)\<rparr>
     in (Inr k, s\<lparr>issuedTokens := issuedTokens s @ [k]\<rparr>))"

definition authorize :: "('w, 't) manager_env \<Rightarrow> string \<Rightarrow> ('w, 't, AttachToken option) manager" where
  "authorize E i = (\<lambda>s.
     if \<not> has_store E \<or> \<not> isSessionId i then (Inr None, s)
     else case (ts_has (m_store E) i (tab_store s), ts_snapshot (m_store E) (tab_store s)) of
            (Inr True, Inr d) \<Rightarrow>
              (case findRecord d i of
                 Some x \<Rightarrow>
                   if desiredState x \<noteq> Active then (Inr None, s)
                   else bind (issueToken i) (\<lambda>k. ret (Some k)) s
               | None \<Rightarrow> (Inr None, s))
          | _ \<Rightarrow> (Inr None, s))"

section \<open>Guards\<close>

definition requirePhaseTwo :: "('w, 't) manager_env \<Rightarrow> ('w, 't, unit) manager" where
  "requirePhaseTwo E =
     (if \<not> has_store E \<or> \<not> has_activity E \<or> \<not> has_runtime E then throw (OperationFailed None) else ret ())"

definition requireLifecycleTab :: "('w, 't) manager_env \<Rightarrow> string \<Rightarrow> ('w, 't, unit) manager" where
  "requireLifecycleTab E i =
     bind (requirePhaseTwo E) (\<lambda>_.
     if \<not> isSessionId i then throw NoSuchTab
     else bind (gets (\<lambda>s. ts_has (m_store E) i (tab_store s))) (\<lambda>r.
            case r of
              Inl _ \<Rightarrow> throw (OperationFailed None)
            | Inr b \<Rightarrow> if b then ret () else throw NoSuchTab))"

definition currentRecord :: "('w, 't) manager_env \<Rightarrow> string \<Rightarrow> ('w, 't, TabRecord option) manager" where
  "currentRecord E i =
     (if \<not> has_store E then ret None
      else bind (gets (\<lambda>s. (ts_has (m_store E) i (tab_store s), ts_snapshot (m_store E) (tab_store s)))) (\<lambda>r.
             case r of
               (Inl _, _) \<Rightarrow> throw (OperationFailed None)
             | (Inr b, x) \<Rightarrow>
                 if \<not> b then ret None
                 else (case x of Inl _ \<Rightarrow> throw (OperationFailed None) | Inr d \<Rightarrow> ret (findRecord d i))))"

definition requireCurrentRecord :: "('w, 't) manager_env \<Rightarrow> string \<Rightarrow> ('w, 't, TabRecord) manager" where
  "requireCurrentRecord E i =
     bind (currentRecord E i) (\<lambda>r. case r of None \<Rightarrow> throw NoSuchTab | Some x \<Rightarrow> ret x)"

definition captureRuntimeSettings :: "('w, 't) manager_env \<Rightarrow> ('w, 't, SessionRuntimeSettings) manager" where
  "captureRuntimeSettings E =
     bind (gets (\<lambda>s. m_settings E (world s))) (\<lambda>r.
       case r of
         None \<Rightarrow> throw (OperationFailed None)
       | Some st \<Rightarrow> if isValidRuntimeSettings (m_text E) st then ret st else throw (OperationFailed None))"

section \<open>Views\<close>

definition viewFromRecord :: "TabRecord \<Rightarrow> SessionHealth \<Rightarrow> TabView" where
  "viewFromRecord r h = \<lparr>view_record = r, view_session = h\<rparr>"

definition probeHealth :: "('w, 't) manager_env \<Rightarrow> string \<Rightarrow> ('w, 't, SessionHealth) manager" where
  "probeHealth E i =
     bind (requirePhaseTwo E) (\<lambda>_.
     bind (gets (\<lambda>s. find (\<lambda>e. snapshot_id e = i) (registry_entries (m_owners E) s))) (\<lambda>bridge.
     bind (attempt (on_world (rt_exists (m_runtime E) i))) (\<lambda>r.
     ret \<lparr>health_state = (case r of Inl _ \<Rightarrow> Unknown | Inr b \<Rightarrow> if b then Running else StoppedSession),
          attached = (bridge \<noteq> None),
          bridgePid = (case bridge of None \<Rightarrow> None | Some e \<Rightarrow> snapshot_pid e)\<rparr>)))"

definition view_now :: "('w, 't) manager_env \<Rightarrow> string \<Rightarrow> ('w, 't, TabView) manager" where
  "view_now E i =
     bind (requireCurrentRecord E i) (\<lambda>r. bind (probeHealth E i) (\<lambda>h. ret (viewFromRecord r h)))"

definition viewBestEffort :: "('w, 't) manager_env \<Rightarrow> string \<Rightarrow> ('w, 't, TabView option) manager" where
  "viewBestEffort E i =
     bind (attempt (view_now E i)) (\<lambda>r. ret (case r of Inl _ \<Rightarrow> None | Inr v \<Rightarrow> Some v))"

definition tab_view :: "('w, 't) manager_env \<Rightarrow> string \<Rightarrow> ('w, 't, TabView) manager" where
  "tab_view E i = bind (requireLifecycleTab E i) (\<lambda>_. view_now E i)"

definition collectionView :: "('w, 't) manager_env \<Rightarrow> ('w, 't, nat \<times> TabView list) manager" where
  "collectionView E =
     bind (requirePhaseTwo E) (\<lambda>_.
     bind (gets (\<lambda>s. (ts_snapshot (m_store E) (tab_store s), registry_entries (m_owners E) s))) (\<lambda>(snap, entries).
       case snap of
         Inl _ \<Rightarrow> throw (OperationFailed None)
       | Inr d \<Rightarrow>
           bind (attempt (on_world (rt_list (m_runtime E)))) (\<lambda>active.
           ret (structureRevision d,
             map (\<lambda>r.
               let bridge = find (\<lambda>e. snapshot_id e = tab_id r) (rev entries) in
               viewFromRecord r
                 \<lparr>health_state = (case active of Inl _ \<Rightarrow> Unknown
                                  | Inr is \<Rightarrow> if tab_id r \<in> set is then Running else StoppedSession),
                  attached = (bridge \<noteq> None),
                  bridgePid = (case bridge of None \<Rightarrow> None | Some e \<Rightarrow> snapshot_pid e)\<rparr>) (tabs d)))))"

section \<open>Lifecycle\<close>

definition attach ::
  "('w, 't) manager_env \<Rightarrow> string \<Rightarrow> nat \<Rightarrow> TerminalDimensions \<Rightarrow> bool \<Rightarrow> SessionRuntimeSettings option
   \<Rightarrow> ('w, 't, nat) manager"
where
  "attach E i socket dims marking settings =
     bind (on_world (rt_prepare (m_runtime E) i settings)) (\<lambda>spec.
     bind (on_registry (registry_close (m_owners E) i 4001 ''session_replaced'')) (\<lambda>_.
     bind (creates (m_spawn E spec dims)) (\<lambda>pty.
     bind (creates (m_bridge E i socket pty)) (\<lambda>bridge.
     bind (on_registry (registry_replace (m_owners E) i bridge)) (\<lambda>_.
     bind (if marking then mark_activity E i else ret ()) (\<lambda>_.
     ret bridge))))))"

definition connect ::
  "('w, 't) manager_env \<Rightarrow> AttachToken \<Rightarrow> nat \<Rightarrow> TerminalDimensions \<Rightarrow> ('w, 't, nat) manager"
where
  "connect E k socket dims =
     bind (gets (\<lambda>s. isIssuedToken s k)) (\<lambda>issued.
     if \<not> isValidDimensions dims then throw InvalidConnection
     else if \<not> issued then throw StaleAttach
     else
       bind (requirePhaseTwo E) (\<lambda>_.
       bind (currentRecord E (tok_session k)) (\<lambda>r.
       bind (gets (\<lambda>s. jm_get (generations s) (tok_session k))) (\<lambda>g.
         case r of
           None \<Rightarrow> throw StaleAttach
         | Some x \<Rightarrow>
             if desiredState x \<noteq> Active \<or> g \<noteq> Some (tok_generation k) then throw StaleAttach
             else bind (captureRuntimeSettings E) (\<lambda>st.
                  attach E (tok_session k) socket dims True (Some st))))))"

text \<open>The call shape of a server without store and activity tracker.\<close>

definition connectLegacy ::
  "('w, 't) manager_env \<Rightarrow> string \<Rightarrow> nat \<Rightarrow> TerminalDimensions \<Rightarrow> ('w, 't, nat) manager"
where
  "connectLegacy E i socket dims =
     (if \<not> compatibilityMode E \<or> \<not> (isSessionId i \<and> isValidDimensions dims) then throw InvalidConnection
      else attach E i socket dims False None)"

definition stopRuntime ::
  "('w, 't) manager_env \<Rightarrow> string \<Rightarrow> nat \<Rightarrow> string \<Rightarrow> ('w, 't, bool) manager"
where
  "stopRuntime E i code why =
     bind (attempt (on_registry (registry_close (m_owners E) i code why))) (\<lambda>a.
     bind (attempt (on_world (rt_kill (m_runtime E) i))) (\<lambda>b.
     ret (a \<noteq> Inr () \<or> b \<noteq> Inr ())))"

definition SESSION_STOPPED :: nat where "SESSION_STOPPED = 4011"
definition SESSION_RESTARTING :: nat where "SESSION_RESTARTING = 4012"
definition BRIDGE_RESTART :: nat where "BRIDGE_RESTART = 4010"

definition fail_with_view :: "('w, 't) manager_env \<Rightarrow> string \<Rightarrow> ('w, 't, 'a) manager" where
  "fail_with_view E i = bind (viewBestEffort E i) (\<lambda>v. throw (OperationFailed v))"

text \<open>Stopped already, with neither a tmux session nor a bridge.\<close>

definition settled :: "('w, 't) manager_env \<Rightarrow> string \<Rightarrow> ('w, 't, bool) manager" where
  "settled E i =
     bind (attempt (on_world (rt_exists (m_runtime E) i))) (\<lambda>r.
     gets (\<lambda>s. r = Inr False \<and> registry_get i s = None))"

definition stop_session :: "('w, 't) manager_env \<Rightarrow> string \<Rightarrow> ('w, 't, TabView) manager" where
  "stop_session E i =
     bind (incrementGeneration i) (\<lambda>_.
     bind (on_store (ts_setDesiredState (m_store E) i Stopped)) (\<lambda>_.
     bind (mark_activity E i) (\<lambda>_.
     bind (stopRuntime E i SESSION_STOPPED ''session_stopped'') (\<lambda>failure.
     if failure then fail_with_view E i else view_now E i))))"

definition terminateLocked :: "('w, 't) manager_env \<Rightarrow> string \<Rightarrow> ('w, 't, TabView) manager" where
  "terminateLocked E i =
     bind (requireLifecycleTab E i) (\<lambda>_.
     bind (requireCurrentRecord E i) (\<lambda>x.
     bind (if desiredState x = Stopped then settled E i else ret False) (\<lambda>finished.
     if finished
     then ret (viewFromRecord x \<lparr>health_state = StoppedSession, attached = False, bridgePid = None\<rparr>)
     else stop_session E i)))"

definition terminate :: "('w, 't) manager_env \<Rightarrow> string \<Rightarrow> ('w, 't, TabView) manager" where
  "terminate E i = terminateLocked E i"

datatype CleanupTerminationResult = Terminated | Skipped CleanupSkipReason

text \<open>The port \<open>CleanupEligibilityReaderPort\<close>: it reads, and asks the runtime.\<close>

type_synonym ('w, 't) eligibility_reader =
  "EligibilityRequest \<Rightarrow> ('w, 't) SessionManager \<Rightarrow> (unit + EligibilitySnapshot) \<times> 'w"

definition ask_reader ::
  "('w, 't) eligibility_reader \<Rightarrow> EligibilityRequest \<Rightarrow> ('w, 't, unit + EligibilitySnapshot) manager"
where
  "ask_reader rd q = (\<lambda>s. case rd q s of (r, w) \<Rightarrow> (Inr r, s\<lparr>world := w\<rparr>))"

definition terminateIfStale ::
  "('w, 't) manager_env \<Rightarrow> ('w, 't) eligibility_reader option \<Rightarrow> string \<Rightarrow> EligibilitySnapshot
   \<Rightarrow> ('w, 't, CleanupTerminationResult) manager"
where
  "terminateIfStale E reader i captured =
     (if \<not> isValidEligibilityCapture i captured then ret (Skipped SkInvalid)
      else if \<not> eligible captured then ret (Skipped (case reason captured of None \<Rightarrow> SkInvalid | Some r \<Rightarrow> r))
      else case reader of
             None \<Rightarrow> ret (Skipped SkDependencyError)
           | Some rd \<Rightarrow>
               bind (ask_reader rd \<lparr>rq_id = i, rq_thresholdMs = el_thresholdMs captured,
                                    rq_cutoffMs = el_cutoffMs captured\<rparr>) (\<lambda>r.
                 case r of
                   Inl _ \<Rightarrow> ret (Skipped SkDependencyError)
                 | Inr fresh \<Rightarrow>
                     if \<not> isValidEligibilityCapture i fresh then ret (Skipped SkDependencyError)
                     else if \<not> eligible fresh
                          then ret (Skipped (case reason fresh of None \<Rightarrow> SkInvalid | Some w \<Rightarrow> w))
                     else if \<not> sameEligibilityGeneration captured fresh then ret (Skipped SkChanged)
                     else bind (terminateLocked E i) (\<lambda>_. ret Terminated)))"

text \<open>Prepare the runtime and record the tab as active; what happens when either fails is an argument.\<close>

definition revive ::
  "('w, 't) manager_env \<Rightarrow> string \<Rightarrow> SessionRuntimeSettings \<Rightarrow> ('w, 't, unit) manager \<Rightarrow> ('w, 't, unit) manager"
where
  "revive E i st failed =
     catch
       (bind (on_world (rt_prepare (m_runtime E) i (Some st))) (\<lambda>_.
        on_store (ts_setDesiredState (m_store E) i Active)))
       (\<lambda>_. bind (quietly (on_world (rt_kill (m_runtime E) i))) (\<lambda>_. failed))"

definition recreate :: "('w, 't) manager_env \<Rightarrow> string \<Rightarrow> ('w, 't, TabView) manager" where
  "recreate E i =
     bind (requireLifecycleTab E i) (\<lambda>_.
     bind (requireCurrentRecord E i) (\<lambda>x.
     if desiredState x \<noteq> Stopped then throw InvalidSessionState
     else
       bind (captureRuntimeSettings E) (\<lambda>st.
       bind (attempt (on_world (rt_exists (m_runtime E) i))) (\<lambda>present.
       if present \<noteq> Inr False then throw InvalidSessionState
       else
         bind (incrementGeneration i) (\<lambda>_.
         bind (revive E i st (throw (OperationFailed None))) (\<lambda>_.
         bind (incrementGeneration i) (\<lambda>_.
         bind (mark_activity E i) (\<lambda>_.
         view_now E i))))))))"

definition restart :: "('w, 't) manager_env \<Rightarrow> string \<Rightarrow> ('w, 't, TabView) manager" where
  "restart E i =
     bind (requireLifecycleTab E i) (\<lambda>_.
     bind (captureRuntimeSettings E) (\<lambda>st.
     bind (incrementGeneration i) (\<lambda>_.
     bind (on_store (ts_setDesiredState (m_store E) i Stopped)) (\<lambda>_.
     bind (stopRuntime E i SESSION_RESTARTING ''session_restarting'') (\<lambda>failure.
     if failure then bind (mark_activity E i) (\<lambda>_. fail_with_view E i)
     else
       bind (revive E i st (bind (mark_activity E i) (\<lambda>_. fail_with_view E i))) (\<lambda>_.
       bind (incrementGeneration i) (\<lambda>_.
       bind (mark_activity E i) (\<lambda>_.
       view_now E i))))))))"

definition restartBridge :: "('w, 't) manager_env \<Rightarrow> string \<Rightarrow> ('w, 't, TabView) manager" where
  "restartBridge E i =
     bind (requireLifecycleTab E i) (\<lambda>_.
     bind (on_registry (registry_close (m_owners E) i BRIDGE_RESTART ''bridge_restart'')) (\<lambda>_.
     bind (mark_activity E i) (\<lambda>_.
     view_now E i)))"

definition closeTab :: "('w, 't) manager_env \<Rightarrow> string \<Rightarrow> ('w, 't, unit) manager" where
  "closeTab E i =
     bind (requireLifecycleTab E i) (\<lambda>_.
     bind (incrementGeneration i) (\<lambda>_.
     bind (on_store (ts_setDesiredState (m_store E) i Stopped)) (\<lambda>_.
     bind (mark_activity E i) (\<lambda>_.
     bind (stopRuntime E i SESSION_STOPPED ''session_stopped'') (\<lambda>failure.
     if failure then fail_with_view E i
     else
       bind (catch (on_store (ts_remove (m_store E) i)) (\<lambda>_. fail_with_view E i)) (\<lambda>_.
       modify (\<lambda>s. s\<lparr>generations := jm_delete (generations s) i\<rparr>)))))))"

end
