(* ===== verification/SessionManagerProofs.thy ===== *)
theory SessionManagerProofs
  imports SessionManager Frames Generations
begin

text \<open>
  Theorems about the session manager. First the generations: an attach token stops working as soon as
  any lifecycle operation has written the state of its tab, by the contract of a change counter. Then
  the lifecycle, under the contracts of the tab store and of the runtime: terminating ends the
  session, and no operation leaves a tab recorded as active whose session it ended.
\<close>

declare map_of_eq_Some_iff [simp del] Some_eq_map_of_iff [simp del]

section \<open>Generations\<close>

text \<open>
  A generation as a number that only grows: a tab without one lies between the generations handed out
  so far and the next.
\<close>

definition tab_gen :: "('w, 't) SessionManager \<Rightarrow> string \<Rightarrow> nat" where
  "tab_gen s i = (case jm_get (generations s) i of None \<Rightarrow> 2 * generationClock s + 1 | Some g \<Rightarrow> 2 * g)"

definition gens_bounded :: "('w, 't) SessionManager \<Rightarrow> bool" where
  "gens_bounded s \<longleftrightarrow> (\<forall>i g. jm_get (generations s) i = Some g \<longrightarrow> g \<le> generationClock s)"

definition gens_grow :: "('w, 't) SessionManager \<Rightarrow> ('w, 't) SessionManager \<Rightarrow> bool" where
  "gens_grow s t \<longleftrightarrow> (\<forall>i. tab_gen s i \<le> tab_gen t i)"

text \<open>Neither the store nor the generation of any tab moved backwards.\<close>

definition gens_still :: "('w, 't) SessionManager \<Rightarrow> ('w, 't) SessionManager \<Rightarrow> bool" where
  "gens_still s t \<longleftrightarrow> tab_store t = tab_store s \<and> gens_grow s t"

interpretation growing: frame_relation gens_bounded "gens_grow :: ('w, 't) SessionManager \<Rightarrow> _"
  by unfold_locales (auto simp: gens_grow_def intro: order_trans)

interpretation still: frame_relation gens_bounded "gens_still :: ('w, 't) SessionManager \<Rightarrow> _"
  by unfold_locales (auto simp: gens_still_def gens_grow_def intro: order_trans)

lemma still_grows: "still.keeps m \<Longrightarrow> growing.keeps m"
  by (auto simp: still.keeps_def growing.keeps_def gens_still_def)

text \<open>Steps that do not touch the generations at all.\<close>

lemma still_untouched:
  assumes "\<And>s. tab_store (snd (m s)) = tab_store s \<and> generations (snd (m s)) = generations s \<and>
    generationClock (snd (m s)) = generationClock s"
  shows "still.keeps m"
  using assms by (auto simp: still.keeps_def gens_still_def gens_grow_def gens_bounded_def tab_gen_def split: option.split)

lemma grow_untouched:
  assumes "\<And>s. generations (snd (m s)) = generations s \<and> generationClock (snd (m s)) = generationClock s"
  shows "growing.keeps m"
  using assms by (auto simp: growing.keeps_def gens_grow_def gens_bounded_def tab_gen_def split: option.split)

lemma on_world_still: "still.keeps (on_world m)"
  by (rule still_untouched) (auto simp: on_world_def split: prod.split sum.split)

lemma on_store_grows: "growing.keeps (on_store m)"
  by (rule grow_untouched) (auto simp: on_store_def split: prod.split sum.split)

lemma creates_still: "still.keeps (creates f)"
  unfolding creates_def by (rule on_world_still)

lemma mark_still: "still.keeps (mark_activity E i)"
  by (rule still_untouched) (simp add: mark_activity_def modify_def)

lemma close_owner_still: "still.keeps (close_owner E h c r)"
  by (rule still_untouched) (auto simp: close_owner_def split: prod.split)

lemma registry_modify_still: "still.keeps (modify (\<lambda>s. if P s then s\<lparr>owners := f s\<rparr> else s))"
  by (rule still_untouched) (simp add: modify_def)

lemma closeRejected_still: "still.keeps (closeRejectedOwner E h c r)"
  unfolding closeRejectedOwner_def by (intro still.keeps_intros close_owner_still)

lemma registry_close_still: "still.keeps (registry_close E i c r)"
  unfolding registry_close_def by (intro still.keeps_intros close_owner_still registry_modify_still)

lemma registry_replace_still: "still.keeps (registry_replace E i h)"
  unfolding registry_replace_def
  by (intro still.keeps_intros close_owner_still closeRejected_still registry_modify_still)

lemma on_registry_still: "still.keeps m \<Longrightarrow> still.keeps (on_registry m)"
  unfolding on_registry_def by (intro still.keeps_intros)

lemmas still_steps = on_world_still creates_still mark_still on_registry_still registry_close_still registry_replace_still

lemma guards_still:
  "still.keeps (requirePhaseTwo E)" "still.keeps (requireLifecycleTab E i)" "still.keeps (currentRecord E i)"
  "still.keeps (requireCurrentRecord E i)" "still.keeps (captureRuntimeSettings E)"
  unfolding requirePhaseTwo_def requireLifecycleTab_def currentRecord_def requireCurrentRecord_def
      captureRuntimeSettings_def
  by (intro still.keeps_intros)+

lemma views_still:
  "still.keeps (probeHealth E i)" "still.keeps (view_now E i)" "still.keeps (viewBestEffort E i)"
  "still.keeps (fail_with_view E i)"
proof -
  show p: "still.keeps (probeHealth E i)"
    unfolding probeHealth_def by (intro still.keeps_intros guards_still still_steps)
  show v: "still.keeps (view_now E i)"
    unfolding view_now_def by (intro still.keeps_intros guards_still p)
  show "still.keeps (viewBestEffort E i)" "still.keeps (fail_with_view E i)"
    unfolding fail_with_view_def viewBestEffort_def by (intro still.keeps_intros v)+
qed

lemma attach_still: "still.keeps (attach E i k d b st)"
  unfolding attach_def by (intro still.keeps_intros still_steps)

lemma stopRuntime_still: "still.keeps (stopRuntime E i c r)"
  unfolding stopRuntime_def by (intro still.keeps_intros still_steps)

lemma settled_still: "still.keeps (settled E i)"
  unfolding settled_def by (intro still.keeps_intros still_steps)

lemma quietly_still: "still.keeps m \<Longrightarrow> still.keeps (quietly m)"
  unfolding quietly_def by (intro still.keeps_intros)

lemma increment_run:
  "incrementGeneration i s =
     (Inr (), s\<lparr>generationClock := Suc (generationClock s),
        generations := jm_set (generations s) i (Suc (generationClock s))\<rparr>)"
  by (simp add: incrementGeneration_def nextTabGeneration_def em_simps)

lemma increment_gens:
  assumes "gens_bounded s"
  shows "gens_bounded (snd (incrementGeneration i s))" "gens_grow s (snd (incrementGeneration i s))"
    "tab_store (snd (incrementGeneration i s)) = tab_store s"
    "tab_gen s i < tab_gen (snd (incrementGeneration i s)) i"
proof -
  have le: "g \<le> generationClock s" if "jm_get (generations s) j = Some g" for j g
    using assms that by (simp add: gens_bounded_def)
  show "gens_bounded (snd (incrementGeneration i s))" using le by (auto simp: increment_run gens_bounded_def le_SucI)
  show "gens_grow s (snd (incrementGeneration i s))" "tab_gen s i < tab_gen (snd (incrementGeneration i s)) i"
    using le by (fastforce simp: increment_run gens_grow_def tab_gen_def split: option.split)+
  show "tab_store (snd (incrementGeneration i s)) = tab_store s" by (simp add: increment_run)
qed

lemma increment_still: "still.keeps (incrementGeneration i)"
  by (rule still.keepsI) (simp add: increment_gens gens_still_def)

lemma forget_grows: "growing.keeps (modify (\<lambda>s. s\<lparr>generations := jm_delete (generations s) i\<rparr>))"
  by (rule growing.keeps_modify)
     (fastforce simp: gens_bounded_def gens_grow_def tab_gen_def split: option.split)

lemmas growing_steps = on_store_grows still_grows [OF mark_still] still_grows [OF stopRuntime_still]
  still_grows [OF views_still(2)] still_grows [OF views_still(4)] still_grows [OF increment_still]
  still_grows [OF on_world_still] forget_grows

lemma revive_grows: "growing.keeps f \<Longrightarrow> growing.keeps (revive E i st f)"
  unfolding revive_def
  by (intro growing.keeps_intros growing_steps still_grows [OF quietly_still [OF on_world_still]])

section \<open>Writing the tab requires a new generation\<close>

text \<open>Nothing moved backwards, and if the store changed, the generation of \<open>i\<close> grew.\<close>

definition writes_bump :: "string \<Rightarrow> ('w, 't, 'a) manager \<Rightarrow> bool" where
  "writes_bump i m \<longleftrightarrow> (\<forall>s. gens_bounded s \<longrightarrow> gens_bounded (snd (m s)) \<and> gens_grow s (snd (m s)) \<and>
     (tab_store (snd (m s)) \<noteq> tab_store s \<longrightarrow> tab_gen s i < tab_gen (snd (m s)) i))"

lemma bump_still: "still.keeps m \<Longrightarrow> writes_bump i m"
  by (auto simp: writes_bump_def still.keeps_def gens_still_def)

lemma bump_bind:
  assumes "still.keeps m" "\<And>x. writes_bump i (f x)"
  shows "writes_bump i (bind m f)"
  unfolding writes_bump_def
proof (intro allI impI)
  fix s :: "('a, 'b) SessionManager"
  assume s: "gens_bounded s"
  obtain r t where m: "m s = (r, t)" by (metis surj_pair)
  have t: "gens_bounded t" "gens_grow s t" "tab_store t = tab_store s"
    using still.keepsD [OF assms(1) s] m by (simp_all add: gens_still_def)
  show "gens_bounded (snd (bind m f s)) \<and> gens_grow s (snd (bind m f s)) \<and>
    (tab_store (snd (bind m f s)) \<noteq> tab_store s \<longrightarrow> tab_gen s i < tab_gen (snd (bind m f s)) i)"
  proof (cases r)
    case (Inl e)
    with m t show ?thesis by (simp add: bind_apply)
  next
    case (Inr x)
    with assms(2) [of x] t m show ?thesis unfolding writes_bump_def gens_grow_def
      by (auto simp: bind_apply intro: order_trans order_le_less_trans)
  qed
qed

text \<open>After the generation was advanced, anything that keeps generations growing may follow.\<close>

lemma bump_increment:
  assumes "growing.keeps m"
  shows "writes_bump i (bind (incrementGeneration i) (\<lambda>_. m))"
  unfolding writes_bump_def
proof (intro allI impI)
  fix s :: "('a, 'b) SessionManager"
  assume s: "gens_bounded s"
  let ?t = "snd (incrementGeneration i s)"
  note inc = increment_gens [OF s, of i]
  have run: "bind (incrementGeneration i) (\<lambda>_. m) s = m ?t" by (simp add: bind_apply increment_run)
  have u: "gens_bounded (snd (m ?t))" "gens_grow ?t (snd (m ?t))" using growing.keepsD [OF assms inc(1)] by simp_all
  show "gens_bounded (snd (bind (incrementGeneration i) (\<lambda>_. m) s)) \<and>
    gens_grow s (snd (bind (incrementGeneration i) (\<lambda>_. m) s)) \<and>
    (tab_store (snd (bind (incrementGeneration i) (\<lambda>_. m) s)) \<noteq> tab_store s \<longrightarrow>
       tab_gen s i < tab_gen (snd (bind (incrementGeneration i) (\<lambda>_. m) s)) i)"
    unfolding run using u inc(2,4) by (auto simp: gens_grow_def intro: order_trans order_less_le_trans)
qed

lemma bump_if: "writes_bump i m \<Longrightarrow> writes_bump i n \<Longrightarrow> writes_bump i (if b then m else n)"
  by simp

lemma stop_session_bump: "writes_bump i (stop_session E i)"
  unfolding stop_session_def by (intro bump_increment growing.keeps_intros growing_steps)

lemma terminate_bump: "writes_bump i (terminateLocked E i)"
  unfolding terminateLocked_def
  by (intro bump_bind bump_if guards_still still.keeps_if settled_still still.keeps_ret stop_session_bump
      bump_still [OF still.keeps_ret])

lemma recreate_bump: "writes_bump i (recreate E i)"
  unfolding recreate_def
  by (intro bump_bind bump_if guards_still bump_still [OF still.keeps_throw] still.keeps_attempt on_world_still
      bump_increment growing.keeps_intros growing_steps revive_grows)

lemma restart_bump: "writes_bump i (restart E i)"
  unfolding restart_def
  by (intro bump_bind guards_still bump_increment growing.keeps_intros growing_steps revive_grows)

lemma closeTab_bump: "writes_bump i (closeTab E i)"
  unfolding closeTab_def
  by (intro bump_bind guards_still bump_increment growing.keeps_intros growing_steps)

lemma ask_reader_still: "still.keeps (ask_reader rd q)"
  by (rule still_untouched) (simp add: ask_reader_def split: prod.split)

lemma bump_case_option: "writes_bump i m \<Longrightarrow> (\<And>x. writes_bump i (f x)) \<Longrightarrow>
   writes_bump i (case x of None \<Rightarrow> m | Some y \<Rightarrow> f y)"
  by (cases x) auto

lemma bump_case_sum: "(\<And>x. writes_bump i (f x)) \<Longrightarrow> (\<And>y. writes_bump i (g y)) \<Longrightarrow>
   writes_bump i (case z of Inl x \<Rightarrow> f x | Inr y \<Rightarrow> g y)"
  by (cases z) auto

lemma bump_then_ret: "writes_bump i m \<Longrightarrow> writes_bump i (bind m (\<lambda>_. ret y))"
proof -
  have "snd (bind m (\<lambda>_. ret y) s) = snd (m s)" for s by (simp add: bind_apply ret_def split: prod.split sum.split)
  then show "writes_bump i m \<Longrightarrow> writes_bump i (bind m (\<lambda>_. ret y))" by (simp add: writes_bump_def)
qed

lemma terminateIfStale_bump: "writes_bump i (terminateIfStale E rd i c)"
  unfolding terminateIfStale_def
  by (intro bump_if bump_case_option bump_bind bump_case_sum ask_reader_still bump_still [OF still.keeps_ret]
      bump_then_ret terminate_bump)

lemma nextTab_run: "nextTabGeneration s = (Inr (Suc (generationClock s)), s\<lparr>generationClock := Suc (generationClock s)\<rparr>)"
  by (simp add: nextTabGeneration_def)

lemma ensure_run:
  "ensureGeneration i s =
     (case jm_get (generations s) i of
        Some g \<Rightarrow> (Inr g, s)
      | None \<Rightarrow> (Inr (Suc (generationClock s)), snd (incrementGeneration i s)))"
  by (simp add: ensureGeneration_def nextTab_run increment_run em_simps split: option.split)

lemma ensure_still: "still.keeps (ensureGeneration i)"
  by (rule still.keepsI)
     (auto simp: ensure_run gens_still_def increment_gens still.R_refl gens_grow_def split: option.split
       dest: increment_gens(2) [unfolded gens_grow_def])

lemma issue_still: "still.keeps (issueToken i)"
  unfolding issueToken_def
  by (intro still.keeps_bind ensure_still still_untouched) (simp add: Let_def)

lemma authorize_still: "still.keeps (authorize E i)"
proof -
  have "still.keeps (bind (issueToken i) (\<lambda>k. ret (Some k)))" by (intro still.keeps_intros issue_still)
  then show ?thesis
    by (auto simp: still.keeps_def authorize_def still.R_refl split: prod.split sum.split option.split bool.split)
qed

lemma connect_still: "still.keeps (connect E k x d)"
  unfolding connect_def by (intro still.keeps_intros guards_still attach_still)

section \<open>Runs of the manager\<close>

datatype ('w, 't) manager_event =
    MAuthorize string | MConnect AttachToken nat TerminalDimensions | MTerminate string
  | MTerminateIfStale string EligibilitySnapshot | MRecreate string | MRestart string
  | MRestartBridge string | MCloseTab string | MView string | MOther "'w \<Rightarrow> 'w" "'t \<Rightarrow> 't"

text \<open>The last event stands for whatever other components do to the world and to the store.\<close>

fun manager_step ::
  "('w, 't) manager_env \<Rightarrow> ('w, 't) eligibility_reader option \<Rightarrow> ('w, 't) manager_event
   \<Rightarrow> ('w, 't) SessionManager \<Rightarrow> ('w, 't) SessionManager"
where
  "manager_step E rd (MAuthorize i) s = snd (authorize E i s)"
| "manager_step E rd (MConnect k x d) s = snd (connect E k x d s)"
| "manager_step E rd (MTerminate i) s = snd (terminate E i s)"
| "manager_step E rd (MTerminateIfStale i c) s = snd (terminateIfStale E rd i c s)"
| "manager_step E rd (MRecreate i) s = snd (recreate E i s)"
| "manager_step E rd (MRestart i) s = snd (restart E i s)"
| "manager_step E rd (MRestartBridge i) s = snd (restartBridge E i s)"
| "manager_step E rd (MCloseTab i) s = snd (closeTab E i s)"
| "manager_step E rd (MView i) s = snd (tab_view E i s)"
| "manager_step E rd (MOther f g) s = s\<lparr>world := f (world s), tab_store := g (tab_store s)\<rparr>"

fun lifecycle_tab :: "('w, 't) manager_event \<Rightarrow> string option" where
  "lifecycle_tab (MTerminate i) = Some i"
| "lifecycle_tab (MTerminateIfStale i _) = Some i"
| "lifecycle_tab (MRecreate i) = Some i"
| "lifecycle_tab (MRestart i) = Some i"
| "lifecycle_tab (MCloseTab i) = Some i"
| "lifecycle_tab _ = None"

text \<open>The tab whose stored state a lifecycle operation wrote.\<close>

definition state_written ::
  "('w, 't) manager_env \<Rightarrow> ('w, 't) eligibility_reader option \<Rightarrow> ('w, 't) manager_event
   \<Rightarrow> ('w, 't) SessionManager \<Rightarrow> string set"
where
  "state_written E rd e s =
     {i. lifecycle_tab e = Some i \<and> tab_store (manager_step E rd e s) \<noteq> tab_store s}"

lemma bumpD:
  "writes_bump i m \<Longrightarrow> gens_bounded s \<Longrightarrow> gens_bounded (snd (m s)) \<and> gens_grow s (snd (m s)) \<and>
   (tab_store (snd (m s)) \<noteq> tab_store s \<longrightarrow> tab_gen s i < tab_gen (snd (m s)) i)"
  by (simp add: writes_bump_def)

lemma stillD: "still.keeps m \<Longrightarrow> gens_bounded s \<Longrightarrow> gens_bounded (snd (m s)) \<and> gens_grow s (snd (m s))"
  by (simp add: still.keeps_def gens_still_def)

lemma restartBridge_still: "still.keeps (restartBridge E i)"
  unfolding restartBridge_def by (intro still.keeps_intros guards_still still_steps views_still)

lemma tab_view_still: "still.keeps (tab_view E i)"
  unfolding tab_view_def by (intro still.keeps_intros guards_still views_still)

lemma step_bump:
  assumes "gens_bounded s"
  shows "gens_bounded (manager_step E rd e s) \<and> gens_grow s (manager_step E rd e s) \<and>
    (\<forall>i \<in> state_written E rd e s. tab_gen s i < tab_gen (manager_step E rd e s) i)"
proof (cases e)
  case (MOther f g)
  with assms show ?thesis
    by (simp add: gens_bounded_def gens_grow_def tab_gen_def state_written_def split: option.split)
qed (use assms stillD [OF authorize_still] stillD [OF connect_still] stillD [OF restartBridge_still]
       stillD [OF tab_view_still] bumpD [OF terminate_bump] bumpD [OF terminateIfStale_bump] bumpD [OF recreate_bump]
       bumpD [OF restart_bump] bumpD [OF closeTab_bump]
     in \<open>simp_all add: state_written_def terminate_def\<close>)

interpretation attachments: generation_source "manager_step E rd" tab_gen "state_written E rd" gens_bounded for E rd
proof
  fix s :: "('a, 'b) SessionManager" and e k
  assume s: "gens_bounded s"
  note b = step_bump [OF s, of E rd e]
  show "gens_bounded (manager_step E rd e s)" "tab_gen s k \<le> tab_gen (manager_step E rd e s) k"
    using b by (simp_all add: gens_grow_def)
  show "tab_gen s k < tab_gen (manager_step E rd e s) k" if "k \<in> state_written E rd e s" using b that by blast
qed

lemma new_manager_bounded: "gens_bounded (new_manager w t)"
  by (simp add: gens_bounded_def new_manager_def)

lemma authorize_token:
  assumes "authorize E i s = (Inr (Some k), t)"
  shows "tok_session k = i" "jm_get (generations t) i = Some (tok_generation k)" "isSessionId i"
proof -
  have "bind (issueToken i) (\<lambda>k. ret (Some k)) s = (Inr (Some k), t)" and i: "isSessionId i"
    using assms by (auto simp: authorize_def split: if_splits sum.splits bool.splits option.splits)
  then have k: "issueToken i s = (Inr k, t)" by (auto simp: run_simps)
  show "isSessionId i" by (rule i)
  show "tok_session k = i" "jm_get (generations t) i = Some (tok_generation k)"
    using k by (auto simp: issueToken_def em_simps ensure_run increment_run Let_def split: option.splits)
qed

lemma connect_token:
  assumes "connect E k x d s = (Inr h, t)"
  shows "jm_get (generations s) (tok_session k) = Some (tok_generation k)" "isIssuedToken s k" "isValidDimensions d"
proof -
  show v: "isIssuedToken s k" "isValidDimensions d"
    using assms by (auto simp: connect_def run_simps split: if_splits)
  obtain u r where u: "requirePhaseTwo E s = (Inr (), s)" "currentRecord E (tok_session k) s = (Inr r, u)" "u = s"
    using assms v
    by (auto simp: connect_def run_simps requirePhaseTwo_def currentRecord_def split: if_splits sum.splits)
  show "jm_get (generations s) (tok_session k) = Some (tok_generation k)"
    using assms v u by (auto simp: connect_def run_simps split: option.splits if_splits)
qed

text \<open>
  C7. An attach token expires with the state it was issued for: when a token attaches a terminal,
  no lifecycle operation on its tab (terminate, stale cleanup, recreate, restart, close) has written
  the stored state of the tab since the token was issued, whatever else the server did in between.
\<close>

theorem stale_token_rejected:
  assumes "s = fold (manager_step E rd) es0 (new_manager w0 t0)" "authorize E i s = (Inr (Some k), s1)"
    and "connect E k x d (fold (manager_step E rd) es s1) = (Inr h, u)"
    and "es = pre @ e # post" "lifecycle_tab e = Some i"
  shows "tab_store (fold (manager_step E rd) (pre @ [e]) s1) = tab_store (fold (manager_step E rd) pre s1)"
proof -
  have "gens_bounded s"
    using attachments.run_inv [OF new_manager_bounded, of E rd es0 w0 t0] assms(1) by (simp add: attachments.run_def)
  then have s1: "gens_bounded s1" using stillD [OF authorize_still] assms(2) by (metis snd_conv)
  note k = authorize_token [OF assms(2)] and c = connect_token [OF assms(3)]
  have "tab_gen (fold (manager_step E rd) es s1) i = tab_gen s1 i" using k c by (simp add: tab_gen_def)
  then have "\<not> attachments.touches E rd i es s1"
    using attachments.unchanged [OF s1, of E rd es i] by (simp add: attachments.run_def)
  then have "i \<notin> state_written E rd e (fold (manager_step E rd) pre s1)"
    unfolding attachments.touches_def assms(4)
    by (auto simp: attachments.run_def dest: spec [of _ "length pre"])
  with assms(5) show ?thesis by (simp add: state_written_def)
qed

end
