(* ===== verification/SessionLifecycle.thy ===== *)
theory SessionLifecycle
  imports SessionManagerProofs
begin

text \<open>
  The lifecycle of sessions under the contracts of the tab store and of the runtime. The locale
  \<open>session_backend\<close> combines the two contracts and adds that closing or creating a bridge neither
  starts nor ends a tmux session. Inside it every operation of the manager is shown to touch one tab
  only and to keep recorded and actual state together. The theory \<open>SessionProperties\<close> instantiates it with
  the tab store and the tmux preparer of the server.
\<close>

declare map_of_eq_Some_iff [simp del] Some_eq_map_of_iff [simp del]

locale session_backend =
  session_tab_store S doc tabs_valid + session_runtime R alive runtime_ok
  for S :: "'t SessionTabStore" and doc :: "'t \<Rightarrow> TabDocument option" and tabs_valid :: "'t \<Rightarrow> bool"
    and R :: "'w SessionRuntimeController" and alive :: "'w \<Rightarrow> string \<Rightarrow> bool" and runtime_ok :: bool +
  fixes E :: "('w, 't) manager_env" and wired :: bool
  assumes backend_store: "wired \<Longrightarrow> m_store E = S"
    and backend_runtime: "wired \<Longrightarrow> m_runtime E = R"
    and backend_ok: "wired \<Longrightarrow> runtime_ok"
    and close_neutral: "wired \<Longrightarrow> alive (snd (owner_close (m_owners E) h c r w)) j = alive w j"
    and spawn_neutral: "wired \<Longrightarrow> alive (snd (m_spawn E sp dims w)) j = alive w j"
    and bridge_neutral: "wired \<Longrightarrow> alive (snd (m_bridge E i socket pty w)) j = alive w j"
begin

text \<open>Only tab \<open>i\<close> may have changed since \<open>s0\<close>, the store is valid, and \<open>A\<close> holds.\<close>

definition only :: "string \<Rightarrow> ('w, 't) SessionManager \<Rightarrow> (('w, 't) SessionManager \<Rightarrow> bool) \<Rightarrow> ('w, 't) SessionManager \<Rightarrow> bool" where
  "only i s0 A s \<longleftrightarrow> tabs_valid (tab_store s) \<and> A s \<and>
     (\<forall>j st. j \<noteq> i \<longrightarrow> wants st (doc (tab_store s)) j = wants st (doc (tab_store s0)) j \<and>
        alive (world s) j = alive (world s0) j)"

text \<open>If wanted active, then alive; \<open>p\<close> makes room for a tab that was not so to begin with.\<close>

definition backed :: "bool \<Rightarrow> string \<Rightarrow> ('w, 't) SessionManager \<Rightarrow> bool" where
  "backed p i s \<longleftrightarrow> p \<or> (wants Active (doc (tab_store s)) i \<longrightarrow> alive (world s) i)"

definition idle :: "string \<Rightarrow> ('w, 't) SessionManager \<Rightarrow> bool" where
  "idle i s \<longleftrightarrow> \<not> wants Active (doc (tab_store s)) i"

lemma idle_backed: "only i s0 (idle i) s \<Longrightarrow> only i s0 (backed p i) s"
  by (simp add: only_def idle_def backed_def)

text \<open>Steps that leave the store and the live sessions alone.\<close>

definition harmless :: "('w, 't) SessionManager \<Rightarrow> ('w, 't) SessionManager \<Rightarrow> bool" where
  "harmless s t \<longleftrightarrow> tab_store t = tab_store s \<and> alive (world t) = alive (world s)"

definition harmless_prog :: "(('w, 't) SessionManager, 'e, 'a) em \<Rightarrow> bool" where
  "harmless_prog m \<longleftrightarrow> (\<forall>s. harmless s (snd (m s)))"

lemma harmless_only: "harmless s t \<Longrightarrow> only i s0 (backed p i) s \<Longrightarrow> only i s0 (backed p i) t"
  "harmless s t \<Longrightarrow> only i s0 (idle i) s \<Longrightarrow> only i s0 (idle i) t"
  by (simp_all add: harmless_def only_def backed_def idle_def)

lemma harmless_bind: "harmless_prog m \<Longrightarrow> (\<And>x. harmless_prog (f x)) \<Longrightarrow> harmless_prog (bind m f)"
  unfolding harmless_prog_def harmless_def bind_apply by (auto split: prod.split sum.split) (metis snd_conv)+

lemma harmless_catch: "harmless_prog m \<Longrightarrow> (\<And>e. harmless_prog (h e)) \<Longrightarrow> harmless_prog (catch m h)"
  unfolding harmless_prog_def harmless_def catch_apply by (auto split: prod.split sum.split) (metis snd_conv)+

lemma harmless_attempt: "harmless_prog m \<Longrightarrow> harmless_prog (attempt m)"
  unfolding harmless_prog_def harmless_def attempt_apply by (auto split: prod.split) (metis snd_conv)+

lemma harmless_basic: "harmless_prog (ret x)" "harmless_prog (throw e)" "harmless_prog (gets f)"
  by (simp_all add: harmless_prog_def harmless_def ret_def throw_def gets_def)

lemma harmless_if: "harmless_prog m \<Longrightarrow> harmless_prog n \<Longrightarrow> harmless_prog (if b then m else n)"
  by simp

lemma harmless_option: "harmless_prog m \<Longrightarrow> (\<And>x. harmless_prog (f x)) \<Longrightarrow>
    harmless_prog (case z of None \<Rightarrow> m | Some x \<Rightarrow> f x)"
  by (cases z) auto

lemma harmless_sum: "(\<And>x. harmless_prog (f x)) \<Longrightarrow> (\<And>x. harmless_prog (g x)) \<Longrightarrow>
    harmless_prog (case z of Inl x \<Rightarrow> f x | Inr x \<Rightarrow> g x)"
  by (cases z) auto

lemma harmless_prod: "(\<And>a b. harmless_prog (f a b)) \<Longrightarrow> harmless_prog (case z of (a, b) \<Rightarrow> f a b)"
  by (cases z) auto

lemmas harmless_intros = harmless_bind harmless_catch harmless_attempt harmless_basic harmless_if harmless_option
  harmless_sum harmless_prod

lemma harmless_mark: "harmless_prog (mark_activity E' i)"
  by (simp add: harmless_prog_def harmless_def mark_activity_def modify_def)

lemma harmless_increment: "harmless_prog (incrementGeneration i)"
  by (simp add: harmless_prog_def harmless_def increment_run)

lemma harmless_close: "wired \<Longrightarrow> harmless_prog (close_owner (m_owners E) h c r)"
  using close_neutral
  by (auto simp: harmless_prog_def harmless_def close_owner_def fun_eq_iff split: prod.split) (metis snd_conv)+

lemma harmless_owners: "harmless_prog (modify (\<lambda>s. if P s then s\<lparr>owners := f s\<rparr> else s))"
  by (simp add: harmless_prog_def harmless_def modify_def)

lemma harmless_registry_close: "wired \<Longrightarrow> harmless_prog (registry_close (m_owners E) i c r)"
  unfolding registry_close_def by (intro harmless_intros harmless_close harmless_owners)

lemma harmless_registry_replace: "wired \<Longrightarrow> harmless_prog (registry_replace (m_owners E) i h)"
  unfolding registry_replace_def closeRejectedOwner_def by (intro harmless_intros harmless_close harmless_owners)

lemma harmless_on_registry: "harmless_prog m \<Longrightarrow> harmless_prog (on_registry m)"
  unfolding on_registry_def by (intro harmless_intros)

lemma harmless_creates: "(\<And>w j. alive (snd (f w)) j = alive w j) \<Longrightarrow> harmless_prog (creates f)"
  by (auto simp: harmless_prog_def harmless_def creates_def on_world_def fun_eq_iff split: prod.split sum.split option.split)
     (metis snd_conv)+

lemma harmless_exists: "wired \<Longrightarrow> harmless_prog (on_world (rt_exists (m_runtime E) i))"
  using exists_law backend_ok backend_runtime
  by (auto simp: harmless_prog_def harmless_def on_world_def fun_eq_iff split: prod.split sum.split)

lemma harmless_guards:
  "harmless_prog (requirePhaseTwo E)" "harmless_prog (requireLifecycleTab E i)" "harmless_prog (currentRecord E i)"
  "harmless_prog (requireCurrentRecord E i)" "harmless_prog (captureRuntimeSettings E)"
  unfolding requirePhaseTwo_def requireLifecycleTab_def currentRecord_def requireCurrentRecord_def captureRuntimeSettings_def
  by (intro harmless_intros)+

lemma harmless_views:
  assumes wired
  shows "harmless_prog (view_now E i)" "harmless_prog (fail_with_view E i)"
  unfolding view_now_def fail_with_view_def viewBestEffort_def probeHealth_def
  by (intro harmless_intros harmless_guards harmless_exists assms)+

lemma harmless_settled: "wired \<Longrightarrow> harmless_prog (settled E i)"
  unfolding settled_def by (intro harmless_intros harmless_exists)

section \<open>Triples\<close>

lemma harmless_triple:
  assumes "harmless_prog m"
  shows "triple (only i s0 (backed p i)) m (\<lambda>_. only i s0 (backed p i)) (\<lambda>_. only i s0 (backed p i))"
    "triple (only i s0 (idle i)) m (\<lambda>_. only i s0 (idle i)) (\<lambda>_. only i s0 (idle i))"
proof -
  have "harmless s t" if "m s = (r, t)" for s r t using assms that by (metis harmless_prog_def snd_conv)
  then show "triple (only i s0 (backed p i)) m (\<lambda>_. only i s0 (backed p i)) (\<lambda>_. only i s0 (backed p i))"
    "triple (only i s0 (idle i)) m (\<lambda>_. only i s0 (idle i)) (\<lambda>_. only i s0 (idle i))"
    using harmless_only by (intro tripleI; fastforce split: sum.split)+
qed

lemma idle_triple:
  assumes "triple (only i s0 (idle i)) m (\<lambda>_. only i s0 (idle i)) (\<lambda>_. only i s0 (idle i))"
  shows "triple (only i s0 (idle i)) m (\<lambda>_. only i s0 (backed p i)) (\<lambda>_. only i s0 (backed p i))"
  by (rule triple_weaken [OF assms]) (auto intro: idle_backed)

end

context session_backend
begin

lemma on_world_run:
  assumes "on_world m s = (r, t)"
  obtains q w where "m (world s) = (q, w)" "t = s\<lparr>world := w\<rparr>" "\<And>x. r = Inr x \<longleftrightarrow> q = Inr x"
  using assms by (cases "m (world s)") (auto simp: on_world_def split: sum.splits)

lemma on_store_run:
  assumes "on_store m s = (r, t)"
  obtains q u where "m (tab_store s) = (q, u)" "t = s\<lparr>tab_store := u\<rparr>" "\<And>x. r = Inr x \<longleftrightarrow> q = Inr x"
  using assms by (cases "m (tab_store s)") (auto simp: on_store_def split: sum.splits)

lemma kill_idle:
  assumes wired
  shows "triple (only i s0 (idle i)) (on_world (rt_kill (m_runtime E) i)) (\<lambda>_. only i s0 (idle i)) (\<lambda>_. only i s0 (idle i))"
proof (rule tripleI)
  fix s r t
  assume s: "only i s0 (idle i) s" and run: "on_world (rt_kill (m_runtime E) i) s = (r, t)"
  from run obtain q w where w: "rt_kill R i (world s) = (q, w)" "t = s\<lparr>world := w\<rparr>"
    using backend_runtime [OF assms] by (auto elim: on_world_run)
  from kill_law [OF backend_ok [OF assms] w(1)] s w(2) have "only i s0 (idle i) t" by (simp add: only_def idle_def)
  then show "case r of Inl e \<Rightarrow> only i s0 (idle i) t | Inr x \<Rightarrow> only i s0 (idle i) t" by (simp split: sum.split)
qed

lemma prepare_triple:
  assumes wired
  shows "triple (only i s0 (backed p i)) (on_world (rt_prepare (m_runtime E) i st)) (\<lambda>_. only i s0 (backed p i)) (\<lambda>_. only i s0 (backed p i))"
    "triple (only i s0 (idle i)) (on_world (rt_prepare (m_runtime E) i st))
       (\<lambda>_. only i s0 (\<lambda>s. idle i s \<and> alive (world s) i)) (\<lambda>_. only i s0 (idle i))"
proof -
  have law: "(r = Inr x \<longrightarrow> alive (world t) i) \<and> (alive (world s) i \<longrightarrow> alive (world t) i) \<and> tab_store t = tab_store s \<and>
      (\<forall>j. j \<noteq> i \<longrightarrow> alive (world t) j = alive (world s) j)"
    if "on_world (rt_prepare (m_runtime E) i st) s = (r, t)" for s r t x
  proof -
    from that obtain q w where w: "rt_prepare R i st (world s) = (q, w)" "t = s\<lparr>world := w\<rparr>" "\<And>x. r = Inr x \<longleftrightarrow> q = Inr x"
      using backend_runtime [OF assms] by (auto elim: on_world_run)
    from prepare_law [OF backend_ok [OF assms] w(1)] w(2,3) show ?thesis by simp
  qed
  show "triple (only i s0 (backed p i)) (on_world (rt_prepare (m_runtime E) i st)) (\<lambda>_. only i s0 (backed p i)) (\<lambda>_. only i s0 (backed p i))"
    by (rule tripleI) (use law in \<open>fastforce simp: only_def backed_def split: sum.split\<close>)
  show "triple (only i s0 (idle i)) (on_world (rt_prepare (m_runtime E) i st))
       (\<lambda>_. only i s0 (\<lambda>s. idle i s \<and> alive (world s) i)) (\<lambda>_. only i s0 (idle i))"
    by (rule tripleI) (use law in \<open>fastforce simp: only_def idle_def split: sum.split\<close>)
qed

lemma stop_triple:
  assumes wired
  shows "triple (only i s0 (backed p i)) (on_store (ts_setDesiredState (m_store E) i Stopped))
     (\<lambda>_. only i s0 (idle i)) (\<lambda>_. only i s0 (backed p i))"
proof (rule tripleI)
  fix s r t
  assume s: "only i s0 (backed p i) s" and run: "on_store (ts_setDesiredState (m_store E) i Stopped) s = (r, t)"
  from run obtain q u where u: "ts_setDesiredState S i Stopped (tab_store s) = (q, u)" "t = s\<lparr>tab_store := u\<rparr>"
    "\<And>x. r = Inr x \<longleftrightarrow> q = Inr x" using backend_store [OF assms] by (auto elim: on_store_run)
  have v: "tabs_valid (tab_store s)" using s by (simp add: only_def)
  note law = set_law [OF v u(1)]
  show "case r of Inl e \<Rightarrow> only i s0 (backed p i) t | Inr x \<Rightarrow> only i s0 (idle i) t"
  proof (cases r)
    case (Inl e)
    then obtain e' where "q = Inl e'" using u(3) by (cases q) auto
    with law s u(2) Inl show ?thesis by (simp add: only_def backed_def)
  next
    case (Inr x)
    then have "ts_setDesiredState S i Stopped (tab_store s) = (Inr (), u)" using u by simp
    note w = wants_after_set [OF v this]
    from law w(2,3) s u(2) Inr show ?thesis by (auto simp: only_def idle_def)
  qed
qed

lemma activate_triple:
  assumes wired
  shows "triple (only i s0 (\<lambda>s. idle i s \<and> alive (world s) i)) (on_store (ts_setDesiredState (m_store E) i Active))
     (\<lambda>_. only i s0 (backed p i)) (\<lambda>_. only i s0 (idle i))"
proof (rule tripleI)
  fix s r t
  assume s: "only i s0 (\<lambda>s. idle i s \<and> alive (world s) i) s"
    and run: "on_store (ts_setDesiredState (m_store E) i Active) s = (r, t)"
  from run obtain q u where u: "ts_setDesiredState S i Active (tab_store s) = (q, u)" "t = s\<lparr>tab_store := u\<rparr>"
    "\<And>x. r = Inr x \<longleftrightarrow> q = Inr x" using backend_store [OF assms] by (auto elim: on_store_run)
  have v: "tabs_valid (tab_store s)" using s by (simp add: only_def)
  note law = set_law [OF v u(1)]
  show "case r of Inl e \<Rightarrow> only i s0 (idle i) t | Inr x \<Rightarrow> only i s0 (backed p i) t"
  proof (cases r)
    case (Inl e)
    then obtain e' where "q = Inl e'" using u(3) by (cases q) auto
    with law s u(2) Inl show ?thesis by (simp add: only_def idle_def)
  next
    case (Inr x)
    then have "ts_setDesiredState S i Active (tab_store s) = (Inr (), u)" using u by simp
    note w = wants_after_set [OF v this]
    from law w(2) s u(2) Inr show ?thesis by (auto simp: only_def backed_def)
  qed
qed

lemma remove_idle:
  assumes wired
  shows "triple (only i s0 (idle i)) (on_store (ts_remove (m_store E) i)) (\<lambda>_. only i s0 (idle i)) (\<lambda>_. only i s0 (idle i))"
proof (rule tripleI)
  fix s r t
  assume s: "only i s0 (idle i) s" and run: "on_store (ts_remove (m_store E) i) s = (r, t)"
  from run obtain q u where u: "ts_remove S i (tab_store s) = (q, u)" "t = s\<lparr>tab_store := u\<rparr>"
    using backend_store [OF assms] by (auto elim: on_store_run)
  have v: "tabs_valid (tab_store s)" using s by (simp add: only_def)
  note law = remove_law [OF v u(1)]
  have "only i s0 (idle i) t"
  proof (cases q)
    case (Inl e)
    with law s u(2) show ?thesis by (simp add: only_def idle_def)
  next
    case (Inr x)
    then have "ts_remove S i (tab_store s) = (Inr (), u)" using u by simp
    note w = wants_after_remove [OF v this]
    from law w s u(2) Inr show ?thesis by (auto simp: only_def idle_def)
  qed
  then show "case r of Inl e \<Rightarrow> only i s0 (idle i) t | Inr x \<Rightarrow> only i s0 (idle i) t" by (simp split: sum.split)
qed

lemma stopRuntime_idle:
  assumes wired
  shows "triple (only i s0 (idle i)) (stopRuntime E i c r) (\<lambda>_. only i s0 (idle i)) (\<lambda>_. only i s0 (idle i))"
  unfolding stopRuntime_def
  by (rule triple_bind [OF triple_attempt [OF harmless_triple(2)]])
     (intro harmless_on_registry harmless_registry_close assms,
      rule triple_bind [OF triple_attempt [OF kill_idle [OF assms]]], rule triple_ret, assumption)

lemma revive_triple:
  assumes wired "triple (only i s0 (idle i)) f (\<lambda>_. only i s0 (backed p i)) (\<lambda>_. only i s0 (backed p i))"
  shows "triple (only i s0 (idle i)) (revive E i st f) (\<lambda>_. only i s0 (backed p i)) (\<lambda>_. only i s0 (backed p i))"
  unfolding revive_def quietly_def
  by (rule triple_catch [OF triple_bind [OF prepare_triple(2) [OF assms(1)] activate_triple [OF assms(1)]]],
      rule triple_bind [OF triple_bind [OF triple_attempt [OF kill_idle [OF assms(1)]]]])
     (rule triple_ret, assumption, rule assms(2))

lemmas harmless_then = triple_bind [OF harmless_triple(1)]

lemma stop_session_triple:
  assumes wired
  shows "triple (only i s0 (backed p i)) (stop_session E i) (\<lambda>_. only i s0 (backed p i)) (\<lambda>_. only i s0 (backed p i))"
proof -
  have rest: "triple (only i s0 (idle i)) (bind (mark_activity E i) (\<lambda>_.
      bind (stopRuntime E i SESSION_STOPPED ''session_stopped'') (\<lambda>failure.
      if failure then fail_with_view E i else view_now E i))) (\<lambda>_. only i s0 (idle i)) (\<lambda>_. only i s0 (idle i))"
    by (rule triple_bind [OF harmless_triple(2) [OF harmless_mark]], rule triple_bind [OF stopRuntime_idle [OF assms]],
        rule harmless_triple(2), intro harmless_if harmless_views assms)
  show ?thesis unfolding stop_session_def
    by (rule harmless_then [OF harmless_increment], rule triple_bind [OF stop_triple [OF assms]],
        rule idle_triple [OF rest])
qed

lemma terminate_triple:
  assumes wired
  shows "triple (only i s0 (backed p i)) (terminateLocked E i) (\<lambda>_. only i s0 (backed p i)) (\<lambda>_. only i s0 (backed p i))"
  unfolding terminateLocked_def
  by (rule harmless_then, rule harmless_guards, rule harmless_then, rule harmless_guards, rule harmless_then,
      intro harmless_if harmless_settled harmless_basic assms, rule triple_if,
      rule harmless_triple(1), rule harmless_basic, rule stop_session_triple [OF assms])

end

context session_backend
begin

lemma current_record_run:
  assumes wired "requireCurrentRecord E i s = (Inr x, t)"
  shows "t = s" "\<exists>d. doc (tab_store s) = Some d \<and> x \<in> set (tabs d) \<and> tab_id x = i"
proof -
  have run: "currentRecord E i s = (Inr (Some x), t)"
    using assms(2) by (auto simp: requireCurrentRecord_def run_simps split: option.splits)
  then have "t = s \<and> (\<exists>d. ts_snapshot S (tab_store s) = Inr d \<and> findRecord d i = Some x)"
    using backend_store [OF assms(1)]
    by (auto simp: currentRecord_def run_simps split: if_splits sum.splits)
  then show "t = s" "\<exists>d. doc (tab_store s) = Some d \<and> x \<in> set (tabs d) \<and> tab_id x = i"
    by (auto simp: snapshot_law findRecord_def split: option.splits dest: find_SomeD)
qed

lemma record_state:
  assumes "tabs_valid (tab_store s)" "doc (tab_store s) = Some d" "x \<in> set (tabs d)" "tab_id x = i"
  shows "wants st (doc (tab_store s)) i \<longleftrightarrow> desiredState x = st"
proof -
  have "y = x" if "y \<in> set (tabs d)" "tab_id y = i" for y
  proof -
    have "inj_on tab_id (set (tabs d))" using distinct_law [OF assms(1,2)] by (simp add: distinct_map)
    then show ?thesis using that assms(3,4) by (metis inj_onD)
  qed
  then have "\<And>y. y \<in> set (tabs d) \<and> tab_id y = i \<longleftrightarrow> y = x" using assms(3,4) by blast
  then have "(\<exists>y. y \<in> set (tabs d) \<and> tab_id y = i \<and> desiredState y = st) \<longleftrightarrow> desiredState x = st" by metis
  then show ?thesis unfolding wants_def assms(2) by simp
qed

lemma record_triple:
  assumes wired
    and active: "\<And>x. desiredState x \<noteq> Stopped \<Longrightarrow>
      triple (only i s0 (backed p i)) (f x) (\<lambda>_. only i s0 (backed p i)) (\<lambda>_. only i s0 (backed p i))"
    and stopped: "\<And>x. desiredState x = Stopped \<Longrightarrow>
      triple (only i s0 (idle i)) (f x) (\<lambda>_. only i s0 (backed p i)) (\<lambda>_. only i s0 (backed p i))"
  shows "triple (only i s0 (backed p i)) (bind (requireCurrentRecord E i) f) (\<lambda>_. only i s0 (backed p i)) (\<lambda>_. only i s0 (backed p i))"
proof (rule tripleI)
  fix s r t
  assume s: "only i s0 (backed p i) s" and run: "bind (requireCurrentRecord E i) f s = (r, t)"
  obtain q u where q: "requireCurrentRecord E i s = (q, u)" by (metis surj_pair)
  show "case r of Inl e \<Rightarrow> only i s0 (backed p i) t | Inr x \<Rightarrow> only i s0 (backed p i) t"
  proof (cases q)
    case (Inl e)
    have "harmless s u" using harmless_guards(4) q by (metis harmless_prog_def snd_conv)
    with s Inl run q harmless_only show ?thesis by (auto simp: bind_apply)
  next
    case (Inr x)
    note x = current_record_run [OF assms(1) q [unfolded Inr]]
    then have fx: "f x s = (r, t)" using run q Inr by (simp add: bind_apply)
    show ?thesis
    proof (cases "desiredState x = Stopped")
      case True
      from x obtain d where "doc (tab_store s) = Some d" "x \<in> set (tabs d)" "tab_id x = i" by auto
      then have "only i s0 (idle i) s" using s True record_state [of s d x i Active] by (auto simp: only_def idle_def)
      with stopped [OF True] fx show ?thesis by (cases r) (auto dest: tripleD_Inl tripleD_Inr)
    next
      case False
      from active [OF False] s fx show ?thesis by (cases r) (auto dest: tripleD_Inl tripleD_Inr)
    qed
  qed
qed

abbreviation keeps_backed :: "bool \<Rightarrow> string \<Rightarrow> ('w, 't) SessionManager \<Rightarrow> ('w, 't, 'a) manager \<Rightarrow> bool" where
  "keeps_backed p i s0 m \<equiv> triple (only i s0 (backed p i)) m (\<lambda>_. only i s0 (backed p i)) (\<lambda>_. only i s0 (backed p i))"

lemmas idle_then = triple_bind [OF harmless_triple(2)]

lemma recreate_triple:
  assumes wired
  shows "keeps_backed p i s0 (recreate E i)"
proof -
  let ?fin = "bind (incrementGeneration i) (\<lambda>_. bind (mark_activity E i) (\<lambda>_. view_now E i))"
  have fin: "keeps_backed p i s0 ?fin"
    by (rule harmless_triple(1)) (intro harmless_intros harmless_increment harmless_mark harmless_views assms)
  have failed: "triple (only i s0 (idle i)) (throw (OperationFailed None)) (\<lambda>_. only i s0 (backed p i)) (\<lambda>_. only i s0 (backed p i))"
    by (rule idle_triple [OF harmless_triple(2) [OF harmless_basic(2)]])
  have weak: "triple (only i s0 (idle i)) m (\<lambda>_. only i s0 (idle i)) (\<lambda>_. only i s0 (backed p i))" if "harmless_prog m"
    for m :: "('w, 't, 'b) manager"
    by (rule triple_weaken [OF harmless_triple(2) [OF that]]) (auto intro: idle_backed)
  have body: "triple (only i s0 (idle i)) (bind (captureRuntimeSettings E) (\<lambda>st.
       bind (attempt (on_world (rt_exists (m_runtime E) i))) (\<lambda>present.
       if present \<noteq> Inr False then throw InvalidSessionState
       else bind (incrementGeneration i) (\<lambda>_. bind (revive E i st (throw (OperationFailed None))) (\<lambda>_. ?fin)))))
      (\<lambda>_. only i s0 (backed p i)) (\<lambda>_. only i s0 (backed p i))"
    by (rule triple_bind [OF weak [OF harmless_guards(5)]], rule triple_bind [OF weak],
        intro harmless_intros harmless_exists assms, rule triple_if, rule idle_triple [OF harmless_triple(2) [OF harmless_basic(2)]],
        rule triple_bind [OF weak [OF harmless_increment]], rule triple_bind [OF revive_triple [OF assms failed]], rule fin)
  show ?thesis unfolding recreate_def
    by (rule harmless_then, rule harmless_guards, rule record_triple [OF assms])
       (simp_all add: body harmless_triple(1) [OF harmless_basic(2)])
qed

lemma restart_triple:
  assumes wired
  shows "keeps_backed p i s0 (restart E i)"
proof -
  have fin: "keeps_backed p i s0 (bind (incrementGeneration i) (\<lambda>_. bind (mark_activity E i) (\<lambda>_. view_now E i)))"
    by (rule harmless_triple(1)) (intro harmless_intros harmless_increment harmless_mark harmless_views assms)
  have fail: "triple (only i s0 (idle i)) (bind (mark_activity E i) (\<lambda>_. fail_with_view E i :: ('w, 't, 'b) manager))
      (\<lambda>_. only i s0 (backed p i)) (\<lambda>_. only i s0 (backed p i))"
    by (rule idle_triple [OF harmless_triple(2)]) (intro harmless_intros harmless_mark harmless_views assms)
  have stop: "triple (only i s0 (idle i)) (stopRuntime E i c why) (\<lambda>_. only i s0 (idle i)) (\<lambda>_. only i s0 (backed p i))" for c why
    by (rule triple_weaken [OF stopRuntime_idle [OF assms]]) (auto intro: idle_backed)
  have fail': "triple (only i s0 (idle i)) (bind (mark_activity E i) (\<lambda>_. fail_with_view E i :: ('w, 't, unit) manager))
      (\<lambda>_. only i s0 (backed p i)) (\<lambda>_. only i s0 (backed p i))"
    by (rule idle_triple [OF harmless_triple(2)]) (intro harmless_intros harmless_mark harmless_views assms)
  show ?thesis unfolding restart_def
    by (rule harmless_then, rule harmless_guards, rule harmless_then, rule harmless_guards,
        rule harmless_then, rule harmless_increment, rule triple_bind [OF stop_triple [OF assms]],
        rule triple_bind [OF stop], rule triple_if, rule fail,
        rule triple_bind [OF revive_triple [OF assms fail']], rule fin)
qed

lemma closeTab_triple:
  assumes wired
  shows "keeps_backed p i s0 (closeTab E i)"
proof -
  have forget: "harmless_prog (modify (\<lambda>s. s\<lparr>generations := jm_delete (generations s) i\<rparr>) :: ('w, 't, unit) manager)"
    by (simp add: harmless_prog_def harmless_def modify_def)
  have rest: "triple (only i s0 (idle i)) (bind (mark_activity E i) (\<lambda>_.
     bind (stopRuntime E i SESSION_STOPPED ''session_stopped'') (\<lambda>failure.
     if failure then fail_with_view E i
     else bind (catch (on_store (ts_remove (m_store E) i)) (\<lambda>_. fail_with_view E i)) (\<lambda>_.
       modify (\<lambda>s. s\<lparr>generations := jm_delete (generations s) i\<rparr>))))) (\<lambda>_. only i s0 (idle i)) (\<lambda>_. only i s0 (idle i))"
    by (rule idle_then [OF harmless_mark], rule triple_bind [OF stopRuntime_idle [OF assms]], rule triple_if,
        rule harmless_triple(2), rule harmless_views [OF assms], rule triple_bind [OF triple_catch [OF remove_idle [OF assms]]],
        rule harmless_triple(2), rule harmless_views [OF assms], rule harmless_triple(2), rule forget)
  show ?thesis unfolding closeTab_def
    by (rule harmless_then, rule harmless_guards, rule harmless_then, rule harmless_increment,
        rule triple_bind [OF stop_triple [OF assms]], rule idle_triple [OF rest])
qed

lemma restartBridge_triple: "wired \<Longrightarrow> keeps_backed p i s0 (restartBridge E i)"
  unfolding restartBridge_def
  by (rule harmless_triple(1))
     (intro harmless_intros harmless_guards harmless_on_registry harmless_registry_close harmless_mark harmless_views)

lemma attach_triple:
  assumes wired
  shows "keeps_backed p i s0 (attach E i x d b st)"
  unfolding attach_def
  by (rule triple_bind [OF prepare_triple(1) [OF assms]], rule harmless_triple(1))
     (intro harmless_intros harmless_on_registry harmless_registry_close harmless_registry_replace harmless_mark
        harmless_creates spawn_neutral bridge_neutral assms)

lemma connect_triple:
  assumes wired
  shows "keeps_backed p (tok_session k) s0 (connect E k x d)"
  unfolding connect_def
  by (rule harmless_then [OF harmless_basic(3)], rule triple_if, rule harmless_triple(1), rule harmless_basic, rule triple_if,
      rule harmless_triple(1), rule harmless_basic, rule harmless_then, rule harmless_guards, rule harmless_then,
      rule harmless_guards, rule harmless_then, rule harmless_basic)
     (auto split: option.split intro: harmless_triple(1) [OF harmless_basic(2)] harmless_then [OF harmless_guards(5)]
        attach_triple [OF assms])

end

context session_backend
begin

lemma terminateIfStale_triple:
  assumes wired and reader: "\<And>rd q s j. reader = Some rd \<Longrightarrow> alive (snd (rd q s)) j = alive (world s) j"
  shows "keeps_backed p i s0 (terminateIfStale E reader i c)"
proof -
  have ask: "harmless_prog (ask_reader rd q)" if "reader = Some rd" for rd q
    using reader [OF that]
    by (auto simp: harmless_prog_def harmless_def ask_reader_def fun_eq_iff split: prod.split) (metis snd_conv)+
  have skip: "keeps_backed p i s0 (ret (Skipped x))" for x by (rule harmless_triple(1) [OF harmless_basic(1)])
  have ended: "keeps_backed p i s0 (bind (terminateLocked E i) (\<lambda>_. ret Terminated))"
    by (rule triple_bind [OF terminate_triple [OF assms(1)] harmless_triple(1) [OF harmless_basic(1)]])
  show ?thesis unfolding terminateIfStale_def
    by (cases reader) (auto simp: skip ended split: sum.split intro!: harmless_then [OF ask])
qed

lemma tab_view_triple: "wired \<Longrightarrow> keeps_backed p i s0 (tab_view E i)"
  unfolding tab_view_def by (intro harmless_triple(1) harmless_intros harmless_guards harmless_views)

lemma authorize_harmless: "harmless s (snd (authorize E i s))"
proof -
  have "harmless_prog (ensureGeneration i :: ('w, 't, nat) manager)"
    by (simp add: harmless_prog_def harmless_def ensure_run increment_run split: option.split)
  then have "harmless_prog (issueToken i :: ('w, 't, AttachToken) manager)"
    unfolding issueToken_def by (rule harmless_bind) (simp add: harmless_prog_def harmless_def Let_def)
  then have "harmless_prog (bind (issueToken i) (\<lambda>k. ret (Some k)) :: ('w, 't, AttachToken option) manager)"
    by (rule harmless_bind) (rule harmless_basic)
  then show ?thesis
    by (auto simp: harmless_prog_def harmless_def authorize_def split: prod.split sum.split option.split bool.split)
qed

text \<open>One event of the manager keeps every tab backed that was.\<close>

lemma keeps_backed_all:
  assumes "\<And>p s0. keeps_backed p i s0 m" "tabs_valid (tab_store s)"
  shows "tabs_valid (tab_store (snd (m s))) \<and> (backed False j s \<longrightarrow> backed False j (snd (m s)))"
proof -
  let ?p = "\<not> backed False i s"
  obtain r t where m: "m s = (r, t)" by (metis surj_pair)
  have s: "only i s (backed ?p i) s" using assms(2) by (simp add: only_def backed_def)
  have "only i s (backed ?p i) t"
    using tripleD_Inl [OF assms(1) s] tripleD_Inr [OF assms(1) s] m by (cases r) auto
  with m show ?thesis by (cases "j = i") (auto simp: only_def backed_def)
qed

text \<open>The end of a session: recorded as stopped, no tmux session, no registered bridge.\<close>

lemma stopRuntime_ends:
  assumes wired "stopRuntime E i c r s = (Inr False, t)"
  shows "\<not> alive (world t) i" "shuttingDown t \<or> registry_get i t = None" "tab_store t = tab_store s"
proof -
  obtain a u where a: "on_registry (registry_close (m_owners E) i c r) s = (a, u)" by (metis surj_pair)
  obtain b v where b: "on_world (rt_kill (m_runtime E) i) u = (b, v)" by (metis surj_pair)
  have ab: "a = Inr ()" "b = Inr ()" "t = v"
    using assms(2) a b by (auto simp: stopRuntime_def em_simps)
  obtain w where w: "rt_kill R i (world u) = (Inr (), w)" "v = u\<lparr>world := w\<rparr>"
    using on_world_run [OF b] backend_runtime [OF assms(1)] ab(2) by metis
  have close: "registry_close (m_owners E) i c r s = (Inr (), u)"
    using a ab(1) by (auto simp: on_registry_def em_simps split: prod.splits sum.splits)
  have "tab_store u = tab_store s"
    using harmless_registry_close [OF assms(1)] close by (metis harmless_prog_def harmless_def snd_conv)
  moreover have "shuttingDown u \<or> registry_get i u = None"
    using close_run [OF close] by (auto simp: registry_get_def)
  ultimately show "\<not> alive (world t) i" "shuttingDown t \<or> registry_get i t = None" "tab_store t = tab_store s"
    using kill_law [OF backend_ok [OF assms(1)] w(1)] w(2) ab(3) by (simp_all add: registry_get_def)
qed

lemma view_now_state:
  assumes wired "view_now E i s = (r, t)"
  shows "\<exists>w. t = s\<lparr>world := w\<rparr> \<and> alive w = alive (world s)"
proof -
  have guard: "snd (requireCurrentRecord E i s) = s" "snd (requirePhaseTwo E s) = s" for s :: "('w, 't) SessionManager"
    by (simp_all add: requireCurrentRecord_def currentRecord_def requirePhaseTwo_def em_simps split: sum.split option.split)
  have "\<exists>w. snd (probeHealth E i s) = s\<lparr>world := w\<rparr>"
    unfolding probeHealth_def
    by (cases "requirePhaseTwo E s"; cases "rt_exists (m_runtime E) i (world s)"; use guard(2) [of s] in
        \<open>auto simp: em_simps on_world_def split: sum.split intro: exI [of _ "world s"]\<close>)
  then have "\<exists>w. t = s\<lparr>world := w\<rparr>"
    using assms(2) guard(1) [of s] unfolding view_now_def
    by (cases "requireCurrentRecord E i s") (auto simp: em_simps split: sum.splits prod.splits intro: exI [of _ "world s"])
  moreover have "alive (world t) = alive (world s)"
    using harmless_views(1) [OF assms(1)] assms(2) by (metis harmless_prog_def harmless_def snd_conv)
  ultimately show ?thesis by auto
qed

definition ended :: "string \<Rightarrow> ('w, 't) SessionManager \<Rightarrow> bool" where
  "ended i s \<longleftrightarrow> wants Stopped (doc (tab_store s)) i \<and> \<not> alive (world s) i \<and>
     (shuttingDown s \<or> registry_get i s = None)"

lemma stop_session_ends:
  assumes wired "tabs_valid (tab_store s)" "stop_session E i s = (Inr v, t)"
  shows "ended i t"
proof -
  obtain u m n where
    set: "on_store (ts_setDesiredState (m_store E) i Stopped) (snd (incrementGeneration i s)) = (Inr (), u)" and
    stop: "stopRuntime E i SESSION_STOPPED ''session_stopped'' m = (Inr False, n)" and
    m: "tab_store m = tab_store u" and view: "view_now E i n = (Inr v, t)"
    using assms(3)
    by (auto simp: stop_session_def run_simps increment_run mark_activity_def fail_with_view_def split: if_splits)
  obtain d where d: "ts_setDesiredState S i Stopped (tab_store s) = (Inr (), d)" "tab_store u = d"
    by (rule on_store_run [OF set]) (use that backend_store [OF assms(1)] in \<open>auto simp: increment_run\<close>)
  obtain w where "t = n\<lparr>world := w\<rparr>" "alive w = alive (world n)" using view_now_state [OF assms(1) view] by blast
  then show ?thesis
    using wants_after_set(1) [OF assms(2) d(1)] stopRuntime_ends [OF assms(1) stop] m d(2)
    by (simp add: ended_def registry_get_def)
qed

lemma terminate_run:
  assumes wired "tabs_valid (tab_store s)" "terminateLocked E i s = (Inr v, t)"
  shows "ended i t"
proof -
  obtain x where x: "requireCurrentRecord E i s = (Inr x, s)" and
    rest: "bind (if desiredState x = Stopped then settled E i else ret False) (\<lambda>finished.
     if finished then ret (viewFromRecord x \<lparr>health_state = StoppedSession, attached = False, bridgePid = None\<rparr>)
     else stop_session E i) s = (Inr v, t)"
  proof -
    have guard: "u = s" if "requireLifecycleTab E i s = (q, u)" for q u
      using that by (auto simp: requireLifecycleTab_def requirePhaseTwo_def em_simps split: if_splits sum.splits)
    obtain q w where w: "requireLifecycleTab E i s = (Inr q, w)" and
      body: "bind (requireCurrentRecord E i) (\<lambda>x. bind (if desiredState x = Stopped then settled E i else ret False)
        (\<lambda>finished. if finished
           then ret (viewFromRecord x \<lparr>health_state = StoppedSession, attached = False, bridgePid = None\<rparr>)
           else stop_session E i)) w = (Inr v, t)"
      using bind_Inr [THEN iffD1, OF assms(3) [unfolded terminateLocked_def]] by blast
    from bind_Inr [THEN iffD1, OF body] guard [OF w] obtain x u where xu: "requireCurrentRecord E i s = (Inr x, u)" and
      go: "bind (if desiredState x = Stopped then settled E i else ret False) (\<lambda>finished.
        if finished then ret (viewFromRecord x \<lparr>health_state = StoppedSession, attached = False, bridgePid = None\<rparr>)
        else stop_session E i) u = (Inr v, t)"
      by blast
    have "u = s" by (rule current_record_run(1) [OF assms(1) xu])
    with xu go that show thesis by simp
  qed
  from rest obtain b u where b: "(if desiredState x = Stopped then settled E i else ret False) s = (Inr b, u)"
    "(if b then ret (viewFromRecord x \<lparr>health_state = StoppedSession, attached = False, bridgePid = None\<rparr>)
      else stop_session E i) u = (Inr v, t)" by (auto simp: bind_Inr)
  have "harmless_prog (if desiredState x = Stopped then settled E i else ret False)"
    by (intro harmless_if harmless_settled harmless_basic assms(1))
  then have "harmless s (snd ((if desiredState x = Stopped then settled E i else ret False) s))"
    unfolding harmless_prog_def by (rule spec)
  then have u: "tab_store u = tab_store s" "alive (world u) = alive (world s)"
    unfolding b(1) snd_conv harmless_def by blast+
  show ?thesis
  proof (cases b)
    case False
    then show ?thesis using stop_session_ends [OF assms(1), of u i v t] b(2) u(1) assms(2) by simp
  next
    case True
    then have st: "desiredState x = Stopped" "t = u" using b by (auto simp: ret_def split: if_splits)
    from st(1) b(1) True have q: "settled E i s = (Inr True, u)" by simp
    obtain r v where r: "on_world (rt_exists (m_runtime E) i) s = (r, v)" by (metis surj_pair)
    with q have "r = Inr False" "registry_get i u = None" by (auto simp: settled_def em_simps)
    then have "\<not> alive (world s) i" "registry_get i u = None"
      using on_world_run [OF r] exists_law [OF backend_ok [OF assms(1)]] backend_runtime [OF assms(1)] by metis+
    moreover obtain d where "doc (tab_store s) = Some d" "x \<in> set (tabs d)" "tab_id x = i"
      using current_record_run(2) [OF assms(1) x] by blast
    ultimately show ?thesis using record_state [OF assms(2), of d x i Stopped] st u by (simp add: ended_def)
  qed
qed

end

end
