(* ===== verification/SessionProperties.thy ===== *)
theory SessionProperties
  imports SessionLifecycle
begin

text \<open>
  The session manager on the tab store and the tmux preparer of the server: the contract
  \<open>session_backend\<close> is discharged for them, and the properties of the lifecycle follow. A small tmux and
  a store with two tabs show that the hypotheses can hold together.
\<close>

declare map_of_eq_Some_iff [simp del] Some_eq_map_of_iff [simp del]

section \<open>The server's store and runtime\<close>

text \<open>
  The manager on the tab store and the tmux preparer, where closing, spawning and creating bridges
  neither starts nor ends a tmux session.
\<close>

definition manager_wired :: "store_env \<Rightarrow> 'w tmux_env \<Rightarrow> ('w \<Rightarrow> string set) \<Rightarrow> ('w, TabStore) manager_env \<Rightarrow> bool" where
  "manager_wired V X live E \<longleftrightarrow> m_store E = store_ops V \<and> m_runtime E = tmux_controller X \<and> tmux_ok X live \<and>
     (\<forall>h c r w. live (snd (owner_close (m_owners E) h c r w)) = live w) \<and>
     (\<forall>sp d w. live (snd (m_spawn E sp d w)) = live w) \<and>
     (\<forall>i x p w. live (snd (m_bridge E i x p w)) = live w)"

interpretation managed: session_backend "store_ops V" document "\<lambda>s. env_ok V \<and> store_inv V s"
    "tmux_controller X" "tab_alive live" "tmux_ok X live \<and> names_apart live" E
    "manager_wired V X live E \<and> names_apart live" for V X live E
  by unfold_locales (auto simp: manager_wired_def tab_alive_def)

definition reader_neutral :: "('w \<Rightarrow> string set) \<Rightarrow> ('w, TabStore) eligibility_reader option \<Rightarrow> bool" where
  "reader_neutral live rd \<longleftrightarrow> (\<forall>f q s. rd = Some f \<longrightarrow> live (snd (f q s)) = live (world s))"

text \<open>Whatever else the server does must not end the session of tab \<open>i\<close> or record it as active.\<close>

definition leaves_alone ::
  "store_env \<Rightarrow> ('w \<Rightarrow> string set) \<Rightarrow> string \<Rightarrow> ('w, TabStore) manager_event \<Rightarrow> bool"
where
  "leaves_alone V live i e \<longleftrightarrow> (\<forall>f g. e = MOther f g \<longrightarrow>
     (\<forall>w. tab_alive live w i \<longrightarrow> tab_alive live (f w) i) \<and>
     (\<forall>t. store_inv V t \<longrightarrow> store_inv V (g t) \<and> (wants Active (document (g t)) i \<longrightarrow> wants Active (document t) i)))"

definition has_session :: "('w \<Rightarrow> string set) \<Rightarrow> string \<Rightarrow> ('w, TabStore) SessionManager \<Rightarrow> bool" where
  "has_session live i s \<longleftrightarrow> (wants Active (document (tab_store s)) i \<longrightarrow> tab_alive live (world s) i)"

lemma has_session_backed: "has_session live i s \<longleftrightarrow> managed.backed live False i s"
  by (simp add: has_session_def managed.backed_def)

definition run_ready ::
  "store_env \<Rightarrow> 'w tmux_env \<Rightarrow> ('w \<Rightarrow> string set) \<Rightarrow> ('w, TabStore) manager_env \<Rightarrow> ('w, TabStore) SessionManager \<Rightarrow> bool"
where
  "run_ready V X live E s \<longleftrightarrow> manager_wired V X live E \<and> env_ok V \<and> store_inv V (tab_store s)"

lemma step_keeps_session:
  assumes "run_ready V X live E s" "names_apart live" "reader_neutral live rd" "leaves_alone V live i e"
  shows "run_ready V X live E (manager_step E rd e s) \<and> (has_session live i s \<longrightarrow> has_session live i (manager_step E rd e s))"
proof -
  note w = assms(1) [unfolded run_ready_def]
  have v: "(\<lambda>s. env_ok V \<and> store_inv V s) (tab_store s)" using w by simp
  have rd: "rd = Some f \<Longrightarrow> tab_alive live (snd (f q s)) j = tab_alive live (world s) j" for f q s j
    using assms(3) by (simp add: reader_neutral_def tab_alive_def)
  note keep = managed.keeps_backed_all [where V = V and live = live and j = i, OF _ v]
  note wired = conjI [OF conjunct1 [OF w] assms(2)]
  have stale: "managed.keeps_backed V live p j s0 (terminateIfStale E rd j c)" for p j s0 c
    by (rule managed.terminateIfStale_triple [OF wired]) (rule rd)
  show ?thesis
  proof (cases e)
    case (MAuthorize j)
    then show ?thesis using w managed.authorize_harmless [of live s E j]
      by (simp add: run_ready_def has_session_def managed.harmless_def)
  next
    case (MOther f g)
    then show ?thesis using w assms(4) by (auto simp: run_ready_def has_session_def leaves_alone_def)
  qed (use w keep [OF managed.connect_triple [OF wired]] keep [OF managed.terminate_triple [OF wired]]
         keep [OF stale] keep [OF managed.recreate_triple [OF wired]]
         keep [OF managed.restart_triple [OF wired]] keep [OF managed.restartBridge_triple [OF wired]]
         keep [OF managed.closeTab_triple [OF wired]] keep [OF managed.tab_view_triple [OF wired]]
       in \<open>simp_all add: run_ready_def has_session_backed terminate_def\<close>)
qed

text \<open>
  C5. Recorded and actual state stay together: a tab that has a tmux session whenever it is
  recorded as active still has one after any sequence of manager operations, on this or other tabs,
  successful or failing at any point, so long as nothing else ends its session and no other session
  of the tmux server has a name that extends one of the server's own (\<open>names_apart\<close>).
\<close>

theorem active_has_session:
  assumes "run_ready V X live E s" "names_apart live" "reader_neutral live rd" "\<forall>e \<in> set es. leaves_alone V live i e"
    "has_session live i s"
  shows "has_session live i (fold (manager_step E rd) es s)"
  using assms
proof (induction es arbitrary: s)
  case (Cons e es)
  then have "leaves_alone V live i e" by simp
  from step_keeps_session [OF Cons.prems(1-3) this] Cons show ?case by simp
qed simp

text \<open>
  C6. Terminating ends the session: when \<open>terminate\<close> returns, the tab is recorded as stopped, its
  tmux session is gone and, unless the registry is shutting down, no bridge is registered for it.
  No other session of the tmux server may have a name that extends one of the server's own.
\<close>

theorem terminate_ends:
  assumes "run_ready V X live E s" "names_apart live" "terminate E i s = (Inr v, t)"
  shows "wants Stopped (document (tab_store t)) i \<and> \<not> tab_alive live (world t) i \<and>
    (shuttingDown t \<or> registry_get i t = None)"
  using managed.terminate_run [of V X live E s i v t] assms
  by (simp add: run_ready_def terminate_def managed.ended_def)

section \<open>A small tmux\<close>

text \<open>
  A tmux server that only holds sessions of tabs and refuses any other name. The world is the list of
  their names; listing is the one command that fails here.
\<close>

definition answer :: "int \<Rightarrow> CommandResult" where
  "answer c = \<lparr>exitCode = c, stdout = []\<rparr>"

definition tab_names :: "string list \<Rightarrow> string set" where
  "tab_names w = set (filter (\<lambda>n. session_of_line n \<noteq> None) w)"

definition small_command :: "string list \<Rightarrow> string list \<Rightarrow> CommandResult option \<times> string list" where
  "small_command args w =
     (if hd args = ''has-session'' then (Some (answer (if last args \<in> tab_names w then 0 else 1)), w)
      else if hd args = ''kill-session'' then
        (Some (answer (if last args \<in> tab_names w then 0 else 1)), removeAll (last args) w)
      else if hd args = ''new-session'' then
        (let n = args ! (length args - 7) in
         if session_of_line n \<noteq> None then (Some (answer 0), n # w) else (Some (answer 1), w))
      else if hd args \<in> {''set-option'', ''set-window-option''} then (Some (answer 0), w)
      else (None, w))"

definition small_tmux :: "string list tmux_env" where
  "small_tmux = \<lparr>tmux_executable = ''tmux'', homeDir = ''/'', command_run = (\<lambda>_. small_command),
     random_uuid = (\<lambda>w. (Some id_b, w)), encode_shell = (\<lambda>_. []), number_string = (\<lambda>_. [])\<rparr>"

lemma small_names_apart: "names_apart tab_names"
proof -
  have "app_target s" if "s \<in> tab_names w" for s w
  proof -
    from that obtain i where "session_of_line s = Some i" by (auto simp: tab_names_def)
    then have "isSessionId i" "s = session_name i"
      using session_of_line_valid [of s i] session_of_line_sound [of s i]
      by (auto simp: tmuxSessionName_session split: if_splits)
    then show ?thesis by (auto simp: app_target_def)
  qed
  then show ?thesis unfolding names_apart_def by (blast dest: app_targets_apart)
qed

lemma tab_names_session: "isSessionId i \<Longrightarrow> session_name i \<in> tab_names w \<longleftrightarrow> session_name i \<in> set w"
  by (auto simp: tab_names_def session_name_def session_of_line_name)

lemma small_tmux_ok: "tmux_ok small_tmux tab_names"
proof -
  have "has_ok small_tmux tab_names"
    by (auto simp: has_ok_def small_tmux_def small_command_def answer_def target_of_def split: if_splits)
  moreover have "kill_ok small_tmux tab_names"
    unfolding kill_ok_def small_tmux_def small_command_def answer_def target_of_def
    by (auto simp: tab_names_def split: if_splits)
  ultimately show ?thesis
    unfolding tmux_ok_def create_ok_def option_ok_def list_ok_def
    by (auto simp: small_tmux_def small_command_def answer_def create_command_def tab_names_def split: if_splits)
qed

definition small_settings :: SessionRuntimeSettings where
  "small_settings = \<lparr>shell = [47, 98], historyLimit = Num 100\<rparr>"

definition small_manager :: "(string list, TabStore) manager_env" where
  "small_manager = \<lparr>m_owners = \<lparr>owner_close = (\<lambda>_ _ _ w. (True, w)), owner_pid = (\<lambda>_ _. None), localeCompare = (\<lambda>_ _. 0)\<rparr>,
     m_store = store_ops example_env, m_runtime = tmux_controller small_tmux, has_store = True, has_activity = True,
     has_runtime = True, m_settings = (\<lambda>_. Some small_settings), m_spawn = (\<lambda>_ _ w. (Some 1, w)),
     m_bridge = (\<lambda>_ _ _ w. (Some 2, w)), m_text = plain_text\<rparr>"

text \<open>Tab \<open>id_a\<close> has a session and a bridge, tab \<open>id_b\<close> neither.\<close>

definition small_state :: "(string list, TabStore) SessionManager" where
  "small_state = (new_manager [session_name id_a] example_store)\<lparr>owners := [(id_a, 7)]\<rparr>"

lemma small_fields [simp]:
  "has_activity small_manager" "has_store small_manager" "has_runtime small_manager"
  "m_store small_manager = store_ops example_env" "m_settings small_manager w = Some small_settings"
  by (simp_all add: small_manager_def)

lemma small_wired: "manager_wired example_env small_tmux tab_names small_manager"
  unfolding manager_wired_def using small_tmux_ok by (simp add: small_manager_def)

lemma example_store_inv: "store_inv example_env example_store"
  using example_store_started started_inv [OF example_env_ok] by blast

lemma small_ready: "run_ready example_env small_tmux tab_names small_manager small_state"
  unfolding run_ready_def using small_wired example_env_ok example_store_inv
  by (simp add: small_state_def new_manager_def)

theorem active_has_session_witness:
  "has_session tab_names id_a (fold (manager_step small_manager None) [MRestart id_a, MTerminate id_b, MCloseTab id_a] small_state)"
proof -
  have "has_session tab_names id_a small_state"
    by (simp add: has_session_def small_state_def new_manager_def tab_alive_def example_ids tab_names_session)
  then show ?thesis
    by (intro active_has_session [OF small_ready small_names_apart]) (auto simp: reader_neutral_def leaves_alone_def)
qed

text \<open>A document with one tab recorded as stopped.\<close>

definition stopped_in :: "string \<Rightarrow> TabDocument \<Rightarrow> TabDocument" where
  "stopped_in i d = \<lparr>structureRevision = Suc (structureRevision d),
     tabs = map (\<lambda>t. if tab_id t = i then t\<lparr>desiredState := Stopped\<rparr> else t) (tabs d)\<rparr>"

lemma stopped_in_find:
  "find (\<lambda>t. tab_id t = i) (tabs d) = Some x \<Longrightarrow>
   find (\<lambda>t. tab_id t = i) (tabs (stopped_in i d)) = Some (x\<lparr>desiredState := Stopped\<rparr>)"
proof -
  have "find (\<lambda>t. tab_id t = i) (map (\<lambda>t. if tab_id t = i then t\<lparr>desiredState := Stopped\<rparr> else t) ts) =
      map_option (\<lambda>t. t\<lparr>desiredState := Stopped\<rparr>) (find (\<lambda>t. tab_id t = i) ts)" for ts :: "TabRecord list"
    by (induction ts) auto
  then show "find (\<lambda>t. tab_id t = i) (tabs d) = Some x \<Longrightarrow>
    find (\<lambda>t. tab_id t = i) (tabs (stopped_in i d)) = Some (x\<lparr>desiredState := Stopped\<rparr>)"
    by (simp add: stopped_in_def)
qed

text \<open>A store on which no call fails, and in which tab \<open>i\<close> can be recorded as stopped.\<close>

definition stoppable :: "string \<Rightarrow> TabStore \<Rightarrow> TabDocument \<Rightarrow> bool" where
  "stoppable i t d \<longleftrightarrow> script t = [] \<and> temporaries t = [] \<and> document t = Some d \<and>
     parseDocument plain_text (stopped_in i d) = Some (stopped_in i d) \<and>
     length (put_document (stopped_in i d)) \<le> MAX_DOCUMENT_BYTES"

lemma small_stop:
  assumes "stoppable i t d" "find (\<lambda>t. tab_id t = i) (tabs d) = Some x"
  shows "\<exists>u. ts_setDesiredState (store_ops example_env) i Stopped t = (Inr (), u) \<and> document u = Some (stopped_in i d)"
proof -
  have ok: "parseDocument (text_rules example_env) (stopped_in i d) = Some (stopped_in i d)"
    "length (serialize example_env (stopped_in i d)) \<le> MAX_DOCUMENT_BYTES" "script t = []" "temporaries t = []"
    using assms(1) by (simp_all add: stoppable_def example_env_def)
  have build: "build_setDesiredState example_env i Stopped d t = (Inr (Some (stopped_in i d, findTab i)), t)"
    using ok(1) assms(2)
    by (simp add: build_setDesiredState_def requireTab_def structuralDocument_def em_simps stopped_in_def)
  have "\<exists>u. persist example_env (stopped_in i d) t = (Inr (), u) \<and> document u = Some (stopped_in i d)"
    using persist_reliable [OF ok(3,4,1,2)] by simp
  with build stopped_in_find [OF assms(2)] assms(1) show ?thesis
    by (auto simp: store_ops_def void_def store_setDesiredState_def mutate_def requireDocument_def findTab_def requireTab_def
        em_simps stoppable_def)
qed

lemma small_guards:
  assumes "document (tab_store s) = Some d" "find (\<lambda>t. tab_id t = i) (tabs d) = Some x" "isSessionId i"
  shows "requireLifecycleTab small_manager i s = (Inr (), s)" "requireCurrentRecord small_manager i s = (Inr x, s)"
    "requirePhaseTwo small_manager s = (Inr (), s)"
proof -
  have "i \<in> tab_id ` set (tabs d)" using assms(2) by (auto dest: find_SomeD)
  then show "requireLifecycleTab small_manager i s = (Inr (), s)" "requireCurrentRecord small_manager i s = (Inr x, s)"
    "requirePhaseTwo small_manager s = (Inr (), s)"
    using assms stored.has_law [of example_env i "tab_store s"] stored.snapshot_law [of example_env "tab_store s"]
    by (simp_all add: requireLifecycleTab_def requireCurrentRecord_def currentRecord_def requirePhaseTwo_def em_simps
        small_manager_def findRecord_def)
qed

lemma small_exists: "isSessionId i \<Longrightarrow> rt_exists (m_runtime small_manager) i w = (Inr (session_name i \<in> set w), w)"
  by (simp add: small_manager_def tmux_controller_def tmux_exists_def tmuxSessionName_session lift_sum_def em_simps
      tmux_run_def small_tmux_def small_command_def answer_def tab_names_session)

lemma small_kill: "isSessionId i \<Longrightarrow> rt_kill (m_runtime small_manager) i w = (Inr (), removeAll (session_name i) w)"
  by (simp add: small_manager_def tmux_controller_def tmux_kill_def killNamedSession_def tmuxSessionName_session lift_sum_def
      em_simps tmux_run_def small_tmux_def small_command_def answer_def tab_names_session)

lemma small_view:
  assumes "document (tab_store s) = Some d" "find (\<lambda>t. tab_id t = i) (tabs d) = Some x" "isSessionId i"
  shows "\<exists>v. view_now small_manager i s = (Inr v, s)"
  using small_guards [OF assms] assms(3)
  by (simp add: view_now_def probeHealth_def em_simps on_world_def small_exists)

lemma small_terminate:
  assumes "stoppable i (tab_store s) d" "find (\<lambda>t. tab_id t = i) (tabs d) = Some x" "desiredState x = Active" "isSessionId i"
    "owners s = [] \<or> owners s = [(i, 7)]" "\<not> shuttingDown s"
  shows "\<exists>v t. terminate small_manager i s = (Inr v, t)"
proof -
  obtain u where u: "ts_setDesiredState (store_ops example_env) i Stopped (tab_store s) = (Inr (), u)"
    "document u = Some (stopped_in i d)" using small_stop [OF assms(1,2)] by blast
  have doc: "document (tab_store s) = Some d" using assms(1) by (simp add: stoppable_def)
  note g = small_guards [OF doc assms(2,4)]
  have stop: "\<exists>s. stopRuntime small_manager i c r s0 = (Inr False, s) \<and> tab_store s = tab_store s0"
    if "owners s0 = [] \<or> owners s0 = [(i, 7)]" "\<not> shuttingDown s0" for c r s0
    using that small_kill [OF assms(4)]
    by (auto simp: stopRuntime_def on_registry_def registry_close_def close_owner_def on_world_def em_simps)
       (simp add: small_manager_def em_simps)
  have "\<exists>v t. stop_session small_manager i s = (Inr v, t)"
  proof -
    let ?s1 = "snd (mark_activity small_manager i ((snd (incrementGeneration i s))\<lparr>tab_store := u\<rparr>))"
    obtain n where n: "stopRuntime small_manager i SESSION_STOPPED ''session_stopped'' ?s1 = (Inr False, n)" "tab_store n = u"
      using stop [of ?s1 SESSION_STOPPED "''session_stopped''"] assms(5,6)
      by (auto simp: increment_run mark_activity_def em_simps)
    have "document (tab_store n) = Some (stopped_in i d)" using n(2) u(2) by simp
    from small_view [OF this stopped_in_find [OF assms(2)] assms(4)] n u(1) show ?thesis
      by (auto simp: stop_session_def em_simps increment_run on_store_def mark_activity_def)
  qed
  then show ?thesis using g assms(3) by (simp add: terminate_def terminateLocked_def em_simps)
qed

lemma two_tabs_find: "find (\<lambda>t. tab_id t = id_a) (tabs two_tabs) = Some (example_tab id_a 65 0)"
  by (simp add: two_tabs_def example_tab_def)

lemma two_tabs_stoppable: "stoppable id_a example_store two_tabs"
proof -
  have st: "stopped_in id_a two_tabs =
      \<lparr>structureRevision = 5, tabs = [(example_tab id_a 65 0)\<lparr>desiredState := Stopped\<rparr>, example_tab id_b 66 1]\<rparr>"
    using example_ids(3) by (simp add: stopped_in_def two_tabs_def example_tab_def)
  have a: "parseTab plain_text ((example_tab id_a 65 0)\<lparr>desiredState := Stopped\<rparr>) = Some ((example_tab id_a 65 0)\<lparr>desiredState := Stopped\<rparr>)"
    using example_tab_parses [of id_a 65 0] example_ids(1)
    by (simp add: parseTab_def example_tab_def plain_text_def split: option.splits if_splits)
  have "ordered_unique 0 [] [] (tabs (stopped_in id_a two_tabs))"
    using example_ids(3) by (auto simp: st example_tab_def)
  then have "parseDocument plain_text (stopped_in id_a two_tabs) = Some (stopped_in id_a two_tabs)" using a example_ids
    by (simp add: parseDocument_def st example_tab_parses safe_int_def MAX_SAFE_INTEGER_def)
  moreover have "length (put_document (stopped_in id_a two_tabs)) \<le> MAX_DOCUMENT_BYTES"
    unfolding st
    by (simp add: put_document_def example_tab_def put_list_def put_tab_def
      put_string_def put_nat_def id_a_def id_b_def MAX_DOCUMENT_BYTES_def comp_def)
  ultimately show ?thesis by (simp add: stoppable_def)
qed

theorem terminate_ends_witness:
  "\<exists>v t. terminate small_manager id_a small_state = (Inr v, t) \<and> wants Stopped (document (tab_store t)) id_a \<and>
     \<not> tab_alive tab_names (world t) id_a"
proof -
  have "stoppable id_a (tab_store small_state) two_tabs" "owners small_state = [(id_a, 7)]" "\<not> shuttingDown small_state"
    using two_tabs_stoppable by (simp_all add: small_state_def new_manager_def)
  then obtain v t where run: "terminate small_manager id_a small_state = (Inr v, t)"
    using small_terminate [OF _ two_tabs_find _ example_ids(1), of small_state] by (auto simp: example_tab_def)
  from terminate_ends [OF small_ready small_names_apart run] run show ?thesis by auto
qed

section \<open>A token that is still good\<close>

definition fresh_state :: "(string list, TabStore) SessionManager" where
  "fresh_state = new_manager [session_name id_a] example_store"

definition fresh_token :: AttachToken where
  "fresh_token = \<lparr>tok_session = id_a, tok_generation = 1, tok_serial = 0\<rparr>"

definition issued_state :: "(string list, TabStore) SessionManager" where
  "issued_state = fresh_state\<lparr>generationClock := 1, generations := [(id_a, 1)], issuedTokens := [fresh_token]\<rparr>"

definition small_dims :: TerminalDimensions where
  "small_dims = \<lparr>cols = Num 80, rows = Num 24\<rparr>"

lemma fresh_authorize: "authorize small_manager id_a fresh_state = (Inr (Some fresh_token), issued_state)"
  using stored.has_law [of example_env id_a example_store] stored.snapshot_law [of example_env example_store] two_tabs_find
    example_ids(1)
  by (simp add: authorize_def fresh_state_def new_manager_def issueToken_def ensure_run increment_run em_simps
      findRecord_def fresh_token_def issued_state_def two_tabs_def example_tab_def Let_def)

lemma issued_doc: "document (tab_store issued_state) = Some two_tabs"
  by (simp add: issued_state_def fresh_state_def new_manager_def)

lemma fresh_recreate: "snd (recreate small_manager id_a issued_state) = issued_state"
  using small_guards [OF issued_doc two_tabs_find example_ids(1)]
  by (simp add: recreate_def em_simps example_tab_def)

lemma small_prepare:
  assumes "session_name id_a \<in> set w"
  shows "\<exists>spec. rt_prepare (m_runtime small_manager) id_a (Some st) w = (Inr spec, w)"
proof -
  have "\<exists>b. tmuxBuildSessionName (Some id_b) = Inr b" using example_ids by (simp add: tmuxBuildSessionName_def)
  then show ?thesis using assms example_ids
    by (auto simp: small_manager_def tmux_controller_def prepare_def tmuxSessionName_session lift_sum_def em_simps
        establish_def tmux_exists_def tmux_run_def configure_session_def attachSpec_def small_tmux_def small_command_def
        answer_def tab_names_session)
qed

lemma small_settings_run: "captureRuntimeSettings small_manager s = (Inr small_settings, s)"
proof -
  have "isValidRuntimeSettings plain_text small_settings"
    by (simp add: isValidRuntimeSettings_def small_settings_def plain_text_def utf8ByteLength_def forbiddenCharacter_def
        )
  then show ?thesis by (simp add: captureRuntimeSettings_def em_simps) (simp add: small_manager_def)
qed

lemma fresh_connect: "\<exists>h u. connect small_manager fresh_token 5 small_dims issued_state = (Inr h, u)"
proof -
  have a: "session_name id_a \<in> set (world issued_state)" by (simp add: issued_state_def fresh_state_def new_manager_def)
  obtain spec where p: "rt_prepare (m_runtime small_manager) id_a (Some small_settings) (world issued_state) = (Inr spec, world issued_state)"
    using small_prepare [OF a] by blast
  note g = small_guards [OF issued_doc two_tabs_find example_ids(1)]
  have rec: "currentRecord small_manager id_a issued_state = (Inr (Some (example_tab id_a 65 0)), issued_state)"
    using g(2) by (auto simp: requireCurrentRecord_def run_simps split: option.splits)
  have dims: "isValidDimensions small_dims"
    by (simp add: isValidDimensions_def small_dims_def  MIN_COLS_def MAX_COLS_def
        MIN_ROWS_def MAX_ROWS_def)
  have own: "owners issued_state = []" "\<not> shuttingDown issued_state" "jm_get (generations issued_state) id_a = Some 1"
    "issuedTokens issued_state = [fresh_token]"
    by (simp_all add: issued_state_def fresh_state_def new_manager_def)
  have "\<exists>h u. attach small_manager id_a 5 small_dims True (Some small_settings) issued_state = (Inr h, u)"
    using p own
    by (simp add: attach_def em_simps on_world_def on_registry_def registry_close_def registry_replace_def creates_def
        mark_activity_def) (simp add: small_manager_def em_simps)
  then show ?thesis using g(3) rec dims own small_settings_run
    by (simp add: connect_def em_simps isIssuedToken_def fresh_token_def example_tab_def)
qed

theorem stale_token_rejected_witness:
  "tab_store (fold (manager_step small_manager None) ([] @ [MRecreate id_a]) issued_state) =
   tab_store (fold (manager_step small_manager None) [] issued_state)"
proof -
  obtain h u where "connect small_manager fresh_token 5 small_dims issued_state = (Inr h, u)" using fresh_connect by blast
  then have c: "connect small_manager fresh_token 5 small_dims (fold (manager_step small_manager None) [MRecreate id_a] issued_state) =
      (Inr h, u)" by (simp add: fresh_recreate)
  have s: "fresh_state = fold (manager_step small_manager None) [] (new_manager [session_name id_a] example_store)"
    by (simp add: fresh_state_def)
  show ?thesis
    by (rule stale_token_rejected [OF s fresh_authorize c]) simp_all
qed

end
