(* ===== verification/StaleSessionCleaner.thy ===== *)
theory StaleSessionCleaner
  imports SessionManager
begin

text \<open>
  The stale session cleaner (\<open>apps/server/src/stale-session-cleaner.ts\<close>): a timer, at most one run at
  a time, and a bounded pass over the tabs that asks the eligibility reader and then the session
  manager. The collaborators are the ports of the class, over a world \<open>'w\<close>. A run is started by its
  synchronous part and settled later: the events between the two are the calls made meanwhile. The
  pass itself runs on the world and touches the cleaner only when it settles.
\<close>

section \<open>State\<close>

record CleanupResult =
  disabled :: bool
  examined :: nat
  terminated :: nat
  skipped :: nat
  failed :: nat
  startedAt :: string
  finishedAt :: string

datatype CleanupDependencyFailure = SettingsUnavailable | TabsUnavailable

datatype CleanupThreshold = Available int | Unavailable

record TimerRegistration =
  reg_serial :: nat
  handle :: bool
  cancelling :: bool

text \<open>A run either has its result already (\<open>None\<close>: it rejects) or still has tabs to look at.\<close>

datatype cleanup_run = Settled "CleanupResult option" | Looping int int "string list" string

record 'w StaleSessionCleaner =
  timer :: "TimerRegistration option"
  inFlight :: "(nat \<times> cleanup_run) option"
  inFlightThresholdHours :: "int option"
  inFlightDependencyFailure :: "CleanupDependencyFailure option"
  lastResult :: "CleanupResult option"
  lastDependencyFailure :: "CleanupDependencyFailure option"
  cleaner_shutdown :: bool
  cleaner_world :: 'w
  registrations :: nat
  runs :: nat

record 'w cleaner_env =
  read_settings :: "'w \<Rightarrow> jsnum option"
  read_tabs :: "'w \<Rightarrow> string list option"
  port_read :: "EligibilityRequest \<Rightarrow> ('w, unit, EligibilitySnapshot) em"
  port_terminate :: "string \<Rightarrow> EligibilitySnapshot \<Rightarrow> ('w, unit, CleanupTerminationResult) em"
  maxSessions :: nat
  set_timeout :: "nat \<Rightarrow> 'w \<Rightarrow> bool \<times> 'w"
  clear_timeout :: "nat \<Rightarrow> 'w \<Rightarrow> bool \<times> 'w"
  clock_now :: "'w \<Rightarrow> jsnum \<times> 'w"
  iso_string :: "int \<Rightarrow> string"

type_synonym ('w, 'a) cleaner = "('w StaleSessionCleaner, unit, 'a) em"

definition HOUR_MS :: int where "HOUR_MS = 60 * 60 * 1000"
definition MAX_THRESHOLD_HOURS :: int where "MAX_THRESHOLD_HOURS = 8760"
definition MAX_SESSIONS :: nat where "MAX_SESSIONS = 20"

section \<open>The timer\<close>

definition on_cleaner_world :: "('w \<Rightarrow> 'a \<times> 'w) \<Rightarrow> ('w, 'a) cleaner" where
  "on_cleaner_world f = (\<lambda>s. case f (cleaner_world s) of (x, w) \<Rightarrow> (Inr x, s\<lparr>cleaner_world := w\<rparr>))"

definition schedule_cleanup :: "'w cleaner_env \<Rightarrow> ('w, unit) cleaner" where
  "schedule_cleanup E =
     bind (gets (\<lambda>s. (cleaner_shutdown s \<or> timer s \<noteq> None, registrations s))) (\<lambda>(idle, k).
       if idle then ret ()
       else
         bind (modify (\<lambda>s. s\<lparr>timer := Some \<lparr>reg_serial = k, handle = False, cancelling = False\<rparr>,
                              registrations := Suc k\<rparr>)) (\<lambda>_.
         bind (on_cleaner_world (set_timeout E k)) (\<lambda>armed.
         if armed then modify (\<lambda>s. s\<lparr>timer := map_option (\<lambda>r. if reg_serial r = k then r\<lparr>handle := True\<rparr> else r) (timer s)\<rparr>)
         else modify (\<lambda>s. if map_option reg_serial (timer s) = Some k then s\<lparr>timer := None\<rparr> else s))))"

definition cancelTimer :: "'w cleaner_env \<Rightarrow> ('w, unit) cleaner" where
  "cancelTimer E =
     bind (gets timer) (\<lambda>r.
       case r of
         None \<Rightarrow> ret ()
       | Some g \<Rightarrow>
           if \<not> handle g then ret ()
           else
             bind (modify (\<lambda>s. s\<lparr>timer := Some (g\<lparr>cancelling := True\<rparr>)\<rparr>)) (\<lambda>_.
             bind (on_cleaner_world (clear_timeout E (reg_serial g))) (\<lambda>cleared.
             if cleared then modify (\<lambda>s. if map_option reg_serial (timer s) = Some (reg_serial g) then s\<lparr>timer := None\<rparr> else s)
             else modify (\<lambda>s. s\<lparr>timer := Some (g\<lparr>cancelling := False\<rparr>)\<rparr>))))"

section \<open>A run\<close>

definition thresholdSnapshot :: "'w cleaner_env \<Rightarrow> 'w \<Rightarrow> CleanupThreshold" where
  "thresholdSnapshot E w =
     (case read_settings E w of
        None \<Rightarrow> Unavailable
      | Some v \<Rightarrow>
          (case v of
             Num r \<Rightarrow> if isInteger v \<and> num_ge v 0 \<and> num_le v (of_int MAX_THRESHOLD_HOURS) then Available \<lfloor>r\<rfloor> else Unavailable
           | _ \<Rightarrow> Unavailable))"

definition validNow :: "'w cleaner_env \<Rightarrow> ('w, int) cleaner" where
  "validNow E =
     bind (on_cleaner_world (clock_now E)) (\<lambda>v.
     ret (case v of Num r \<Rightarrow> if isSafeInteger v then \<lfloor>r\<rfloor> else 0 | _ \<Rightarrow> 0))"

text \<open>\<open>new Date(ms).toISOString()\<close>, which throws outside the range of \<open>Date\<close>.\<close>

definition MAX_DATE_MS :: int where "MAX_DATE_MS = 8640000000000000"

definition toISOString :: "'w cleaner_env \<Rightarrow> int \<Rightarrow> string option" where
  "toISOString E ms = (if \<bar>ms\<bar> \<le> MAX_DATE_MS then Some (iso_string E ms) else None)"

definition cleanup_result ::
  "'w cleaner_env \<Rightarrow> bool \<Rightarrow> nat \<Rightarrow> nat \<Rightarrow> nat \<Rightarrow> nat \<Rightarrow> string \<Rightarrow> ('w, CleanupResult option) cleaner"
where
  "cleanup_result E dis ex te sk fa st =
     bind (validNow E) (\<lambda>ms.
     ret (map_option (\<lambda>fin. \<lparr>disabled = dis, examined = ex, terminated = te, skipped = sk, failed = fa,
            startedAt = st, finishedAt = fin\<rparr>) (toISOString E ms)))"

text \<open>The part of \<open>execute\<close> before the first \<open>await\<close>.\<close>

definition execute_begin :: "'w cleaner_env \<Rightarrow> CleanupThreshold \<Rightarrow> ('w, cleanup_run) cleaner" where
  "execute_begin E threshold =
     bind (validNow E) (\<lambda>startedMs.
       case toISOString E startedMs of
         None \<Rightarrow> ret (Settled None)
       | Some st \<Rightarrow>
           (case threshold of
              Unavailable \<Rightarrow> bind (cleanup_result E False 0 0 0 1 st) (\<lambda>r. ret (Settled r))
            | Available hours \<Rightarrow>
                if hours = 0 then bind (cleanup_result E True 0 0 0 0 st) (\<lambda>r. ret (Settled r))
                else
                  bind (gets (\<lambda>s. read_tabs E (cleaner_world s))) (\<lambda>t.
                    case t of
                      None \<Rightarrow>
                        bind (modify (\<lambda>s. s\<lparr>inFlightDependencyFailure := Some TabsUnavailable\<rparr>)) (\<lambda>_.
                        bind (cleanup_result E False 0 0 0 1 st) (\<lambda>r. ret (Settled r)))
                    | Some ids \<Rightarrow>
                        ret (Looping (hours * HOUR_MS) (startedMs - hours * HOUR_MS) (take (maxSessions E) ids) st))))"

record cleanup_counts =
  c_examined :: nat
  c_terminated :: nat
  c_skipped :: nat
  c_failed :: nat

definition examine_tab ::
  "'w cleaner_env \<Rightarrow> int \<Rightarrow> int \<Rightarrow> string \<Rightarrow> cleanup_counts \<Rightarrow> ('w, unit, cleanup_counts) em"
where
  "examine_tab E thresholdMs cutoffMs i c0 =
     (let c = c0\<lparr>c_examined := Suc (c_examined c0)\<rparr> in
      bind (attempt (port_read E \<lparr>rq_id = i, rq_thresholdMs = Num (of_int thresholdMs), rq_cutoffMs = Num (of_int cutoffMs)\<rparr>)) (\<lambda>r.
        case r of
          Inl _ \<Rightarrow> ret (c\<lparr>c_failed := Suc (c_failed c)\<rparr>)
        | Inr snapshot \<Rightarrow>
            if \<not> eligible snapshot then ret (c\<lparr>c_skipped := Suc (c_skipped c)\<rparr>)
            else
              bind (attempt (port_terminate E i snapshot)) (\<lambda>outcome.
              ret (case outcome of
                     Inl _ \<Rightarrow> c\<lparr>c_failed := Suc (c_failed c)\<rparr>
                   | Inr Terminated \<Rightarrow> c\<lparr>c_terminated := Suc (c_terminated c)\<rparr>
                   | Inr (Skipped _) \<Rightarrow> c\<lparr>c_skipped := Suc (c_skipped c)\<rparr>))))"

fun cleanup_loop ::
  "'w cleaner_env \<Rightarrow> int \<Rightarrow> int \<Rightarrow> string list \<Rightarrow> cleanup_counts \<Rightarrow> ('w, unit, cleanup_counts) em"
where
  "cleanup_loop E thresholdMs cutoffMs [] c = ret c"
| "cleanup_loop E thresholdMs cutoffMs (i # is) c =
     bind (examine_tab E thresholdMs cutoffMs i c) (\<lambda>d. cleanup_loop E thresholdMs cutoffMs is d)"

text \<open>The rest of \<open>execute\<close>.\<close>

definition execute_rest :: "'w cleaner_env \<Rightarrow> cleanup_run \<Rightarrow> ('w, CleanupResult option) cleaner" where
  "execute_rest E run =
     (case run of
        Settled r \<Rightarrow> ret r
      | Looping thresholdMs cutoffMs ids st \<Rightarrow>
          bind (on_cleaner_world (cleanup_loop E thresholdMs cutoffMs ids
                  \<lparr>c_examined = 0, c_terminated = 0, c_skipped = 0, c_failed = 0\<rparr>)) (\<lambda>r.
            case r of
              Inl _ \<Rightarrow> ret None
            | Inr c \<Rightarrow> cleanup_result E False (c_examined c) (c_terminated c) (c_skipped c) (c_failed c) st))"

definition finishRun :: "'w cleaner_env \<Rightarrow> nat \<Rightarrow> CleanupResult option \<Rightarrow> ('w, unit) cleaner" where
  "finishRun E operation result =
     bind (gets (\<lambda>s. map_option fst (inFlight s))) (\<lambda>current.
       if current \<noteq> Some operation then ret ()
       else
         bind (modify (\<lambda>s. case result of
                  None \<Rightarrow> s
                | Some r \<Rightarrow> s\<lparr>lastResult := Some r, lastDependencyFailure := inFlightDependencyFailure s\<rparr>)) (\<lambda>_.
         bind (modify (\<lambda>s. s\<lparr>inFlight := None, inFlightThresholdHours := None, inFlightDependencyFailure := None\<rparr>)) (\<lambda>_.
         schedule_cleanup E)))"

definition settle_run :: "'w cleaner_env \<Rightarrow> ('w, unit) cleaner" where
  "settle_run E =
     bind (gets inFlight) (\<lambda>f.
       case f of
         None \<Rightarrow> ret ()
       | Some (k, run) \<Rightarrow> bind (execute_rest E run) (\<lambda>r. finishRun E k r))"

definition startRun :: "'w cleaner_env \<Rightarrow> CleanupThreshold \<Rightarrow> ('w, nat) cleaner" where
  "startRun E threshold =
     bind (gets inFlight) (\<lambda>f.
       case f of
         Some (k, _) \<Rightarrow> ret k
       | None \<Rightarrow>
           bind (cancelTimer E) (\<lambda>_.
           bind (modify (\<lambda>s. s\<lparr>
             inFlightThresholdHours := (case threshold of Available h \<Rightarrow> Some h | Unavailable \<Rightarrow> None),
             inFlightDependencyFailure := (case threshold of Available _ \<Rightarrow> None | Unavailable \<Rightarrow> Some SettingsUnavailable)\<rparr>)) (\<lambda>_.
           bind (execute_begin E threshold) (\<lambda>run.
           bind (gets runs) (\<lambda>k.
           bind (modify (\<lambda>s. s\<lparr>inFlight := Some (k, run), runs := Suc k\<rparr>)) (\<lambda>_.
           ret k))))))"

section \<open>Public operations\<close>

datatype run_answer = CleanupUnavailable | CleanupDisabled | RunPromise nat

definition make_cleaner :: "'w cleaner_env \<Rightarrow> jsnum \<Rightarrow> jsnum \<Rightarrow> 'w \<Rightarrow> 'w StaleSessionCleaner option" where
  "make_cleaner E limit interval w =
     (if \<not> isInteger limit \<or> \<not> num_ge limit 1 \<or> \<not> num_le limit (of_nat MAX_SESSIONS) \<or>
         \<not> isSafeInteger interval \<or> \<not> num_ge interval 1 \<or> limit \<noteq> Num (of_nat (maxSessions E))
      then None
      else Some (snd (schedule_cleanup E \<lparr>timer = None, inFlight = None, inFlightThresholdHours = None,
        inFlightDependencyFailure = None, lastResult = None, lastDependencyFailure = None, cleaner_shutdown = False,
        cleaner_world = w, registrations = 0, runs = 0\<rparr>)))"

definition runNow :: "'w cleaner_env \<Rightarrow> ('w, run_answer) cleaner" where
  "runNow E =
     bind (gets (\<lambda>s. (cleaner_shutdown s, inFlight s,
        inFlightThresholdHours s = Some 0 \<and> inFlightDependencyFailure s = None,
        thresholdSnapshot E (cleaner_world s)))) (\<lambda>(down, f, nothing, threshold).
       if down then ret CleanupUnavailable
       else case f of
              Some (k, _) \<Rightarrow> ret (if nothing then CleanupDisabled else RunPromise k)
            | None \<Rightarrow>
                if threshold = Available 0 then ret CleanupDisabled
                else bind (startRun E threshold) (\<lambda>k. ret (RunPromise k)))"

datatype idle_answer = Awaiting nat | LastRun CleanupResult | NeverRan

definition waitForIdle :: "'w StaleSessionCleaner \<Rightarrow> idle_answer" where
  "waitForIdle s =
     (case inFlight s of
        Some (k, _) \<Rightarrow> Awaiting k
      | None \<Rightarrow> (case lastResult s of Some r \<Rightarrow> LastRun r | None \<Rightarrow> NeverRan))"

record CleanupStatus =
  enabled :: bool
  running :: bool
  lastRunAt :: "string option"
  dependencyFailure :: "CleanupDependencyFailure option"

definition cleaner_status :: "'w cleaner_env \<Rightarrow> 'w StaleSessionCleaner \<Rightarrow> CleanupStatus" where
  "cleaner_status E s =
     (let threshold = thresholdSnapshot E (cleaner_world s) in
      \<lparr>enabled = (case threshold of Available h \<Rightarrow> h > 0 | Unavailable \<Rightarrow> False),
       running = (inFlight s \<noteq> None),
       lastRunAt = map_option startedAt (lastResult s),
       dependencyFailure = (case threshold of
           Available _ \<Rightarrow> if inFlight s \<noteq> None then inFlightDependencyFailure s else lastDependencyFailure s
         | Unavailable \<Rightarrow> Some SettingsUnavailable)\<rparr>)"

text \<open>The promise returned by \<open>shutdown\<close> resolves when the run in flight, if any, settles.\<close>

definition cleaner_stop :: "'w cleaner_env \<Rightarrow> ('w, unit) cleaner" where
  "cleaner_stop E =
     bind (gets cleaner_shutdown) (\<lambda>down.
       if down then ret ()
       else bind (modify (\<lambda>s. s\<lparr>cleaner_shutdown := True\<rparr>)) (\<lambda>_. cancelTimer E))"

definition fireCleanup :: "'w cleaner_env \<Rightarrow> nat \<Rightarrow> ('w, unit) cleaner" where
  "fireCleanup E k =
     bind (gets (\<lambda>s. (timer s, cleaner_shutdown s, thresholdSnapshot E (cleaner_world s)))) (\<lambda>(t, down, threshold).
       case t of
         None \<Rightarrow> ret ()
       | Some g \<Rightarrow>
           if reg_serial g \<noteq> k then ret ()
           else
             bind (modify (\<lambda>s. s\<lparr>timer := None\<rparr>)) (\<lambda>_.
             if cancelling g \<or> down then ret ()
             else bind (startRun E threshold) (\<lambda>_. ret ())))"

section \<open>Counting\<close>

definition counts_ok :: "cleanup_counts \<Rightarrow> bool" where
  "counts_ok c \<longleftrightarrow> c_examined c = c_terminated c + c_skipped c + c_failed c"

lemma examine_run:
  assumes "examine_tab E th cu i c w = (r, v)"
  shows "\<exists>d. r = Inr d \<and> c_examined d = Suc (c_examined c) \<and> (counts_ok c \<longrightarrow> counts_ok d)"
proof -
  obtain q u where q: "port_read E \<lparr>rq_id = i, rq_thresholdMs = Num (of_int th), rq_cutoffMs = Num (of_int cu)\<rparr> w = (q, u)"
    by (metis surj_pair)
  show ?thesis
  proof (cases q)
    case (Inl e)
    with assms q show ?thesis by (auto simp: examine_tab_def em_simps counts_ok_def Let_def)
  next
    case (Inr x)
    obtain p t where p: "port_terminate E i x u = (p, t)" by (metis surj_pair)
    with assms q Inr show ?thesis
      by (auto simp: examine_tab_def em_simps counts_ok_def Let_def split: if_splits sum.splits CleanupTerminationResult.splits)
  qed
qed

lemma cleanup_loop_run:
  "cleanup_loop E th cu is c w = (r, v) \<Longrightarrow> counts_ok c \<Longrightarrow>
   \<exists>d. r = Inr d \<and> counts_ok d \<and> c_examined d = c_examined c + length is"
proof (induction "is" arbitrary: c w)
  case Nil
  then show ?case by (auto simp: ret_def)
next
  case (Cons i js)
  obtain q u where q: "examine_tab E th cu i c w = (q, u)" by (metis surj_pair)
  obtain d where d: "q = Inr d" "c_examined d = Suc (c_examined c)" "counts_ok d"
    using examine_run [OF q] Cons.prems(2) by blast
  then have "cleanup_loop E th cu js d u = (r, v)" using Cons.prems(1) q by (simp add: bind_apply)
  from Cons.IH [OF this d(3)] d(2) show ?case by auto
qed

text \<open>A result that adds up, over at most \<open>n\<close> tabs.\<close>

definition result_ok :: "nat \<Rightarrow> CleanupResult \<Rightarrow> bool" where
  "result_ok n r \<longleftrightarrow> examined r \<le> n \<and>
     (if disabled r then examined r = 0 \<and> failed r = 0 else True) \<and>
     (terminated r + skipped r + failed r = examined r \<or> examined r = 0 \<and> terminated r = 0 \<and> skipped r = 0 \<and> failed r = 1)"

definition run_ok :: "nat \<Rightarrow> cleanup_run \<Rightarrow> bool" where
  "run_ok n x \<longleftrightarrow> (case x of Settled None \<Rightarrow> True | Settled (Some r) \<Rightarrow> result_ok n r | Looping _ _ is _ \<Rightarrow> length is \<le> n)"

section \<open>The shape of each operation\<close>

lemma schedule_shape:
  obtains tm n w where "schedule_cleanup E s = (Inr (), s\<lparr>timer := tm, registrations := n, cleaner_world := w\<rparr>)"
    "cleaner_shutdown s \<or> timer s \<noteq> None \<Longrightarrow> tm = timer s \<and> n = registrations s"
    "tm \<noteq> timer s \<Longrightarrow> tm = Some \<lparr>reg_serial = registrations s, handle = True, cancelling = False\<rparr>"
    "\<not> cleaner_shutdown s \<Longrightarrow> tm \<noteq> None \<or> (\<exists>k v. n = Suc k \<and> \<not> fst (set_timeout E k v))"
proof (cases "cleaner_shutdown s \<or> timer s \<noteq> None")
  case True
  then have "schedule_cleanup E s = (Inr (), s\<lparr>timer := timer s, registrations := registrations s, cleaner_world := cleaner_world s\<rparr>)"
    by (simp add: schedule_cleanup_def em_simps)
  then show thesis by (rule that) (use True in auto)
next
  case False
  obtain b w where b: "set_timeout E (registrations s) (cleaner_world s) = (b, w)" by (metis surj_pair)
  let ?tm = "if b then Some \<lparr>reg_serial = registrations s, handle = True, cancelling = False\<rparr> else None"
  have run: "schedule_cleanup E s = (Inr (), s\<lparr>timer := ?tm, registrations := Suc (registrations s), cleaner_world := w\<rparr>)"
    using False b by (simp add: schedule_cleanup_def em_simps on_cleaner_world_def)
  have "?tm \<noteq> None \<or> \<not> fst (set_timeout E (registrations s) (cleaner_world s))" using b by simp
  with run False show thesis by (intro that [where tm = ?tm and n = "Suc (registrations s)" and w = w]) (auto split: if_splits)
qed

lemma cancel_shape:
  assumes "\<And>g. timer s = Some g \<Longrightarrow> \<not> cancelling g"
  obtains tm w where "cancelTimer E s = (Inr (), s\<lparr>timer := tm, cleaner_world := w\<rparr>)" "tm = None \<or> tm = timer s"
proof (cases "\<exists>g. timer s = Some g \<and> handle g")
  case False
  then have "cancelTimer E s = (Inr (), s\<lparr>timer := timer s, cleaner_world := cleaner_world s\<rparr>)"
    by (auto simp: cancelTimer_def em_simps split: option.split)
  with that show thesis by blast
next
  case True
  then obtain g where g: "timer s = Some g" "handle g" by blast
  obtain b w where b: "clear_timeout E (reg_serial g) (cleaner_world s) = (b, w)" by (metis surj_pair)
  have "g\<lparr>cancelling := False\<rparr> = g" using assms [OF g(1)] by simp
  then have "cancelTimer E s = (Inr (), s\<lparr>timer := if b then None else timer s, cleaner_world := w\<rparr>)"
    using g b by (simp add: cancelTimer_def em_simps on_cleaner_world_def)
  then show thesis by (rule that) simp
qed

lemma validNow_shape: obtains ms w where "validNow E s = (Inr ms, s\<lparr>cleaner_world := w\<rparr>)"
  using that by (cases "clock_now E (cleaner_world s)") (simp add: validNow_def on_cleaner_world_def em_simps)

lemma cleanup_result_shape:
  obtains r w where "cleanup_result E dis ex te sk fa st s = (Inr r, s\<lparr>cleaner_world := w\<rparr>)"
    "\<And>x. r = Some x \<Longrightarrow> disabled x = dis \<and> examined x = ex \<and> terminated x = te \<and> skipped x = sk \<and> failed x = fa"
proof -
  obtain ms w where "validNow E s = (Inr ms, s\<lparr>cleaner_world := w\<rparr>)" by (rule validNow_shape)
  then have "cleanup_result E dis ex te sk fa st s = (Inr (map_option (\<lambda>fin. \<lparr>disabled = dis, examined = ex,
      terminated = te, skipped = sk, failed = fa, startedAt = st, finishedAt = fin\<rparr>) (toISOString E ms)), s\<lparr>cleaner_world := w\<rparr>)"
    by (simp add: cleanup_result_def em_simps)
  then show thesis by (rule that) auto
qed

lemma execute_begin_shape:
  obtains x f w where "execute_begin E th s = (Inr x, s\<lparr>inFlightDependencyFailure := f, cleaner_world := w\<rparr>)" "run_ok (maxSessions E) x"
proof -
  obtain ms w where n: "validNow E s = (Inr ms, s\<lparr>cleaner_world := w\<rparr>)" by (rule validNow_shape)
  have settle: "\<exists>x v. bind (cleanup_result E (b = 0) 0 0 0 b st) (\<lambda>r. ret (Settled r)) u = (Inr x, u\<lparr>cleaner_world := v\<rparr>) \<and>
      run_ok (maxSessions E) x" if "b = 0 \<or> b = 1" for b st u
  proof -
    obtain r v where r: "cleanup_result E (b = 0) 0 0 0 b st u = (Inr r, u\<lparr>cleaner_world := v\<rparr>)"
      "\<And>x. r = Some x \<Longrightarrow> disabled x = (b = 0) \<and> examined x = 0 \<and> terminated x = 0 \<and> skipped x = 0 \<and> failed x = b"
      by (rule cleanup_result_shape [of E "b = 0" 0 0 0 b st u]) (rule that, assumption, blast)
    have "run_ok (maxSessions E) (Settled r)" using r(2) that by (auto simp: run_ok_def result_ok_def split: option.split)
    with r(1) show ?thesis by (auto simp: em_simps)
  qed
  show thesis
  proof (cases "toISOString E ms")
    case None
    with n that [where x = "Settled None" and f = "inFlightDependencyFailure s" and w = w] show thesis
      by (simp add: execute_begin_def em_simps run_ok_def)
  next
    case (Some st)
    show thesis
    proof (cases th)
      case Unavailable
      with n Some settle [of 1 st "s\<lparr>cleaner_world := w\<rparr>"] that [where f = "inFlightDependencyFailure s"] show thesis
        by (auto simp: execute_begin_def em_simps)
    next
      case (Available h)
      note c = settle [of 0 st "s\<lparr>cleaner_world := w\<rparr>"]
        settle [of 1 st "s\<lparr>cleaner_world := w, inFlightDependencyFailure := Some TabsUnavailable\<rparr>"]
      consider "h = 0" | "h \<noteq> 0" "read_tabs E w = None" | ids where "h \<noteq> 0" "read_tabs E w = Some ids" by auto
      then show thesis
      proof cases
        case 1
        with n Some Available c(1) that [where f = "inFlightDependencyFailure s"] show thesis
          by (auto simp: execute_begin_def em_simps)
      next
        case 2
        have "execute_begin E th s = bind (cleanup_result E False 0 0 0 1 st) (\<lambda>r. ret (Settled r))
            (s\<lparr>cleaner_world := w, inFlightDependencyFailure := Some TabsUnavailable\<rparr>)"
          using 2 n Some Available by (simp add: execute_begin_def em_simps)
        with c(2) that [where f = "Some TabsUnavailable"] show thesis by auto
      next
        case 3
        with n Some Available that [where x = "Looping (h * HOUR_MS) (ms - h * HOUR_MS) (take (maxSessions E) ids) st"
            and f = "inFlightDependencyFailure s" and w = w] show thesis
          by (simp add: execute_begin_def em_simps run_ok_def)
      qed
    qed
  qed
qed

lemma execute_rest_shape:
  assumes "run_ok n x"
  obtains r w where "execute_rest E x s = (Inr r, s\<lparr>cleaner_world := w\<rparr>)" "\<And>y. r = Some y \<Longrightarrow> result_ok n y"
proof (cases x)
  case (Settled r)
  show thesis by (rule that [of r "cleaner_world s"]) (use assms Settled in \<open>simp_all add: execute_rest_def ret_def run_ok_def\<close>)
next
  case (Looping th cu ids st)
  let ?c0 = "\<lparr>c_examined = 0, c_terminated = 0, c_skipped = 0, c_failed = 0\<rparr>"
  obtain q w where q: "cleanup_loop E th cu ids ?c0 (cleaner_world s) = (q, w)" by (metis surj_pair)
  obtain c where c: "q = Inr c" "counts_ok c" "c_examined c = length ids"
    using cleanup_loop_run [OF q] by (auto simp: counts_ok_def)
  obtain r v where r: "cleanup_result E False (c_examined c) (c_terminated c) (c_skipped c) (c_failed c) st
      (s\<lparr>cleaner_world := w\<rparr>) = (Inr r, (s\<lparr>cleaner_world := w\<rparr>)\<lparr>cleaner_world := v\<rparr>)"
    "\<And>x. r = Some x \<Longrightarrow> disabled x = False \<and> examined x = c_examined c \<and> terminated x = c_terminated c \<and>
      skipped x = c_skipped c \<and> failed x = c_failed c"
    by (rule cleanup_result_shape [of E False "c_examined c" "c_terminated c" "c_skipped c" "c_failed c" st "s\<lparr>cleaner_world := w\<rparr>"])
       (rule that, assumption, blast)
  show thesis
  proof (rule that)
    show "execute_rest E x s = (Inr r, s\<lparr>cleaner_world := v\<rparr>)"
      using Looping q c(1) r(1) by (simp add: execute_rest_def on_cleaner_world_def em_simps)
    show "result_ok n y" if "r = Some y" for y
      using r(2) [OF that] c(2,3) assms Looping by (simp add: result_ok_def counts_ok_def run_ok_def)
  qed
qed

section \<open>Runs of the cleaner\<close>

datatype 'w cleaner_event = CRunNow | CFire nat | CSettle | CStop | COther "'w \<Rightarrow> 'w"

fun cleaner_step :: "'w cleaner_env \<Rightarrow> 'w cleaner_event \<Rightarrow> 'w StaleSessionCleaner \<Rightarrow> 'w StaleSessionCleaner" where
  "cleaner_step E CRunNow s = snd (runNow E s)"
| "cleaner_step E (CFire k) s = snd (fireCleanup E k s)"
| "cleaner_step E CSettle s = snd (settle_run E s)"
| "cleaner_step E CStop s = snd (cleaner_stop E s)"
| "cleaner_step E (COther f) s = s\<lparr>cleaner_world := f (cleaner_world s)\<rparr>"

definition cleaner_inv :: "'w cleaner_env \<Rightarrow> 'w StaleSessionCleaner \<Rightarrow> bool" where
  "cleaner_inv E s \<longleftrightarrow>
     (\<forall>g. timer s = Some g \<longrightarrow> \<not> cancelling g \<and> handle g) \<and>
     (\<forall>k x. inFlight s = Some (k, x) \<longrightarrow> run_ok (maxSessions E) x) \<and>
     (\<forall>r. lastResult s = Some r \<longrightarrow> result_ok (maxSessions E) r)"

text \<open>The scheduler threw when the cleaner last asked it for a timer.\<close>

definition arming_failed :: "'w cleaner_env \<Rightarrow> 'w StaleSessionCleaner \<Rightarrow> bool" where
  "arming_failed E s \<longleftrightarrow> (\<exists>k v. registrations s = Suc k \<and> \<not> fst (set_timeout E k v))"

text \<open>A timer is armed or a run is under way, unless the last arming failed.\<close>

definition cleaner_live :: "'w cleaner_env \<Rightarrow> 'w StaleSessionCleaner \<Rightarrow> bool" where
  "cleaner_live E s \<longleftrightarrow> cleaner_shutdown s \<or> timer s \<noteq> None \<or> inFlight s \<noteq> None \<or> arming_failed E s"

lemma schedule_inv:
  assumes "cleaner_inv E s"
  shows "cleaner_inv E (snd (schedule_cleanup E s))" "cleaner_live E (snd (schedule_cleanup E s))"
  by (rule schedule_shape [of E s]; use assms in \<open>force simp: cleaner_inv_def cleaner_live_def arming_failed_def\<close>)+

lemma start_shape:
  assumes "cleaner_inv E s" "startRun E th s = (r, t)"
  shows "cleaner_inv E t" "inFlight t \<noteq> None" "cleaner_shutdown t = cleaner_shutdown s" "inFlight s \<noteq> None \<Longrightarrow> t = s"
    "registrations t = registrations s" "\<exists>k. r = Inr k"
proof -
  have "cleaner_inv E t \<and> inFlight t \<noteq> None \<and> cleaner_shutdown t = cleaner_shutdown s \<and> (inFlight s \<noteq> None \<longrightarrow> t = s) \<and>
    registrations t = registrations s \<and> (\<exists>k. r = Inr k)"
  proof (cases "inFlight s")
    case (Some y)
    with assms show ?thesis by (cases y) (auto simp: startRun_def em_simps)
  next
    case None
    obtain tm w where c: "cancelTimer E s = (Inr (), s\<lparr>timer := tm, cleaner_world := w\<rparr>)" "tm = None \<or> tm = timer s"
      by (rule cancel_shape [of s E]) (use assms(1) in \<open>auto simp: cleaner_inv_def\<close>)
    define u where "u = s\<lparr>timer := tm, cleaner_world := w,
      inFlightThresholdHours := (case th of Available h \<Rightarrow> Some h | Unavailable \<Rightarrow> None),
      inFlightDependencyFailure := (case th of Available _ \<Rightarrow> None | Unavailable \<Rightarrow> Some SettingsUnavailable)\<rparr>"
    obtain x f v where x: "execute_begin E th u = (Inr x, u\<lparr>inFlightDependencyFailure := f, cleaner_world := v\<rparr>)"
      "run_ok (maxSessions E) x" by (rule execute_begin_shape)
    have "t = u\<lparr>inFlightDependencyFailure := f, cleaner_world := v, inFlight := Some (runs u, x), runs := Suc (runs u)\<rparr>"
      "\<exists>k. r = Inr k"
      using assms(2) None c(1) x(1) by (auto simp: startRun_def em_simps u_def)
    then show ?thesis using assms(1) c(2) x(2) None by (auto simp: cleaner_inv_def u_def)
  qed
  then show "cleaner_inv E t" "inFlight t \<noteq> None" "cleaner_shutdown t = cleaner_shutdown s" "inFlight s \<noteq> None \<Longrightarrow> t = s"
    "registrations t = registrations s" "\<exists>k. r = Inr k" by blast+
qed

lemma settle_shape:
  assumes "cleaner_inv E s"
  shows "cleaner_inv E (snd (settle_run E s)) \<and> inFlight (snd (settle_run E s)) = None \<and>
    cleaner_shutdown (snd (settle_run E s)) = cleaner_shutdown s \<and> runs (snd (settle_run E s)) = runs s \<and>
    (cleaner_shutdown s \<longrightarrow> registrations (snd (settle_run E s)) = registrations s) \<and>
    (cleaner_live E s \<longrightarrow> cleaner_live E (snd (settle_run E s)))"
proof (cases "inFlight s")
  case None
  with assms show ?thesis by (simp add: settle_run_def em_simps)
next
  case (Some y)
  then obtain k x where y: "inFlight s = Some (k, x)" by (cases y) auto
  have ok: "run_ok (maxSessions E) x" using assms y by (simp add: cleaner_inv_def)
  obtain r w where r: "execute_rest E x s = (Inr r, s\<lparr>cleaner_world := w\<rparr>)" "\<And>z. r = Some z \<Longrightarrow> result_ok (maxSessions E) z"
    by (rule execute_rest_shape [OF ok, of E s]) (rule that, assumption, blast)
  define u where "u = (case r of None \<Rightarrow> s\<lparr>cleaner_world := w\<rparr>
      | Some z \<Rightarrow> s\<lparr>cleaner_world := w, lastResult := Some z, lastDependencyFailure := inFlightDependencyFailure s\<rparr>)
     \<lparr>inFlight := None, inFlightThresholdHours := None, inFlightDependencyFailure := None\<rparr>"
  have run: "settle_run E s = schedule_cleanup E u"
    using y r(1) by (simp add: settle_run_def finishRun_def em_simps u_def split: option.split)
  have u: "cleaner_inv E u" "inFlight u = None" "cleaner_shutdown u = cleaner_shutdown s" "runs u = runs s"
    "registrations u = registrations s"
    using assms r(2) by (auto simp: cleaner_inv_def u_def split: option.split)
  obtain tm n v where "schedule_cleanup E u = (Inr (), u\<lparr>timer := tm, registrations := n, cleaner_world := v\<rparr>)"
    "cleaner_shutdown u \<Longrightarrow> n = registrations u" by (rule schedule_shape [of E u]) (rule that, assumption, blast)
  then show ?thesis unfolding run using u schedule_inv [OF u(1)] by auto
qed

text \<open>What an event keeps, and what it cannot do after shutdown.\<close>

lemma cleaner_step_inv:
  assumes "cleaner_inv E s"
  shows "cleaner_inv E (cleaner_step E e s) \<and> (cleaner_live E s \<longrightarrow> cleaner_live E (cleaner_step E e s)) \<and>
    (cleaner_shutdown s \<longrightarrow> cleaner_shutdown (cleaner_step E e s) \<and> runs (cleaner_step E e s) = runs s \<and>
       registrations (cleaner_step E e s) = registrations s \<and> (inFlight s = None \<longrightarrow> inFlight (cleaner_step E e s) = None))"
proof (cases e)
  case CRunNow
  obtain r t where t: "startRun E (thresholdSnapshot E (cleaner_world s)) s = (r, t)" by (metis surj_pair)
  from start_shape [OF assms t] assms CRunNow t show ?thesis
    by (auto simp: runNow_def em_simps cleaner_live_def arming_failed_def split: option.split)
next
  case (CFire k)
  let ?u = "s\<lparr>timer := None\<rparr>"
  obtain r t where t: "startRun E (thresholdSnapshot E (cleaner_world s)) ?u = (r, t)" by (metis surj_pair)
  have u: "cleaner_inv E ?u" using assms by (simp add: cleaner_inv_def)
  have g: "timer s = Some g \<Longrightarrow> \<not> cancelling g" for g using assms by (simp add: cleaner_inv_def)
  from start_shape [OF u t] assms CFire t u g show ?thesis
    by (auto simp: fireCleanup_def em_simps cleaner_live_def arming_failed_def split: option.split)
next
  case CSettle
  with settle_shape [OF assms] show ?thesis by simp
next
  case CStop
  obtain tm w where c: "cancelTimer E (s\<lparr>cleaner_shutdown := True\<rparr>) = (Inr (), (s\<lparr>cleaner_shutdown := True\<rparr>)\<lparr>timer := tm, cleaner_world := w\<rparr>)"
    "tm = None \<or> tm = timer s"
    by (rule cancel_shape [of "s\<lparr>cleaner_shutdown := True\<rparr>" E]) (use assms in \<open>auto simp: cleaner_inv_def\<close>)
  with assms CStop show ?thesis by (auto simp: cleaner_stop_def em_simps cleaner_inv_def cleaner_live_def)
qed (use assms in \<open>simp add: cleaner_inv_def cleaner_live_def arming_failed_def\<close>)

lemma cleaner_run_inv:
  assumes "cleaner_inv E s"
  shows "cleaner_inv E (fold (cleaner_step E) es s)"
    "cleaner_live E s \<Longrightarrow> cleaner_live E (fold (cleaner_step E) es s)"
  using assms by (induction es arbitrary: s) (simp_all add: cleaner_step_inv)

lemma make_cleaner_inv:
  assumes "make_cleaner E limit interval w = Some s"
  shows "cleaner_inv E s" "cleaner_live E s" "maxSessions E \<le> 20"
proof -
  let ?s0 = "\<lparr>timer = None, inFlight = None, inFlightThresholdHours = None,
        inFlightDependencyFailure = None, lastResult = None, lastDependencyFailure = None, cleaner_shutdown = False,
        cleaner_world = w, registrations = 0, runs = 0\<rparr>"
  have s: "s = snd (schedule_cleanup E ?s0)" and m: "maxSessions E \<le> 20"
    using assms by (auto simp: make_cleaner_def MAX_SESSIONS_def split: if_splits)
  have "cleaner_inv E ?s0" by (simp add: cleaner_inv_def)
  from schedule_inv [OF this] s m show "cleaner_inv E s" "cleaner_live E s" "maxSessions E \<le> 20" by simp_all
qed

section \<open>Properties\<close>

text \<open>
  Every result of a cleanup run adds up: the run looked at no more than the configured number of
  tabs, which is at most 20, and each of them was counted as terminated, skipped or failed; a run
  that could not read its settings or the tab list looked at none and reports one failure; a disabled
  run reports nothing.
\<close>

theorem cleanup_adds_up:
  assumes "make_cleaner E limit interval w = Some s0" "lastResult (fold (cleaner_step E) es s0) = Some r"
  shows "examined r \<le> maxSessions E \<and> maxSessions E \<le> 20 \<and>
    (terminated r + skipped r + failed r = examined r \<or>
     examined r = 0 \<and> terminated r = 0 \<and> skipped r = 0 \<and> failed r = 1 \<and> \<not> disabled r)"
  using cleaner_run_inv(1) [OF make_cleaner_inv(1) [OF assms(1)], of es] make_cleaner_inv(3) [OF assms(1)] assms(2)
  by (auto simp: cleaner_inv_def result_ok_def split: if_splits)

text \<open>
  C38. Cleanup stalls only when the scheduler refuses a timer, and recovers: in every state of a cleaner that is
  not shut down a run is under way, or a timer is armed whose firing starts one, or the scheduler threw when it was
  last asked for a timer; a run that settles ends, whatever happened between its start and its end; and in any of these
  states a manual run, unless cleanup is switched off, is under way at once.
\<close>

theorem cleaner_progress:
  assumes "make_cleaner E limit interval w = Some s0" "s = fold (cleaner_step E) es s0" and "\<not> cleaner_shutdown s"
  shows "inFlight (cleaner_step E CSettle s) = None \<and>
    (inFlight s \<noteq> None \<or> (\<exists>g. timer s = Some g \<and> inFlight (cleaner_step E (CFire (reg_serial g)) s) \<noteq> None) \<or>
     (\<exists>k v. registrations s = Suc k \<and> \<not> fst (set_timeout E k v))) \<and>
    (read_settings E (cleaner_world s) = Some (Num 0) \<or> inFlight (cleaner_step E CRunNow s) \<noteq> None)"
proof -
  have inv: "cleaner_inv E s" and live: "cleaner_live E s"
    using cleaner_run_inv [OF make_cleaner_inv(1) [OF assms(1)], of es] make_cleaner_inv(2) [OF assms(1)] assms(2) by simp_all
  have "inFlight (cleaner_step E (CFire (reg_serial g)) s) \<noteq> None" if g: "timer s = Some g" for g
  proof -
    obtain r t where t: "startRun E (thresholdSnapshot E (cleaner_world s)) (s\<lparr>timer := None\<rparr>) = (r, t)" by (metis surj_pair)
    have "cleaner_inv E (s\<lparr>timer := None\<rparr>)" "\<not> cancelling g" using inv g by (simp_all add: cleaner_inv_def)
    with start_shape(2,6) [OF this(1) t] t g assms(3) show ?thesis by (auto simp: fireCleanup_def em_simps)
  qed
  moreover have "inFlight (cleaner_step E CRunNow s) \<noteq> None" if "read_settings E (cleaner_world s) \<noteq> Some (Num 0)"
  proof -
    obtain r t where t: "startRun E (thresholdSnapshot E (cleaner_world s)) s = (r, t)" by (metis surj_pair)
    have "thresholdSnapshot E (cleaner_world s) \<noteq> Available 0"
      using that by (auto simp: thresholdSnapshot_def floor_eq_iff split: option.splits jsnum.splits if_splits)
    with start_shape(2,4,6) [OF inv t] t assms(3) show ?thesis by (auto simp: runNow_def em_simps split: option.split)
  qed
  ultimately show ?thesis using live assms(3) settle_shape [OF inv] by (auto simp: cleaner_live_def arming_failed_def)
qed

text \<open>
  Shutdown is final: after \<open>shutdown\<close> no run is ever started and no timer is ever armed again, and
  once the run that was under way has settled none is.
\<close>

theorem cleaner_rests:
  assumes "make_cleaner E limit interval w = Some s0" "s = cleaner_step E CStop (fold (cleaner_step E) es s0)"
    and "t = fold (cleaner_step E) es' s"
  shows "runs t = runs s \<and> registrations t = registrations s \<and> (CSettle \<in> set es' \<longrightarrow> inFlight t = None)"
proof -
  have inv: "cleaner_inv E s" and down: "cleaner_shutdown s"
  proof -
    have u: "cleaner_inv E (fold (cleaner_step E) es s0)" by (rule cleaner_run_inv(1) [OF make_cleaner_inv(1) [OF assms(1)]])
    then show "cleaner_inv E s" using assms(2) cleaner_step_inv by metis
    let ?u = "(fold (cleaner_step E) es s0)\<lparr>cleaner_shutdown := True\<rparr>"
    obtain tm v where "cancelTimer E ?u = (Inr (), ?u\<lparr>timer := tm, cleaner_world := v\<rparr>)"
      by (rule cancel_shape [of ?u E]) (use u in \<open>auto simp: cleaner_inv_def\<close>)
    then show "cleaner_shutdown s" unfolding assms(2) by (auto simp: cleaner_stop_def em_simps)
  qed
  have "runs t = runs s \<and> registrations t = registrations s \<and> (CSettle \<in> set es' \<or> inFlight s = None \<longrightarrow> inFlight t = None)"
    unfolding assms(3) using inv down
  proof (induction es' arbitrary: s)
    case (Cons e es)
    have "e = CSettle \<Longrightarrow> inFlight (cleaner_step E e s) = None" using settle_shape [OF Cons.prems(1)] by simp
    with Cons.IH [of "cleaner_step E e s"] cleaner_step_inv [OF Cons.prems(1), of e] Cons.prems(2) show ?case by auto
  qed simp
  then show ?thesis by blast
qed

section \<open>An example\<close>

text \<open>Two tabs; the reader says that the first is eligible and fails on the second.\<close>

definition example_cleaner :: "nat cleaner_env" where
  "example_cleaner = \<lparr>read_settings = (\<lambda>_. Some (Num 24)), read_tabs = (\<lambda>_. Some [''a'', ''b'']),
     port_read = (\<lambda>q w. if rq_id q = ''a''
        then (Inr \<lparr>el_id = ''a'', el_thresholdMs = rq_thresholdMs q, el_cutoffMs = rq_cutoffMs q, eligible = True, reason = None,
               generation = \<lparr>gen_structure = 0, gen_activity = 0, gen_sockets = 0\<rparr>\<rparr>, w)
        else (Inl (), w)),
     port_terminate = (\<lambda>i x w. (Inr Terminated, Suc w)), maxSessions = 5, set_timeout = (\<lambda>_ w. (True, w)),
     clear_timeout = (\<lambda>_ w. (True, w)), clock_now = (\<lambda>w. (Num 1000, w)), iso_string = (\<lambda>_. ''t'')\<rparr>"

definition example_cleaner_state :: "nat StaleSessionCleaner" where
  "example_cleaner_state = the (make_cleaner example_cleaner (Num 5) (Num 1000) 0)"

lemma example_cleaner_made: "make_cleaner example_cleaner (Num 5) (Num 1000) 0 = Some example_cleaner_state"
  by (simp add: example_cleaner_state_def make_cleaner_def example_cleaner_def MAX_SESSIONS_def safe_int_def MAX_SAFE_INTEGER_def)

text \<open>A scheduler that refuses the first timer: a manual run starts, and the next timer is armed when it settles.\<close>

definition refusing_cleaner :: "nat cleaner_env" where
  "refusing_cleaner = example_cleaner\<lparr>set_timeout := (\<lambda>k w. (k \<noteq> 0, w))\<rparr>"

definition refused_state :: "nat StaleSessionCleaner" where
  "refused_state = the (make_cleaner refusing_cleaner (Num 5) (Num 1000) 0)"

lemma refused_made: "make_cleaner refusing_cleaner (Num 5) (Num 1000) 0 = Some refused_state"
  by (simp add: refused_state_def make_cleaner_def refusing_cleaner_def example_cleaner_def MAX_SESSIONS_def safe_int_def MAX_SAFE_INTEGER_def)

theorem cleaner_progress_witness:
  "timer refused_state = None \<and> inFlight refused_state = None \<and> inFlight (cleaner_step refusing_cleaner CRunNow refused_state) \<noteq> None"
proof -
  have s: "timer refused_state = None" "inFlight refused_state = None" "\<not> cleaner_shutdown refused_state"
    by (simp_all add: refused_state_def make_cleaner_def refusing_cleaner_def example_cleaner_def MAX_SESSIONS_def safe_int_def
      MAX_SAFE_INTEGER_def schedule_cleanup_def em_simps on_cleaner_world_def)
  have "read_settings refusing_cleaner (cleaner_world refused_state) \<noteq> Some (Num 0)"
    by (simp add: refusing_cleaner_def example_cleaner_def)
  with cleaner_progress [OF refused_made, of refused_state "[]"] s show ?thesis by simp
qed

theorem cleaner_rests_witness:
  "runs (fold (cleaner_step example_cleaner) [CFire 0, CRunNow, CSettle]
      (cleaner_step example_cleaner CStop (fold (cleaner_step example_cleaner) [CRunNow] example_cleaner_state))) =
   runs (cleaner_step example_cleaner CStop (fold (cleaner_step example_cleaner) [CRunNow] example_cleaner_state))"
  using cleaner_rests [OF example_cleaner_made refl refl] by blast

theorem cleanup_adds_up_witness:
  "\<exists>r. lastResult (fold (cleaner_step example_cleaner) [CRunNow, CSettle] example_cleaner_state) = Some r \<and> examined r \<le> 5"
proof -
  have "\<exists>r. lastResult (fold (cleaner_step example_cleaner) [CRunNow, CSettle] example_cleaner_state) = Some r"
    by (simp add: example_cleaner_def example_cleaner_state_def make_cleaner_def MAX_SESSIONS_def safe_int_def
      MAX_SAFE_INTEGER_def schedule_cleanup_def em_simps on_cleaner_world_def runNow_def startRun_def cancelTimer_def
      thresholdSnapshot_def execute_begin_def validNow_def toISOString_def MAX_DATE_MS_def MAX_THRESHOLD_HOURS_def
      settle_run_def execute_rest_def finishRun_def examine_tab_def cleanup_result_def Let_def)
  then obtain r where r: "lastResult (fold (cleaner_step example_cleaner) [CRunNow, CSettle] example_cleaner_state) = Some r" by blast
  have "maxSessions example_cleaner = 5" by (simp add: example_cleaner_def)
  with cleanup_adds_up [OF example_cleaner_made r] r show ?thesis by auto
qed

end
