(* ===== verification/StaleCleanup.thy ===== *)
theory StaleCleanup
  imports SessionProperties StaleSessionCleaner
begin

text \<open>
  The pieces of stale session cleanup put together: the eligibility reader on the manager's own tab
  store, registry and runtime, and the manager's termination of a session it reports. The activity
  tracker and the socket index are read through their reports.
\<close>

declare map_of_eq_Some_iff [simp del] Some_eq_map_of_iff [simp del]

section \<open>The reader on the manager's state\<close>

definition manager_sources ::
  "(string \<Rightarrow> 'w \<Rightarrow> (int \<times> bool) option) \<Rightarrow> (string \<Rightarrow> 'w \<Rightarrow> (int \<times> int) option) \<Rightarrow> ('w, TabStore) SessionManager
   \<Rightarrow> cleanup_sources"
where
  "manager_sources act soc s =
     \<lparr>src_tabs = document (tab_store s), src_activity = (\<lambda>i. act i (world s)), src_sockets = (\<lambda>i. soc i (world s)),
      src_bridged = (\<lambda>i. Some (registry_get i s \<noteq> None))\<rparr>"

definition manager_reader ::
  "(string \<Rightarrow> 'w \<Rightarrow> (int \<times> bool) option) \<Rightarrow> (string \<Rightarrow> 'w \<Rightarrow> (int \<times> int) option) \<Rightarrow> ('w, TabStore) manager_env
   \<Rightarrow> ('w, TabStore) eligibility_reader"
where
  "manager_reader act soc E q s =
     (let before = manager_sources act soc s;
          asks = validRequest q \<and> rq_thresholdMs q \<noteq> Num 0 \<and>
            (case capture before (rq_id q) of Inr (Some _) \<Rightarrow> True | _ \<Rightarrow> False)
      in if \<not> asks then (Inr (read_eligibility q before None before), world s)
         else case rt_exists (m_runtime E) (rq_id q) (world s) of
                (r, w) \<Rightarrow>
                  (Inr (read_eligibility q before (case r of Inl _ \<Rightarrow> None | Inr b \<Rightarrow> Some b)
                     (manager_sources act soc (s\<lparr>world := w\<rparr>))), w))"

lemma reader_eligible:
  assumes "manager_reader act soc E q s = (Inr fresh, w)" "eligible fresh"
  obtains b a where "capture (manager_sources act soc s) (rq_id q) = Inr (Some b)" "sameState b a"
    "eligible (decide q True a)" "rt_exists (m_runtime E) (rq_id q) (world s) = (Inr True, w)"
    "fresh = eligibility_result q True None (Some a)" "validRequest q"
proof -
  let ?before = "manager_sources act soc s"
  obtain r v where r: "rt_exists (m_runtime E) (rq_id q) (world s) = (r, v)" by (metis surj_pair)
  have never: "\<not> eligible (read_eligibility q ?before None ?before)"
  proof
    assume "eligible (read_eligibility q ?before None ?before)"
    then show False by (rule read_eligible) simp
  qed
  let ?after = "manager_sources act soc (s\<lparr>world := v\<rparr>)"
  have f: "fresh = read_eligibility q ?before (case r of Inl _ \<Rightarrow> None | Inr b \<Rightarrow> Some b) ?after" "w = v"
    using assms never r by (auto simp: manager_reader_def Let_def split: if_splits)
  from assms(2) [unfolded f(1)] show thesis
  proof (rule read_eligible)
    fix b a
    assume ba: "validRequest q" "capture ?before (rq_id q) = Inr (Some b)" "sameState b a" "eligible (decide q True a)"
      and p: "(case r of Inl _ \<Rightarrow> None | Inr b \<Rightarrow> Some b) = Some True"
      and e: "read_eligibility q ?before (case r of Inl _ \<Rightarrow> None | Inr b \<Rightarrow> Some b) ?after = eligibility_result q True None (Some a)"
    have "r = Inr True" using p by (cases r) auto
    with that [OF ba(2-4) _ _ ba(1)] r f e show thesis by simp
  qed
qed

lemma stale_run:
  assumes "terminateIfStale E (Some rd) i c s = (Inr Terminated, t)"
  obtains fresh w v where "rd \<lparr>rq_id = i, rq_thresholdMs = el_thresholdMs c, rq_cutoffMs = el_cutoffMs c\<rparr> s = (Inr fresh, w)"
    "eligible fresh" "sameEligibilityGeneration c fresh" "terminateLocked E i (s\<lparr>world := w\<rparr>) = (Inr v, t)"
proof -
  obtain r w where r: "rd \<lparr>rq_id = i, rq_thresholdMs = el_thresholdMs c, rq_cutoffMs = el_cutoffMs c\<rparr> s = (r, w)"
    by (metis surj_pair)
  show thesis
  proof (cases r)
    case (Inl e)
    with assms r show thesis by (simp add: terminateIfStale_def ask_reader_def em_simps split: if_splits option.splits)
  next
    case (Inr fresh)
    obtain q u where q: "terminateLocked E i (s\<lparr>world := w\<rparr>) = (q, u)" by (metis surj_pair)
    from assms r Inr q that [of fresh w] show thesis
      by (cases q) (auto simp: terminateIfStale_def ask_reader_def em_simps split: if_splits)
  qed
qed

text \<open>
  C19. Cleanup ends only idle sessions: when the manager reports a session as terminated by cleanup, then
  at the moment it checked, the tmux session existed, the tab was recorded as active and last active
  before the cutoff, no bridge was registered, no socket attached and no activity unwritten, all at the
  very generations of the earlier capture; and afterwards the session is gone and recorded as stopped.
\<close>

theorem cleanup_ends_only_idle:
  assumes "run_ready V X live E s" "names_apart live"
    "terminateIfStale E (Some (manager_reader act soc E)) i c s = (Inr Terminated, t)"
  shows "tab_alive live (world s) i \<and> registry_get i s = None \<and>
    act i (world s) = Some (gen_activity (generation c), False) \<and> soc i (world s) = Some (gen_sockets (generation c), 0) \<and>
    (\<exists>d x ms. document (tab_store s) = Some d \<and> x \<in> set (tabs d) \<and> tab_id x = i \<and> desiredState x = Active \<and>
       int (structureRevision d) = gen_structure (generation c) \<and>
       parseUtcTimestamp (lastActivityAt x) = Some ms \<and> \<not> num_le (el_cutoffMs c) (of_int ms)) \<and>
    \<not> tab_alive live (world t) i \<and> wants Stopped (document (tab_store t)) i"
proof -
  let ?q = "\<lparr>rq_id = i, rq_thresholdMs = el_thresholdMs c, rq_cutoffMs = el_cutoffMs c\<rparr>"
  obtain fresh w v where f: "manager_reader act soc E ?q s = (Inr fresh, w)" "eligible fresh" "sameEligibilityGeneration c fresh"
    "terminateLocked E i (s\<lparr>world := w\<rparr>) = (Inr v, t)" by (rule stale_run [OF assms(3)])
  from f(1,2) obtain b a where b: "capture (manager_sources act soc s) i = Inr (Some b)" "sameState b a"
    "eligible (decide ?q True a)" "rt_exists (m_runtime E) i (world s) = (Inr True, w)"
    "fresh = eligibility_result ?q True None (Some a)" by (rule reader_eligible) auto
  have wired: "manager_wired V X live E" using assms(1) by (simp add: run_ready_def)
  have alive: "tab_alive live (world s) i"
    using tmux_rt.exists_law [of X live i "world s" "Inr True" w] b(4) wired assms(2) by (auto simp: manager_wired_def)
  have "run_ready V X live E (s\<lparr>world := w\<rparr>)" using assms(1) by (simp add: run_ready_def)
  then have ended: "\<not> tab_alive live (world t) i" "wants Stopped (document (tab_store t)) i"
    using managed.terminate_run [of V X live E "s\<lparr>world := w\<rparr>" i v t] f(4) assms(2) by (simp_all add: run_ready_def managed.ended_def)
  note d = decide_eligible [OF b(3)]
  have zero: "snd (st_sockets b) = 0" using capture_counts(1) [OF b(1)] d(3) b(2) by (simp add: sameState_def)
  have flags: "st_desiredState b = Active" "\<not> st_bridged b" "\<not> snd (st_activity b)"
    "st_structure b = gen_structure (generation c)" "fst (st_activity b) = gen_activity (generation c)"
    "fst (st_sockets b) = gen_sockets (generation c)"
    using d(1,4,5) b(2,5) f(3) by (simp_all add: sameState_def sameEligibilityGeneration_def eligibility_result_def)
  from d(6) obtain ms where ms: "parseUtcTimestamp (st_lastActivityAt b) = Some ms" "\<not> num_le (el_cutoffMs c) (of_int ms)"
    using b(2) by (auto simp: sameState_def)
  from capture_tab [OF b(1)] obtain e x where x: "document (tab_store s) = Some e" "x \<in> set (tabs e)" "tab_id x = i"
    "desiredState x = Active" "lastActivityAt x = st_lastActivityAt b" "int (structureRevision e) = gen_structure (generation c)"
    "act i (world s) = Some (st_activity b)" "soc i (world s) = Some (st_sockets b)" "registry_get i s = None"
    using flags by (auto simp: manager_sources_def)
  have "st_activity b = (gen_activity (generation c), False)" "st_sockets b = (gen_sockets (generation c), 0)"
    using flags zero by (simp_all add: prod_eq_iff)
  with x ms alive ended show ?thesis by metis
qed

section \<open>An idle session\<close>

definition stale_tabs :: TabDocument where
  "stale_tabs = \<lparr>structureRevision = 3, tabs = [idle_tab]\<rparr>"

definition stale_state :: "(string list, TabStore) SessionManager" where
  "stale_state = new_manager [session_name (tab_id idle_tab)]
     ((new_store 3 (Some (put_document stale_tabs)) [] [])\<lparr>document := Some stale_tabs, ready := True\<rparr>)"

definition stale_capture :: EligibilitySnapshot where
  "stale_capture = read_eligibility idle_request idle_sources (Some True) idle_sources"

lemma idle_tab_parses:
  "parseTab plain_text (idle_tab\<lparr>desiredState := st\<rparr>) = Some (idle_tab\<lparr>desiredState := st\<rparr>)"
  using idle_id
  by (auto simp: parseTab_def idle_tab_def plain_text_def persistedDisplayName_def safeNormalizedString_def
      safe_character_def forbiddenCharacter_def js_trim_def white_space_def utf8ByteLength_def safe_int_def
      MAX_SAFE_INTEGER_def)

lemma stale_parses:
  "k = 3 \<or> k = 4 \<Longrightarrow> parseDocument plain_text \<lparr>structureRevision = k, tabs = [idle_tab\<lparr>desiredState := st\<rparr>]\<rparr> =
     Some \<lparr>structureRevision = k, tabs = [idle_tab\<lparr>desiredState := st\<rparr>]\<rparr>"
  using idle_tab_parses [of st] by (auto simp: parseDocument_def safe_int_def MAX_SAFE_INTEGER_def idle_tab_def)

lemma stale_length: "k \<le> 4 \<Longrightarrow> length (put_document \<lparr>structureRevision = k, tabs = [idle_tab\<lparr>desiredState := st\<rparr>]\<rparr>) \<le> MAX_DOCUMENT_BYTES"
  by (cases st) (simp_all add: put_document_def idle_tab_def put_list_def put_tab_def put_string_def put_nat_def
      MAX_DOCUMENT_BYTES_def comp_def)

lemma idle_active: "idle_tab\<lparr>desiredState := Active\<rparr> = idle_tab"
  by (simp add: idle_tab_def)

lemma stale_ready: "run_ready example_env small_tmux tab_names small_manager stale_state"
proof -
  have init: "initialize example_env (new_store 3 (Some (put_document stale_tabs)) [] []) = (Inr (), tab_store stale_state)"
    using reliable_start [OF stale_parses [of 3 Active] stale_length [of 3 Active]]
    by (simp add: new_manager_def idle_active stale_tabs_def stale_state_def)
  have "started example_env (fold (store_exec example_env) [] (tab_store stale_state))"
    unfolding started_def using init by blast
  then have "started example_env (tab_store stale_state)" by simp
  then show ?thesis using small_wired example_env_ok started_inv(1) [OF example_env_ok] by (simp add: run_ready_def)
qed

lemma stale_find: "find (\<lambda>t. tab_id t = tab_id idle_tab) (tabs stale_tabs) = Some idle_tab"
  by (simp add: stale_tabs_def)

lemma stale_stoppable: "stoppable (tab_id idle_tab) (tab_store (stale_state\<lparr>world := w\<rparr>)) stale_tabs"
  using stale_parses [of 4 Stopped] stale_length [of 4 Stopped]
  by (simp add: stoppable_def stale_state_def new_manager_def new_store_def stopped_in_def stale_tabs_def)

lemma stale_sources: "manager_sources (\<lambda>_ _. Some (2, False)) (\<lambda>_ _. Some (5, 0)) (stale_state\<lparr>world := w\<rparr>) = idle_sources"
  by (simp add: manager_sources_def idle_sources_def stale_state_def new_manager_def stale_tabs_def registry_get_def)

lemma stale_reader:
  "manager_reader (\<lambda>_ _. Some (2, False)) (\<lambda>_ _. Some (5, 0)) small_manager idle_request stale_state =
     (Inr stale_capture, world stale_state)"
proof -
  have "stale_state\<lparr>world := world stale_state\<rparr> = stale_state" by simp
  then have src: "manager_sources (\<lambda>_ _. Some (2, False)) (\<lambda>_ _. Some (5, 0)) stale_state = idle_sources"
    using stale_sources by metis
  have ex: "rt_exists (m_runtime small_manager) (rq_id idle_request) (world stale_state) = (Inr True, world stale_state)"
    using small_exists [OF idle_id, of "world stale_state"]
    by (simp add: idle_request_def stale_state_def new_manager_def)
  have th: "rq_thresholdMs idle_request \<noteq> Num 0" by (simp add: idle_request_def)
  show ?thesis using idle_request_valid ex th
    by (simp add: manager_reader_def src idle_capture Let_def stale_sources stale_capture_def)
qed

lemma stale_terminates:
  "\<exists>t. terminateIfStale small_manager (Some (manager_reader (\<lambda>_ _. Some (2, False)) (\<lambda>_ _. Some (5, 0)) small_manager))
     (tab_id idle_tab) stale_capture stale_state = (Inr Terminated, t)"
proof -
  obtain b a where c: "stale_capture = eligibility_result idle_request True None (Some a)"
    "capture idle_sources (rq_id idle_request) = Inr (Some a)"
    using idle_eligible unfolding stale_capture_def by (rule read_eligible) auto
  have req: "\<lparr>rq_id = tab_id idle_tab, rq_thresholdMs = el_thresholdMs stale_capture, rq_cutoffMs = el_cutoffMs stale_capture\<rparr> = idle_request"
    by (simp add: c(1) eligibility_result_def idle_request_def safe_int_def MAX_SAFE_INTEGER_def)
  have ok: "isValidEligibilityCapture (tab_id idle_tab) stale_capture" "eligible stale_capture"
    using idle_id capture_counts(2-4) [OF c(2)]
    by (simp_all add: isValidEligibilityCapture_def c(1) eligibility_result_def idle_request_def safe_int_def MAX_SAFE_INTEGER_def)
  obtain v t where "terminate small_manager (tab_id idle_tab) (stale_state\<lparr>world := world stale_state\<rparr>) = (Inr v, t)"
    using small_terminate [OF stale_stoppable stale_find _ idle_id, of "world stale_state"]
    by (auto simp: idle_tab_def stale_state_def new_manager_def)
  then show ?thesis using ok
    by (simp add: terminateIfStale_def ask_reader_def em_simps req stale_reader sameEligibilityGeneration_def terminate_def)
qed

theorem cleanup_ends_only_idle_witness:
  "\<exists>t. terminateIfStale small_manager (Some (manager_reader (\<lambda>_ _. Some (2, False)) (\<lambda>_ _. Some (5, 0)) small_manager))
      (tab_id idle_tab) stale_capture stale_state = (Inr Terminated, t) \<and>
    registry_get (tab_id idle_tab) stale_state = None \<and> \<not> tab_alive tab_names (world t) (tab_id idle_tab)"
proof -
  obtain t where t: "terminateIfStale small_manager (Some (manager_reader (\<lambda>_ _. Some (2, False)) (\<lambda>_ _. Some (5, 0)) small_manager))
     (tab_id idle_tab) stale_capture stale_state = (Inr Terminated, t)" using stale_terminates by blast
  from cleanup_ends_only_idle [OF stale_ready small_names_apart t] t show ?thesis by auto
qed

end
