(* ===== verification/TerminalBridge.thy ===== *)
theory TerminalBridge
  imports Protocol Frames
begin

text \<open>
  The terminal bridge (\<open>apps/server/src/terminal-bridge.ts\<close>): it joins a socket to a PTY process. Socket,
  PTY, authentication and activity callbacks are effects on a world \<open>'w\<close>; a call may throw. The bridge
  keeps, besides its own fields, the sequence of calls it made, each with the number of bytes the
  socket had buffered at that moment. Handlers are events; what the outside does between them is an
  event too.
\<close>

section \<open>State\<close>

datatype bridge_call =
    Subscribe nat | Dispose nat | PtyWrite utext | PtyResize int int | PtyKill
  | SocketSend utext | SocketClose nat string | SocketTerminate | MarkActivity | LogEvent string

record 'w TerminalBridge =
  bridge_session :: string
  maxBufferedBytes :: nat
  bridge_closed :: bool
  disposables :: nat
  outside :: 'w
  calls :: "(nat \<times> bridge_call) list"

record 'w bridge_env =
  socket_open :: "'w \<Rightarrow> bool"
  bufferedAmount :: "'w \<Rightarrow> nat"
  invoke :: "bridge_call \<Rightarrow> 'w \<Rightarrow> bool \<times> 'w"
  authenticate :: "'w \<Rightarrow> bool option \<times> 'w"
  pty_pid :: "'w \<Rightarrow> jsnum option"

type_synonym ('w, 'a) bridge = "('w TerminalBridge, unit, 'a) em"

definition MAX_BUFFER_BYTES :: nat where "MAX_BUFFER_BYTES = 1048576"
definition AUTHENTICATION_REQUIRED :: nat where "AUTHENTICATION_REQUIRED = 4003"
definition AUTHENTICATION_REQUIRED_REASON :: string where "AUTHENTICATION_REQUIRED_REASON = ''authentication_required''"

section \<open>Calls\<close>

text \<open>A call to the outside; the result is whether it returned.\<close>

definition try_call :: "'w bridge_env \<Rightarrow> bridge_call \<Rightarrow> ('w, bool) bridge" where
  "try_call E c = (\<lambda>s. case invoke E c (outside s) of
     (ok, w) \<Rightarrow> (Inr ok, s\<lparr>outside := w, calls := calls s @ [(bufferedAmount E (outside s), c)]\<rparr>))"

text \<open>Logging is by a pino logger, whose methods do not throw.\<close>

definition log_event :: "'w bridge_env \<Rightarrow> string \<Rightarrow> ('w, unit) bridge" where
  "log_event E name = bind (try_call E (LogEvent name)) (\<lambda>_. ret ())"

definition or_log :: "'w bridge_env \<Rightarrow> string \<Rightarrow> bool \<Rightarrow> ('w, unit) bridge" where
  "or_log E name ok = (if ok then ret () else log_event E name)"

definition socketIsOpen :: "'w bridge_env \<Rightarrow> ('w, bool) bridge" where
  "socketIsOpen E = gets (\<lambda>s. socket_open E (outside s))"

definition bridge_mark :: "'w bridge_env \<Rightarrow> ('w, unit) bridge" where
  "bridge_mark E = bind (try_call E MarkActivity) (or_log E ''terminal_activity_failed'')"

fun dispose_all :: "'w bridge_env \<Rightarrow> nat list \<Rightarrow> ('w, unit) bridge" where
  "dispose_all E [] = ret ()"
| "dispose_all E (k # ks) =
     bind (try_call E (Dispose k)) (\<lambda>ok.
     bind (or_log E ''subscription_dispose_failed'' ok) (\<lambda>_. dispose_all E ks))"

definition close_socket :: "'w bridge_env \<Rightarrow> nat \<Rightarrow> string \<Rightarrow> ('w, unit) bridge" where
  "close_socket E code reason =
     bind (try_call E (SocketClose code reason)) (\<lambda>ok.
     bind (or_log E ''socket_close_failed'' ok) (\<lambda>_.
     bind (socketIsOpen E) (\<lambda>still.
     if still then bind (try_call E SocketTerminate) (or_log E ''socket_terminate_failed'') else ret ())))"

definition shutdown_body :: "'w bridge_env \<Rightarrow> nat \<Rightarrow> nat \<Rightarrow> string \<Rightarrow> bool \<Rightarrow> ('w, unit) bridge" where
  "shutdown_body E n code reason closeSocket =
     bind (dispose_all E [0..<n]) (\<lambda>_.
     bind (try_call E PtyKill) (\<lambda>ok.
     bind (or_log E ''terminal_kill_failed'' ok) (\<lambda>_.
     bind (socketIsOpen E) (\<lambda>open_now.
     bind (if closeSocket \<and> open_now then close_socket E code reason else ret ()) (\<lambda>_.
     log_event E ''terminal_closed'')))))"

definition bridge_shutdown :: "'w bridge_env \<Rightarrow> nat \<Rightarrow> string \<Rightarrow> bool \<Rightarrow> ('w, unit) bridge" where
  "bridge_shutdown E code reason closeSocket =
     bind (gets bridge_closed) (\<lambda>already.
       if already then ret ()
       else
         bind (modify (\<lambda>s. s\<lparr>bridge_closed := True\<rparr>)) (\<lambda>_.
         bind (gets disposables) (\<lambda>n.
         shutdown_body E n code reason closeSocket)))"

section \<open>Operations\<close>

fun subscribe_all :: "'w bridge_env \<Rightarrow> nat list \<Rightarrow> ('w, unit) bridge" where
  "subscribe_all E [] = ret ()"
| "subscribe_all E (k # ks) =
     bind (try_call E (Subscribe k)) (\<lambda>ok.
     if ok then bind (modify (\<lambda>s. s\<lparr>disposables := Suc (disposables s)\<rparr>)) (\<lambda>_. subscribe_all E ks)
     else throw ())"

text \<open>The constructor: \<open>None\<close> when it throws before anything happened.\<close>

definition make_bridge :: "'w bridge_env \<Rightarrow> string \<Rightarrow> jsnum \<Rightarrow> 'w \<Rightarrow> ((unit + unit) \<times> 'w TerminalBridge) option" where
  "make_bridge E i limit w =
     (case limit of
        Num r \<Rightarrow>
          if \<not> isSessionId i \<or> \<not> isInteger limit \<or> r \<le> 0 then None
          else Some (
            catch
              (bind (subscribe_all E [0, 1, 2, 3, 4]) (\<lambda>_. log_event E ''terminal_opened''))
              (\<lambda>_. bind (log_event E ''terminal_setup_failed'') (\<lambda>_.
                   bind (bridge_shutdown E 1011 ''terminal_setup_failed'' True) (\<lambda>_. throw ())))
              \<lparr>bridge_session = i, maxBufferedBytes = min (nat \<lfloor>r\<rfloor>) MAX_BUFFER_BYTES, bridge_closed = False, disposables = 0,
               outside = w, calls = []\<rparr>)
      | _ \<Rightarrow> None)"

definition bridge_pid :: "'w bridge_env \<Rightarrow> 'w TerminalBridge \<Rightarrow> int option" where
  "bridge_pid E s =
     (case pty_pid E (outside s) of
        Some (Num r) \<Rightarrow> if isInteger (Num r) \<and> r > 0 then Some \<lfloor>r\<rfloor> else None
      | _ \<Rightarrow> None)"

definition unless_closed :: "('w, unit) bridge \<Rightarrow> ('w, unit) bridge" where
  "unless_closed m = bind (gets bridge_closed) (\<lambda>c. if c then ret () else m)"

definition bridge_write :: "'w bridge_env \<Rightarrow> utext \<Rightarrow> ('w, unit) bridge" where
  "bridge_write E d = unless_closed
     (bind (try_call E (PtyWrite d)) (\<lambda>ok.
      if ok then ret ()
      else bind (log_event E ''terminal_write_failed'') (\<lambda>_. bridge_shutdown E 1011 ''terminal_write_failed'' True)))"

definition bridge_resize :: "'w bridge_env \<Rightarrow> int \<Rightarrow> int \<Rightarrow> ('w, unit) bridge" where
  "bridge_resize E c r = unless_closed
     (bind (try_call E (PtyResize c r)) (\<lambda>ok.
      if ok then ret ()
      else bind (log_event E ''terminal_resize_failed'') (\<lambda>_. bridge_shutdown E 1011 ''terminal_resize_failed'' True)))"

definition bridge_close :: "'w bridge_env \<Rightarrow> nat \<Rightarrow> string \<Rightarrow> ('w, unit) bridge" where
  "bridge_close E code reason = bridge_shutdown E code reason True"

definition authenticateInput :: "'w bridge_env \<Rightarrow> ('w, bool) bridge" where
  "authenticateInput E =
     bind (\<lambda>s. case authenticate E (outside s) of (r, w) \<Rightarrow> (Inr r, s\<lparr>outside := w\<rparr>)) (\<lambda>r.
       if r = Some True then ret True
       else bind (bridge_shutdown E AUTHENTICATION_REQUIRED AUTHENTICATION_REQUIRED_REASON True) (\<lambda>_. ret False))"

definition reject_message :: "'w bridge_env \<Rightarrow> ('w, unit) bridge" where
  "reject_message E =
     bind (log_event E ''protocol_message_rejected'') (\<lambda>_. bridge_shutdown E 1008 ''invalid_message'' True)"

definition handleMessage :: "'w bridge_env \<Rightarrow> frame \<Rightarrow> bool \<Rightarrow> ('w, unit) bridge" where
  "handleMessage E raw isBinary = unless_closed
     (bind (gets bridge_session) (\<lambda>i.
      case parseClientMessage raw isBinary of
        Inl _ \<Rightarrow> reject_message E
      | Inr (ClientInput j d) \<Rightarrow>
          if j \<noteq> i then reject_message E
          else bind (authenticateInput E) (\<lambda>ok.
               if \<not> ok then ret ()
               else bind (bridge_mark E) (\<lambda>_. bridge_write E d))
      | Inr (ClientResize j c r) \<Rightarrow>
          if j \<noteq> i then reject_message E
          else bind (bridge_mark E) (\<lambda>_. bridge_resize E c r)))"

definition pending_bytes :: "'w bridge_env \<Rightarrow> utext \<Rightarrow> 'w TerminalBridge \<Rightarrow> nat" where
  "pending_bytes E serialized s = bufferedAmount E (outside s) + length (utf8_encode serialized)"

definition handleOutput :: "'w bridge_env \<Rightarrow> utext \<Rightarrow> ('w, unit) bridge" where
  "handleOutput E d = unless_closed
     (bind (bridge_mark E) (\<lambda>_.
      bind (socketIsOpen E) (\<lambda>open_now.
      if \<not> open_now then ret ()
      else
        bind (gets (\<lambda>s. stringify (server_json (ServerOutput (bridge_session s) d)))) (\<lambda>serialized.
        bind (gets (\<lambda>s. pending_bytes E serialized s \<ge> maxBufferedBytes s)) (\<lambda>full.
        if full
        then bind (log_event E ''terminal_backpressure'') (\<lambda>_. bridge_shutdown E 4002 ''terminal_backpressure'' True)
        else
          bind (try_call E (SocketSend serialized)) (\<lambda>ok.
          if ok then ret ()
          else bind (log_event E ''terminal_send_failed'') (\<lambda>_. bridge_shutdown E 1011 ''terminal_send_failed'' True)))))))"

definition sendLifecycleError :: "'w bridge_env \<Rightarrow> ('w, unit) bridge" where
  "sendLifecycleError E =
     bind (gets (\<lambda>s. bridge_closed s \<or> \<not> socket_open E (outside s))) (\<lambda>skip.
     if skip then ret ()
     else
       bind (gets (\<lambda>s. stringify (server_json (ServerError (bridge_session s) (text_of ''terminal_unavailable''))))) (\<lambda>serialized.
       bind (gets (\<lambda>s. pending_bytes E serialized s \<ge> maxBufferedBytes s)) (\<lambda>full.
       if full then ret ()
       else bind (try_call E (SocketSend serialized)) (or_log E ''terminal_send_failed''))))"

definition handleExit :: "'w bridge_env \<Rightarrow> ('w, unit) bridge" where
  "handleExit E = unless_closed
     (bind (log_event E ''terminal_exited'') (\<lambda>_.
      bind (sendLifecycleError E) (\<lambda>_. bridge_shutdown E 1011 ''terminal_exited'' True)))"

definition handleSocketClose :: "'w bridge_env \<Rightarrow> ('w, unit) bridge" where
  "handleSocketClose E = bridge_shutdown E 1000 ''socket_closed'' False"

definition handleSocketError :: "'w bridge_env \<Rightarrow> ('w, unit) bridge" where
  "handleSocketError E = unless_closed
     (bind (log_event E ''socket_error'') (\<lambda>_. bridge_shutdown E 1011 ''socket_error'' False))"

section \<open>Runs\<close>

datatype 'w bridge_event =
    BMessage frame bool | BOutput utext | BExit | BSocketClose | BSocketError | BClose nat string | BOutside "'w \<Rightarrow> 'w"

fun bridge_step :: "'w bridge_env \<Rightarrow> 'w bridge_event \<Rightarrow> 'w TerminalBridge \<Rightarrow> 'w TerminalBridge" where
  "bridge_step E (BMessage raw b) s = snd (handleMessage E raw b s)"
| "bridge_step E (BOutput d) s = snd (handleOutput E d s)"
| "bridge_step E BExit s = snd (handleExit E s)"
| "bridge_step E BSocketClose s = snd (handleSocketClose E s)"
| "bridge_step E BSocketError s = snd (handleSocketError E s)"
| "bridge_step E (BClose c r) s = snd (bridge_close E c r s)"
| "bridge_step E (BOutside f) s = s\<lparr>outside := f (outside s)\<rparr>"

section \<open>Traces\<close>

text \<open>A call that moves terminal data.\<close>

fun busy :: "bridge_call \<Rightarrow> bool" where
  "busy (PtyWrite _) = True"
| "busy (PtyResize _ _) = True"
| "busy (SocketSend _) = True"
| "busy _ = False"

definition call_ok :: "nat \<Rightarrow> nat \<times> bridge_call \<Rightarrow> bool" where
  "call_ok m x \<longleftrightarrow> snd x \<noteq> PtyKill \<and> (\<forall>d. snd x = SocketSend d \<longrightarrow> fst x + length (utf8_encode d) < m)"

text \<open>Before the PTY is killed, and with the kill.\<close>

definition trace_ok :: "nat \<Rightarrow> bool \<Rightarrow> (nat \<times> bridge_call) list \<Rightarrow> bool" where
  "trace_ok m killed tr \<longleftrightarrow>
     (if killed
      then \<exists>a k b. tr = a @ (k, PtyKill) # b \<and> list_all (call_ok m) a \<and> list_all (\<lambda>x. call_ok m x \<and> \<not> busy (snd x)) b
      else list_all (call_ok m) tr)"

lemma trace_killedI:
  "tr = a @ (k, PtyKill) # b \<Longrightarrow> list_all (call_ok m) a \<Longrightarrow> list_all (\<lambda>x. call_ok m x \<and> \<not> busy (snd x)) b \<Longrightarrow> trace_ok m True tr"
  by (auto simp: trace_ok_def)

lemma trace_killedE:
  assumes "trace_ok m True tr"
  obtains a k b where "tr = a @ (k, PtyKill) # b" "list_all (call_ok m) a" "list_all (\<lambda>x. call_ok m x \<and> \<not> busy (snd x)) b"
  using assms by (auto simp: trace_ok_def)

lemma trace_ok_append: "trace_ok m False p \<Longrightarrow> trace_ok m k q \<Longrightarrow> trace_ok m k (p @ q)"
proof (cases k)
  case True
  assume p: "trace_ok m False p" and "trace_ok m k q"
  with True obtain a j b where "q = a @ (j, PtyKill) # b" "list_all (call_ok m) a" "list_all (\<lambda>x. call_ok m x \<and> \<not> busy (snd x)) b"
    by (auto elim: trace_killedE)
  moreover from this p have "trace_ok m True (p @ q)" by (intro trace_killedI [of _ "p @ a" j b]) (auto simp: trace_ok_def)
  ultimately show ?thesis using True by simp
qed (simp add: trace_ok_def)

lemma trace_ok_snoc: "trace_ok m False p \<Longrightarrow> call_ok m x \<Longrightarrow> trace_ok m False (p @ [x])"
  by (simp add: trace_ok_def)

lemma trace_ok_kill: "trace_ok m False p \<Longrightarrow> trace_ok m True (p @ [(k, PtyKill)])"
  by (rule trace_killedI [of _ p k "[]"]) (simp_all add: trace_ok_def)

lemma trace_ok_after:
  assumes "trace_ok m True p" "call_ok m x" "\<not> busy (snd x)"
  shows "trace_ok m True (p @ [x])"
proof -
  obtain a k b where p: "p = a @ (k, PtyKill) # b" "list_all (call_ok m) a" "list_all (\<lambda>x. call_ok m x \<and> \<not> busy (snd x)) b"
    using assms(1) by (rule trace_killedE)
  show ?thesis by (rule trace_killedI [of _ a k "b @ [x]"]) (use p assms in auto)
qed

text \<open>What happened since \<open>s0\<close>: calls allowed by \<open>P\<close>, and whether the bridge is bridge_closed and the PTY killed.\<close>

definition since ::
  "(bridge_call \<Rightarrow> bool) \<Rightarrow> bool \<Rightarrow> bool \<Rightarrow> 'w TerminalBridge \<Rightarrow> 'w TerminalBridge \<Rightarrow> bool"
where
  "since P cl killed s0 s \<longleftrightarrow> bridge_closed s = cl \<and> bridge_session s = bridge_session s0 \<and>
     maxBufferedBytes s = maxBufferedBytes s0 \<and>
     (\<exists>new. calls s = calls s0 @ new \<and> list_all (\<lambda>x. P (snd x)) new \<and> trace_ok (maxBufferedBytes s0) killed new)"

lemma since_start: "\<not> bridge_closed s \<Longrightarrow> since P False False s s"
  by (simp add: since_def trace_ok_def)

lemma try_call_since:
  assumes "P c" "c \<noteq> PtyKill" "\<not> busy c"
  shows "triple (since P cl k s0) (try_call E c) (\<lambda>_. since P cl k s0) Q"
proof (rule tripleI)
  fix s r t
  assume s: "since P cl k s0 s" and run: "try_call E c s = (r, t)"
  have t: "calls t = calls s @ [(bufferedAmount E (outside s), c)]" "bridge_closed t = bridge_closed s" "bridge_session t = bridge_session s"
    "maxBufferedBytes t = maxBufferedBytes s" "\<exists>x. r = Inr x"
    using run by (auto simp: try_call_def split: prod.splits)
  have ok: "call_ok m (b, c)" for m b using assms(2,3) by (auto simp: call_ok_def)
  have "trace_ok m k new \<Longrightarrow> trace_ok m k (new @ [(b, c)])" for m new b
    using trace_ok_snoc [of m new "(b, c)"] trace_ok_after [of m new "(b, c)"] ok assms(3) by (cases k) simp_all
  then have "since P cl k s0 t" using s t assms(1) by (auto simp: since_def)
  with t(5) show "case r of Inl e \<Rightarrow> Q e t | Inr x \<Rightarrow> since P cl k s0 t" by auto
qed

lemma try_call_move:
  assumes "P c" "c = PtyWrite d \<or> c = PtyResize x y"
  shows "triple (since P cl False s0) (try_call E c) (\<lambda>_. since P cl False s0) Q"
  by (rule tripleI) (use assms in \<open>auto simp: try_call_def since_def call_ok_def intro!: trace_ok_snoc split: prod.splits\<close>)

lemma try_call_kill:
  assumes "P PtyKill"
  shows "triple (since P cl False s0) (try_call E PtyKill) (\<lambda>_. since P cl True s0) Q"
  by (rule tripleI) (use assms in \<open>auto simp: try_call_def since_def intro!: trace_ok_kill split: prod.splits\<close>)

text \<open>Programs that only log, dispose and close.\<close>

definition calm_calls :: "(bridge_call \<Rightarrow> bool) \<Rightarrow> bool" where
  "calm_calls P \<longleftrightarrow> (\<forall>c. \<not> busy c \<longrightarrow> P c)"

lemma log_since: "calm_calls P \<Longrightarrow> triple (since P cl k s0) (log_event E n) (\<lambda>_. since P cl k s0) Q"
  unfolding log_event_def
  by (rule triple_bind [OF try_call_since]) (auto simp: calm_calls_def intro: triple_ret)

lemma or_log_since: "calm_calls P \<Longrightarrow> triple (since P cl k s0) (or_log E n ok) (\<lambda>_. since P cl k s0) Q"
  unfolding or_log_def by (cases ok) (auto intro: triple_ret log_since)

lemma calm_then_log:
  "calm_calls P \<Longrightarrow> c \<noteq> PtyKill \<Longrightarrow> \<not> busy c \<Longrightarrow>
   triple (since P cl k s0) (bind (try_call E c) (or_log E n)) (\<lambda>_. since P cl k s0) Q"
  by (rule triple_bind [OF try_call_since or_log_since]) (auto simp: calm_calls_def)

lemma mark_since: "calm_calls P \<Longrightarrow> triple (since P cl k s0) (bridge_mark E) (\<lambda>_. since P cl k s0) Q"
  unfolding bridge_mark_def by (rule calm_then_log) auto

lemma dispose_since: "calm_calls P \<Longrightarrow> triple (since P cl k s0) (dispose_all E ks) (\<lambda>_. since P cl k s0) Q"
proof (induction ks)
  case (Cons j ks)
  then show ?case unfolding dispose_all.simps
    by (intro triple_bind [OF try_call_since] triple_bind [OF or_log_since]) (auto simp: calm_calls_def)
qed (simp add: triple_ret)

lemma gets_since: "triple (since P cl k s0) (gets f) (\<lambda>_. since P cl k s0) Q"
  by (rule triple_gets)

lemma close_socket_since: "calm_calls P \<Longrightarrow> triple (since P cl k s0) (close_socket E c r) (\<lambda>_. since P cl k s0) Q"
  unfolding close_socket_def socketIsOpen_def
  by (rule triple_bind [OF try_call_since], auto simp: calm_calls_def intro!: triple_bind [OF or_log_since] triple_bind [OF gets_since]
      triple_if calm_then_log triple_ret)

lemma shutdown_body_since:
  assumes "calm_calls P"
  shows "triple (since P True False s0) (shutdown_body E n c r b) (\<lambda>_. since P True True s0) Q"
proof -
  have "P PtyKill" using assms by (simp add: calm_calls_def)
  show ?thesis unfolding shutdown_body_def socketIsOpen_def
    by (rule triple_bind [OF dispose_since [OF assms]], rule triple_bind [OF try_call_kill [of P, OF \<open>P PtyKill\<close>]],
        rule triple_bind [OF or_log_since [OF assms]], rule triple_bind [OF gets_since],
        rule triple_bind [OF triple_if [OF close_socket_since [OF assms] triple_ret]], assumption, rule log_since [OF assms])
qed

lemma shutdown_since:
  assumes "calm_calls P"
  shows "triple (since P False False s0) (bridge_shutdown E c r b) (\<lambda>_. since P True True s0) Q"
proof (rule tripleI)
  fix s q t
  assume s: "since P False False s0 s" and run: "bridge_shutdown E c r b s = (q, t)"
  let ?u = "s\<lparr>bridge_closed := True\<rparr>"
  have body: "shutdown_body E (disposables s) c r b ?u = (q, t)" "since P True False s0 ?u"
    using s run by (simp_all add: bridge_shutdown_def em_simps since_def)
  from shutdown_body_since [OF assms, of s0 E "disposables s" c r b Q] body show "case q of Inl e \<Rightarrow> Q e t | Inr x \<Rightarrow> since P True True s0 t"
    by (cases q) (auto dest: tripleD_Inl tripleD_Inr)
qed

text \<open>After an event the bridge is open with nothing killed, or closed with one kill.\<close>

definition settled_since :: "(bridge_call \<Rightarrow> bool) \<Rightarrow> 'w TerminalBridge \<Rightarrow> 'w TerminalBridge \<Rightarrow> bool" where
  "settled_since P s0 s \<longleftrightarrow> since P False False s0 s \<or> since P True True s0 s"

abbreviation handles :: "(bridge_call \<Rightarrow> bool) \<Rightarrow> 'w TerminalBridge \<Rightarrow> ('w, 'a) bridge \<Rightarrow> bool" where
  "handles P s0 m \<equiv> triple (since P False False s0) m (\<lambda>_. settled_since P s0) (\<lambda>_. settled_since P s0)"

lemma handles_ret: "handles P s0 (ret x)"
  by (rule triple_ret) (simp add: settled_since_def)

lemma handles_shutdown: "calm_calls P \<Longrightarrow> handles P s0 (bridge_shutdown E c r b)"
  by (rule triple_weaken [OF shutdown_since]) (auto simp: settled_since_def)

lemma handles_log_shutdown: "calm_calls P \<Longrightarrow> handles P s0 (bind (log_event E n) (\<lambda>_. bridge_shutdown E c r b))"
  by (rule triple_bind [OF log_since handles_shutdown])

lemma handles_guard: "handles P s0 m \<Longrightarrow> handles P s0 (unless_closed m)"
  unfolding unless_closed_def by (rule triple_bind [OF gets_since]) (auto intro: triple_if handles_ret)

lemma handles_reject: "calm_calls P \<Longrightarrow> handles P s0 (reject_message E)"
  unfolding reject_message_def by (rule handles_log_shutdown)

lemma handles_move:
  assumes "calm_calls P" "P c" "c = PtyWrite d \<or> c = PtyResize x y"
  shows "handles P s0 (bind (try_call E c) (\<lambda>ok. if ok then ret () else bind (log_event E n) (\<lambda>_. bridge_shutdown E k r b)))"
  by (rule triple_bind [OF try_call_move [of P c, OF assms(2,3)]]) (auto intro: triple_if handles_ret handles_log_shutdown assms)

lemma handles_write: "calm_calls P \<Longrightarrow> P (PtyWrite d) \<Longrightarrow> handles P s0 (bridge_write E d)"
  unfolding bridge_write_def by (rule handles_guard, rule handles_move) auto

lemma handles_resize: "calm_calls P \<Longrightarrow> P (PtyResize c r) \<Longrightarrow> handles P s0 (bridge_resize E c r)"
  unfolding bridge_resize_def by (rule handles_guard, rule handles_move) auto

text \<open>The authentication callback is asked once and, when it refuses, the bridge closes.\<close>

lemma authenticate_since:
  assumes "calm_calls P"
  shows "triple (since P False False s0) (authenticateInput E)
    (\<lambda>ok s. if ok then since P False False s0 s else since P True True s0 s) (\<lambda>_. settled_since P s0)"
proof -
  have ask: "triple (since P False False s0) (\<lambda>s. case authenticate E (outside s) of (r, w) \<Rightarrow> (Inr r, s\<lparr>outside := w\<rparr>))
      (\<lambda>_. since P False False s0) (\<lambda>_. settled_since P s0)"
    by (rule tripleI) (auto simp: since_def split: prod.splits)
  show ?thesis unfolding authenticateInput_def
    by (rule triple_bind [OF ask], rule triple_if) (auto intro!: triple_ret triple_bind [OF shutdown_since [OF assms]])
qed

lemma handles_input:
  assumes "calm_calls P" "\<And>d. P (PtyWrite d)"
  shows "handles P s0 (bind (authenticateInput E) (\<lambda>ok. if \<not> ok then ret () else bind (bridge_mark E) (\<lambda>_. bridge_write E d)))"
  by (rule triple_bind [OF authenticate_since [OF assms(1)]], rule triple_if)
     (auto intro: triple_ret triple_bind [OF mark_since [OF assms(1)]] handles_write assms simp: settled_since_def)

lemma handles_message:
  assumes "calm_calls P" "\<And>d. P (PtyWrite d)" "\<And>c r. P (PtyResize c r)"
  shows "handles P s0 (handleMessage E raw b)"
  unfolding handleMessage_def
  by (rule handles_guard, rule triple_bind [OF gets_since])
     (auto intro!: handles_reject handles_input triple_bind [OF mark_since] handles_resize assms split: sum.split ClientMessage.split)

text \<open>A send is guarded by the buffer limit.\<close>

lemma send_since:
  assumes "P (SocketSend d)"
  shows "triple (\<lambda>s. since P False False s0 s \<and> pending_bytes E d s < maxBufferedBytes s) (try_call E (SocketSend d))
    (\<lambda>_. since P False False s0) Q"
  by (rule tripleI)
     (use assms in \<open>auto simp: try_call_def since_def call_ok_def pending_bytes_def intro!: trace_ok_snoc split: prod.splits\<close>)

lemma full_since:
  "triple (since P False False s0) (gets (\<lambda>s. pending_bytes E d s \<ge> maxBufferedBytes s))
     (\<lambda>full s. since P False False s0 s \<and> (\<not> full \<longrightarrow> pending_bytes E d s < maxBufferedBytes s)) Q"
  by (rule triple_gets) auto

lemma handles_output:
  assumes "calm_calls P" "\<And>d. P (SocketSend d)"
  shows "handles P s0 (handleOutput E d)"
proof -
  have over: "triple (\<lambda>s. since P False False s0 s \<and> x s) m Q R" if "triple (since P False False s0) m Q R" for x m Q R
    by (rule triple_weaken [OF that]) auto
  have send: "triple (\<lambda>s. since P False False s0 s \<and> pending_bytes E t s < maxBufferedBytes s)
      (bind (try_call E (SocketSend t)) (\<lambda>ok. if ok then ret ()
        else bind (log_event E ''terminal_send_failed'') (\<lambda>_. bridge_shutdown E 1011 ''terminal_send_failed'' True)))
      (\<lambda>_. settled_since P s0) (\<lambda>_. settled_since P s0)" for t
    by (rule triple_bind [OF send_since [of P, OF assms(2)]]) (auto intro: triple_if handles_ret handles_log_shutdown assms(1))
  show ?thesis unfolding handleOutput_def socketIsOpen_def
    by (rule handles_guard, rule triple_bind [OF mark_since [OF assms(1)]], rule triple_bind [OF gets_since], rule triple_if,
        rule handles_ret, rule triple_bind [OF gets_since], rule triple_bind [OF full_since], rule triple_if)
       (auto intro!: over handles_log_shutdown assms(1) send)
qed

lemma lifecycle_since:
  assumes "calm_calls P" "\<And>d. P (SocketSend d)"
  shows "triple (since P False False s0) (sendLifecycleError E) (\<lambda>_. since P False False s0) Q"
proof -
  have over: "triple (\<lambda>s. since P False False s0 s \<and> x s) (ret ()) (\<lambda>_. since P False False s0) Q" for x
    by (rule triple_ret) simp
  show ?thesis unfolding sendLifecycleError_def
    by (rule triple_bind [OF gets_since], rule triple_if, rule triple_ret, assumption, rule triple_bind [OF gets_since],
        rule triple_bind [OF full_since], rule triple_if)
       (auto intro!: over triple_ret triple_bind [OF send_since [of P, OF assms(2)]] or_log_since assms(1))
qed

lemma handles_exit:
  assumes "calm_calls P" "\<And>d. P (SocketSend d)"
  shows "handles P s0 (handleExit E)"
  unfolding handleExit_def
  by (rule handles_guard, rule triple_bind [OF log_since [OF assms(1)]],
      rule triple_bind [OF lifecycle_since [OF assms(1)]]) (rule assms(2), rule handles_shutdown [OF assms(1)])

section \<open>Invariant\<close>

definition bridge_inv :: "'w TerminalBridge \<Rightarrow> bool" where
  "bridge_inv s \<longleftrightarrow> maxBufferedBytes s \<le> MAX_BUFFER_BYTES \<and> trace_ok (maxBufferedBytes s) (bridge_closed s) (calls s)"

lemma handlesD:
  assumes "handles P s m" "\<not> bridge_closed s"
  shows "settled_since P s (snd (m s))"
  using tripleD_Inl [OF assms(1) since_start [OF assms(2)]] tripleD_Inr [OF assms(1) since_start [OF assms(2)]]
  by (cases "m s"; cases "fst (m s)") auto

lemma settled_inv: "bridge_inv s \<Longrightarrow> \<not> bridge_closed s \<Longrightarrow> settled_since P s t \<Longrightarrow> bridge_inv t"
  by (auto simp: bridge_inv_def settled_since_def since_def intro: trace_ok_append)

definition all_calls :: "bridge_call \<Rightarrow> bool" where
  "all_calls c = True"

lemma all_calm: "calm_calls all_calls"
  by (simp add: calm_calls_def all_calls_def)

lemma step_settled:
  assumes "\<not> bridge_closed s" "\<forall>f. e \<noteq> BOutside f"
  shows "settled_since all_calls s (bridge_step E e s)"
  using assms handlesD [OF handles_message [of all_calls], of s E] handlesD [OF handles_output [of all_calls], of s E]
    handlesD [OF handles_exit [of all_calls], of s E] handlesD [OF handles_shutdown [of all_calls], of s E]
    handlesD [OF handles_guard [OF handles_log_shutdown [of all_calls]], of s E] all_calm
  by (cases e) (simp_all add: all_calls_def handleSocketClose_def handleSocketError_def bridge_close_def)

lemma step_closed: "bridge_closed s \<Longrightarrow> calls (bridge_step E e s) = calls s \<and> bridge_closed (bridge_step E e s) \<and>
    maxBufferedBytes (bridge_step E e s) = maxBufferedBytes s"
  by (cases e) (simp_all add: handleMessage_def handleOutput_def handleExit_def handleSocketClose_def handleSocketError_def
      bridge_close_def bridge_shutdown_def unless_closed_def em_simps)

lemma bridge_step_inv: "bridge_inv s \<Longrightarrow> bridge_inv (bridge_step E e s)"
proof (cases "bridge_closed s")
  case True
  assume "bridge_inv s"
  with step_closed [OF True, of E e] True show ?thesis by (simp add: bridge_inv_def)
next
  case False
  assume inv: "bridge_inv s"
  show ?thesis
  proof (cases "\<exists>f. e = BOutside f")
    case True
    with inv show ?thesis by (auto simp: bridge_inv_def)
  next
    case False
    with settled_inv [OF inv \<open>\<not> bridge_closed s\<close> step_settled] \<open>\<not> bridge_closed s\<close> show ?thesis by blast
  qed
qed

lemma bridge_run_inv: "bridge_inv s \<Longrightarrow> bridge_inv (fold (bridge_step E) es s)"
  by (induction es arbitrary: s) (simp_all add: bridge_step_inv)

section \<open>Construction\<close>

lemma subscribe_since:
  "triple (since all_calls False False s0) (subscribe_all E ks) (\<lambda>_. since all_calls False False s0) (\<lambda>_. since all_calls False False s0)"
proof (induction ks)
  case (Cons k ks)
  have "triple (since all_calls False False s0) (modify (\<lambda>s. s\<lparr>disposables := Suc (disposables s)\<rparr>))
      (\<lambda>_. since all_calls False False s0) (\<lambda>_. since all_calls False False s0)"
    by (rule triple_modify) (simp add: since_def)
  note count = this
  show ?case unfolding subscribe_all.simps
    by (rule triple_bind [OF try_call_since [of all_calls]], simp_all add: all_calls_def [of "Subscribe k"], intro conjI impI,
        rule triple_bind [OF count Cons], rule triple_throw, assumption)
qed (simp add: triple_ret)

lemma make_bridge_inv:
  assumes "make_bridge E i limit w = Some (r, s)"
  shows "bridge_inv s" "bridge_session s = i" "isSessionId i"
proof -
  obtain x where x: "limit = Num x" "isSessionId i"
    using assms by (cases limit) (auto simp: make_bridge_def split: if_splits)
  define s0 where "s0 = \<lparr>bridge_session = i, maxBufferedBytes = min (nat \<lfloor>x\<rfloor>) MAX_BUFFER_BYTES, bridge_closed = False,
    disposables = 0, outside = w, calls = []\<rparr>"
  let ?m = "catch (bind (subscribe_all E [0, 1, 2, 3, 4]) (\<lambda>_. log_event E ''terminal_opened''))
      (\<lambda>_. bind (log_event E ''terminal_setup_failed'') (\<lambda>_. bind (bridge_shutdown E 1011 ''terminal_setup_failed'' True) (\<lambda>_. throw ())))"
  have run: "?m s0 = (r, s)" using assms x by (simp add: make_bridge_def s0_def split: if_splits)
  have "triple (since all_calls False False s0) ?m (\<lambda>_. settled_since all_calls s0) (\<lambda>_. settled_since all_calls s0)"
  proof (rule triple_catch)
    show "triple (since all_calls False False s0) (bind (subscribe_all E [0, 1, 2, 3, 4]) (\<lambda>_. log_event E ''terminal_opened''))
        (\<lambda>_. settled_since all_calls s0) (\<lambda>_. since all_calls False False s0)"
      by (rule triple_bind [OF subscribe_since], rule triple_weaken [OF log_since [OF all_calm]]) (auto simp: settled_since_def)
    show "handles all_calls s0 (bind (log_event E ''terminal_setup_failed'')
        (\<lambda>_. bind (bridge_shutdown E 1011 ''terminal_setup_failed'' True) (\<lambda>_. throw ())))"
      by (rule triple_bind [OF log_since [OF all_calm]], rule triple_bind [OF shutdown_since [OF all_calm]], rule triple_throw)
         (simp add: settled_since_def)
  qed
  then have "settled_since all_calls s0 (snd (?m s0))" by (rule handlesD) (simp add: s0_def)
  then have "settled_since all_calls s0 s" unfolding run by simp
  moreover have "bridge_inv s0" by (simp add: bridge_inv_def s0_def trace_ok_def)
  moreover have "\<not> bridge_closed s0" by (simp add: s0_def)
  ultimately show "bridge_inv s" using settled_inv by blast
  from \<open>settled_since all_calls s0 s\<close> show "bridge_session s = i" "isSessionId i"
    using x by (auto simp: settled_since_def since_def s0_def)
qed

section \<open>Properties\<close>

text \<open>
  C15. The bridge closes once and then is silent: in every run, whatever throws, the PTY is killed
  exactly when the bridge is closed and exactly once, and after that nothing is written to the PTY, no
  resize reaches it and nothing is sent to the socket.
\<close>

theorem bridge_closes_once:
  assumes "make_bridge E i limit w = Some (r, s0)" "s = fold (bridge_step E) es s0"
  shows "length (filter (\<lambda>x. snd x = PtyKill) (calls s)) = (if bridge_closed s then 1 else 0) \<and>
    (\<forall>j k. j < k \<and> k < length (calls s) \<and> snd (calls s ! j) = PtyKill \<longrightarrow> \<not> busy (snd (calls s ! k)))"
proof -
  have inv: "bridge_inv s" unfolding assms(2) by (rule bridge_run_inv [OF make_bridge_inv(1) [OF assms(1)]])
  have none: "list_all (call_ok m) xs \<Longrightarrow> filter (\<lambda>x. snd x = PtyKill) xs = []" for m xs
    by (auto simp: list_all_iff call_ok_def filter_empty_conv)
  show ?thesis
  proof (cases "bridge_closed s")
    case False
    then have ok: "list_all (call_ok (maxBufferedBytes s)) (calls s)" using inv by (simp add: bridge_inv_def trace_ok_def)
    then have "snd (calls s ! j) \<noteq> PtyKill" if "j < length (calls s)" for j
      using that by (auto simp: list_all_length call_ok_def)
    with none [OF ok] False show ?thesis by auto
  next
    case True
    then have "trace_ok (maxBufferedBytes s) True (calls s)" using inv by (simp add: bridge_inv_def)
    then obtain a n b where c: "calls s = a @ (n, PtyKill) # b" and a: "list_all (call_ok (maxBufferedBytes s)) a"
      and b: "list_all (\<lambda>x. call_ok (maxBufferedBytes s) x \<and> \<not> busy (snd x)) b" by (rule trace_killedE)
    have b': "list_all (call_ok (maxBufferedBytes s)) b" using b by (simp add: list_all_iff)
    have "\<not> busy (snd (calls s ! k))" if "j < k" "k < length (calls s)" "snd (calls s ! j) = PtyKill" for j k
    proof -
      have "length a \<le> j" using that(3) a c by (auto simp: nth_append list_all_length call_ok_def split: if_splits)
      then show ?thesis using that(1,2) b c by (auto simp: nth_append list_all_length nth_Cons split: nat.split)
    qed
    with none [OF a] none [OF b'] c True show ?thesis by auto
  qed
qed

text \<open>
  C40. Backpressure is respected: whenever the bridge sends to the socket, the bytes already buffered
  plus the message stay below the configured limit, which is never more than one mebibyte.
\<close>

theorem bridge_backpressure:
  assumes "make_bridge E i limit w = Some (r, s0)" "s = fold (bridge_step E) es s0" "(n, SocketSend d) \<in> set (calls s)"
  shows "n + length (utf8_encode d) < maxBufferedBytes s \<and> maxBufferedBytes s \<le> 1048576"
proof -
  have inv: "bridge_inv s" unfolding assms(2) by (rule bridge_run_inv [OF make_bridge_inv(1) [OF assms(1)]])
  then have "call_ok (maxBufferedBytes s) (n, SocketSend d)"
    using assms(3) by (cases "bridge_closed s") (auto simp: bridge_inv_def trace_ok_def list_all_iff)
  with inv show ?thesis by (simp add: call_ok_def bridge_inv_def MAX_BUFFER_BYTES_def)
qed

section \<open>What reaches the terminal\<close>

definition writes_in :: "utext set \<Rightarrow> bridge_call \<Rightarrow> bool" where
  "writes_in X c \<longleftrightarrow> (\<forall>d. c = PtyWrite d \<longrightarrow> d \<in> X)"

lemma writes_calm: "calm_calls (writes_in X)"
  by (auto simp: calm_calls_def writes_in_def)

lemma step_session: "bridge_session (bridge_step E e s) = bridge_session s"
proof (cases "bridge_closed s")
  case True
  then show ?thesis
    by (cases e) (simp_all add: handleMessage_def handleOutput_def handleExit_def handleSocketClose_def handleSocketError_def
        bridge_close_def bridge_shutdown_def unless_closed_def em_simps)
next
  case False
  then show ?thesis
    using step_settled [OF False, of e E] by (cases e) (auto simp: settled_since_def since_def)
qed

lemma run_session: "bridge_session (fold (bridge_step E) es s) = bridge_session s"
  by (induction es arbitrary: s) (simp_all add: step_session)

text \<open>The input a message event may pass on.\<close>

definition admitted :: "'w bridge_env \<Rightarrow> frame \<Rightarrow> bool \<Rightarrow> 'w TerminalBridge \<Rightarrow> utext set" where
  "admitted E raw b s =
     {d. parseClientMessage raw b = Inr (ClientInput (bridge_session s) d) \<and> fst (authenticate E (outside s)) = Some True}"

lemma refused_input:
  assumes "\<not> bridge_closed s" "fst (authenticate E (outside s)) \<noteq> Some True" "calm_calls P"
  shows "settled_since P s (snd (bind (authenticateInput E) (\<lambda>ok. if \<not> ok then ret () else f) s))"
proof -
  obtain r w where r: "authenticate E (outside s) = (r, w)" by (metis surj_pair)
  let ?u = "s\<lparr>outside := w\<rparr>"
  obtain q t where q: "bridge_shutdown E AUTHENTICATION_REQUIRED AUTHENTICATION_REQUIRED_REASON True ?u = (q, t)" by (metis surj_pair)
  have "since P False False s ?u" using assms(1) by (simp add: since_def trace_ok_def)
  with shutdown_since [OF assms(3), of s E AUTHENTICATION_REQUIRED AUTHENTICATION_REQUIRED_REASON True "\<lambda>_ _. False"] q
  have "q = Inr () \<and> since P True True s t" by (cases q) (auto dest: tripleD_Inl tripleD_Inr)
  then show ?thesis using r assms(2) q by (simp add: authenticateInput_def em_simps settled_since_def)
qed

lemma message_writes:
  assumes "\<not> bridge_closed s"
  shows "settled_since (writes_in (admitted E raw b s)) s (snd (handleMessage E raw b s))"
proof -
  let ?P = "writes_in (admitted E raw b s)"
  note calm = writes_calm [of "admitted E raw b s"]
  have resize: "?P (PtyResize c r)" for c r by (simp add: writes_in_def)
  show ?thesis
  proof (cases "parseClientMessage raw b")
    case (Inl x)
    then have "handleMessage E raw b s = reject_message E s" using assms by (simp add: handleMessage_def unless_closed_def em_simps)
    with handlesD [OF handles_reject [OF calm] assms] show ?thesis by simp
  next
    case (Inr m)
    show ?thesis
    proof (cases m)
      case (ClientResize j c r)
      have "handleMessage E raw b s = (if j \<noteq> bridge_session s then reject_message E
          else bind (bridge_mark E) (\<lambda>_. bridge_resize E c r)) s"
        using assms Inr ClientResize by (simp add: handleMessage_def unless_closed_def em_simps)
      moreover have "settled_since ?P s (snd (bind (bridge_mark E) (\<lambda>_. bridge_resize E c r) s))"
        by (rule handlesD [OF triple_bind [OF mark_since [OF calm] handles_resize [OF calm resize]] assms])
      ultimately show ?thesis using handlesD [OF handles_reject [OF calm] assms] by simp
    next
      case (ClientInput j d)
      have run: "handleMessage E raw b s = (if j \<noteq> bridge_session s then reject_message E
          else bind (authenticateInput E) (\<lambda>ok. if \<not> ok then ret () else bind (bridge_mark E) (\<lambda>_. bridge_write E d))) s"
        using assms Inr ClientInput by (simp add: handleMessage_def unless_closed_def em_simps)
      show ?thesis
      proof (cases "j = bridge_session s \<and> fst (authenticate E (outside s)) = Some True")
        case True
        then have "?P (PtyWrite d)" using Inr ClientInput by (simp add: writes_in_def admitted_def)
        then have "handles ?P s (bind (authenticateInput E) (\<lambda>ok. if \<not> ok then ret () else bind (bridge_mark E) (\<lambda>_. bridge_write E d)))"
          by (intro triple_bind [OF authenticate_since [OF calm]] triple_if)
             (auto intro: triple_ret triple_bind [OF mark_since [OF calm]] handles_write [OF calm] simp: settled_since_def)
        from handlesD [OF this assms] True run show ?thesis by simp
      next
        case False
        with run handlesD [OF handles_reject [OF calm] assms] refused_input [OF assms _ calm] show ?thesis by auto
      qed
    qed
  qed
qed

lemma other_writes:
  assumes "\<not> bridge_closed s" "\<forall>raw b. e \<noteq> BMessage raw b"
  shows "\<forall>x \<in> set (drop (length (calls s)) (calls (bridge_step E e s))). writes_in {} (snd x)"
proof (cases "\<exists>f. e = BOutside f")
  case False
  have P: "writes_in {} (SocketSend d)" for d by (simp add: writes_in_def)
  note calm = writes_calm [of "{}"]
  have "settled_since (writes_in {}) s (bridge_step E e s)"
    using assms False handlesD [OF handles_output [OF calm P], of s E] handlesD [OF handles_exit [OF calm P], of s E]
      handlesD [OF handles_shutdown [OF calm], of s E] handlesD [OF handles_guard [OF handles_log_shutdown [OF calm]], of s E]
    by (cases e) (auto simp add: handleSocketClose_def handleSocketError_def bridge_close_def)
  then show ?thesis by (auto simp: settled_since_def since_def list_all_iff)
qed auto

text \<open>
  C14. Only authenticated input reaches the terminal: whenever an event makes the bridge write to the
  PTY, the event is a text frame that parses as an input message for this very session, of at most
  16384 bytes, the bridge is open and the authentication callback has just confirmed the socket's
  session; and what is written is the data of that message.
\<close>

theorem bridge_input_guarded:
  assumes "make_bridge E i limit w = Some (r, s0)" "s = fold (bridge_step E) es s0"
    and "(n, PtyWrite d) \<in> set (drop (length (calls s)) (calls (bridge_step E e s)))"
  shows "\<exists>raw. e = BMessage raw False \<and> parseClientMessage raw False = Inr (ClientInput i d) \<and>
    fst (authenticate E (outside s)) = Some True \<and> \<not> bridge_closed s \<and> length (utf8_encode d) \<le> 16384"
proof -
  have i: "bridge_session s = i" using run_session make_bridge_inv(2) [OF assms(1)] assms(2) by metis
  have "\<not> bridge_closed s" using step_closed [of s E e] assms(3) by auto
  note other = other_writes [OF this, of e E] and msg = message_writes [OF this, of E]
  obtain raw b where e: "e = BMessage raw b" using other assms(3) by (fastforce simp: writes_in_def)
  have "d \<in> admitted E raw b s"
    using msg [of raw b] assms(3) e by (fastforce simp: settled_since_def since_def list_all_iff writes_in_def)
  then have p: "parseClientMessage raw b = Inr (ClientInput i d)" "fst (authenticate E (outside s)) = Some True"
    by (simp_all add: admitted_def i)
  with client_accepted [OF p(1)] e \<open>\<not> bridge_closed s\<close> show ?thesis by simp
qed

section \<open>An example\<close>

text \<open>An open socket with 10 bytes buffered that closes when asked to; all calls succeed.\<close>

definition example_bridge :: "bool bridge_env" where
  "example_bridge = \<lparr>socket_open = (\<lambda>w. w), bufferedAmount = (\<lambda>_. 10),
     invoke = (\<lambda>c w. (True, case c of SocketClose _ _ \<Rightarrow> False | _ \<Rightarrow> w)),
     authenticate = (\<lambda>w. (Some True, w)), pty_pid = (\<lambda>_. None)\<rparr>"

definition example_bridge_state :: "bool TerminalBridge" where
  "example_bridge_state = \<lparr>bridge_session = ''11111111-1111-4111-8111-111111111111'', maxBufferedBytes = 4096,
     bridge_closed = False, disposables = 5, outside = True,
     calls = map (Pair 10) [Subscribe 0, Subscribe 1, Subscribe 2, Subscribe 3, Subscribe 4, LogEvent ''terminal_opened'']\<rparr>"

lemma example_bridge_made:
  "make_bridge example_bridge ''11111111-1111-4111-8111-111111111111'' (Num 4096) True = Some (Inr (), example_bridge_state)"
proof -
  have "isSessionId ''11111111-1111-4111-8111-111111111111''" by code_simp
  then show ?thesis
    by (simp add: example_bridge_state_def make_bridge_def em_simps log_event_def try_call_def example_bridge_def MAX_BUFFER_BYTES_def)
qed

theorem bridge_closes_once_witness:
  "length (filter (\<lambda>x. snd x = PtyKill) (calls (fold (bridge_step example_bridge) [BExit, BClose 1000 ''x'', BOutput [65]] example_bridge_state))) =
   (if bridge_closed (fold (bridge_step example_bridge) [BExit, BClose 1000 ''x'', BOutput [65]] example_bridge_state) then 1 else 0)"
  using bridge_closes_once [OF example_bridge_made(1) refl] by blast

lemma example_output:
  "(10, SocketSend (stringify (server_json (ServerOutput ''11111111-1111-4111-8111-111111111111'' [65])))) \<in>
     set (calls (fold (bridge_step example_bridge) [BOutput [65]] example_bridge_state))"
proof -
  have "length (utf8_encode (stringify (server_json (ServerOutput ''11111111-1111-4111-8111-111111111111'' [65])))) < 4000"
    by (simp add: message_json_def text_of_def quote_text_def quote_unit_def surrogate_def
      utf8_encode_def encode_point_def print_int_def print_nat.simps PROTOCOL_VERSION_def)
  then show ?thesis
    by (simp add: handleOutput_def unless_closed_def em_simps bridge_mark_def try_call_def or_log_def socketIsOpen_def
        pending_bytes_def example_bridge_def example_bridge_state_def del: stringify.simps server_json.simps)
qed

theorem bridge_backpressure_witness:
  "10 + length (utf8_encode (stringify (server_json (ServerOutput ''11111111-1111-4111-8111-111111111111'' [65])))) <
   maxBufferedBytes (fold (bridge_step example_bridge) [BOutput [65]] example_bridge_state)"
  using bridge_backpressure [OF example_bridge_made refl example_output] by blast

lemma example_typed:
  "(10, PtyWrite [233, 10, 0x1F600]) \<in>
     set (drop (length (calls example_bridge_state)) (calls (bridge_step example_bridge
       (BMessage (TextFrame (stringify (client_json example_input))) False) example_bridge_state)))"
proof -
  have p: "parseClientMessage (TextFrame (stringify (client_json example_input))) False =
      Inr (ClientInput ''11111111-1111-4111-8111-111111111111'' [233, 10, 0x1F600])"
    using client_text_parses(2) [OF example_input_ok example_input_length] by (simp add: example_input_def)
  show ?thesis
    by (simp add: handleMessage_def unless_closed_def em_simps p authenticateInput_def bridge_mark_def bridge_write_def
        try_call_def or_log_def example_bridge_def example_bridge_state_def)
qed

theorem bridge_input_guarded_witness:
  "fst (authenticate example_bridge (outside example_bridge_state)) = Some True \<and>
   length (utf8_encode [233, 10, 0x1F600]) \<le> 16384"
  using bridge_input_guarded [OF example_bridge_made, of example_bridge_state "[]", OF _ example_typed] by auto

end
