(* ===== verification/TerminalWebSocket.thy ===== *)
theory TerminalWebSocket
  imports Origin WebSocketAuthIndex SessionProperties TerminalBridge
begin

text \<open>
  The WebSocket endpoint, \<open>websocket.ts\<close>: the decision on an upgrade request, which joins the admission
  rules, the socket index and the session manager, and the life of an accepted connection.

  The handlers run to completion; a handler that awaits is split where it awaits, so the events of a run
  interleave exactly at those points. An accepted socket keeps the handle of its request. The closures of
  the \<open>connection\<close> handler are the record \<open>connection\<close>: \<open>conn_stage\<close> is how far the promise chain from
  \<open>connect\<close> has come, \<open>conn_cleanup\<close> how far \<open>cleanupOwner\<close> has.

  The \<open>ws\<close> library is the parameter \<open>perform\<close>: what a call does to the world, and whether it returned.
\<close>

declare map_of_eq_Some_iff [simp del] Some_eq_map_of_iff [simp del]

section \<open>State\<close>

datatype conn_stage = Starting | Connected nat | ConnectFailed | Finished

datatype cleanup_stage = NotCleaned | ClosedOwner | RemovedOwner

record connection =
  conn_session :: string
  conn_token :: AttachToken
  conn_authority :: ApplicationSessionAuthority
  conn_stage :: conn_stage
  conn_owner :: "nat option"
  ended :: bool
  authenticationEnded :: bool
  conn_cleanup :: cleanup_stage
  listenersDisposed :: bool

datatype ws_call =
    EndResponse nat string
  | SendText nat utext
  | CloseWith nat nat string
  | TerminateClient nat
  | PingClient nat
  | CloseOwner nat nat nat string
  | ReportFailure string

record ('w, 't) endpoint =
  auth_index :: WebSocketAuthIndex
  manager :: "('w, 't) SessionManager"
  accepting :: bool
  heartbeat :: bool
  ep_closed :: bool
  pending_upgrades :: "(nat, string) jsmap"
  connections :: "(nat, connection) jsmap"
  alive :: "(nat, bool) jsmap"
  ws_calls :: "ws_call list"

record ('w, 't) endpoint_env =
  url_parser :: "string \<Rightarrow> URL option"
  upgrade_options :: UpgradeAuthorizationOptions
  has_authenticator :: bool
  ep_index :: "'w index_env"
  ep_manager :: "('w, 't) manager_env"
  handshake :: "nat \<Rightarrow> 'w \<Rightarrow> bool \<times> 'w"
  perform :: "ws_call \<Rightarrow> 'w \<Rightarrow> bool \<times> 'w"
  ws_clients :: "'w \<Rightarrow> nat list"

type_synonym ('w, 't, 'a) endpoint_op = "(('w, 't) endpoint, unit, 'a) em"

section \<open>Reaching the collaborators\<close>

definition ep_world :: "('w, 't) endpoint \<Rightarrow> 'w" where
  "ep_world s = world (manager s)"

definition put_world :: "'w \<Rightarrow> ('w, 't) endpoint \<Rightarrow> ('w, 't) endpoint" where
  "put_world w s = s\<lparr>manager := (manager s)\<lparr>world := w\<rparr>\<rparr>"

definition on_auth_index :: "('w index_state \<Rightarrow> 'a \<times> 'w index_state) \<Rightarrow> ('w, 't, 'a) endpoint_op" where
  "on_auth_index f = (\<lambda>s. case f (auth_index s, ep_world s) of
     (x, (ix, w)) \<Rightarrow> (Inr x, put_world w (s\<lparr>auth_index := ix\<rparr>)))"

definition on_session_manager :: "(('w, 't) SessionManager, 'e, 'a) em \<Rightarrow> ('w, 't, 'a) endpoint_op" where
  "on_session_manager m = (\<lambda>s. case m (manager s) of
     (Inl _, t) \<Rightarrow> (Inl (), s\<lparr>manager := t\<rparr>)
   | (Inr x, t) \<Rightarrow> (Inr x, s\<lparr>manager := t\<rparr>))"

definition ws_do :: "('w, 't) endpoint_env \<Rightarrow> ws_call \<Rightarrow> ('w, 't, bool) endpoint_op" where
  "ws_do E c = (\<lambda>s. case perform E c (ep_world s) of
     (returned, w) \<Rightarrow> (Inr returned, put_world w (s\<lparr>ws_calls := ws_calls s @ [c]\<rparr>)))"

definition socket_is_open :: "('w, 't) endpoint_env \<Rightarrow> nat \<Rightarrow> ('w, 't, bool) endpoint_op" where
  "socket_is_open E u = gets (\<lambda>s. sock_open (ep_index E) (ep_world s) u)"

definition authority_active :: "('w, 't) endpoint_env \<Rightarrow> ApplicationSessionAuthority \<Rightarrow> ('w, 't, bool) endpoint_op" where
  "authority_active E a = on_auth_index (isActive (ep_index E) a)"

definition close_unauthenticated :: "('w, 't) endpoint_env \<Rightarrow> nat \<Rightarrow> ('w, 't, unit) endpoint_op" where
  "close_unauthenticated E u = bind (on_auth_index (closeAuthenticationRequired (ep_index E) u)) (\<lambda>_. ret ())"

definition with_connection :: "nat \<Rightarrow> (connection \<Rightarrow> ('w, 't, unit) endpoint_op) \<Rightarrow> ('w, 't, unit) endpoint_op" where
  "with_connection u f = bind (gets (\<lambda>s. jm_get (connections s) u)) (\<lambda>c. case c of None \<Rightarrow> ret () | Some x \<Rightarrow> f x)"

definition conn_update :: "nat \<Rightarrow> (connection \<Rightarrow> connection) \<Rightarrow> ('w, 't) endpoint \<Rightarrow> ('w, 't) endpoint" where
  "conn_update u f s = (case jm_get (connections s) u of
     None \<Rightarrow> s
   | Some c \<Rightarrow> s\<lparr>connections := jm_set (connections s) u (f c)\<rparr>)"

definition put_connection :: "nat \<Rightarrow> (connection \<Rightarrow> connection) \<Rightarrow> ('w, 't, unit) endpoint_op" where
  "put_connection u f = modify (conn_update u f)"

section \<open>Upgrades\<close>

definition reject_reason :: "nat \<Rightarrow> string" where
  "reject_reason status =
     (if status = 401 then ''Unauthorized''
      else if status = 403 then ''Forbidden''
      else if status = 404 then ''Not Found'' else ''Service Unavailable'')"

definition decimal :: "nat \<Rightarrow> string" where
  "decimal n = map char_of (print_nat n)"

definition crlf :: string where
  "crlf = [char_of (13::nat), char_of (10::nat)]"

definition reject_response :: "nat \<Rightarrow> string" where
  "reject_response status =
     (let head = decimal status @ '' '' @ reject_reason status;
          body = head @ [char_of (10::nat)]
      in ''HTTP/1.1 '' @ head @ crlf @ ''Connection: close'' @ crlf @
         ''Content-Type: text/plain; charset=utf-8'' @ crlf @
         ''Content-Length: '' @ decimal (byteLength body) @ crlf @ crlf @ body)"

definition rejectUpgrade :: "('w, 't) endpoint_env \<Rightarrow> nat \<Rightarrow> nat \<Rightarrow> ('w, 't, unit) endpoint_op" where
  "rejectUpgrade E u status = bind (ws_do E (EndResponse u (reject_response status))) (\<lambda>_. ret ())"

text \<open>\<open>acceptUpgrade\<close> up to the answer of the authenticator.\<close>

definition upgrade_begin :: "('w, 't) endpoint_env \<Rightarrow> nat \<Rightarrow> UpgradeRequest \<Rightarrow> ('w, 't, unit) endpoint_op" where
  "upgrade_begin E u request =
     bind (gets accepting) (\<lambda>open_for_business.
     if \<not> open_for_business then rejectUpgrade E u 503
     else case authorizeUpgrade (url_parser E) request (upgrade_options E) of
            Denied status \<Rightarrow> rejectUpgrade E u status
          | Allowed sessionId \<Rightarrow>
              if \<not> has_authenticator E then rejectUpgrade E u 503
              else modify (\<lambda>s. s\<lparr>pending_upgrades := jm_set (pending_upgrades s) u sessionId\<rparr>))"

definition new_connection :: "string \<Rightarrow> AttachToken \<Rightarrow> ApplicationSessionAuthority \<Rightarrow> connection" where
  "new_connection i k a = \<lparr>conn_session = i, conn_token = k, conn_authority = a, conn_stage = Starting,
     conn_owner = None, ended = False, authenticationEnded = False, conn_cleanup = NotCleaned, listenersDisposed = False\<rparr>"

text \<open>
  The callback of \<open>handleUpgrade\<close>, with the first part of the \<open>connection\<close> handler, which the callback
  runs at once and which therefore always finds its connection.
\<close>

definition upgraded ::
  "('w, 't) endpoint_env \<Rightarrow> nat \<Rightarrow> string \<Rightarrow> AttachToken \<Rightarrow> ApplicationSessionAuthority \<Rightarrow> ('w, 't, unit) endpoint_op"
where
  "upgraded E u i k a =
     bind (authority_active E a) (\<lambda>active.
     bind (if active then on_auth_index (registerIfActive (ep_index E) a i u) else ret False) (\<lambda>enrolled.
     if \<not> enrolled
     then modify (\<lambda>s. put_world (snd (secureAuthenticationClosure (ep_index E) u (ep_world s))) s)
     else modify (\<lambda>s. s\<lparr>connections := jm_set (connections s) u (new_connection i k a),
                        alive := jm_set (alive s) u True\<rparr>)))"

text \<open>
  \<open>acceptUpgrade\<close> after the answer: \<open>Inl ()\<close> when the authenticator threw, which \<open>onUpgrade\<close> turns into
  a rejection, as it does for any other exception.
\<close>

definition upgrade_decide ::
  "('w, 't) endpoint_env \<Rightarrow> nat \<Rightarrow> string \<Rightarrow> ApplicationSessionAuthority \<Rightarrow> ('w, 't, unit) endpoint_op"
where
  "upgrade_decide E u i a =
     bind (authority_active E a) (\<lambda>active.
     if \<not> active then rejectUpgrade E u 401
     else bind (on_session_manager (authorize (ep_manager E) i)) (\<lambda>token.
       case token of
         None \<Rightarrow> rejectUpgrade E u 404
       | Some k \<Rightarrow>
           bind (gets accepting) (\<lambda>open_for_business.
           bind (if open_for_business then authority_active E a else ret False) (\<lambda>still.
           if \<not> still then rejectUpgrade E u (if open_for_business then 401 else 503)
           else
             bind (\<lambda>s. case handshake E u (ep_world s) of (b, w) \<Rightarrow> (Inr b, put_world w s)) (\<lambda>shaken.
             if shaken then upgraded E u i k a else ret ())))))"

definition upgrade_finish ::
  "('w, 't) endpoint_env \<Rightarrow> nat \<Rightarrow> unit + ApplicationSessionAuthority option \<Rightarrow> ('w, 't, unit) endpoint_op"
where
  "upgrade_finish E u reply =
     bind (gets (\<lambda>s. jm_get (pending_upgrades s) u)) (\<lambda>p.
     case p of
       None \<Rightarrow> ret ()
     | Some i \<Rightarrow>
         bind (modify (\<lambda>s. s\<lparr>pending_upgrades := jm_delete (pending_upgrades s) u\<rparr>)) (\<lambda>_.
         case reply of
           Inr (Some a) \<Rightarrow> catch (upgrade_decide E u i a) (\<lambda>_. rejectUpgrade E u 401)
         | _ \<Rightarrow> rejectUpgrade E u 401))"

section \<open>Connections\<close>

definition cleanupOwner :: "('w, 't) endpoint_env \<Rightarrow> nat \<Rightarrow> ('w, 't, unit) endpoint_op" where
  "cleanupOwner E u = with_connection u (\<lambda>c.
     if conn_cleanup c \<noteq> NotCleaned then ret ()
     else case conn_owner c of
            None \<Rightarrow> ret ()
          | Some h \<Rightarrow>
              (let code = (if authenticationEnded c then AUTHENTICATION_REQUIRED else 1001);
                   why = (if authenticationEnded c then AUTHENTICATION_REQUIRED_REASON else ''socket_closed'')
               in bind (put_connection u (\<lambda>c. c\<lparr>conn_cleanup := ClosedOwner\<rparr>)) (\<lambda>_.
                  bind (modify (\<lambda>s. s\<lparr>ws_calls := ws_calls s @ [CloseOwner u h code why]\<rparr>)) (\<lambda>_.
                  bind (attempt (on_session_manager (close_owner (m_owners (ep_manager E)) h code why))) (\<lambda>_.
                  ret ())))))"

text \<open>The continuation of \<open>cleanupOwner\<close> once the owner's close has settled.\<close>

definition finish_cleanup :: "('w, 't) endpoint_env \<Rightarrow> nat \<Rightarrow> ('w, 't, unit) endpoint_op" where
  "finish_cleanup E u = with_connection u (\<lambda>c.
     case (conn_cleanup c, conn_owner c) of
       (ClosedOwner, Some h) \<Rightarrow>
         bind (put_connection u (\<lambda>c. c\<lparr>conn_cleanup := RemovedOwner\<rparr>)) (\<lambda>_.
         bind (attempt (on_session_manager (registry_remove (conn_session c) h))) (\<lambda>_. ret ()))
     | _ \<Rightarrow> ret ())"

definition end_connection :: "('w, 't) endpoint_env \<Rightarrow> nat \<Rightarrow> ('w, 't, unit) endpoint_op" where
  "end_connection E u = with_connection u (\<lambda>c.
     bind (put_connection u (\<lambda>c. c\<lparr>listenersDisposed := True, ended := True\<rparr>)) (\<lambda>_.
     bind (authority_active E (conn_authority c)) (\<lambda>active.
     bind (put_connection u (\<lambda>c. c\<lparr>authenticationEnded := \<not> active\<rparr>)) (\<lambda>_.
     bind (modify (\<lambda>s. s\<lparr>auth_index := unregister u (auth_index s)\<rparr>)) (\<lambda>_.
     cleanupOwner E u)))))"

definition on_socket_close :: "('w, 't) endpoint_env \<Rightarrow> nat \<Rightarrow> ('w, 't, unit) endpoint_op" where
  "on_socket_close E u = with_connection u (\<lambda>c. if listenersDisposed c then ret () else end_connection E u)"

definition on_socket_error :: "('w, 't) endpoint_env \<Rightarrow> nat \<Rightarrow> ('w, 't, unit) endpoint_op" where
  "on_socket_error E u = with_connection u (\<lambda>c.
     if listenersDisposed c then ret ()
     else bind (end_connection E u) (\<lambda>_.
          bind (socket_is_open E u) (\<lambda>still.
          if still then bind (ws_do E (CloseWith u 1011 ''socket_error'')) (\<lambda>_. ret ()) else ret ())))"

definition on_pong :: "nat \<Rightarrow> ('w, 't, unit) endpoint_op" where
  "on_pong u = with_connection u (\<lambda>c.
     if listenersDisposed c then ret () else modify (\<lambda>s. s\<lparr>alive := jm_set (alive s) u True\<rparr>))"

definition ready_text :: "string \<Rightarrow> utext" where
  "ready_text i = stringify (server_json (ServerReady i))"

definition error_text :: "string \<Rightarrow> utext" where
  "error_text i = stringify (server_json (ServerError i (text_of ''terminal_unavailable'')))"

text \<open>\<open>sendReady\<close> and \<open>sendConnectionError\<close>; the exception is that of \<open>socket.send\<close>.\<close>

definition send_message :: "('w, 't) endpoint_env \<Rightarrow> nat \<Rightarrow> utext \<Rightarrow> ('w, 't, unit) endpoint_op" where
  "send_message E u d =
     bind (socket_is_open E u) (\<lambda>still.
     if \<not> still then ret () else bind (ws_do E (SendText u d)) (\<lambda>ok. if ok then ret () else throw ()))"

text \<open>The promise from \<open>sessionManager.connect\<close>: it settles, and its handler runs later.\<close>

definition initial_dimensions :: TerminalDimensions where
  "initial_dimensions = \<lparr>cols = Num 80, rows = Num 24\<rparr>"

definition connect_settles :: "('w, 't) endpoint_env \<Rightarrow> nat \<Rightarrow> ('w, 't, unit) endpoint_op" where
  "connect_settles E u = with_connection u (\<lambda>c.
     if conn_stage c \<noteq> Starting then ret ()
     else bind (attempt (on_session_manager (connect (ep_manager E) (conn_token c) u initial_dimensions))) (\<lambda>r.
          put_connection u (\<lambda>c. c\<lparr>conn_stage := (case r of Inl _ \<Rightarrow> ConnectFailed | Inr h \<Rightarrow> Connected h)\<rparr>)))"

definition connection_failed :: "('w, 't) endpoint_env \<Rightarrow> nat \<Rightarrow> ('w, 't, unit) endpoint_op" where
  "connection_failed E u = with_connection u (\<lambda>c.
     bind (if ended c then ret False else authority_active E (conn_authority c)) (\<lambda>going.
     if \<not> going then close_unauthenticated E u
     else
       bind (ws_do E (ReportFailure (conn_session c))) (\<lambda>_.
       bind (send_message E u (error_text (conn_session c))) (\<lambda>_.
       bind (socket_is_open E u) (\<lambda>still.
       if still then bind (ws_do E (CloseWith u 1011 ''terminal_unavailable'')) (\<lambda>_. ret ()) else ret ())))))"

definition on_connected :: "('w, 't) endpoint_env \<Rightarrow> nat \<Rightarrow> nat \<Rightarrow> ('w, 't, unit) endpoint_op" where
  "on_connected E u h =
     bind (put_connection u (\<lambda>c. c\<lparr>conn_owner := Some h\<rparr>)) (\<lambda>_.
     with_connection u (\<lambda>c.
     bind (authority_active E (conn_authority c)) (\<lambda>active.
     bind (if active then ret ()
           else bind (put_connection u (\<lambda>c. c\<lparr>authenticationEnded := True, ended := True\<rparr>)) (\<lambda>_.
                close_unauthenticated E u)) (\<lambda>_.
     bind (socket_is_open E u) (\<lambda>still.
     if ended c \<or> \<not> active \<or> \<not> still then cleanupOwner E u
     else send_message E u (ready_text (conn_session c)))))))"

definition connect_handled :: "('w, 't) endpoint_env \<Rightarrow> nat \<Rightarrow> ('w, 't, unit) endpoint_op" where
  "connect_handled E u = with_connection u (\<lambda>c.
     bind (case conn_stage c of
             Starting \<Rightarrow> ret ()
           | Finished \<Rightarrow> ret ()
           | ConnectFailed \<Rightarrow>
               bind (put_connection u (\<lambda>c. c\<lparr>conn_stage := Finished\<rparr>)) (\<lambda>_. connection_failed E u)
           | Connected h \<Rightarrow>
               bind (put_connection u (\<lambda>c. c\<lparr>conn_stage := Finished\<rparr>)) (\<lambda>_.
               catch (on_connected E u h) (\<lambda>_. connection_failed E u))) (\<lambda>_. ret ()))"

section \<open>Heartbeat and shutdown\<close>

fun heartbeat_clients :: "('w, 't) endpoint_env \<Rightarrow> nat list \<Rightarrow> ('w, 't, unit) endpoint_op" where
  "heartbeat_clients E [] = ret ()"
| "heartbeat_clients E (u # us) =
     bind (socket_is_open E u) (\<lambda>still.
     bind (gets (\<lambda>s. jm_get (alive s) u)) (\<lambda>answered.
     bind (if \<not> still then ret True
           else if answered = Some False then ws_do E (TerminateClient u)
           else bind (modify (\<lambda>s. s\<lparr>alive := jm_set (alive s) u False\<rparr>)) (\<lambda>_. ws_do E (PingClient u))) (\<lambda>_.
     heartbeat_clients E us)))"

definition heartbeat_tick :: "('w, 't) endpoint_env \<Rightarrow> ('w, 't, unit) endpoint_op" where
  "heartbeat_tick E =
     bind (gets heartbeat) (\<lambda>running.
     if \<not> running then ret ()
     else
       bind (on_auth_index (\<lambda>st. ((), sweepExpired (ep_index E) st))) (\<lambda>_.
       bind (gets (\<lambda>s. ws_clients E (ep_world s))) (heartbeat_clients E)))"

definition stopAccepting :: "('w, 't, unit) endpoint_op" where
  "stopAccepting = modify (\<lambda>s. s\<lparr>accepting := False\<rparr>)"

definition stopHeartbeat :: "('w, 't, unit) endpoint_op" where
  "stopHeartbeat = modify (\<lambda>s. s\<lparr>heartbeat := False\<rparr>)"

fun terminate_clients :: "('w, 't) endpoint_env \<Rightarrow> nat list \<Rightarrow> ('w, 't, unit) endpoint_op" where
  "terminate_clients E [] = ret ()"
| "terminate_clients E (u # us) = bind (ws_do E (TerminateClient u)) (\<lambda>_. terminate_clients E us)"

definition closeClients :: "('w, 't) endpoint_env \<Rightarrow> ('w, 't, unit) endpoint_op" where
  "closeClients E = bind (gets (\<lambda>s. ws_clients E (ep_world s))) (terminate_clients E)"

definition disposeAuthentication :: "('w, 't) endpoint_env \<Rightarrow> ('w, 't, unit) endpoint_op" where
  "disposeAuthentication E = on_auth_index (\<lambda>st. ((), dispose (ep_index E) st))"

definition onHttpServerClose :: "('w, 't) endpoint_env \<Rightarrow> ('w, 't, unit) endpoint_op" where
  "onHttpServerClose E = bind stopAccepting (\<lambda>_. bind stopHeartbeat (\<lambda>_. disposeAuthentication E))"

definition close_endpoint :: "('w, 't) endpoint_env \<Rightarrow> ('w, 't, unit) endpoint_op" where
  "close_endpoint E =
     bind (gets ep_closed) (\<lambda>already.
     if already then ret ()
     else
       bind stopAccepting (\<lambda>_.
       bind stopHeartbeat (\<lambda>_.
       bind (closeClients E) (\<lambda>_.
       bind (disposeAuthentication E) (\<lambda>_.
       modify (\<lambda>s. s\<lparr>ep_closed := True\<rparr>))))))"

section \<open>Runs\<close>

text \<open>
  Besides its own handlers the endpoint sees the index change by revocations and the session manager by
  the requests of other clients. A request whose handle is still in use is not a new request.
\<close>

datatype ('w, 't) endpoint_event =
    EUpgrade nat UpgradeRequest
  | EAuthenticated nat "unit + ApplicationSessionAuthority option"
  | EConnectSettles nat
  | EConnectHandled nat
  | ESocketClose nat
  | ESocketError nat
  | EPong nat
  | EOwnerClosed nat
  | EHeartbeat
  | EStopAccepting
  | EStopHeartbeat
  | ECloseClients
  | EHttpServerClose
  | ECloseEndpoint
  | EIndex index_event
  | EManager "('w, 't) SessionManager \<Rightarrow> ('w, 't) SessionManager"

definition handle_in_use :: "('w, 't) endpoint \<Rightarrow> nat \<Rightarrow> bool" where
  "handle_in_use s u \<longleftrightarrow> jm_get (pending_upgrades s) u \<noteq> None \<or> jm_get (connections s) u \<noteq> None"

fun endpoint_step ::
  "('w, 't) endpoint_env \<Rightarrow> ('w, 't) endpoint_event \<Rightarrow> ('w, 't) endpoint \<Rightarrow> ('w, 't) endpoint"
where
  "endpoint_step E (EUpgrade u request) s = (if handle_in_use s u then s else snd (upgrade_begin E u request s))"
| "endpoint_step E (EAuthenticated u reply) s = snd (upgrade_finish E u reply s)"
| "endpoint_step E (EConnectSettles u) s = snd (connect_settles E u s)"
| "endpoint_step E (EConnectHandled u) s = snd (connect_handled E u s)"
| "endpoint_step E (ESocketClose u) s = snd (on_socket_close E u s)"
| "endpoint_step E (ESocketError u) s = snd (on_socket_error E u s)"
| "endpoint_step E (EPong u) s = snd (on_pong u s)"
| "endpoint_step E (EOwnerClosed u) s = snd (finish_cleanup E u s)"
| "endpoint_step E EHeartbeat s = snd (heartbeat_tick E s)"
| "endpoint_step E EStopAccepting s = snd (stopAccepting s)"
| "endpoint_step E EStopHeartbeat s = snd (stopHeartbeat s)"
| "endpoint_step E ECloseClients s = snd (closeClients E s)"
| "endpoint_step E EHttpServerClose s = snd (onHttpServerClose E s)"
| "endpoint_step E ECloseEndpoint s = snd (close_endpoint E s)"
| "endpoint_step E (EIndex e) s = snd (on_auth_index (\<lambda>st. ((), index_step (ep_index E) e st)) s)"
| "endpoint_step E (EManager f) s = s\<lparr>manager := f (manager s)\<rparr>"

definition new_endpoint :: "WebSocketAuthIndex \<Rightarrow> ('w, 't) SessionManager \<Rightarrow> ('w, 't) endpoint" where
  "new_endpoint x m = \<lparr>auth_index = x, manager = m, accepting = True, heartbeat = True, ep_closed = False, pending_upgrades = [],
     connections = [], alive = [], ws_calls = []\<rparr>"

section \<open>What the connections see\<close>

text \<open>
  The part of the state that belongs to the connections, and the calls made on their behalf. Most
  handlers leave it alone.
\<close>

fun tracked :: "ws_call \<Rightarrow> bool" where
  "tracked (CloseOwner _ _ _ _) = True"
| "tracked (SendText _ _) = True"
| "tracked _ = False"

record ep_view =
  v_conns :: "(nat, connection) jsmap"
  v_pending :: "(nat, string) jsmap"
  v_calls :: "ws_call list"

definition ep_view_of :: "('w, 't) endpoint \<Rightarrow> ep_view" where
  "ep_view_of s = \<lparr>v_conns = connections s, v_pending = pending_upgrades s, v_calls = filter tracked (ws_calls s)\<rparr>"

lemma ep_view_simps [simp]:
  "v_conns (ep_view_of s) = connections s" "v_pending (ep_view_of s) = pending_upgrades s"
  "v_calls (ep_view_of s) = filter tracked (ws_calls s)"
  by (simp_all add: ep_view_of_def)

lemma view_updates [simp]:
  "ep_view_of (put_world w s) = ep_view_of s"
  "ep_view_of (s\<lparr>manager := m\<rparr>) = ep_view_of s"
  "ep_view_of (s\<lparr>auth_index := x\<rparr>) = ep_view_of s"
  "ep_view_of (s\<lparr>alive := al\<rparr>) = ep_view_of s"
  "ep_view_of (s\<lparr>accepting := b\<rparr>) = ep_view_of s"
  "ep_view_of (s\<lparr>heartbeat := b\<rparr>) = ep_view_of s"
  "ep_view_of (s\<lparr>ep_closed := b\<rparr>) = ep_view_of s"
  "ep_view_of (s\<lparr>connections := C\<rparr>) = (ep_view_of s)\<lparr>v_conns := C\<rparr>"
  "ep_view_of (s\<lparr>pending_upgrades := Q\<rparr>) = (ep_view_of s)\<lparr>v_pending := Q\<rparr>"
  "ep_view_of (s\<lparr>ws_calls := L\<rparr>) = (ep_view_of s)\<lparr>v_calls := filter tracked L\<rparr>"
  by (simp_all add: ep_view_of_def put_world_def)

interpretation calm: frame_relation "\<lambda>_. True" "\<lambda>s t. ep_view_of t = ep_view_of s \<and> accepting t = accepting s"
  by unfold_locales auto

lemma calm_modify:
  assumes "\<And>s. ep_view_of (f s) = ep_view_of s \<and> accepting (f s) = accepting s"
  shows "calm.keeps (modify f)"
  using assms by (simp add: calm.keeps_def modify_def)

lemma calm_index: "calm.keeps (on_auth_index f)"
  by (simp add: calm.keeps_def on_auth_index_def put_world_def split: prod.splits)

lemma calm_manager: "calm.keeps (on_session_manager m)"
  by (simp add: calm.keeps_def on_session_manager_def split: prod.splits sum.splits)

lemma calm_call: "\<not> tracked c \<Longrightarrow> calm.keeps (ws_do E c)"
  by (rule calm.keepsI) (simp add: ws_do_def ep_view_of_def put_world_def split: prod.splits)

lemma calm_socket: "calm.keeps (socket_is_open E u)"
  by (simp add: socket_is_open_def calm.keeps_gets)

lemma calm_active: "calm.keeps (authority_active E a)"
  by (simp add: authority_active_def calm_index)

lemmas calm_rules = calm.keeps_intros calm_index calm_manager calm_socket calm_active calm_modify calm_call

lemma calm_clients: "calm.keeps (heartbeat_clients E us)" "calm.keeps (terminate_clients E us)"
  by (induction us) (auto intro!: calm_rules)

lemma calm_handlers:
  "calm.keeps (close_unauthenticated E u)" "calm.keeps (rejectUpgrade E u status)" "calm.keeps (on_pong u)"
  "calm.keeps (heartbeat_tick E)" "calm.keeps stopHeartbeat" "calm.keeps (closeClients E)"
  "calm.keeps (disposeAuthentication E)"
  by (auto simp: close_unauthenticated_def rejectUpgrade_def on_pong_def with_connection_def heartbeat_tick_def
      stopHeartbeat_def closeClients_def disposeAuthentication_def intro!: calm_rules calm_clients)


section \<open>The handlers on the view\<close>

definition v_put :: "nat \<Rightarrow> (connection \<Rightarrow> connection) \<Rightarrow> ep_view \<Rightarrow> ep_view" where
  "v_put u f v = (case jm_get (v_conns v) u of None \<Rightarrow> v | Some c \<Rightarrow> v\<lparr>v_conns := jm_set (v_conns v) u (f c)\<rparr>)"

definition v_call :: "ws_call \<Rightarrow> ep_view \<Rightarrow> ep_view" where
  "v_call x v = v\<lparr>v_calls := v_calls v @ [x]\<rparr>"

definition end_code :: "connection \<Rightarrow> nat" where
  "end_code c = (if authenticationEnded c then AUTHENTICATION_REQUIRED else 1001)"

definition end_reason :: "connection \<Rightarrow> string" where
  "end_reason c = (if authenticationEnded c then AUTHENTICATION_REQUIRED_REASON else ''socket_closed'')"

definition v_clean :: "nat \<Rightarrow> ep_view \<Rightarrow> ep_view" where
  "v_clean u v =
     (case jm_get (v_conns v) u of
        None \<Rightarrow> v
      | Some c \<Rightarrow>
          (case conn_owner c of
             Some h \<Rightarrow>
               if conn_cleanup c = NotCleaned
               then v_call (CloseOwner u h (end_code c) (end_reason c)) (v_put u (\<lambda>c. c\<lparr>conn_cleanup := ClosedOwner\<rparr>) v)
               else v
           | None \<Rightarrow> v))"

lemma put_connection_run [em_simps]: "put_connection u f s = (Inr (), conn_update u f s)"
  by (simp add: put_connection_def modify_def)

lemma conn_update_view [simp]:
  "ep_view_of (conn_update u f s) = v_put u f (ep_view_of s)"
  "accepting (conn_update u f s) = accepting s"
  "ws_calls (conn_update u f s) = ws_calls s"
  by (simp_all add: conn_update_def v_put_def split: option.split)

lemma calm_run:
  assumes "calm.keeps m" and "m s = (r, t)"
  shows "ep_view_of t = ep_view_of s" "accepting t = accepting s"
  using calm.keepsD [OF assms(1), of s] assms(2) by simp_all

lemma active_run: obtains b t where "authority_active E a s = (Inr b, t)" "ep_view_of t = ep_view_of s" "accepting t = accepting s"
proof -
  obtain x ix w where f: "isActive (ep_index E) a (auth_index s, ep_world s) = (x, (ix, w))" by (metis surj_pair)
  then have e: "authority_active E a s = (Inr x, put_world w (s\<lparr>auth_index := ix\<rparr>))"
    by (simp add: authority_active_def on_auth_index_def)
  from that [OF e] calm_run [OF calm_active e] show thesis by simp
qed

lemma cleanupOwner_run:
  "ep_view_of (snd (cleanupOwner E u s)) = v_clean u (ep_view_of s)"
  "accepting (snd (cleanupOwner E u s)) = accepting s"
  "fst (cleanupOwner E u s) = Inr ()"
proof -
  have "ep_view_of (snd (cleanupOwner E u s)) = v_clean u (ep_view_of s) \<and>
      accepting (snd (cleanupOwner E u s)) = accepting s \<and> fst (cleanupOwner E u s) = Inr ()"
  proof (cases "\<exists>c h. jm_get (connections s) u = Some c \<and> conn_owner c = Some h \<and> conn_cleanup c = NotCleaned")
    case True
    then obtain c h where c: "jm_get (connections s) u = Some c" "conn_owner c = Some h" "conn_cleanup c = NotCleaned" by blast
    define s2 where "s2 = (conn_update u (\<lambda>c. c\<lparr>conn_cleanup := ClosedOwner\<rparr>) s)\<lparr>ws_calls := ws_calls s @
      [CloseOwner u h (end_code c) (end_reason c)]\<rparr>"
    obtain r t where r: "on_session_manager (close_owner (m_owners (ep_manager E)) h (end_code c) (end_reason c)) s2 = (r, t)"
      by (metis surj_pair)
    have run: "cleanupOwner E u s = (Inr (), t)"
      using c r by (simp add: cleanupOwner_def with_connection_def em_simps s2_def end_code_def end_reason_def Let_def)
    have "ep_view_of t = ep_view_of s2 \<and> accepting t = accepting s2"
      using calm_run [OF calm_manager r] by simp
    moreover have "ep_view_of s2 = v_clean u (ep_view_of s)"
      using c by (simp add: s2_def v_clean_def v_call_def v_put_def)
    ultimately show ?thesis using run by (simp add: s2_def)
  next
    case False
    then show ?thesis
      by (auto simp: cleanupOwner_def with_connection_def em_simps v_clean_def split: option.splits)
  qed
  then show "ep_view_of (snd (cleanupOwner E u s)) = v_clean u (ep_view_of s)"
    "accepting (snd (cleanupOwner E u s)) = accepting s" "fst (cleanupOwner E u s) = Inr ()" by simp_all
qed


text \<open>Every handler of a connection takes the view to one of these.\<close>

inductive v_move :: "nat \<Rightarrow> ep_view \<Rightarrow> ep_view \<Rightarrow> bool" where
  v_stay: "v_move u v v"
| v_end: "v_move u v (v_clean u (v_put u (\<lambda>c. c\<lparr>listenersDisposed := True, ended := True, authenticationEnded := b\<rparr>) v))"
| v_removed: "\<lbrakk>jm_get (v_conns v) u = Some c; conn_owner c \<noteq> None; conn_cleanup c = ClosedOwner\<rbrakk> \<Longrightarrow>
     v_move u v (v_put u (\<lambda>c. c\<lparr>conn_cleanup := RemovedOwner\<rparr>) v)"
| v_settled: "\<lbrakk>jm_get (v_conns v) u = Some c; conn_stage c = Starting; g = ConnectFailed \<or> (\<exists>h. g = Connected h)\<rbrakk> \<Longrightarrow>
     v_move u v (v_put u (\<lambda>c. c\<lparr>conn_stage := g\<rparr>) v)"
| v_failed: "\<lbrakk>jm_get (v_conns v) u = Some c; conn_stage c = ConnectFailed; es = [] \<or> es = [SendText u (error_text i)]\<rbrakk> \<Longrightarrow>
     v_move u v (fold v_call es (v_put u (\<lambda>c. c\<lparr>conn_stage := Finished\<rparr>) v))"
| v_late: "\<lbrakk>jm_get (v_conns v) u = Some c; conn_stage c = Connected h\<rbrakk> \<Longrightarrow>
     v_move u v (v_clean u (v_put u (\<lambda>c. c\<lparr>conn_stage := Finished, conn_owner := Some h\<rparr>) v))"
| v_unauthenticated: "\<lbrakk>jm_get (v_conns v) u = Some c; conn_stage c = Connected h\<rbrakk> \<Longrightarrow>
     v_move u v (v_clean u (v_put u (\<lambda>c. c\<lparr>conn_stage := Finished, conn_owner := Some h,
       authenticationEnded := True, ended := True\<rparr>) v))"
| v_ready: "\<lbrakk>jm_get (v_conns v) u = Some c; conn_stage c = Connected h; \<not> ended c; es = [] \<or> es = [SendText u (error_text i)];
      ds = [] \<or> ds = [SendText u (ready_text j)]\<rbrakk> \<Longrightarrow>
     v_move u v (fold v_call (ds @ es) (v_put u (\<lambda>c. c\<lparr>conn_stage := Finished, conn_owner := Some h\<rparr>) v))"

lemma with_connection_run:
  "with_connection u f s = (case jm_get (connections s) u of None \<Rightarrow> (Inr (), s) | Some c \<Rightarrow> f c s)"
  by (simp add: with_connection_def em_simps split: option.split)

lemma jm_set_set: "jm_set (jm_set m k a) k b = jm_set m k b"
  by (induction m) auto

lemma v_put_put: "v_put u f (v_put u g v) = v_put u (\<lambda>c. f (g c)) v"
  by (cases "jm_get (v_conns v) u") (simp_all add: v_put_def jm_set_set)

lemma end_connection_run:
  obtains b where "ep_view_of (snd (end_connection E u s)) =
      v_clean u (v_put u (\<lambda>c. c\<lparr>listenersDisposed := True, ended := True, authenticationEnded := b\<rparr>) (ep_view_of s))"
    "accepting (snd (end_connection E u s)) = accepting s"
proof (cases "jm_get (connections s) u")
  case None
  then show thesis by (intro that [of True]) (simp_all add: end_connection_def with_connection_run v_clean_def v_put_def)
next
  case (Some c)
  let ?f = "\<lambda>c. c\<lparr>listenersDisposed := True, ended := True\<rparr>"
  define s1 where "s1 = conn_update u ?f s"
  obtain b t where b: "authority_active E (conn_authority c) s1 = (Inr b, t)" "ep_view_of t = ep_view_of s1" "accepting t = accepting s1"
    by (rule active_run)
  let ?g = "\<lambda>c. c\<lparr>authenticationEnded := \<not> b\<rparr>"
  define s2 where "s2 = (conn_update u ?g t)\<lparr>auth_index := unregister u (auth_index (conn_update u ?g t))\<rparr>"
  have "end_connection E u s = cleanupOwner E u s2"
    using Some b by (simp add: end_connection_def with_connection_run em_simps s1_def [symmetric] s2_def)
  moreover have "ep_view_of s2 = v_put u (\<lambda>c. c\<lparr>listenersDisposed := True, ended := True, authenticationEnded := \<not> b\<rparr>) (ep_view_of s)"
    using b by (simp add: s2_def s1_def v_put_put)
  moreover have "accepting s2 = accepting s" using b by (simp add: s2_def s1_def)
  ultimately show thesis by (intro that [of "\<not> b"]) (simp_all add: cleanupOwner_run)
qed

lemma send_message_run:
  assumes "send_message E u d s = (r, t)"
  obtains es where "ep_view_of t = fold v_call es (ep_view_of s)" "es = [] \<or> es = [SendText u d]" "accepting t = accepting s"
    "r = Inl () \<or> r = Inr ()"
proof (cases "sock_open (ep_index E) (ep_world s) u")
  case False
  with assms show thesis by (intro that [of "[]"]) (auto simp: send_message_def socket_is_open_def em_simps)
next
  case True
  obtain ok w where w: "perform E (SendText u d) (ep_world s) = (ok, w)" by (metis surj_pair)
  have t: "t = put_world w (s\<lparr>ws_calls := ws_calls s @ [SendText u d]\<rparr>)"
    using assms True w by (auto simp: send_message_def socket_is_open_def em_simps ws_do_def split: if_splits)
  have "ep_view_of t = v_call (SendText u d) (ep_view_of s)" by (simp add: t v_call_def)
  moreover have "r = Inl () \<or> r = Inr ()" by (cases r) auto
  ultimately show thesis by (intro that [of "[SendText u d]"]) (auto simp: t put_world_def)
qed


lemma fold_v_call: "fold v_call es v = v\<lparr>v_calls := v_calls v @ es\<rparr>"
  by (induction es arbitrary: v) (simp_all add: v_call_def)

lemma close_unauthenticated_run: "\<exists>t. close_unauthenticated E u s = (Inr (), t)"
  by (auto simp: close_unauthenticated_def on_auth_index_def em_simps split: prod.splits)

lemma ws_do_run: "\<exists>ok t. ws_do E c s = (Inr ok, t)"
  by (simp add: ws_do_def split: prod.split)

lemma connection_failed_run:
  obtains es i where "ep_view_of (snd (connection_failed E u s)) = fold v_call es (ep_view_of s)"
    "es = [] \<or> es = [SendText u (error_text i)]" "accepting (snd (connection_failed E u s)) = accepting s"
proof (cases "jm_get (connections s) u")
  case None
  then show thesis by (intro that [of "[]"]) (simp_all add: connection_failed_def with_connection_run)
next
  case (Some c)
  have "calm.keeps (if ended c then ret False else authority_active E (conn_authority c))" by (auto intro: calm_rules)
  moreover obtain b t where b: "(if ended c then ret False else authority_active E (conn_authority c)) s = (Inr b, t)"
    by (cases "ended c") (auto simp: ret_def intro: active_run [of E "conn_authority c" s])
  ultimately have t: "ep_view_of t = ep_view_of s" "accepting t = accepting s" using calm_run by blast+
  show thesis
  proof (cases b)
    case False
    with Some b have "connection_failed E u s = close_unauthenticated E u t"
      by (simp add: connection_failed_def with_connection_run em_simps)
    moreover obtain t2 where t2: "close_unauthenticated E u t = (Inr (), t2)"
      using close_unauthenticated_run by blast
    ultimately show thesis using t calm_run [OF calm_handlers(1) t2] by (intro that [of "[]"]) simp_all
  next
    case True
    obtain r2 t2 where 2: "ws_do E (ReportFailure (conn_session c)) t = (Inr r2, t2)"
      using ws_do_run by blast
    obtain r3 t3 where 3: "send_message E u (error_text (conn_session c)) t2 = (r3, t3)" by (metis surj_pair)
    obtain es where es: "ep_view_of t3 = fold v_call es (ep_view_of t2)" "es = [] \<or> es = [SendText u (error_text (conn_session c))]"
      "accepting t3 = accepting t2" "r3 = Inl () \<or> r3 = Inr ()" by (rule send_message_run [OF 3])
    define rest where "rest = bind (socket_is_open E u) (\<lambda>still.
       if still then bind (ws_do E (CloseWith u 1011 ''terminal_unavailable'')) (\<lambda>_. ret ()) else ret ())"
    have rest: "calm.keeps rest" by (auto simp: rest_def intro!: calm_rules)
    have run: "connection_failed E u s = (case r3 of Inl e \<Rightarrow> (Inl e, t3) | Inr _ \<Rightarrow> rest t3)"
      using Some b True 2 3 by (simp add: connection_failed_def with_connection_run em_simps rest_def split: sum.split)
    have "ep_view_of t2 = ep_view_of t \<and> accepting t2 = accepting t" using calm_run [OF calm_call 2] by simp
    with run es t calm.keepsD [OF rest, of t3] show thesis
      by (intro that [of es "conn_session c"]) (auto split: sum.split)
  qed
qed

lemma connected_run:
  assumes "jm_get (connections s) u = Some c" and "conn_owner c = None"
  obtains (late) "ep_view_of (snd (on_connected E u h s)) = v_clean u (v_put u (\<lambda>c. c\<lparr>conn_owner := Some h\<rparr>) (ep_view_of s))"
      "fst (on_connected E u h s) = Inr ()" "accepting (snd (on_connected E u h s)) = accepting s"
  | (gone) "ep_view_of (snd (on_connected E u h s)) =
        v_clean u (v_put u (\<lambda>c. c\<lparr>conn_owner := Some h, authenticationEnded := True, ended := True\<rparr>) (ep_view_of s))"
      "fst (on_connected E u h s) = Inr ()" "accepting (snd (on_connected E u h s)) = accepting s"
  | (ready) ds where "\<not> ended c" "ds = [] \<or> ds = [SendText u (ready_text (conn_session c))]"
      "ep_view_of (snd (on_connected E u h s)) = fold v_call ds (v_put u (\<lambda>c. c\<lparr>conn_owner := Some h\<rparr>) (ep_view_of s))"
      "accepting (snd (on_connected E u h s)) = accepting s"
proof -
  let ?f = "\<lambda>c. c\<lparr>conn_owner := Some h\<rparr>" and ?g = "\<lambda>c. c\<lparr>authenticationEnded := True, ended := True\<rparr>"
  define s1 where "s1 = conn_update u ?f s"
  have s1: "jm_get (connections s1) u = Some (?f c)" using assms by (simp add: s1_def conn_update_def)
  obtain b t where b: "authority_active E (conn_authority c) s1 = (Inr b, t)" "ep_view_of t = ep_view_of s1" "accepting t = accepting s1"
    by (rule active_run)
  show thesis
  proof (cases b)
    case False
    obtain t2 where t2: "close_unauthenticated E u (conn_update u ?g t) = (Inr (), t2)"
      using close_unauthenticated_run by blast
    have "on_connected E u h s = cleanupOwner E u t2"
      using False b s1 t2 by (simp add: on_connected_def em_simps s1_def [symmetric] with_connection_run socket_is_open_def)
    with b calm_run [OF calm_handlers(1) t2] show thesis
      by (intro gone) (simp_all add: cleanupOwner_run s1_def v_put_put)
  next
    case True
    show thesis
    proof (cases "ended c \<or> \<not> sock_open (ep_index E) (ep_world t) u")
      case over: True
      have "on_connected E u h s = cleanupOwner E u t"
        using True over b s1 by (auto simp: on_connected_def em_simps s1_def [symmetric] with_connection_run socket_is_open_def)
      with b show thesis by (intro late) (simp_all add: cleanupOwner_run s1_def)
    next
      case False
      then have run: "on_connected E u h s = send_message E u (ready_text (conn_session c)) t"
        using True b s1 by (auto simp: on_connected_def em_simps s1_def [symmetric] with_connection_run socket_is_open_def)
      obtain r v where v: "send_message E u (ready_text (conn_session c)) t = (r, v)" by (metis surj_pair)
      obtain ds where "ep_view_of v = fold v_call ds (ep_view_of t)" "ds = [] \<or> ds = [SendText u (ready_text (conn_session c))]"
        "accepting v = accepting t" by (rule send_message_run [OF v])
      with run v b False show thesis by (intro ready [of ds]) (simp_all add: s1_def)
    qed
  qed
qed


lemma v_put_get: "jm_get (v_conns (v_put u f v)) w = (if w = u then map_option f (jm_get (v_conns v) u) else jm_get (v_conns v) w)"
  by (auto simp: v_put_def split: option.split)

lemma connect_handled_run:
  assumes "\<And>c. jm_get (connections s) u = Some c \<Longrightarrow> conn_stage c \<noteq> Finished \<Longrightarrow> conn_owner c = None"
  shows "v_move u (ep_view_of s) (ep_view_of (snd (connect_handled E u s))) \<and> accepting (snd (connect_handled E u s)) = accepting s"
proof (cases "\<exists>c. jm_get (connections s) u = Some c \<and> (conn_stage c = ConnectFailed \<or> (\<exists>h. conn_stage c = Connected h))")
  case False
  then have "connect_handled E u s = (Inr (), s)"
    by (auto simp: connect_handled_def with_connection_run em_simps split: option.split conn_stage.split)
  then show ?thesis by (simp add: v_stay)
next
  case True
  then obtain c where c: "jm_get (connections s) u = Some c" "conn_stage c = ConnectFailed \<or> (\<exists>h. conn_stage c = Connected h)" by blast
  let ?f = "\<lambda>c. c\<lparr>conn_stage := Finished\<rparr>"
  define s1 where "s1 = conn_update u ?f s"
  have s1: "jm_get (connections s1) u = Some (?f c)" using c by (simp add: s1_def conn_update_def)
  have v: "jm_get (v_conns (ep_view_of s)) u = Some c" using c by simp
  from c(2) show ?thesis
  proof
    assume st: "conn_stage c = ConnectFailed"
    have e: "snd (connect_handled E u s) = snd (connection_failed E u s1)"
      using c st by (simp add: connect_handled_def with_connection_run em_simps s1_def split: prod.split sum.split)
    obtain es i where "ep_view_of (snd (connection_failed E u s1)) = fold v_call es (ep_view_of s1)"
      "es = [] \<or> es = [SendText u (error_text i)]" "accepting (snd (connection_failed E u s1)) = accepting s1"
      by (rule connection_failed_run)
    with v_failed [OF v st this(2)] e show ?thesis by (simp add: s1_def)
  next
    assume "\<exists>h. conn_stage c = Connected h"
    then obtain h where st: "conn_stage c = Connected h" by blast
    have no: "conn_owner (?f c) = None" using assms [OF c(1)] st by simp
    have e: "snd (connect_handled E u s) = snd (catch (on_connected E u h) (\<lambda>_. connection_failed E u) s1)"
      using c st by (simp add: connect_handled_def with_connection_run em_simps s1_def split: prod.split sum.split)
    show ?thesis
    proof (rule connected_run [OF s1 no, of E h])
      assume r: "ep_view_of (snd (on_connected E u h s1)) = v_clean u (v_put u (\<lambda>c. c\<lparr>conn_owner := Some h\<rparr>) (ep_view_of s1))"
        "fst (on_connected E u h s1) = Inr ()" "accepting (snd (on_connected E u h s1)) = accepting s1"
      then have "snd (connect_handled E u s) = snd (on_connected E u h s1)"
        by (cases "on_connected E u h s1") (simp add: e catch_apply)
      with v_late [OF v st] r show ?thesis by (simp add: s1_def v_put_put)
    next
      assume r: "ep_view_of (snd (on_connected E u h s1)) =
          v_clean u (v_put u (\<lambda>c. c\<lparr>conn_owner := Some h, authenticationEnded := True, ended := True\<rparr>) (ep_view_of s1))"
        "fst (on_connected E u h s1) = Inr ()" "accepting (snd (on_connected E u h s1)) = accepting s1"
      then have "snd (connect_handled E u s) = snd (on_connected E u h s1)"
        by (cases "on_connected E u h s1") (simp add: e catch_apply)
      with v_unauthenticated [OF v st] r show ?thesis by (simp add: s1_def v_put_put)
    next
      fix ds
      assume r: "\<not> ended (?f c)" "ds = [] \<or> ds = [SendText u (ready_text (conn_session (?f c)))]"
        "ep_view_of (snd (on_connected E u h s1)) = fold v_call ds (v_put u (\<lambda>c. c\<lparr>conn_owner := Some h\<rparr>) (ep_view_of s1))"
        "accepting (snd (on_connected E u h s1)) = accepting s1"
      obtain q t where q: "on_connected E u h s1 = (q, t)" by (metis surj_pair)
      obtain es i where f: "ep_view_of (snd (connection_failed E u t)) = fold v_call es (ep_view_of t)"
        "es = [] \<or> es = [SendText u (error_text i)]" "accepting (snd (connection_failed E u t)) = accepting t"
        by (rule connection_failed_run)
      define qs where "qs = (case q of Inl _ \<Rightarrow> es | Inr _ \<Rightarrow> [])"
      have "snd (connect_handled E u s) = (case q of Inl _ \<Rightarrow> snd (connection_failed E u t) | Inr _ \<Rightarrow> t)"
        using q by (simp add: e catch_apply split: sum.split)
      then have "ep_view_of (snd (connect_handled E u s)) = fold v_call (ds @ qs) (v_put u (\<lambda>c. c\<lparr>conn_stage := Finished, conn_owner := Some h\<rparr>) (ep_view_of s))"
        "accepting (snd (connect_handled E u s)) = accepting s"
        using q r f by (auto simp: qs_def s1_def v_put_put split: sum.split)
      moreover have "qs = [] \<or> qs = [SendText u (error_text i)]" using f(2) by (auto simp: qs_def split: sum.split)
      ultimately show ?thesis using v_ready [OF v st _ _ r(2), of qs i] r(1) by simp
    qed
  qed
qed


lemma on_socket_close_run:
  "v_move u (ep_view_of s) (ep_view_of (snd (on_socket_close E u s))) \<and> accepting (snd (on_socket_close E u s)) = accepting s"
proof (cases "\<exists>c. jm_get (connections s) u = Some c \<and> \<not> listenersDisposed c")
  case True
  then have e: "on_socket_close E u s = end_connection E u s"
    by (auto simp: on_socket_close_def with_connection_run)
  show ?thesis unfolding e by (rule end_connection_run [of E u s]) (simp add: v_end)
next
  case False
  then have "on_socket_close E u s = (Inr (), s)"
    by (auto simp: on_socket_close_def with_connection_run ret_def split: option.split)
  then show ?thesis by (simp add: v_stay)
qed

lemma on_socket_error_run:
  "v_move u (ep_view_of s) (ep_view_of (snd (on_socket_error E u s))) \<and> accepting (snd (on_socket_error E u s)) = accepting s"
proof (cases "\<exists>c. jm_get (connections s) u = Some c \<and> \<not> listenersDisposed c")
  case True
  define rest :: "('a, 'b, unit) endpoint_op" where "rest = bind (socket_is_open E u) (\<lambda>still.
     if still then bind (ws_do E (CloseWith u 1011 ''socket_error'')) (\<lambda>_. ret ()) else ret ())"
  have rest: "calm.keeps rest" by (auto simp: rest_def intro!: calm_rules)
  obtain r t where rt: "end_connection E u s = (r, t)" by (metis surj_pair)
  have "on_socket_error E u s = (case r of Inl e \<Rightarrow> (Inl e, t) | Inr _ \<Rightarrow> rest t)"
    using True rt by (auto simp: on_socket_error_def with_connection_run rest_def bind_apply [of "end_connection E u"] split: sum.split)
  then have "ep_view_of (snd (on_socket_error E u s)) = ep_view_of t \<and> accepting (snd (on_socket_error E u s)) = accepting t"
    using calm.keepsD [OF rest, of t] by (simp split: sum.split)
  then show ?thesis using rt end_connection_run [of E u s] v_end by (metis snd_conv)
next
  case False
  then have "on_socket_error E u s = (Inr (), s)"
    by (auto simp: on_socket_error_def with_connection_run ret_def split: option.split)
  then show ?thesis by (simp add: v_stay)
qed

lemma finish_cleanup_run:
  "v_move u (ep_view_of s) (ep_view_of (snd (finish_cleanup E u s))) \<and> accepting (snd (finish_cleanup E u s)) = accepting s"
proof (cases "\<exists>c h. jm_get (connections s) u = Some c \<and> conn_owner c = Some h \<and> conn_cleanup c = ClosedOwner")
  case True
  then obtain c h where c: "jm_get (connections s) u = Some c" "conn_owner c = Some h" "conn_cleanup c = ClosedOwner" by blast
  let ?f = "\<lambda>c. c\<lparr>conn_cleanup := RemovedOwner\<rparr>"
  obtain r t where rt: "on_session_manager (registry_remove (conn_session c) h) (conn_update u ?f s) = (r, t)" by (metis surj_pair)
  then have "finish_cleanup E u s = (Inr (), t)"
    using c by (simp add: finish_cleanup_def with_connection_run em_simps)
  then show ?thesis using calm_run [OF calm_manager rt] v_removed [of "ep_view_of s" u c] c by simp
next
  case False
  then have "finish_cleanup E u s = (Inr (), s)"
    by (auto simp: finish_cleanup_def with_connection_run ret_def split: option.split cleanup_stage.split)
  then show ?thesis by (simp add: v_stay)
qed

lemma connect_settles_run:
  "v_move u (ep_view_of s) (ep_view_of (snd (connect_settles E u s))) \<and> accepting (snd (connect_settles E u s)) = accepting s"
proof (cases "\<exists>c. jm_get (connections s) u = Some c \<and> conn_stage c = Starting")
  case True
  then obtain c where c: "jm_get (connections s) u = Some c" "conn_stage c = Starting" by blast
  obtain r t where rt: "on_session_manager (connect (ep_manager E) (conn_token c) u initial_dimensions) s = (r, t)" by (metis surj_pair)
  define g where "g = (case r of Inl _ \<Rightarrow> ConnectFailed | Inr h \<Rightarrow> Connected h)"
  have "connect_settles E u s = (Inr (), conn_update u (\<lambda>c. c\<lparr>conn_stage := g\<rparr>) t)"
    using c rt by (simp add: connect_settles_def with_connection_run em_simps g_def)
  moreover have "g = ConnectFailed \<or> (\<exists>h. g = Connected h)" by (simp add: g_def split: sum.split)
  ultimately show ?thesis using calm_run [OF calm_manager rt] v_settled [of "ep_view_of s" u c g] c by simp
next
  case False
  then have "connect_settles E u s = (Inr (), s)"
    by (auto simp: connect_settles_def with_connection_run ret_def split: option.split)
  then show ?thesis by (simp add: v_stay)
qed


section \<open>Upgrades on the view\<close>

lemma register_enrols:
  assumes "registerIfActive E a t s st = (True, st')"
  shows "jm_get (bySocket (fst st')) s = Some \<lparr>authority = a, terminalTabId = t\<rparr>"
    "\<exists>v. auth_active E v a = (IsActive, snd st')"
proof -
  have check: "\<exists>v. auth_active E v a = (IsActive, w)" if "checkActive E a x = (True, (y, w))" for x y w
    using that by (auto simp: checkActive_def split: prod.splits auth_answer.splits)
  show "jm_get (bySocket (fst st')) s = Some \<lparr>authority = a, terminalTabId = t\<rparr>" "\<exists>v. auth_active E v a = (IsActive, snd st')"
    using assms
    by (auto simp: registerIfActive_def completeRegistration_def insertRegistration_bySocket
        split: if_splits prod.splits bool.splits option.splits dest: check)
qed

lemma authorize_issues:
  assumes "authorize E i s = (Inr (Some k), t)"
  shows "k \<in> set (issuedTokens t)"
proof -
  have "bind (issueToken i) (\<lambda>k. ret (Some k)) s = (Inr (Some k), t)"
    using assms by (auto simp: authorize_def split: if_splits sum.splits bool.splits option.splits)
  then have "issueToken i s = (Inr k, t)" by (auto simp: run_simps)
  then show ?thesis by (auto simp: issueToken_def run_simps Let_def)
qed

text \<open>What an accepted upgrade leaves behind.\<close>

definition enrolled :: "nat \<Rightarrow> connection \<Rightarrow> ('w, 't) endpoint \<Rightarrow> bool" where
  "enrolled u c s \<longleftrightarrow>
     jm_get (bySocket (auth_index s)) u = Some \<lparr>authority = conn_authority c, terminalTabId = conn_session c\<rparr> \<and>
     tok_session (conn_token c) = conn_session c \<and> conn_token c \<in> set (issuedTokens (manager s))"

text \<open>
  The authentication service vouched for the authority when the answer came in, and once more as the
  last thing before the state that was reached.
\<close>

definition confirmed :: "('w, 't) endpoint_env \<Rightarrow> ApplicationSessionAuthority \<Rightarrow> ('w, 't) endpoint \<Rightarrow> ('w, 't) endpoint \<Rightarrow> bool" where
  "confirmed E a s t \<longleftrightarrow> \<not> disposed (auth_index s) \<and> (\<exists>w. auth_active (ep_index E) (ep_world s) a = (IsActive, w)) \<and>
     (\<exists>v. auth_active (ep_index E) v a = (IsActive, ep_world t))"

lemma confirmed_pending [simp]: "confirmed E a (s\<lparr>pending_upgrades := p\<rparr>) t = confirmed E a s t"
  by (simp add: confirmed_def ep_world_def)

lemma active_vouched:
  "authority_active E a s = (Inr True, t) \<Longrightarrow> \<not> disposed (auth_index s) \<and> (\<exists>w. auth_active (ep_index E) (ep_world s) a = (IsActive, w))"
  by (auto simp: authority_active_def on_auth_index_def isActive_def checkActive_def split: if_splits prod.splits auth_answer.splits)

definition same_tokens :: "('w, 't) endpoint \<Rightarrow> ('w, 't) endpoint \<Rightarrow> bool" where
  "same_tokens s t \<longleftrightarrow> ep_view_of t = ep_view_of s \<and> accepting t = accepting s \<and>
     issuedTokens (manager t) = issuedTokens (manager s)"

lemma on_auth_index_run: "\<exists>x t. on_auth_index f s = (Inr x, t) \<and> same_tokens s t"
  by (auto simp: on_auth_index_def same_tokens_def put_world_def ep_view_of_def split: prod.split)

lemma active_tokens: obtains b t where "authority_active E a s = (Inr b, t)" "same_tokens s t"
  unfolding authority_active_def using on_auth_index_run [of "isActive (ep_index E) a" s] by blast

lemma upgraded_run:
  assumes "k \<in> set (issuedTokens (manager s))" and "tok_session k = i"
  obtains (refused) "same_tokens s (snd (upgraded E u i k a s))" "fst (upgraded E u i k a s) = Inr ()"
  | (accepted) "fst (upgraded E u i k a s) = Inr ()" "enrolled u (new_connection i k a) (snd (upgraded E u i k a s))"
      "ep_view_of (snd (upgraded E u i k a s)) = (ep_view_of s)\<lparr>v_conns := jm_set (connections s) u (new_connection i k a)\<rparr>"
      "accepting (snd (upgraded E u i k a s)) = accepting s"
      "\<exists>v. auth_active (ep_index E) v a = (IsActive, ep_world (snd (upgraded E u i k a s)))"
proof -
  obtain b t where b: "authority_active E a s = (Inr b, t)" "same_tokens s t"
    by (rule active_tokens)
  obtain r ix w where r: "registerIfActive (ep_index E) a i u (auth_index t, ep_world t) = (r, (ix, w))" by (metis surj_pair)
  show thesis
  proof (cases "b \<and> r")
    case True
    then have "upgraded E u i k a s = (Inr (), (put_world w (t\<lparr>auth_index := ix\<rparr>))\<lparr>
        connections := jm_set (connections t) u (new_connection i k a), alive := jm_set (alive t) u True\<rparr>)"
      using b r by (simp add: upgraded_def em_simps on_auth_index_def put_world_def)
    moreover have "connections t = connections s" using b(2) by (simp add: same_tokens_def ep_view_of_def)
    ultimately show thesis using b(2) assms register_enrols [of "ep_index E" a i u "(auth_index t, ep_world t)" "(ix, w)"] r True
      by (intro accepted) (auto simp: enrolled_def new_connection_def same_tokens_def put_world_def ep_view_of_def ep_world_def)
  next
    case False
    then show thesis using b r
      by (intro refused)
        (auto simp: upgraded_def em_simps on_auth_index_def same_tokens_def put_world_def ep_view_of_def split: prod.split)
  qed
qed

lemma reject_run: "\<exists>t. rejectUpgrade E u n s = (Inr (), t) \<and> same_tokens s t"
  by (auto simp: rejectUpgrade_def em_simps ws_do_def same_tokens_def put_world_def ep_view_of_def split: prod.split)

text \<open>The outcome of an authentication: the upgrade is gone from the pending ones, with or without a connection.\<close>

definition upgrade_outcome ::
  "('w, 't) endpoint_env \<Rightarrow> nat \<Rightarrow> string \<Rightarrow> ApplicationSessionAuthority option \<Rightarrow> ('w, 't) endpoint \<Rightarrow> ('w, 't) endpoint \<Rightarrow> bool"
where
  "upgrade_outcome E u i a s t \<longleftrightarrow> accepting t = accepting s \<and>
     (ep_view_of t = ep_view_of s \<or>
      (\<exists>b k. a = Some b \<and> accepting s \<and> confirmed E b s t \<and> enrolled u (new_connection i k b) t \<and>
         ep_view_of t = (ep_view_of s)\<lparr>v_conns := jm_set (connections s) u (new_connection i k b)\<rparr>))"

lemma outcome_stay: "\<lbrakk>same_tokens s' t; ep_view_of s' = ep_view_of s; accepting s' = accepting s\<rbrakk> \<Longrightarrow> upgrade_outcome E u i a s t"
  by (simp add: upgrade_outcome_def same_tokens_def)

text \<open>From the token on.\<close>

lemma upgrade_shake:
  assumes a: "authority_active E a s = (Inr True, t)"
    and r: "on_session_manager (authorize (ep_manager E) i) t = (Inr (Some k), t2)"
    and tok: "tok_session k = i" "k \<in> set (issuedTokens (manager t2))"
    and t2: "ep_view_of t2 = ep_view_of s" "accepting t2 = accepting s"
  shows "upgrade_outcome E u i (Some a) s (snd (catch (upgrade_decide E u i a) (\<lambda>_. rejectUpgrade E u 401) s))"
proof -
  let ?m = "catch (upgrade_decide E u i a) (\<lambda>_. rejectUpgrade E u 401)"
  obtain b3 t3 where a3: "authority_active E a t2 = (Inr b3, t3)" "same_tokens t2 t3" by (rule active_tokens)
  obtain sh w where h: "handshake E u (ep_world t3) = (sh, w)" by (metis surj_pair)
  define t4 where "t4 = put_world w t3"
  have t4: "same_tokens t2 t4" using a3(2) by (simp add: t4_def same_tokens_def) (simp add: put_world_def)
  consider "\<not> accepting s" | "accepting s" "\<not> b3" | "accepting s" "b3" "\<not> sh" | "accepting s" "b3" "sh" by blast
  then show ?thesis
  proof cases
    case 1
    obtain v where v: "rejectUpgrade E u 503 t2 = (Inr (), v)" "same_tokens t2 v" using reject_run [of E u 503 t2] by blast
    then have "snd (?m s) = v" using 1 a r t2 by (simp add: upgrade_decide_def em_simps)
    with outcome_stay [OF v(2) t2] show ?thesis by simp
  next
    case 2
    obtain v where v: "rejectUpgrade E u 401 t3 = (Inr (), v)" "same_tokens t3 v" using reject_run [of E u 401 t3] by blast
    then have "snd (?m s) = v" using 2 a a3 r t2 by (simp add: upgrade_decide_def em_simps)
    with outcome_stay [OF v(2)] a3(2) t2 show ?thesis by (simp add: same_tokens_def)
  next
    case 3
    then have "snd (?m s) = t4" using a a3 r t2 h by (simp add: upgrade_decide_def em_simps t4_def)
    with outcome_stay [OF t4 t2] show ?thesis by simp
  next
    case 4
    then have e: "fst (upgraded E u i k a t4) = Inr () \<Longrightarrow> snd (?m s) = snd (upgraded E u i k a t4)"
      using a a3 r t2 h by (cases "upgraded E u i k a t4") (simp add: upgrade_decide_def em_simps t4_def)
    have "k \<in> set (issuedTokens (manager t4))" using tok t4 by (simp add: same_tokens_def)
    then show ?thesis using tok(1)
    proof (cases rule: upgraded_run [of k t4 i E u a])
      case refused
      then show ?thesis using e outcome_stay [OF refused(1)] t4 t2 by (simp add: same_tokens_def)
    next
      case accepted
      moreover have "connections t4 = connections s" using t4 t2 by (simp add: same_tokens_def ep_view_of_def)
      moreover have "confirmed E a s (snd (upgraded E u i k a t4))"
        using active_vouched [OF a] accepted(5) by (simp add: confirmed_def)
      ultimately show ?thesis using e t4 t2 4 by (auto simp: upgrade_outcome_def same_tokens_def)
    qed
  qed
qed

lemma upgrade_decide_run:
  "upgrade_outcome E u i (Some a) s (snd (catch (upgrade_decide E u i a) (\<lambda>_. rejectUpgrade E u 401) s))"
proof -
  let ?m = "catch (upgrade_decide E u i a) (\<lambda>_. rejectUpgrade E u 401)"
  have rej: "upgrade_outcome E u i (Some a) s (snd (rejectUpgrade E u n s'))" if "ep_view_of s' = ep_view_of s" "accepting s' = accepting s" for n s'
    using reject_run [of E u n s'] outcome_stay that by fastforce
  obtain b t where b: "authority_active E a s = (Inr b, t)" "same_tokens s t"
    by (rule active_tokens)
  obtain r t2 where r: "on_session_manager (authorize (ep_manager E) i) t = (r, t2)" by (metis surj_pair)
  have t2: "ep_view_of t2 = ep_view_of s" "accepting t2 = accepting s"
    using calm_run [OF calm_manager r] b(2) by (simp_all add: same_tokens_def)
  show ?thesis
  proof (cases "\<exists>k. b \<and> r = Inr (Some k)")
    case False
    then have "\<exists>n s'. snd (?m s) = snd (rejectUpgrade E u n s') \<and> ep_view_of s' = ep_view_of s \<and> accepting s' = accepting s"
    proof (cases b)
      case False
      then have "snd (?m s) = snd (rejectUpgrade E u 401 t)"
        using b reject_run [of E u 401 t] by (auto simp: upgrade_decide_def em_simps)
      with b(2) show ?thesis by (auto simp: same_tokens_def)
    next
      case True
      with False have "snd (?m s) = snd (rejectUpgrade E u 404 t2) \<or> snd (?m s) = snd (rejectUpgrade E u 401 t2)"
        using b r reject_run [of E u 404 t2] reject_run [of E u 401 t2]
        by (cases r) (auto simp: upgrade_decide_def em_simps split: option.splits)
      with t2 show ?thesis by blast
    qed
    with rej show ?thesis by metis
  next
    case True
    then obtain k where k: "b" "r = Inr (Some k)" by blast
    have tok: "tok_session k = i" "k \<in> set (issuedTokens (manager t2))"
      using r k authorize_token(1) [of "ep_manager E" i "manager t" k] authorize_issues [of "ep_manager E" i "manager t" k]
      by (auto simp: on_session_manager_def split: prod.splits sum.splits)
    have "authority_active E a s = (Inr True, t)" using b(1) k(1) by simp
    then show ?thesis by (rule upgrade_shake [OF _ r [unfolded k(2)] tok t2])
  qed
qed


lemma upgrade_finish_run:
  assumes "jm_get (pending_upgrades s) u = Some i"
  shows "upgrade_outcome E u i (case reply of Inr a \<Rightarrow> a | Inl _ \<Rightarrow> None)
    (s\<lparr>pending_upgrades := jm_delete (pending_upgrades s) u\<rparr>) (snd (upgrade_finish E u reply s))"
proof -
  let ?s = "s\<lparr>pending_upgrades := jm_delete (pending_upgrades s) u\<rparr>"
  show ?thesis
  proof (cases "\<exists>a. reply = Inr (Some a)")
    case True
    then obtain a where a: "reply = Inr (Some a)" by blast
    then have "upgrade_finish E u reply s = catch (upgrade_decide E u i a) (\<lambda>_. rejectUpgrade E u 401) ?s"
      using assms by (simp add: upgrade_finish_def em_simps)
    with upgrade_decide_run [of E u i a ?s] a show ?thesis by simp
  next
    case False
    then have "upgrade_finish E u reply s = rejectUpgrade E u 401 ?s"
      using assms by (auto simp: upgrade_finish_def em_simps split: sum.split option.split)
    moreover obtain t where "rejectUpgrade E u 401 ?s = (Inr (), t)" "same_tokens ?s t"
      using reject_run [of E u 401 ?s] by blast
    ultimately show ?thesis using outcome_stay [of ?s t ?s] by simp
  qed
qed

lemma upgrade_begin_run:
  obtains (rejected) "ep_view_of (snd (upgrade_begin E u request s)) = ep_view_of s"
      "accepting (snd (upgrade_begin E u request s)) = accepting s"
  | (awaiting) i where "accepting s" "authorizeUpgrade (url_parser E) request (upgrade_options E) = Allowed i"
      "snd (upgrade_begin E u request s) = s\<lparr>pending_upgrades := jm_set (pending_upgrades s) u i\<rparr>"
proof (cases "accepting s \<and> has_authenticator E \<and> (\<exists>i. authorizeUpgrade (url_parser E) request (upgrade_options E) = Allowed i)")
  case True
  then obtain i where "accepting s" "has_authenticator E" "authorizeUpgrade (url_parser E) request (upgrade_options E) = Allowed i"
    by blast
  then show thesis by (intro awaiting) (simp_all add: upgrade_begin_def em_simps)
next
  case False
  then have "\<exists>n. upgrade_begin E u request s = rejectUpgrade E u n s"
    by (cases "authorizeUpgrade (url_parser E) request (upgrade_options E)") (auto simp: upgrade_begin_def gets_def bind_apply)
  then obtain n where "upgrade_begin E u request s = rejectUpgrade E u n s" by blast
  with reject_run [of E u n s] show thesis by (intro rejected) (auto simp: same_tokens_def)
qed

section \<open>Invariant\<close>

definition owner_closes :: "nat \<Rightarrow> ws_call list \<Rightarrow> nat list" where
  "owner_closes u L = concat (map (\<lambda>x. case x of CloseOwner v h _ _ \<Rightarrow> if v = u then [h] else [] | _ \<Rightarrow> []) L)"

fun sends_ready :: "nat \<Rightarrow> ws_call \<Rightarrow> bool" where
  "sends_ready u (SendText v d) = (v = u \<and> (\<exists>i. d = ready_text i))"
| "sends_ready u _ = False"

definition ready_count :: "nat \<Rightarrow> ws_call list \<Rightarrow> nat" where
  "ready_count u L = length (filter (sends_ready u) L)"

lemma owner_closes_simps [simp]:
  "owner_closes u [] = []" "owner_closes u (L @ M) = owner_closes u L @ owner_closes u M"
  "owner_closes u [CloseOwner v h x y] = (if v = u then [h] else [])" "owner_closes u [SendText v d] = []"
  "owner_closes u (filter tracked L) = owner_closes u L"
  by (auto simp: owner_closes_def) (induction L, auto split: ws_call.split)

lemma text_of_eq: "text_of a = text_of b \<longleftrightarrow> a = b"
  by (simp add: text_of_def inj_map_eq_map inj_def)

lemma error_not_ready: "error_text i \<noteq> ready_text j"
proof
  assume e: "error_text i = ready_text j"
  have p: "printable (server_json (ServerReady j))" "printable (server_json (ServerError i (text_of ''terminal_unavailable'')))"
    by (simp_all add: message_json_def text_of_plain text_of_eq)
  from e p have "server_json (ServerReady j) = server_json (ServerError i (text_of ''terminal_unavailable''))"
    unfolding error_text_def ready_text_def by (metis json_roundtrip option.inject)
  then show False by (simp add: message_json_def)
qed

lemma ready_count_simps [simp]:
  "ready_count u [] = 0" "ready_count u (L @ M) = ready_count u L + ready_count u M"
  "ready_count u [CloseOwner v h x y] = 0" "ready_count u [SendText v (error_text i)] = 0"
  "ready_count u [SendText v (ready_text i)] = (if v = u then 1 else 0)"
  "ready_count u (filter tracked L) = ready_count u L"
proof -
  have "filter (sends_ready u) (filter tracked L) = filter (sends_ready u) L"
    unfolding filter_filter by (rule filter_cong [OF refl]) (case_tac x, auto)
  then show "ready_count u (filter tracked L) = ready_count u L" by (simp add: ready_count_def)
qed (auto simp: ready_count_def error_not_ready)

definition conn_ok :: "nat \<Rightarrow> ws_call list \<Rightarrow> connection \<Rightarrow> bool" where
  "conn_ok u L c \<longleftrightarrow>
     (conn_stage c \<noteq> Finished \<longrightarrow> conn_owner c = None) \<and>
     (ended c \<and> conn_owner c \<noteq> None \<longrightarrow> conn_cleanup c \<noteq> NotCleaned) \<and>
     (conn_owner c = None \<longrightarrow> conn_cleanup c = NotCleaned) \<and>
     owner_closes u L = (if conn_cleanup c = NotCleaned then [] else [the (conn_owner c)]) \<and>
     ready_count u L \<le> (if conn_owner c = None then 0 else 1)"

definition view_ok :: "ep_view \<Rightarrow> bool" where
  "view_ok v \<longleftrightarrow>
     (\<forall>u. case jm_get (v_conns v) u of
            None \<Rightarrow> owner_closes u (v_calls v) = [] \<and> ready_count u (v_calls v) = 0
          | Some c \<Rightarrow> conn_ok u (v_calls v) c \<and> jm_get (v_pending v) u = None)"

lemma view_ok_conn: "view_ok v \<Longrightarrow> jm_get (v_conns v) u = Some c \<Longrightarrow> conn_ok u (v_calls v) c"
  by (auto simp: view_ok_def dest: spec [of _ u])

text \<open>A change to one connection and to the calls on its behalf.\<close>

lemma view_ok_local:
  assumes "view_ok v" and "jm_get (v_conns v) u = Some c"
    and "v' = v\<lparr>v_conns := jm_set (v_conns v) u c', v_calls := v_calls v @ L\<rparr>"
    and "\<And>w. w \<noteq> u \<Longrightarrow> owner_closes w L = [] \<and> ready_count w L = 0"
    and "conn_ok u (v_calls v) c \<Longrightarrow> conn_ok u (v_calls v @ L) c'"
  shows "view_ok v'"
proof -
  have "case jm_get (v_conns v') w of
      None \<Rightarrow> owner_closes w (v_calls v') = [] \<and> ready_count w (v_calls v') = 0
    | Some d \<Rightarrow> conn_ok w (v_calls v') d \<and> jm_get (v_pending v') w = None" for w
  proof (cases "w = u")
    case True
    then show ?thesis using assms(1) [unfolded view_ok_def, THEN spec, of u] assms(2,3,5) by simp
  next
    case False
    have c: "conn_ok w (v_calls v @ L) d = conn_ok w (v_calls v) d" for d
      using assms(4) [OF False] by (simp add: conn_ok_def)
    show ?thesis
      using assms(1) [unfolded view_ok_def, THEN spec, of w] assms(4) [OF False] False
      by (simp add: assms(3) c split: option.splits)
  qed
  then show ?thesis by (simp add: view_ok_def)
qed

lemma v_clean_put:
  assumes "jm_get (v_conns v) u = Some c" and "c' = f c"
  shows "v_clean u (v_put u f v) =
    (case conn_owner c' of
       Some h \<Rightarrow> if conn_cleanup c' = NotCleaned
         then v\<lparr>v_conns := jm_set (v_conns v) u (c'\<lparr>conn_cleanup := ClosedOwner\<rparr>),
                v_calls := v_calls v @ [CloseOwner u h (end_code c') (end_reason c')]\<rparr>
         else v\<lparr>v_conns := jm_set (v_conns v) u c'\<rparr>
     | None \<Rightarrow> v\<lparr>v_conns := jm_set (v_conns v) u c'\<rparr>)"
  using assms by (simp add: v_clean_def v_put_def v_call_def jm_set_set split: option.split)

text \<open>An owner whose connection has ended, or is to be closed, is cleaned.\<close>

lemma view_ok_clean:
  assumes "view_ok v" and "jm_get (v_conns v) u = Some c" and "c' = f c"
    and "conn_cleanup c' = conn_cleanup c" and "conn_owner c = None \<or> conn_owner c' = conn_owner c"
    and "conn_stage c' \<noteq> Finished \<Longrightarrow> conn_owner c' = None"
  shows "view_ok (v_clean u (v_put u f v))"
proof -
  note k = view_ok_conn [OF assms(1,2)]
  show ?thesis
  proof (cases "\<exists>h. conn_owner c' = Some h \<and> conn_cleanup c' = NotCleaned")
    case True
    then obtain h where h: "conn_owner c' = Some h" "conn_cleanup c' = NotCleaned" by blast
    show ?thesis
      by (rule view_ok_local [OF assms(1,2), where c' = "c'\<lparr>conn_cleanup := ClosedOwner\<rparr>" and L = "[CloseOwner u h (end_code c') (end_reason c')]"])
        (use h k assms in \<open>auto simp: v_clean_put conn_ok_def split: if_splits\<close>)
  next
    case False
    show ?thesis
      by (rule view_ok_local [OF assms(1,2), where c' = c' and L = "[]"])
        (use False k assms in \<open>auto simp: v_clean_put conn_ok_def split: option.split\<close>)
  qed
qed

lemma view_ok_put:
  assumes "view_ok v" and "jm_get (v_conns v) u = Some c"
    and "\<And>w. w \<noteq> u \<Longrightarrow> owner_closes w L = [] \<and> ready_count w L = 0"
    and "conn_ok u (v_calls v) c \<Longrightarrow> conn_ok u (v_calls v @ L) (f c)"
  shows "view_ok (fold v_call L (v_put u f v))"
  by (rule view_ok_local [OF assms(1,2) _ assms(3,4)]) (simp_all add: fold_v_call v_put_def assms(2))

lemma v_move_ok:
  assumes "v_move u v v'" and ok: "view_ok v"
  shows "view_ok v'"
  using assms(1)
proof cases
  case v_stay
  with ok show ?thesis by simp
next
  case (v_end b)
  then show ?thesis
  proof (cases "jm_get (v_conns v) u")
    case None
    with v_end ok show ?thesis by (simp add: v_clean_def v_put_def)
  next
    case (Some c)
    with v_end view_ok_conn [OF ok Some] show ?thesis by (auto simp: conn_ok_def intro!: view_ok_clean [OF ok])
  qed
next
  case (v_removed c)
  show ?thesis unfolding v_removed(1)
    by (rule view_ok_put [OF ok v_removed(2), where L = "[]", simplified]) (use v_removed in \<open>auto simp: conn_ok_def\<close>)
next
  case (v_settled c g)
  show ?thesis unfolding v_settled(1)
    by (rule view_ok_put [OF ok v_settled(2), where L = "[]", simplified]) (use v_settled in \<open>auto simp: conn_ok_def\<close>)
next
  case (v_failed c es i)
  show ?thesis unfolding v_failed(1)
    by (rule view_ok_put [OF ok v_failed(2)]) (use v_failed in \<open>auto simp: conn_ok_def\<close>)
next
  case (v_late c h)
  show ?thesis unfolding v_late(1)
    by (rule view_ok_clean [OF ok v_late(2) refl]) (use v_late view_ok_conn [OF ok v_late(2)] in \<open>auto simp: conn_ok_def\<close>)
next
  case (v_unauthenticated c h)
  show ?thesis unfolding v_unauthenticated(1)
    by (rule view_ok_clean [OF ok v_unauthenticated(2) refl])
      (use v_unauthenticated view_ok_conn [OF ok v_unauthenticated(2)] in \<open>auto simp: conn_ok_def\<close>)
next
  case (v_ready c h es i ds j)
  show ?thesis unfolding v_ready(1)
    by (rule view_ok_put [OF ok v_ready(2)]) (use v_ready in \<open>auto simp: conn_ok_def\<close>)
qed

section \<open>Steps\<close>

text \<open>
  What an event may do to the view: move one connection, take in an upgrade, decide one, or nothing. No
  event reopens the endpoint.
\<close>

definition step_shape ::
  "('w, 't) endpoint_env \<Rightarrow> ('w, 't) endpoint_event \<Rightarrow> ('w, 't) endpoint \<Rightarrow> ('w, 't) endpoint \<Rightarrow> bool"
where
  "step_shape E e s t \<longleftrightarrow> (accepting t \<longrightarrow> accepting s) \<and>
     ((\<exists>u. v_move u (ep_view_of s) (ep_view_of t)) \<or>
      (\<exists>u request i. e = EUpgrade u request \<and> \<not> handle_in_use s u \<and> accepting s \<and>
         authorizeUpgrade (url_parser E) request (upgrade_options E) = Allowed i \<and>
         ep_view_of t = (ep_view_of s)\<lparr>v_pending := jm_set (pending_upgrades s) u i\<rparr>) \<or>
      (\<exists>u i. jm_get (pending_upgrades s) u = Some i \<and>
         ep_view_of t = (ep_view_of s)\<lparr>v_pending := jm_delete (pending_upgrades s) u\<rparr>) \<or>
      (\<exists>u i a k. e = EAuthenticated u (Inr (Some a)) \<and> jm_get (pending_upgrades s) u = Some i \<and> accepting s \<and>
         confirmed E a s t \<and> enrolled u (new_connection i k a) t \<and>
         ep_view_of t = (ep_view_of s)\<lparr>v_pending := jm_delete (pending_upgrades s) u,
           v_conns := jm_set (connections s) u (new_connection i k a)\<rparr>))"

lemma shape_still: "ep_view_of t = ep_view_of s \<Longrightarrow> (accepting t \<longrightarrow> accepting s) \<Longrightarrow> step_shape E e s t"
  unfolding step_shape_def using v_stay by metis

lemma shape_calm: "calm.keeps m \<Longrightarrow> step_shape E e s (snd (m s))"
  by (rule shape_still) (simp_all add: calm.keepsD)

lemma shape_move: "v_move u (ep_view_of s) (ep_view_of t) \<and> accepting t = accepting s \<Longrightarrow> step_shape E e s t"
  by (auto simp: step_shape_def)

lemma shape_authenticated: "step_shape E (EAuthenticated u reply) s (snd (upgrade_finish E u reply s))"
proof (cases "jm_get (pending_upgrades s) u")
  case None
  then show ?thesis by (intro shape_still) (simp_all add: upgrade_finish_def em_simps)
next
  case (Some i)
  from upgrade_finish_run [OF this, of E reply] Some show ?thesis
    unfolding upgrade_outcome_def step_shape_def by (auto split: sum.splits)
qed

lemma shape_upgrade: "step_shape E (EUpgrade u request) s (endpoint_step E (EUpgrade u request) s)"
proof (cases "handle_in_use s u")
  case True
  then show ?thesis by (simp add: shape_still)
next
  case False
  show ?thesis
  proof (cases rule: upgrade_begin_run [of E u request s])
    case rejected
    with False show ?thesis by (simp add: shape_still)
  next
    case (awaiting i)
    with False show ?thesis unfolding step_shape_def by (auto simp: ep_view_of_def)
  qed
qed

lemmas shape_moves = connect_settles_run [THEN shape_move] on_socket_close_run [THEN shape_move]
  on_socket_error_run [THEN shape_move] finish_cleanup_run [THEN shape_move]

lemma shape_stop:
  assumes "calm.keeps m"
  shows "step_shape E e s (snd (bind stopAccepting (\<lambda>_. m) s))"
  using calm.keepsD [OF assms, of "s\<lparr>accepting := False\<rparr>"]
  by (intro shape_still) (simp_all add: stopAccepting_def em_simps)

lemma shape_closing:
  "step_shape E e s (snd (stopAccepting s))" "step_shape E e s (snd (onHttpServerClose E s))"
  "step_shape E e s (snd (close_endpoint E s))"
proof -
  show "step_shape E e s (snd (stopAccepting s))" by (rule shape_still) (simp_all add: stopAccepting_def em_simps)
  show "step_shape E e s (snd (onHttpServerClose E s))"
    unfolding onHttpServerClose_def by (rule shape_stop; intro calm.keeps_bind calm_handlers)
  have "calm.keeps (bind stopHeartbeat (\<lambda>_. bind (closeClients E) (\<lambda>_. bind (disposeAuthentication E) (\<lambda>_.
      modify (\<lambda>s. s\<lparr>ep_closed := True\<rparr>)))))" by (intro calm.keeps_bind calm_handlers calm_modify) simp
  from shape_stop [OF this] show "step_shape E e s (snd (close_endpoint E s))"
    by (cases "ep_closed s") (simp_all add: close_endpoint_def em_simps shape_still)
qed

lemma endpoint_shape:
  assumes "view_ok (ep_view_of s)"
  shows "step_shape E e s (endpoint_step E e s)"
proof (cases e)
  case (EUpgrade u r)
  then show ?thesis by (simp only: shape_upgrade)
next
  case (EAuthenticated u r)
  then show ?thesis by (simp add: shape_authenticated)
next
  case (EConnectHandled u)
  have "conn_owner c = None" if "jm_get (connections s) u = Some c" "conn_stage c \<noteq> Finished" for c
    using view_ok_conn [OF assms, of u c] that by (simp add: conn_ok_def)
  with EConnectHandled connect_handled_run [of s u E] show ?thesis by (auto intro: shape_move)
qed (simp_all add: shape_moves shape_calm shape_closing calm_handlers calm_index shape_still)


section \<open>Properties\<close>

lemma v_put_dom: "jm_get (v_conns (v_put u f v)) w = None \<longleftrightarrow> jm_get (v_conns v) w = None" "v_pending (v_put u f v) = v_pending v"
  by (simp_all add: v_put_def split: option.split)

lemma v_clean_dom: "jm_get (v_conns (v_clean u v)) w = None \<longleftrightarrow> jm_get (v_conns v) w = None" "v_pending (v_clean u v) = v_pending v"
  by (simp_all add: v_clean_def v_call_def v_put_dom split: option.split)

lemma v_move_dom:
  "v_move u v v' \<Longrightarrow> (jm_get (v_conns v') w = None \<longleftrightarrow> jm_get (v_conns v) w = None) \<and> v_pending v' = v_pending v"
  by (erule v_move.cases) (simp_all add: v_put_dom v_clean_dom fold_v_call)

lemma endpoint_step_ok:
  assumes ok: "view_ok (ep_view_of s)"
  shows "view_ok (ep_view_of (endpoint_step E e s))"
proof -
  from endpoint_shape [OF ok, of E e] consider
      u where "v_move u (ep_view_of s) (ep_view_of (endpoint_step E e s))"
    | u i where "\<not> handle_in_use s u" "ep_view_of (endpoint_step E e s) = (ep_view_of s)\<lparr>v_pending := jm_set (pending_upgrades s) u i\<rparr>"
    | u where "ep_view_of (endpoint_step E e s) = (ep_view_of s)\<lparr>v_pending := jm_delete (pending_upgrades s) u\<rparr>"
    | u i a k where "jm_get (pending_upgrades s) u = Some i" "ep_view_of (endpoint_step E e s) =
        (ep_view_of s)\<lparr>v_pending := jm_delete (pending_upgrades s) u, v_conns := jm_set (connections s) u (new_connection i k a)\<rparr>"
    unfolding step_shape_def by blast
  then show ?thesis
  proof cases
    case 1
    then show ?thesis using ok by (rule v_move_ok)
  next
    case (2 u i)
    have "case jm_get (connections s) w of None \<Rightarrow> owner_closes w (ws_calls s) = [] \<and> ready_count w (ws_calls s) = 0
        | Some c \<Rightarrow> conn_ok w (filter tracked (ws_calls s)) c \<and> jm_get (jm_set (pending_upgrades s) u i) w = None" for w
      using ok [unfolded view_ok_def, THEN spec, of w] 2(1) by (auto simp: handle_in_use_def split: option.splits)
    then show ?thesis by (simp add: view_ok_def 2(2) cong: option.case_cong)
  next
    case (3 u)
    have "case jm_get (connections s) w of None \<Rightarrow> owner_closes w (ws_calls s) = [] \<and> ready_count w (ws_calls s) = 0
        | Some c \<Rightarrow> conn_ok w (filter tracked (ws_calls s)) c \<and> jm_get (jm_delete (pending_upgrades s) u) w = None" for w
      using ok [unfolded view_ok_def, THEN spec, of w] by (auto split: option.splits)
    then show ?thesis by (simp add: view_ok_def 3 cong: option.case_cong)
  next
    case (4 u i a k)
    then have "jm_get (connections s) u = None"
      using ok [unfolded view_ok_def, THEN spec, of u] by (auto split: option.splits)
    then have "case jm_get (jm_set (connections s) u (new_connection i k a)) w of
          None \<Rightarrow> owner_closes w (ws_calls s) = [] \<and> ready_count w (ws_calls s) = 0
        | Some c \<Rightarrow> conn_ok w (filter tracked (ws_calls s)) c \<and> jm_get (jm_delete (pending_upgrades s) u) w = None" for w
      using ok [unfolded view_ok_def, THEN spec, of w] by (auto simp: conn_ok_def new_connection_def split: option.splits)
    then show ?thesis by (simp add: view_ok_def 4(2) cong: option.case_cong)
  qed
qed

definition endpoint_ok :: "('w, 't) endpoint \<Rightarrow> bool" where
  "endpoint_ok s \<longleftrightarrow> view_ok (ep_view_of s)"

lemma new_endpoint_ok: "endpoint_ok (new_endpoint x m)"
  by (simp add: endpoint_ok_def new_endpoint_def view_ok_def)

lemma endpoint_run_ok: "endpoint_ok s \<Longrightarrow> endpoint_ok (fold (endpoint_step E) es s)"
  by (induction es arbitrary: s) (simp_all add: endpoint_ok_def endpoint_step_ok)

lemma run_shape: "endpoint_ok s \<Longrightarrow> step_shape E e s (endpoint_step E e s)"
  by (simp add: endpoint_ok_def endpoint_shape)

lemma closed_step:
  assumes "endpoint_ok s" and "\<not> accepting s"
  shows "\<not> accepting (endpoint_step E e s) \<and>
    (jm_get (connections (endpoint_step E e s)) u = None \<longleftrightarrow> jm_get (connections s) u = None)"
proof -
  note sh = run_shape [OF assms(1), of E e]
  then have "(\<exists>w. v_move w (ep_view_of s) (ep_view_of (endpoint_step E e s))) \<or>
      v_conns (ep_view_of (endpoint_step E e s)) = v_conns (ep_view_of s)"
    using assms(2) unfolding step_shape_def by fastforce
  then show ?thesis using v_move_dom [of _ "ep_view_of s" "ep_view_of (endpoint_step E e s)" u] sh assms(2)
    by (auto simp: step_shape_def)
qed

text \<open>
  C12. Once the endpoint has stopped accepting it never accepts again: whatever happens, requests that were
  already waiting for their authentication included, no connection is added.
\<close>

theorem endpoint_stays_closed:
  assumes "endpoint_ok s" and "\<not> accepting s"
  shows "\<not> accepting (fold (endpoint_step E) es s) \<and>
    (jm_get (connections (fold (endpoint_step E) es s)) u = None \<longleftrightarrow> jm_get (connections s) u = None)"
  using assms
proof (induction es arbitrary: s)
  case (Cons e es)
  from closed_step [OF Cons.prems, of E e u] Cons.IH [of "endpoint_step E e s"] endpoint_run_ok [OF Cons.prems(1), of E "[e]"]
  show ?case by auto
qed simp

text \<open>
  C13. The terminal behind a connection is released exactly once. In every run, when the socket of a
  connection has ended and the attempt to attach it has been handled, the owner it was given, if any, has
  been asked to close once; never twice, and never another one. The ready message is sent at most once, and only
  to a connection that has an owner.
\<close>

theorem endpoint_releases_owner:
  assumes "endpoint_ok s0" and "s = fold (endpoint_step E) es s0" and "jm_get (connections s) u = Some c"
  shows "(ended c \<and> conn_stage c = Finished \<longrightarrow> owner_closes u (ws_calls s) = (case conn_owner c of None \<Rightarrow> [] | Some h \<Rightarrow> [h])) \<and>
    (owner_closes u (ws_calls s) = [] \<or> (\<exists>h. conn_owner c = Some h \<and> owner_closes u (ws_calls s) = [h])) \<and>
    ready_count u (ws_calls s) \<le> (if conn_owner c = None then 0 else 1)"
proof -
  have "view_ok (ep_view_of s)" using endpoint_run_ok [OF assms(1)] by (simp add: assms(2) endpoint_ok_def)
  from view_ok_conn [OF this, of u c] assms(3) have "conn_ok u (ws_calls s) c" by (simp add: conn_ok_def)
  then show ?thesis by (auto simp: conn_ok_def split: option.splits if_splits)
qed

lemma pending_admitted:
  "jm_get (pending_upgrades (fold (endpoint_step E) es (new_endpoint x m))) u = Some i \<Longrightarrow>
   \<exists>request. EUpgrade u request \<in> set es \<and> authorizeUpgrade (url_parser E) request (upgrade_options E) = Allowed i"
proof (induction es arbitrary: i rule: rev_induct)
  case Nil
  then show ?case by (simp add: new_endpoint_def)
next
  case (snoc e es)
  define s where "s = fold (endpoint_step E) es (new_endpoint x m)"
  have sh: "step_shape E e s (endpoint_step E e s)"
    unfolding s_def by (rule run_shape [OF endpoint_run_ok [OF new_endpoint_ok]])
  have "v_pending (ep_view_of (endpoint_step E e s)) = v_pending (ep_view_of s) \<or>
      (\<exists>w. v_pending (ep_view_of (endpoint_step E e s)) = jm_delete (pending_upgrades s) w) \<or>
      (\<exists>w request j. e = EUpgrade w request \<and> authorizeUpgrade (url_parser E) request (upgrade_options E) = Allowed j \<and>
         v_pending (ep_view_of (endpoint_step E e s)) = jm_set (pending_upgrades s) w j)"
    using sh v_move_dom unfolding step_shape_def by fastforce
  then show ?case using snoc by (auto simp: s_def [symmetric] split: if_splits)
qed

text \<open>
  C11. A connection is accepted only for a request that passed the admission rules for that very session,
  when its authentication is answered with an authority, while the endpoint is accepting. The
  authentication service has confirmed the authority as active when the answer came in and again as the
  last step of the registration. The socket is then registered in the index under this authority and this
  session, and the session manager has issued the connection a token for the session.
\<close>

theorem endpoint_admission:
  assumes "s = fold (endpoint_step E) es (new_endpoint x m)"
    and "jm_get (connections s) u = None" and "jm_get (connections (endpoint_step E e s)) u = Some c"
  shows "(\<exists>request. EUpgrade u request \<in> set es \<and>
      authorizeUpgrade (url_parser E) request (upgrade_options E) = Allowed (conn_session c)) \<and>
    e = EAuthenticated u (Inr (Some (conn_authority c))) \<and> accepting s \<and>
    (\<exists>w. auth_active (ep_index E) (ep_world s) (conn_authority c) = (IsActive, w)) \<and>
    (\<exists>w. auth_active (ep_index E) w (conn_authority c) = (IsActive, ep_world (endpoint_step E e s))) \<and>
    enrolled u c (endpoint_step E e s)"
proof -
  have sh: "step_shape E e s (endpoint_step E e s)"
    unfolding assms(1) by (rule run_shape [OF endpoint_run_ok [OF new_endpoint_ok]])
  moreover have "\<not> v_move w (ep_view_of s) (ep_view_of (endpoint_step E e s))" for w
    using v_move_dom [of w "ep_view_of s" "ep_view_of (endpoint_step E e s)" u] assms(2,3) by auto
  moreover have "v_conns (ep_view_of (endpoint_step E e s)) \<noteq> v_conns (ep_view_of s)" using assms(2,3) by auto
  ultimately have "\<exists>w i a k. e = EAuthenticated w (Inr (Some a)) \<and> jm_get (pending_upgrades s) w = Some i \<and> accepting s \<and>
      confirmed E a s (endpoint_step E e s) \<and> enrolled w (new_connection i k a) (endpoint_step E e s) \<and>
      v_conns (ep_view_of (endpoint_step E e s)) = jm_set (connections s) w (new_connection i k a)"
    unfolding step_shape_def 
    by (elim conjE disjE exE)
      (blast, simp del: ep_view_simps, simp del: ep_view_simps, intro exI conjI, assumption+, simp del: ep_view_simps)
  then obtain w i a k where w: "e = EAuthenticated w (Inr (Some a))" "jm_get (pending_upgrades s) w = Some i" "accepting s"
    "confirmed E a s (endpoint_step E e s)" "enrolled w (new_connection i k a) (endpoint_step E e s)"
    "v_conns (ep_view_of (endpoint_step E e s)) = jm_set (connections s) w (new_connection i k a)" by blast
  with assms(2,3) have "u = w" "c = new_connection i k a" by (auto split: if_splits)
  with w pending_admitted [of E es x m w i] show ?thesis by (auto simp: assms(1) new_connection_def confirmed_def)
qed


section \<open>An example\<close>

definition open_sockets :: "string list index_env" where
  "open_sockets = \<lparr>sock_open = (\<lambda>_ _. True), sock_close = (\<lambda>w _. w), sock_terminate = (\<lambda>w _. w), sock_listen = (\<lambda>w _. (True, w)),
     auth_active = (\<lambda>w _. (IsActive, w)), auth_sweep = (\<lambda>w. ([], w))\<rparr>"

definition example_endpoint :: "(string list, TabStore) endpoint_env" where
  "example_endpoint = \<lparr>url_parser = (\<lambda>_. Some example_url),
     upgrade_options = \<lparr>publicOrigin = ''http://h'', basePath = ''/''\<rparr>, has_authenticator = True, ep_index = open_sockets,
     ep_manager = small_manager, handshake = (\<lambda>_ w. (True, w)), perform = (\<lambda>_ w. (True, w)), ws_clients = (\<lambda>_. [5])\<rparr>"

definition empty_index :: WebSocketAuthIndex where
  "empty_index = \<lparr>maxSessions = 4, maxSockets = 4, bySession = [], bySocket = [], tabCounts = [], disposed = False,
     evictionGeneration = 0, tabGenerations = []\<rparr>"

definition some_authority :: ApplicationSessionAuthority where
  "some_authority = ApplicationSessionAuthority.make ''s'' 1 10"

definition tab_request :: UpgradeRequest where
  "tab_request = \<lparr>req_origin = Some ''http://h'', rawHeaders = Some [''Origin'', ''http://h''],
     requestUrl = Some (websocketSessionPath ''/'' id_a)\<rparr>"

lemma example_endpoint_fields [simp]:
  "url_parser example_endpoint = (\<lambda>_. Some example_url)" "upgrade_options example_endpoint = \<lparr>publicOrigin = ''http://h'', basePath = ''/''\<rparr>"
  "has_authenticator example_endpoint" "ep_index example_endpoint = open_sockets" "ep_manager example_endpoint = small_manager"
  "handshake example_endpoint u w = (True, w)" "perform example_endpoint c w = (True, w)"
  by (simp_all add: example_endpoint_def)

lemma tab_request_allowed:
  "authorizeUpgrade (\<lambda>_. Some example_url) tab_request \<lparr>publicOrigin = ''http://h'', basePath = ''/''\<rparr> = Allowed id_a"
proof -
  have "exactRawOrigin [''Origin'', ''http://h''] = Some ''http://h''" by code_simp
  moreover have "isExactOrigin (\<lambda>_. Some example_url) ''http://h'' ''http://h''" by code_simp
  ultimately show ?thesis unfolding authorizeUpgrade_Allowed by (simp add: tab_request_def example_ids)
qed

definition waiting_endpoint :: "(string list, TabStore) endpoint" where
  "waiting_endpoint = endpoint_step example_endpoint (EUpgrade 5 tab_request) (new_endpoint empty_index fresh_state)"

lemma waiting: "waiting_endpoint = (new_endpoint empty_index fresh_state)\<lparr>pending_upgrades := [(5, id_a)]\<rparr>"
  by (simp add: waiting_endpoint_def handle_in_use_def upgrade_begin_def em_simps tab_request_allowed)
     (simp add: new_endpoint_def)

lemma example_accepts:
  "jm_get (connections (endpoint_step example_endpoint (EAuthenticated 5 (Inr (Some some_authority))) waiting_endpoint)) 5 =
   Some (new_connection id_a fresh_token some_authority)"
  by (simp add: waiting new_endpoint_def upgrade_finish_def upgrade_decide_def em_simps authority_active_def on_auth_index_def
      isActive_def checkActive_def open_sockets_def empty_index_def put_world_def on_session_manager_def fresh_authorize
      ep_world_def upgraded_def registerIfActive_def openSession_def completeRegistration_def Let_def)

theorem endpoint_admission_witness:
  "enrolled 5 (new_connection id_a fresh_token some_authority)
     (endpoint_step example_endpoint (EAuthenticated 5 (Inr (Some some_authority))) waiting_endpoint)"
proof -
  have s: "waiting_endpoint = fold (endpoint_step example_endpoint) [EUpgrade 5 tab_request] (new_endpoint empty_index fresh_state)"
    by (simp add: waiting_endpoint_def del: endpoint_step.simps)
  have n: "jm_get (connections waiting_endpoint) 5 = None" by (simp add: waiting new_endpoint_def)
  from endpoint_admission [OF s n example_accepts] show ?thesis by blast
qed


theorem endpoint_stays_closed_witness:
  "jm_get (connections (fold (endpoint_step example_endpoint)
     [EAuthenticated 5 (Inr (Some some_authority)), EUpgrade 6 tab_request] (waiting_endpoint\<lparr>accepting := False\<rparr>))) 5 = None"
proof -
  have ok: "endpoint_ok (waiting_endpoint\<lparr>accepting := False\<rparr>)"
    by (simp add: endpoint_ok_def waiting new_endpoint_def view_ok_def)
  have "jm_get (connections (waiting_endpoint\<lparr>accepting := False\<rparr>)) 5 = None" by (simp add: waiting new_endpoint_def)
  then show ?thesis using endpoint_stays_closed [OF ok, of example_endpoint
      "[EAuthenticated 5 (Inr (Some some_authority)), EUpgrade 6 tab_request]" 5] by (simp del: fold_simps)
qed

definition attached_connection :: connection where
  "attached_connection = (new_connection id_a fresh_token some_authority)\<lparr>conn_stage := Connected 9\<rparr>"

definition attached_endpoint :: "(string list, TabStore) endpoint" where
  "attached_endpoint = (new_endpoint empty_index fresh_state)\<lparr>connections := [(5, attached_connection)]\<rparr>"

lemma attached_ok: "endpoint_ok attached_endpoint"
  by (simp add: endpoint_ok_def attached_endpoint_def new_endpoint_def view_ok_def conn_ok_def attached_connection_def new_connection_def)

lemma small_owner_close: "owner_close (m_owners small_manager) h c r w = (True, w)"
  by (simp add: small_manager_def)

lemma attached_run:
  "\<exists>c. jm_get (connections (fold (endpoint_step example_endpoint) [EConnectHandled 5, ESocketClose 5] attached_endpoint)) 5 = Some c \<and>
     ended c \<and> conn_stage c = Finished \<and> conn_owner c = Some 9"
  by (simp add: attached_endpoint_def new_endpoint_def attached_connection_def new_connection_def connect_handled_def
      with_connection_run em_simps conn_update_def on_connected_def authority_active_def on_auth_index_def isActive_def checkActive_def
      open_sockets_def empty_index_def put_world_def ep_world_def socket_is_open_def send_message_def ws_do_def
      on_socket_close_def end_connection_def cleanupOwner_def on_session_manager_def close_owner_def small_owner_close Let_def)

theorem endpoint_releases_owner_witness:
  "owner_closes 5 (ws_calls (fold (endpoint_step example_endpoint) [EConnectHandled 5, ESocketClose 5] attached_endpoint)) = [9]"
proof -
  obtain c where c: "jm_get (connections (fold (endpoint_step example_endpoint) [EConnectHandled 5, ESocketClose 5] attached_endpoint)) 5 = Some c"
    "ended c" "conn_stage c = Finished" "conn_owner c = Some 9" using attached_run by blast
  from endpoint_releases_owner [OF attached_ok refl c(1)] c(2-) show ?thesis by simp
qed

end
