(* ===== verification/Headers.thy ===== *)
theory Headers
  imports Origin Csrf
begin

text \<open>
  Reading request headers, from \<open>auth-middleware.ts\<close>: the session cookie, the single bounded header and the
  JSON content type, with the cookie that the server sets. Node hands the raw headers over as a flat list of
  names and values, each a string of Latin-1 characters. The two loops of \<open>readSessionCookie\<close> are proved
  equivalent to a reference definition over the whole list, and the cookie that is set is read back.
\<close>

section \<open>Strings\<close>

text \<open>\<open>split\<close> at a character, \<open>trim\<close> and \<open>indexOf\<close> with the two \<open>slice\<close>s around it.\<close>

fun split_on :: "char \<Rightarrow> string \<Rightarrow> string list" where
  "split_on c [] = [[]]"
| "split_on c (x # xs) =
     (if x = c then [] # split_on c xs
      else case split_on c xs of [] \<Rightarrow> [[x]] | y # ys \<Rightarrow> (x # y) # ys)"

definition js_space :: "char \<Rightarrow> bool" where
  "js_space c \<longleftrightarrow> (let n = of_char c :: nat in 9 \<le> n \<and> n \<le> 13 \<or> n = 32 \<or> n = 160)"

definition trim :: "string \<Rightarrow> string" where
  "trim s = rev (dropWhile js_space (rev (dropWhile js_space s)))"

definition cookie_pair :: "string \<Rightarrow> (string \<times> string) option" where
  "cookie_pair p =
     (if CHR ''='' \<notin> set p \<or> takeWhile (\<lambda>c. c \<noteq> CHR ''='') p = [] then None
      else Some (takeWhile (\<lambda>c. c \<noteq> CHR ''='') p, tl (dropWhile (\<lambda>c. c \<noteq> CHR ''='') p)))"

definition word_class :: "char \<Rightarrow> bool" where
  "word_class c \<longleftrightarrow> (let n = of_char c :: nat in 48 \<le> n \<and> n \<le> 57 \<or> 65 \<le> n \<and> n \<le> 90 \<or> 97 \<le> n \<and> n \<le> 122)"

definition sessionTokenPattern :: "string \<Rightarrow> bool" where
  "sessionTokenPattern s \<longleftrightarrow> s \<noteq> [] \<and> list_all (\<lambda>c. word_class c \<or> c = CHR ''_'' \<or> c = CHR ''-'') s"

definition visibleAsciiPattern :: "string \<Rightarrow> bool" where
  "visibleAsciiPattern s \<longleftrightarrow> s \<noteq> [] \<and> list_all (\<lambda>c. let n = of_char c :: nat in 33 \<le> n \<and> n \<le> 126) s"

definition headerAsciiPattern :: "string \<Rightarrow> bool" where
  "headerAsciiPattern s \<longleftrightarrow> s \<noteq> [] \<and> list_all (\<lambda>c. let n = of_char c :: nat in 32 \<le> n \<and> n \<le> 126) s"

definition charsetParameterPattern :: "string \<Rightarrow> bool" where
  "charsetParameterPattern s \<longleftrightarrow> take 8 (toLowerCase s) = ''charset='' \<and> drop 8 s \<noteq> [] \<and>
     list_all (\<lambda>c. word_class c \<or> c = CHR ''.'' \<or> c = CHR ''_'' \<or> c = CHR ''-'') (drop 8 s)"

section \<open>The session cookie\<close>

definition SESSION_COOKIE_NAME :: string where "SESSION_COOKIE_NAME = ''flanterminal_session''"
definition CSRF_HEADER_NAME :: string where "CSRF_HEADER_NAME = ''x-csrf-token''"
definition MAX_COOKIE_HEADER_BYTES :: nat where "MAX_COOKIE_HEADER_BYTES = 8 * 1024"
definition MAX_COOKIE_PAIRS :: nat where "MAX_COOKIE_PAIRS = 32"
definition MAX_RAW_HEADER_ITEMS :: nat where "MAX_RAW_HEADER_ITEMS = 128"
definition MAX_RAW_HEADER_FIELDS :: nat where "MAX_RAW_HEADER_FIELDS = MAX_RAW_HEADER_ITEMS div 2"
definition MAX_RAW_HEADER_BYTES :: nat where "MAX_RAW_HEADER_BYTES = 16 * 1024"
definition MAX_COOKIE_FIELD_LINES :: nat where "MAX_COOKIE_FIELD_LINES = 8"
definition MAX_SESSION_COOKIE_BYTES :: nat where "MAX_SESSION_COOKIE_BYTES = 256"
definition MAX_CSRF_BYTES :: nat where "MAX_CSRF_BYTES = 512"

text \<open>The loop over the header fields, with \<open>rawHeaderBytes\<close>, \<open>byteCount\<close>, \<open>cookieFieldLines\<close> and \<open>headers\<close>.\<close>

fun cookie_fields :: "nat \<Rightarrow> nat \<Rightarrow> nat \<Rightarrow> string list \<Rightarrow> string list \<Rightarrow> string list option" where
  "cookie_fields rb cb n acc (name # val # rest) =
     (let rb2 = rb + byteLength name + byteLength val
      in if rb2 > MAX_RAW_HEADER_BYTES then None
         else if toLowerCase name \<noteq> ''cookie'' then cookie_fields rb2 cb n acc rest
         else if Suc n > MAX_COOKIE_FIELD_LINES then None
         else if cb + byteLength val > MAX_COOKIE_HEADER_BYTES then None
         else cookie_fields rb2 (cb + byteLength val) (Suc n) (acc @ [val]) rest)"
| "cookie_fields rb cb n acc [] = Some acc"
| "cookie_fields rb cb n acc [name] = None"

definition session_value :: "string \<Rightarrow> string list" where
  "session_value rawPair =
     (case cookie_pair (trim rawPair) of
        Some (name, val) \<Rightarrow> if name = SESSION_COOKIE_NAME then [val] else []
      | None \<Rightarrow> [])"

text \<open>The inner and the outer loop over the cookie pairs, with \<open>pairCount\<close> and \<open>sessions\<close>.\<close>

fun pair_loop :: "nat \<Rightarrow> string list \<Rightarrow> string list \<Rightarrow> (nat \<times> string list) option" where
  "pair_loop n acc [] = Some (n, acc)"
| "pair_loop n acc (p # ps) = (if Suc n > MAX_COOKIE_PAIRS then None else pair_loop (Suc n) (acc @ session_value p) ps)"

fun header_loop :: "nat \<Rightarrow> string list \<Rightarrow> string list \<Rightarrow> string list option" where
  "header_loop n acc [] = Some acc"
| "header_loop n acc (h # hs) =
     (case pair_loop n acc (split_on (CHR '';'') h) of
        None \<Rightarrow> None
      | Some (n', acc') \<Rightarrow> header_loop n' acc' hs)"

definition readSessionCookie :: "string list \<Rightarrow> string option" where
  "readSessionCookie hdrs =
     (if length hdrs mod 2 \<noteq> 0 \<or> length hdrs > MAX_RAW_HEADER_ITEMS \<or>
         length hdrs div 2 > MAX_RAW_HEADER_FIELDS
      then None
      else case cookie_fields 0 0 0 [] hdrs of
             None \<Rightarrow> None
           | Some [] \<Rightarrow> None
           | Some headers \<Rightarrow>
               (case header_loop 0 [] headers of
                  Some [session] \<Rightarrow>
                    if byteLength session \<le> MAX_SESSION_COOKIE_BYTES \<and> sessionTokenPattern session then Some session else None
                | _ \<Rightarrow> None))"

section \<open>Single headers\<close>

text \<open>
  \<open>oneBoundedHeader\<close>. A list of odd length, which Node does not produce, ends with a name without a value:
  the lookup fails when that name is the wanted one.
\<close>

fun matching_values :: "string \<Rightarrow> string list \<Rightarrow> string list option" where
  "matching_values wanted (name # val # rest) =
     (case matching_values wanted rest of
        None \<Rightarrow> None
      | Some vs \<Rightarrow> Some (if toLowerCase name = wanted then val # vs else vs))"
| "matching_values wanted [] = Some []"
| "matching_values wanted [name] = (if toLowerCase name = wanted then None else Some [])"

definition oneBoundedHeader :: "string list \<Rightarrow> string \<Rightarrow> nat \<Rightarrow> (string \<Rightarrow> bool) \<Rightarrow> string option" where
  "oneBoundedHeader hdrs wanted maximumBytes pattern =
     (case matching_values wanted hdrs of
        Some [val] \<Rightarrow> if byteLength val \<le> maximumBytes \<and> pattern val then Some val else None
      | _ \<Rightarrow> None)"

definition hasExactHeader :: "string list \<Rightarrow> string \<Rightarrow> string \<Rightarrow> bool" where
  "hasExactHeader hdrs wanted expected \<longleftrightarrow>
     oneBoundedHeader hdrs wanted 2048 headerAsciiPattern = Some expected"

definition hasJsonContentType :: "string list \<Rightarrow> bool" where
  "hasJsonContentType hdrs =
     (case oneBoundedHeader hdrs ''content-type'' 128 headerAsciiPattern of
        None \<Rightarrow> False
      | Some val \<Rightarrow>
          (case split_on (CHR '';'') val of
             [] \<Rightarrow> False
           | mediaType # parameters \<Rightarrow>
               if toLowerCase (trim mediaType) \<noteq> ''application/json'' then False
               else case parameters of
                      [] \<Rightarrow> True
                    | [p] \<Rightarrow> charsetParameterPattern (trim p)
                    | _ \<Rightarrow> False))"

section \<open>Setting the cookie\<close>

definition join_parts :: "string list \<Rightarrow> string" where
  "join_parts parts = (case parts of [] \<Rightarrow> [] | p # ps \<Rightarrow> p @ concat (map (\<lambda>q. ''; '' @ q) ps))"

definition serializeCookie :: "string \<Rightarrow> string \<Rightarrow> bool \<Rightarrow> bool \<Rightarrow> string option" where
  "serializeCookie val base secure clear =
     (if take 1 base \<noteq> ''/'' \<or> CHR '';'' \<in> set base \<or> list_ex (\<lambda>c. let n = of_char c :: nat in n \<le> 32 \<or> n = 127) base then None
      else Some (join_parts
        ([SESSION_COOKIE_NAME @ ''='' @ val, ''Path='' @ base, ''HttpOnly''] @ (if secure then [''Secure''] else []) @
         [''SameSite=Strict''] @ (if clear then [''Max-Age=0''] else []))))"

definition setSessionCookie :: "string \<Rightarrow> string \<Rightarrow> bool \<Rightarrow> string option" where
  "setSessionCookie val base secure = (if \<not> TOKEN_PATTERN val then None else serializeCookie val base secure False)"

definition clearSessionCookie :: "string \<Rightarrow> bool \<Rightarrow> string option" where
  "clearSessionCookie base secure = serializeCookie [] base secure True"

section \<open>Reference definition\<close>

fun header_pairs :: "string list \<Rightarrow> (string \<times> string) list" where
  "header_pairs (name # val # rest) = (name, val) # header_pairs rest"
| "header_pairs _ = []"

definition header_values :: "string \<Rightarrow> string list \<Rightarrow> string list" where
  "header_values wanted hdrs = map snd (filter (\<lambda>(n, _). toLowerCase n = wanted) (header_pairs hdrs))"

definition cookie_texts :: "string list \<Rightarrow> string list" where
  "cookie_texts hdrs = concat (map (split_on (CHR '';'')) (header_values ''cookie'' hdrs))"

definition session_values :: "string list \<Rightarrow> string list" where
  "session_values hdrs = concat (map session_value (cookie_texts hdrs))"

definition header_bytes :: "string list \<Rightarrow> nat" where
  "header_bytes hdrs = sum_list (map byteLength hdrs)"

definition cookie_limits :: "string list \<Rightarrow> bool" where
  "cookie_limits hdrs \<longleftrightarrow>
     even (length hdrs) \<and> length hdrs \<le> MAX_RAW_HEADER_ITEMS \<and> header_bytes hdrs \<le> MAX_RAW_HEADER_BYTES \<and>
     length (header_values ''cookie'' hdrs) \<le> MAX_COOKIE_FIELD_LINES \<and>
     sum_list (map byteLength (header_values ''cookie'' hdrs)) \<le> MAX_COOKIE_HEADER_BYTES \<and>
     length (cookie_texts hdrs) \<le> MAX_COOKIE_PAIRS"

lemma header_simps [simp]:
  "header_values w [] = []"
  "header_values w (n # v # fs) = (if toLowerCase n = w then [v] else []) @ header_values w fs"
  "header_bytes [] = 0" "header_bytes (x # fs) = byteLength x + header_bytes fs"
  by (simp_all add: header_values_def header_bytes_def)

lemma cookie_fields_reference:
  "\<lbrakk>even (length fs); rb \<le> MAX_RAW_HEADER_BYTES; cb \<le> MAX_COOKIE_HEADER_BYTES; n \<le> MAX_COOKIE_FIELD_LINES\<rbrakk> \<Longrightarrow>
   cookie_fields rb cb n acc fs =
     (if rb + header_bytes fs \<le> MAX_RAW_HEADER_BYTES \<and> n + length (header_values ''cookie'' fs) \<le> MAX_COOKIE_FIELD_LINES \<and>
         cb + sum_list (map byteLength (header_values ''cookie'' fs)) \<le> MAX_COOKIE_HEADER_BYTES
      then Some (acc @ header_values ''cookie'' fs) else None)"
  by (induction rb cb n acc fs rule: cookie_fields.induct) (auto simp: Let_def add.assoc)

lemma pair_loop_reference:
  "n \<le> MAX_COOKIE_PAIRS \<Longrightarrow> pair_loop n acc ps =
     (if n + length ps \<le> MAX_COOKIE_PAIRS then Some (n + length ps, acc @ concat (map session_value ps)) else None)"
  by (induction ps arbitrary: n acc) auto

lemma header_loop_reference:
  "n \<le> MAX_COOKIE_PAIRS \<Longrightarrow> header_loop n acc hs =
     (let ps = concat (map (split_on (CHR '';'')) hs)
      in if n + length ps \<le> MAX_COOKIE_PAIRS then Some (acc @ concat (map session_value ps)) else None)"
proof (induction hs arbitrary: n acc)
  case (Cons h hs)
  then show ?case by (auto simp: pair_loop_reference Let_def)
qed simp

lemma read_cookie_eq:
  "readSessionCookie hdrs =
     (if cookie_limits hdrs
      then case session_values hdrs of
             [v] \<Rightarrow> if byteLength v \<le> MAX_SESSION_COOKIE_BYTES \<and> sessionTokenPattern v then Some v else None
           | _ \<Rightarrow> None
      else None)"
proof (cases "even (length hdrs) \<and> length hdrs \<le> MAX_RAW_HEADER_ITEMS")
  case False
  then show ?thesis by (auto simp: readSessionCookie_def cookie_limits_def even_iff_mod_2_eq_zero)
next
  case True
  have f: "cookie_fields 0 0 0 [] hdrs =
      (if header_bytes hdrs \<le> MAX_RAW_HEADER_BYTES \<and> length (header_values ''cookie'' hdrs) \<le> MAX_COOKIE_FIELD_LINES \<and>
          sum_list (map byteLength (header_values ''cookie'' hdrs)) \<le> MAX_COOKIE_HEADER_BYTES
       then Some (header_values ''cookie'' hdrs) else None)"
    using True by (simp add: cookie_fields_reference)
  have h: "header_loop 0 [] (header_values ''cookie'' hdrs) =
      (if length (cookie_texts hdrs) \<le> MAX_COOKIE_PAIRS then Some (session_values hdrs) else None)"
    by (simp add: header_loop_reference Let_def cookie_texts_def session_values_def)
  have e: "header_values ''cookie'' hdrs = [] \<Longrightarrow> session_values hdrs = []"
    by (simp add: session_values_def cookie_texts_def)
  have l: "length hdrs mod 2 = 0" "length hdrs div 2 \<le> MAX_RAW_HEADER_FIELDS"
    using True by (auto simp: MAX_RAW_HEADER_FIELDS_def intro: div_le_mono)
  show ?thesis
  proof (cases "header_values ''cookie'' hdrs")
    case Nil
    with e l True show ?thesis by (simp add: readSessionCookie_def f)
  next
    case (Cons x xs)
    show ?thesis using True l h f unfolding Cons
      by (simp add: readSessionCookie_def cookie_limits_def Cons del: header_loop.simps split: list.split)
  qed
qed



text \<open>
  C29. Reading the session cookie is what the reference definition says: within the limits on fields, bytes,
  cookie lines and cookie pairs, the request carries a session exactly when all its cookie lines together
  hold one pair of that name, with a bounded token as its value; beyond any limit there is none.
\<close>

theorem session_cookie_reference:
  "readSessionCookie hdrs =
     (if cookie_limits hdrs
      then case session_values hdrs of
             [v] \<Rightarrow> if byteLength v \<le> MAX_SESSION_COOKIE_BYTES \<and> sessionTokenPattern v then Some v else None
           | _ \<Rightarrow> None
      else None)"
  by (rule read_cookie_eq)

section \<open>Round trip\<close>

lemma split_on_parts:
  assumes "split_on c s = m # ps"
  shows "m = takeWhile (\<lambda>x. x \<noteq> c) s" "length ps = length (filter (\<lambda>x. x = c) s)"
proof -
  have "split_on c s \<noteq> [] \<and> hd (split_on c s) = takeWhile (\<lambda>x. x \<noteq> c) s \<and>
      length (tl (split_on c s)) = length (filter (\<lambda>x. x = c) s)"
  proof (induction s)
    case (Cons x xs)
    then show ?case by (cases "split_on c xs") auto
  qed simp
  with assms show "m = takeWhile (\<lambda>x. x \<noteq> c) s" "length ps = length (filter (\<lambda>x. x = c) s)" by simp_all
qed

lemma split_on_none: "c \<notin> set s \<Longrightarrow> split_on c s = [s]"
  by (induction s) auto

lemma split_on_append: "c \<notin> set s \<Longrightarrow> split_on c (s @ c # t) = s # split_on c t"
  by (induction s) auto

lemma dropWhile_none: "list_all (\<lambda>c. \<not> P c) s \<Longrightarrow> dropWhile P s = s"
  by (cases s) auto

lemma trim_plain: "list_all (\<lambda>c. \<not> js_space c) s \<Longrightarrow> trim s = s"
  by (simp add: trim_def dropWhile_none)

lemma word_class_plain: "word_class c \<or> c = CHR ''_'' \<or> c = CHR ''-'' \<Longrightarrow> \<not> js_space c \<and> c \<noteq> CHR ''='' \<and> c \<noteq> CHR '';''"
  by (auto simp: word_class_def js_space_def Let_def)

lemma session_pair_value:
  assumes "sessionTokenPattern v"
  shows "session_value (SESSION_COOKIE_NAME @ ''='' @ v) = [v]" "CHR '';'' \<notin> set (SESSION_COOKIE_NAME @ ''='' @ v)"
proof -
  let ?n = SESSION_COOKIE_NAME
  have v: "list_all (\<lambda>c. \<not> js_space c \<and> c \<noteq> CHR ''='' \<and> c \<noteq> CHR '';'') v"
    using assms word_class_plain by (auto simp: sessionTokenPattern_def list_all_iff)
  have n: "list_all (\<lambda>c. \<not> js_space c \<and> c \<noteq> CHR ''='' \<and> c \<noteq> CHR '';'') ?n"
    by (simp add: SESSION_COOKIE_NAME_def js_space_def)
  show "CHR '';'' \<notin> set (?n @ ''='' @ v)" using v n by (auto simp: list_all_iff)
  have "list_all (\<lambda>c. \<not> js_space c) (?n @ ''='' @ v)" using v n by (auto simp: list_all_iff js_space_def)
  then have "trim (?n @ ''='' @ v) = ?n @ ''='' @ v" by (rule trim_plain)
  moreover have "takeWhile (\<lambda>c. c \<noteq> CHR ''='') (?n @ ''='' @ v) = ?n" "dropWhile (\<lambda>c. c \<noteq> CHR ''='') (?n @ ''='' @ v) = ''='' @ v"
    using n by (auto simp: takeWhile_append list_all_iff)
  ultimately show "session_value (?n @ ''='' @ v) = [v]"
    by (simp add: session_value_def cookie_pair_def) (simp add: SESSION_COOKIE_NAME_def)
qed


lemma token_pattern_session: "TOKEN_PATTERN v \<Longrightarrow> sessionTokenPattern v"
proof -
  have "list_all (\<lambda>c. word_class c \<or> c = CHR ''_'' \<or> c = CHR ''-'') base64url_alphabet" by code_simp
  then have "token_class c \<Longrightarrow> word_class c \<or> c = CHR ''_'' \<or> c = CHR ''-''" for c
    by (auto simp: token_class_def list_all_iff)
  then show "TOKEN_PATTERN v \<Longrightarrow> sessionTokenPattern v"
    by (auto simp: TOKEN_PATTERN_def sessionTokenPattern_def list_all_iff)
qed

lemma byteLength_append [simp]: "byteLength [] = 0" "byteLength (s @ t) = byteLength s + byteLength t"
  by (simp_all add: byteLength_def)

lemma byteLength_bound: "byteLength s \<le> 2 * length s"
  by (induction s) (auto simp: byteLength_def)

lemma header_values_append:
  "even (length pre) \<Longrightarrow> header_values w (pre @ post) = header_values w pre @ header_values w post"
  by (induction pre rule: header_pairs.induct) auto

text \<open>What a client sends back of a \<open>Set-Cookie\<close> line: the part up to the first semicolon.\<close>

definition returned_cookie :: "string \<Rightarrow> string" where
  "returned_cookie line = hd (split_on (CHR '';'') line)"

lemma returned_pair:
  assumes "setSessionCookie v base secure = Some line"
  shows "returned_cookie line = SESSION_COOKIE_NAME @ ''='' @ v" "TOKEN_PATTERN v"
proof -
  show t: "TOKEN_PATTERN v" using assms by (auto simp: setSessionCookie_def split: if_splits)
  obtain rest where "line = (SESSION_COOKIE_NAME @ ''='' @ v) @ CHR '';'' # rest"
    using assms by (auto simp: setSessionCookie_def serializeCookie_def join_parts_def split: if_splits)
  then show "returned_cookie line = SESSION_COOKIE_NAME @ ''='' @ v"
    unfolding returned_cookie_def using split_on_append [OF session_pair_value(2) [OF token_pattern_session [OF t]], of rest] by simp
qed

text \<open>
  The cookie the server sets is the cookie it reads: when a client sends back what it was given, in a
  request without another cookie line and within the header limits, the session value is read unchanged.
\<close>

theorem session_cookie_roundtrip:
  assumes "setSessionCookie v base secure = Some line"
    and "even (length pre)" "even (length post)" "header_values ''cookie'' (pre @ post) = []"
    and "length pre + length post + 2 \<le> MAX_RAW_HEADER_ITEMS"
    and "header_bytes pre + header_bytes post + 200 \<le> MAX_RAW_HEADER_BYTES"
  shows "readSessionCookie (pre @ [''Cookie'', returned_cookie line] @ post) = Some v"
proof -
  let ?p = "SESSION_COOKIE_NAME @ ''='' @ v" and ?h = "pre @ [''Cookie'', returned_cookie line] @ post"
  note r = returned_pair [OF assms(1)]
  note p = session_pair_value [OF token_pattern_session [OF r(2)]]
  have len: "length ?p = 64" using r(2) by (simp add: TOKEN_PATTERN_def SESSION_COOKIE_NAME_def)
  have b: "byteLength ?p \<le> 128" "byteLength v \<le> 86"
    using byteLength_bound [of ?p] byteLength_bound [of v] len r(2) by (simp_all add: TOKEN_PATTERN_def)
  have low: "toLowerCase ''Cookie'' = ''cookie''" by code_simp
  have vals: "header_values ''cookie'' ?h = [?p]"
    using assms(2-4) low by (simp add: header_values_append r(1))
  have texts: "cookie_texts ?h = [?p]" unfolding cookie_texts_def vals using split_on_none [OF p(2)] by simp
  have "header_bytes ?h \<le> MAX_RAW_HEADER_BYTES"
    using assms(6) b(1) by (simp add: header_bytes_def r(1)) (simp add: byteLength_def)
  then have "cookie_limits ?h"
    unfolding cookie_limits_def vals texts using assms(2,3,5) b
    by (simp add: MAX_COOKIE_FIELD_LINES_def MAX_COOKIE_HEADER_BYTES_def MAX_COOKIE_PAIRS_def del: byteLength_append)
  moreover have "session_values ?h = [v]" unfolding session_values_def texts using p(1) by simp
  ultimately show ?thesis
    using b token_pattern_session [OF r(2)] unfolding read_cookie_eq by (simp add: MAX_SESSION_COOKIE_BYTES_def)
qed


definition example_token :: string where
  "example_token = replicate 43 CHR ''k''"

theorem session_cookie_roundtrip_witness:
  "setSessionCookie example_token ''/t'' True =
     Some (''flanterminal_session='' @ example_token @ ''; Path=/t; HttpOnly; Secure; SameSite=Strict'') \<and>
   readSessionCookie [''Host'', ''h'', ''Cookie'', ''flanterminal_session='' @ example_token] = Some example_token"
proof -
  have s: "setSessionCookie example_token ''/t'' True =
      Some (''flanterminal_session='' @ example_token @ ''; Path=/t; HttpOnly; Secure; SameSite=Strict'')" by code_simp
  have r: "returned_cookie (''flanterminal_session='' @ example_token @ ''; Path=/t; HttpOnly; Secure; SameSite=Strict'') =
      ''flanterminal_session='' @ example_token" by code_simp
  have h: "header_values ''cookie'' [''Host'', ''h''] = []" by code_simp
  have b: "header_bytes [''Host'', ''h''] = 5" by code_simp
  show ?thesis using session_cookie_roundtrip [OF s, of "[''Host'', ''h'']" "[]"] s r h b
    by (simp add: MAX_RAW_HEADER_ITEMS_def MAX_RAW_HEADER_BYTES_def)
qed

end
