(* ===== verification/AuthMiddleware.thy ===== *)
theory AuthMiddleware
  imports Headers AuthService
begin

text \<open>
  The request guards, \<open>auth-middleware.ts\<close>, on the session service: authentication of a request by its
  session cookie and, behind an upstream proxy, by the identity the proxy vouches for; the checks on
  mutating requests; the activity mark; and the authenticator the WebSocket endpoint uses.

  Both resolutions await the upstream provider between two reads of the session. What the service does in
  the meantime is the argument \<open>meanwhile\<close>, an arbitrary sequence of its operations. A provider is a
  parameter of the options: the identity it settles with, or \<open>None\<close> when it rejects. A handler answers
  \<open>Next\<close> when it calls the next handler and \<open>Reject\<close> with what it responds.
\<close>

declare map_of_eq_Some_iff [simp del] Some_eq_map_of_iff [simp del]

section \<open>Requests and options\<close>

record http_request =
  rq_method :: string
  rq_raw :: "string list"
  rq_remote :: "string option"

type_synonym identity_provider = "(http_request \<Rightarrow> UpstreamIdentity option) option"

record AuthMiddlewareOptions =
  mw_mode :: AuthMode
  mw_publicOrigin :: string
  cloudflareAccessProvider :: identity_provider
  trustedHeaderProvider :: identity_provider

record AuthenticatedLocals =
  authSession :: AuthenticatedSession
  upstreamIdentity :: "UpstreamIdentity option"

datatype 'a mw_outcome = Next 'a | Reject nat string

section \<open>Identities\<close>

definition identityMatches :: "AuthenticatedSession \<Rightarrow> UpstreamIdentity option \<Rightarrow> bool" where
  "identityMatches session upstream =
     (if view_mode session = Local \<or> view_mode session = NoAuth then upstream = None
      else case upstream of
             None \<Rightarrow> False
           | Some i \<Rightarrow> up_mode i = view_mode session \<and> up_label i = view_label session)"

definition sameAuthority :: "AuthenticatedSession \<Rightarrow> AuthenticatedSession \<Rightarrow> bool" where
  "sameAuthority expected current \<longleftrightarrow>
     view_id current = view_id expected \<and> view_mode current = view_mode expected \<and> view_label current = view_label expected"

definition ask_provider :: "identity_provider \<Rightarrow> http_request \<Rightarrow> unit + UpstreamIdentity option" where
  "ask_provider p request =
     (case p of
        None \<Rightarrow> Inl ()
      | Some f \<Rightarrow> (case f request of None \<Rightarrow> Inl () | Some i \<Rightarrow> Inr (Some i)))"

definition currentUpstreamIdentity :: "AuthMiddlewareOptions \<Rightarrow> http_request \<Rightarrow> unit + UpstreamIdentity option" where
  "currentUpstreamIdentity opts request =
     (case mw_mode opts of
        Local \<Rightarrow> Inr None
      | NoAuth \<Rightarrow> Inr None
      | CloudflareAccess \<Rightarrow> ask_provider (cloudflareAccessProvider opts) request
      | TrustedHeader \<Rightarrow> ask_provider (trustedHeaderProvider opts) request)"

definition upstreamAuthentication :: "AuthMiddlewareOptions \<Rightarrow> http_request \<Rightarrow> unit + UpstreamAuthentication" where
  "upstreamAuthentication opts request =
     (case currentUpstreamIdentity opts request of
        Inl _ \<Rightarrow> Inl ()
      | Inr None \<Rightarrow> Inr NoUpstream
      | Inr (Some i) \<Rightarrow> Inr (UpstreamIdentified i))"

section \<open>Authentication of a request\<close>

definition resolve_begin ::
  "'w auth_env \<Rightarrow> AuthMiddlewareOptions \<Rightarrow> http_request \<Rightarrow> ('w, (string \<times> AuthenticatedSession) option) auth"
where
  "resolve_begin E opts request =
     (case readSessionCookie (rq_raw request) of
        None \<Rightarrow> ret None
      | Some cookie \<Rightarrow>
          bind (authenticateCookie E (Some cookie)) (\<lambda>session.
          case session of
            None \<Rightarrow> ret None
          | Some v \<Rightarrow> ret (if view_mode v \<noteq> mw_mode opts then None else Some (cookie, v))))"

definition resolve_end ::
  "'w auth_env \<Rightarrow> string \<Rightarrow> AuthenticatedSession \<Rightarrow> UpstreamIdentity option \<Rightarrow> ('w, AuthenticatedLocals option) auth"
where
  "resolve_end E cookie session upstream =
     (if \<not> identityMatches session upstream then ret None
      else
        bind (authenticateCookie E (Some cookie)) (\<lambda>current.
        case current of
          None \<Rightarrow> ret None
        | Some c \<Rightarrow>
            ret (if \<not> sameAuthority session c \<or> \<not> identityMatches c upstream then None
                 else Some \<lparr>authSession = c, upstreamIdentity = upstream\<rparr>)))"

definition resolveAuthentication ::
  "'w auth_env \<Rightarrow> AuthMiddlewareOptions \<Rightarrow> ('w AuthService \<Rightarrow> 'w AuthService) \<Rightarrow> http_request
   \<Rightarrow> ('w, AuthenticatedLocals option) auth"
where
  "resolveAuthentication E opts meanwhile request =
     bind (resolve_begin E opts request) (\<lambda>found.
     case found of
       None \<Rightarrow> ret None
     | Some (cookie, session) \<Rightarrow>
         bind (modify meanwhile) (\<lambda>_.
         case currentUpstreamIdentity opts request of
           Inl _ \<Rightarrow> throw AuthServiceError
         | Inr upstream \<Rightarrow> resolve_end E cookie session upstream))"

definition requireAuthentication ::
  "'w auth_env \<Rightarrow> AuthMiddlewareOptions \<Rightarrow> ('w AuthService \<Rightarrow> 'w AuthService) \<Rightarrow> http_request
   \<Rightarrow> ('w, AuthenticatedLocals mw_outcome) auth"
where
  "requireAuthentication E opts meanwhile request =
     catch
       (bind (resolveAuthentication E opts meanwhile request) (\<lambda>resolved.
        ret (case resolved of None \<Rightarrow> Reject 401 ''authentication_required'' | Some l \<Rightarrow> Next l)))
       (\<lambda>_. ret (Reject 401 ''authentication_required''))"

section \<open>Mutations and activity\<close>

definition requirePublicMutationSecurity :: "AuthMiddlewareOptions \<Rightarrow> http_request \<Rightarrow> unit mw_outcome" where
  "requirePublicMutationSecurity opts request =
     (if \<not> hasExactHeader (rq_raw request) ''origin'' (mw_publicOrigin opts) then Reject 403 ''origin_forbidden''
      else if \<not> hasJsonContentType (rq_raw request) then Reject 415 ''json_required''
      else Next ())"

definition requireMutationSecurity ::
  "'w auth_env \<Rightarrow> AuthMiddlewareOptions \<Rightarrow> http_request \<Rightarrow> AuthenticatedSession option \<Rightarrow> ('w, unit mw_outcome) auth"
where
  "requireMutationSecurity E opts request session =
     (if \<not> hasExactHeader (rq_raw request) ''origin'' (mw_publicOrigin opts) then ret (Reject 403 ''origin_forbidden'')
      else if rq_method request \<noteq> ''DELETE'' \<and> \<not> hasJsonContentType (rq_raw request) then ret (Reject 415 ''json_required'')
      else
        (case (session, oneBoundedHeader (rq_raw request) CSRF_HEADER_NAME MAX_CSRF_BYTES visibleAsciiPattern) of
           (Some v, Some csrf) \<Rightarrow>
             bind (verifyCsrf E (view_id v) (Some csrf)) (\<lambda>ok. ret (if ok then Next () else Reject 403 ''csrf_invalid''))
         | _ \<Rightarrow> ret (Reject 403 ''csrf_invalid'')))"

definition touchHttpActivity ::
  "'w auth_env \<Rightarrow> http_request \<Rightarrow> AuthenticatedSession option \<Rightarrow> UpstreamIdentity option
   \<Rightarrow> ('w, AuthenticatedSession mw_outcome) auth"
where
  "touchHttpActivity E request session upstream =
     (case session of
        None \<Rightarrow> ret (Reject 401 ''authentication_required'')
      | Some v \<Rightarrow>
          bind (attempt (authenticateCookie E (readSessionCookie (rq_raw request)))) (\<lambda>answer.
          case answer of
            Inr (Some current) \<Rightarrow>
              if \<not> sameAuthority v current \<or> \<not> identityMatches current upstream
              then ret (Reject 401 ''authentication_required'')
              else
                bind (attempt (touch_session E (view_id current))) (\<lambda>touched.
                ret (case touched of Inl _ \<Rightarrow> Reject 500 ''operation_failed'' | Inr _ \<Rightarrow> Next current))
          | _ \<Rightarrow> ret (Reject 401 ''authentication_required'')))"

section \<open>The WebSocket upgrade authenticator\<close>

definition upgrade_resolve_begin ::
  "'w auth_env \<Rightarrow> AuthMiddlewareOptions \<Rightarrow> http_request
   \<Rightarrow> ('w, (string \<times> AuthenticatedSession \<times> nat) option) auth"
where
  "upgrade_resolve_begin E opts request =
     (case readSessionCookie (rq_raw request) of
        None \<Rightarrow> ret None
      | Some cookie \<Rightarrow>
          bind (authenticateAuthority E (Some cookie)) (\<lambda>found.
          case found of
            None \<Rightarrow> ret None
          | Some (v, g) \<Rightarrow> ret (if view_mode v \<noteq> mw_mode opts then None else Some (cookie, v, g))))"

text \<open>\<open>Math.min\<close> over the deadlines; both session deadlines are finite.\<close>

definition authority_expiry :: "AuthenticatedSession \<Rightarrow> real" where
  "authority_expiry v =
     (let m = min (view_idleExpiresAt v) (view_absoluteExpiresAt v)
      in case view_upstreamExpiresAt v of None \<Rightarrow> m | Some u \<Rightarrow> min m u)"

definition upgrade_resolve_end ::
  "'w auth_env \<Rightarrow> string \<Rightarrow> AuthenticatedSession \<Rightarrow> nat \<Rightarrow> UpstreamIdentity option \<Rightarrow> ('w, (string \<times> nat \<times> real) option) auth"
where
  "upgrade_resolve_end E cookie first g upstream =
     (if \<not> identityMatches first upstream then ret None
      else
        bind (authenticateAuthority E (Some cookie)) (\<lambda>current.
        case current of
          None \<Rightarrow> ret None
        | Some (c, h) \<Rightarrow>
            ret (if h \<noteq> g \<or> \<not> sameAuthority first c \<or> \<not> identityMatches c upstream then None
                 else Some (view_id c, h, authority_expiry c))))"

text \<open>The method \<open>authenticate\<close>: no exception escapes.\<close>

definition upgrade_authenticate ::
  "'w auth_env \<Rightarrow> AuthMiddlewareOptions \<Rightarrow> ('w AuthService \<Rightarrow> 'w AuthService) \<Rightarrow> http_request
   \<Rightarrow> ('w, (string \<times> nat \<times> real) option) auth"
where
  "upgrade_authenticate E opts meanwhile request =
     catch
       (bind (upgrade_resolve_begin E opts request) (\<lambda>found.
        case found of
          None \<Rightarrow> ret None
        | Some (cookie, first, g) \<Rightarrow>
            bind (modify meanwhile) (\<lambda>_.
            case currentUpstreamIdentity opts request of
              Inl _ \<Rightarrow> throw AuthServiceError
            | Inr upstream \<Rightarrow> upgrade_resolve_end E cookie first g upstream)))
       (\<lambda>_. ret None)"

definition safeAuthorityCheck :: "'w auth_env \<Rightarrow> string \<Rightarrow> nat \<Rightarrow> ('w, bool) auth" where
  "safeAuthorityCheck E i g = catch (isActiveAuthority E i g) (\<lambda>_. ret False)"

definition touchInput :: "'w auth_env \<Rightarrow> string \<Rightarrow> nat \<Rightarrow> ('w, bool) auth" where
  "touchInput E i g = catch (touchAuthority E i g) (\<lambda>_. ret False)"

section \<open>Facts\<close>

lemma lookupId_live:
  assumes inv: "auth_inv s" and run: "lookupId E i s = (Inr (Some r), t)"
  shows "jm_get (byId s) i = Some r" "objects s r = Some (stored s r)" "stored t = stored s"
    "unexpired_at E s (stored s r)" "same_sessions s t"
proof -
  note l = lookup_specD [OF lookupId_spec inv run]
  show st: "stored t = stored s" using same_sessions_live(2) [OF l(3)] .
  show "jm_get (byId s) i = Some r"
    using run by (auto simp: lookupId_def em_simps split: if_splits option.splits prod.splits sum.splits)
  show "objects s r = Some (stored s r)" using l(3,5) st by (simp add: same_sessions_def)
  show "unexpired_at E s (stored s r)" using l(6) by (auto simp: unexpired_at_def expiredReasonAt_None)
  show "same_sessions s t" using l by simp
qed

lemma matching_header_values: "matching_values wanted hdrs = Some vs \<Longrightarrow> vs = header_values wanted hdrs"
  by (induction wanted hdrs arbitrary: vs rule: matching_values.induct)
    (auto simp: header_values_def split: option.splits if_splits)

lemma one_header_value:
  assumes "oneBoundedHeader hdrs wanted n pattern = Some v"
  shows "header_values wanted hdrs = [v]" "byteLength v \<le> n" "pattern v"
  using assms matching_header_values [of wanted hdrs]
  by (auto simp: oneBoundedHeader_def split: option.splits list.splits if_splits)

lemma cookie_found:
  assumes "readSessionCookie hdrs = Some c"
  shows "session_values hdrs = [c]" "cookie_limits hdrs"
  using assms by (auto simp: read_cookie_eq split: if_splits list.splits)

lemma authenticateCookie_live:
  assumes "auth_inv s" and "authenticateCookie E (Some c) s = (Inr (Some v), t)"
  obtains r where "jm_get (byDigest s) (sha256 E c) = Some r" "objects s r = Some (stored s r)" "v = view (stored s r)"
    "unexpired_at E s (stored s r)" "same_sessions s t" "auth_inv t"
proof -
  obtain r where run: "lookupCookie E (Some c) s = (Inr (Some r), t)" and v: "v = view (stored t r)"
    using assms(2) by (auto simp: authenticateCookie_def em_simps split: prod.splits sum.splits option.splits)
  from lookupCookie_live [OF assms(1) run] v show thesis by (intro that [of r]) simp_all
qed

section \<open>Properties\<close>

text \<open>The state in which the session is read for the second time.\<close>

definition second_read ::
  "'w auth_env \<Rightarrow> AuthMiddlewareOptions \<Rightarrow> ('w AuthService \<Rightarrow> 'w AuthService) \<Rightarrow> http_request \<Rightarrow> 'w AuthService \<Rightarrow> 'w AuthService"
where
  "second_read E opts meanwhile request s = meanwhile (snd (resolve_begin E opts request s))"

lemma resolve_begin_inv: "auth_inv s \<Longrightarrow> auth_inv (snd (resolve_begin E opts request s))"
proof -
  have "sessions.keeps (resolve_begin E opts request)"
    unfolding resolve_begin_def by (intro sessions.keeps_intros keeps_authenticateCookie)
  then show "auth_inv s \<Longrightarrow> auth_inv (snd (resolve_begin E opts request s))" by (simp add: sessions.keepsD)
qed

lemma resolve_run:
  assumes "resolveAuthentication E opts meanwhile request s = (Inr (Some l), t)"
  obtains cookie v upstream where "readSessionCookie (rq_raw request) = Some cookie" "view_mode v = mw_mode opts"
    "currentUpstreamIdentity opts request = Inr upstream" "sameAuthority v (authSession l)"
    "identityMatches (authSession l) upstream" "upstreamIdentity l = upstream"
    "authenticateCookie E (Some cookie) (second_read E opts meanwhile request s) = (Inr (Some (authSession l)), t)"
proof -
  obtain p u where b: "resolve_begin E opts request s = (Inr p, u)"
    using assms by (auto simp: resolveAuthentication_def bind_Inr)
  with assms obtain cookie v where p: "p = Some (cookie, v)"
    by (cases p) (auto simp: resolveAuthentication_def bind_apply ret_def)
  from assms b p obtain upstream where up: "currentUpstreamIdentity opts request = Inr upstream"
    and e: "resolve_end E cookie v upstream (meanwhile u) = (Inr (Some l), t)"
    by (cases "currentUpstreamIdentity opts request")
      (auto simp: resolveAuthentication_def bind_apply modify_def throw_def)
  have v: "readSessionCookie (rq_raw request) = Some cookie" "view_mode v = mw_mode opts"
    using b p by (auto simp: resolve_begin_def run_simps split: option.splits if_splits)
  have u: "meanwhile u = second_read E opts meanwhile request s" using b by (simp add: second_read_def)
  from e obtain cur where a: "authenticateCookie E (Some cookie) (meanwhile u) = (Inr cur, t)"
    and k: "identityMatches v upstream" by (auto simp: resolve_end_def run_simps split: if_splits option.splits)
  with e have "\<exists>c. cur = Some c \<and> sameAuthority v c \<and> identityMatches c upstream \<and> l = \<lparr>authSession = c, upstreamIdentity = upstream\<rparr>"
    by (cases cur) (auto simp: resolve_end_def bind_apply ret_def split: if_splits)
  with a that [OF v up] show thesis by (auto simp: u)
qed

text \<open>
  C3. A request is authenticated only by a single session cookie that, when it is read again after the upstream
  provider has answered, belongs to a filed session that has reached none of its deadlines, was
  established in the configured mode and, behind an upstream proxy, has the identity the proxy vouches for.
\<close>

theorem request_authentication_sound:
  assumes "make_auth E m u cb i a n ob w = Some s0" and "s = auth_run E es s0"
    and "resolveAuthentication E opts (auth_run E es') request s = (Inr (Some l), t)"
    and "s1 = second_read E opts (auth_run E es') request s"
  shows "\<exists>cookie r x. session_values (rq_raw request) = [cookie] \<and> jm_get (byDigest s1) (sha256 E cookie) = Some r \<and>
    objects s1 r = Some x \<and> authSession l = view x \<and> unexpired_at E s1 x \<and> stored_mode x = mw_mode opts \<and>
    (case upstreamIdentity l of
       None \<Rightarrow> mw_mode opts = Local \<or> mw_mode opts = NoAuth
     | Some y \<Rightarrow> currentUpstreamIdentity opts request = Inr (Some y) \<and> up_mode y = mw_mode opts \<and> up_label y = identityLabel x)"
proof -
  from resolve_run [OF assms(3)] obtain cookie v upstream where c: "readSessionCookie (rq_raw request) = Some cookie"
    "view_mode v = mw_mode opts" "currentUpstreamIdentity opts request = Inr upstream" "sameAuthority v (authSession l)"
    "identityMatches (authSession l) upstream" "upstreamIdentity l = upstream"
    "authenticateCookie E (Some cookie) s1 = (Inr (Some (authSession l)), t)" unfolding assms(4) by blast
  have "auth_inv s1" unfolding assms(4) second_read_def
    using auth_run_inv resolve_begin_inv [OF reachable_inv(1) [OF assms(1,2)]] by blast
  from authenticateCookie_live [OF this c(7)] obtain r where r: "jm_get (byDigest s1) (sha256 E cookie) = Some r"
    "objects s1 r = Some (stored s1 r)" "authSession l = view (stored s1 r)" "unexpired_at E s1 (stored s1 r)" by blast
  then have md: "stored_mode (stored s1 r) = mw_mode opts" using c(2,4) by (simp add: sameAuthority_def view_def)
  have "case upstream of None \<Rightarrow> mw_mode opts = Local \<or> mw_mode opts = NoAuth
      | Some y \<Rightarrow> currentUpstreamIdentity opts request = Inr (Some y) \<and> up_mode y = mw_mode opts \<and> up_label y = identityLabel (stored s1 r)"
    using c(3,5) md r(3) by (auto simp: identityMatches_def view_def split: option.splits if_splits)
  with c(6) r md cookie_found(1) [OF c(1)] show ?thesis by blast
qed


lemma json_content_type:
  assumes "hasJsonContentType hdrs"
  obtains val where "header_values ''content-type'' hdrs = [val]"
    "toLowerCase (trim (takeWhile (\<lambda>c. c \<noteq> CHR '';'') val)) = ''application/json''"
    "length (filter (\<lambda>c. c = CHR '';'') val) \<le> 1"
proof -
  from assms obtain val m ps where v: "oneBoundedHeader hdrs ''content-type'' 128 headerAsciiPattern = Some val"
    "split_on (CHR '';'') val = m # ps" "toLowerCase (trim m) = ''application/json''" "length ps \<le> 1"
    by (auto simp: hasJsonContentType_def split: option.splits list.splits if_splits)
  from that [OF one_header_value(1) [OF v(1)]] v(3,4) split_on_parts [OF v(2)] show thesis by simp
qed

text \<open>
  C4. A mutating request passes the guard only with exactly one \<open>Origin\<close> header, the configured origin;
  unless it is a \<open>DELETE\<close>, with exactly one \<open>Content-Type\<close> header, whose media type is
  \<open>application/json\<close> with at most one parameter; and with exactly one CSRF token, whose digest is the one
  recorded for the session with that id, filed and unexpired at that moment.
\<close>

theorem mutation_guarded:
  assumes "make_auth E m u cb i a n ob w = Some s0" and "s = auth_run E es s0"
    and "requireMutationSecurity E opts request (Some v) s = (Inr (Next ()), t)"
  shows "header_values ''origin'' (rq_raw request) = [mw_publicOrigin opts] \<and>
    (rq_method request = ''DELETE'' \<or>
     (\<exists>val. header_values ''content-type'' (rq_raw request) = [val] \<and>
        toLowerCase (trim (takeWhile (\<lambda>c. c \<noteq> CHR '';'') val)) = ''application/json'' \<and>
        length (filter (\<lambda>c. c = CHR '';'') val) \<le> 1)) \<and>
    (\<exists>csrf r x. header_values CSRF_HEADER_NAME (rq_raw request) = [csrf] \<and> jm_get (byId s) (view_id v) = Some r \<and>
       objects s r = Some x \<and> unexpired_at E s x \<and>
       jm_get (records (csrf_service t)) (csrf_record x) = Some (sha256 E csrf))"
proof -
  have g: "hasExactHeader (rq_raw request) ''origin'' (mw_publicOrigin opts)"
    "rq_method request = ''DELETE'' \<or> hasJsonContentType (rq_raw request)"
    using assms(3) by (auto simp: requireMutationSecurity_def ret_def split: if_splits)
  from g assms(3) obtain csrf where h: "oneBoundedHeader (rq_raw request) CSRF_HEADER_NAME MAX_CSRF_BYTES visibleAsciiPattern = Some csrf"
    by (cases "oneBoundedHeader (rq_raw request) CSRF_HEADER_NAME MAX_CSRF_BYTES visibleAsciiPattern")
      (auto simp: requireMutationSecurity_def ret_def)
  with g assms(3) have "verifyCsrf E (view_id v) (Some csrf) s = (Inr True, t)"
    by (auto simp: requireMutationSecurity_def run_simps split: if_splits)
  then obtain r where r: "lookupId E (view_id v) s = (Inr (Some r), t)"
    and "csrf_verify (sha256 E) (csrf_service t) (csrf_record (stored t r)) (Some csrf)"
    by (auto simp: verifyCsrf_def run_simps split: option.splits)
  then have k: "jm_get (records (csrf_service t)) (csrf_record (stored t r)) = Some (sha256 E csrf)"
    by (auto simp: csrf_verify_def split: option.splits if_splits)
  note l = lookupId_live [OF reachable_inv(1) [OF assms(1,2)] r]
  from g(1) have "header_values ''origin'' (rq_raw request) = [mw_publicOrigin opts]"
    by (simp add: hasExactHeader_def one_header_value)
  moreover from g(2) have "rq_method request = ''DELETE'' \<or>
     (\<exists>val. header_values ''content-type'' (rq_raw request) = [val] \<and>
        toLowerCase (trim (takeWhile (\<lambda>c. c \<noteq> CHR '';'') val)) = ''application/json'' \<and>
        length (filter (\<lambda>c. c = CHR '';'') val) \<le> 1)"
    by (auto elim: json_content_type)
  ultimately show ?thesis using l k one_header_value(1) [OF h] by auto
qed

text \<open>The upgrade authenticator.\<close>

definition upgrade_second_read ::
  "'w auth_env \<Rightarrow> AuthMiddlewareOptions \<Rightarrow> ('w AuthService \<Rightarrow> 'w AuthService) \<Rightarrow> http_request \<Rightarrow> 'w AuthService \<Rightarrow> 'w AuthService"
where
  "upgrade_second_read E opts meanwhile request s = meanwhile (snd (upgrade_resolve_begin E opts request s))"

lemma upgrade_begin_inv: "auth_inv s \<Longrightarrow> auth_inv (snd (upgrade_resolve_begin E opts request s))"
proof -
  have "sessions.keeps (upgrade_resolve_begin E opts request)"
    unfolding upgrade_resolve_begin_def by (intro sessions.keeps_intros keeps_authenticateAuthority)
  then show "auth_inv s \<Longrightarrow> auth_inv (snd (upgrade_resolve_begin E opts request s))" by (simp add: sessions.keepsD)
qed

lemma upgrade_authenticate_run:
  assumes "upgrade_authenticate E opts meanwhile request s = (Inr (Some (k, g, e)), t)"
  obtains cookie v c where "readSessionCookie (rq_raw request) = Some cookie" "view_mode v = mw_mode opts" "sameAuthority v c"
    "view_id c = k" "authority_expiry c = e"
    "authenticateAuthority E (Some cookie) (upgrade_second_read E opts meanwhile request s) = (Inr (Some (c, g)), t)"
proof -
  obtain p u where b: "upgrade_resolve_begin E opts request s = (Inr p, u)"
    using assms by (cases "upgrade_resolve_begin E opts request s")
      (auto simp: upgrade_authenticate_def catch_apply bind_apply ret_def split: sum.splits)
  with assms obtain cookie v h where p: "p = Some (cookie, v, h)"
    by (cases p) (auto simp: upgrade_authenticate_def catch_apply bind_apply ret_def)
  have v: "readSessionCookie (rq_raw request) = Some cookie" "view_mode v = mw_mode opts"
    using b p by (auto simp: upgrade_resolve_begin_def run_simps split: option.splits if_splits prod.splits)
  from assms b p obtain upstream where up: "currentUpstreamIdentity opts request = Inr upstream"
    and e: "upgrade_resolve_end E cookie v h upstream (meanwhile u) = (Inr (Some (k, g, e)), t)"
    by (cases "currentUpstreamIdentity opts request")
      (auto simp: upgrade_authenticate_def catch_apply bind_apply modify_def throw_def ret_def split: prod.splits sum.splits)
  from e obtain cur where a: "authenticateAuthority E (Some cookie) (meanwhile u) = (Inr cur, t)"
    and k: "identityMatches v upstream" by (auto simp: upgrade_resolve_end_def run_simps split: if_splits option.splits)
  with e obtain c where "cur = Some (c, g)" "sameAuthority v c" "view_id c = k" "authority_expiry c = e"
    by (cases cur) (auto simp: upgrade_resolve_end_def bind_apply ret_def split: if_splits prod.splits)
  with a b that [OF v] show thesis by (simp add: upgrade_second_read_def)
qed

text \<open>
  The authority the endpoint is given for a WebSocket is that of a filed session of the configured mode: right
  after the authenticator has answered, the session has this id and this generation, it had reached none of
  its deadlines when it was read, and the announced expiry is the first of them.
\<close>

theorem upgrade_authority_sound:
  assumes "make_auth E m u cb i a n ob w = Some s0" and "s = auth_run E es s0"
    and "upgrade_authenticate E opts (auth_run E es') request s = (Inr (Some (k, g, e)), t)"
  shows "\<exists>r x. jm_get (byId t) k = Some r \<and> objects t r = Some x \<and> stored_generation x = g \<and> stored_mode x = mw_mode opts \<and>
    unexpired_at E (upgrade_second_read E opts (auth_run E es') request s) x \<and>
    e \<le> idleExpiresAt x \<and> e \<le> absoluteExpiresAt x \<and> (case upstreamExpiresAt x of None \<Rightarrow> True | Some d \<Rightarrow> e \<le> d) \<and>
    (e = idleExpiresAt x \<or> e = absoluteExpiresAt x \<or> Some e = upstreamExpiresAt x)"
proof -
  let ?s1 = "upgrade_second_read E opts (auth_run E es') request s"
  from upgrade_authenticate_run [OF assms(3)] obtain cookie v c where c: "view_mode v = mw_mode opts" "sameAuthority v c"
    "view_id c = k" "authority_expiry c = e" "authenticateAuthority E (Some cookie) ?s1 = (Inr (Some (c, g)), t)" by blast
  have inv: "auth_inv ?s1" unfolding upgrade_second_read_def
    using auth_run_inv upgrade_begin_inv [OF reachable_inv(1) [OF assms(1,2)]] by blast
  from c(5) obtain r where r: "lookupCookie E (Some cookie) ?s1 = (Inr (Some r), t)" "(c, g) = authorityView (stored t r)"
    by (auto simp: authenticateAuthority_def run_simps split: option.splits)
  note l = lookupCookie_live [OF inv r(1)]
  define x where "x = stored t r"
  have ob: "objects t r = Some x" using l(2,3,5) by (simp add: x_def same_sessions_def)
  have "jm_get (byId t) (stored_id x) = Some r" using l(1,5,6) ob by (auto simp: auth_inv_def maps_ok_def same_sessions_def x_def)
  moreover have "c = view x" "g = stored_generation x" using r(2) by (simp_all add: authorityView_def x_def)
  ultimately show ?thesis using c ob l(3,4)
    by (intro exI [of _ r] exI [of _ x])
      (auto simp: sameAuthority_def view_def authority_expiry_def Let_def x_def min_def split: option.splits if_splits)
qed


section \<open>Examples\<close>

definition example_cookie_value :: string where
  "example_cookie_value = base64url (replicate 32 0)"

definition example_http :: http_request where
  "example_http = \<lparr>rq_method = ''POST'', rq_raw = [''Origin'', ''https://h'', ''Content-Type'', ''application/json; charset=utf-8'',
     ''X-CSRF-Token'', base64url (replicate 32 2), ''Cookie'', ''theme=dark; flanterminal_session='' @ example_cookie_value],
     rq_remote = None\<rparr>"

definition example_opts :: AuthMiddlewareOptions where
  "example_opts = \<lparr>mw_mode = Local, mw_publicOrigin = ''https://h'', cloudflareAccessProvider = None, trustedHeaderProvider = None\<rparr>"

lemma example_read: "readSessionCookie (rq_raw example_http) = Some example_cookie_value"
  by code_simp

lemma example_mode: "view_mode (view example_stored) = Local"
  by (simp add: view_def example_stored_def)

lemma example_begin: "resolve_begin example_auth_env example_opts example_http example_session =
    (Inr (Some (example_cookie_value, view example_stored)), example_session)"
  using example_cookie_lookup [folded example_cookie_value_def] example_mode
  by (simp add: resolve_begin_def example_read bind_apply ret_def) (simp add: example_opts_def)

lemma example_resolves: "resolveAuthentication example_auth_env example_opts (auth_run example_auth_env []) example_http example_session =
    (Inr (Some \<lparr>authSession = view example_stored, upstreamIdentity = None\<rparr>), example_session)"
  using example_cookie_lookup [folded example_cookie_value_def] example_mode
  by (simp add: resolveAuthentication_def example_begin bind_apply ret_def modify_def auth_run_def currentUpstreamIdentity_def)
    (simp add: example_opts_def resolve_end_def identityMatches_def sameAuthority_def bind_apply ret_def)

theorem request_authentication_sound_witness:
  "\<exists>r x. jm_get (byDigest example_session) (sha256 example_auth_env example_cookie_value) = Some r \<and>
     objects example_session r = Some x \<and> view example_stored = view x \<and> unexpired_at example_auth_env example_session x"
proof -
  have s1: "example_session = second_read example_auth_env example_opts (auth_run example_auth_env []) example_http example_session"
    by (simp add: second_read_def example_begin auth_run_def)
  from request_authentication_sound [OF example_auth_make example_login_run [symmetric] example_resolves s1]
    cookie_found(1) [OF example_read] show ?thesis by auto
qed


lemma example_lookup: "lookupId example_auth_env (view_id (view example_stored)) example_session = (Inr (Some 1), example_session)"
proof -
  have none: "expiredReasonAt example_stored 3 = None" by (simp add: expiredReasonAt_None example_stored_def)
  have i: "view_id (view example_stored) = base64url (replicate 16 1)" by (simp add: view_def example_stored_def)
  show ?thesis unfolding i
    by (simp add: lookupId_def em_simps)
      (simp add: example_session_def em_simps unexpired_def expiredReason_def example_now stored_def none)
qed

lemma example_mutation:
  "requireMutationSecurity example_auth_env example_opts example_http (Some (view example_stored)) example_session =
   (Inr (Next ()), example_session)"
proof -
  have h: "hasExactHeader (rq_raw example_http) ''origin'' ''https://h''" "hasJsonContentType (rq_raw example_http)"
    "oneBoundedHeader (rq_raw example_http) CSRF_HEADER_NAME MAX_CSRF_BYTES visibleAsciiPattern = Some (base64url (replicate 32 2))"
    by code_simp+
  have "csrf_verify (sha256 example_auth_env) (csrf_service example_session) (csrf_record (stored example_session 1))
      (Some (base64url (replicate 32 2)))" by code_simp
  with h example_lookup show ?thesis
    by (simp add: requireMutationSecurity_def verifyCsrf_def em_simps example_opts_def)
qed

theorem mutation_guarded_witness:
  "header_values ''origin'' (rq_raw example_http) = [''https://h'']"
  using mutation_guarded [OF example_auth_make example_login_run [symmetric] example_mutation] by (simp add: example_opts_def)

lemma example_authority: "authenticateAuthority example_auth_env (Some example_cookie_value) example_session =
    (Inr (Some (view example_stored, 1)), example_session)"
proof -
  have "expiredReasonAt example_stored 3 = None" by (simp add: expiredReasonAt_None example_stored_def)
  moreover have "sha256 example_auth_env c = c" for c by (simp add: example_auth_env_def)
  ultimately show ?thesis
    by (simp add: authenticateAuthority_def lookupCookie_def token_pattern_base64url example_cookie_value_def
      bind_apply gets_def ret_def unexpired_def expiredReason_def example_now stored_def authorityView_def)
     (simp add: example_session_def em_simps example_now stored_def example_stored_def authorityView_def)
qed

lemma example_upgrade: "upgrade_authenticate example_auth_env example_opts (auth_run example_auth_env []) example_http example_session =
    (Inr (Some (base64url (replicate 16 1), 1, authority_expiry (view example_stored))), example_session)"
  using example_mode example_authority
  by (simp add: upgrade_authenticate_def upgrade_resolve_begin_def example_read em_simps auth_run_def currentUpstreamIdentity_def)
    (simp add: example_opts_def upgrade_resolve_end_def identityMatches_def sameAuthority_def em_simps view_def example_stored_def)

theorem upgrade_authority_sound_witness:
  "\<exists>r x. jm_get (byId example_session) (base64url (replicate 16 1)) = Some r \<and> objects example_session r = Some x \<and> stored_generation x = 1"
  using upgrade_authority_sound [OF example_auth_make example_login_run [symmetric] example_upgrade] by blast

end
