(* ===== verification/UpstreamProviders.thy ===== *)
theory UpstreamProviders
  imports AuthMiddleware TabDocument "HOL-Library.Monad_Syntax"
begin

text \<open>
  The two providers of upstream identities: \<open>cloudflare-access.ts\<close>, which checks a signed assertion, and
  \<open>trusted-header-auth.ts\<close>, which believes a header when every proxy on the way is trusted. Every exception
  becomes \<open>UpstreamProviderError\<close>, the outcome \<open>None\<close>.

  The packages \<open>jose\<close>, \<open>ipaddr.js\<close> and \<open>proxy-addr\<close>, the URL parser and the Unicode tables are parameters.
\<close>

section \<open>Shared checks\<close>

datatype header_value = HText string | HTexts "string list" | HMissing

type_synonym header_view = "(string \<times> header_value) list"

definition ensure :: "bool \<Rightarrow> unit option" where
  "ensure b = (if b then Some () else None)"

lemma ensure_Some [simp]: "ensure b = Some x \<longleftrightarrow> b" "ensure b = None \<longleftrightarrow> \<not> b"
  by (simp_all add: ensure_def)

definition MAX_HEADER_FIELDS :: nat where "MAX_HEADER_FIELDS = 128"
definition MAX_IDENTITY_BYTES :: nat where "MAX_IDENTITY_BYTES = 128"

text \<open>The class \<open>[\p{Cc}\p{Cf}\p{Cs}\p{Zl}\p{Zp}]\<close>; the format controls come from the Unicode tables.\<close>

definition unsafe_identity :: "text_env \<Rightarrow> nat \<Rightarrow> bool" where
  "unsafe_identity U c \<longleftrightarrow> forbiddenCharacter c \<or> format_control U c"

definition normalizeIdentity :: "text_env \<Rightarrow> ustring \<Rightarrow> ustring option" where
  "normalizeIdentity U v =
     (let n = nfc_form U v
      in if n = [] \<or> utf8ByteLength n > MAX_IDENTITY_BYTES \<or> list_ex (unsafe_identity U) n then None else Some n)"

definition unicode_of :: "string \<Rightarrow> ustring" where
  "unicode_of s = map of_char s"

section \<open>Cloudflare Access\<close>

definition ASSERTION_HEADER :: string where "ASSERTION_HEADER = ''cf-access-jwt-assertion''"
definition MAX_ASSERTION_BYTES :: nat where "MAX_ASSERTION_BYTES = 16 * 1024"

record HostURL = URL +
  port :: string
  hostname :: string

record JwtPayload =
  jwt_alg :: string
  jwt_exp :: "jsnum option"
  jwt_nbf :: "jsnum option"
  jwt_email :: "ustring option"
  jwt_sub :: "ustring option"

record VerifyOptions =
  algorithms :: "string list"
  issuer :: string
  audience :: string
  requiredClaims :: "string list"
  clockTolerance :: int
  currentDate :: real

record CloudflareAccessProvider =
  teamOrigin :: string
  cf_audience :: string
  clockToleranceSeconds :: int
  maxTokenLifetimeSeconds :: int

definition base64url_class :: "char \<Rightarrow> bool" where
  "base64url_class c \<longleftrightarrow> word_class c \<or> c = CHR ''_'' \<or> c = CHR ''-''"

definition audiencePattern :: "string \<Rightarrow> bool" where
  "audiencePattern s \<longleftrightarrow> 1 \<le> length s \<and> length s \<le> 256 \<and> list_all base64url_class s"

definition compactJwtPattern :: "string \<Rightarrow> bool" where
  "compactJwtPattern s \<longleftrightarrow>
     (let parts = split_on (CHR ''.'') s in length parts = 3 \<and> list_all (\<lambda>p. p \<noteq> [] \<and> list_all base64url_class p) parts)"

definition lower_alnum :: "char \<Rightarrow> bool" where
  "lower_alnum c \<longleftrightarrow> (let n = of_char c :: nat in 48 \<le> n \<and> n \<le> 57 \<or> 97 \<le> n \<and> n \<le> 122)"

definition cloudflareTeamLabelPattern :: "string \<Rightarrow> bool" where
  "cloudflareTeamLabelPattern s \<longleftrightarrow>
     s \<noteq> [] \<and> length s \<le> 63 \<and> lower_alnum (hd s) \<and> lower_alnum (last s) \<and> list_all (\<lambda>c. lower_alnum c \<or> c = CHR ''-'') s"

definition isCloudflareTeamHostname :: "string \<Rightarrow> bool" where
  "isCloudflareTeamHostname h =
     (case split_on (CHR ''.'') h of
        [a, b, c] \<Rightarrow> cloudflareTeamLabelPattern a \<and> b = ''cloudflareaccess'' \<and> c = ''com''
      | _ \<Rightarrow> False)"

definition validateHttpsOrigin :: "(string \<Rightarrow> HostURL option) \<Rightarrow> string \<Rightarrow> string option" where
  "validateHttpsOrigin parse s =
     do {
       url \<leftarrow> parse s;
       ensure (protocol url = ''https:'' \<and> s = origin url \<and> port url = [] \<and> username url = [] \<and> password url = [] \<and>
               isCloudflareTeamHostname (hostname url));
       Some (origin url)
     }"

definition boundedInteger :: "jsnum \<Rightarrow> int \<Rightarrow> int \<Rightarrow> int option" where
  "boundedInteger n lo hi =
     (case n of
        Num r \<Rightarrow> if isInteger n \<and> of_int lo \<le> r \<and> r \<le> of_int hi then Some \<lfloor>r\<rfloor> else None
      | _ \<Rightarrow> None)"

text \<open>The constructor; each optional number is present or has its default.\<close>

definition make_cloudflare ::
  "(string \<Rightarrow> HostURL option) \<Rightarrow> string \<Rightarrow> string \<Rightarrow> jsnum option \<Rightarrow> jsnum option \<Rightarrow> jsnum option \<Rightarrow> jsnum option \<Rightarrow> jsnum option
   \<Rightarrow> CloudflareAccessProvider option"
where
  "make_cloudflare parse team aud tolerance lifetime timeout cooldown cache =
     do {
       o' \<leftarrow> validateHttpsOrigin parse team;
       ensure (audiencePattern aud);
       tol \<leftarrow> boundedInteger (case tolerance of Some n \<Rightarrow> n | None \<Rightarrow> Num 5) 0 30;
       life \<leftarrow> boundedInteger (case lifetime of Some n \<Rightarrow> n | None \<Rightarrow> Num (24 * 60 * 60)) 60 (7 * 24 * 60 * 60);
       _ \<leftarrow> boundedInteger (case timeout of Some n \<Rightarrow> n | None \<Rightarrow> Num 5000) 10 10000;
       _ \<leftarrow> boundedInteger (case cooldown of Some n \<Rightarrow> n | None \<Rightarrow> Num 30000) 0 (5 * 60000);
       _ \<leftarrow> boundedInteger (case cache of Some n \<Rightarrow> n | None \<Rightarrow> Num (10 * 60000)) 1000 (60 * 60000);
       Some \<lparr>teamOrigin = o', cf_audience = aud, clockToleranceSeconds = tol, maxTokenLifetimeSeconds = life\<rparr>
     }"

definition readAssertion :: "header_view \<Rightarrow> string option" where
  "readAssertion headers =
     (if length headers > MAX_HEADER_FIELDS then None
      else case filter (\<lambda>(name, _). toLowerCase name = ASSERTION_HEADER) headers of
             [(_, HText v)] \<Rightarrow> if byteLength v \<le> MAX_ASSERTION_BYTES \<and> compactJwtPattern v then Some v else None
           | _ \<Rightarrow> None)"

definition numericDateMilliseconds :: "jsnum option \<Rightarrow> int option" where
  "numericDateMilliseconds n =
     (case n of
        Some (Num r) \<Rightarrow>
          if isSafeInteger (Num r) \<and> 0 \<le> \<lfloor>r\<rfloor> \<and> \<lfloor>r\<rfloor> \<le> MAX_SAFE_INTEGER div 1000 then Some (\<lfloor>r\<rfloor> * 1000) else None
      | _ \<Rightarrow> None)"

text \<open>The white space of regular expressions, and \<open>/^[^\s@]+@[^\s@]+\.[^\s@]+$/u\<close>.\<close>

definition regex_space :: "nat \<Rightarrow> bool" where
  "regex_space c \<longleftrightarrow> (9 \<le> c \<and> c \<le> 13) \<or> c = 32 \<or> c = 160 \<or> c = 0x1680 \<or> (0x2000 \<le> c \<and> c \<le> 0x200A) \<or>
     c = 0x2028 \<or> c = 0x2029 \<or> c = 0x202F \<or> c = 0x205F \<or> c = 0x3000 \<or> c = 0xFEFF"

definition emailPattern :: "ustring \<Rightarrow> bool" where
  "emailPattern s \<longleftrightarrow>
     (let a = takeWhile (\<lambda>c. c \<noteq> 64) s; b = drop (Suc (length a)) s
      in a \<noteq> [] \<and> length a < length s \<and> \<not> list_ex regex_space s \<and> 64 \<notin> set b \<and>
         list_ex (\<lambda>i. b ! i = 46) [1..<length b - 1])"

definition identityFromClaims :: "text_env \<Rightarrow> JwtPayload \<Rightarrow> ustring option" where
  "identityFromClaims U p =
     (let email = (case jwt_email p of
                     None \<Rightarrow> None
                   | Some e \<Rightarrow> (case normalizeIdentity U e of
                                 None \<Rightarrow> None
                               | Some n \<Rightarrow> if emailPattern n then Some n else None))
      in case email of
           Some n \<Rightarrow> Some n
         | None \<Rightarrow> (case jwt_sub p of None \<Rightarrow> None | Some v \<Rightarrow> normalizeIdentity U v))"

text \<open>The verifier answers with the header and payload of the token, or throws.\<close>

definition cloudflare_authenticate ::
  "text_env \<Rightarrow> (string \<Rightarrow> VerifyOptions \<Rightarrow> JwtPayload option) \<Rightarrow> jsnum \<Rightarrow> CloudflareAccessProvider \<Rightarrow> header_view
   \<Rightarrow> UpstreamIdentity option"
where
  "cloudflare_authenticate U verifier clock_now p headers =
     do {
       assertion \<leftarrow> readAssertion headers;
       t \<leftarrow> (case clock_now of Num r \<Rightarrow> if r < 0 then None else Some r | _ \<Rightarrow> None);
       verified \<leftarrow> verifier assertion \<lparr>algorithms = [''RS256''], issuer = teamOrigin p, audience = cf_audience p,
                     requiredClaims = [''exp''], clockTolerance = clockToleranceSeconds p, currentDate = t\<rparr>;
       ensure (jwt_alg verified = ''RS256'');
       expires \<leftarrow> numericDateMilliseconds (jwt_exp verified);
       ensure (\<not> (of_int expires \<le> t \<or> of_int expires - t > of_int (maxTokenLifetimeSeconds p * 1000)));
       (case jwt_nbf verified of
          None \<Rightarrow> Some ()
        | Some n \<Rightarrow> do { notBefore \<leftarrow> numericDateMilliseconds (Some n);
                        ensure (\<not> of_int notBefore > t + of_int (clockToleranceSeconds p * 1000)) });
       label \<leftarrow> identityFromClaims U verified;
       Some \<lparr>up_mode = CloudflareAccess, up_label = label, up_expiresAt = Some (Num (of_int expires))\<rparr>
     }"

section \<open>Trusted headers\<close>

definition MAX_HEADER_NAME_BYTES :: nat where "MAX_HEADER_NAME_BYTES = 256"
definition MAX_PRESERVED_HEADER_BYTES :: nat where "MAX_PRESERVED_HEADER_BYTES = 64 * 1024"
definition MAX_RAW_ITEMS :: nat where "MAX_RAW_ITEMS = MAX_HEADER_FIELDS * 2"
definition MAX_DISTINCT_HEADER_VALUES :: nat where "MAX_DISTINCT_HEADER_VALUES = 256"
definition MAX_FORWARDED_FOR_BYTES :: nat where "MAX_FORWARDED_FOR_BYTES = 4096"
definition MAX_FORWARDED_HOPS :: nat where "MAX_FORWARDED_HOPS = 16"
definition MAX_ADDRESS_BYTES :: nat where "MAX_ADDRESS_BYTES = 128"
definition MAX_TRUST_RANGES :: nat where "MAX_TRUST_RANGES = 64"

type_synonym trust_function = "string \<Rightarrow> nat \<Rightarrow> bool"

text \<open>The packages: \<open>ipaddr.isValid\<close>, \<open>ipaddr.parse\<close> and \<open>parseCIDR\<close>, \<open>proxyaddr.compile\<close> and \<open>proxyaddr.all\<close>.\<close>

record proxy_env =
  ip_valid :: "string \<Rightarrow> bool"
  ip_parses :: "string \<Rightarrow> bool"
  cidr_parses :: "string \<Rightarrow> bool"
  proxy_compile :: "string list \<Rightarrow> trust_function option"
  proxy_all :: "string \<Rightarrow> string \<Rightarrow> trust_function option \<Rightarrow> string list"
  parse_url :: "string \<Rightarrow> URL option"
  th_text :: text_env

record TrustedHeaderRequestView =
  th_remote :: "string option"
  th_headers :: header_view
  th_distinct :: "header_view option"
  th_raw :: "string list option"

record TrustedHeaderAuthProvider =
  th_trust :: trust_function
  th_identityHeader :: string
  th_publicOrigin :: string
  th_publicProtocol :: string

definition header_name_class :: "char \<Rightarrow> bool" where
  "header_name_class c \<longleftrightarrow> word_class c \<or> c \<in> set ''!#$%&*+-.^_|~'' \<or> of_char c = (39::nat) \<or> of_char c = (96::nat)"

definition headerNamePattern :: "string \<Rightarrow> bool" where
  "headerNamePattern s \<longleftrightarrow> s \<noteq> [] \<and> list_all header_name_class s"

definition validateHeaderName :: "string \<Rightarrow> bool" where
  "validateHeaderName s \<longleftrightarrow> byteLength s \<le> MAX_HEADER_NAME_BYTES \<and> headerNamePattern s"

definition headerNames :: "header_view \<Rightarrow> string list option" where
  "headerNames headers =
     (let names = map fst headers
      in if length names > MAX_HEADER_FIELDS \<or> \<not> list_all validateHeaderName names then None else Some names)"

definition matchingHeaderValue :: "header_view \<Rightarrow> string list \<Rightarrow> string \<Rightarrow> header_value option" where
  "matchingHeaderValue headers names wanted =
     (case filter (\<lambda>n. toLowerCase n = wanted) names of
        [] \<Rightarrow> Some HMissing
      | [n] \<Rightarrow> Some (case map_of headers n of None \<Rightarrow> HMissing | Some v \<Rightarrow> v)
      | _ \<Rightarrow> None)"

text \<open>The result \<open>Some None\<close> is \<open>undefined\<close>.\<close>

definition optionalStringHeader :: "header_view \<Rightarrow> string list \<Rightarrow> string \<Rightarrow> string option option" where
  "optionalStringHeader headers names wanted =
     (case matchingHeaderValue headers names wanted of
        Some HMissing \<Rightarrow> Some None
      | Some (HText s) \<Rightarrow> Some (Some s)
      | _ \<Rightarrow> None)"

definition oneHeaderValue :: "header_value \<Rightarrow> string option" where
  "oneHeaderValue v = (case v of HText s \<Rightarrow> Some s | HTexts [s] \<Rightarrow> Some s | _ \<Rightarrow> None)"

text \<open>The loop of \<open>identityFromDistinct\<close> over the fields, with \<open>valueCount\<close> and \<open>byteCount\<close>.\<close>

fun distinct_fields :: "nat \<Rightarrow> nat \<Rightarrow> header_view \<Rightarrow> bool" where
  "distinct_fields n b [] = True"
| "distinct_fields n b ((name, v) # rest) =
     (validateHeaderName name \<and>
      (case v of
         HTexts vs \<Rightarrow>
           n + length vs \<le> MAX_DISTINCT_HEADER_VALUES \<and> b + header_bytes vs \<le> MAX_PRESERVED_HEADER_BYTES \<and>
           distinct_fields (n + length vs) (b + header_bytes vs) rest
       | _ \<Rightarrow> False))"

definition identityFromDistinct :: "header_view \<Rightarrow> string \<Rightarrow> string option" where
  "identityFromDistinct dh wanted =
     (if length dh > MAX_HEADER_FIELDS \<or> \<not> distinct_fields 0 0 dh then None
      else case filter (\<lambda>(n, _). toLowerCase n = wanted) dh of
             [(_, HTexts [v])] \<Rightarrow> Some v
           | _ \<Rightarrow> None)"

fun raw_fields :: "nat \<Rightarrow> string \<Rightarrow> string list \<Rightarrow> string list option" where
  "raw_fields b wanted (name # val # rest) =
     (let b' = b + byteLength name + byteLength val
      in if \<not> validateHeaderName name \<or> b' > MAX_PRESERVED_HEADER_BYTES then None
         else map_option (\<lambda>vs. if toLowerCase name = wanted then val # vs else vs) (raw_fields b' wanted rest))"
| "raw_fields b wanted [] = Some []"
| "raw_fields b wanted [name] = None"

definition identityFromRaw :: "string list \<Rightarrow> string \<Rightarrow> string option" where
  "identityFromRaw hdrs wanted =
     (if hdrs = [] \<or> length hdrs > MAX_RAW_ITEMS \<or> length hdrs mod 2 \<noteq> 0 then None
      else case raw_fields 0 wanted hdrs of Some [v] \<Rightarrow> Some v | _ \<Rightarrow> None)"

definition originalIdentityHeader :: "TrustedHeaderRequestView \<Rightarrow> string list \<Rightarrow> string \<Rightarrow> string option" where
  "originalIdentityHeader request names wanted =
     do {
       merged \<leftarrow> matchingHeaderValue (th_headers request) names wanted;
       mergedValue \<leftarrow> oneHeaderValue merged;
       ensure (CHR '','' \<notin> set mergedValue);
       a \<leftarrow> (case th_distinct request of None \<Rightarrow> Some [] | Some d \<Rightarrow> map_option (\<lambda>v. [v]) (identityFromDistinct d wanted));
       b \<leftarrow> (case th_raw request of None \<Rightarrow> Some [] | Some r \<Rightarrow> map_option (\<lambda>v. [v]) (identityFromRaw r wanted));
       ensure (a @ b \<noteq> [] \<and> list_all (\<lambda>v. v = mergedValue) (a @ b));
       Some mergedValue
     }"

definition validateAddress :: "proxy_env \<Rightarrow> string option \<Rightarrow> string option" where
  "validateAddress P v =
     (case v of
        None \<Rightarrow> None
      | Some s \<Rightarrow> if s = [] \<or> CHR ''%'' \<in> set s \<or> byteLength s > MAX_ADDRESS_BYTES \<or> \<not> ip_valid P s then None else Some s)"

definition parseForwardedFor :: "proxy_env \<Rightarrow> string \<Rightarrow> string list option" where
  "parseForwardedFor P v =
     (if v = [] \<or> byteLength v > MAX_FORWARDED_FOR_BYTES then None
      else let addresses = map trim (split_on (CHR '','') v)
           in if length addresses > MAX_FORWARDED_HOPS \<or> [] \<in> set addresses \<or>
                 \<not> list_all (\<lambda>a. validateAddress P (Some a) \<noteq> None) addresses
              then None else Some addresses)"

definition joined_chain :: "string list \<Rightarrow> string" where
  "joined_chain chain = (case chain of [] \<Rightarrow> [] | a # as \<Rightarrow> a @ concat (map (\<lambda>b. '', '' @ b) as))"

definition validateProxyChain :: "proxy_env \<Rightarrow> string \<Rightarrow> string option \<Rightarrow> trust_function \<Rightarrow> unit option" where
  "validateProxyChain P remote forwardedFor trust =
     do {
       chain \<leftarrow> (case forwardedFor of None \<Rightarrow> Some [] | Some f \<Rightarrow> parseForwardedFor P f);
       ensure (length (proxy_all P (joined_chain chain) remote None) =
               length (proxy_all P (joined_chain chain) remote (Some trust)))
     }"

definition requiredForwardedProtocol :: "string option \<Rightarrow> string option" where
  "requiredForwardedProtocol v =
     (case v of
        None \<Rightarrow> None
      | Some s \<Rightarrow>
          if s \<noteq> trim s \<or> CHR '','' \<in> set s then None
          else if toLowerCase s = ''http'' \<or> toLowerCase s = ''https'' then Some (toLowerCase s) else None)"

definition requiredHost :: "string option \<Rightarrow> string option" where
  "requiredHost v =
     (case v of
        None \<Rightarrow> None
      | Some s \<Rightarrow>
          if s = [] \<or> s \<noteq> trim s \<or> byteLength s > 255 \<or>
             list_ex (\<lambda>c. js_space c \<or> c \<in> set '',@/?#'' \<or> of_char c = (92::nat)) s
          then None else Some s)"

definition validateExternalOrigin :: "proxy_env \<Rightarrow> string \<Rightarrow> string \<Rightarrow> string \<Rightarrow> unit option" where
  "validateExternalOrigin P proto host expectedOrigin =
     do {
       url \<leftarrow> parse_url P (proto @ ''://'' @ host);
       ensure (username url = [] \<and> password url = [] \<and> pathname url = ''/'' \<and> search url = [] \<and> hash url = [] \<and>
               origin url = expectedOrigin)
     }"

definition validateTrustRange :: "proxy_env \<Rightarrow> string \<Rightarrow> bool" where
  "validateTrustRange P v \<longleftrightarrow>
     v \<noteq> [] \<and> CHR ''%'' \<notin> set v \<and> byteLength v \<le> MAX_ADDRESS_BYTES \<and>
     (if CHR ''/'' \<in> set v then cidr_parses P v else ip_parses P v)"

definition validatePublicOrigin :: "proxy_env \<Rightarrow> string \<Rightarrow> URL option" where
  "validatePublicOrigin P v =
     do {
       url \<leftarrow> parse_url P v;
       ensure ((protocol url = ''http:'' \<or> protocol url = ''https:'') \<and> v = origin url \<and> username url = [] \<and> password url = []);
       Some url
     }"

definition make_trusted_header :: "proxy_env \<Rightarrow> string list \<Rightarrow> string \<Rightarrow> string \<Rightarrow> TrustedHeaderAuthProvider option" where
  "make_trusted_header P trustProxy header public =
     do {
       ensure (trustProxy \<noteq> [] \<and> length trustProxy \<le> MAX_TRUST_RANGES \<and> list_all (validateTrustRange P) trustProxy);
       trust \<leftarrow> proxy_compile P trustProxy;
       ensure (byteLength header \<le> MAX_HEADER_NAME_BYTES \<and> headerNamePattern header);
       url \<leftarrow> validatePublicOrigin P public;
       Some \<lparr>th_trust = trust, th_identityHeader = toLowerCase header, th_publicOrigin = origin url,
             th_publicProtocol = butlast (protocol url)\<rparr>
     }"

definition external_origin :: "proxy_env \<Rightarrow> TrustedHeaderAuthProvider \<Rightarrow> header_view \<Rightarrow> string list \<Rightarrow> string option \<Rightarrow> unit option" where
  "external_origin P p headers names forwardedFor =
     do {
       forwardedProto \<leftarrow> optionalStringHeader headers names ''x-forwarded-proto'';
       forwardedHost \<leftarrow> optionalStringHeader headers names ''x-forwarded-host'';
       directHost \<leftarrow> optionalStringHeader headers names ''host'';
       if forwardedFor \<noteq> None \<or> forwardedProto \<noteq> None \<or> forwardedHost \<noteq> None
       then do {
         proto \<leftarrow> requiredForwardedProtocol forwardedProto;
         host \<leftarrow> requiredHost forwardedHost;
         validateExternalOrigin P proto host (th_publicOrigin p)
       }
       else do {
         host \<leftarrow> requiredHost directHost;
         validateExternalOrigin P (th_publicProtocol p) host (th_publicOrigin p)
       }
     }"

definition trusted_authenticate :: "proxy_env \<Rightarrow> TrustedHeaderAuthProvider \<Rightarrow> TrustedHeaderRequestView \<Rightarrow> UpstreamIdentity option" where
  "trusted_authenticate P p request =
     do {
       remote \<leftarrow> validateAddress P (th_remote request);
       ensure (th_trust p remote 0);
       names \<leftarrow> headerNames (th_headers request);
       forwardedFor \<leftarrow> optionalStringHeader (th_headers request) names ''x-forwarded-for'';
       validateProxyChain P remote forwardedFor (th_trust p);
       external_origin P p (th_headers request) names forwardedFor;
       rawIdentity \<leftarrow> originalIdentityHeader request names (th_identityHeader p);
       label \<leftarrow> normalizeIdentity (th_text P) (unicode_of rawIdentity);
       Some \<lparr>up_mode = TrustedHeader, up_label = label, up_expiresAt = None\<rparr>
     }"

section \<open>Properties\<close>

text \<open>
  What \<open>proxy-addr\<close> documents of \<open>all\<close>: the addresses from the closest to the furthest, the remote address
  first; with a trust function, up to and including the first that is not trusted.
\<close>

fun accepted_hops :: "trust_function \<Rightarrow> nat \<Rightarrow> string list \<Rightarrow> string list" where
  "accepted_hops trust k [] = []"
| "accepted_hops trust k (a # as) = a # (if trust a k then accepted_hops trust (Suc k) as else [])"

definition proxy_documented :: "proxy_env \<Rightarrow> bool" where
  "proxy_documented P \<longleftrightarrow>
     (\<forall>chain remote trust. list_all (ip_valid P) (remote # chain) \<longrightarrow>
        proxy_all P (joined_chain chain) remote None = remote # rev chain \<and>
        proxy_all P (joined_chain chain) remote (Some trust) = accepted_hops trust 0 (remote # rev chain))"

lemma accepted_length: "length (accepted_hops trust k as) \<le> length as"
  by (induction as arbitrary: k) auto

lemma accepted_all:
  "length (accepted_hops trust k as) = length as \<Longrightarrow> Suc j < length as \<Longrightarrow> trust (as ! j) (k + j)"
proof (induction as arbitrary: k j)
  case (Cons a as)
  show ?case
  proof (cases "trust a k")
    case False
    with Cons.prems show ?thesis by auto
  next
    case True
    then show ?thesis using Cons.prems Cons.IH [of "Suc k" "j - 1"] by (cases j) auto
  qed
qed simp

lemma forwarded_valid: "parseForwardedFor P f = Some chain \<Longrightarrow> list_all (ip_valid P) chain"
  by (auto simp: parseForwardedFor_def Let_def validateAddress_def list_all_iff split: if_splits)

lemma raw_fields_values: "raw_fields b wanted hdrs = Some vs \<Longrightarrow> vs = header_values wanted hdrs"
  by (induction b wanted hdrs arbitrary: vs rule: raw_fields.induct) (auto simp: Let_def split: if_splits)

text \<open>The hops of a request, from the closest to the furthest.\<close>

definition request_hops :: "proxy_env \<Rightarrow> string \<Rightarrow> string option \<Rightarrow> string list option" where
  "request_hops P remote forwardedFor =
     (case forwardedFor of None \<Rightarrow> Some [remote] | Some f \<Rightarrow> map_option (\<lambda>c. remote # rev c) (parseForwardedFor P f))"

lemma chain_trusted:
  assumes "proxy_documented P" and "ip_valid P remote" and "validateProxyChain P remote f trust = Some ()"
  obtains hops where "request_hops P remote f = Some hops" "\<forall>j. Suc j < length hops \<longrightarrow> trust (hops ! j) j"
proof -
  obtain chain where c: "(case f of None \<Rightarrow> Some [] | Some f \<Rightarrow> parseForwardedFor P f) = Some chain"
    "length (proxy_all P (joined_chain chain) remote None) = length (proxy_all P (joined_chain chain) remote (Some trust))"
    using assms(3) by (auto simp: validateProxyChain_def bind_eq_Some_conv)
  then have "list_all (ip_valid P) (remote # chain)" using assms(2) forwarded_valid by (auto split: option.splits)
  with assms(1) c(2) have "length (accepted_hops trust 0 (remote # rev chain)) = length (remote # rev chain)"
    unfolding proxy_documented_def by metis
  then have "\<forall>j. Suc j < length (remote # rev chain) \<longrightarrow> trust ((remote # rev chain) ! j) j"
    using accepted_all [of trust 0 "remote # rev chain"] by simp
  moreover have "request_hops P remote f = Some (remote # rev chain)"
    using c(1) by (auto simp: request_hops_def split: option.splits)
  ultimately show thesis by (rule that [rotated])
qed

text \<open>The values a request has under a name, whatever the case of the name.\<close>

definition header_texts :: "string \<Rightarrow> header_view \<Rightarrow> header_value list" where
  "header_texts wanted headers = map snd (filter (\<lambda>(n, _). toLowerCase n = wanted) headers)"

lemma matching_value:
  assumes "matchingHeaderValue headers (map fst headers) wanted = Some v"
  shows "header_texts wanted headers = [v] \<or> header_texts wanted headers = [] \<and> v = HMissing"
proof -
  have names: "filter (\<lambda>n. toLowerCase n = wanted) (map fst headers) = map fst (filter (\<lambda>(n, _). toLowerCase n = wanted) headers)"
    by (induction headers) auto
  show ?thesis
  proof (cases "filter (\<lambda>(n, _). toLowerCase n = wanted) headers")
    case Nil
    with assms names show ?thesis by (simp add: matchingHeaderValue_def header_texts_def)
  next
    case (Cons e es)
    with assms names have f: "filter (\<lambda>(n, _). toLowerCase n = wanted) headers = [e]"
      by (cases es) (auto simp: matchingHeaderValue_def)
    have "map_of headers (fst e) = Some (snd e)"
    proof -
      have "map_of (filter (\<lambda>(n, _). toLowerCase n = wanted) headers) (fst e) = Some (snd e)" unfolding f by simp
      moreover have "e \<in> set (filter (\<lambda>(n, _). toLowerCase n = wanted) headers)" unfolding f by simp
      then have "toLowerCase (fst e) = wanted" by auto
      ultimately show ?thesis by (induction headers) (auto split: if_splits)
    qed
    with assms names f show ?thesis by (simp add: matchingHeaderValue_def header_texts_def)
  qed
qed

definition absent :: "string \<Rightarrow> header_view \<Rightarrow> bool" where
  "absent wanted headers \<longleftrightarrow> header_texts wanted headers = [] \<or> header_texts wanted headers = [HMissing]"

lemma optional_value:
  assumes "optionalStringHeader headers (map fst headers) wanted = Some x"
  shows "case x of None \<Rightarrow> absent wanted headers | Some s \<Rightarrow> header_texts wanted headers = [HText s]"
proof -
  from assms obtain v where v: "matchingHeaderValue headers (map fst headers) wanted = Some v"
    and x: "v = HMissing \<and> x = None \<or> (\<exists>s. v = HText s \<and> x = Some s)"
    by (auto simp: optionalStringHeader_def split: option.splits header_value.splits)
  from matching_value [OF v] x show ?thesis by (auto simp: absent_def)
qed

text \<open>
  The scheme and host a request was addressed to: those the proxies forward, or its own host when no
  proxy forwards anything.
\<close>

definition addressed_to :: "TrustedHeaderAuthProvider \<Rightarrow> header_view \<Rightarrow> string \<Rightarrow> string \<Rightarrow> bool" where
  "addressed_to p headers proto host \<longleftrightarrow>
     (\<exists>sent. header_texts ''x-forwarded-proto'' headers = [HText sent] \<and> proto = toLowerCase sent \<and>
        header_texts ''x-forwarded-host'' headers = [HText host]) \<or>
     (absent ''x-forwarded-for'' headers \<and> absent ''x-forwarded-proto'' headers \<and> absent ''x-forwarded-host'' headers \<and>
        proto = th_publicProtocol p \<and> header_texts ''host'' headers = [HText host])"

lemma required_values:
  "requiredHost x = Some host \<Longrightarrow> x = Some host" "requiredForwardedProtocol y = Some proto \<Longrightarrow> \<exists>s. y = Some s \<and> proto = toLowerCase s"
  by (auto simp: requiredHost_def requiredForwardedProtocol_def split: option.splits if_splits)

lemma validated_origin:
  assumes "validateExternalOrigin P proto host expected = Some ()"
  obtains url where "parse_url P (proto @ ''://'' @ host) = Some url" "origin url = expected"
  using assms by (auto simp: validateExternalOrigin_def bind_eq_Some_conv)

lemma external_origin_checked:
  assumes "external_origin P p headers (map fst headers) f = Some ()"
    "optionalStringHeader headers (map fst headers) ''x-forwarded-for'' = Some f"
  shows "\<exists>proto host url. addressed_to p headers proto host \<and> parse_url P (proto @ ''://'' @ host) = Some url \<and> origin url = th_publicOrigin p"
proof -
  from assms(1) obtain fp fh dh where h: "optionalStringHeader headers (map fst headers) ''x-forwarded-proto'' = Some fp"
    "optionalStringHeader headers (map fst headers) ''x-forwarded-host'' = Some fh"
    "optionalStringHeader headers (map fst headers) ''host'' = Some dh"
    by (auto simp: external_origin_def bind_eq_Some_conv)
  note v = optional_value [OF h(1)] optional_value [OF h(2)] optional_value [OF h(3)] optional_value [OF assms(2)]
  show ?thesis
  proof (cases "f \<noteq> None \<or> fp \<noteq> None \<or> fh \<noteq> None")
    case True
    with assms(1) h obtain proto host where ov: "requiredForwardedProtocol fp = Some proto" "requiredHost fh = Some host"
      "validateExternalOrigin P proto host (th_publicOrigin p) = Some ()"
      by (auto simp: external_origin_def bind_eq_Some_conv)
    obtain sent where "fp = Some sent" "proto = toLowerCase sent" using required_values(2) [OF ov(1)] by blast
    moreover have "fh = Some host" by (rule required_values(1) [OF ov(2)])
    ultimately have "addressed_to p headers proto host" using v(1,2) by (auto simp: addressed_to_def)
    then show ?thesis using validated_origin [OF ov(3)] by metis
  next
    case False
    with assms(1) h obtain host where ov: "requiredHost dh = Some host"
      "validateExternalOrigin P (th_publicProtocol p) host (th_publicOrigin p) = Some ()"
      by (auto simp: external_origin_def bind_eq_Some_conv)
    have "dh = Some host" by (rule required_values(1) [OF ov(1)])
    with False v have "addressed_to p headers (th_publicProtocol p) host" by (auto simp: addressed_to_def)
    then show ?thesis using validated_origin [OF ov(2)] by metis
  qed
qed

text \<open>
  The identity header of a request is \<open>v\<close>: the merged headers have it once, and so have the raw headers
  and the separated headers, whichever the request carries, of which there is at least one.
\<close>

definition sent_once :: "string \<Rightarrow> TrustedHeaderRequestView \<Rightarrow> string \<Rightarrow> bool" where
  "sent_once wanted request v \<longleftrightarrow>
     (header_texts wanted (th_headers request) = [HText v] \<or> header_texts wanted (th_headers request) = [HTexts [v]]) \<and>
     (th_raw request \<noteq> None \<or> th_distinct request \<noteq> None) \<and>
     (case th_raw request of None \<Rightarrow> True | Some r \<Rightarrow> header_values wanted r = [v]) \<and>
     (case th_distinct request of None \<Rightarrow> True | Some d \<Rightarrow> header_texts wanted d = [HTexts [v]])"

lemma original_sent_once:
  assumes "originalIdentityHeader request (map fst (th_headers request)) wanted = Some v"
  shows "sent_once wanted request v" "CHR '','' \<notin> set v"
proof -
  from assms obtain merged a b where m: "matchingHeaderValue (th_headers request) (map fst (th_headers request)) wanted = Some merged"
    "oneHeaderValue merged = Some v" "CHR '','' \<notin> set v" "a @ b \<noteq> []" "list_all (\<lambda>x. x = v) (a @ b)"
    "(case th_distinct request of None \<Rightarrow> Some [] | Some d \<Rightarrow> map_option (\<lambda>v. [v]) (identityFromDistinct d wanted)) = Some a"
    "(case th_raw request of None \<Rightarrow> Some [] | Some r \<Rightarrow> map_option (\<lambda>v. [v]) (identityFromRaw r wanted)) = Some b"
    by (auto simp: originalIdentityHeader_def bind_eq_Some_conv)
  have "merged = HText v \<or> merged = HTexts [v]"
    using m(2) by (auto simp: oneHeaderValue_def split: header_value.splits list.splits)
  then have "header_texts wanted (th_headers request) = [HText v] \<or> header_texts wanted (th_headers request) = [HTexts [v]]"
    using matching_value [OF m(1)] by auto
  moreover have "header_values wanted r = [v]" if "th_raw request = Some r" for r
    using m(5,7) that raw_fields_values by (auto simp: identityFromRaw_def split: if_splits option.splits list.splits)
  moreover have "header_texts wanted d = [HTexts [v]]" if "th_distinct request = Some d" for d
    using m(5,6) that
    by (auto simp: identityFromDistinct_def header_texts_def split: if_splits option.splits list.splits header_value.splits)
  moreover have "th_raw request \<noteq> None \<or> th_distinct request \<noteq> None" using m(4,6,7) by auto
  ultimately show "sent_once wanted request v" by (simp add: sent_once_def split: option.split)
  show "CHR '','' \<notin> set v" by (rule m(3))
qed

text \<open>
  C27. A trusted-header identity is accepted only when every hop of the request's forwarding header but the
  furthest one is trusted at its position, the scheme and host the request itself was addressed to (as
  forwarded, or its own host when nothing is forwarded) are those of the public origin, and the identity
  header was sent exactly once, without a comma, by every account of the headers the request has; the
  label is its normal form, bounded and free of control characters.
\<close>

theorem trusted_identity_sound:
  assumes "proxy_documented P" and "trusted_authenticate P p request = Some i"
  shows "\<exists>remote f hops v. th_remote request = Some remote \<and> request_hops P remote f = Some hops \<and> th_trust p remote 0 \<and>
    (\<forall>j. Suc j < length hops \<longrightarrow> th_trust p (hops ! j) j) \<and>
    (case f of None \<Rightarrow> absent ''x-forwarded-for'' (th_headers request) | Some s \<Rightarrow> header_texts ''x-forwarded-for'' (th_headers request) = [HText s]) \<and>
    (\<exists>proto host url. addressed_to p (th_headers request) proto host \<and>
       parse_url P (proto @ ''://'' @ host) = Some url \<and> origin url = th_publicOrigin p) \<and>
    sent_once (th_identityHeader p) request v \<and> CHR '','' \<notin> set v \<and>
    up_mode i = TrustedHeader \<and> normalizeIdentity (th_text P) (unicode_of v) = Some (up_label i) \<and>
    up_label i \<noteq> [] \<and> utf8ByteLength (up_label i) \<le> MAX_IDENTITY_BYTES \<and> \<not> list_ex (unsafe_identity (th_text P)) (up_label i)"
proof -
  from assms(2) obtain remote names f v where r: "validateAddress P (th_remote request) = Some remote" "th_trust p remote 0"
    "headerNames (th_headers request) = Some names" "optionalStringHeader (th_headers request) names ''x-forwarded-for'' = Some f"
    "validateProxyChain P remote f (th_trust p) = Some ()" "external_origin P p (th_headers request) names f = Some ()"
    "originalIdentityHeader request names (th_identityHeader p) = Some v"
    "normalizeIdentity (th_text P) (unicode_of v) = Some (up_label i)" "up_mode i = TrustedHeader"
    by (auto simp: trusted_authenticate_def bind_eq_Some_conv)
  have remote: "th_remote request = Some remote" "ip_valid P remote"
    using r(1) by (auto simp: validateAddress_def split: option.splits if_splits)
  have names: "names = map fst (th_headers request)" using r(3) by (auto simp: headerNames_def Let_def split: if_splits)
  from chain_trusted [OF assms(1) remote(2) r(5)] obtain hops where h: "request_hops P remote f = Some hops"
    "\<forall>j. Suc j < length hops \<longrightarrow> th_trust p (hops ! j) j" by blast
  have "up_label i \<noteq> [] \<and> utf8ByteLength (up_label i) \<le> MAX_IDENTITY_BYTES \<and> \<not> list_ex (unsafe_identity (th_text P)) (up_label i)"
    using r(8) by (auto simp: normalizeIdentity_def Let_def split: if_splits)
  with remote(1) r(2,8,9) h original_sent_once [OF r(7) [unfolded names]] optional_value [OF r(4) [unfolded names]]
    external_origin_checked [OF r(6) [unfolded names] r(4) [unfolded names]] show ?thesis by blast
qed

text \<open>
  C28. A Cloudflare identity is accepted only for the single assertion header of a request, verified for the
  configured issuer and audience with RS256, not expired, expiring within the allowed lifetime and not before its
  time; the expiry the session will be held to is that of the assertion.
\<close>

theorem cloudflare_identity_sound:
  assumes "cloudflare_authenticate U verifier clock_now p headers = Some i"
  shows "\<exists>t assertion verified e. clock_now = Num t \<and> 0 \<le> t \<and>
    map snd (filter (\<lambda>(n, _). toLowerCase n = ASSERTION_HEADER) headers) = [HText assertion] \<and> compactJwtPattern assertion \<and>
    verifier assertion \<lparr>algorithms = [''RS256''], issuer = teamOrigin p, audience = cf_audience p,
      requiredClaims = [''exp''], clockTolerance = clockToleranceSeconds p, currentDate = t\<rparr> = Some verified \<and>
    jwt_alg verified = ''RS256'' \<and> jwt_exp verified = Some (Num (of_int e)) \<and> t < of_int e * 1000 \<and>
    of_int e * 1000 \<le> t + of_int (maxTokenLifetimeSeconds p) * 1000 \<and>
    (\<forall>b. jwt_nbf verified = Some (Num b) \<longrightarrow> b * 1000 \<le> t + of_int (clockToleranceSeconds p) * 1000) \<and>
    up_mode i = CloudflareAccess \<and> up_expiresAt i = Some (Num (of_int e * 1000)) \<and> identityFromClaims U verified = Some (up_label i)"
proof -
  from assms obtain assertion t verified x where a: "readAssertion headers = Some assertion" "clock_now = Num t" "0 \<le> t"
    "verifier assertion \<lparr>algorithms = [''RS256''], issuer = teamOrigin p, audience = cf_audience p,
      requiredClaims = [''exp''], clockTolerance = clockToleranceSeconds p, currentDate = t\<rparr> = Some verified"
    "jwt_alg verified = ''RS256''" "numericDateMilliseconds (jwt_exp verified) = Some x"
    "t < of_int x" "of_int x - t \<le> of_int (maxTokenLifetimeSeconds p * 1000)"
    "(case jwt_nbf verified of None \<Rightarrow> Some () | Some n \<Rightarrow> do { notBefore \<leftarrow> numericDateMilliseconds (Some n);
        ensure (\<not> of_int notBefore > t + of_int (clockToleranceSeconds p * 1000)) }) = Some ()"
    "identityFromClaims U verified = Some (up_label i)" "up_mode i = CloudflareAccess" "up_expiresAt i = Some (Num (of_int x))"
    by (auto simp: cloudflare_authenticate_def bind_eq_Some_conv split: jsnum.splits if_splits)
  have date: "\<exists>e. n = Some (Num (of_int e)) \<and> y = e * 1000" if "numericDateMilliseconds n = Some y" for n y
    using that by (auto simp: numericDateMilliseconds_def split: option.splits jsnum.splits if_splits)
  from date [OF a(6)] obtain e where e: "jwt_exp verified = Some (Num (of_int e))" "x = e * 1000" by blast
  have nbf: "b * 1000 \<le> t + of_int (clockToleranceSeconds p) * 1000" if "jwt_nbf verified = Some (Num b)" for b
    using a(9) that date by (fastforce simp: bind_eq_Some_conv)
  have "map snd (filter (\<lambda>(n, _). toLowerCase n = ASSERTION_HEADER) headers) = [HText assertion] \<and> compactJwtPattern assertion"
    using a(1) by (auto simp: readAssertion_def split: if_splits list.splits prod.splits header_value.splits)
  with a e nbf show ?thesis by auto
qed

section \<open>Witnesses\<close>

definition example_texts :: text_env where
  "example_texts = \<lparr>format_control = (\<lambda>_. False), nfc_form = (\<lambda>s. s), utc_timestamp = (\<lambda>_. True)\<rparr>"

definition dotted_class :: "char \<Rightarrow> bool" where
  "dotted_class c \<longleftrightarrow> c \<in> set ''0123456789.''"

definition dotted :: "string \<Rightarrow> bool" where
  "dotted s \<longleftrightarrow> s \<noteq> [] \<and> list_all dotted_class s"

definition header_hops :: "string \<Rightarrow> string \<Rightarrow> string list" where
  "header_hops h remote = remote # rev (if h = [] then [] else map trim (split_on (CHR '','') h))"

definition example_proxy :: proxy_env where
  "example_proxy =
     \<lparr>ip_valid = dotted, ip_parses = dotted, cidr_parses = (\<lambda>_. False),
      proxy_compile = (\<lambda>rs. Some (\<lambda>a _. a \<in> set rs)),
      proxy_all = (\<lambda>h remote t. case t of None \<Rightarrow> header_hops h remote | Some trust \<Rightarrow> accepted_hops trust 0 (header_hops h remote)),
      parse_url = (\<lambda>u. if u = ''http://h'' \<or> u = ''http://h/'' then Some example_url else None),
      th_text = example_texts\<rparr>"

lemma dotted_plain:
  assumes "dotted s" shows "CHR '','' \<notin> set s" "trim s = s" "trim (CHR '' '' # s) = s"
proof -
  have "\<not> js_space c" if "dotted_class c" for c using that by (auto simp: dotted_class_def js_space_def)
  then have "list_all (\<lambda>c. \<not> js_space c) s" using assms by (auto simp: dotted_def list_all_iff)
  then show s: "trim s = s" by (rule trim_plain)
  have "js_space (CHR '' '')" by (simp add: js_space_def)
  then have "trim (CHR '' '' # s) = trim s" by (simp add: trim_def)
  with s show "trim (CHR '' '' # s) = s" by simp
  have "\<not> dotted_class (CHR '','')" by (simp add: dotted_class_def)
  then show "CHR '','' \<notin> set s" using assms unfolding dotted_def list_all_iff by blast
qed

lemma split_joined:
  "CHR '','' \<notin> set s \<Longrightarrow> list_all dotted as \<Longrightarrow>
   split_on (CHR '','') (s @ concat (map (\<lambda>b. CHR '','' # CHR '' '' # b) as)) = s # map ((#) (CHR '' '')) as"
proof (induction as arbitrary: s)
  case (Cons a as)
  then have "CHR '','' \<notin> set (CHR '' '' # a)" using dotted_plain(1) [of a] by simp
  from Cons.IH [OF this] Cons.prems show ?case by (simp add: split_on_append)
qed (simp add: split_on_none)

lemma joined_Cons: "joined_chain (a # as) = a @ concat (map (\<lambda>b. CHR '','' # CHR '' '' # b) as)"
  unfolding joined_chain_def list.case by (induction as) auto

lemma example_hops: "list_all dotted chain \<Longrightarrow> header_hops (joined_chain chain) remote = remote # rev chain"
proof (cases chain)
  case (Cons a as)
  moreover assume "list_all dotted chain"
  ultimately have d: "dotted a" "list_all dotted as" "joined_chain chain \<noteq> []"
    by (auto simp: joined_Cons dotted_def)
  have "map (\<lambda>b. trim (CHR '' '' # b)) as = as" using d(2) dotted_plain(3) by (induction as) auto
  then show ?thesis using d Cons split_joined [OF dotted_plain(1) [OF d(1)] d(2)]
    by (simp add: header_hops_def joined_Cons dotted_plain comp_def)
qed (simp add: header_hops_def joined_chain_def)

lemma example_proxy_documented: "proxy_documented example_proxy"
  by (simp add: proxy_documented_def example_proxy_def example_hops)

definition example_raw :: "string list" where
  "example_raw = [''X-Forwarded-For'', ''9.9.9.9, 10.0.0.2'', ''X-Forwarded-Proto'', ''http'',
     ''X-Forwarded-Host'', ''h'', ''X-User'', ''bob'']"

definition example_forwarded :: TrustedHeaderRequestView where
  "example_forwarded = \<lparr>th_remote = Some ''10.0.0.1'',
     th_headers = [(''x-forwarded-for'', HText ''9.9.9.9, 10.0.0.2''), (''x-forwarded-proto'', HText ''http''),
       (''x-forwarded-host'', HText ''h''), (''x-user'', HText ''bob'')],
     th_distinct = None, th_raw = Some example_raw\<rparr>"

definition example_provider :: TrustedHeaderAuthProvider where
  "example_provider = the (make_trusted_header example_proxy [''10.0.0.1'', ''10.0.0.2''] ''X-User'' ''http://h'')"

lemmas example_defs = example_proxy_def dotted_def dotted_class_def example_texts_def byteLength_def
  MAX_ADDRESS_BYTES_def MAX_TRUST_RANGES_def MAX_HEADER_NAME_BYTES_def MAX_PRESERVED_HEADER_BYTES_def MAX_RAW_ITEMS_def
  MAX_HEADER_FIELDS_def MAX_IDENTITY_BYTES_def headerNamePattern_def header_name_class_def word_class_def validateHeaderName_def

lemma example_lower: "toLowerCase ''X-User'' = ''x-user''" "toLowerCase ''X-Forwarded-For'' = ''x-forwarded-for''"
  "toLowerCase ''X-Forwarded-Proto'' = ''x-forwarded-proto''" "toLowerCase ''X-Forwarded-Host'' = ''x-forwarded-host''"
  by (simp_all add: toLowerCase_def toLowerChar_def char_of_def bit_0)

lemma example_lower_fixed: "toLowerCase ''x-user'' = ''x-user''" "toLowerCase ''x-forwarded-for'' = ''x-forwarded-for''"
  "toLowerCase ''x-forwarded-proto'' = ''x-forwarded-proto''" "toLowerCase ''x-forwarded-host'' = ''x-forwarded-host''"
  by (simp_all add: toLowerCase_def toLowerChar_def)

lemma example_made: "example_provider = \<lparr>th_trust = (\<lambda>a _. a \<in> set [''10.0.0.1'', ''10.0.0.2'']),
     th_identityHeader = ''x-user'', th_publicOrigin = ''http://h'', th_publicProtocol = ''http''\<rparr>"
  by (simp add: example_provider_def make_trusted_header_def ensure_def validateTrustRange_def validatePublicOrigin_def
     example_lower example_url_def example_defs)

lemma example_address: "validateAddress example_proxy (Some ''10.0.0.1'') = Some ''10.0.0.1''"
  by (simp add: validateAddress_def example_defs)

lemma example_names: "headerNames (th_headers example_forwarded) = Some (map fst (th_headers example_forwarded))"
  by (simp add: headerNames_def example_forwarded_def example_defs)

lemma example_matching:
  "matchingHeaderValue (th_headers example_forwarded) (map fst (th_headers example_forwarded)) ''x-forwarded-for'' =
     Some (HText ''9.9.9.9, 10.0.0.2'')"
  "matchingHeaderValue (th_headers example_forwarded) (map fst (th_headers example_forwarded)) ''x-forwarded-proto'' = Some (HText ''http'')"
  "matchingHeaderValue (th_headers example_forwarded) (map fst (th_headers example_forwarded)) ''x-forwarded-host'' = Some (HText ''h'')"
  "matchingHeaderValue (th_headers example_forwarded) (map fst (th_headers example_forwarded)) ''host'' = Some HMissing"
  "matchingHeaderValue (th_headers example_forwarded) (map fst (th_headers example_forwarded)) ''x-user'' = Some (HText ''bob'')"
  by (simp_all add: matchingHeaderValue_def example_forwarded_def example_lower_fixed)

lemma example_chain: "validateProxyChain example_proxy ''10.0.0.1'' (Some ''9.9.9.9, 10.0.0.2'') (\<lambda>a _. a \<in> set [''10.0.0.1'', ''10.0.0.2'']) = Some ()"
  by code_simp

lemma example_origin: "external_origin example_proxy example_provider (th_headers example_forwarded) (map fst (th_headers example_forwarded)) f = Some ()"
  by (simp add: external_origin_def optionalStringHeader_def example_matching requiredForwardedProtocol_def requiredHost_def
    validateExternalOrigin_def example_made example_url_def trim_def js_space_def toLowerCase_def toLowerChar_def ensure_def example_defs)

lemma example_label: "normalizeIdentity (th_text example_proxy) (unicode_of ''bob'') = Some [98, 111, 98]"
  by (simp add: normalizeIdentity_def unicode_of_def utf8ByteLength_def unsafe_identity_def forbiddenCharacter_def example_defs)

lemma example_raw_fields: "raw_fields 0 ''x-user'' example_raw = Some [''bob'']"
  by (simp add: example_raw_def example_lower example_defs)

lemma example_identity: "originalIdentityHeader example_forwarded (map fst (th_headers example_forwarded)) ''x-user'' = Some ''bob''"
proof -
  have "length example_raw = 8" by (simp add: example_raw_def)
  moreover from this have "example_raw \<noteq> []" by auto
  ultimately have "identityFromRaw example_raw ''x-user'' = Some ''bob''"
    using example_raw_fields by (simp add: identityFromRaw_def MAX_RAW_ITEMS_def MAX_HEADER_FIELDS_def)
  moreover have "th_raw example_forwarded = Some example_raw" "th_distinct example_forwarded = None"
    by (simp_all add: example_forwarded_def)
  ultimately show ?thesis by (simp add: originalIdentityHeader_def example_matching oneHeaderValue_def ensure_def)
qed

lemma example_header_accepted: "trusted_authenticate example_proxy example_provider example_forwarded =
    Some \<lparr>up_mode = TrustedHeader, up_label = [98, 111, 98], up_expiresAt = None\<rparr>"
proof -
  have "th_remote example_forwarded = Some ''10.0.0.1''" by (simp add: example_forwarded_def)
  then show ?thesis unfolding trusted_authenticate_def
    using example_address example_names example_matching(1) example_chain example_origin example_label example_identity
    by (simp add: optionalStringHeader_def example_made ensure_def)
qed

lemma example_texts_of:
  "header_texts ''x-forwarded-for'' (th_headers example_forwarded) = [HText ''9.9.9.9, 10.0.0.2'']"
  "header_texts ''x-forwarded-proto'' (th_headers example_forwarded) = [HText ''http'']"
  using matching_value [OF example_matching(1)] matching_value [OF example_matching(2)] by simp_all

theorem trusted_identity_sound_witness:
  "\<exists>hops host url. request_hops example_proxy ''10.0.0.1'' (Some ''9.9.9.9, 10.0.0.2'') = Some hops \<and>
     (\<forall>j. Suc j < length hops \<longrightarrow> th_trust example_provider (hops ! j) j) \<and>
     header_texts ''x-forwarded-host'' (th_headers example_forwarded) = [HText host] \<and>
     parse_url example_proxy (toLowerCase ''http'' @ ''://'' @ host) = Some url \<and> origin url = th_publicOrigin example_provider"
proof -
  have remote: "th_remote example_forwarded = Some ''10.0.0.1''" by (simp add: example_forwarded_def)
  from trusted_identity_sound [OF example_proxy_documented example_header_accepted]
  obtain f hops proto host url where f: "request_hops example_proxy ''10.0.0.1'' f = Some hops"
    "\<forall>j. Suc j < length hops \<longrightarrow> th_trust example_provider (hops ! j) j"
    "case f of None \<Rightarrow> absent ''x-forwarded-for'' (th_headers example_forwarded)
     | Some s \<Rightarrow> header_texts ''x-forwarded-for'' (th_headers example_forwarded) = [HText s]"
    "addressed_to example_provider (th_headers example_forwarded) proto host"
    "parse_url example_proxy (proto @ ''://'' @ host) = Some url" "origin url = th_publicOrigin example_provider"
    unfolding remote by blast
  have "f = Some ''9.9.9.9, 10.0.0.2''" using f(3) by (cases f) (simp_all add: absent_def example_texts_of)
  moreover have "proto = toLowerCase ''http'' \<and> header_texts ''x-forwarded-host'' (th_headers example_forwarded) = [HText host]"
    using f(4) by (simp add: addressed_to_def absent_def example_texts_of)
  ultimately show ?thesis using f(1,2,5,6) by blast
qed

definition example_assertion :: string where "example_assertion = ''a.b.c''"

definition example_payload :: JwtPayload where
  "example_payload = \<lparr>jwt_alg = ''RS256'', jwt_exp = Some (Num 2), jwt_nbf = Some (Num 1), jwt_email = None, jwt_sub = Some [98]\<rparr>"

definition example_cloudflare :: CloudflareAccessProvider where
  "example_cloudflare = \<lparr>teamOrigin = ''https://t.cloudflareaccess.com'', cf_audience = ''aud'',
     clockToleranceSeconds = 5, maxTokenLifetimeSeconds = 60\<rparr>"

lemma example_assertion_read: "readAssertion [(''Cf-Access-Jwt-Assertion'', HText example_assertion)] = Some example_assertion"
  by (simp add: readAssertion_def ASSERTION_HEADER_def toLowerCase_def toLowerChar_def char_of_def bit_0 example_assertion_def compactJwtPattern_def
    base64url_class_def word_class_def byteLength_def MAX_ASSERTION_BYTES_def MAX_HEADER_FIELDS_def)

lemma example_claims: "identityFromClaims example_texts example_payload = Some [98]"
  by (simp add: identityFromClaims_def example_payload_def normalizeIdentity_def utf8ByteLength_def unsafe_identity_def
    forbiddenCharacter_def example_texts_def MAX_IDENTITY_BYTES_def)

lemma example_cloudflare_accepts:
  "cloudflare_authenticate example_texts (\<lambda>a _. if a = example_assertion then Some example_payload else None) (Num 1000)
     example_cloudflare [(''Cf-Access-Jwt-Assertion'', HText example_assertion)] =
   Some \<lparr>up_mode = CloudflareAccess, up_label = [98], up_expiresAt = Some (Num 2000)\<rparr>"
  using example_assertion_read example_claims
  by (simp add: cloudflare_authenticate_def ensure_def numericDateMilliseconds_def)
    (simp add: ensure_def example_payload_def example_cloudflare_def safe_int_def MAX_SAFE_INTEGER_def numericDateMilliseconds_def)

theorem cloudflare_identity_sound_witness: "jwt_exp example_payload = Some (Num 2) \<and> jwt_alg example_payload = ''RS256''"
  using cloudflare_identity_sound [OF example_cloudflare_accepts] by (auto split: if_splits)

end
