(* ===== verification/JsonPreflight.thy ===== *)
theory JsonPreflight
  imports Json "HOL-Library.Word"
begin

text \<open>
  The serialiser of \<open>secure-json-file.ts\<close>: \<open>preflightJson\<close> walks an arbitrary object graph with an explicit
  stack, copies what it finds and counts the bytes the text will need, before \<open>JSON.stringify\<close> runs. Objects
  live in a heap, so shared and cyclic graphs, accessors, symbols and foreign prototypes are all representable;
  strings are lists of UTF-16 code units. A clone is identified by the place of the snapshot it was assigned to.

  How a number prints is a parameter. The walk ends on every graph within a fixed number of iterations, and it
  accepts exactly the finite trees within its limits, whose size it computes exactly.
\<close>

section \<open>Values\<close>

type_synonym units = "16 word list"

datatype 'r js_value = VNull | VBool bool | VNum jsnum | VStr units | VRef 'r | VOther

datatype property_key = KString units | KSymbol nat

datatype 'r property_value = Data "'r js_value" | Accessor

record 'r property =
  enumerable :: bool
  property_value :: "'r property_value"

text \<open>\<open>own_keys\<close> is the list of \<open>Reflect.ownKeys\<close> with the descriptors; \<open>plain_prototype\<close> says that the prototype
  is \<open>Object.prototype\<close> or \<open>null\<close>.\<close>

record 'r js_object =
  is_array :: bool
  array_length :: nat
  plain_prototype :: bool
  own_keys :: "(property_key \<times> 'r property) list"

type_synonym 'r js_heap = "'r \<Rightarrow> 'r js_object"

definition unit_text :: "units \<Rightarrow> utext" where
  "unit_text s = pair_up (map unat s)"

definition MAX_SERIALIZATION_DEPTH :: nat where "MAX_SERIALIZATION_DEPTH = 256"
definition MAX_SERIALIZATION_KEYS :: nat where "MAX_SERIALIZATION_KEYS = 100000"
definition MAX_SERIALIZATION_NODES :: nat where "MAX_SERIALIZATION_NODES = 100000"
definition MAX_SECURE_JSON_BYTES :: nat where "MAX_SECURE_JSON_BYTES = 1048576"

section \<open>The size of a string literal\<close>

definition low_surrogate :: "nat \<Rightarrow> bool" where
  "low_surrogate c \<longleftrightarrow> 0xDC00 \<le> c \<and> c \<le> 0xDFFF"

text \<open>The bytes of the first character of the rest of a string, and what follows it.\<close>

definition unit_bytes :: "nat \<Rightarrow> nat list \<Rightarrow> nat \<times> nat list" where
  "unit_bytes c cs =
     (if c = 0x22 \<or> c = 0x5C \<or> c = 8 \<or> c = 9 \<or> c = 10 \<or> c = 12 \<or> c = 13 then (2, cs)
      else if c < 0x20 then (6, cs)
      else if c < 0x80 then (1, cs)
      else if c < 0x800 then (2, cs)
      else if 0xD800 \<le> c \<and> c \<le> 0xDBFF then
        (case cs of
           l # r \<Rightarrow> if low_surrogate l then (4, r) else (6, cs)
         | [] \<Rightarrow> (6, []))
      else if 0xDC00 \<le> c \<and> c \<le> 0xDFFF then (6, cs)
      else (3, cs))"

lemma unit_bytes_shorter: "unit_bytes c cs = (n, r) \<Longrightarrow> length r \<le> length cs"
  by (auto simp: unit_bytes_def split: if_splits list.splits)

function string_loop :: "nat \<Rightarrow> nat list \<Rightarrow> nat" where
  "string_loop b [] = b"
| "string_loop b (c # cs) =
     (case unit_bytes c cs of
        (n, rest) \<Rightarrow> if b + n > MAX_SECURE_JSON_BYTES then b + n else string_loop (b + n) rest)"
  by pat_completeness auto

termination
  by (relation "measure (\<lambda>(_, s). length s)") (auto dest!: unit_bytes_shorter [OF sym] simp: less_Suc_eq_le)

definition jsonStringByteLength :: "units \<Rightarrow> nat" where
  "jsonStringByteLength s = string_loop 2 (map unat s)"

section \<open>The walk\<close>

datatype slot = Index nat | Key utext

datatype 'r work = ValueItem "'r js_value" "slot list" nat | ExitItem 'r

text \<open>Work list, ancestors, byte, key and node counts, and the snapshot under construction.\<close>

type_synonym 'r walk = "'r work list \<times> 'r set \<times> nat \<times> nat \<times> nat \<times> json"

text \<open>\<open>assign\<close>: the item is stored in its parent, an array or an object, or becomes the snapshot.\<close>

fun put :: "json \<Rightarrow> slot list \<Rightarrow> json \<Rightarrow> json" where
  "put t [] v = v"
| "put (JArr vs) (Index i # p) v = JArr (vs[i := put (vs ! i) p v])"
| "put (JObj ms) (Key k # p) v =
     JObj (jm_set ms k (put (case jm_get ms k of Some x \<Rightarrow> x | None \<Rightarrow> JNull) p v))"
| "put t _ v = t"

definition addBytes :: "nat \<Rightarrow> 'r walk \<Rightarrow> 'r walk option" where
  "addBytes amount s =
     (case s of
        (w, a, b, k, n, t) \<Rightarrow> if b + amount > MAX_SECURE_JSON_BYTES then None else Some (w, a, b + amount, k, n, t))"

definition assign :: "slot list \<Rightarrow> json \<Rightarrow> 'r walk \<Rightarrow> 'r walk" where
  "assign p v s = (case s of (w, a, b, k, n, t) \<Rightarrow> (w, a, b, k, n, put t p v))"

definition push :: "'r work list \<Rightarrow> 'r walk \<Rightarrow> 'r walk" where
  "push items s = (case s of (w, rest) \<Rightarrow> (items @ w, rest))"

text \<open>The key \<open>String(index)\<close>, and the value of an enumerable data property.\<close>

definition index_key :: "nat \<Rightarrow> property_key" where
  "index_key i = KString (map of_nat (print_nat i))"

definition data_property :: "'r js_object \<Rightarrow> property_key \<Rightarrow> 'r js_value option" where
  "data_property ob key =
     (case map_of (own_keys ob) key of
        None \<Rightarrow> None
      | Some d \<Rightarrow> if \<not> enumerable d then None else (case property_value d of Data v \<Rightarrow> Some v | Accessor \<Rightarrow> None))"

definition is_symbol :: "property_key \<Rightarrow> bool" where
  "is_symbol key = (case key of KSymbol _ \<Rightarrow> True | KString _ \<Rightarrow> False)"

fun all_some :: "'a option list \<Rightarrow> 'a list option" where
  "all_some [] = Some []"
| "all_some (None # xs) = None"
| "all_some (Some x # xs) = map_option ((#) x) (all_some xs)"

lemma all_some_iff: "all_some xs = Some ys \<longleftrightarrow> xs = map Some ys"
proof (induction xs arbitrary: ys rule: all_some.induct)
  case (3 x xs)
  then show ?case by (cases ys) auto
qed auto

definition array_children :: "'r js_object \<Rightarrow> (slot \<times> 'r js_value) list option" where
  "array_children ob =
     (let keys = map fst (filter (\<lambda>(_, d). enumerable d) (own_keys ob))
      in if array_length ob > MAX_SERIALIZATION_NODES \<or> list_ex is_symbol keys \<or> length keys \<noteq> array_length ob then None
         else map_option (zip (map Index [0..<array_length ob]))
                (all_some (map (\<lambda>i. data_property ob (index_key i)) [0..<array_length ob])))"

fun plain_entry :: "property_key \<times> 'r property \<Rightarrow> (units \<times> 'r js_value) option" where
  "plain_entry (KString key, d) = (case property_value d of Data v \<Rightarrow> Some (key, v) | Accessor \<Rightarrow> None)"
| "plain_entry (KSymbol _, _) = None"

definition plain_entries :: "'r js_object \<Rightarrow> (units \<times> 'r js_value) list option" where
  "plain_entries ob =
     (if \<not> plain_prototype ob then None
      else all_some (map plain_entry (filter (\<lambda>(_, d). enumerable d) (own_keys ob))))"

definition child_items :: "slot list \<Rightarrow> nat \<Rightarrow> (slot \<times> 'r js_value) list \<Rightarrow> 'r work list" where
  "child_items p depth cs = map (\<lambda>(sl, v). ValueItem v (p @ [sl]) (Suc depth)) cs"

definition visit_array :: "'r js_object \<Rightarrow> slot list \<Rightarrow> nat \<Rightarrow> 'r walk \<Rightarrow> 'r walk option" where
  "visit_array ob p depth s =
     (case array_children ob of
        None \<Rightarrow> None
      | Some cs \<Rightarrow>
          map_option (push (child_items p depth cs))
            (addBytes (2 + (length cs - 1)) (assign p (JArr (replicate (length cs) JNull)) s)))"

definition visit_plain :: "'r js_object \<Rightarrow> slot list \<Rightarrow> nat \<Rightarrow> 'r walk \<Rightarrow> 'r walk option" where
  "visit_plain ob p depth s =
     (case plain_entries ob of
        None \<Rightarrow> None
      | Some es \<Rightarrow>
          (case addBytes (2 + (length es - 1)) (assign p (JObj []) s) of
             None \<Rightarrow> None
           | Some s' \<Rightarrow>
               map_option (push (child_items p depth (map (\<lambda>(key, v). (Key (unit_text key), v)) es)))
                 (addBytes (sum_list (map (\<lambda>(key, _). jsonStringByteLength key + 1) es)) s')))"

definition visit_object :: "'r js_heap \<Rightarrow> 'r \<Rightarrow> slot list \<Rightarrow> nat \<Rightarrow> 'r walk \<Rightarrow> 'r walk option" where
  "visit_object h r p depth s =
     (case s of
        (w, a, b, k, n, t) \<Rightarrow>
          if r \<in> a \<or> k + length (own_keys (h r)) > MAX_SERIALIZATION_KEYS then None
          else (if is_array (h r) then visit_array else visit_plain) (h r) p depth
                 (ExitItem r # w, insert r a, b, k + length (own_keys (h r)), n, t))"

definition visit_value :: "(real \<Rightarrow> utext) \<Rightarrow> 'r js_heap \<Rightarrow> 'r js_value \<Rightarrow> slot list \<Rightarrow> nat \<Rightarrow> 'r walk \<Rightarrow> 'r walk option" where
  "visit_value number_text h v p depth s =
     (case v of
        VNull \<Rightarrow> map_option (assign p JNull) (addBytes 4 s)
      | VStr x \<Rightarrow> map_option (assign p (JStr (unit_text x))) (addBytes (jsonStringByteLength x) s)
      | VBool x \<Rightarrow> map_option (assign p (JBool x)) (addBytes (if x then 4 else 5) s)
      | VNum (Num x) \<Rightarrow> map_option (assign p (JNum x)) (addBytes (length (number_text x)) s)
      | VNum _ \<Rightarrow> None
      | VOther \<Rightarrow> None
      | VRef r \<Rightarrow> visit_object h r p depth s)"

definition walk_step :: "(real \<Rightarrow> utext) \<Rightarrow> 'r js_heap \<Rightarrow> 'r walk \<Rightarrow> 'r walk option" where
  "walk_step number_text h s =
     (case s of
        (ExitItem r # w, a, b, k, n, t) \<Rightarrow> Some (w, a - {r}, b, k, n, t)
      | (ValueItem v p depth # w, a, b, k, n, t) \<Rightarrow>
          if Suc n > MAX_SERIALIZATION_NODES \<or> depth > MAX_SERIALIZATION_DEPTH then None
          else visit_value number_text h v p depth (w, a, b, k, Suc n, t)
      | ([], _) \<Rightarrow> Some s)"

definition walk_items :: "'r walk \<Rightarrow> 'r work list" where "walk_items s = fst s"
definition walk_nodes :: "'r walk \<Rightarrow> nat" where "walk_nodes s = fst (snd (snd (snd (snd s))))"
definition walk_snapshot :: "'r walk \<Rightarrow> json" where "walk_snapshot s = snd (snd (snd (snd (snd s))))"

text \<open>What is left to do: every value visited uses up a node and pushes at most one exit.\<close>

definition exits :: "'r work list \<Rightarrow> nat" where
  "exits w = length (filter (\<lambda>i. case i of ExitItem _ \<Rightarrow> True | _ \<Rightarrow> False) w)"

definition walk_left :: "'r walk \<Rightarrow> nat" where
  "walk_left s = 2 * (Suc MAX_SERIALIZATION_NODES - walk_nodes s) + exits (walk_items s)"

lemma exits_simps [simp]:
  "exits [] = 0" "exits (ExitItem r # w) = Suc (exits w)" "exits (ValueItem v p d # w) = exits w"
  "exits (x @ y) = exits x + exits y" "exits (child_items p d cs) = 0"
  by (auto simp: exits_def child_items_def filter_empty_conv filter_map split: work.splits)

lemma addBytes_Some:
  "addBytes m s = Some s' \<Longrightarrow> walk_items s' = walk_items s \<and> walk_nodes s' = walk_nodes s"
  by (auto simp: addBytes_def walk_items_def walk_nodes_def split: prod.splits if_splits)

lemma assign_same [simp]: "walk_items (assign p v s) = walk_items s" "walk_nodes (assign p v s) = walk_nodes s"
  by (auto simp: assign_def walk_items_def walk_nodes_def split: prod.splits)

lemma push_items [simp]: "walk_items (push i s) = i @ walk_items s" "walk_nodes (push i s) = walk_nodes s"
  by (auto simp: push_def walk_items_def walk_nodes_def split: prod.splits)

lemma visit_array_left: "visit_array ob p d s = Some s' \<Longrightarrow> walk_nodes s' = walk_nodes s \<and> exits (walk_items s') = exits (walk_items s)"
  by (auto simp: visit_array_def split: option.splits dest!: addBytes_Some)

lemma visit_plain_left: "visit_plain ob p d s = Some s' \<Longrightarrow> walk_nodes s' = walk_nodes s \<and> exits (walk_items s') = exits (walk_items s)"
  by (auto simp: visit_plain_def split: option.splits dest!: addBytes_Some)

lemma visit_object_left:
  "visit_object h r p d s = Some s' \<Longrightarrow> walk_nodes s' = walk_nodes s \<and> exits (walk_items s') \<le> Suc (exits (walk_items s))"
  by (auto simp: visit_object_def walk_nodes_def walk_items_def split: prod.splits if_splits
      dest!: visit_array_left visit_plain_left)

lemma visit_value_left:
  "visit_value nt h v p d s = Some s' \<Longrightarrow> walk_nodes s' = walk_nodes s \<and> exits (walk_items s') \<le> Suc (exits (walk_items s))"
  by (auto simp: visit_value_def split: js_value.splits jsnum.splits dest!: addBytes_Some visit_object_left)

lemma walk_step_left: "walk_items s \<noteq> [] \<Longrightarrow> walk_step nt h s = Some s' \<Longrightarrow> walk_left s' < walk_left s"
proof -
  obtain w a b k n t where s: "s = (w, a, b, k, n, t)" by (cases s) auto
  assume "walk_items s \<noteq> []" and step: "walk_step nt h s = Some s'"
  then obtain i w' where w: "w = i # w'" using s by (cases w) (auto simp: walk_items_def)
  show ?thesis
  proof (cases i)
    case (ExitItem r)
    with step s w show ?thesis by (auto simp: walk_step_def walk_left_def walk_items_def walk_nodes_def)
  next
    case (ValueItem v p d)
    with step s w have n: "Suc n \<le> MAX_SERIALIZATION_NODES" and v: "visit_value nt h v p d (w', a, b, k, Suc n, t) = Some s'"
      by (auto simp: walk_step_def split: if_splits)
    from visit_value_left [OF v] n s w ValueItem show ?thesis by (auto simp: walk_left_def walk_items_def walk_nodes_def)
  qed
qed

function walk_loop :: "(real \<Rightarrow> utext) \<Rightarrow> 'r js_heap \<Rightarrow> 'r walk \<Rightarrow> json option" where
  "walk_loop number_text h s =
     (if walk_items s = [] then Some (walk_snapshot s)
      else case walk_step number_text h s of None \<Rightarrow> None | Some s' \<Rightarrow> walk_loop number_text h s')"
  by pat_completeness auto

termination
  by (relation "measure (\<lambda>(_, _, s). walk_left s)") (auto dest: walk_step_left)

declare walk_loop.simps [simp del]

definition walk_start :: "'r js_value \<Rightarrow> 'r walk" where
  "walk_start v = ([ValueItem v [] 0], {}, 0, 0, 0, JNull)"

definition preflightJson :: "(real \<Rightarrow> utext) \<Rightarrow> 'r js_heap \<Rightarrow> 'r js_value \<Rightarrow> json option" where
  "preflightJson number_text h v = walk_loop number_text h (walk_start v)"

text \<open>\<open>JSON.stringify\<close> of the snapshot, with the given text of numbers.\<close>

fun stringify_with :: "(real \<Rightarrow> utext) \<Rightarrow> json \<Rightarrow> utext" where
  "stringify_with nt JNull = text_of ''null''"
| "stringify_with nt (JBool b) = (if b then text_of ''true'' else text_of ''false'')"
| "stringify_with nt (JNum r) = nt r"
| "stringify_with nt (JStr s) = quote_text s"
| "stringify_with nt (JArr vs) = 91 # comma_join (map (stringify_with nt) vs) @ [93]"
| "stringify_with nt (JObj ms) = 123 # comma_join (map (\<lambda>(k, v). quote_text k @ 58 # stringify_with nt v) ms) @ [125]"

definition serializeJson :: "(real \<Rightarrow> utext) \<Rightarrow> 'r js_heap \<Rightarrow> 'r js_value \<Rightarrow> nat list option" where
  "serializeJson number_text h v =
     (case preflightJson number_text h v of
        None \<Rightarrow> None
      | Some snapshot \<Rightarrow>
          let bytes = utf8_encode (stringify_with number_text snapshot)
          in if length bytes > MAX_SECURE_JSON_BYTES then None else Some bytes)"


section \<open>The walk ends\<close>

text \<open>The iterations of the loop of \<open>preflightJson\<close>.\<close>

function iterations :: "(real \<Rightarrow> utext) \<Rightarrow> 'r js_heap \<Rightarrow> 'r walk \<Rightarrow> nat" where
  "iterations number_text h s =
     (if walk_items s = [] then 0
      else Suc (case walk_step number_text h s of None \<Rightarrow> 0 | Some s' \<Rightarrow> iterations number_text h s'))"
  by pat_completeness auto

termination
  by (relation "measure (\<lambda>(_, _, s). walk_left s)") (auto dest: walk_step_left)

declare iterations.simps [simp del]

lemma iterations_bound: "iterations nt h s \<le> Suc (walk_left s)"
proof (induction nt h s rule: iterations.induct)
  case (1 nt h s)
  show ?case
  proof (cases "walk_items s = [] \<or> walk_step nt h s = None")
    case True
    then show ?thesis by (auto simp: iterations.simps [of nt h s])
  next
    case False
    then obtain s' where s': "walk_step nt h s = Some s'" "walk_items s \<noteq> []" by auto
    from 1 [OF s'(2,1)] walk_step_left [OF s'(2,1)] s' show ?thesis by (simp add: iterations.simps [of nt h s])
  qed
qed

text \<open>
  C37. The walk over an object graph ends, cyclic graphs included, after at most 200003 iterations of its loop,
  whatever the graph.
\<close>

theorem preflight_terminates: "iterations number_text h (walk_start v) \<le> 200003"
  using iterations_bound [of number_text h "walk_start v"]
  by (simp add: walk_left_def walk_start_def walk_nodes_def walk_items_def MAX_SERIALIZATION_NODES_def)

section \<open>The size of a string literal is exact\<close>

definition unit_ok :: "nat \<Rightarrow> bool" where "unit_ok c \<longleftrightarrow> c < 0x10000"

lemma units_ok: "list_all unit_ok (map unat (s :: units))"
proof -
  have "unit_ok (unat c)" for c :: "16 word" using unsigned_less [of c] by (simp add: unit_ok_def)
  then show ?thesis by (simp add: list_all_iff)
qed

definition literal_bytes :: "nat list \<Rightarrow> nat" where
  "literal_bytes us = length (utf8_encode (concat (map quote_unit (pair_up us))))"

lemma utf8_encode_append [simp]:
  "utf8_encode [] = []" "utf8_encode (s @ t) = utf8_encode s @ utf8_encode t"
  by (simp_all add: utf8_encode_def)

lemma ascii_bytes: "list_all (\<lambda>c. c < 128) s \<Longrightarrow> length (utf8_encode s) = length s"
  by (induction s) (simp_all add: utf8_encode_def length_encode_point)

lemma hex_digit_ascii: "d < 16 \<Longrightarrow> hex_digit d < 128"
  by (simp add: hex_digit_def)

definition short_escape :: "nat \<Rightarrow> bool" where
  "short_escape c \<longleftrightarrow> c = 0x22 \<or> c = 0x5C \<or> c = 8 \<or> c = 9 \<or> c = 10 \<or> c = 12 \<or> c = 13"

lemma quote_unit_cases:
  "short_escape c \<Longrightarrow> \<exists>e < 128. quote_unit c = [92, e]"
  "\<not> short_escape c \<Longrightarrow> c < 32 \<or> surrogate c \<Longrightarrow> length (quote_unit c) = 6 \<and> list_all (\<lambda>c. c < 128) (quote_unit c)"
  "\<not> short_escape c \<Longrightarrow> \<not> c < 32 \<Longrightarrow> \<not> surrogate c \<Longrightarrow> quote_unit c = [c]"
proof -
  show "short_escape c \<Longrightarrow> \<exists>e < 128. quote_unit c = [92, e]" by (auto simp: short_escape_def quote_unit_def)
  show "\<not> short_escape c \<Longrightarrow> \<not> c < 32 \<Longrightarrow> \<not> surrogate c \<Longrightarrow> quote_unit c = [c]" by (auto simp: short_escape_def quote_unit_def)
  assume c: "\<not> short_escape c" "c < 32 \<or> surrogate c"
  then have "c div 4096 < 16" by (auto simp: surrogate_def)
  with c show "length (quote_unit c) = 6 \<and> list_all (\<lambda>c. c < 128) (quote_unit c)"
    by (simp add: short_escape_def quote_unit_def hex_digit_ascii)
qed

lemma quote_unit_bytes:
  assumes "unit_ok c"
  shows "length (utf8_encode (quote_unit c)) =
    (if short_escape c then 2 else if c < 32 \<or> surrogate c then 6 else if c < 128 then 1 else if c < 2048 then 2 else 3)"
proof -
  consider "short_escape c" | "\<not> short_escape c" "c < 32 \<or> surrogate c" | "\<not> short_escape c" "\<not> c < 32" "\<not> surrogate c" by blast
  then show ?thesis
  proof cases
    case 1
    with quote_unit_cases(1) obtain e where "e < 128" "quote_unit c = [92, e]" by blast
    with 1 ascii_bytes [of "[92, e]"] show ?thesis by simp
  next
    case 2
    with quote_unit_cases(2) [OF 2] ascii_bytes show ?thesis by auto
  next
    case 3
    with quote_unit_cases(3) [OF 3] assms length_encode_point [of c] show ?thesis by (simp add: utf8_encode_def unit_ok_def)
  qed
qed

lemma literal_bytes_step:
  assumes "list_all unit_ok (c # cs)" and "unit_bytes c cs = (n, r)"
  shows "literal_bytes (c # cs) = n + literal_bytes r \<and> list_all unit_ok r"
proof -
  have plain: "literal_bytes (c # cs) = length (utf8_encode (quote_unit c)) + literal_bytes cs"
    if "\<not> (0xD800 \<le> c \<and> c < 0xDC00) \<or> cs = [] \<or> \<not> low_surrogate (hd cs)"
    using that by (cases cs) (auto simp: literal_bytes_def low_surrogate_def)
  show ?thesis
  proof (cases "0xD800 \<le> c \<and> c < 0xDC00 \<and> cs \<noteq> [] \<and> low_surrogate (hd cs)")
    case True
    then obtain l q where cs: "cs = l # q" by (cases cs) auto
    define x where "x = 0x10000 + (c - 0xD800) * 0x400 + (l - 0xDC00)"
    have x: "0x10000 \<le> x" "x < 0x110000" using True cs by (auto simp: x_def low_surrogate_def)
    have "pair_up (c # cs) = x # pair_up q" using True cs by (auto simp: x_def low_surrogate_def)
    moreover have "quote_unit x = [x]" using x by (auto simp: quote_unit_def surrogate_def)
    moreover have "length (utf8_encode [x]) = 4" using x by (simp add: utf8_encode_def length_encode_point)
    ultimately have "literal_bytes (c # cs) = 4 + literal_bytes q"
      using utf8_encode_append(2) [of "[x]" "concat (map quote_unit (pair_up q))"] by (simp add: literal_bytes_def)
    moreover have "n = 4" "r = q" using assms(2) True cs by (auto simp: unit_bytes_def)
    ultimately show ?thesis using assms(1) cs by simp
  next
    case False
    then have "unit_bytes c cs = (length (utf8_encode (quote_unit c)), cs)"
      using assms(1) quote_unit_bytes [of c]
      by (cases cs) (simp_all add: unit_bytes_def short_escape_def surrogate_def low_surrogate_def, linarith)
    with plain False assms show ?thesis by auto
  qed
qed

lemma string_loop_exact:
  "list_all unit_ok us \<Longrightarrow> b \<le> MAX_SECURE_JSON_BYTES \<Longrightarrow>
   (if b + literal_bytes us \<le> MAX_SECURE_JSON_BYTES then string_loop b us = b + literal_bytes us
    else string_loop b us > MAX_SECURE_JSON_BYTES)"
proof (induction b us rule: string_loop.induct)
  case (1 b)
  then show ?case by (simp add: literal_bytes_def)
next
  case (2 b c cs)
  obtain n r where u: "unit_bytes c cs = (n, r)" by (metis surj_pair)
  from literal_bytes_step [OF 2(2) u] 2(1) [OF u [symmetric]] u show ?case by (auto split: if_splits)
qed

definition text_bytes :: "utext \<Rightarrow> nat" where
  "text_bytes s = length (utf8_encode s)"

lemma text_bytes_simps [simp]:
  "text_bytes [] = 0" "text_bytes (s @ t) = text_bytes s + text_bytes t"
  "c < 128 \<Longrightarrow> text_bytes (c # s) = Suc (text_bytes s)"
  by (simp_all add: text_bytes_def) (simp add: utf8_encode_def encode_point_def surrogate_def)

lemma text_bytes_ascii: "list_all (\<lambda>c. c < 128) s \<Longrightarrow> text_bytes s = length s"
  by (induction s) auto

lemma jsonString_exact:
  "if text_bytes (quote_text (unit_text s)) \<le> MAX_SECURE_JSON_BYTES
   then jsonStringByteLength s = text_bytes (quote_text (unit_text s))
   else jsonStringByteLength s > MAX_SECURE_JSON_BYTES"
proof -
  have "text_bytes (quote_text (unit_text s)) = 2 + literal_bytes (map unat s)"
    by (simp add: quote_text_def unit_text_def literal_bytes_def flip: text_bytes_def)
  with string_loop_exact [OF units_ok [of s], of 2] show ?thesis
    by (simp add: jsonStringByteLength_def MAX_SECURE_JSON_BYTES_def split: if_splits)
qed

lemma addBytes_string:
  "b + jsonStringByteLength s \<le> MAX_SECURE_JSON_BYTES \<longleftrightarrow> b + text_bytes (quote_text (unit_text s)) \<le> MAX_SECURE_JSON_BYTES"
  "b + text_bytes (quote_text (unit_text s)) \<le> MAX_SECURE_JSON_BYTES \<Longrightarrow> jsonStringByteLength s = text_bytes (quote_text (unit_text s))"
  using jsonString_exact [of s] by (auto split: if_splits)

lemma text_bytes_join: "text_bytes (comma_join xs) = sum_list (map text_bytes xs) + (length xs - 1)"
  by (induction xs rule: comma_join.induct) auto

section \<open>The reference\<close>

text \<open>
  The copy of a value as a recursive function: the tree it unfolds to, no deeper than \<open>d\<close> levels and with no
  object inside itself, and the number of own keys met on the way.
\<close>

definition object_children :: "'r js_object \<Rightarrow> (slot \<times> 'r js_value) list option" where
  "object_children ob =
     (if is_array ob then array_children ob
      else map_option (map (\<lambda>(key, v). (Key (unit_text key), v))) (plain_entries ob))"

definition assemble :: "bool \<Rightarrow> slot list \<Rightarrow> json list \<Rightarrow> json" where
  "assemble arr sls ts =
     (if arr then JArr ts
      else JObj (fold (\<lambda>(sl, t) ms. case sl of Key k \<Rightarrow> jm_set ms k t | Index _ \<Rightarrow> ms) (zip sls ts) []))"

fun unfolds :: "'r js_heap \<Rightarrow> nat \<Rightarrow> 'r set \<Rightarrow> 'r js_value \<Rightarrow> (json \<times> nat) option" where
  "unfolds h 0 a v = None"
| "unfolds h (Suc d) a v =
     (case v of
        VNull \<Rightarrow> Some (JNull, 0)
      | VStr x \<Rightarrow> Some (JStr (unit_text x), 0)
      | VBool x \<Rightarrow> Some (JBool x, 0)
      | VNum (Num x) \<Rightarrow> Some (JNum x, 0)
      | VNum _ \<Rightarrow> None
      | VOther \<Rightarrow> None
      | VRef r \<Rightarrow>
          if r \<in> a then None
          else
            (case object_children (h r) of
               None \<Rightarrow> None
             | Some cs \<Rightarrow>
                 (case all_some (map (\<lambda>(_, c). unfolds h d (insert r a) c) cs) of
                    None \<Rightarrow> None
                  | Some ts \<Rightarrow>
                      Some (assemble (is_array (h r)) (map fst cs) (map fst ts),
                            length (own_keys (h r)) + sum_list (map snd ts)))))"

fun json_nodes :: "json \<Rightarrow> nat" where
  "json_nodes (JArr vs) = Suc (sum_list (map json_nodes vs))"
| "json_nodes (JObj ms) = Suc (sum_list (map (\<lambda>(_, v). json_nodes v) ms))"
| "json_nodes _ = 1"

section \<open>The walk computes the reference\<close>

lemma update_nth_same: "vs[i := f (vs[i := y] ! i)] = vs[i := f y]"
  by (cases "i < length vs") (auto simp: list_update_beyond)

lemma put_put: "put (put t p v) (p @ q) x = put t p (put v q x)"
proof (induction t p v rule: put.induct)
  case (2 vs i p v)
  then show ?case using update_nth_same [of vs i "\<lambda>y. put y (p @ q) x"] by simp
qed auto

lemma put_array: "put (put t p (JArr vs)) (p @ [Index i]) x = put t p (JArr (vs[i := x]))"
  by (simp add: put_put)

lemma put_object: "put (put t p (JObj ms)) (p @ [Key k]) x = put t p (JObj (jm_set ms k x))"
  by (simp add: put_put)

abbreviation put_all :: "slot list \<Rightarrow> (slot \<times> json) list \<Rightarrow> json \<Rightarrow> json" where
  "put_all p xs t \<equiv> fold (\<lambda>(sl, x) t. put t (p @ [sl]) x) xs t"

lemma put_all_array:
  "j + length ts \<le> length vs \<Longrightarrow>
   put_all p (zip (map Index [j..<j + length ts]) ts) (put t p (JArr vs)) = put t p (JArr (take j vs @ ts @ drop (j + length ts) vs))"
proof (induction ts arbitrary: j vs)
  case (Cons x ts)
  have "[j..<j + length (x # ts)] = j # [Suc j..<Suc j + length ts]" using upt_conv_Cons [of j "j + length (x # ts)"] by (simp del: upt_Suc)
  with Cons.IH [of "Suc j" "vs[j := x]"] Cons.prems show ?case
    by (simp add: put_array take_Suc_conv_app_nth)
qed simp

lemma put_all_object:
  "list_all (\<lambda>sl. \<exists>k. sl = Key k) (map fst xs) \<Longrightarrow>
   put_all p xs (put t p (JObj ms)) =
   put t p (JObj (fold (\<lambda>(sl, x) ms. case sl of Key k \<Rightarrow> jm_set ms k x | Index _ \<Rightarrow> ms) xs ms))"
  by (induction xs arbitrary: ms) (auto simp: put_object)

lemma all_some_length: "all_some xs = Some ys \<Longrightarrow> length ys = length xs"
  by (induction xs arbitrary: ys rule: all_some.induct) auto

definition fits :: "nat \<Rightarrow> nat \<Rightarrow> nat \<Rightarrow> bool" where
  "fits b k n \<longleftrightarrow> b \<le> MAX_SECURE_JSON_BYTES \<and> k \<le> MAX_SERIALIZATION_KEYS \<and> n \<le> MAX_SERIALIZATION_NODES"

lemma fits_mono: "fits b k n \<Longrightarrow> b' \<le> b \<Longrightarrow> k' \<le> k \<Longrightarrow> n' \<le> n \<Longrightarrow> fits b' k' n'"
  by (auto simp: fits_def)

definition json_size :: "(real \<Rightarrow> utext) \<Rightarrow> json \<Rightarrow> nat" where
  "json_size nt v = text_bytes (stringify_with nt v)"

definition sizes :: "(real \<Rightarrow> utext) \<Rightarrow> (json \<times> nat) list \<Rightarrow> nat" where
  "sizes nt ts = sum_list (map (json_size nt \<circ> fst) ts)"

definition node_sum :: "(json \<times> nat) list \<Rightarrow> nat" where
  "node_sum ts = sum_list (map (json_nodes \<circ> fst) ts)"

definition key_sum :: "(json \<times> nat) list \<Rightarrow> nat" where
  "key_sum ts = sum_list (map snd ts)"

text \<open>What the loop does with one value, as an equation; \<open>m\<close> levels are left.\<close>

definition walks :: "(real \<Rightarrow> utext) \<Rightarrow> 'r js_heap \<Rightarrow> nat \<Rightarrow> bool" where
  "walks nt h m \<longleftrightarrow>
     (\<forall>v p depth w a b k n t. depth + m = Suc MAX_SERIALIZATION_DEPTH \<longrightarrow> fits b k n \<longrightarrow>
        walk_loop nt h (ValueItem v p depth # w, a, b, k, n, t) =
        (case unfolds h m a v of
           None \<Rightarrow> None
         | Some (x, j) \<Rightarrow>
             if fits (b + json_size nt x) (k + j) (n + json_nodes x)
             then walk_loop nt h (w, a, b + json_size nt x, k + j, n + json_nodes x, put t p x) else None))"

lemma child_items_simps [simp]:
  "child_items p d [] = []" "child_items p d ((sl, v) # cs) = ValueItem v (p @ [sl]) (Suc d) # child_items p d cs"
  by (simp_all add: child_items_def)

lemma walk_children:
  assumes IH: "walks nt h m" and d: "Suc depth + m = Suc MAX_SERIALIZATION_DEPTH"
  shows "fits b k n \<Longrightarrow> walk_loop nt h (child_items p depth cs @ w, a, b, k, n, t) =
    (case all_some (map (\<lambda>(_, c). unfolds h m a c) cs) of
       None \<Rightarrow> None
     | Some ts \<Rightarrow>
         if fits (b + sizes nt ts) (k + key_sum ts) (n + node_sum ts)
         then walk_loop nt h (w, a, b + sizes nt ts, k + key_sum ts, n + node_sum ts, put_all p (zip (map fst cs) (map fst ts)) t)
         else None)"
proof (induction cs arbitrary: b k n t)
  case Nil
  then show ?case by (simp add: sizes_def key_sum_def node_sum_def)
next
  case (Cons c cs)
  obtain sl v where c: "c = (sl, v)" by (metis surj_pair)
  have first: "walk_loop nt h (child_items p depth (c # cs) @ w, a, b, k, n, t) =
      (case unfolds h m a v of None \<Rightarrow> None | Some (x, j) \<Rightarrow>
         if fits (b + json_size nt x) (k + j) (n + json_nodes x)
         then walk_loop nt h (child_items p depth cs @ w, a, b + json_size nt x, k + j, n + json_nodes x, put t (p @ [sl]) x) else None)"
    using IH d Cons.prems c unfolding walks_def by simp
  show ?case
  proof (cases "unfolds h m a v")
    case None
    with first c show ?thesis by simp
  next
    case (Some y)
    obtain x j where y: "y = (x, j)" by (metis surj_pair)
    show ?thesis
    proof (cases "fits (b + json_size nt x) (k + j) (n + json_nodes x)")
      case True
      from Cons.IH [OF True] first Some y c True show ?thesis
        by (auto simp: sizes_def key_sum_def node_sum_def add.assoc split: option.splits)
    next
      case False
      then have "\<not> fits (b + (json_size nt x + u)) (k + (j + q)) (n + (json_nodes x + z))" for u q z
        by (auto simp: fits_def)
      with first Some y c False show ?thesis
        by (auto simp: sizes_def key_sum_def node_sum_def split: option.splits)
    qed
  qed
qed

section \<open>Keys are distinct\<close>

text \<open>The code units of a text; a string of units is determined by its text.\<close>

definition point_units :: "nat \<Rightarrow> nat list" where
  "point_units c = (if c < 0x10000 then [c] else [0xD800 + (c - 0x10000) div 0x400, 0xDC00 + (c - 0x10000) mod 0x400])"

lemma pair_up_units: "list_all unit_ok us \<Longrightarrow> concat (map point_units (pair_up us)) = us"
proof (induction us rule: pair_up.induct)
  case (1 h l r)
  show ?case
  proof (cases "0xD800 \<le> h \<and> h < 0xDC00 \<and> 0xDC00 \<le> l \<and> l < 0xE000")
    case True
    define y where "y = l - 0xDC00"
    have "y < 1024" "l = 0xDC00 + y" using True by (auto simp: y_def)
    then have "point_units (0x10000 + (h - 0xD800) * 0x400 + (l - 0xDC00)) = [h, l]" using True by (simp add: point_units_def)
    with True 1 show ?thesis by simp
  next
    case False
    with 1 have "concat (map point_units (pair_up (l # r))) = l # r" by simp
    moreover have "point_units h = [h]" using 1(3) by (simp add: point_units_def unit_ok_def)
    ultimately show ?thesis using False by auto
  qed
qed (auto simp: point_units_def unit_ok_def)

lemma unit_text_inj: "inj unit_text"
proof (rule injI)
  fix s t :: units assume "unit_text s = unit_text t"
  then have "map unat s = map unat t" using pair_up_units [OF units_ok] unfolding unit_text_def by metis
  moreover have "inj (unat :: 16 word \<Rightarrow> nat)" using word_unat_eq_iff by (blast intro: injI)
  ultimately show "s = t" using inj_map_eq_map by blast
qed

text \<open>What holds of every heap: the own keys of an object are distinct.\<close>

definition heap_ok :: "'r js_heap \<Rightarrow> bool" where
  "heap_ok h \<longleftrightarrow> (\<forall>r. distinct (map fst (own_keys (h r))))"

lemma all_some_map: "all_some (map f xs) = Some ys \<Longrightarrow> list_all2 (\<lambda>x y. f x = Some y) xs ys"
proof (induction xs arbitrary: ys)
  case (Cons x xs)
  then show ?case by (cases "f x") auto
qed simp

lemma plain_entries_distinct:
  assumes "distinct (map fst (own_keys ob))" and "plain_entries ob = Some es"
  shows "distinct (map (unit_text \<circ> fst) es)"
proof -
  let ?xs = "filter (\<lambda>(_, d). enumerable d) (own_keys ob)"
  have "list_all2 (\<lambda>x y. plain_entry x = Some y) ?xs es"
    using assms(2) by (auto simp: plain_entries_def dest: all_some_map split: if_splits)
  then have "map fst ?xs = map (KString \<circ> fst) es"
  proof (induction rule: list_all2_induct)
    case (Cons x xs y ys)
    then show ?case by (cases x rule: plain_entry.cases) (auto split: property_value.splits)
  qed simp
  moreover have "distinct (map fst ?xs)" using assms(1) by (rule distinct_map_filter)
  ultimately have "distinct (map (KString \<circ> fst) es)" by simp
  then have "distinct (map fst es)" by (auto simp: distinct_map inj_on_def)
  then show ?thesis using unit_text_inj by (auto simp: distinct_map inj_on_def)
qed

lemma fold_keys_distinct:
  "distinct (ks @ map fst ms) \<Longrightarrow> length ts = length ks \<Longrightarrow>
   fold (\<lambda>(sl, t) ms. case sl of Key k \<Rightarrow> jm_set ms k t | Index _ \<Rightarrow> ms) (zip (map Key ks) ts) ms = ms @ zip ks ts"
proof (induction ks arbitrary: ts ms)
  case (Cons k ks)
  then obtain t ts' where "ts = t # ts'" by (cases ts) auto
  moreover from Cons.prems have "jm_set ms k t = ms @ [(k, t)]" for t by (intro jm_set_fresh) auto
  ultimately show ?case using Cons by simp
qed simp

section \<open>Sizes\<close>

definition ascii_numbers :: "(real \<Rightarrow> utext) \<Rightarrow> bool" where
  "ascii_numbers nt \<longleftrightarrow> (\<forall>r. list_all (\<lambda>c. c < 128) (nt r))"

lemma json_size_atoms:
  "json_size nt JNull = 4" "json_size nt (JBool x) = (if x then 4 else 5)"
  "ascii_numbers nt \<Longrightarrow> json_size nt (JNum r) = length (nt r)"
  "json_size nt (JStr s) = text_bytes (quote_text s)"
  by (simp_all add: json_size_def text_of_def text_bytes_ascii ascii_numbers_def)

lemma json_size_array: "json_size nt (JArr ts) = 2 + (length ts - 1) + sum_list (map (json_size nt) ts)"
  by (simp add: json_size_def [abs_def] text_bytes_join comp_def)

lemma json_size_object:
  "length ts = length ks \<Longrightarrow>
   json_size nt (JObj (zip ks ts)) =
   2 + (length ks - 1) + sum_list (map (\<lambda>k. text_bytes (quote_text k) + 1) ks) + sum_list (map (json_size nt) ts)"
proof -
  assume l: "length ts = length ks"
  have "sum_list (map (\<lambda>(k, v). text_bytes (quote_text k @ 58 # stringify_with nt v)) (zip ks ts)) =
      sum_list (map (\<lambda>k. text_bytes (quote_text k) + 1) ks) + sum_list (map (json_size nt) ts)"
    using l by (induction ts ks rule: list_induct2) (simp_all add: json_size_def)
  then show ?thesis using l by (simp add: json_size_def text_bytes_join comp_def case_prod_unfold)
qed

lemma json_nodes_object: "length ts = length ks \<Longrightarrow> json_nodes (JObj (zip ks ts)) = Suc (sum_list (map json_nodes ts))"
  by (induction ts ks rule: list_induct2) simp_all

lemma json_nodes_pos: "1 \<le> json_nodes t"
  by (cases t) auto

lemma key_bytes_exact:
  fixes es :: "(units \<times> 'a) list"
  defines "approx \<equiv> sum_list (map (\<lambda>(key, _). jsonStringByteLength key + 1) es)"
  defines "exact \<equiv> sum_list (map (\<lambda>k. text_bytes (quote_text k) + 1) (map (unit_text \<circ> fst) es))"
  shows "(b + approx \<le> MAX_SECURE_JSON_BYTES \<longleftrightarrow> b + exact \<le> MAX_SECURE_JSON_BYTES) \<and>
    (b + exact \<le> MAX_SECURE_JSON_BYTES \<longrightarrow> approx = exact)"
  unfolding approx_def exact_def
proof (induction es arbitrary: b)
  case (Cons e es)
  obtain key v where e: "e = (key, v)" by (metis surj_pair)
  show ?case
  proof (cases "b + 1 + text_bytes (quote_text (unit_text key)) \<le> MAX_SECURE_JSON_BYTES")
    case True
    then have "jsonStringByteLength key = text_bytes (quote_text (unit_text key))" using addBytes_string(2) [of "b + 1"] by simp
    with Cons.IH [of "b + (text_bytes (quote_text (unit_text key)) + 1)"] e show ?thesis by (auto simp: algebra_simps)
  next
    case False
    then have "\<not> b + 1 + jsonStringByteLength key \<le> MAX_SECURE_JSON_BYTES" using addBytes_string(1) [of "b + 1"] by simp
    with False e show ?thesis by auto
  qed
qed simp

section \<open>One value\<close>

lemma walk_loop_value:
  "walk_loop nt h (ValueItem v p depth # w, a, b, k, n, t) =
     (if Suc n > MAX_SERIALIZATION_NODES \<or> depth > MAX_SERIALIZATION_DEPTH then None
      else case visit_value nt h v p depth (w, a, b, k, Suc n, t) of None \<Rightarrow> None | Some s \<Rightarrow> walk_loop nt h s)"
  by (subst walk_loop.simps) (simp add: walk_step_def walk_items_def)

lemma walk_loop_exit: "walk_loop nt h (ExitItem r # w, a, b, k, n, t) = walk_loop nt h (w, a - {r}, b, k, n, t)"
  by (subst walk_loop.simps) (simp add: walk_step_def walk_items_def)

lemma walk_loop_done: "walk_loop nt h ([], a, b, k, n, t) = Some t"
  by (subst walk_loop.simps) (simp add: walk_items_def walk_snapshot_def)

lemma array_children_shape:
  "array_children ob = Some cs \<Longrightarrow> map fst cs = map Index [0..<length cs]"
  by (auto simp: array_children_def Let_def dest!: all_some_length split: if_splits)

text \<open>The children of an object with their walk, and what is assembled from them.\<close>

lemma visit_children:
  assumes ok: "distinct (map fst (own_keys ob))" and fits: "fits b k n"
  shows "(if is_array ob then visit_array else visit_plain) ob p depth (w, a, b, k, n, t) =
    (case object_children ob of
       None \<Rightarrow> None
     | Some cs \<Rightarrow>
         let own = json_size nt (assemble (is_array ob) (map fst cs) (replicate (length cs) JNull)) - 4 * length cs
         in if b + own \<le> MAX_SECURE_JSON_BYTES
            then Some (child_items p depth cs @ w, a, b + own, k, n,
                   put t p (if is_array ob then JArr (replicate (length cs) JNull) else JObj []))
            else None)"
proof (cases "is_array ob")
  case True
  then show ?thesis
    by (auto simp: visit_array_def object_children_def addBytes_def assign_def push_def assemble_def json_size_array
        json_size_atoms sum_list_replicate Let_def split: option.splits)
next
  case False
  show ?thesis
  proof (cases "plain_entries ob")
    case None
    with False show ?thesis by (simp add: visit_plain_def object_children_def)
  next
    case (Some es)
    let ?ks = "map (unit_text \<circ> fst) es"
    let ?cs = "map (\<lambda>(key, v). (Key (unit_text key), v)) es"
    have "distinct ?ks" by (rule plain_entries_distinct [OF ok Some])
    moreover have "map fst ?cs = map Key ?ks" by auto
    ultimately have "assemble False (map fst ?cs) (replicate (length ?cs) JNull) = JObj (zip ?ks (replicate (length ?cs) JNull))"
      using fold_keys_distinct [of ?ks "[]" "replicate (length ?cs) JNull"] by (simp add: assemble_def del: map_map)
    then have own: "json_size nt (assemble False (map fst ?cs) (replicate (length ?cs) JNull)) - 4 * length ?cs =
        2 + (length es - 1) + sum_list (map (\<lambda>k. text_bytes (quote_text k) + 1) ?ks)"
      by (simp add: json_size_object json_size_atoms sum_list_replicate)
    from False Some own key_bytes_exact [of "b + (2 + (length es - 1))" es] show ?thesis
      by (auto simp: visit_plain_def object_children_def addBytes_def assign_def push_def Let_def)
  qed
qed

lemma plain_children:
  assumes "distinct (map fst (own_keys ob))" "\<not> is_array ob" "object_children ob = Some cs" "length xs = length cs"
  obtains ks where "distinct ks" "map fst cs = map Key ks" "length xs = length ks" "assemble False (map fst cs) xs = JObj (zip ks xs)"
proof -
  obtain es where es: "plain_entries ob = Some es" "cs = map (\<lambda>(key, v). (Key (unit_text key), v)) es"
    using assms(2,3) by (auto simp: object_children_def)
  let ?ks = "map (unit_text \<circ> fst) es"
  have d: "distinct ?ks" by (rule plain_entries_distinct [OF assms(1) es(1)])
  have k: "map fst cs = map Key ?ks" using es(2) by auto
  have l: "length xs = length ?ks" using assms(4) es(2) by simp
  have "assemble False (map fst cs) xs = JObj (zip ?ks xs)"
    unfolding k assemble_def using fold_keys_distinct [of ?ks "[]" xs] d l by (simp del: map_map)
  with d k l that show thesis by blast
qed

lemma assemble_size:
  assumes "distinct (map fst (own_keys ob))" "object_children ob = Some cs" "length xs = length cs"
  shows "json_size nt (assemble (is_array ob) (map fst cs) xs) =
    json_size nt (assemble (is_array ob) (map fst cs) (replicate (length cs) JNull)) - 4 * length cs + sum_list (map (json_size nt) xs)"
    "json_nodes (assemble (is_array ob) (map fst cs) xs) = Suc (sum_list (map json_nodes xs))"
proof -
  let ?nulls = "replicate (length cs) JNull"
  show "json_size nt (assemble (is_array ob) (map fst cs) xs) =
      json_size nt (assemble (is_array ob) (map fst cs) ?nulls) - 4 * length cs + sum_list (map (json_size nt) xs)"
  proof (cases "is_array ob")
    case True
    with assms(3) show ?thesis by (simp add: assemble_def json_size_array json_size_atoms sum_list_replicate)
  next
    case False
    from plain_children [OF assms(1) False assms(2,3)] obtain ks where k: "distinct ks" "map fst cs = map Key ks"
      "length xs = length ks" "assemble False (map fst cs) xs = JObj (zip ks xs)" by blast
    have "length cs = length ks" using k(3) assms(3) by simp
    with k fold_keys_distinct [of ks "[]" ?nulls] have "assemble False (map fst cs) ?nulls = JObj (zip ks ?nulls)"
      by (simp add: assemble_def)
    with False k assms(3) show ?thesis by (simp add: json_size_object json_size_atoms sum_list_replicate)
  qed
  show "json_nodes (assemble (is_array ob) (map fst cs) xs) = Suc (sum_list (map json_nodes xs))"
  proof (cases "is_array ob")
    case True
    then show ?thesis by (simp add: assemble_def)
  next
    case False
    from plain_children [OF assms(1) False assms(2,3)] obtain ks where "length xs = length ks"
      "assemble False (map fst cs) xs = JObj (zip ks xs)" by blast
    with False json_nodes_object show ?thesis by simp
  qed
qed

lemma assemble_put:
  assumes "object_children ob = Some cs" "length xs = length cs"
  shows "put_all p (zip (map fst cs) xs) (put t p (if is_array ob then JArr (replicate (length cs) JNull) else JObj [])) =
    put t p (assemble (is_array ob) (map fst cs) xs)"
proof (cases "is_array ob")
  case True
  then have "map fst cs = map Index [0..<length cs]" using assms(1) by (auto simp: object_children_def intro: array_children_shape)
  with True assms(2) put_all_array [of 0 xs "replicate (length cs) JNull" p t] show ?thesis by (simp add: assemble_def)
next
  case False
  then have "list_all (\<lambda>sl. \<exists>k. sl = Key k) (map fst cs)" using assms(1) by (auto simp: object_children_def list_all_iff)
  then have "list_all (\<lambda>sl. \<exists>k. sl = Key k) (map fst (zip (map fst cs) xs))" using assms(2) by simp
  from put_all_object [OF this] False show ?thesis by (simp add: assemble_def)
qed

lemma walk_object:
  assumes ok: "heap_ok h" and IH: "walks nt h m" and d: "Suc depth + m = Suc MAX_SERIALIZATION_DEPTH"
    and f: "fits b (k + length (own_keys (h r))) (Suc n)" and r: "r \<notin> a"
  shows "(case visit_object h r p depth (w, a, b, k, Suc n, t) of None \<Rightarrow> None | Some s \<Rightarrow> walk_loop nt h s) =
    (case unfolds h (Suc m) a (VRef r) of
       None \<Rightarrow> None
     | Some (x, j) \<Rightarrow>
         if fits (b + json_size nt x) (k + j) (n + json_nodes x)
         then walk_loop nt h (w, a, b + json_size nt x, k + j, n + json_nodes x, put t p x) else None)"
proof -
  let ?ob = "h r" and ?a = "insert r a" and ?k = "k + length (own_keys (h r))"
  have dist: "distinct (map fst (own_keys ?ob))" using ok by (simp add: heap_ok_def)
  have visit: "visit_object h r p depth (w, a, b, k, Suc n, t) =
      (if is_array ?ob then visit_array else visit_plain) ?ob p depth (ExitItem r # w, ?a, b, ?k, Suc n, t)"
    using r f by (simp add: visit_object_def fits_def)
  show ?thesis
  proof (cases "object_children ?ob")
    case None
    with r visit visit_children [OF dist f] show ?thesis by simp
  next
    case (Some cs)
    let ?own = "json_size nt (assemble (is_array ?ob) (map fst cs) (replicate (length cs) JNull)) - 4 * length cs"
    let ?t = "put t p (if is_array ?ob then JArr (replicate (length cs) JNull) else JObj [])"
    have v: "visit_object h r p depth (w, a, b, k, Suc n, t) =
        (if b + ?own \<le> MAX_SECURE_JSON_BYTES then Some (child_items p depth cs @ ExitItem r # w, ?a, b + ?own, ?k, Suc n, ?t) else None)"
      unfolding visit visit_children [OF dist f, where nt = nt] Some by (simp add: Let_def)
    show ?thesis
    proof (cases "all_some (map (\<lambda>(_, c). unfolds h m ?a c) cs)")
      case None
      then show ?thesis using v Some r f walk_children [OF IH d, where cs = cs and a = ?a] by (auto simp: fits_def)
    next
      case ts: (Some ts)
      have l: "length (map fst ts) = length cs" using all_some_length [OF ts] by simp
      note sz = assemble_size [OF dist Some l] and pt = assemble_put [OF Some l, of p t]
      have sums: "sum_list (map (json_size nt) (map fst ts)) = sizes nt ts" "sum_list (map json_nodes (map fst ts)) = node_sum ts"
        by (simp_all add: sizes_def node_sum_def)
      have u: "unfolds h (Suc m) a (VRef r) = Some (assemble (is_array ?ob) (map fst cs) (map fst ts), length (own_keys ?ob) + key_sum ts)"
        using r Some ts by (simp add: key_sum_def)
      have restored: "?a - {r} = a" using r by auto
      show ?thesis
      proof (cases "b + ?own \<le> MAX_SECURE_JSON_BYTES")
        case True
        then have f2: "fits (b + ?own) ?k (Suc n)" using f by (simp add: fits_def)
        show ?thesis unfolding u v using walk_children [OF IH d f2, where cs = cs and a = ?a and p = p and t = ?t and w = "ExitItem r # w"] ts True
          by (simp add: sz sums pt walk_loop_exit restored add.assoc del: map_map)
      next
        case False
        then show ?thesis unfolding u v using sz(1) by (simp add: fits_def)
      qed
    qed
  qed
qed

lemma unfolds_keys: "unfolds h (Suc m) a (VRef r) = Some (x, j) \<Longrightarrow> length (own_keys (h r)) \<le> j"
  by (auto split: if_splits option.splits)

lemma walk_atom:
  assumes "ascii_numbers nt" and "fits b k (Suc n)" and "\<forall>r. v \<noteq> VRef r"
  shows "(case visit_value nt h v p depth (w, a, b, k, Suc n, t) of None \<Rightarrow> None | Some s \<Rightarrow> walk_loop nt h s) =
    (case unfolds h (Suc m) a v of
       None \<Rightarrow> None
     | Some (x, j) \<Rightarrow>
         if fits (b + json_size nt x) (k + j) (n + json_nodes x)
         then walk_loop nt h (w, a, b + json_size nt x, k + j, n + json_nodes x, put t p x) else None)"
proof (cases v)
  case (VStr s)
  with assms addBytes_string [of b s] show ?thesis
    by (auto simp: visit_value_def addBytes_def assign_def json_size_atoms fits_def not_less)
next
  case (VNum z)
  with assms show ?thesis
    by (cases z) (auto simp: visit_value_def addBytes_def assign_def json_size_atoms fits_def)
qed (use assms in \<open>auto simp: visit_value_def addBytes_def assign_def json_size_atoms fits_def\<close>)

lemma walks_all:
  assumes "heap_ok h" and "ascii_numbers nt"
  shows "walks nt h m"
proof (induction m)
  case 0
  show ?case unfolding walks_def by (auto simp: walk_loop_value)
next
  case (Suc m)
  show ?case unfolding walks_def
  proof (intro allI impI)
    fix v :: "'a js_value" and p depth w a b k n t
    assume d: "depth + Suc m = Suc MAX_SERIALIZATION_DEPTH" and f: "fits b k n"
    let ?rhs = "case unfolds h (Suc m) a v of None \<Rightarrow> None | Some (x, j) \<Rightarrow>
       if fits (b + json_size nt x) (k + j) (n + json_nodes x)
       then walk_loop nt h (w, a, b + json_size nt x, k + j, n + json_nodes x, put t p x) else None"
    show "walk_loop nt h (ValueItem v p depth # w, a, b, k, n, t) = ?rhs"
    proof (cases "Suc n \<le> MAX_SERIALIZATION_NODES")
      case False
      then have "\<not> fits y z (n + json_nodes x)" for x y z using json_nodes_pos [of x] by (auto simp: fits_def)
      with False show ?thesis by (auto simp: walk_loop_value simp del: unfolds.simps split: option.splits)
    next
      case True
      then have l: "walk_loop nt h (ValueItem v p depth # w, a, b, k, n, t) =
          (case visit_value nt h v p depth (w, a, b, k, Suc n, t) of None \<Rightarrow> None | Some s \<Rightarrow> walk_loop nt h s)"
        using d by (simp add: walk_loop_value)
      have f1: "fits b k (Suc n)" using f True by (simp add: fits_def)
      show ?thesis
      proof (cases "\<exists>r. v = VRef r")
        case False
        with l walk_atom [OF assms(2) f1, of v] show ?thesis by auto
      next
        case True
        then obtain r where v: "v = VRef r" by blast
        show ?thesis
        proof (cases "r \<in> a \<or> k + length (own_keys (h r)) > MAX_SERIALIZATION_KEYS")
          case True
          then have "?rhs = None" using v unfolds_keys [of h m a r]
            by (auto simp: fits_def simp del: unfolds.simps(2) split: option.splits) (auto simp: v)
          with True l v show ?thesis by (simp add: visit_value_def visit_object_def)
        next
          case False
          then have "r \<notin> a" "fits b (k + length (own_keys (h r))) (Suc n)" using f1 by (auto simp: fits_def)
          from walk_object [OF assms(1) Suc.IH _ this(2,1)] d l v show ?thesis by (simp add: visit_value_def del: unfolds.simps)
        qed
      qed
    qed
  qed
qed

lemma preflight_eq:
  assumes "heap_ok h" and "ascii_numbers number_text"
  shows "preflightJson number_text h v =
    (case unfolds h 257 {} v of
       None \<Rightarrow> None
     | Some (x, j) \<Rightarrow> if fits (json_size number_text x) j (json_nodes x) then Some x else None)"
proof -
  have "0 + 257 = Suc MAX_SERIALIZATION_DEPTH" "fits 0 0 0" by (simp_all add: MAX_SERIALIZATION_DEPTH_def fits_def)
  then have "walk_loop number_text h (ValueItem v [] 0 # [], {}, 0, 0, 0, JNull) =
      (case unfolds h 257 {} v of None \<Rightarrow> None | Some (x, j) \<Rightarrow>
         if fits (0 + json_size number_text x) (0 + j) (0 + json_nodes x)
         then walk_loop number_text h ([], {}, 0 + json_size number_text x, 0 + j, 0 + json_nodes x, put JNull [] x) else None)"
    using walks_all [OF assms, of 257] unfolding walks_def by blast
  then show ?thesis by (simp add: preflightJson_def walk_start_def walk_loop_done split: option.splits)
qed

text \<open>
  C36. The serialiser, which copies a value iteratively and counts as it goes, accepts exactly the values that
  unfold to a tree of at most 257 levels, with no object inside itself, no accessor, symbol, foreign prototype or
  infinite number, and within the limits on nodes, keys and bytes; its result is the text of that tree. In
  particular the count is exact: the final check of the size never fails.
\<close>

theorem serialize_reference:
  assumes "heap_ok h" and "ascii_numbers number_text"
  shows "serializeJson number_text h v =
    (case unfolds h 257 {} v of
       None \<Rightarrow> None
     | Some (x, j) \<Rightarrow>
         let bytes = utf8_encode (stringify_with number_text x)
         in if length bytes \<le> MAX_SECURE_JSON_BYTES \<and> j \<le> MAX_SERIALIZATION_KEYS \<and> json_nodes x \<le> MAX_SERIALIZATION_NODES
            then Some bytes else None)"
  unfolding serializeJson_def preflight_eq [OF assms]
  by (auto simp: fits_def json_size_def text_bytes_def Let_def split: option.splits)

section \<open>Witnesses\<close>

definition floor_text :: "real \<Rightarrow> utext" where
  "floor_text r = print_int \<lfloor>r\<rfloor>"

lemma print_nat_ascii: "list_all (\<lambda>c. c < 128) (print_nat n)"
proof (induction n rule: print_nat.induct)
  case (1 n)
  have "n mod 10 < 10" by simp
  then have "48 + n mod 10 < 128" by linarith
  with 1 show ?case by (subst print_nat.simps) simp
qed

lemma floor_text_ascii: "ascii_numbers floor_text"
  using print_nat_ascii by (auto simp: ascii_numbers_def floor_text_def print_int_def)

text \<open>The object \<open>a: [1, true]\<close> in braces, and an object that contains itself.\<close>

definition data_prop :: "'r js_value \<Rightarrow> 'r property" where
  "data_prop v = \<lparr>enumerable = True, property_value = Data v\<rparr>"

definition example_heap :: "nat js_heap" where
  "example_heap r =
     (if r = 0 then \<lparr>is_array = False, array_length = 0, plain_prototype = True, own_keys = [(KString [97], data_prop (VRef 1))]\<rparr>
      else if r = 1 then \<lparr>is_array = True, array_length = 2, plain_prototype = False,
        own_keys = [(KString [48], data_prop (VNum (Num 1))), (KString [49], data_prop (VBool True)),
          (KString [108, 101, 110, 103, 116, 104], \<lparr>enumerable = False, property_value = Data (VNum (Num 2))\<rparr>)]\<rparr>
      else \<lparr>is_array = False, array_length = 0, plain_prototype = True, own_keys = [(KString [97], data_prop (VRef r))]\<rparr>)"

lemma example_heap_ok: "heap_ok example_heap"
  by (simp add: heap_ok_def example_heap_def)

definition example_tree :: json where
  "example_tree = JObj [([97], JArr [JNum 1, JBool True])]"

lemma example_unfolds:
  "unfolds example_heap 257 {} (VRef 0) = Some (example_tree, 4)"
  "unfolds example_heap 257 {} (VRef 7) = None"
proof -
  have ix: "index_key 0 = KString [48]" "index_key (Suc 0) = KString [49]"
    by (simp_all add: index_key_def print_nat.simps)
  have u: "[0..<2::nat] = [0, Suc 0]" by (simp add: upt_rec)
  have "unfolds example_heap (Suc (Suc (Suc m))) {} (VRef 0) = Some (example_tree, 4)" for m
    using ix u by (simp add: example_heap_def object_children_def plain_entries_def array_children_def data_prop_def unit_text_def
        data_property_def is_symbol_def assemble_def example_tree_def MAX_SERIALIZATION_NODES_def)
  from this [of 254] show "unfolds example_heap 257 {} (VRef 0) = Some (example_tree, 4)" by simp
  have "unfolds example_heap (Suc (Suc m)) {} (VRef 7) = None" for m
    by (simp add: example_heap_def object_children_def plain_entries_def data_prop_def)
  from this [of 255] show "unfolds example_heap 257 {} (VRef 7) = None" by simp
qed

definition example_text :: utext where
  "example_text = text_of ''{'' @ [34, 97, 34] @ text_of '':[1,true]}''"

lemma example_text_eq: "stringify_with floor_text example_tree = example_text" "stringify example_tree = example_text"
proof -
  have "floor_text 1 = [49]" "print_int 1 = [49]" by (simp_all add: floor_text_def print_int_def print_nat.simps)
  then show "stringify_with floor_text example_tree = example_text" "stringify example_tree = example_text"
    by (simp_all add: quote_text_def quote_unit_def surrogate_def text_of_def example_text_def example_tree_def)
qed

lemma example_text_bytes: "length (utf8_encode example_text) = 14"
  by (simp add: utf8_encode_def encode_point_def surrogate_def text_of_def example_text_def)

lemma example_nodes: "json_nodes example_tree = 4"
  by (simp add: example_tree_def)

lemma example_serialized: "serializeJson floor_text example_heap (VRef 0) = Some (utf8_encode example_text)"
  using preflight_eq [OF example_heap_ok floor_text_ascii, of "VRef 0"] example_text_bytes
  by (simp add: serializeJson_def example_unfolds(1) fits_def json_size_def text_bytes_def example_text_eq(1) example_nodes
      MAX_SECURE_JSON_BYTES_def MAX_SERIALIZATION_KEYS_def MAX_SERIALIZATION_NODES_def)

theorem serialize_reference_witness:
  "serializeJson floor_text example_heap (VRef 0) = Some (utf8_encode example_text) \<and>
   serializeJson floor_text example_heap (VRef 7) = None"
  unfolding serialize_reference [OF example_heap_ok floor_text_ascii] example_unfolds
  using example_text_bytes
  by (simp add: Let_def example_text_eq(1) example_nodes MAX_SECURE_JSON_BYTES_def MAX_SERIALIZATION_KEYS_def MAX_SERIALIZATION_NODES_def)

end
