(* ===== verification/SecureJsonFile.thy ===== *)
theory SecureJsonFile
  imports JsonPreflight Protocol Frames
begin

text \<open>
  Private JSON files (\<open>secure-json-file.ts\<close>): owner and permission checks on the directory and the file, bounded
  reads, and replacement through an exclusively created temporary file that is written, synced and renamed.

  The file system is a map from paths to inodes; every call consumes the next element of a script, which lets it
  succeed, fail with an error other than the three the state of the directory decides (\<open>ENOENT\<close>, \<open>EEXIST\<close>,
  \<open>ELOOP\<close>), or move fewer bytes than asked. Other processes do not touch the directory
  during an operation. Descriptors are numbered, and a descriptor counts as released once its close was asked for,
  whatever the close answered. The promise each client relies on, a register that a replacement either changes as
  a whole or not at all, is stated as a step relation that the operations refine.
\<close>

unbundle bit_operations_syntax

section \<open>State\<close>

datatype node_kind = RegularFile | DirectoryNode | SymbolicLink | SpecialNode

record inode =
  kind :: node_kind
  uid :: int
  mode_bits :: "32 word"
  content :: "nat list"

datatype io = Works | Breaks | Moves nat

record disk =
  nodes :: "string \<rightharpoonup> inode"
  descriptors :: "nat set"
  next_descriptor :: nat
  outcomes :: "io list"
  drawn :: nat

datatype file_error = SysError string | SecurityValidation | InvalidFile

datatype SecureJsonFileError = SecureJsonFileError

datatype ReplaceResult = NotCommitted | Committed | CommittedDurabilityUncertain

record SecureJsonFileService =
  runtimeUid :: int
  process_uid :: int
  randomName :: "nat \<Rightarrow> string"
  number_format :: "real \<Rightarrow> utext"

type_synonym 'a disk_op = "(disk, file_error, 'a) em"

definition createSecureJsonFile :: "jsnum option \<Rightarrow> int \<Rightarrow> (nat \<Rightarrow> string) \<Rightarrow> (real \<Rightarrow> utext) \<Rightarrow> SecureJsonFileService option" where
  "createSecureJsonFile uid_option process names numbers =
     (case uid_option of
        Some (Num u) \<Rightarrow>
          if isInteger (Num u) \<and> u \<ge> 0
          then Some \<lparr>runtimeUid = \<lfloor>u\<rfloor>, process_uid = process, randomName = names, number_format = numbers\<rparr> else None
      | _ \<Rightarrow> None)"

definition TEMP_OPEN_ATTEMPTS :: nat where "TEMP_OPEN_ATTEMPTS = 8"

definition S_IFREG :: "32 word" where "S_IFREG = 0x8000"
definition MODE_600 :: "32 word" where "MODE_600 = 0x180"

section \<open>Paths\<close>

definition trim_slashes :: "string \<Rightarrow> string" where
  "trim_slashes p = rev (dropWhile (\<lambda>c. c = CHR ''/'') (rev p))"

definition basename :: "string \<Rightarrow> string" where
  "basename p = rev (takeWhile (\<lambda>c. c \<noteq> CHR ''/'') (rev (trim_slashes p)))"

definition dirname :: "string \<Rightarrow> string" where
  "dirname p =
     (let d = trim_slashes (rev (dropWhile (\<lambda>c. c \<noteq> CHR ''/'') (rev (trim_slashes p))))
      in if d = [] then ''/'' else d)"

definition isAbsolute :: "string \<Rightarrow> bool" where
  "isAbsolute p \<longleftrightarrow> p \<noteq> [] \<and> hd p = CHR ''/''"

definition join_path :: "string \<Rightarrow> string \<Rightarrow> string" where
  "join_path d n = (if d = ''/'' then d @ n else d @ ''/'' @ n)"

definition validatePath :: "string \<Rightarrow> bool" where
  "validatePath p \<longleftrightarrow> isAbsolute p \<and> basename p \<noteq> []"

definition temp_path :: "string \<Rightarrow> string \<Rightarrow> string" where
  "temp_path path name = join_path (dirname path) (''.'' @ basename path @ ''.secure-json-'' @ name @ ''.tmp'')"

section \<open>File system calls\<close>

definition next_io :: "io disk_op" where
  "next_io = (\<lambda>d. case outcomes d of [] \<Rightarrow> (Inr Works, d) | x # xs \<Rightarrow> (Inr x, d\<lparr>outcomes := xs\<rparr>))"

definition io_call :: "unit disk_op" where
  "io_call = bind next_io (\<lambda>r. case r of Breaks \<Rightarrow> throw (SysError ''EIO'') | _ \<Rightarrow> ret ())"

definition new_descriptor :: "nat disk_op" where
  "new_descriptor = (\<lambda>d. (Inr (next_descriptor d),
     d\<lparr>descriptors := insert (next_descriptor d) (descriptors d), next_descriptor := Suc (next_descriptor d)\<rparr>))"

definition fs_open_directory :: "string \<Rightarrow> nat disk_op" where
  "fs_open_directory p = bind io_call (\<lambda>_. bind (gets (\<lambda>d. nodes d p)) (\<lambda>i.
     case i of
       None \<Rightarrow> throw (SysError ''ENOENT'')
     | Some x \<Rightarrow> if kind x \<noteq> DirectoryNode then throw (SysError ''ENOTDIR'') else new_descriptor))"

definition fs_open_existing :: "string \<Rightarrow> nat disk_op" where
  "fs_open_existing p = bind io_call (\<lambda>_. bind (gets (\<lambda>d. nodes d p)) (\<lambda>i.
     case i of
       None \<Rightarrow> throw (SysError ''ENOENT'')
     | Some x \<Rightarrow> if kind x = SymbolicLink then throw (SysError ''ELOOP'') else new_descriptor))"

definition fs_open_exclusive :: "SecureJsonFileService \<Rightarrow> string \<Rightarrow> nat disk_op" where
  "fs_open_exclusive E p = bind io_call (\<lambda>_. bind (gets (\<lambda>d. nodes d p)) (\<lambda>i.
     case i of
       Some _ \<Rightarrow> throw (SysError ''EEXIST'')
     | None \<Rightarrow>
         bind (modify (\<lambda>d. d\<lparr>nodes := (nodes d)(p \<mapsto>
                 \<lparr>kind = RegularFile, uid = process_uid E, mode_bits = S_IFREG OR MODE_600, content = []\<rparr>)\<rparr>)) (\<lambda>_.
         new_descriptor)))"

definition fs_stat :: "string \<Rightarrow> inode disk_op" where
  "fs_stat p = bind io_call (\<lambda>_. bind (gets (\<lambda>d. nodes d p)) (\<lambda>i.
     case i of None \<Rightarrow> throw (SysError ''ENOENT'') | Some x \<Rightarrow> ret x))"

definition fs_chmod :: "string \<Rightarrow> unit disk_op" where
  "fs_chmod p = bind io_call (\<lambda>_. modify (\<lambda>d. d\<lparr>nodes :=
     (nodes d)(p := map_option (\<lambda>x. x\<lparr>mode_bits := S_IFREG OR MODE_600\<rparr>) (nodes d p))\<rparr>))"

definition fs_sync :: "unit disk_op" where "fs_sync = io_call"

definition fs_close :: "nat \<Rightarrow> unit disk_op" where
  "fs_close f = bind (modify (\<lambda>d. d\<lparr>descriptors := descriptors d - {f}\<rparr>)) (\<lambda>_. io_call)"

definition fs_rename_file :: "string \<Rightarrow> string \<Rightarrow> unit disk_op" where
  "fs_rename_file p q = bind io_call (\<lambda>_. modify (\<lambda>d. d\<lparr>nodes := (nodes d)(q := nodes d p, p := None)\<rparr>))"

definition fs_unlink_file :: "string \<Rightarrow> unit disk_op" where
  "fs_unlink_file p = bind io_call (\<lambda>_. modify (\<lambda>d. d\<lparr>nodes := (nodes d)(p := None)\<rparr>))"

section \<open>Checks\<close>

definition validateTargetStat :: "SecureJsonFileService \<Rightarrow> inode \<Rightarrow> unit disk_op" where
  "validateTargetStat E x =
     (if kind x \<noteq> RegularFile \<or> uid x \<noteq> runtimeUid E \<or> mode_bits x AND 0xE7F \<noteq> 0 then throw SecurityValidation else ret ())"

definition validateTempStat :: "SecureJsonFileService \<Rightarrow> inode \<Rightarrow> unit disk_op" where
  "validateTempStat E x =
     (if kind x \<noteq> RegularFile \<or> uid x \<noteq> runtimeUid E \<or> mode_bits x AND 0xFFF \<noteq> MODE_600 then throw InvalidFile else ret ())"

definition openValidatedParent :: "SecureJsonFileService \<Rightarrow> string \<Rightarrow> nat disk_op" where
  "openValidatedParent E path =
     bind (fs_open_directory (dirname path)) (\<lambda>handle.
     catch
       (bind (fs_stat (dirname path)) (\<lambda>st.
        if kind st \<noteq> DirectoryNode \<or> uid st \<noteq> runtimeUid E \<or> mode_bits st AND 0x12 \<noteq> 0 then throw InvalidFile
        else ret handle))
       (\<lambda>e. bind (attempt (fs_close handle)) (\<lambda>_. throw e)))"

definition validateAndCloseParent :: "SecureJsonFileService \<Rightarrow> string \<Rightarrow> unit disk_op" where
  "validateAndCloseParent E path =
     bind (attempt (openValidatedParent E path)) (\<lambda>parent.
       case parent of
         Inl _ \<Rightarrow> throw InvalidFile
       | Inr handle \<Rightarrow>
           bind (attempt (fs_close handle)) (\<lambda>closing. if closing = Inr () then ret () else throw InvalidFile))"

definition validateExistingTarget :: "SecureJsonFileService \<Rightarrow> string \<Rightarrow> unit disk_op" where
  "validateExistingTarget E path =
     bind (attempt (fs_open_existing path)) (\<lambda>opened.
       case opened of
         Inl e \<Rightarrow>
           if e = SysError ''ENOENT'' then ret ()
           else if e = SysError ''ELOOP'' then throw SecurityValidation else throw e
       | Inr handle \<Rightarrow>
           bind (attempt (bind (fs_stat path) (validateTargetStat E))) (\<lambda>checked.
           bind (attempt (fs_close handle)) (\<lambda>closing.
             case checked of
               Inl e \<Rightarrow> throw e
             | Inr _ \<Rightarrow> (case closing of Inl e \<Rightarrow> throw e | Inr _ \<Rightarrow> ret ()))))"

section \<open>Transfers\<close>

text \<open>The reading loop: \<open>got\<close> bytes of a buffer of one byte more than the limit are filled.\<close>

function read_bytes :: "nat \<Rightarrow> nat list \<Rightarrow> nat \<Rightarrow> io list \<Rightarrow> (file_error + nat) \<times> io list" where
  "read_bytes limit data got sc =
     (if got \<ge> Suc limit then (Inr got, sc)
      else
        let left = min (Suc limit - got) (length data - got)
        in case (if sc = [] then Works else hd sc) of
             Breaks \<Rightarrow> (Inl (SysError ''EIO''), tl sc)
           | Works \<Rightarrow> if left = 0 then (Inr got, tl sc) else read_bytes limit data (got + left) (tl sc)
           | Moves m \<Rightarrow>
               if left = 0 then (Inr got, tl sc)
               else if m > Suc limit - got then (Inl InvalidFile, tl sc)
               else read_bytes limit data (got + max 1 (min m left)) (tl sc))"
  by pat_completeness auto

termination
  by (relation "measure (\<lambda>(limit, _, got, _). Suc limit - got)") auto

declare read_bytes.simps [simp del]

definition readBounded :: "string \<Rightarrow> nat \<Rightarrow> nat list disk_op" where
  "readBounded p limit = (\<lambda>d.
     case nodes d p of
       None \<Rightarrow> (Inl (SysError ''EBADF''), d)
     | Some x \<Rightarrow>
         (case read_bytes limit (content x) 0 (outcomes d) of
            (Inl e, sc) \<Rightarrow> (Inl e, d\<lparr>outcomes := sc\<rparr>)
          | (Inr got, sc) \<Rightarrow>
              (if got > limit then Inl InvalidFile else Inr (take got (content x)), d\<lparr>outcomes := sc\<rparr>)))"

text \<open>The writing loop: what reached the file, and the answer.\<close>

function write_bytes :: "nat list \<Rightarrow> io list \<Rightarrow> nat list \<times> (file_error + unit) \<times> io list" where
  "write_bytes bytes sc =
     (if bytes = [] then ([], Inr (), sc)
      else case (if sc = [] then Works else hd sc) of
             Breaks \<Rightarrow> ([], Inl (SysError ''EIO''), tl sc)
           | Works \<Rightarrow> (bytes, Inr (), tl sc)
           | Moves m \<Rightarrow>
               if m = 0 \<or> m > length bytes then (take m bytes, Inl InvalidFile, tl sc)
               else case write_bytes (drop m bytes) (tl sc) of (w, r, sc') \<Rightarrow> (take m bytes @ w, r, sc'))"
  by pat_completeness auto

termination
  by (relation "measure (\<lambda>(bytes, _). length bytes)") auto

declare write_bytes.simps [simp del]

definition writeAll :: "string \<Rightarrow> nat list \<Rightarrow> unit disk_op" where
  "writeAll p bytes = (\<lambda>d.
     case write_bytes bytes (outcomes d) of
       (w, r, sc) \<Rightarrow>
         (r, d\<lparr>outcomes := sc, nodes := (nodes d)(p := map_option (\<lambda>x. x\<lparr>content := content x @ w\<rparr>) (nodes d p))\<rparr>))"

section \<open>Operations\<close>

definition read_target :: "SecureJsonFileService \<Rightarrow> string \<Rightarrow> nat \<Rightarrow> json disk_op" where
  "read_target E path maximumBytes =
     bind (fs_stat path) (\<lambda>st.
     bind (validateTargetStat E st) (\<lambda>_.
     if length (content st) > maximumBytes then throw InvalidFile
     else
       bind (readBounded path maximumBytes) (\<lambda>bytes.
         case text_decoder bytes of
           None \<Rightarrow> throw InvalidFile
         | Some s \<Rightarrow> (case json_parse s of None \<Rightarrow> throw InvalidFile | Some v \<Rightarrow> ret v))))"

text \<open>\<open>read\<close>; \<open>None\<close> stands for \<open>undefined\<close>.\<close>

definition secure_read ::
  "SecureJsonFileService \<Rightarrow> string \<Rightarrow> nat \<Rightarrow> (disk, SecureJsonFileError, json option) em"
where
  "secure_read E path maximumBytes =
     catch
       (if \<not> validatePath path \<or> maximumBytes < 1 \<or> maximumBytes > MAX_SECURE_JSON_BYTES then throw InvalidFile
        else
          bind (validateAndCloseParent E path) (\<lambda>_.
          bind (attempt (fs_open_existing path)) (\<lambda>opened.
            case opened of
              Inl e \<Rightarrow> if e = SysError ''ENOENT'' then ret None else throw e
            | Inr handle \<Rightarrow>
                bind (attempt (read_target E path maximumBytes)) (\<lambda>outcome.
                bind (attempt (fs_close handle)) (\<lambda>closing.
                  case outcome of
                    Inl e \<Rightarrow> throw e
                  | Inr v \<Rightarrow> if closing = Inr () then ret (Some v) else throw InvalidFile)))))
       (\<lambda>_. throw SecureJsonFileError)"

fun open_temp :: "SecureJsonFileService \<Rightarrow> string \<Rightarrow> nat \<Rightarrow> (string \<times> nat) disk_op" where
  "open_temp E path 0 = throw InvalidFile"
| "open_temp E path (Suc attempts) =
     bind (\<lambda>d. (Inr (temp_path path (randomName E (drawn d))), d\<lparr>drawn := Suc (drawn d)\<rparr>)) (\<lambda>tempPath.
     bind (attempt (fs_open_exclusive E tempPath)) (\<lambda>opened.
       case opened of
         Inr temp \<Rightarrow> ret (tempPath, temp)
       | Inl e \<Rightarrow> if e = SysError ''EEXIST'' then open_temp E path attempts else throw e))"

definition fill_temp :: "SecureJsonFileService \<Rightarrow> string \<Rightarrow> nat \<Rightarrow> nat list \<Rightarrow> unit disk_op" where
  "fill_temp E tempPath temp bytes =
     bind (fs_chmod tempPath) (\<lambda>_.
     bind (fs_stat tempPath) (\<lambda>st.
     bind (validateTempStat E st) (\<lambda>_.
     bind (writeAll tempPath bytes) (\<lambda>_.
     bind fs_sync (\<lambda>_. fs_close temp)))))"

text \<open>The handler of a failure before the rename: \<open>temp\<close> is the handle still open, \<open>owned\<close> the file to remove.\<close>

definition abandon ::
  "nat \<Rightarrow> nat option \<Rightarrow> string option \<Rightarrow> file_error \<Rightarrow> (disk, SecureJsonFileError, ReplaceResult) em"
where
  "abandon parent temp owned e =
     bind (case temp of None \<Rightarrow> ret (Inr ()) | Some f \<Rightarrow> attempt (fs_close f)) (\<lambda>a.
     bind (case owned of None \<Rightarrow> ret (Inr ()) | Some p \<Rightarrow> attempt (fs_unlink_file p)) (\<lambda>b.
     bind (attempt (fs_close parent)) (\<lambda>c.
       if e = SecurityValidation \<or> a \<noteq> Inr () \<or> b \<noteq> Inr () \<or> c \<noteq> Inr () then throw SecureJsonFileError
       else ret NotCommitted)))"

definition conclude :: "nat \<Rightarrow> (disk, SecureJsonFileError, ReplaceResult) em" where
  "conclude parent =
     bind (attempt fs_sync) (\<lambda>a.
     bind (attempt (fs_close parent)) (\<lambda>b.
       ret (if a = Inr () \<and> b = Inr () then Committed else CommittedDurabilityUncertain)))"

definition publish_bytes ::
  "SecureJsonFileService \<Rightarrow> string \<Rightarrow> nat list \<Rightarrow> nat \<Rightarrow> (disk, SecureJsonFileError, ReplaceResult) em"
where
  "publish_bytes E path bytes parent =
     bind (attempt (open_temp E path TEMP_OPEN_ATTEMPTS)) (\<lambda>opened.
       case opened of
         Inl e \<Rightarrow> abandon parent None None e
       | Inr (tempPath, temp) \<Rightarrow>
           bind (attempt (fill_temp E tempPath temp bytes)) (\<lambda>filled.
             case filled of
               Inl e \<Rightarrow> abandon parent (Some temp) (Some tempPath) e
             | Inr _ \<Rightarrow>
                 bind (attempt (bind (validateExistingTarget E path) (\<lambda>_. fs_rename_file tempPath path))) (\<lambda>renamed.
                   case renamed of
                     Inl e \<Rightarrow> abandon parent None (Some tempPath) e
                   | Inr _ \<Rightarrow> conclude parent)))"

definition secure_replace ::
  "SecureJsonFileService \<Rightarrow> string \<Rightarrow> 'r js_heap \<Rightarrow> 'r js_value \<Rightarrow> 32 word
   \<Rightarrow> (disk, SecureJsonFileError, ReplaceResult) em"
where
  "secure_replace E path h v mode =
     (if \<not> validatePath path \<or> mode \<noteq> MODE_600 then throw SecureJsonFileError
      else case serializeJson (number_format E) h v of
             None \<Rightarrow> throw SecureJsonFileError
           | Some bytes \<Rightarrow>
               bind (attempt (openValidatedParent E path)) (\<lambda>opened.
                 case opened of
                   Inl _ \<Rightarrow> throw SecureJsonFileError
                 | Inr parent \<Rightarrow>
                     bind (attempt (validateExistingTarget E path)) (\<lambda>checked.
                       case checked of
                         Inl _ \<Rightarrow> bind (attempt (fs_close parent)) (\<lambda>_. throw SecureJsonFileError)
                       | Inr _ \<Rightarrow> publish_bytes E path bytes parent)))"

definition syncParent :: "SecureJsonFileService \<Rightarrow> string \<Rightarrow> (disk, SecureJsonFileError, bool) em" where
  "syncParent E path =
     (if \<not> validatePath path then ret False
      else
        bind (attempt (openValidatedParent E path)) (\<lambda>opened.
          case opened of
            Inl _ \<Rightarrow> ret False
          | Inr parent \<Rightarrow>
              bind (attempt fs_sync) (\<lambda>a. bind (attempt (fs_close parent)) (\<lambda>b. ret (a = Inr () \<and> b = Inr ())))))"

section \<open>What the calls change\<close>

definition disk_at :: "(string \<rightharpoonup> inode) \<Rightarrow> nat set \<Rightarrow> disk \<Rightarrow> bool" where
  "disk_at N F d \<longleftrightarrow> nodes d = N \<and> descriptors d = F \<and> (\<forall>f \<in> F. f < next_descriptor d)"

lemma io_call_at: "triple (disk_at N F) io_call (\<lambda>_. disk_at N F) (\<lambda>_. disk_at N F)"
  by (auto simp: triple_def io_call_def next_io_def disk_at_def em_simps split: list.splits io.splits)

lemma new_descriptor_at: "triple (disk_at N F) new_descriptor (\<lambda>f d. f \<notin> F \<and> disk_at N (insert f F) d) E"
  by (auto simp: triple_def new_descriptor_def disk_at_def less_Suc_eq)

lemma gets_at: "triple (disk_at N F) (gets (\<lambda>d. nodes d p)) (\<lambda>i d. disk_at N F d \<and> i = N p) E"
  by (rule triple_gets) (simp add: disk_at_def)

lemma triple_case_option:
  assumes "x = None \<Longrightarrow> triple P m Q E" and "\<And>y. x = Some y \<Longrightarrow> triple P (f y) Q E"
  shows "triple P (case x of None \<Rightarrow> m | Some y \<Rightarrow> f y) Q E"
  using assms by (cases x) auto

lemma triple_pre: "(\<And>s. P s \<Longrightarrow> b) \<Longrightarrow> (b \<Longrightarrow> triple P m Q E) \<Longrightarrow> triple P m Q E"
  by (auto simp: triple_def)

lemma triple_assume: "(b \<Longrightarrow> triple P m Q E) \<Longrightarrow> triple (\<lambda>s. P s \<and> b) m Q E"
  by (auto simp: triple_def)

lemma triple_conj: "(b \<Longrightarrow> triple P m Q E) \<Longrightarrow> triple (\<lambda>s. b \<and> P s) m Q E"
  by (auto simp: triple_def)

lemma triple_ex:
  assumes "\<And>x. triple (P x) m Q E"
  shows "triple (\<lambda>s. \<exists>x. P x s) m Q E"
  unfolding triple_def
proof (intro allI impI)
  fix s
  assume "\<exists>x. P x s"
  then obtain x where "P x s" ..
  with assms [of x] show "case m s of (Inl e, t) \<Rightarrow> E e t | (Inr y, t) \<Rightarrow> Q y t" by (simp add: triple_def)
qed

lemma triple_try:
  assumes m: "triple P m R H" and g: "\<And>e. triple (H e) (g e) Q E" and f: "\<And>x. triple (R x) (f x) Q E"
  shows "triple P (bind (attempt m) (\<lambda>r. case r of Inl e \<Rightarrow> g e | Inr x \<Rightarrow> f x)) Q E"
proof (rule triple_bind [where R = "\<lambda>r. case r of Inl e \<Rightarrow> H e | Inr x \<Rightarrow> R x"], rule triple_attempt)
  show "triple P m (\<lambda>x. case Inr x of Inl e \<Rightarrow> H e | Inr x \<Rightarrow> R x) (\<lambda>e. case Inl e of Inl e \<Rightarrow> H e | Inr x \<Rightarrow> R x)"
    using m by simp
  show "triple (case r of Inl e \<Rightarrow> H e | Inr x \<Rightarrow> R x) (case r of Inl e \<Rightarrow> g e | Inr x \<Rightarrow> f x) Q E" for r
    using g f by (cases r) auto
qed

lemma lookup_at:
  assumes "\<And>i. i = N p \<Longrightarrow> triple (disk_at N F) (f i) Q (\<lambda>_. disk_at N F)"
  shows "triple (disk_at N F) (bind io_call (\<lambda>_. bind (gets (\<lambda>d. nodes d p)) f)) Q (\<lambda>_. disk_at N F)"
  by (rule triple_bind [OF io_call_at], rule triple_bind [OF gets_at]) (rule triple_assume, rule assms)

lemma fs_stat_at: "triple (disk_at N F) (fs_stat p) (\<lambda>x d. disk_at N F d \<and> N p = Some x) (\<lambda>_. disk_at N F)"
  unfolding fs_stat_def by (rule lookup_at, rule triple_case_option) (auto intro!: triple_intros)

lemma fs_open_directory_at:
  "triple (disk_at N F) (fs_open_directory p) (\<lambda>f d. f \<notin> F \<and> disk_at N (insert f F) d) (\<lambda>_. disk_at N F)"
  unfolding fs_open_directory_def
  by (rule lookup_at, rule triple_case_option) (auto intro!: triple_intros triple_if new_descriptor_at)

lemma fs_open_existing_at:
  "triple (disk_at N F) (fs_open_existing p) (\<lambda>f d. f \<notin> F \<and> disk_at N (insert f F) d \<and> N p \<noteq> None)
     (\<lambda>e d. disk_at N F d \<and> (e = SysError ''ENOENT'' \<longrightarrow> N p = None))"
proof -
  have io: "triple (disk_at N F) io_call (\<lambda>_. disk_at N F) (\<lambda>e d. disk_at N F d \<and> (e = SysError ''ENOENT'' \<longrightarrow> N p = None))"
    by (auto simp: triple_def io_call_def next_io_def disk_at_def em_simps split: list.splits io.splits)
  show ?thesis unfolding fs_open_existing_def
  proof (rule triple_bind [OF io], rule triple_bind [OF gets_at], rule triple_assume, rule triple_case_option)
    fix i y assume i: "i = N p" "i = Some y"
    show "triple (disk_at N F) (if kind y = SymbolicLink then throw (SysError ''ELOOP'') else new_descriptor)
        (\<lambda>f d. f \<notin> F \<and> disk_at N (insert f F) d \<and> N p \<noteq> None) (\<lambda>e d. disk_at N F d \<and> (e = SysError ''ENOENT'' \<longrightarrow> N p = None))"
      by (rule triple_if, rule triple_throw, simp, rule triple_weaken [OF new_descriptor_at [where E = "\<lambda>_ _. False"]])
        (use i in \<open>auto simp: eq_commute\<close>)
  qed (auto intro!: triple_intros)
qed

lemma fs_close_at: "triple (disk_at N F) (fs_close f) (\<lambda>_. disk_at N (F - {f})) (\<lambda>_. disk_at N (F - {f}))"
  unfolding fs_close_def by (rule triple_bind [OF triple_modify io_call_at]) (auto simp: disk_at_def)

lemma fs_sync_at: "triple (disk_at N F) fs_sync (\<lambda>_. disk_at N F) (\<lambda>_. disk_at N F)"
  unfolding fs_sync_def by (rule io_call_at)

section \<open>The checks change nothing\<close>

definition safe_parent :: "SecureJsonFileService \<Rightarrow> (string \<rightharpoonup> inode) \<Rightarrow> string \<Rightarrow> bool" where
  "safe_parent E N path \<longleftrightarrow>
     (\<exists>x. N (dirname path) = Some x \<and> kind x = DirectoryNode \<and> uid x = runtimeUid E \<and> mode_bits x AND 0x12 = 0)"

definition safe_file :: "SecureJsonFileService \<Rightarrow> inode \<Rightarrow> bool" where
  "safe_file E x \<longleftrightarrow> kind x = RegularFile \<and> uid x = runtimeUid E \<and> mode_bits x AND 0xE7F = 0"

lemma openValidatedParent_at:
  "triple (disk_at N F) (openValidatedParent E path)
     (\<lambda>f d. f \<notin> F \<and> disk_at N (insert f F) d \<and> safe_parent E N path) (\<lambda>_. disk_at N F)"
  unfolding openValidatedParent_def
proof (rule triple_bind [OF fs_open_directory_at], rule triple_pre)
  fix f
  assume f: "f \<notin> F"
  let ?check = "bind (fs_stat (dirname path)) (\<lambda>st.
     if kind st \<noteq> DirectoryNode \<or> uid st \<noteq> runtimeUid E \<or> mode_bits st AND 0x12 \<noteq> 0 then throw InvalidFile else ret f)"
  have "triple (disk_at N (insert f F)) ?check
      (\<lambda>f d. f \<notin> F \<and> disk_at N (insert f F) d \<and> safe_parent E N path) (\<lambda>_. disk_at N (insert f F))"
    by (rule triple_bind [OF fs_stat_at], rule triple_assume)
      (use f in \<open>auto intro!: triple_intros triple_if simp: safe_parent_def\<close>)
  moreover have "triple (disk_at N (insert f F)) (bind (attempt (fs_close f)) (\<lambda>_. throw e))
      (\<lambda>f d. f \<notin> F \<and> disk_at N (insert f F) d \<and> safe_parent E N path) (\<lambda>_. disk_at N F)" for e
    by (rule triple_bind [where R = "\<lambda>_. disk_at N F"], rule triple_attempt)
      (use fs_close_at [of N "insert f F" f] f in \<open>auto intro!: triple_intros simp: insert_absorb\<close>)
  ultimately have "triple (disk_at N (insert f F)) (catch ?check (\<lambda>e. bind (attempt (fs_close f)) (\<lambda>_. throw e)))
      (\<lambda>f d. f \<notin> F \<and> disk_at N (insert f F) d \<and> safe_parent E N path) (\<lambda>_. disk_at N F)"
    by (rule triple_catch)
  then show "triple (\<lambda>d. f \<notin> F \<and> disk_at N (insert f F) d) (catch ?check (\<lambda>e. bind (attempt (fs_close f)) (\<lambda>_. throw e)))
      (\<lambda>f d. f \<notin> F \<and> disk_at N (insert f F) d \<and> safe_parent E N path) (\<lambda>_. disk_at N F)"
    by (rule triple_weaken) auto
qed simp

lemma close_one: "f \<notin> F \<Longrightarrow> triple (disk_at N (insert f F)) (attempt (fs_close f)) (\<lambda>_. disk_at N F) E"
  by (rule triple_attempt) (use fs_close_at [of N "insert f F" f] in simp)

lemma validateAndCloseParent_at:
  "triple (disk_at N F) (validateAndCloseParent E path) (\<lambda>_ d. disk_at N F d \<and> safe_parent E N path) (\<lambda>_. disk_at N F)"
  unfolding validateAndCloseParent_def
proof (rule triple_try [OF openValidatedParent_at], rule triple_throw, assumption, rule triple_conj, rule triple_assume)
  fix f
  assume "f \<notin> F" "safe_parent E N path"
  then show "triple (disk_at N (insert f F)) (bind (attempt (fs_close f)) (\<lambda>closing. if closing = Inr () then ret () else throw InvalidFile))
      (\<lambda>_ d. disk_at N F d \<and> safe_parent E N path) (\<lambda>_. disk_at N F)"
    by (intro triple_bind [OF close_one]) (auto intro!: triple_intros triple_if)
qed

lemma validateTargetStat_at: "triple P (validateTargetStat E x) (\<lambda>_ d. P d \<and> safe_file E x) (\<lambda>_. P)"
  unfolding validateTargetStat_def by (auto intro!: triple_if triple_intros simp: safe_file_def)

lemma validateExistingTarget_at:
  "triple (disk_at N F) (validateExistingTarget E path)
     (\<lambda>_ d. disk_at N F d \<and> (\<forall>x. N path = Some x \<longrightarrow> safe_file E x)) (\<lambda>_. disk_at N F)"
  unfolding validateExistingTarget_def
proof (rule triple_try [OF fs_open_existing_at])
  fix e
  show "triple (\<lambda>d. disk_at N F d \<and> (e = SysError ''ENOENT'' \<longrightarrow> N path = None))
      (if e = SysError ''ENOENT'' then ret () else if e = SysError ''ELOOP'' then throw SecurityValidation else throw e)
      (\<lambda>_ d. disk_at N F d \<and> (\<forall>x. N path = Some x \<longrightarrow> safe_file E x)) (\<lambda>_. disk_at N F)"
    by (rule triple_assume) (auto intro!: triple_if triple_intros)
next
  fix f
  let ?safe = "\<forall>x. N path = Some x \<longrightarrow> safe_file E x"
  have check: "triple (disk_at N G) (bind (fs_stat path) (validateTargetStat E)) (\<lambda>_ d. disk_at N G d \<and> ?safe) (\<lambda>_. disk_at N G)" for G
  proof (rule triple_bind [OF fs_stat_at], rule triple_assume)
    fix x assume "N path = Some x"
    then show "triple (disk_at N G) (validateTargetStat E x) (\<lambda>_ d. disk_at N G d \<and> ?safe) (\<lambda>_. disk_at N G)"
      by (intro triple_weaken [OF validateTargetStat_at]) auto
  qed
  show "triple (\<lambda>d. f \<notin> F \<and> disk_at N (insert f F) d \<and> N path \<noteq> None)
      (bind (attempt (bind (fs_stat path) (validateTargetStat E))) (\<lambda>checked.
       bind (attempt (fs_close f)) (\<lambda>closing. case checked of Inl e \<Rightarrow> throw e
         | Inr _ \<Rightarrow> (case closing of Inl e \<Rightarrow> throw e | Inr _ \<Rightarrow> ret ()))))
      (\<lambda>_ d. disk_at N F d \<and> ?safe) (\<lambda>_. disk_at N F)"
  proof (rule triple_conj, rule triple_assume,
      rule triple_bind [where R = "\<lambda>r d. disk_at N (insert f F) d \<and> (r = Inr () \<longrightarrow> ?safe)"],
      rule triple_attempt, rule triple_weaken [OF check])
    fix r :: "file_error + unit"
    assume f: "f \<notin> F"
    show "triple (\<lambda>d. disk_at N (insert f F) d \<and> (r = Inr () \<longrightarrow> ?safe))
        (bind (attempt (fs_close f)) (\<lambda>closing. case r of Inl e \<Rightarrow> throw e
          | Inr _ \<Rightarrow> (case closing of Inl e \<Rightarrow> throw e | Inr _ \<Rightarrow> ret ())))
        (\<lambda>_ d. disk_at N F d \<and> ?safe) (\<lambda>_. disk_at N F)"
      by (rule triple_assume, rule triple_bind [OF close_one [OF f]])
        (auto intro!: triple_intros split: sum.split)
  qed auto
qed

section \<open>Reading\<close>

lemma read_bytes_all:
  "read_bytes limit data got sc = (Inr n, sc') \<Longrightarrow> got \<le> length data \<Longrightarrow> n \<le> limit \<Longrightarrow> n = length data"
proof (induction limit data got sc arbitrary: n sc' rule: read_bytes.induct)
  case (1 limit data got sc)
  let ?left = "min (Suc limit - got) (length data - got)"
  have got: "got < Suc limit"
  proof (rule ccontr)
    assume "\<not> got < Suc limit"
    with 1(3,5) show False by (subst (asm) read_bytes.simps) simp
  qed
  show ?case
  proof (cases "if sc = [] then Works else hd sc")
    case Works
    have w: "read_bytes limit data got sc = (if ?left = 0 then (Inr got, tl sc) else read_bytes limit data (got + ?left) (tl sc))"
      using got Works by (subst read_bytes.simps) (simp add: Let_def)
    show ?thesis
    proof (cases "?left = 0")
      case True
      with 1(3,4) w got show ?thesis by auto
    next
      case False
      with w 1(3) have "read_bytes limit data (got + ?left) (tl sc) = (Inr n, sc')" by metis
      moreover have "got + ?left \<le> length data" using 1(4) by linarith
      ultimately show ?thesis using 1(1) [OF _ refl Works False] got 1(5) by auto
    qed
  next
    case Breaks
    then have "read_bytes limit data got sc = (Inl (SysError ''EIO''), tl sc)"
      using got by (subst read_bytes.simps) (simp add: Let_def)
    with 1(3) show ?thesis by simp
  next
    case (Moves m)
    have w: "read_bytes limit data got sc = (if ?left = 0 then (Inr got, tl sc) else if m > Suc limit - got then (Inl InvalidFile, tl sc)
        else read_bytes limit data (got + max 1 (min m ?left)) (tl sc))"
      using got Moves by (subst read_bytes.simps) (simp add: Let_def)
    show ?thesis
    proof (cases "?left = 0 \<or> m > Suc limit - got")
      case True
      with 1(3,4) w got show ?thesis by (auto split: if_splits)
    next
      case False
      have le: "got + max 1 (min m ?left) \<le> length data" using False by auto
      have "read_bytes limit data (got + max 1 (min m ?left)) (tl sc) = (Inr n, sc')" using w 1(3) False by metis
      from 1(2) [OF _ refl Moves _ _ this le 1(5)] False got show ?thesis by simp
    qed
  qed
qed

lemma readBounded_at:
  "triple (disk_at N F) (readBounded p limit) (\<lambda>bs d. disk_at N F d \<and> (\<exists>x. N p = Some x \<and> bs = content x)) (\<lambda>_. disk_at N F)"
  unfolding triple_def readBounded_def disk_at_def
  by (auto split: option.split prod.split sum.split if_split dest!: read_bytes_all)

definition parsed :: "nat list \<Rightarrow> json option" where
  "parsed bytes = Option.bind (text_decoder bytes) json_parse"

lemma read_target_at:
  "triple (disk_at N F) (read_target E path m)
     (\<lambda>v d. disk_at N F d \<and> (\<exists>x. N path = Some x \<and> safe_file E x \<and> parsed (content x) = Some v)) (\<lambda>_. disk_at N F)"
  unfolding read_target_def
proof (rule triple_bind [OF fs_stat_at], rule triple_assume, rule triple_bind [OF validateTargetStat_at], rule triple_assume)
  fix x
  assume x: "N path = Some x" "safe_file E x"
  show "triple (disk_at N F)
      (if length (content x) > m then throw InvalidFile
       else bind (readBounded path m) (\<lambda>bytes. case text_decoder bytes of None \<Rightarrow> throw InvalidFile
         | Some s \<Rightarrow> (case json_parse s of None \<Rightarrow> throw InvalidFile | Some v \<Rightarrow> ret v)))
      (\<lambda>v d. disk_at N F d \<and> (\<exists>x. N path = Some x \<and> safe_file E x \<and> parsed (content x) = Some v)) (\<lambda>_. disk_at N F)"
    by (rule triple_if, rule triple_throw, assumption, rule triple_bind [OF readBounded_at], rule triple_assume)
      (use x in \<open>auto intro!: triple_intros triple_case_option simp: parsed_def\<close>)
qed

lemma secure_read_at:
  "triple (disk_at N F) (secure_read E path m)
     (\<lambda>r d. disk_at N F d \<and> (case r of None \<Rightarrow> N path = None
        | Some v \<Rightarrow> safe_parent E N path \<and> (\<exists>x. N path = Some x \<and> safe_file E x \<and> parsed (content x) = Some v)))
     (\<lambda>_. disk_at N F)"
  unfolding secure_read_def
proof (rule triple_catch [where R = "\<lambda>_. disk_at N F"])
  let ?P = "\<lambda>r. case r of None \<Rightarrow> N path = None
        | Some v \<Rightarrow> safe_parent E N path \<and> (\<exists>x. N path = Some x \<and> safe_file E x \<and> parsed (content x) = Some v)"
  let ?Q = "\<lambda>r d. disk_at N F d \<and> ?P r"
  have finish: "triple (disk_at N (insert f F))
      (bind (attempt (read_target E path m)) (\<lambda>outcome. bind (attempt (fs_close f)) (\<lambda>closing.
         case outcome of Inl e \<Rightarrow> throw e | Inr v \<Rightarrow> if closing = Inr () then ret (Some v) else throw InvalidFile)))
      ?Q (\<lambda>_. disk_at N F)" if f: "f \<notin> F" and safe: "safe_parent E N path" for f
  proof (rule triple_bind [where R = "\<lambda>r d. disk_at N (insert f F) d \<and> (\<forall>v. r = Inr v \<longrightarrow> ?P (Some v))"],
      rule triple_attempt, rule triple_weaken [OF read_target_at])
    fix r :: "file_error + json"
    show "triple (\<lambda>d. disk_at N (insert f F) d \<and> (\<forall>v. r = Inr v \<longrightarrow> ?P (Some v)))
       (bind (attempt (fs_close f)) (\<lambda>closing.
         case r of Inl e \<Rightarrow> throw e | Inr v \<Rightarrow> if closing = Inr () then ret (Some v) else throw InvalidFile)) ?Q (\<lambda>_. disk_at N F)"
      by (rule triple_assume, rule triple_bind [OF close_one [OF f]]) (auto intro!: triple_intros triple_if split: sum.split)
  qed (use safe in auto)
  have absent: "triple (\<lambda>d. disk_at N F d \<and> (e = SysError ''ENOENT'' \<longrightarrow> N path = None))
      (if e = SysError ''ENOENT'' then ret None else throw e) ?Q (\<lambda>_. disk_at N F)" for e
    by (rule triple_assume) (auto intro!: triple_if triple_intros)
  have "triple (disk_at N F) (bind (attempt (fs_open_existing path)) (\<lambda>opened.
      case opened of Inl e \<Rightarrow> if e = SysError ''ENOENT'' then ret None else throw e
      | Inr f \<Rightarrow> bind (attempt (read_target E path m)) (\<lambda>outcome. bind (attempt (fs_close f)) (\<lambda>closing.
         case outcome of Inl e \<Rightarrow> throw e | Inr v \<Rightarrow> if closing = Inr () then ret (Some v) else throw InvalidFile))))
      ?Q (\<lambda>_. disk_at N F)" if "safe_parent E N path"
    by (rule triple_try [OF fs_open_existing_at absent], rule triple_conj, rule triple_assume) (rule finish [OF _ that])
  then show "triple (disk_at N F) (if \<not> validatePath path \<or> m < 1 \<or> MAX_SECURE_JSON_BYTES < m then throw InvalidFile
      else bind (validateAndCloseParent E path) (\<lambda>_. bind (attempt (fs_open_existing path)) (\<lambda>opened.
        case opened of Inl e \<Rightarrow> if e = SysError ''ENOENT'' then ret None else throw e
        | Inr f \<Rightarrow> bind (attempt (read_target E path m)) (\<lambda>outcome. bind (attempt (fs_close f)) (\<lambda>closing.
           case outcome of Inl e \<Rightarrow> throw e | Inr v \<Rightarrow> if closing = Inr () then ret (Some v) else throw InvalidFile)))))
      ?Q (\<lambda>_. disk_at N F)"
    by (intro triple_if triple_throw triple_bind [OF validateAndCloseParent_at] triple_assume) auto
qed (auto intro!: triple_intros)

section \<open>Replacing\<close>

definition fresh_file :: "SecureJsonFileService \<Rightarrow> nat list \<Rightarrow> inode" where
  "fresh_file E bytes = \<lparr>kind = RegularFile, uid = process_uid E, mode_bits = S_IFREG OR MODE_600, content = bytes\<rparr>"

lemma fs_open_exclusive_at:
  "triple (disk_at N F) (fs_open_exclusive E p)
     (\<lambda>f d. f \<notin> F \<and> disk_at (N(p \<mapsto> fresh_file E [])) (insert f F) d \<and> N p = None) (\<lambda>_. disk_at N F)"
  unfolding fs_open_exclusive_def
proof (rule lookup_at, rule triple_case_option)
  fix i
  assume i: "i = N p" "i = None"
  show "triple (disk_at N F) (bind (modify (\<lambda>d. d\<lparr>nodes := (nodes d)(p \<mapsto>
        \<lparr>kind = RegularFile, uid = process_uid E, mode_bits = S_IFREG OR MODE_600, content = []\<rparr>)\<rparr>)) (\<lambda>_. new_descriptor))
      (\<lambda>f d. f \<notin> F \<and> disk_at (N(p \<mapsto> fresh_file E [])) (insert f F) d \<and> N p = None) (\<lambda>_. disk_at N F)"
    by (rule triple_bind [where R = "\<lambda>_. disk_at (N(p \<mapsto> fresh_file E [])) F"], rule triple_modify,
        simp add: disk_at_def fresh_file_def,
        rule triple_weaken [OF new_descriptor_at [where N = "N(p \<mapsto> fresh_file E [])" and F = F and E = "\<lambda>_ _. False"]])
      (use i in \<open>simp_all add: eq_commute\<close>)
qed (auto intro!: triple_intros)

lemma open_temp_at:
  "triple (disk_at N F) (open_temp E path n)
     (\<lambda>(tp, f) d. f \<notin> F \<and> disk_at (N(tp \<mapsto> fresh_file E [])) (insert f F) d \<and> N tp = None \<and> (\<exists>name. tp = temp_path path name))
     (\<lambda>_. disk_at N F)"
proof (induction n)
  case (Suc n)
  have draw: "triple (disk_at N F) (\<lambda>d. (Inr (temp_path path (randomName E (drawn d))), d\<lparr>drawn := Suc (drawn d)\<rparr>))
      (\<lambda>tp d. disk_at N F d \<and> (\<exists>name. tp = temp_path path name)) (\<lambda>_. disk_at N F)"
    by (auto simp: triple_def disk_at_def)
  show ?case unfolding open_temp.simps
  proof (rule triple_bind [OF draw], rule triple_assume, rule triple_bind [where R = "\<lambda>r. case r of Inl _ \<Rightarrow> disk_at N F | Inr f \<Rightarrow>
        (\<lambda>d. f \<notin> F \<and> disk_at (N(tp \<mapsto> fresh_file E [])) (insert f F) d \<and> N tp = None)" for tp])
    fix tp
    show "triple (disk_at N F) (attempt (fs_open_exclusive E tp)) (\<lambda>r. case r of Inl _ \<Rightarrow> disk_at N F | Inr f \<Rightarrow>
        (\<lambda>d. f \<notin> F \<and> disk_at (N(tp \<mapsto> fresh_file E [])) (insert f F) d \<and> N tp = None)) (\<lambda>_. disk_at N F)"
      by (rule triple_attempt) (simp add: fs_open_exclusive_at)
  next
    fix tp r
    assume name: "\<exists>name. tp = temp_path path name"
    show "triple (case r of Inl _ \<Rightarrow> disk_at N F | Inr f \<Rightarrow> (\<lambda>d. f \<notin> F \<and> disk_at (N(tp \<mapsto> fresh_file E [])) (insert f F) d \<and> N tp = None))
       (case r of Inr temp \<Rightarrow> ret (tp, temp) | Inl e \<Rightarrow> if e = SysError ''EEXIST'' then open_temp E path n else throw e)
       (\<lambda>(tp, f) d. f \<notin> F \<and> disk_at (N(tp \<mapsto> fresh_file E [])) (insert f F) d \<and> N tp = None \<and> (\<exists>name. tp = temp_path path name))
       (\<lambda>_. disk_at N F)"
    proof (cases r)
      case (Inl e)
      show ?thesis unfolding Inl sum.case by (rule triple_if, rule Suc.IH, rule triple_throw, assumption)
    next
      case (Inr f)
      with name show ?thesis by (auto intro!: triple_intros)
    qed
  qed
qed (auto intro!: triple_intros)

lemma write_bytes_all: "write_bytes bytes sc = (w, Inr (), sc') \<Longrightarrow> w = bytes"
proof (induction bytes sc arbitrary: w sc' rule: write_bytes.induct)
  case (1 bytes sc)
  show ?case
  proof (cases "bytes = [] \<or> (if sc = [] then Works else hd sc) = Works \<or> (if sc = [] then Works else hd sc) = Breaks")
    case True
    with 1(2) show ?thesis by (subst (asm) write_bytes.simps) (auto split: if_splits)
  next
    case False
    then obtain m where m: "(if sc = [] then Works else hd sc) = Moves m" by (metis io.exhaust)
    obtain w' r' s' where rest: "write_bytes (drop m bytes) (tl sc) = (w', r', s')" by (metis surj_pair)
    with False m 1(2) have r: "r' = Inr ()" "w = take m bytes @ w'" "\<not> (m = 0 \<or> m > length bytes)"
      by (subst (asm) write_bytes.simps, simp split: if_splits)+
    from 1(1) [OF _ m r(3)] False rest r show ?thesis by auto
  qed
qed

lemma writeAll_at:
  "triple (disk_at (N(p \<mapsto> fresh_file E [])) F) (writeAll p bytes)
     (\<lambda>_. disk_at (N(p \<mapsto> fresh_file E bytes)) F) (\<lambda>_ d. \<exists>x. disk_at (N(p \<mapsto> x)) F d)"
proof (rule tripleI)
  fix s r t
  assume s: "disk_at (N(p \<mapsto> fresh_file E [])) F s" and run: "writeAll p bytes s = (r, t)"
  obtain w r' sc where w: "write_bytes bytes (outcomes s) = (w, r', sc)" by (metis surj_pair)
  from s run w have r: "r = r'" and t: "disk_at (N(p \<mapsto> (fresh_file E [])\<lparr>content := w\<rparr>)) F t"
    by (auto simp: writeAll_def disk_at_def fresh_file_def)
  show "case r of Inl e \<Rightarrow> \<exists>x. disk_at (N(p \<mapsto> x)) F t | Inr x \<Rightarrow> disk_at (N(p \<mapsto> fresh_file E bytes)) F t"
  proof (cases r)
    case (Inr u)
    with w r have "w = bytes" using write_bytes_all by simp
    with t Inr show ?thesis by (simp add: fresh_file_def)
  qed (use t in auto)
qed

lemma fs_chmod_at:
  "triple (disk_at (N(p \<mapsto> fresh_file E [])) F) (fs_chmod p) (\<lambda>_. disk_at (N(p \<mapsto> fresh_file E [])) F)
     (\<lambda>_. disk_at (N(p \<mapsto> fresh_file E [])) F)"
  unfolding fs_chmod_def
  by (rule triple_bind [OF io_call_at], rule triple_modify) (simp add: disk_at_def fresh_file_def)

text \<open>A failure leaves the temporary file with any content, and its handle open or closed.\<close>

lemma fill_temp_at:
  "triple (disk_at (N(tp \<mapsto> fresh_file E [])) G) (fill_temp E tp f bytes)
     (\<lambda>_ d. disk_at (N(tp \<mapsto> fresh_file E bytes)) (G - {f}) d \<and> process_uid E = runtimeUid E)
     (\<lambda>_ d. \<exists>x G'. disk_at (N(tp \<mapsto> x)) G' d \<and> G' - {f} = G - {f})" (is "triple (?P []) _ ?Q ?H")
proof -
  have H: "disk_at (N(tp \<mapsto> x)) G d \<Longrightarrow> ?H e d" for x d e by blast
  have 1: "triple (?P []) (fs_chmod tp) (\<lambda>_. ?P []) ?H" by (rule triple_weaken [OF fs_chmod_at [where E = E]]) (assumption | blast)+
  have 2: "triple (?P []) (fs_stat tp) (\<lambda>st d. ?P [] d \<and> st = fresh_file E []) ?H"
    by (rule triple_weaken [OF fs_stat_at [where N = "N(tp \<mapsto> fresh_file E [])" and F = G]]) (assumption | fastforce)+
  have 3: "triple (?P []) (validateTempStat E (fresh_file E [])) (\<lambda>_ d. ?P [] d \<and> process_uid E = runtimeUid E) ?H"
    unfolding validateTempStat_def
    by (rule triple_if, rule triple_throw, blast, rule triple_ret) (simp add: fresh_file_def)
  have 4: "triple (?P []) (writeAll tp bytes) (\<lambda>_. ?P bytes) ?H"
    by (rule triple_weaken [OF writeAll_at]) (assumption | blast)+
  have 5: "triple (?P bytes) fs_sync (\<lambda>_. ?P bytes) ?H" by (rule triple_weaken [OF fs_sync_at]) (assumption | blast)+
  have 6: "triple (?P bytes) (fs_close f) ?Q ?H" if "process_uid E = runtimeUid E"
    by (rule triple_weaken [OF fs_close_at]) (use that in blast)+
  show ?thesis unfolding fill_temp_def
    by (rule triple_bind [OF 1], rule triple_bind [OF 2], rule triple_assume, hypsubst,
        rule triple_bind [OF 3], rule triple_assume, rule triple_bind [OF 4], rule triple_bind [OF 5], rule 6)
qed

lemma fs_unlink_at:
  "triple (disk_at N F) (fs_unlink_file p) (\<lambda>_. disk_at (N(p := None)) F) (\<lambda>_. disk_at N F)"
  unfolding fs_unlink_file_def by (rule triple_bind [OF io_call_at], rule triple_modify) (auto simp: disk_at_def)

lemma fs_rename_at:
  "N tp = None \<Longrightarrow> tp \<noteq> path \<Longrightarrow>
   triple (disk_at (N(tp \<mapsto> x)) F) (fs_rename_file tp path) (\<lambda>_. disk_at (N(path \<mapsto> x)) F) (\<lambda>_. disk_at (N(tp \<mapsto> x)) F)"
  unfolding fs_rename_file_def
  by (rule triple_bind [OF io_call_at], rule triple_modify) (auto simp: disk_at_def fun_eq_iff)

lemma conclude_at:
  assumes "parent \<notin> F"
  shows "triple (disk_at M (insert parent F)) (conclude parent) (\<lambda>r d. r \<noteq> NotCommitted \<and> disk_at M F d) H"
  unfolding conclude_def
  by (rule triple_bind, rule triple_attempt, rule fs_sync_at, rule triple_bind [OF close_one [OF assms]]) (auto intro!: triple_intros)

text \<open>The end of a replacement that did not reach the rename.\<close>

lemma close_handles:
  "triple (\<lambda>d. \<exists>G. disk_at M G d \<and> G - set_option temp = H)
     (case temp of None \<Rightarrow> ret (Inr ()) | Some f \<Rightarrow> attempt (fs_close f)) (\<lambda>_. disk_at M H) L"
proof (cases temp)
  case (Some f)
  have "triple (disk_at M G) (attempt (fs_close f)) (\<lambda>_. disk_at M (G - {f})) L" for G
    by (rule triple_attempt) (rule fs_close_at)
  with Some show ?thesis by (auto intro!: triple_ex triple_assume)
qed (auto intro!: triple_intros)

lemma abandon_owned:
  assumes p: "parent \<notin> F" and n: "N tp = None"
  shows "triple (\<lambda>d. \<exists>x G. disk_at (N(tp \<mapsto> x)) G d \<and> G - set_option temp = insert parent F) (abandon parent temp (Some tp) e)
    (\<lambda>r d. r = NotCommitted \<and> disk_at N F d) (\<lambda>_ d. disk_at N F d \<or> (\<exists>x. disk_at (N(tp \<mapsto> x)) F d))"
    (is "triple ?P _ ?Q ?L")
proof -
  have "triple (\<lambda>d. \<exists>G. disk_at (N(tp \<mapsto> x)) G d \<and> G - set_option temp = insert parent F) (abandon parent temp (Some tp) e) ?Q ?L" for x
    unfolding abandon_def option.case
  proof (rule triple_bind [OF close_handles],
      rule triple_bind [where R = "\<lambda>r. if r = Inr () then disk_at N (insert parent F) else disk_at (N(tp \<mapsto> x)) (insert parent F)"], rule triple_attempt)
    show "triple (disk_at (N(tp \<mapsto> x)) (insert parent F)) (fs_unlink_file tp)
        (\<lambda>y. if Inr y = Inr () then disk_at N (insert parent F) else disk_at (N(tp \<mapsto> x)) (insert parent F))
        (\<lambda>e. if Inl e = Inr () then disk_at N (insert parent F) else disk_at (N(tp \<mapsto> x)) (insert parent F))"
      using fs_unlink_at [of "N(tp \<mapsto> x)" "insert parent F" tp] n by (simp add: fun_upd_idem)
  next
    fix a b :: "file_error + unit"
    show "triple (if b = Inr () then disk_at N (insert parent F) else disk_at (N(tp \<mapsto> x)) (insert parent F))
        (bind (attempt (fs_close parent)) (\<lambda>c. if e = SecurityValidation \<or> a \<noteq> Inr () \<or> b \<noteq> Inr () \<or> c \<noteq> Inr ()
           then throw SecureJsonFileError else ret NotCommitted)) ?Q ?L"
    proof (cases "b = Inr ()")
      case True
      show ?thesis unfolding True by (simp, rule triple_bind [OF close_one [OF p]]) (auto intro!: triple_intros triple_if)
    next
      case False
      then have "triple (disk_at (N(tp \<mapsto> x)) (insert parent F)) (bind (attempt (fs_close parent)) (\<lambda>_. throw SecureJsonFileError)) ?Q ?L"
        by (intro triple_bind [OF close_one [OF p]] triple_throw) blast
      with False show ?thesis by simp
    qed
  qed
  then show ?thesis by (rule triple_ex)
qed

lemma abandon_none:
  assumes "parent \<notin> F"
  shows "triple (disk_at N (insert parent F)) (abandon parent None None e) (\<lambda>r d. r = NotCommitted \<and> disk_at N F d) (\<lambda>_. disk_at N F)"
  unfolding abandon_def option.case bind_ret
  by (rule triple_bind [OF close_one [OF assms]]) (auto intro!: triple_intros triple_if)

text \<open>A path in normal form: its temporary files are other paths.\<close>

definition clean_path :: "string \<Rightarrow> bool" where
  "clean_path path \<longleftrightarrow> path = join_path (dirname path) (basename path)"

lemma temp_path_other: "clean_path path \<Longrightarrow> temp_path path name \<noteq> path"
proof -
  assume "clean_path path"
  then have "length path = length (join_path (dirname path) (basename path))" by (simp add: clean_path_def)
  moreover have "length (temp_path path name) > length (join_path (dirname path) (basename path))"
    by (simp add: temp_path_def join_path_def)
  ultimately show ?thesis by auto
qed

definition leftover :: "(string \<rightharpoonup> inode) \<Rightarrow> nat set \<Rightarrow> string \<Rightarrow> disk \<Rightarrow> bool" where
  "leftover N F path d \<longleftrightarrow>
     disk_at N F d \<or> (\<exists>name x. N (temp_path path name) = None \<and> disk_at (N(temp_path path name \<mapsto> x)) F d)"

definition replaced :: "SecureJsonFileService \<Rightarrow> (string \<rightharpoonup> inode) \<Rightarrow> nat set \<Rightarrow> string \<Rightarrow> nat list \<Rightarrow> ReplaceResult \<Rightarrow> disk \<Rightarrow> bool" where
  "replaced E N F path bytes r d \<longleftrightarrow>
     (if r = NotCommitted then disk_at N F d
      else disk_at (N(path \<mapsto> fresh_file E bytes)) F d \<and> process_uid E = runtimeUid E \<and>
           (\<forall>x. N path = Some x \<longrightarrow> safe_file E x))"

lemma publish_renames:
  assumes p: "parent \<notin> F" and c: "clean_path path" and n: "N tp = None" "tp = temp_path path name" and u: "process_uid E = runtimeUid E"
  shows "triple (disk_at (N(tp \<mapsto> fresh_file E bytes)) (insert parent F))
    (bind (attempt (bind (validateExistingTarget E path) (\<lambda>_. fs_rename_file tp path))) (\<lambda>renamed.
       case renamed of Inl e \<Rightarrow> abandon parent None (Some tp) e | Inr _ \<Rightarrow> conclude parent))
    (replaced E N F path bytes) (\<lambda>_. leftover N F path)"
proof (rule triple_try)
  let ?M = "N(tp \<mapsto> fresh_file E bytes)" and ?safe = "\<forall>x. N path = Some x \<longrightarrow> safe_file E x"
  have other: "tp \<noteq> path" using n(2) temp_path_other [OF c] by simp
  show "triple (disk_at ?M (insert parent F)) (bind (validateExistingTarget E path) (\<lambda>_. fs_rename_file tp path))
      (\<lambda>_ d. disk_at (N(path \<mapsto> fresh_file E bytes)) (insert parent F) d \<and> ?safe) (\<lambda>_. disk_at ?M (insert parent F))"
  proof (rule triple_bind [OF validateExistingTarget_at], rule triple_assume)
    assume "\<forall>x. ?M path = Some x \<longrightarrow> safe_file E x"
    then have ?safe using other by auto
    then show "triple (disk_at ?M (insert parent F)) (fs_rename_file tp path)
        (\<lambda>_ d. disk_at (N(path \<mapsto> fresh_file E bytes)) (insert parent F) d \<and> ?safe) (\<lambda>_. disk_at ?M (insert parent F))"
      by (intro triple_weaken [OF fs_rename_at [of N tp path "fresh_file E bytes" "insert parent F", OF n(1) other]]) (assumption | blast)+
  qed
  show "triple (disk_at ?M (insert parent F)) (abandon parent None (Some tp) e) (replaced E N F path bytes) (\<lambda>_. leftover N F path)" for e
  proof (rule triple_weaken [OF abandon_owned [where temp = None and N = N and tp = tp, OF p n(1)]])
    show "\<exists>x G. disk_at (N(tp \<mapsto> x)) G d \<and> G - set_option None = insert parent F" if "disk_at ?M (insert parent F) d" for d
      by (intro exI [of _ "fresh_file E bytes"] exI [of _ "insert parent F"]) (use that in simp)
  qed (use n in \<open>auto simp: replaced_def leftover_def\<close>)
  show "triple (\<lambda>d. disk_at (N(path \<mapsto> fresh_file E bytes)) (insert parent F) d \<and> ?safe) (conclude parent)
      (replaced E N F path bytes) (\<lambda>_. leftover N F path)"
    by (rule triple_assume, rule triple_weaken [OF conclude_at [OF p, where H = "\<lambda>_ _. False"]]) (use u in \<open>auto simp: replaced_def\<close>)
qed

lemma publish_bytes_at:
  assumes p: "parent \<notin> F" and c: "clean_path path"
  shows "triple (disk_at N (insert parent F)) (publish_bytes E path bytes parent) (replaced E N F path bytes) (\<lambda>_. leftover N F path)"
  unfolding publish_bytes_def
proof (rule triple_try [OF open_temp_at])
  show "triple (disk_at N (insert parent F)) (abandon parent None None e) (replaced E N F path bytes) (\<lambda>_. leftover N F path)" for e
    by (rule triple_weaken [OF abandon_none [OF p]]) (auto simp: replaced_def leftover_def)
  fix z :: "string \<times> nat"
  obtain tp f where z: "z = (tp, f)" by (metis surj_pair)
  show "triple (case z of (tp, f) \<Rightarrow> \<lambda>d. f \<notin> insert parent F \<and>
        disk_at (N(tp \<mapsto> fresh_file E [])) (insert f (insert parent F)) d \<and> N tp = None \<and> (\<exists>name. tp = temp_path path name))
      (case z of (tempPath, temp) \<Rightarrow> bind (attempt (fill_temp E tempPath temp bytes)) (\<lambda>filled.
         case filled of Inl e \<Rightarrow> abandon parent (Some temp) (Some tempPath) e
         | Inr _ \<Rightarrow> bind (attempt (bind (validateExistingTarget E path) (\<lambda>_. fs_rename_file tempPath path))) (\<lambda>renamed.
             case renamed of Inl e \<Rightarrow> abandon parent None (Some tempPath) e | Inr _ \<Rightarrow> conclude parent)))
      (replaced E N F path bytes) (\<lambda>_. leftover N F path)"
    unfolding z prod.case
  proof (rule triple_conj, rule triple_assume, rule triple_try [OF fill_temp_at])
    assume f: "f \<notin> insert parent F" and n: "N tp = None \<and> (\<exists>name. tp = temp_path path name)"
    have gone: "insert f (insert parent F) - {f} = insert parent F" using f by auto
    show "triple (\<lambda>d. \<exists>x G. disk_at (N(tp \<mapsto> x)) G d \<and> G - {f} = insert f (insert parent F) - {f}) (abandon parent (Some f) (Some tp) e)
        (replaced E N F path bytes) (\<lambda>_. leftover N F path)" for e
      by (rule triple_weaken [OF abandon_owned [where temp = "Some f" and tp = tp and N = N, OF p]])
        (use n in \<open>auto simp: gone replaced_def leftover_def\<close>)
    show "triple (\<lambda>d. disk_at (N(tp \<mapsto> fresh_file E bytes)) (insert f (insert parent F) - {f}) d \<and> process_uid E = runtimeUid E)
        (bind (attempt (bind (validateExistingTarget E path) (\<lambda>_. fs_rename_file tp path))) (\<lambda>renamed.
             case renamed of Inl e \<Rightarrow> abandon parent None (Some tp) e | Inr _ \<Rightarrow> conclude parent))
        (replaced E N F path bytes) (\<lambda>_. leftover N F path)"
      unfolding gone using n publish_renames [OF p c] by (auto intro!: triple_assume)
  qed
qed

lemma secure_replace_at:
  assumes c: "clean_path path" and b: "serializeJson (number_format E) h v = Some bytes"
  shows "triple (disk_at N F) (secure_replace E path h v mode)
    (\<lambda>r d. replaced E N F path bytes r d \<and> safe_parent E N path) (\<lambda>_. leftover N F path)"
proof -
  let ?Q = "\<lambda>r d. replaced E N F path bytes r d \<and> safe_parent E N path" and ?H = "\<lambda>_. leftover N F path"
  have l: "disk_at N F d \<Longrightarrow> leftover N F path d" for d by (simp add: leftover_def)
  have tail: "triple (disk_at N (insert f F)) (bind (attempt (validateExistingTarget E path)) (\<lambda>checked.
      case checked of Inl _ \<Rightarrow> bind (attempt (fs_close f)) (\<lambda>_. throw SecureJsonFileError)
      | Inr _ \<Rightarrow> publish_bytes E path bytes f)) ?Q ?H" if f: "f \<notin> F" and s: "safe_parent E N path" for f
  proof (rule triple_try [OF validateExistingTarget_at])
    show "triple (disk_at N (insert f F)) (bind (attempt (fs_close f)) (\<lambda>_. throw SecureJsonFileError)) ?Q ?H"
      by (rule triple_bind [OF close_one [OF f]], rule triple_throw) (rule l)
    show "triple (\<lambda>d. disk_at N (insert f F) d \<and> (\<forall>x. N path = Some x \<longrightarrow> safe_file E x)) (publish_bytes E path bytes f) ?Q ?H"
      by (rule triple_assume, rule triple_weaken [OF publish_bytes_at [OF f c]]) (use s in auto)
  qed
  show ?thesis unfolding secure_replace_def b option.case
  proof (rule triple_if, rule triple_throw, erule l, rule triple_try [OF openValidatedParent_at], rule triple_throw, erule l,
      rule triple_conj, rule triple_assume)
    fix f assume "f \<notin> F" "safe_parent E N path"
    then show "triple (disk_at N (insert f F)) (bind (attempt (validateExistingTarget E path)) (\<lambda>checked.
      case checked of Inl _ \<Rightarrow> bind (attempt (fs_close f)) (\<lambda>_. throw SecureJsonFileError)
      | Inr _ \<Rightarrow> publish_bytes E path bytes f)) ?Q ?H" by (rule tail)
  qed
qed

lemma syncParent_at: "triple (disk_at N F) (syncParent E path) (\<lambda>_. disk_at N F) (\<lambda>_. disk_at N F)"
  unfolding syncParent_def
proof (rule triple_if, rule triple_ret, assumption, rule triple_try [OF openValidatedParent_at], rule triple_ret, assumption,
    rule triple_conj, rule triple_assume)
  fix f
  assume "f \<notin> F"
  then show "triple (disk_at N (insert f F)) (bind (attempt fs_sync) (\<lambda>a. bind (attempt (fs_close f)) (\<lambda>b. ret (a = Inr () \<and> b = Inr ()))))
      (\<lambda>_. disk_at N F) (\<lambda>_. disk_at N F)"
    by (intro triple_bind [OF triple_attempt [OF fs_sync_at]] triple_bind [OF close_one] triple_ret)
qed

section \<open>A register\<close>

text \<open>
  What the clients rely on: a register that holds a value or none. A read answers what it holds or fails; a
  replacement either changes it to the new value and says so, or leaves it as it was.
\<close>

inductive register_reads :: "'v option \<Rightarrow> 'e + 'v option \<Rightarrow> bool" where
  read_fails: "register_reads s (Inl e)"
| read_answers: "register_reads s (Inr s)"

inductive register_replaces :: "'v option \<Rightarrow> 'v \<Rightarrow> 'e + ReplaceResult \<Rightarrow> 'v option \<Rightarrow> bool" where
  replace_fails: "register_replaces s v (Inl e) s"
| replace_refuses: "register_replaces s v (Inr NotCommitted) s"
| replace_commits: "k \<noteq> NotCommitted \<Longrightarrow> register_replaces s v (Inr k) (Some v)"

inductive_simps register_replaces_Inr: "register_replaces s v (Inr k) t"
inductive_simps register_replaces_Inl: "register_replaces s v (Inl e) t"
inductive_simps register_reads_Inr: "register_reads s (Inr v)"

definition disk_ok :: "disk \<Rightarrow> bool" where
  "disk_ok d \<longleftrightarrow> (\<forall>f \<in> descriptors d. f < next_descriptor d)"

definition file_bytes :: "disk \<Rightarrow> string \<Rightarrow> nat list option" where
  "file_bytes d path = map_option content (nodes d path)"

lemma disk_at_self: "disk_ok d \<Longrightarrow> disk_at (nodes d) (descriptors d) d"
  by (simp add: disk_ok_def disk_at_def)

lemma fresh_file_safe: "process_uid E = runtimeUid E \<Longrightarrow> safe_file E (fresh_file E bytes)"
  by (simp add: safe_file_def fresh_file_def S_IFREG_def MODE_600_def)

lemma replace_cases:
  assumes "clean_path path" and "disk_ok d" and "serializeJson (number_format E) h v = Some bytes"
    and "secure_replace E path h v mode d = (r, d')"
  shows "case r of Inl _ \<Rightarrow> leftover (nodes d) (descriptors d) path d'
    | Inr k \<Rightarrow> replaced E (nodes d) (descriptors d) path bytes k d' \<and> safe_parent E (nodes d) path"
  using tripleD_Inl [OF secure_replace_at [OF assms(1,3)] disk_at_self [OF assms(2)]]
    tripleD_Inr [OF secure_replace_at [OF assms(1,3)] disk_at_self [OF assms(2)]] assms(4)
  by (cases r) auto

lemma secure_replace_effect:
  assumes "clean_path path" and "disk_ok d" and "serializeJson (number_format E) h v = Some bytes"
    and "secure_replace E path h v mode d = (r, d')"
  shows "register_replaces (file_bytes d path) bytes r (file_bytes d' path)"
    and "disk_ok d'" and "descriptors d' = descriptors d"
    and "q \<noteq> path \<Longrightarrow> nodes d' q = nodes d q \<or> (\<exists>e. r = Inl e) \<and> nodes d q = None \<and> (\<exists>name. q = temp_path path name)"
    and "r = Inr k \<Longrightarrow> k \<noteq> NotCommitted \<Longrightarrow>
      nodes d' path = Some (fresh_file E bytes) \<and> safe_file E (fresh_file E bytes) \<and> safe_parent E (nodes d) path"
proof -
  note cases = replace_cases [OF assms] and other = temp_path_other [OF assms(1)] temp_path_other [OF assms(1), THEN not_sym]
  show "register_replaces (file_bytes d path) bytes r (file_bytes d' path)"
    using cases other
    by (cases r) (auto simp: register_replaces_Inr register_replaces_Inl replaced_def leftover_def disk_at_def file_bytes_def fresh_file_def split: if_splits)
  show "disk_ok d'" "descriptors d' = descriptors d"
    using cases by (auto simp: disk_ok_def disk_at_def replaced_def leftover_def split: sum.splits if_splits)
  show "nodes d' q = nodes d q \<or> (\<exists>e. r = Inl e) \<and> nodes d q = None \<and> (\<exists>name. q = temp_path path name)" if "q \<noteq> path"
    using cases that by (cases r) (auto simp: disk_at_def replaced_def leftover_def split: if_splits)
  show "nodes d' path = Some (fresh_file E bytes) \<and> safe_file E (fresh_file E bytes) \<and> safe_parent E (nodes d) path"
    if "r = Inr k" "k \<noteq> NotCommitted"
    using cases that by (auto simp: disk_at_def replaced_def fresh_file_safe split: if_splits)
qed

text \<open>
  C30. A private file refines a register, whatever the file system answers: a replacement changes the bytes of the
  file as a whole when it reports a commit and leaves them alone when it does not; no other path changes but a
  temporary file a reported failure may leave behind; no descriptor stays open; and a committed file is a regular
  file of the server's user, readable by no one else, in a directory no one else can write to.
\<close>

theorem secure_file_refines_register:
  assumes "clean_path path" and "disk_ok d" and "serializeJson (number_format E) h v = Some bytes"
    and "secure_replace E path h v mode d = (r, d')"
  shows "register_replaces (file_bytes d path) bytes r (file_bytes d' path) \<and> descriptors d' = descriptors d \<and>
    (\<forall>q. q \<noteq> path \<longrightarrow> nodes d' q = nodes d q \<or> (\<exists>e. r = Inl e) \<and> nodes d q = None \<and> (\<exists>name. q = temp_path path name)) \<and>
    (\<forall>k. r = Inr k \<longrightarrow> k \<noteq> NotCommitted \<longrightarrow> (\<exists>x. nodes d' path = Some x \<and> safe_file E x) \<and> safe_parent E (nodes d) path)"
  using secure_replace_effect [OF assms] by blast

section \<open>Reading back\<close>

lemma quiet_io: "outcomes d = [] \<Longrightarrow> io_call d = (Inr (), d)"
  by (simp add: io_call_def next_io_def em_simps)

lemma read_bytes_quiet: "length data \<le> limit \<Longrightarrow> read_bytes limit data 0 [] = (Inr (length data), [])"
  by (subst read_bytes.simps) (simp add: read_bytes.simps [of limit data "length data"])

lemma stringify_ascii_start: "\<exists>c cs. stringify x = c # cs \<and> c < 128"
proof (cases x)
  case (JNum r)
  have "\<exists>c cs. print_nat n = c # cs \<and> c < 128" for n
    using print_nat_digits [of n] print_nat_ascii [of n] by (cases "print_nat n") auto
  with JNum show ?thesis by (auto simp: print_int_def)
qed (auto simp: text_of_def quote_text_def)

lemma stringify_parsed:
  assumes "printable x"
  shows "parsed (utf8_encode (stringify x)) = Some x"
proof -
  obtain c cs where c: "stringify x = c # cs" "c < 128" using stringify_ascii_start by blast
  then have "utf8_encode (stringify x) = c # utf8_encode cs" by (simp add: utf8_encode_def encode_point_def surrogate_def)
  then have "take 3 (utf8_encode (stringify x)) \<noteq> [0xEF, 0xBB, 0xBF]" using c(2) by auto
  then show ?thesis
    using utf8_roundtrip [OF stringify_scalar [OF assms]] json_roundtrip [OF assms] by (simp add: parsed_def text_decoder_def)
qed

text \<open>Without faults a safe file is read.\<close>

lemma fs_calls_quiet:
  assumes "outcomes d = []"
  shows "nodes d p = Some x \<Longrightarrow> fs_stat p d = (Inr x, d)"
    and "fs_close f d = (Inr (), d\<lparr>descriptors := descriptors d - {f}\<rparr>)"
    and "nodes d p = Some x \<Longrightarrow> kind x = DirectoryNode \<Longrightarrow> fs_open_directory p d = new_descriptor d"
    and "nodes d p = Some x \<Longrightarrow> kind x = RegularFile \<Longrightarrow> fs_open_existing p d = new_descriptor d"
  using assms
  by (simp_all add: fs_stat_def fs_close_def fs_open_directory_def fs_open_existing_def em_simps quiet_io)

lemma validateAndCloseParent_quiet:
  assumes "outcomes d = []" and "safe_parent E (nodes d) path"
  shows "\<exists>d'. validateAndCloseParent E path d = (Inr (), d') \<and> outcomes d' = [] \<and> nodes d' = nodes d"
proof -
  obtain x where x: "nodes d (dirname path) = Some x" "kind x = DirectoryNode" "uid x = runtimeUid E" "mode_bits x AND 0x12 = 0"
    using assms(2) by (auto simp: safe_parent_def)
  then show ?thesis using assms(1)
    by (simp add: validateAndCloseParent_def openValidatedParent_def em_simps fs_calls_quiet new_descriptor_def)
qed

lemma secure_read_quiet:
  assumes q: "outcomes d = []" and p: "safe_parent E (nodes d) path" and x: "nodes d path = Some x" "safe_file E x"
    and v: "parsed (content x) = Some v" and l: "length (content x) \<le> m" and m: "1 \<le> m" "m \<le> MAX_SECURE_JSON_BYTES" and vp: "validatePath path"
  shows "\<exists>d'. secure_read E path m d = (Inr (Some v), d') \<and> outcomes d' = []"
proof -
  obtain d1 where d1: "validateAndCloseParent E path d = (Inr (), d1)" "outcomes d1 = []" "nodes d1 = nodes d"
    using validateAndCloseParent_quiet [OF q p] by blast
  obtain s where s: "text_decoder (content x) = Some s" "json_parse s = Some v"
    using v by (auto simp: parsed_def bind_eq_Some_conv)
  have "read_target E path m d' = (Inr v, d')" if "outcomes d' = []" "nodes d' path = Some x" for d'
    using that x(2) l s read_bytes_quiet [OF l]
    by (simp add: read_target_def validateTargetStat_def safe_file_def em_simps fs_calls_quiet readBounded_def)
  with d1 x vp m show ?thesis
    by (simp add: secure_read_def em_simps fs_calls_quiet new_descriptor_def safe_file_def)
qed

lemma committed_readable:
  assumes "heap_ok h" and "ascii_numbers (number_format E)" and "unfolds h 257 {} v = Some (x, j)"
    and "printable x" and "stringify_with (number_format E) x = stringify x"
    and "clean_path path" and "disk_ok d" and "secure_replace E path h v mode d = (Inr k, d')" and "k \<noteq> NotCommitted"
    and "outcomes d' = []"
  shows "\<exists>d''. secure_read E path MAX_SECURE_JSON_BYTES d' = (Inr (Some x), d'')"
proof -
  obtain bytes where b: "serializeJson (number_format E) h v = Some bytes" and vp: "validatePath path"
    using assms(8) by (auto simp: secure_replace_def throw_def split: if_splits option.splits)
  then have e: "preflightJson (number_format E) h v = Some x" "bytes = utf8_encode (stringify x)" "length bytes \<le> MAX_SECURE_JSON_BYTES"
    using preflight_eq [OF assms(1,2), of v] assms(3,5) by (auto simp: serializeJson_def Let_def split: if_splits option.splits)
  note eff = secure_replace_effect [OF assms(6,7) b assms(8)]
  have path: "nodes d' path = Some (fresh_file E bytes)" "safe_file E (fresh_file E bytes)" "safe_parent E (nodes d) path"
    using eff(5) [OF refl assms(9)] by auto
  have "length (dirname path) < length (join_path (dirname path) (basename path))"
    using vp by (simp add: join_path_def validatePath_def)
  then have "dirname path \<noteq> path" using assms(6) unfolding clean_path_def by (metis less_irrefl)
  then have "safe_parent E (nodes d') path" using path(3) eff(4) [of "dirname path"] by (auto simp: safe_parent_def)
  moreover have "parsed (content (fresh_file E bytes)) = Some x" using stringify_parsed [OF assms(4)] e(2) by (simp add: fresh_file_def)
  ultimately show ?thesis
    using secure_read_quiet [OF assms(10) _ path(1,2), of x MAX_SECURE_JSON_BYTES] e(3) vp
    by (auto simp: fresh_file_def MAX_SECURE_JSON_BYTES_def)
qed

text \<open>
  What was committed is read back: after a replacement by a value that unfolds to a printable tree, a read
  that meets no fault answers that tree.
\<close>

theorem secure_file_roundtrip:
  assumes "heap_ok h" and "ascii_numbers (number_format E)" and "unfolds h 257 {} v = Some (x, j)"
    and "printable x" and "stringify_with (number_format E) x = stringify x"
    and "clean_path path" and "disk_ok d" and "secure_replace E path h v mode d = (Inr k, d')" and "k \<noteq> NotCommitted"
    and "outcomes d' = []"
  shows "\<exists>d''. secure_read E path MAX_SECURE_JSON_BYTES d' = (Inr (Some x), d'')"
  using assms by (rule committed_readable)

section \<open>Witnesses\<close>

definition example_service :: SecureJsonFileService where
  "example_service = \<lparr>runtimeUid = 1000, process_uid = 1000, randomName = (\<lambda>n. replicate n (CHR ''x'')), number_format = floor_text\<rparr>"

definition example_disk :: disk where
  "example_disk = \<lparr>nodes = [''/d'' \<mapsto> \<lparr>kind = DirectoryNode, uid = 1000, mode_bits = 0x41C0, content = []\<rparr>],
     descriptors = {}, next_descriptor = 3, outcomes = [], drawn = 0\<rparr>"

lemma example_path: "dirname ''/d/f'' = ''/d''" "basename ''/d/f'' = ''f''" "clean_path ''/d/f''" "validatePath ''/d/f''"
  by (simp_all add: dirname_def basename_def trim_slashes_def clean_path_def join_path_def validatePath_def isAbsolute_def)

lemma example_disk_ok: "disk_ok example_disk"
  by (simp add: disk_ok_def example_disk_def)

lemma example_temp: "temp_path ''/d/f'' name = ''/d/.f.secure-json-'' @ name @ ''.tmp''"
  by (simp add: temp_path_def example_path join_path_def)

lemma openValidatedParent_quiet:
  assumes "outcomes d = []" and "safe_parent E (nodes d) path"
  shows "openValidatedParent E path d = (Inr (next_descriptor d),
     d\<lparr>descriptors := insert (next_descriptor d) (descriptors d), next_descriptor := Suc (next_descriptor d)\<rparr>)"
  using assms by (auto simp: openValidatedParent_def em_simps fs_calls_quiet new_descriptor_def safe_parent_def)

lemma absent_target_quiet: "outcomes d = [] \<Longrightarrow> nodes d path = None \<Longrightarrow> validateExistingTarget E path d = (Inr (), d)"
  by (simp add: validateExistingTarget_def fs_open_existing_def em_simps quiet_io)

lemma open_temp_quiet:
  assumes "outcomes d = []" and "nodes d (temp_path path (randomName E (drawn d))) = None" and "0 < n"
  shows "\<exists>d'. open_temp E path n d = (Inr (temp_path path (randomName E (drawn d)), next_descriptor d), d') \<and> outcomes d' = [] \<and>
    nodes d' = (nodes d)(temp_path path (randomName E (drawn d)) \<mapsto> fresh_file E [])"
  using assms by (cases n) (simp_all add: em_simps fs_open_exclusive_def quiet_io new_descriptor_def fresh_file_def)

lemma write_bytes_quiet: "write_bytes bytes [] = (bytes, Inr (), [])"
  by (simp add: write_bytes.simps)

lemma fill_temp_quiet:
  assumes "outcomes d = []" and "nodes d tp = Some (fresh_file E [])" and "process_uid E = runtimeUid E"
  shows "\<exists>d'. fill_temp E tp f bytes d = (Inr (), d') \<and> outcomes d' = [] \<and> nodes d' = (nodes d)(tp \<mapsto> fresh_file E bytes)"
proof -
  have m: "(S_IFREG OR MODE_600) AND 0xFFF = MODE_600" by (simp add: S_IFREG_def MODE_600_def)
  show ?thesis using assms
    by (simp add: fill_temp_def em_simps fs_chmod_def quiet_io fs_stat_def validateTempStat_def fresh_file_def m writeAll_def
        write_bytes_quiet fs_sync_def fs_close_def)
qed

lemma publish_quiet:
  assumes q: "outcomes d = []" and n: "nodes d path = None" "nodes d (temp_path path (randomName E (drawn d))) = None"
    and c: "clean_path path" and u: "process_uid E = runtimeUid E"
  shows "\<exists>d'. publish_bytes E path bytes parent d = (Inr Committed, d') \<and> outcomes d' = []"
proof -
  let ?tp = "temp_path path (randomName E (drawn d))"
  have other: "?tp \<noteq> path" by (rule temp_path_other [OF c])
  obtain d1 where d1: "open_temp E path TEMP_OPEN_ATTEMPTS d = (Inr (?tp, next_descriptor d), d1)" "outcomes d1 = []"
    "nodes d1 = (nodes d)(?tp \<mapsto> fresh_file E [])"
    using open_temp_quiet [OF q n(2), of TEMP_OPEN_ATTEMPTS] by (auto simp: TEMP_OPEN_ATTEMPTS_def)
  obtain d2 where d2: "fill_temp E ?tp (next_descriptor d) bytes d1 = (Inr (), d2)" "outcomes d2 = []" "nodes d2 path = None"
    using fill_temp_quiet [OF d1(2) _ u, of ?tp "next_descriptor d" bytes] d1(3) n(1) other by auto
  show ?thesis using d1 d2
    by (simp add: publish_bytes_def em_simps absent_target_quiet fs_rename_file_def quiet_io conclude_def fs_sync_def fs_close_def)
qed

lemma example_replace:
  "\<exists>d'. secure_replace example_service ''/d/f'' example_heap (VRef 0) MODE_600 example_disk = (Inr Committed, d') \<and> outcomes d' = []"
proof -
  have ser: "serializeJson (number_format example_service) example_heap (VRef 0) = Some (utf8_encode example_text)"
    by (simp add: example_service_def example_serialized)
  let ?d = "example_disk\<lparr>descriptors := {3}, next_descriptor := 4\<rparr>"
  have p: "openValidatedParent example_service ''/d/f'' example_disk = (Inr 3, ?d)"
    by (subst openValidatedParent_quiet) (simp_all add: example_disk_def safe_parent_def example_path example_service_def)
  have d: "outcomes ?d = []" "nodes ?d ''/d/f'' = None" "nodes ?d (temp_path ''/d/f'' (randomName example_service (drawn ?d))) = None"
    by (simp_all add: example_disk_def example_temp)
  obtain d' where "publish_bytes example_service ''/d/f'' (utf8_encode example_text) 3 ?d = (Inr Committed, d')" "outcomes d' = []"
    using publish_quiet [OF d example_path(3)] by (auto simp: example_service_def)
  with p absent_target_quiet [OF d(1,2)] ser example_path(4) show ?thesis by (simp add: secure_replace_def em_simps)
qed

theorem secure_file_refines_register_witness:
  "\<exists>d'. secure_replace example_service ''/d/f'' example_heap (VRef 0) MODE_600 example_disk = (Inr Committed, d') \<and>
     register_replaces (file_bytes example_disk ''/d/f'') (utf8_encode example_text) (Inr Committed :: SecureJsonFileError + ReplaceResult) (file_bytes d' ''/d/f'')"
proof -
  have ser: "serializeJson (number_format example_service) example_heap (VRef 0) = Some (utf8_encode example_text)"
    by (simp add: example_service_def example_serialized)
  obtain d' where d': "secure_replace example_service ''/d/f'' example_heap (VRef 0) MODE_600 example_disk = (Inr Committed, d')"
    using example_replace by blast
  with secure_file_refines_register [OF example_path(3) example_disk_ok ser d'] show ?thesis by blast
qed

theorem secure_file_roundtrip_witness:
  "\<exists>d' d''. secure_replace example_service ''/d/f'' example_heap (VRef 0) MODE_600 example_disk = (Inr Committed, d') \<and>
     secure_read example_service ''/d/f'' MAX_SECURE_JSON_BYTES d' = (Inr (Some example_tree), d'')"
proof -
  obtain d' where d': "secure_replace example_service ''/d/f'' example_heap (VRef 0) MODE_600 example_disk = (Inr Committed, d')" "outcomes d' = []"
    using example_replace by blast
  have e: "ascii_numbers (number_format example_service)" using floor_text_ascii by (simp add: example_service_def)
  have f: "stringify_with (number_format example_service) example_tree = stringify example_tree"
    using example_text_eq by (simp add: example_service_def del: stringify.simps stringify_with.simps)
  have g: "printable example_tree" by (simp add: example_tree_def printable_text_def)
  from secure_file_roundtrip [OF example_heap_ok e example_unfolds(1) g f example_path(3) example_disk_ok d'(1) _ d'(2)] d'(1)
  show ?thesis by blast
qed

end
