(* ===== verification/JsonRegister.thy ===== *)
theory JsonRegister
  imports SecureJsonFile
begin

text \<open>
  The interface \<open>SecureJsonFile\<close> of \<open>secure-json-file.ts\<close> as its clients see it, and the proof that the private
  files satisfy it. A client hands over a tree, which is an object graph without sharing: the object at each place
  of the tree has that place as its address.
\<close>

section \<open>The contract\<close>

text \<open>
  \<open>held\<close> is what the file holds: \<open>Some None\<close> when it does not exist, \<open>Some (Some v)\<close> when it holds the value
  \<open>v\<close>, and \<open>None\<close> when its bytes are not JSON. Every operation keeps \<open>ok\<close>; a read that answers, answers what is held;
  a replacement that does not report a commit changes nothing, and one that does, with a value that \<open>fit\<close>s, changes it.
\<close>

locale json_register =
  fixes rd :: "('w, 'e, json option) em" and wr :: "json \<Rightarrow> ('w, 'e, ReplaceResult) em"
    and held :: "'w \<Rightarrow> json option option" and ok :: "'w \<Rightarrow> bool" and fit :: "json \<Rightarrow> bool"
  assumes rd_keeps: "ok w \<Longrightarrow> rd w = (r, w') \<Longrightarrow> ok w' \<and> held w' = held w"
    and rd_answers: "ok w \<Longrightarrow> rd w = (Inr u, w') \<Longrightarrow> held w = Some u"
    and wr_keeps: "ok w \<Longrightarrow> wr v w = (z, w') \<Longrightarrow> ok w'"
    and wr_fails: "ok w \<Longrightarrow> wr v w = (Inl e, w') \<Longrightarrow> held w' = held w"
    and wr_refuses: "ok w \<Longrightarrow> wr v w = (Inr NotCommitted, w') \<Longrightarrow> held w' = held w"
    and wr_commits: "ok w \<Longrightarrow> wr v w = (Inr k, w') \<Longrightarrow> k \<noteq> NotCommitted \<Longrightarrow> fit v \<Longrightarrow> held w' = Some (Some v)"
begin

text \<open>Reading twice gives the same answer, and a committed value is what a later read answers.\<close>

lemma rd_twice: "ok w \<Longrightarrow> rd w = (Inr v, w') \<Longrightarrow> rd w' = (Inr v', w'') \<Longrightarrow> v' = v"
  using rd_keeps [of w "Inr v" w'] rd_answers [of w v w'] rd_answers [of w' v' w''] by simp

lemma rd_after_wr:
  "ok w \<Longrightarrow> wr v w = (Inr k, w') \<Longrightarrow> k \<noteq> NotCommitted \<Longrightarrow> fit v \<Longrightarrow> rd w' = (Inr u, w'') \<Longrightarrow> u = Some v"
  using wr_commits [of w v k w'] wr_keeps [of w v "Inr k" w'] rd_answers [of w' u w''] by simp

end

text \<open>A condition on the state that holds however an operation ends.\<close>

lemma triple_snd: "triple P m (\<lambda>_. Q) (\<lambda>_. Q) \<Longrightarrow> P s \<Longrightarrow> Q (snd (m s))"
  by (cases "m s") (auto simp: triple_def split: sum.splits)

section \<open>Trees as object graphs\<close>

definition text_units :: "utext \<Rightarrow> units" where
  "text_units s = map of_nat (concat (map point_units s))"

definition tree_ref :: "json \<Rightarrow> slot list \<Rightarrow> slot list js_value" where
  "tree_ref v p =
     (case v of
        JNull \<Rightarrow> VNull
      | JBool b \<Rightarrow> VBool b
      | JNum r \<Rightarrow> VNum (Num r)
      | JStr s \<Rightarrow> VStr (text_units s)
      | _ \<Rightarrow> VRef p)"

definition tree_object :: "json \<Rightarrow> slot list \<Rightarrow> slot list js_object" where
  "tree_object v p =
     (case v of
        JArr vs \<Rightarrow>
          \<lparr>is_array = True, array_length = length vs, plain_prototype = False,
           own_keys = map (\<lambda>(i, x). (index_key i, data_prop (tree_ref x (p @ [Index i])))) (enumerate 0 vs)\<rparr>
      | JObj ms \<Rightarrow>
          \<lparr>is_array = False, array_length = 0, plain_prototype = True,
           own_keys = map (\<lambda>(k, x). (KString (text_units k), data_prop (tree_ref x (p @ [Key k])))) ms\<rparr>
      | _ \<Rightarrow> \<lparr>is_array = False, array_length = 0, plain_prototype = True, own_keys = []\<rparr>)"

fun subtree :: "json \<Rightarrow> slot list \<Rightarrow> json" where
  "subtree v [] = v"
| "subtree (JArr vs) (Index i # p) = (if i < length vs then subtree (vs ! i) p else JNull)"
| "subtree (JObj ms) (Key k # p) = (case jm_get ms k of None \<Rightarrow> JNull | Some x \<Rightarrow> subtree x p)"
| "subtree v p = JNull"

definition tree_heap :: "json \<Rightarrow> slot list js_heap" where
  "tree_heap v p = tree_object (subtree v p) p"

text \<open>The call \<open>replace(path, value, 0o600)\<close> with a tree.\<close>

definition replace_tree :: "SecureJsonFileService \<Rightarrow> string \<Rightarrow> json \<Rightarrow> (disk, SecureJsonFileError, ReplaceResult) em" where
  "replace_tree E path v = secure_replace E path (tree_heap v) (tree_ref v []) MODE_600"

definition read_tree :: "SecureJsonFileService \<Rightarrow> string \<Rightarrow> (disk, SecureJsonFileError, json option) em" where
  "read_tree E path = secure_read E path MAX_SECURE_JSON_BYTES"

lemma subtree_append: "subtree v (p @ q) = subtree (subtree v p) q"
proof (induction v p rule: subtree.induct)
  case (2 vs i p)
  then show ?case by (cases q) auto
next
  case (3 ms k p)
  then show ?case by (cases q) (auto split: option.splits)
qed (auto, (cases q, auto)+)

text \<open>The units of a text give the text back.\<close>

lemma pair_up_Cons:
  "(\<And>u r. us = u # r \<Longrightarrow> \<not> (0xD800 \<le> c \<and> c < 0xDC00 \<and> 0xDC00 \<le> u \<and> u < 0xE000)) \<Longrightarrow> pair_up (c # us) = c # pair_up us"
  by (cases us) auto

lemma pair_up_points:
  "list_all (\<lambda>c. c < 0x110000) s \<Longrightarrow> pair_up s = s \<Longrightarrow> pair_up (concat (map point_units s)) = s"
proof (induction s)
  case (Cons c s)
  have tl: "pair_up s = s"
    using Cons.prems(2) by (cases s) (auto split: if_splits dest: arg_cong [where f = length])
  let ?us = "concat (map point_units s)"
  have IH: "pair_up ?us = s" using Cons.IH Cons.prems(1) tl by simp
  show ?case
  proof (cases "c < 0x10000")
    case True
    have "\<not> (0xD800 \<le> c \<and> c < 0xDC00 \<and> 0xDC00 \<le> u \<and> u < 0xE000)" if u: "?us = u # r" for u r
    proof (cases s)
      case (Cons l s')
      show ?thesis
      proof (cases "l < 0x10000")
        case True
        then have "u = l" using u Cons by (simp add: point_units_def)
        with Cons.prems(2) Cons show ?thesis by (auto split: if_splits)
      next
        case False
        have "l < 0x110000" using Cons.prems(1) Cons by simp
        then have "(l - 0x10000) div 0x400 < 0x400" by auto
        with u Cons False show ?thesis by (auto simp: point_units_def)
      qed
    qed (use u in simp)
    then have "pair_up (c # ?us) = c # pair_up ?us" by (rule pair_up_Cons)
    moreover have "point_units c = [c]" using True by (simp add: point_units_def)
    ultimately show ?thesis using IH by simp
  next
    case False
    define x where "x = c - 0x10000"
    have x: "x < 0x100000" "c = 0x10000 + x" using Cons.prems(1) False by (auto simp: x_def)
    have d: "x div 0x400 < 0x400" "x mod 0x400 < 0x400" using x(1) by auto
    have "0x10000 + x div 0x400 * 0x400 + x mod 0x400 = c" using x(2) by simp
    moreover have "point_units c = [0xD800 + x div 0x400, 0xDC00 + x mod 0x400]" using False by (simp add: point_units_def x_def)
    ultimately show ?thesis using d IH by simp
  qed
qed simp

lemma unit_text_units: "printable_text s \<Longrightarrow> unit_text (text_units s) = s"
proof -
  assume s: "printable_text s"
  have "list_all (\<lambda>c. c < 0x110000) s" using s by (simp add: printable_text_def)
  then have "list_all unit_ok (concat (map point_units s))"
    by (induction s) (auto simp: point_units_def unit_ok_def)
  then have "map (unat \<circ> (of_nat :: nat \<Rightarrow> 16 word)) (concat (map point_units s)) = concat (map point_units s)"
    by (intro map_idI) (auto simp: list_all_iff unit_ok_def unat_of_nat)
  with s show ?thesis by (simp add: unit_text_def text_units_def printable_text_def pair_up_points)
qed

lemma text_of_printable: "printable_text (text_of s)"
proof -
  have "list_all (\<lambda>c. c < 256) (text_of s)" by (simp add: text_of_def list_all_iff)
  then have "list_all (\<lambda>c. \<not> surrogate c) (text_of s)" "list_all (\<lambda>c. c < 0x110000) (text_of s)"
    by (auto simp: list_all_iff surrogate_def)
  then show ?thesis by (simp add: printable_text_def pair_up_plain)
qed

text \<open>Trees of objects: no arrays, distinct keys, texts without split pairs.\<close>

fun object_tree :: "json \<Rightarrow> bool" where
  "object_tree (JArr _) = False"
| "object_tree (JStr s) = printable_text s"
| "object_tree (JObj ms) = (distinct (map fst ms) \<and> list_all (\<lambda>(k, v). printable_text k \<and> object_tree v) ms)"
| "object_tree _ = True"

lemma tree_children:
  assumes "subtree v p = JObj ms" and "object_tree (JObj ms)"
  shows "object_children (tree_heap v p) = Some (map (\<lambda>(k, x). (Key k, tree_ref x (p @ [Key k]))) ms)"
proof -
  let ?own = "map (\<lambda>(k, x). (KString (text_units k), data_prop (tree_ref x (p @ [Key k])))) ms"
  have h: "tree_heap v p = \<lparr>is_array = False, array_length = 0, plain_prototype = True, own_keys = ?own\<rparr>"
    using assms(1) by (simp add: tree_heap_def tree_object_def)
  have "all_some (map plain_entry (filter (\<lambda>(_, d). enumerable d) ?own)) = Some (map (\<lambda>(k, x). (text_units k, tree_ref x (p @ [Key k]))) ms)"
    by (induction ms) (auto simp: data_prop_def)
  then show ?thesis using assms(2) unit_text_units
    by (auto simp: h object_children_def plain_entries_def list_all_iff)
qed

lemma subtree_member:
  assumes "subtree v p = JObj ms" and "distinct (map fst ms)" and "(k, x) \<in> set ms"
  shows "subtree v (p @ [Key k]) = x"
  using assms by (simp add: subtree_append jm_get_in)

lemma unfolds_tree:
  "unfolds (tree_heap v) d a (tree_ref (subtree v p) p) = Some (x, j) \<Longrightarrow> object_tree (subtree v p) \<Longrightarrow> x = subtree v p"
proof (induction d arbitrary: a p x j)
  case (Suc d)
  show ?case
  proof (cases "subtree v p")
    case (JObj ms)
    have d: "distinct (map fst ms)" and l: "object_tree y" if "(k, y) \<in> set ms" for k y
      using Suc.prems(2) JObj that by (auto simp: list_all_iff)
    let ?cs = "map (\<lambda>(k, x). (Key k, tree_ref x (p @ [Key k]))) ms"
    have ch: "object_children (tree_heap v p) = Some ?cs" using tree_children [OF JObj] Suc.prems(2) JObj by simp
    from Suc.prems(1) obtain ts where ts: "all_some (map (\<lambda>(_, c). unfolds (tree_heap v) d (insert p a) c) ?cs) = Some ts"
      "x = assemble (is_array (tree_heap v p)) (map fst ?cs) (map fst ts)"
      by (auto simp: JObj tree_ref_def ch split: if_splits option.splits simp del: map_map)
    have run: "map (\<lambda>(k, y). unfolds (tree_heap v) d (insert p a) (tree_ref y (p @ [Key k]))) ms = map Some ts"
      using ts(1) by (simp add: all_some_iff comp_def case_prod_unfold)
    then have len: "length ts = length ms" by (metis length_map)
    have "fst (ts ! i) = snd (ms ! i)" if i: "i < length ms" for i
    proof -
      obtain k y where ky: "ms ! i = (k, y)" by (metis surj_pair)
      then have mem: "(k, y) \<in> set ms" using i by (metis nth_mem)
      have s: "subtree v (p @ [Key k]) = y" by (rule subtree_member [OF JObj d mem]) (use mem in auto)
      have "unfolds (tree_heap v) d (insert p a) (tree_ref y (p @ [Key k])) = Some (ts ! i)"
        using arg_cong [OF run, of "\<lambda>xs. xs ! i"] i len ky by simp
      with Suc.IH [of "insert p a" "p @ [Key k]" "fst (ts ! i)" "snd (ts ! i)"] s l [OF mem] ky show ?thesis by simp
    qed
    then have vals: "map fst ts = map snd ms" using len by (intro nth_equalityI) auto
    have arr: "is_array (tree_heap v p) = False" by (simp add: tree_heap_def tree_object_def JObj)
    have ks: "map fst ?cs = map Key (map fst ms)" by auto
    have "assemble False (map Key (map fst ms)) (map snd ms) = JObj (zip (map fst ms) (map snd ms))"
      using fold_keys_distinct [of "map fst ms" "[]" "map snd ms"] Suc.prems(2) JObj by (simp add: assemble_def del: map_map)
    then show ?thesis using ts(2) unfolding arr ks vals JObj by (simp add: zip_map_fst_snd del: map_map)
  qed (use Suc.prems in \<open>auto simp: tree_ref_def unit_text_units\<close>)
qed simp

lemma tree_heap_ok:
  assumes "object_tree v"
  shows "heap_ok (tree_heap v)"
proof -
  have tree: "object_tree (subtree v p)" for p
    using assms
  proof (induction v p rule: subtree.induct)
    case (3 ms k p)
    show ?case
    proof (cases "jm_get ms k")
      case (Some x)
      then have "object_tree x" using 3(2) map_of_SomeD [OF Some] by (auto simp: list_all_iff)
      with 3(1) [OF Some] Some show ?thesis by simp
    qed simp
  qed auto
  have "distinct (map fst (own_keys (tree_heap v p)))" for p
  proof (cases "subtree v p")
    case (JObj ms)
    have "inj_on text_units (set (map fst ms))"
      using tree [of p] JObj unit_text_units by (intro inj_on_inverseI [where g = unit_text]) (auto simp: list_all_iff)
    then have "distinct (map (KString \<circ> text_units) (map fst ms))"
      using tree [of p] JObj by (simp add: distinct_map comp_inj_on del: map_map) (simp add: inj_on_def)
    moreover have "map fst (own_keys (tree_heap v p)) = map (KString \<circ> text_units) (map fst ms)"
      by (auto simp: tree_heap_def tree_object_def JObj)
    ultimately show ?thesis by simp
  next
    case (JArr vs)
    with tree [of p] show ?thesis by simp
  qed (auto simp: tree_heap_def tree_object_def)
  then show ?thesis by (simp add: heap_ok_def)
qed

text \<open>A flat object of plain texts is serialized when it is short.\<close>

fun flat_atom :: "json \<Rightarrow> bool" where
  "flat_atom (JStr s) = list_all (\<lambda>c. 32 \<le> c \<and> c < 128 \<and> c \<noteq> 34 \<and> c \<noteq> 92) s"
| "flat_atom (JNum r) = True"
| "flat_atom _ = False"

lemma quote_plain: "list_all (\<lambda>c. 32 \<le> c \<and> c < 128 \<and> c \<noteq> 34 \<and> c \<noteq> 92) s \<Longrightarrow> quote_text s = 34 # s @ [34]"
  by (induction s) (auto simp: quote_text_def quote_unit_def surrogate_def)

lemma plain_printable: "list_all (\<lambda>c. 32 \<le> c \<and> c < 128 \<and> c \<noteq> 34 \<and> c \<noteq> 92) s \<Longrightarrow> printable_text s"
proof -
  assume s: "list_all (\<lambda>c. 32 \<le> c \<and> c < 128 \<and> c \<noteq> 34 \<and> c \<noteq> 92) s"
  then have "list_all (\<lambda>c. \<not> surrogate c) s" "list_all (\<lambda>c. c < 0x110000) s" by (auto simp: list_all_iff surrogate_def)
  then show ?thesis by (simp add: printable_text_def pair_up_plain)
qed

lemma unfolds_flat:
  assumes "object_tree (JObj ms)" and "list_all (\<lambda>(k, x). flat_atom x) ms"
  shows "unfolds (tree_heap (JObj ms)) (Suc (Suc m)) {} (VRef []) = Some (JObj ms, length ms)"
proof -
  let ?h = "tree_heap (JObj ms)"
  have ch: "object_children (?h []) = Some (map (\<lambda>(k, x). (Key k, tree_ref x [Key k])) ms)"
    using tree_children [of "JObj ms" "[]" ms] assms(1) by simp
  have leaf: "unfolds ?h (Suc m) {[]} (tree_ref x p) = Some (x, 0)" if "flat_atom x" for x p
    using that by (cases x) (auto simp: tree_ref_def unit_text_units plain_printable)
  have "all_some (map (\<lambda>(_, c). unfolds ?h (Suc m) {[]} c) (map (\<lambda>(k, x). (Key k, tree_ref x [Key k])) ms)) = Some (map (\<lambda>(k, x). (x, 0)) ms)"
    using assms(2) by (auto simp: all_some_iff list_all_iff leaf simp del: unfolds.simps)
  moreover have "length (own_keys (?h [])) = length ms" by (simp add: tree_heap_def tree_object_def)
  moreover have "sum_list (map snd (map (\<lambda>(k, x). (x, 0::nat)) ms)) = 0" by (induction ms) auto
  ultimately have "\<exists>x. unfolds ?h (Suc (Suc m)) {} (VRef []) = Some (x, length ms)"
    by (subst unfolds.simps(2)) (simp only: js_value.case ch option.case if_False empty_iff ex_simps prod.inject option.inject, simp)
  then show ?thesis using unfolds_tree [of "JObj ms" "Suc (Suc m)" "{}" "[]"] assms(1) by (auto simp: tree_ref_def simp del: unfolds.simps)
qed

section \<open>Private files are registers\<close>

text \<open>
  What a client sees of a file: the value \<open>JSON.parse\<close> makes of its text. The parser of \<open>Json\<close> keeps the numbers of the
  text exactly; \<open>f\<close> is what the platform makes of them.
\<close>

definition read_with :: "(json \<Rightarrow> json) \<Rightarrow> SecureJsonFileService \<Rightarrow> string \<Rightarrow> (disk, SecureJsonFileError, json option) em" where
  "read_with f E path = bind (read_tree E path) (\<lambda>v. ret (map_option f v))"

definition held_with :: "(json \<Rightarrow> json) \<Rightarrow> string \<Rightarrow> disk \<Rightarrow> json option option" where
  "held_with f path d = (case file_bytes d path of None \<Rightarrow> Some None | Some bytes \<Rightarrow> map_option (\<lambda>v. Some (f v)) (parsed bytes))"

definition ok_at :: "SecureJsonFileService \<Rightarrow> string \<Rightarrow> disk \<Rightarrow> bool" where
  "ok_at E path d \<longleftrightarrow> clean_path path \<and> ascii_numbers (number_format E) \<and> disk_ok d"

definition fits_with :: "(json \<Rightarrow> json) \<Rightarrow> SecureJsonFileService \<Rightarrow> json \<Rightarrow> bool" where
  "fits_with f E v \<longleftrightarrow> object_tree v \<and> map_option f (parsed (utf8_encode (stringify_with (number_format E) v))) = Some v"

lemma held_with_bytes: "file_bytes d' path = file_bytes d path \<Longrightarrow> held_with f path d' = held_with f path d"
  by (simp add: held_with_def)

lemma read_tree_at:
  assumes "disk_ok d" and "read_tree E path d = (r, d')"
  shows "disk_ok d' \<and> nodes d' = nodes d \<and> (\<forall>u. r = Inr u \<longrightarrow> held_with f path d = Some (map_option f u))"
proof -
  have t: "triple (disk_at (nodes d) (descriptors d)) (read_tree E path)
     (\<lambda>r d'. disk_at (nodes d) (descriptors d) d' \<and> held_with f path d = Some (map_option f r)) (\<lambda>_. disk_at (nodes d) (descriptors d))"
    unfolding read_tree_def
    by (rule triple_weaken [OF secure_read_at]) (auto simp: held_with_def file_bytes_def split: option.splits)
  show ?thesis
    using tripleD_Inr [OF t disk_at_self [OF assms(1)]] tripleD_Inl [OF t disk_at_self [OF assms(1)]] assms(2)
    by (cases r) (auto simp: disk_at_def disk_ok_def)
qed

lemma read_with_at:
  assumes "disk_ok d" and "read_with f E path d = (r, d')"
  shows "disk_ok d' \<and> nodes d' = nodes d \<and> (\<forall>u. r = Inr u \<longrightarrow> held_with f path d = Some u)"
proof -
  obtain z d1 where z: "read_tree E path d = (z, d1)" by fastforce
  with read_tree_at [OF assms(1) z, of f] assms(2) show ?thesis
    by (cases z) (auto simp: read_with_def em_simps)
qed

lemma replace_tree_at:
  assumes "clean_path path" and "disk_ok d" and "replace_tree E path v d = (r, d')"
  shows "disk_ok d' \<and>
    (case serializeJson (number_format E) (tree_heap v) (tree_ref v []) of
       None \<Rightarrow> r = Inl SecureJsonFileError \<and> d' = d
     | Some bytes \<Rightarrow> register_replaces (file_bytes d path) bytes r (file_bytes d' path))"
proof (cases "serializeJson (number_format E) (tree_heap v) (tree_ref v [])")
  case None
  then show ?thesis using assms by (auto simp: replace_tree_def secure_replace_def throw_def split: if_splits)
next
  case (Some bytes)
  with secure_replace_effect(1,2) [OF assms(1,2) Some] assms(3) show ?thesis by (auto simp: replace_tree_def)
qed

lemma serialized_tree:
  assumes "ascii_numbers nt" and "object_tree v" and "serializeJson nt (tree_heap v) (tree_ref v []) = Some bytes"
  shows "bytes = utf8_encode (stringify_with nt v)"
proof -
  obtain x j where "unfolds (tree_heap v) 257 {} (tree_ref v []) = Some (x, j)" "bytes = utf8_encode (stringify_with nt x)"
    using assms(3) preflight_eq [OF tree_heap_ok [OF assms(2)] assms(1), of "tree_ref v []"]
    by (auto simp: serializeJson_def Let_def split: option.splits if_splits)
  moreover from this(1) have "x = v" using unfolds_tree [of v 257 "{}" "[]" x j] assms(2) by simp
  ultimately show ?thesis by simp
qed

interpretation parsed_register: json_register "read_with f E path" "replace_tree E path" "held_with f path" "ok_at E path" "fits_with f E"
  for f E path
proof unfold_locales
  fix d r d'
  assume "ok_at E path d" "read_with f E path d = (r, d')"
  then show "ok_at E path d' \<and> held_with f path d' = held_with f path d"
    using read_with_at [of d f E path r d'] by (auto simp: ok_at_def held_with_def file_bytes_def)
next
  fix d u d'
  assume "ok_at E path d" "read_with f E path d = (Inr u, d')"
  then show "held_with f path d = Some u" using read_with_at [of d f E path "Inr u" d'] by (simp add: ok_at_def)
next
  fix d v z d'
  assume "ok_at E path d" "replace_tree E path v d = (z, d')"
  then show "ok_at E path d'" using replace_tree_at [of path d E v z d'] by (simp add: ok_at_def)
next
  fix d v e d'
  assume "ok_at E path d" "replace_tree E path v d = (Inl e, d')"
  then show "held_with f path d' = held_with f path d"
    using replace_tree_at [of path d E v "Inl e" d']
    by (auto simp: ok_at_def register_replaces_Inl intro: held_with_bytes split: option.splits)
next
  fix d v d'
  assume "ok_at E path d" "replace_tree E path v d = (Inr NotCommitted, d')"
  then show "held_with f path d' = held_with f path d"
    using replace_tree_at [of path d E v "Inr NotCommitted" d']
    by (auto simp: ok_at_def register_replaces_Inr intro: held_with_bytes split: option.splits)
next
  fix d v k d'
  assume a: "ok_at E path d" "replace_tree E path v d = (Inr k, d')" "k \<noteq> NotCommitted" "fits_with f E v"
  obtain bytes where b: "serializeJson (number_format E) (tree_heap v) (tree_ref v []) = Some bytes"
    and "file_bytes d' path = Some bytes"
    using replace_tree_at [of path d E v "Inr k" d'] a by (auto simp: ok_at_def register_replaces_Inr split: option.splits)
  with a serialized_tree [OF _ _ b] show "held_with f path d' = Some (Some v)"
    by (simp add: held_with_def ok_at_def fits_with_def)
qed

text \<open>With numbers that need no rounding.\<close>

definition held_at :: "string \<Rightarrow> disk \<Rightarrow> json option option" where
  "held_at path d = (case file_bytes d path of None \<Rightarrow> Some None | Some bytes \<Rightarrow> map_option Some (parsed bytes))"

definition fits_file :: "SecureJsonFileService \<Rightarrow> json \<Rightarrow> bool" where
  "fits_file E v \<longleftrightarrow> object_tree v \<and> parsed (utf8_encode (stringify_with (number_format E) v)) = Some v"

lemma exact_register: "read_with (\<lambda>v. v) = read_tree" "held_with (\<lambda>v. v) = held_at" "fits_with (\<lambda>v. v) = fits_file"
  by (auto simp: fun_eq_iff read_with_def held_with_def held_at_def fits_with_def fits_file_def em_simps option.map_ident
      split: prod.splits sum.splits)

interpretation secure_register: json_register "read_tree E path" "replace_tree E path" "held_at path" "ok_at E path" "fits_file E"
  for E path
  using parsed_register.json_register_axioms [of "\<lambda>v. v" E path] by (simp only: exact_register)

end
