(* ===== verification/CredentialStore.thy ===== *)
theory CredentialStore
  imports JsonRegister CleanupEligibility DocumentCodec
begin

text \<open>
  The credential store (\<open>credential-store.ts\<close>): one user name with a bcrypt hash, kept in memory and in a private
  JSON file. The file is reached through the operations of \<open>SecureJsonFile\<close> only; what the store needs of them is
  the locale \<open>json_register\<close>, in which the agreement of memory and file is proved and which the private files of
  \<open>SecureJsonFile\<close> satisfy. The bcrypt package and the clock are parameters. Bodies run one at a time in the
  store's queue. A method that rejects when it is called changes nothing and does not enter the queue; its body
  repeats the test, which the fields it looks at, never reset, cannot turn from passing to failing.
\<close>

declare map_of_eq_Some_iff [simp del] Some_eq_map_of_iff [simp del]

section \<open>State\<close>

record CredentialRecord =
  cr_username :: utext
  passwordHash :: string
  passwordChangedAt :: string

datatype CredentialStoreError = CredentialStoreError

datatype EnrollmentResult = Enrolled ReplaceResult | AlreadyInitialized | EnrollmentNotCommitted

record ('w, 'x) CredentialStore =
  cs_current :: "CredentialRecord option"
  cs_username :: utext
  cs_cost :: int
  initializeAttempted :: bool
  initializationComplete :: bool
  cs_files :: 'w
  cs_outside :: 'x

record ('w, 'x) credential_env =
  ce_text :: text_env
  ce_read :: "('w, SecureJsonFileError, json option) em"
  ce_replace :: "json \<Rightarrow> ('w, SecureJsonFileError, ReplaceResult) em"
  ce_hash :: "utext \<Rightarrow> int \<Rightarrow> 'x \<Rightarrow> string option \<times> 'x"
  ce_compare :: "utext \<Rightarrow> string \<Rightarrow> 'x \<Rightarrow> bool option \<times> 'x"
  ce_now :: "'x \<Rightarrow> string option \<times> 'x"

type_synonym ('w, 'x, 'a) credential_op = "(('w, 'x) CredentialStore, CredentialStoreError, 'a) em"

definition MAX_PASSWORD_BYTES :: nat where "MAX_PASSWORD_BYTES = 72"
definition MIN_PASSWORD_BYTES :: nat where "MIN_PASSWORD_BYTES = 12"

definition new_credentials :: "'w \<Rightarrow> 'x \<Rightarrow> ('w, 'x) CredentialStore" where
  "new_credentials w x = \<lparr>cs_current = None, cs_username = [], cs_cost = 0, initializeAttempted = False,
     initializationComplete = False, cs_files = w, cs_outside = x\<rparr>"

section \<open>Checks\<close>

definition hasControlCharacter :: "utext \<Rightarrow> bool" where
  "hasControlCharacter s \<longleftrightarrow> list_ex (\<lambda>c. c \<le> 0x1F \<or> c = 0x7F) s"

definition normalizeUsername :: "text_env \<Rightarrow> utext \<Rightarrow> utext option" where
  "normalizeUsername U username =
     (let normalized = nfc_form U username
      in if normalized = [] \<or> normalized \<noteq> username \<or> length (utf8_encode normalized) > 256 \<or> hasControlCharacter normalized
         then None else Some normalized)"

lemma normalizeUsername_same: "normalizeUsername U u = Some n \<Longrightarrow> n = u"
  by (auto simp: normalizeUsername_def Let_def split: if_splits)

definition isValidPassword :: "utext \<Rightarrow> bool" where
  "isValidPassword password \<longleftrightarrow>
     0 \<notin> set password \<and> MIN_PASSWORD_BYTES \<le> length (utf8_encode password) \<and> length (utf8_encode password) \<le> MAX_PASSWORD_BYTES"

definition validateCost :: "jsnum \<Rightarrow> int option" where
  "validateCost cost =
     (case cost of Num r \<Rightarrow> if isInteger cost \<and> 10 \<le> r \<and> r \<le> 15 then Some \<lfloor>r\<rfloor> else None | _ \<Rightarrow> None)"

definition bcrypt_class :: "char \<Rightarrow> bool" where
  "bcrypt_class c \<longleftrightarrow> (let n = of_char c :: nat in 46 \<le> n \<and> n \<le> 57 \<or> 65 \<le> n \<and> n \<le> 90 \<or> 97 \<le> n \<and> n \<le> 122)"

definition BCRYPT_PATTERN :: "(char \<Rightarrow> bool) list" where
  "BCRYPT_PATTERN =
     [\<lambda>c. c = CHR ''$'', \<lambda>c. c = CHR ''2'', \<lambda>c. c \<in> set ''ab'', \<lambda>c. c = CHR ''$'', \<lambda>c. c = CHR ''1'', \<lambda>c. c \<in> set ''012345'',
      \<lambda>c. c = CHR ''$''] @ replicate 53 bcrypt_class"

definition bcryptCost :: "string \<Rightarrow> int option" where
  "bcryptCost h = (if matches BCRYPT_PATTERN h then Some (decimal_value (take 2 (drop 4 h))) else None)"

text \<open>
  \<open>new Date(v).toISOString() === v\<close>: the canonical form with milliseconds, with a year of four digits or, outside
  their range, a sign and six digits, within the range of \<open>Date\<close>.
\<close>

definition iso_fields :: "int \<Rightarrow> string \<Rightarrow> bool" where
  "iso_fields y r \<longleftrightarrow>
     length r = 20 \<and> matches (drop 4 UTC_PREFIX) (take 15 r) \<and> r ! 15 = CHR ''.'' \<and> list_all digit_class (take 3 (drop 16 r)) \<and>
     r ! 19 = CHR ''Z'' \<and>
     (let mo = decimal_value (take 2 (drop 1 r)); d = decimal_value (take 2 (drop 4 r)); h = decimal_value (take 2 (drop 7 r));
          mi = decimal_value (take 2 (drop 10 r)); s = decimal_value (take 2 (drop 13 r)); ms = decimal_value (take 3 (drop 16 r))
      in valid_fields y mo d h mi s \<and> \<bar>make_time y mo d h mi s ms\<bar> \<le> 8640000000000000)"

definition validateTimestamp :: "string \<Rightarrow> bool" where
  "validateTimestamp v \<longleftrightarrow>
     (if v \<noteq> [] \<and> (hd v = CHR ''+'' \<or> hd v = CHR ''-'') then
        (let y = (if hd v = CHR ''-'' then - decimal_value (take 6 (tl v)) else decimal_value (take 6 (tl v)))
         in list_all digit_class (take 6 (tl v)) \<and> (if hd v = CHR ''-'' then y < 0 else 9999 < y) \<and> iso_fields y (drop 7 v))
      else list_all digit_class (take 4 v) \<and> iso_fields (decimal_value (take 4 v)) (drop 4 v))"

definition makeRecord :: "utext \<Rightarrow> string \<Rightarrow> string \<Rightarrow> CredentialRecord option" where
  "makeRecord username hash changed =
     (if bcryptCost hash = None \<or> \<not> validateTimestamp changed then None
      else Some \<lparr>cr_username = username, passwordHash = hash, passwordChangedAt = changed\<rparr>)"

text \<open>A text of characters below 256, as the model's strings are.\<close>

definition narrow :: "utext \<Rightarrow> string option" where
  "narrow s = (if list_all (\<lambda>c. c < 256) s then Some (map char_of s) else None)"

definition record_keys :: "string list" where
  "record_keys = [''version'', ''username'', ''passwordHash'', ''passwordChangedAt'']"

definition parseRecord :: "text_env \<Rightarrow> json \<Rightarrow> CredentialRecord option" where
  "parseRecord U v =
     (case v of
        JObj ms \<Rightarrow>
          if length ms \<noteq> 4 \<or> \<not> list_all (\<lambda>k. field k ms \<noteq> None) record_keys \<or> field ''version'' ms \<noteq> Some (JNum 1) then None
          else
            (case (field ''username'' ms, field ''passwordHash'' ms, field ''passwordChangedAt'' ms) of
               (Some (JStr u), Some (JStr h), Some (JStr t)) \<Rightarrow>
                 if normalizeUsername U u \<noteq> Some u then None
                 else (case (narrow h, narrow t) of (Some h', Some t') \<Rightarrow> makeRecord u h' t' | _ \<Rightarrow> None)
             | _ \<Rightarrow> None)
      | _ \<Rightarrow> None)"

text \<open>The record as the object that is written.\<close>

definition record_json :: "CredentialRecord \<Rightarrow> json" where
  "record_json r = JObj [(text_of ''version'', JNum 1), (text_of ''username'', JStr (cr_username r)),
     (text_of ''passwordHash'', JStr (text_of (passwordHash r))), (text_of ''passwordChangedAt'', JStr (text_of (passwordChangedAt r)))]"

section \<open>Operations\<close>

definition on_file :: "('w, 'e, 'a) em \<Rightarrow> ('w, 'x, 'a) credential_op" where
  "on_file m = (\<lambda>s. case m (cs_files s) of
     (Inl _, w) \<Rightarrow> (Inl CredentialStoreError, s\<lparr>cs_files := w\<rparr>)
   | (Inr a, w) \<Rightarrow> (Inr a, s\<lparr>cs_files := w\<rparr>))"

definition outside_call :: "('x \<Rightarrow> 'a option \<times> 'x) \<Rightarrow> ('w, 'x, 'a) credential_op" where
  "outside_call f = (\<lambda>s. case f (cs_outside s) of
     (None, x) \<Rightarrow> (Inl CredentialStoreError, s\<lparr>cs_outside := x\<rparr>)
   | (Some a, x) \<Rightarrow> (Inr a, s\<lparr>cs_outside := x\<rparr>))"

definition require :: "'a option \<Rightarrow> ('w, 'x, 'a) credential_op" where
  "require v = (case v of None \<Rightarrow> throw CredentialStoreError | Some a \<Rightarrow> ret a)"

definition initializeLocal :: "('w, 'x) credential_env \<Rightarrow> utext \<Rightarrow> jsnum \<Rightarrow> ('w, 'x, unit) credential_op" where
  "initializeLocal E username cost =
     bind (gets initializeAttempted) (\<lambda>again.
     if again then throw CredentialStoreError
     else
       bind (modify (\<lambda>s. s\<lparr>initializeAttempted := True\<rparr>)) (\<lambda>_.
       bind (require (normalizeUsername (ce_text E) username)) (\<lambda>normalized.
       bind (require (validateCost cost)) (\<lambda>c.
       bind (on_file (ce_read E)) (\<lambda>persisted.
       bind (case persisted of
               None \<Rightarrow> ret ()
             | Some v \<Rightarrow>
                 bind (require (parseRecord (ce_text E) v)) (\<lambda>r.
                 if cr_username r \<noteq> normalized then throw CredentialStoreError
                 else modify (\<lambda>s. s\<lparr>cs_current := Some r\<rparr>))) (\<lambda>_.
       modify (\<lambda>s. s\<lparr>cs_username := normalized, cs_cost := c, initializationComplete := True\<rparr>)))))))"

definition isInitialized :: "('w, 'x, bool) credential_op" where
  "isInitialized = bind (gets initializationComplete) (\<lambda>complete.
     if \<not> complete then throw CredentialStoreError else gets (\<lambda>s. cs_current s \<noteq> None))"

definition fresh_record :: "('w, 'x) credential_env \<Rightarrow> utext \<Rightarrow> utext \<Rightarrow> ('w, 'x, CredentialRecord) credential_op" where
  "fresh_record E username password =
     bind (gets cs_cost) (\<lambda>cost.
     bind (outside_call (ce_hash E password cost)) (\<lambda>hash.
     if bcryptCost hash \<noteq> Some cost then throw CredentialStoreError
     else bind (outside_call (ce_now E)) (\<lambda>now. require (makeRecord username hash now))))"

definition enroll :: "('w, 'x) credential_env \<Rightarrow> utext \<Rightarrow> ('w, 'x, EnrollmentResult) credential_op" where
  "enroll E password =
     bind (gets initializationComplete) (\<lambda>complete.
     if \<not> complete then throw CredentialStoreError
     else bind (gets cs_current) (\<lambda>current.
       if current \<noteq> None then ret AlreadyInitialized
       else if \<not> isValidPassword password then throw CredentialStoreError
       else
         bind (gets cs_username) (\<lambda>username.
         bind (fresh_record E username password) (\<lambda>nxt.
         bind (on_file (ce_replace E (record_json nxt))) (\<lambda>result.
         if result = NotCommitted then ret EnrollmentNotCommitted
         else bind (modify (\<lambda>s. s\<lparr>cs_current := Some nxt\<rparr>)) (\<lambda>_. ret (Enrolled result)))))))"

definition verify :: "('w, 'x) credential_env \<Rightarrow> utext \<Rightarrow> utext \<Rightarrow> ('w, 'x, bool) credential_op" where
  "verify E username password =
     bind (gets cs_current) (\<lambda>current.
       case current of
         None \<Rightarrow> throw CredentialStoreError
       | Some r \<Rightarrow>
           if \<not> isValidPassword password then ret False
           else
             bind (outside_call (ce_compare E password (passwordHash r))) (\<lambda>same.
             ret (same \<and> username = cr_username r)))"

definition replacePassword :: "('w, 'x) credential_env \<Rightarrow> utext \<Rightarrow> ('w, 'x, ReplaceResult) credential_op" where
  "replacePassword E password =
     bind (gets cs_current) (\<lambda>current.
       case current of
         None \<Rightarrow> throw CredentialStoreError
       | Some prior \<Rightarrow>
           if \<not> isValidPassword password then throw CredentialStoreError
           else
             bind (fresh_record E (cr_username prior) password) (\<lambda>nxt.
             bind (on_file (ce_replace E (record_json nxt))) (\<lambda>result.
             bind (if result \<noteq> NotCommitted then modify (\<lambda>s. s\<lparr>cs_current := Some nxt\<rparr>) else ret ()) (\<lambda>_.
             ret result))))"

section \<open>Calls\<close>

datatype credential_call =
    InitializeLocal utext jsnum
  | Enroll utext
  | Verify utext utext
  | ReplacePassword utext

definition credential_step :: "('w, 'x) credential_env \<Rightarrow> credential_call \<Rightarrow> ('w, 'x) CredentialStore \<Rightarrow> ('w, 'x) CredentialStore" where
  "credential_step E c s =
     (case c of
        InitializeLocal u cost \<Rightarrow> snd (initializeLocal E u cost s)
      | Enroll p \<Rightarrow> snd (enroll E p s)
      | Verify u p \<Rightarrow> snd (verify E u p s)
      | ReplacePassword p \<Rightarrow> snd (replacePassword E p s))"

definition run_calls :: "('w, 'x) credential_env \<Rightarrow> credential_call list \<Rightarrow> ('w, 'x) CredentialStore \<Rightarrow> ('w, 'x) CredentialStore" where
  "run_calls E cs s = fold (credential_step E) cs s"

text \<open>User names are texts as \<open>printable_text\<close> has them: surrogate pairs are one character.\<close>

definition call_text :: "credential_call \<Rightarrow> bool" where
  "call_text c = (case c of InitializeLocal u _ \<Rightarrow> printable_text u | _ \<Rightarrow> True)"

section \<open>Records in files\<close>

lemma narrow_text [simp]: "narrow (text_of h) = Some h"
  by (auto simp: narrow_def text_of_def list_all_iff intro: map_idI)

lemma parse_record_json:
  assumes "normalizeUsername U (cr_username r) = Some (cr_username r)" and "makeRecord (cr_username r) (passwordHash r) (passwordChangedAt r) = Some r"
  shows "parseRecord U (record_json r) = Some r"
  using assms narrow_text [of "passwordHash r"] narrow_text [of "passwordChangedAt r"]
  by (simp add: parseRecord_def record_json_def record_keys_def field_def text_of_def)

lemma makeRecord_fields:
  "makeRecord u h t = Some r \<Longrightarrow> cr_username r = u \<and> passwordHash r = h \<and> makeRecord (cr_username r) (passwordHash r) (passwordChangedAt r) = Some r"
  by (auto simp: makeRecord_def split: if_splits)

lemma parseRecord_valid:
  "parseRecord U v = Some r \<Longrightarrow> normalizeUsername U (cr_username r) = Some (cr_username r)"
  by (auto simp: parseRecord_def dest!: makeRecord_fields split: json.splits option.splits if_splits)

section \<open>Memory and file\<close>

text \<open>
  After initialisation the record in memory is the one the file holds, with the store's user name; before it there
  is none.
\<close>

definition agrees :: "text_env \<Rightarrow> ('w \<Rightarrow> json option option) \<Rightarrow> ('w, 'x) CredentialStore \<Rightarrow> bool" where
  "agrees U held s \<longleftrightarrow>
     (if initializationComplete s then
        initializeAttempted s \<and> printable_text (cs_username s) \<and> normalizeUsername U (cs_username s) = Some (cs_username s) \<and>
        (case cs_current s of
           None \<Rightarrow> held (cs_files s) = Some None
         | Some r \<Rightarrow> cr_username r = cs_username s \<and> (\<exists>v. held (cs_files s) = Some (Some v) \<and> parseRecord U v = Some r))
      else cs_current s = None)"

lemma agrees_outside [simp]: "agrees U held (s\<lparr>cs_outside := x\<rparr>) = agrees U held s"
  by (simp add: agrees_def split: option.split)

lemma outside_call_triple:
  assumes "\<And>s x. P (s\<lparr>cs_outside := x\<rparr>) = P s"
  shows "triple P (outside_call f) (\<lambda>_. P) (\<lambda>_. P)"
  using assms by (auto simp: triple_def outside_call_def split: prod.split option.split)

lemma require_triple: "triple P (require v) (\<lambda>a s. P s \<and> v = Some a) (\<lambda>_. P)"
  by (simp add: triple_def require_def em_simps split: option.split)

lemma triple_look: "(\<And>a. triple (\<lambda>s. P s \<and> f s = a) (k a) Q E) \<Longrightarrow> triple P (bind (gets f) k) Q E"
  by (rule triple_bind [where R = "\<lambda>a s. P s \<and> f s = a"]) (auto intro!: triple_gets)

lemma triple_set: "(\<And>s. P s \<Longrightarrow> Q x (f s)) \<Longrightarrow> triple P (bind (modify f) (\<lambda>_. ret x)) Q E"
  by (simp add: triple_def em_simps)

lemma fresh_record_triple:
  assumes "\<And>s x. P (s\<lparr>cs_outside := x\<rparr>) = P s"
  shows "triple P (fresh_record E u p)
    (\<lambda>r s. P s \<and> cr_username r = u \<and> makeRecord (cr_username r) (passwordHash r) (passwordChangedAt r) = Some r) (\<lambda>_. P)"
  unfolding fresh_record_def
proof (rule triple_look)
  fix cost
  let ?P = "\<lambda>s. P s \<and> cs_cost s = cost"
  have keep: "?P (s\<lparr>cs_outside := x\<rparr>) = ?P s" for s x using assms by simp
  note out = outside_call_triple [where P = ?P, OF keep]
  have "triple ?P (bind (outside_call (ce_hash E p cost)) (\<lambda>hash. if bcryptCost hash \<noteq> Some cost then throw CredentialStoreError
      else bind (outside_call (ce_now E)) (\<lambda>now. require (makeRecord u hash now))))
    (\<lambda>r s. P s \<and> cr_username r = u \<and> makeRecord (cr_username r) (passwordHash r) (passwordChangedAt r) = Some r) (\<lambda>_. ?P)"
    by (rule triple_bind [OF out], rule triple_if, rule triple_throw, assumption,
        rule triple_bind [OF out], rule triple_weaken [OF require_triple]) (auto dest: makeRecord_fields)
  then show "triple ?P (bind (outside_call (ce_hash E p cost)) (\<lambda>hash. if bcryptCost hash \<noteq> Some cost then throw CredentialStoreError
      else bind (outside_call (ce_now E)) (\<lambda>now. require (makeRecord u hash now))))
    (\<lambda>r s. P s \<and> cr_username r = u \<and> makeRecord (cr_username r) (passwordHash r) (passwordChangedAt r) = Some r) (\<lambda>_. P)"
    by (rule triple_weaken) auto
qed

definition password_set :: "('w, 'x) credential_env \<Rightarrow> utext \<Rightarrow> ('w, 'x) CredentialStore \<Rightarrow> ('w, 'x) CredentialStore \<Rightarrow> bool" where
  "password_set E p s s' \<longleftrightarrow>
     (\<exists>k. enroll E p s = (Inr (Enrolled k), s')) \<or> (\<exists>k. k \<noteq> NotCommitted \<and> replacePassword E p s = (Inr k, s'))"

locale credential_file = json_register "ce_read E" "ce_replace E" held ok fit
  for E :: "('w, 'x) credential_env" and held ok fit +
  assumes fit_record: "ok w \<Longrightarrow> printable_text (cr_username r) \<Longrightarrow> fit (record_json r)"
begin

abbreviation sound :: "('w, 'x) CredentialStore \<Rightarrow> bool" where
  "sound s \<equiv> ok (cs_files s) \<and> agrees (ce_text E) held s"

text \<open>Storing a record of the store's user.\<close>

lemma store_record:
  assumes r: "makeRecord (cr_username r) (passwordHash r) (passwordChangedAt r) = Some r"
  shows "triple (\<lambda>s. sound s \<and> initializationComplete s \<and> cs_username s = cr_username r) (on_file (ce_replace E (record_json r)))
    (\<lambda>k s. if k = NotCommitted then sound s else sound (s\<lparr>cs_current := Some r\<rparr>)) (\<lambda>_. sound)"
proof (rule tripleI)
  fix s k t
  assume s: "sound s \<and> initializationComplete s \<and> cs_username s = cr_username r"
    and run: "on_file (ce_replace E (record_json r)) s = (k, t)"
  obtain z w where z: "ce_replace E (record_json r) (cs_files s) = (z, w)" by fastforce
  have ok: "ok w" using wr_keeps [OF _ z] s by blast
  show "case k of Inl e \<Rightarrow> sound t | Inr k \<Rightarrow> if k = NotCommitted then sound t else sound (t\<lparr>cs_current := Some r\<rparr>)"
  proof (cases z)
    case (Inl e)
    then show ?thesis using wr_fails [of _ _ e w] z run s ok
      by (auto simp: on_file_def agrees_def split: option.splits)
  next
    case (Inr k')
    have fit: "fit (record_json r)" "parseRecord (ce_text E) (record_json r) = Some r"
      using s r by (auto simp: agrees_def intro: fit_record parse_record_json)
    show ?thesis
      using Inr wr_refuses [of "cs_files s" "record_json r" w] wr_commits [of "cs_files s" "record_json r" k' w] z run s ok fit
      by (auto simp: on_file_def agrees_def split: option.splits)
  qed
qed

lemma write_fresh:
  assumes K: "\<And>r k. triple (\<lambda>s. if k = NotCommitted then sound s else sound (s\<lparr>cs_current := Some r\<rparr>)) (K r k) (\<lambda>_. sound) (\<lambda>_. sound)"
  shows "triple (\<lambda>s. sound s \<and> initializationComplete s \<and> cs_username s = u)
    (bind (fresh_record E u p) (\<lambda>r. bind (on_file (ce_replace E (record_json r))) (K r))) (\<lambda>_. sound) (\<lambda>_. sound)"
proof -
  let ?P = "\<lambda>s. sound s \<and> initializationComplete s \<and> cs_username s = u"
  let ?R = "\<lambda>r s. ?P s \<and> cr_username r = u \<and> makeRecord (cr_username r) (passwordHash r) (passwordChangedAt r) = Some r"
  have keep: "?P (s\<lparr>cs_outside := x\<rparr>) = ?P s" for s x by simp
  have "triple ?P (fresh_record E u p) ?R (\<lambda>_. sound)"
    by (rule triple_weaken [OF fresh_record_triple [where P = ?P, OF keep]]) auto
  moreover have "triple (?R r) (bind (on_file (ce_replace E (record_json r))) (K r)) (\<lambda>_. sound) (\<lambda>_. sound)" for r
  proof (rule triple_assume)
    assume r: "cr_username r = u \<and> makeRecord (cr_username r) (passwordHash r) (passwordChangedAt r) = Some r"
    show "triple ?P (bind (on_file (ce_replace E (record_json r))) (K r)) (\<lambda>_. sound) (\<lambda>_. sound)"
      by (rule triple_weaken [OF triple_bind [OF store_record K]]) (use r in auto)
  qed
  ultimately show ?thesis by (rule triple_bind)
qed

lemma enroll_sound: "triple sound (enroll E p) (\<lambda>_. sound) (\<lambda>_. sound)"
  unfolding enroll_def
  by (rule triple_look, rule triple_if, rule triple_throw, blast, rule triple_look, rule triple_if, rule triple_ret, blast,
      rule triple_if, rule triple_throw, blast, rule triple_look, rule triple_weaken [OF write_fresh])
    (auto intro!: triple_ret triple_if triple_set)

lemma replace_sound: "triple sound (replacePassword E p) (\<lambda>_. sound) (\<lambda>_. sound)"
  unfolding replacePassword_def
proof (rule triple_look, rule triple_case_option, rule triple_throw, blast, rule triple_if, rule triple_throw, blast,
    rule triple_weaken [OF write_fresh])
  show "triple (\<lambda>s. if k = NotCommitted then sound s else sound (s\<lparr>cs_current := Some r\<rparr>))
      (bind (if k \<noteq> NotCommitted then modify (\<lambda>s. s\<lparr>cs_current := Some r\<rparr>) else ret ()) (\<lambda>_. ret k)) (\<lambda>_. sound) (\<lambda>_. sound)" for r k
    by (cases "k = NotCommitted") (auto intro!: triple_ret triple_set simp: bind_ret)
qed (auto simp: agrees_def split: if_splits)

lemma verify_sound: "triple sound (verify E u p) (\<lambda>_. sound) (\<lambda>_. sound)"
  unfolding verify_def
proof (rule triple_look, rule triple_case_option, rule triple_throw, blast, rule triple_if, rule triple_ret, blast)
  fix current r
  have "triple sound (outside_call (ce_compare E p (passwordHash r))) (\<lambda>_. sound) (\<lambda>_. sound)"
    by (rule outside_call_triple) simp
  then have "triple sound (bind (outside_call (ce_compare E p (passwordHash r))) (\<lambda>same. ret (same \<and> u = cr_username r))) (\<lambda>_. sound) (\<lambda>_. sound)"
    by (rule triple_bind) (auto intro: triple_ret)
  then show "triple (\<lambda>s. sound s \<and> cs_current s = current)
      (bind (outside_call (ce_compare E p (passwordHash r))) (\<lambda>same. ret (same \<and> u = cr_username r))) (\<lambda>_. sound) (\<lambda>_. sound)"
    by (rule triple_weaken) auto
qed

lemma set_sound: "sound s \<Longrightarrow> password_set E p s s' \<Longrightarrow> sound s'"
  using triple_snd [OF enroll_sound [of p], of s] triple_snd [OF replace_sound [of p], of s] unfolding password_set_def by force

lemma initialize_sound:
  assumes "sound s" and "printable_text u"
  shows "sound (snd (initializeLocal E u cost s))"
proof -
  obtain y w where y: "ce_read E (cs_files s) = (y, w)" by fastforce
  have w: "ok w" "held w = held (cs_files s)" using rd_keeps [OF _ y] assms(1) by auto
  have v: "held w = Some v" if "y = Inr v" for v using rd_answers [of "cs_files s" v w] y that w assms(1) by simp
  have runs: "sound (snd (initializeLocal E u cost s))"
    if "\<not> initializeAttempted s" "normalizeUsername (ce_text E) u = Some u" "validateCost cost = Some c" for c
  proof -
    have i: "\<not> initializationComplete s" "cs_current s = None" "ok (cs_files s)"
      using assms(1) that(1) by (auto simp: agrees_def split: if_splits)
    show ?thesis
    proof (cases y)
      case (Inl e)
      with that i w y show ?thesis by (simp add: initializeLocal_def em_simps on_file_def require_def agrees_def)
    next
      case (Inr p)
      with that i assms(2) w y v [OF Inr] show ?thesis
        by (cases p) (auto simp: initializeLocal_def em_simps on_file_def require_def agrees_def split: option.split
            intro!: exI [of _ "the p"])
    qed
  qed
  have "sound (snd (initializeLocal E u cost s))" if "normalizeUsername (ce_text E) u = None \<or> validateCost cost = None \<or> initializeAttempted s"
    using that assms by (auto simp: initializeLocal_def em_simps require_def agrees_def split: option.splits if_splits)
  with runs normalizeUsername_same [of "ce_text E" u] show ?thesis by fastforce
qed

text \<open>The store after any calls, and what a store opened on its file finds there.\<close>

lemma step_sound: "sound s \<Longrightarrow> call_text c \<Longrightarrow> sound (credential_step E c s)"
  by (cases c) (simp_all add: credential_step_def call_text_def initialize_sound triple_snd [OF enroll_sound]
      triple_snd [OF replace_sound] triple_snd [OF verify_sound])

lemma calls_sound: "sound s \<Longrightarrow> list_all call_text cs \<Longrightarrow> sound (run_calls E cs s)"
  unfolding run_calls_def by (induction cs arbitrary: s) (simp_all add: step_sound)

lemma new_sound: "ok w \<Longrightarrow> sound (new_credentials w x)"
  by (simp add: new_credentials_def agrees_def)

lemma reopened:
  assumes "sound s" and "initializationComplete s" and "ce_read E (cs_files s) = (Inr v, w)" and "validateCost cost = Some c"
  shows "initializeLocal E (cs_username s) cost (new_credentials (cs_files s) x) =
    (Inr (), (new_credentials w x)\<lparr>cs_current := cs_current s, cs_username := cs_username s, cs_cost := c,
       initializeAttempted := True, initializationComplete := True\<rparr>)"
  using assms rd_answers [of "cs_files s" v w]
  by (cases "cs_current s") (auto simp: initializeLocal_def em_simps on_file_def require_def agrees_def new_credentials_def)

lemma reopened_current:
  assumes "sound s" and "initializationComplete s"
    and "initializeLocal E (cs_username s) cost (new_credentials (cs_files s) x) = (Inr (), s')"
  shows "cs_current s' = cs_current s"
proof -
  obtain v w where v: "ce_read E (cs_files s) = (Inr v, w)"
    using assms(3) by (cases "ce_read E (cs_files s)"; cases "fst (ce_read E (cs_files s))")
      (auto simp: initializeLocal_def em_simps on_file_def require_def new_credentials_def split: option.splits)
  obtain c where c: "validateCost cost = Some c"
    using assms(3) by (auto simp: initializeLocal_def em_simps require_def new_credentials_def split: option.splits)
  show ?thesis using reopened [OF assms(1,2) v c, of x] assms(3) by auto
qed

end

section \<open>On private files\<close>

definition private_env :: "SecureJsonFileService \<Rightarrow> string \<Rightarrow> (disk, 'x) credential_env \<Rightarrow> (disk, 'x) credential_env" where
  "private_env F path E = E\<lparr>ce_read := read_tree F path, ce_replace := replace_tree F path\<rparr>"

text \<open>\<open>String(1)\<close> is the digit.\<close>

definition prints_one :: "SecureJsonFileService \<Rightarrow> bool" where
  "prints_one F \<longleftrightarrow> number_format F 1 = text_of ''1''"

lemma record_printable:
  assumes "printable_text (cr_username r)"
  shows "printable (record_json r)" "object_tree (record_json r)"
  using assms text_of_printable text_of_printable [of "''version''"] text_of_printable [of "''username''"]
    text_of_printable [of "''passwordHash''"] text_of_printable [of "''passwordChangedAt''"]
  by (simp_all add: record_json_def)

lemma record_fits: "prints_one F \<Longrightarrow> printable_text (cr_username r) \<Longrightarrow> fits_file F (record_json r)"
proof -
  assume "prints_one F" and r: "printable_text (cr_username r)"
  then have "stringify_with (number_format F) (record_json r) = stringify (record_json r)"
    by (simp add: prints_one_def record_json_def print_int_def print_nat.simps text_of_def)
  then show ?thesis using record_printable [OF r] stringify_parsed by (simp add: fits_file_def)
qed

interpretation private_credentials:
  credential_file "private_env F path E" "held_at path" "\<lambda>d. ok_at F path d \<and> prints_one F" "fits_file F" for F path E
  by unfold_locales (auto simp: private_env_def record_fits dest: secure_register.rd_keeps secure_register.rd_answers
      secure_register.wr_keeps secure_register.wr_fails secure_register.wr_refuses secure_register.wr_commits)

lemma private_sound:
  assumes "ok_at F path d" and "prints_one F" and "list_all call_text cs"
  shows "(ok_at F path (cs_files (run_calls (private_env F path E) cs (new_credentials d x))) \<and> prints_one F) \<and>
    agrees (ce_text (private_env F path E)) (held_at path) (run_calls (private_env F path E) cs (new_credentials d x))"
  by (rule private_credentials.calls_sound, rule private_credentials.new_sound) (use assms in auto)

text \<open>
  C31. The credentials survive a restart: after any calls, a store opened on the file of an initialised one, for the
  same user and with the file readable, starts with the very record the old store had in memory, or without one
  when it had none.
\<close>

theorem credentials_survive_restart:
  assumes "ok_at F path d" and "prints_one F" and "list_all call_text cs"
    and "run_calls (private_env F path E) cs (new_credentials d x) = s" and "initializationComplete s"
    and "fst (read_tree F path (cs_files s)) \<noteq> Inl SecureJsonFileError" and "validateCost cost \<noteq> None"
  shows "\<exists>s'. initializeLocal (private_env F path E) (cs_username s) cost (new_credentials (cs_files s) y) = (Inr (), s') \<and>
    initializationComplete s' \<and> cs_current s' = cs_current s"
proof -
  obtain v w where v: "ce_read (private_env F path E) (cs_files s) = (Inr v, w)"
    using assms(6) by (cases "read_tree F path (cs_files s)"; cases "fst (read_tree F path (cs_files s))")
      (auto simp: private_env_def intro: SecureJsonFileError.exhaust)
  obtain c where c: "validateCost cost = Some c" using assms(7) by blast
  note sound = private_sound [OF assms(1-3), of E x, unfolded assms(4)]
  from private_credentials.reopened [OF sound assms(5) v c] show ?thesis by simp
qed

section \<open>Passwords\<close>

text \<open>What bcrypt promises: a password matches every hash made of it.\<close>

definition hash_matches :: "('w, 'x) credential_env \<Rightarrow> bool" where
  "hash_matches E \<longleftrightarrow> (\<forall>p n x h y. fst (ce_hash E p n x) = Some h \<longrightarrow> fst (ce_compare E p h y) = Some True)"

lemma fresh_record_hash:
  assumes "fresh_record E u p s = (Inr r, t)"
  shows "fst (ce_hash E p (cs_cost s) (cs_outside s)) = Some (passwordHash r) \<and> cr_username r = u \<and> (\<exists>x. t = s\<lparr>cs_outside := x\<rparr>)"
proof -
  obtain h x where h: "ce_hash E p (cs_cost s) (cs_outside s) = (h, x)" by fastforce
  obtain n z where n: "ce_now E x = (n, z)" by fastforce
  show ?thesis
  proof (cases h)
    case (Some g)
    with assms h n show ?thesis
      by (auto simp: fresh_record_def outside_call_def require_def em_simps split: option.splits if_splits dest: makeRecord_fields)
  qed (use assms h in \<open>simp add: fresh_record_def outside_call_def em_simps\<close>)
qed

lemma password_set_effect:
  assumes "password_set E p s s'"
  shows "\<exists>r x w. s' = s\<lparr>cs_outside := x, cs_files := w, cs_current := Some r\<rparr> \<and> isValidPassword p \<and>
    fst (ce_hash E p (cs_cost s) (cs_outside s)) = Some (passwordHash r) \<and>
    ((initializationComplete s \<and> cr_username r = cs_username s) \<or> (\<exists>q. cs_current s = Some q \<and> cr_username r = cr_username q))"
proof -
  have files: "\<exists>w. t' = t\<lparr>cs_files := w\<rparr>" if "on_file m t = (z, t')" for m :: "('a, SecureJsonFileError, ReplaceResult) em" and t z t'
    using that by (auto simp: on_file_def split: prod.splits sum.splits)
  obtain u r t k t' where r: "fresh_record E u p s = (Inr r, t)" "on_file (ce_replace E (record_json r)) t = (Inr k, t')"
      "s' = t'\<lparr>cs_current := Some r\<rparr>" "isValidPassword p"
    and u: "(initializationComplete s \<and> u = cs_username s) \<or> (\<exists>q. cs_current s = Some q \<and> u = cr_username q)"
    using assms unfolding password_set_def
    by (auto simp: enroll_def replacePassword_def em_simps split: prod.splits sum.splits if_splits option.splits)
  obtain x where x: "t = s\<lparr>cs_outside := x\<rparr>" using fresh_record_hash [OF r(1)] by blast
  obtain w where "t' = t\<lparr>cs_files := w\<rparr>" using files [OF r(2)] by blast
  with x r(3) have "s' = s\<lparr>cs_outside := x, cs_files := w, cs_current := Some r\<rparr>" by simp
  with r(4) u fresh_record_hash [OF r(1)] show ?thesis by blast
qed

text \<open>
  C32. A stored password verifies, and decides which others do, also after a restart: when enrolment or a password
  change reports that it was stored, the store and every store opened later on the file accept the user name with
  that password and no other user name. For every other password the answer is no when it is not a valid password, and
  otherwise bcrypt's answer for it on the hash that was made of the stored password, and no for another user name; when
  bcrypt fails, so does the call.
\<close>

theorem stored_password_verifies:
  assumes "ok_at F path d" and "prints_one F" and "list_all call_text cs" and "hash_matches E"
    and "run_calls (private_env F path E) cs (new_credentials d x) = s" and "password_set (private_env F path E) p s s1"
    and "initializeLocal (private_env F path E) (cs_username s) cost (new_credentials (cs_files s1) y) = (Inr (), s2)"
    and "t \<in> {s1, s2}"
  shows "\<exists>h. fst (ce_hash E p (cs_cost s) (cs_outside s)) = Some h \<and>
    (\<forall>u. fst (verify (private_env F path E) u p t) = Inr (u = cs_username s)) \<and>
    (\<forall>u q. fst (verify (private_env F path E) u q t) =
       (if \<not> isValidPassword q then Inr False
        else case fst (ce_compare E q h (cs_outside t)) of
               None \<Rightarrow> Inl CredentialStoreError
             | Some same \<Rightarrow> Inr (same \<and> u = cs_username s)))"
proof -
  let ?E = "private_env F path E" and ?ok = "\<lambda>d. ok_at F path d \<and> prints_one F"
  note s = private_sound [OF assms(1-3), of E x, unfolded assms(5)]
  obtain r z w where r: "s1 = s\<lparr>cs_outside := z, cs_files := w, cs_current := Some r\<rparr>" "isValidPassword p"
      "fst (ce_hash ?E p (cs_cost s) (cs_outside s)) = Some (passwordHash r)"
    and i: "(initializationComplete s \<and> cr_username r = cs_username s) \<or> (\<exists>q. cs_current s = Some q \<and> cr_username r = cr_username q)"
    using password_set_effect [OF assms(6)] by blast
  have u: "cr_username r = cs_username s" "initializationComplete s" using i s by (auto simp: agrees_def split: if_splits)
  have same: "ce_hash ?E = ce_hash E" "ce_compare ?E = ce_compare E" by (simp_all add: private_env_def)
  have match: "fst (ce_compare E p (passwordHash r) y) = Some True" for y
    using assms(4) r(3) by (auto simp: hash_matches_def same)
  have s1: "(ok_at F path (cs_files s1) \<and> prints_one F) \<and> agrees (ce_text ?E) (held_at path) s1"
    using private_credentials.set_sound [OF s assms(6)] .
  have "cs_current s2 = cs_current s1"
    by (rule private_credentials.reopened_current [OF s1]) (use r(1) u(2) assms(7) in simp_all)
  then have c: "cs_current t = Some r" using assms(8) r(1) by auto
  have v: "fst (verify ?E u q t) = (if \<not> isValidPassword q then Inr False
        else case fst (ce_compare E q (passwordHash r) (cs_outside t)) of
               None \<Rightarrow> Inl CredentialStoreError
             | Some same \<Rightarrow> Inr (same \<and> u = cs_username s))" for u q
    using c u(1) by (auto simp: verify_def em_simps outside_call_def same split: prod.splits option.splits)
  have "fst (verify ?E u p t) = Inr (u = cs_username s)" for u using v [of u p] match r(2) by simp
  with v r(3) show ?thesis unfolding same by blast
qed

section \<open>Witnesses\<close>

text \<open>A toy hash of the right shape, which tells passwords with an \<open>a\<close> from those without.\<close>

definition example_mark :: "utext \<Rightarrow> string" where
  "example_mark p = replicate 53 (if 97 \<in> set p then CHR ''a'' else CHR ''b'')"

definition credential_example :: "(disk, unit) credential_env" where
  "credential_example = \<lparr>ce_text = plain_text, ce_read = read_tree example_service ''/d/f'', ce_replace = replace_tree example_service ''/d/f'',
     ce_hash = (\<lambda>p n x. (Some (''$2b$10$'' @ example_mark p), x)), ce_compare = (\<lambda>p h x. (Some (drop 7 h = example_mark p), x)),
     ce_now = (\<lambda>x. (Some ''2024-02-29T12:00:00.000Z'', x))\<rparr>"

definition example_password :: utext where
  "example_password = replicate 12 97"

definition example_record :: CredentialRecord where
  "example_record = \<lparr>cr_username = [117], passwordHash = ''$2b$10$'' @ replicate 53 (CHR ''a''), passwordChangedAt = ''2024-02-29T12:00:00.000Z''\<rparr>"

lemma example_private: "private_env example_service ''/d/f'' credential_example = credential_example"
  by (simp add: private_env_def credential_example_def)

lemma example_matches: "hash_matches credential_example"
  by (simp add: hash_matches_def credential_example_def)

lemma example_prints: "prints_one example_service" "ok_at example_service ''/d/f'' example_disk"
  using floor_text_ascii example_path(3) example_disk_ok
  by (simp_all add: prints_one_def example_service_def floor_text_def print_int_def print_nat.simps text_of_def ok_at_def)

lemma example_bcrypt: "bcryptCost (''$2b$10$'' @ replicate 53 (CHR ''a'')) = Some 10"
proof -
  have "list_all2 (\<lambda>p c. p c) (replicate 53 bcrypt_class) (replicate 53 (CHR ''a''))"
    by (simp add: list_all2_conv_all_nth bcrypt_class_def)
  then show ?thesis by (simp add: bcryptCost_def matches_def BCRYPT_PATTERN_def decimal_value_def)
qed

lemma example_time: "validateTimestamp ''2024-02-29T12:00:00.000Z''"
  by (simp add: validateTimestamp_def iso_fields_def matches_def UTC_PREFIX_def numeral_eq_Suc decimal_value_def valid_fields_def digit_class_def
      daysInMonth_def leap_year_def make_time_def day_from_year_def day_in_year_def)

lemma example_record_made: "makeRecord [117] (''$2b$10$'' @ replicate 53 (CHR ''a'')) ''2024-02-29T12:00:00.000Z'' = Some example_record"
  using example_bcrypt example_time by (simp add: makeRecord_def example_record_def)

lemma read_absent:
  assumes "outcomes d = []" and "safe_parent E (nodes d) path" and "nodes d path = None" and "validatePath path"
  shows "\<exists>d'. read_tree E path d = (Inr None, d') \<and> outcomes d' = [] \<and> nodes d' = nodes d"
proof -
  obtain d' where "validateAndCloseParent E path d = (Inr (), d')" "outcomes d' = []" "nodes d' = nodes d"
    using validateAndCloseParent_quiet [OF assms(1,2)] by blast
  with assms(3,4) show ?thesis
    by (simp add: read_tree_def secure_read_def em_simps fs_open_existing_def quiet_io MAX_SECURE_JSON_BYTES_def)
qed

lemma replace_absent:
  assumes q: "outcomes d = []" and p: "safe_parent E (nodes d) path" and n: "nodes d path = None" "\<And>name. nodes d (temp_path path name) = None"
    and c: "clean_path path" "validatePath path" and u: "process_uid E = runtimeUid E"
    and ser: "serializeJson (number_format E) (tree_heap v) (tree_ref v []) = Some bytes"
  shows "\<exists>d'. replace_tree E path v d = (Inr Committed, d') \<and> outcomes d' = []"
proof -
  let ?d = "d\<lparr>descriptors := insert (next_descriptor d) (descriptors d), next_descriptor := Suc (next_descriptor d)\<rparr>"
  have d: "outcomes ?d = []" "nodes ?d path = None" "nodes ?d (temp_path path (randomName E (drawn ?d))) = None" using q n by simp_all
  obtain d' where "publish_bytes E path bytes (next_descriptor d) ?d = (Inr Committed, d')" "outcomes d' = []"
    using publish_quiet [OF d c(1) u] by blast
  with openValidatedParent_quiet [OF q p] absent_target_quiet [OF d(1,2)] ser c(2) show ?thesis
    by (simp add: replace_tree_def secure_replace_def em_simps)
qed

lemma example_serialize:
  "unfolds (tree_heap (record_json example_record)) 257 {} (tree_ref (record_json example_record) []) = Some (record_json example_record, 4)"
  "serializeJson floor_text (tree_heap (record_json example_record)) (tree_ref (record_json example_record) []) \<noteq> None"
proof -
  let ?v = "record_json example_record"
  have p: "printable_text (cr_username example_record)" by (simp add: example_record_def printable_text_def)
  have tree: "object_tree ?v" by (rule record_printable(2) [OF p])
  have "flat_atom (JStr (text_of (passwordHash example_record)))" "flat_atom (JStr (text_of (passwordChangedAt example_record)))"
    by (simp_all add: example_record_def text_of_def list_all_iff)
  note atoms = this
  obtain ms where ms: "?v = JObj ms" "list_all (\<lambda>(k, x). flat_atom x) ms" "length ms = 4"
    using atoms by (simp add: record_json_def) (simp add: example_record_def)
  then have "unfolds (tree_heap ?v) (Suc (Suc 255)) {} (VRef []) = Some (?v, 4)" using unfolds_flat [of ms 255] tree by simp
  then show u: "unfolds (tree_heap ?v) 257 {} (tree_ref ?v []) = Some (?v, 4)" using ms(1) by (simp add: tree_ref_def)
  have "json_nodes ?v = 5" by (simp add: record_json_def)
  moreover have "json_size floor_text ?v \<le> 200"
  proof -
    have q: "text_bytes (quote_text t) = length t + 2" if "flat_atom (JStr t)" for t
      using that by (simp add: quote_plain, subst text_bytes_ascii) (auto simp: list_all_iff)
    have k: "text_bytes (quote_text (text_of ''version'')) = 9" "text_bytes (quote_text (text_of ''username'')) = 10"
      "text_bytes (quote_text (text_of ''passwordHash'')) = 14" "text_bytes (quote_text (text_of ''passwordChangedAt'')) = 19"
      "text_bytes (quote_text (cr_username example_record)) = 3"
      by (subst q; simp add: text_of_def example_record_def)+
    have "text_bytes (floor_text 1) = 1" by (simp add: floor_text_def print_int_def print_nat.simps)
    moreover have "length (text_of (passwordHash example_record)) = 60" "length (text_of (passwordChangedAt example_record)) = 24"
      by (simp_all add: example_record_def text_of_def)
    ultimately show ?thesis using k q [OF atoms(1)] q [OF atoms(2)]
      by (simp add: json_size_def record_json_def del: text_of_def)
  qed
  ultimately show "serializeJson floor_text (tree_heap ?v) (tree_ref ?v []) \<noteq> None"
    using preflight_eq [OF tree_heap_ok [OF tree] floor_text_ascii, of "tree_ref ?v []"] u
    by (simp add: serializeJson_def fits_def json_size_def text_bytes_def Let_def MAX_SECURE_JSON_BYTES_def MAX_SERIALIZATION_KEYS_def MAX_SERIALIZATION_NODES_def)
qed

definition example_started :: "disk \<Rightarrow> (disk, unit) CredentialStore" where
  "example_started d = \<lparr>cs_current = None, cs_username = [117], cs_cost = 10, initializeAttempted = True, initializationComplete = True,
     cs_files = d, cs_outside = ()\<rparr>"

lemma example_user: "normalizeUsername plain_text [117] = Some [117]" "validateCost (Num 10) = Some 10"
  by (simp_all add: normalizeUsername_def plain_text_def hasControlCharacter_def utf8_encode_def encode_point_def surrogate_def validateCost_def)

lemma example_initialize:
  "\<exists>d. initializeLocal credential_example [117] (Num 10) (new_credentials example_disk ()) = (Inr (), example_started d) \<and>
     outcomes d = [] \<and> nodes d = nodes example_disk \<and> disk_ok d"
proof -
  have "outcomes example_disk = []" "safe_parent example_service (nodes example_disk) ''/d/f''" "nodes example_disk ''/d/f'' = None"
    by (simp_all add: example_disk_def safe_parent_def example_path example_service_def)
  then obtain d where d: "read_tree example_service ''/d/f'' example_disk = (Inr None, d)" "outcomes d = []" "nodes d = nodes example_disk"
    using read_absent example_path(4) by blast
  moreover have "disk_ok d" using read_tree_at [OF example_disk_ok d(1)] by simp
  ultimately show ?thesis
    using example_user by (simp add: initializeLocal_def em_simps on_file_def require_def new_credentials_def credential_example_def example_started_def)
qed

lemma example_enroll:
  assumes "outcomes d = []" and "nodes d = nodes example_disk"
  shows "\<exists>d'. enroll credential_example example_password (example_started d) =
      (Inr (Enrolled Committed), (example_started d')\<lparr>cs_current := Some example_record\<rparr>) \<and>
    replace_tree example_service ''/d/f'' (record_json example_record) d = (Inr Committed, d') \<and> outcomes d' = []"
proof -
  obtain bytes where "serializeJson (number_format example_service) (tree_heap (record_json example_record)) (tree_ref (record_json example_record) []) = Some bytes"
    using example_serialize(2) by (auto simp: example_service_def)
  moreover have "safe_parent example_service (nodes d) ''/d/f''" "nodes d ''/d/f'' = None" "process_uid example_service = runtimeUid example_service"
    unfolding assms(2) by (simp_all add: example_disk_def safe_parent_def example_path(1) example_service_def)
  moreover have "nodes d (temp_path ''/d/f'' name) = None" for name
    unfolding assms(2) by (simp add: example_disk_def example_temp)
  ultimately obtain d' where d': "replace_tree example_service ''/d/f'' (record_json example_record) d = (Inr Committed, d')" "outcomes d' = []"
    using replace_absent [OF assms(1) _ _ _ example_path(3,4)] by blast
  have "length (utf8_encode example_password) = 12"
    using text_bytes_ascii [of example_password] by (simp add: text_bytes_def example_password_def list_all_iff)
  then have pw: "isValidPassword example_password" "example_mark example_password = replicate 53 (CHR ''a'')"
    by (simp_all add: isValidPassword_def MIN_PASSWORD_BYTES_def MAX_PASSWORD_BYTES_def) (simp_all add: example_password_def example_mark_def)
  show ?thesis using d' pw example_bcrypt example_record_made
    by (simp add: enroll_def fresh_record_def em_simps on_file_def outside_call_def require_def credential_example_def example_started_def)
qed

lemma example_stored:
  assumes "disk_ok d" and "replace_tree example_service ''/d/f'' (record_json example_record) d = (Inr Committed, d')" and "outcomes d' = []"
  shows "\<exists>d''. read_tree example_service ''/d/f'' d' = (Inr (Some (record_json example_record)), d'')"
proof -
  have p: "printable_text (cr_username example_record)" by (simp add: example_record_def printable_text_def)
  have num: "ascii_numbers (number_format example_service)" using floor_text_ascii by (simp add: example_service_def)
  have "number_format example_service 1 = print_int 1" by (simp add: example_service_def floor_text_def)
  then have "stringify_with (number_format example_service) (record_json example_record) = stringify (record_json example_record)"
    by (simp add: record_json_def)
  from committed_readable [OF tree_heap_ok [OF record_printable(2) [OF p]] num example_serialize(1) record_printable(1) [OF p] this
      example_path(3) assms(1) _ _ assms(3)] assms(2)
  show ?thesis by (simp add: replace_tree_def read_tree_def)
qed

abbreviation "example_store \<equiv> private_env example_service ''/d/f'' credential_example"
abbreviation "example_calls \<equiv> [InitializeLocal [117] (Num 10)]"

lemma example_session:
  "\<exists>d s d'. run_calls example_store example_calls (new_credentials example_disk ()) = example_started d \<and>
     s = (example_started d')\<lparr>cs_current := Some example_record\<rparr> \<and>
     enroll example_store example_password (example_started d) = (Inr (Enrolled Committed), s) \<and>
     fst (read_tree example_service ''/d/f'' (cs_files s)) \<noteq> Inl SecureJsonFileError"
proof -
  obtain d where d: "initializeLocal example_store [117] (Num 10) (new_credentials example_disk ()) = (Inr (), example_started d)"
    "outcomes d = []" "nodes d = nodes example_disk" "disk_ok d"
    using example_initialize example_private by auto
  obtain d' where d': "enroll example_store example_password (example_started d) = (Inr (Enrolled Committed), (example_started d')\<lparr>cs_current := Some example_record\<rparr>)"
    "replace_tree example_service ''/d/f'' (record_json example_record) d = (Inr Committed, d')" "outcomes d' = []"
    using example_enroll [OF d(2,3)] example_private by auto
  have "run_calls example_store example_calls (new_credentials example_disk ()) = example_started d"
    using d(1) by (simp add: run_calls_def credential_step_def)
  moreover have "fst (read_tree example_service ''/d/f'' d') \<noteq> Inl SecureJsonFileError" using example_stored [OF d(4) d'(2,3)] by auto
  ultimately show ?thesis using d'(1) by (auto simp: example_started_def)
qed

lemma example_texts: "list_all call_text (example_calls @ [Enroll p])" "list_all call_text example_calls"
  by (simp_all add: call_text_def printable_text_def)

theorem credentials_survive_restart_witness:
  "\<exists>s s'. run_calls example_store (example_calls @ [Enroll example_password]) (new_credentials example_disk ()) = s \<and>
     cs_current s = Some example_record \<and>
     initializeLocal example_store [117] (Num 10) (new_credentials (cs_files s) ()) = (Inr (), s') \<and> cs_current s' = Some example_record"
proof -
  obtain d s d' where s: "run_calls example_store example_calls (new_credentials example_disk ()) = example_started d"
    "s = (example_started d')\<lparr>cs_current := Some example_record\<rparr>"
    "enroll example_store example_password (example_started d) = (Inr (Enrolled Committed), s)"
    "fst (read_tree example_service ''/d/f'' (cs_files s)) \<noteq> Inl SecureJsonFileError"
    using example_session by blast
  have run: "run_calls example_store (example_calls @ [Enroll example_password]) (new_credentials example_disk ()) = s"
    using s(1,3) by (simp add: run_calls_def credential_step_def)
  have c: "initializationComplete s" "cs_username s = [117]" "cs_current s = Some example_record" using s(2) by (simp_all add: example_started_def)
  from credentials_survive_restart [OF example_prints(2,1) example_texts(1) run c(1) s(4), of "Num 10" "()"] run c(2,3) example_user(2)
  show ?thesis by auto
qed

theorem stored_password_verifies_witness:
  "\<exists>s s' t. run_calls example_store example_calls (new_credentials example_disk ()) = s \<and>
     password_set example_store example_password s s' \<and>
     initializeLocal example_store [117] (Num 10) (new_credentials (cs_files s') ()) = (Inr (), t) \<and>
     fst (verify example_store [117] example_password t) = Inr True \<and> fst (verify example_store [118] example_password t) = Inr False \<and>
     fst (verify example_store [117] (replicate 12 98) t) = Inr False"
proof -
  obtain d s d' where s: "run_calls example_store example_calls (new_credentials example_disk ()) = example_started d"
    "s = (example_started d')\<lparr>cs_current := Some example_record\<rparr>"
    "enroll example_store example_password (example_started d) = (Inr (Enrolled Committed), s)"
    "fst (read_tree example_service ''/d/f'' (cs_files s)) \<noteq> Inl SecureJsonFileError"
    using example_session by blast
  have set: "password_set example_store example_password (example_started d) s" using s(3) by (auto simp: password_set_def)
  have sound: "(ok_at example_service ''/d/f'' (cs_files s) \<and> prints_one example_service) \<and> agrees (ce_text example_store) (held_at ''/d/f'') s"
    by (rule private_credentials.set_sound [OF private_sound [OF example_prints(2,1) example_texts(2), of credential_example "()", unfolded s(1)] set])
  obtain v w where v: "ce_read example_store (cs_files s) = (Inr v, w)"
    using s(4) by (cases "read_tree example_service ''/d/f'' (cs_files s)"; cases "fst (read_tree example_service ''/d/f'' (cs_files s))")
      (auto simp: private_env_def intro: SecureJsonFileError.exhaust)
  have c: "initializationComplete s" "cs_username s = [117]" using s(2) by (simp_all add: example_started_def)
  obtain t where t: "initializeLocal example_store [117] (Num 10) (new_credentials (cs_files s) ()) = (Inr (), t)"
    using private_credentials.reopened [OF sound c(1) v example_user(2), of "()"] c(2) by auto
  have u: "cs_username (example_started d) = [117]" by (simp add: example_started_def)
  obtain h where h: "fst (ce_hash credential_example example_password (cs_cost (example_started d)) (cs_outside (example_started d))) = Some h"
    "\<And>u. fst (verify example_store u example_password t) = Inr (u = [117])"
    "\<And>u q. fst (verify example_store u q t) = (if \<not> isValidPassword q then Inr False
        else case fst (ce_compare credential_example q h (cs_outside t)) of
               None \<Rightarrow> Inl CredentialStoreError | Some same \<Rightarrow> Inr (same \<and> u = [117]))"
    using stored_password_verifies [OF example_prints(2,1) example_texts(2) example_matches s(1) set t [folded u], of t, unfolded u] by blast
  have "fst (verify example_store [117] (replicate 12 98) t) = Inr False"
  proof -
    have "h = ''$2b$10$'' @ example_mark example_password" using h(1) by (simp add: credential_example_def)
    then have "fst (ce_compare credential_example (replicate 12 98) h (cs_outside t)) = Some False"
      by (simp add: credential_example_def example_mark_def example_password_def)
    with h(3) show ?thesis by simp
  qed
  with s(1) set t h(2) show ?thesis by auto
qed

end
