(* ===== verification/Settings.thy ===== *)
theory Settings
  imports Protocol JsonPreflight
begin

text \<open>
  The workspace settings (\<open>packages/shared/src/settings.ts\<close>): the schema of a settings document, the schema of the
  limits of a deployment, and the parsers. Numbers are exact reals; the results of arithmetic are rounded by the
  parameter \<open>fl\<close>, which is the rounding to a double, with an overflow giving an infinity.
\<close>

declare map_of_eq_Some_iff [simp del] Some_eq_map_of_iff [simp del]

section \<open>Options\<close>

definition fontFamilySchema :: "string list" where
  "fontFamilySchema = [''jetbrains-mono-nerd'', ''system-monospace'', ''dejavu-sans-mono'', ''noto-sans-mono'', ''liberation-mono'', ''courier'']"

definition themeSchema :: "string list" where
  "themeSchema = [''dark'', ''light'', ''ubuntu'', ''midnight-electric'', ''aurora-night'', ''carbon-violet'', ''custom'']"

definition cursorStyleSchema :: "string list" where "cursorStyleSchema = [''block'', ''underline'', ''bar'']"
definition bellBehaviorSchema :: "string list" where "bellBehaviorSchema = [''none'', ''visual'', ''sound'']"
definition reconnectBehaviorSchema :: "string list" where "reconnectBehaviorSchema = [''automatic'', ''manual'']"
definition workspaceShortcutModeSchema :: "string list" where "workspaceShortcutModeSchema = [''default'', ''disabled'']"

definition terminalPaletteKeys :: "string list" where
  "terminalPaletteKeys =
     [''background'', ''foreground'', ''cursor'', ''cursorAccent'', ''selectionBackground'', ''black'', ''red'', ''green'', ''yellow'',
      ''blue'', ''magenta'', ''cyan'', ''white'', ''brightBlack'', ''brightRed'', ''brightGreen'', ''brightYellow'', ''brightBlue'',
      ''brightMagenta'', ''brightCyan'', ''brightWhite'']"

definition MIDNIGHT_ELECTRIC_TERMINAL_PALETTE :: "(string \<times> string) list" where
  "MIDNIGHT_ELECTRIC_TERMINAL_PALETTE =
     [(''background'', ''#101827''), (''foreground'', ''#DCE8FF''), (''cursor'', ''#82B1FF''), (''cursorAccent'', ''#101827''),
      (''selectionBackground'', ''#294A82''), (''black'', ''#152238''), (''red'', ''#FF7B8B''), (''green'', ''#74D99F''),
      (''yellow'', ''#F6CB6C''), (''blue'', ''#82B1FF''), (''magenta'', ''#D8A0FF''), (''cyan'', ''#76D7EA''), (''white'', ''#DCE8FF''),
      (''brightBlack'', ''#4A5D80''), (''brightRed'', ''#FF9EAA''), (''brightGreen'', ''#99E9B6''), (''brightYellow'', ''#FFDA91''),
      (''brightBlue'', ''#A8C8FF''), (''brightMagenta'', ''#EDB9FF''), (''brightCyan'', ''#A8E8F5''), (''brightWhite'', ''#FFFFFF'')]"

section \<open>Settings and limits\<close>

record WorkspaceSettings =
  fontFamily :: string
  fontSize :: real
  lineHeight :: real
  letterSpacing :: real
  scrollback :: real
  theme :: string
  cursorStyle :: string
  cursorBlink :: bool
  bellBehavior :: string
  reconnectBehavior :: string
  automaticTabCreation :: bool
  workspaceShortcuts :: string
  defaultShell :: utext
  tmuxHistoryLimit :: real
  staleSessionCleanupHours :: real
  customTerminalPalette :: "(string \<times> string) list"

record NumericSettingLimit =
  limit_min :: real
  limit_max :: real
  limit_step :: real

record WorkspaceSettingsLimits =
  l_fontFamilies :: "string list"
  l_fontSize :: NumericSettingLimit
  l_lineHeight :: NumericSettingLimit
  l_letterSpacing :: NumericSettingLimit
  l_scrollback :: NumericSettingLimit
  l_themes :: "string list"
  l_cursorStyles :: "string list"
  l_bellBehaviors :: "string list"
  l_reconnectBehaviors :: "string list"
  l_workspaceShortcutModes :: "string list"
  l_tmuxHistoryLimit :: NumericSettingLimit
  l_staleSessionCleanupHours :: NumericSettingLimit

record WorkspaceSettingsConstraints =
  limits :: WorkspaceSettingsLimits
  allowedShells :: "utext list"

record settings_env =
  se_text :: text_env
  se_round :: "real \<Rightarrow> jsnum"

section \<open>Numbers\<close>

text \<open>The doubles that the literals \<open>0.05\<close> and \<open>1e-9\<close> denote.\<close>

definition five_hundredths :: real where "five_hundredths = 3602879701896397 / 2 ^ 56"
definition tolerance :: real where "tolerance = 4835703278458517 / 2 ^ 82"

definition isStepAligned :: "(real \<Rightarrow> jsnum) \<Rightarrow> real \<Rightarrow> real \<Rightarrow> real \<Rightarrow> bool" where
  "isStepAligned fl v minimum step =
     (case fl (v - minimum) of
        Num d \<Rightarrow>
          (case fl (d / step) of
             Num steps \<Rightarrow> (case fl (steps - of_int \<lfloor>steps + 1 / 2\<rfloor>) of Num x \<Rightarrow> \<bar>x\<bar> < tolerance | _ \<Rightarrow> False)
           | _ \<Rightarrow> False)
      | _ \<Rightarrow> False)"

section \<open>Schemas\<close>

definition enum_value :: "string list \<Rightarrow> json option \<Rightarrow> string option" where
  "enum_value options v = (case v of Some (JStr s) \<Rightarrow> find (\<lambda>x. text_of x = s) options | _ \<Rightarrow> None)"

definition integer_value :: "real \<Rightarrow> real \<Rightarrow> json option \<Rightarrow> real option" where
  "integer_value lo hi v =
     (case v of Some (JNum r) \<Rightarrow> if isSafeInteger (Num r) \<and> lo \<le> r \<and> r \<le> hi then Some r else None | _ \<Rightarrow> None)"

definition steppedNumber :: "(real \<Rightarrow> jsnum) \<Rightarrow> real \<Rightarrow> real \<Rightarrow> real \<Rightarrow> json option \<Rightarrow> real option" where
  "steppedNumber fl minimum maximum step v =
     (case v of Some (JNum r) \<Rightarrow> if minimum \<le> r \<and> r \<le> maximum \<and> isStepAligned fl r minimum step then Some r else None | _ \<Rightarrow> None)"

definition boolean_value :: "json option \<Rightarrow> bool option" where
  "boolean_value v = (case v of Some (JBool b) \<Rightarrow> Some b | _ \<Rightarrow> None)"

definition shell_text :: "text_env \<Rightarrow> utext \<Rightarrow> utext option" where
  "shell_text U s =
     (case safeNormalizedString U (Some 4096) False False s of
        None \<Rightarrow> None
      | Some n \<Rightarrow> if take 1 n = [47] then Some n else None)"

definition absoluteShellSchema :: "text_env \<Rightarrow> json option \<Rightarrow> utext option" where
  "absoluteShellSchema U v = (case v of Some (JStr s) \<Rightarrow> shell_text U s | _ \<Rightarrow> None)"

definition color_class :: "char \<Rightarrow> bool" where
  "color_class c \<longleftrightarrow> (let n = of_char c :: nat in 48 \<le> n \<and> n \<le> 57 \<or> 65 \<le> n \<and> n \<le> 70 \<or> 97 \<le> n \<and> n \<le> 102)"

definition terminalColor :: "string \<Rightarrow> bool" where
  "terminalColor s \<longleftrightarrow> matches ((\<lambda>c. c = CHR ''#'') # replicate 6 color_class) s"

definition terminalColorSchema :: "json option \<Rightarrow> string option" where
  "terminalColorSchema v =
     (case v of
        Some (JStr s) \<Rightarrow> if list_all (\<lambda>c. c < 256) s \<and> terminalColor (map char_of s) then Some (map char_of s) else None
      | _ \<Rightarrow> None)"

definition customTerminalPaletteSchema :: "json option \<Rightarrow> (string \<times> string) list option" where
  "customTerminalPaletteSchema v =
     (case v of
        Some (JObj ms) \<Rightarrow>
          if \<not> strict_fields terminalPaletteKeys ms then None
          else map_option (zip terminalPaletteKeys) (all_some (map (\<lambda>k. terminalColorSchema (field k ms)) terminalPaletteKeys))
      | _ \<Rightarrow> None)"

text \<open>The properties both schemas of a document share.\<close>

definition core_keys :: "string list" where
  "core_keys =
     [''version'', ''fontFamily'', ''fontSize'', ''lineHeight'', ''letterSpacing'', ''scrollback'', ''theme'', ''cursorStyle'', ''cursorBlink'',
      ''bellBehavior'', ''reconnectBehavior'', ''automaticTabCreation'', ''workspaceShortcuts'', ''defaultShell'', ''tmuxHistoryLimit'',
      ''staleSessionCleanupHours'']"

definition core_settings :: "settings_env \<Rightarrow> string list \<Rightarrow> string list \<Rightarrow> (utext \<times> json) list \<Rightarrow> WorkspaceSettings option" where
  "core_settings E fonts themes ms =
     (if field ''version'' ms \<noteq> Some (JNum 1) then None
      else
        Option.bind (enum_value fonts (field ''fontFamily'' ms)) (\<lambda>family.
        Option.bind (integer_value 8 32 (field ''fontSize'' ms)) (\<lambda>fsize.
        Option.bind (steppedNumber (se_round E) 1 2 five_hundredths (field ''lineHeight'' ms)) (\<lambda>height.
        Option.bind (integer_value 0 4 (field ''letterSpacing'' ms)) (\<lambda>spacing.
        Option.bind (integer_value 0 100000 (field ''scrollback'' ms)) (\<lambda>scroll.
        Option.bind (enum_value themes (field ''theme'' ms)) (\<lambda>th.
        Option.bind (enum_value cursorStyleSchema (field ''cursorStyle'' ms)) (\<lambda>style.
        Option.bind (boolean_value (field ''cursorBlink'' ms)) (\<lambda>blink.
        Option.bind (enum_value bellBehaviorSchema (field ''bellBehavior'' ms)) (\<lambda>bell.
        Option.bind (enum_value reconnectBehaviorSchema (field ''reconnectBehavior'' ms)) (\<lambda>reconnect.
        Option.bind (boolean_value (field ''automaticTabCreation'' ms)) (\<lambda>automatic.
        Option.bind (enum_value workspaceShortcutModeSchema (field ''workspaceShortcuts'' ms)) (\<lambda>shortcuts.
        Option.bind (absoluteShellSchema (se_text E) (field ''defaultShell'' ms)) (\<lambda>sh.
        Option.bind (integer_value 0 1000000 (field ''tmuxHistoryLimit'' ms)) (\<lambda>history.
        Option.bind (integer_value 0 8760 (field ''staleSessionCleanupHours'' ms)) (\<lambda>hours.
        Some \<lparr>fontFamily = family, fontSize = fsize, lineHeight = height, letterSpacing = spacing, scrollback = scroll, theme = th,
          cursorStyle = style, cursorBlink = blink, bellBehavior = bell, reconnectBehavior = reconnect, automaticTabCreation = automatic,
          workspaceShortcuts = shortcuts, defaultShell = sh, tmuxHistoryLimit = history, staleSessionCleanupHours = hours,
          customTerminalPalette = []\<rparr>))))))))))))))))"

definition workspaceSettingsSchema :: "settings_env \<Rightarrow> json \<Rightarrow> WorkspaceSettings option" where
  "workspaceSettingsSchema E v =
     (case v of
        JObj ms \<Rightarrow>
          if \<not> strict_fields (core_keys @ [''customTerminalPalette'']) ms then None
          else
            Option.bind (core_settings E fontFamilySchema themeSchema ms) (\<lambda>s.
            Option.bind (customTerminalPaletteSchema (field ''customTerminalPalette'' ms)) (\<lambda>p.
            Some (s\<lparr>customTerminalPalette := p\<rparr>)))
      | _ \<Rightarrow> None)"

definition legacyWorkspaceSettingsMissingCustomTerminalPaletteSchema :: "settings_env \<Rightarrow> json \<Rightarrow> WorkspaceSettings option" where
  "legacyWorkspaceSettingsMissingCustomTerminalPaletteSchema E v =
     (case v of
        JObj ms \<Rightarrow>
          if \<not> strict_fields core_keys ms then None
          else core_settings E [''jetbrains-mono-nerd'', ''system-monospace''] [''dark'', ''light'', ''ubuntu''] ms
      | _ \<Rightarrow> None)"

definition isLegacyWorkspaceSettingsMissingCustomTerminalPalette :: "settings_env \<Rightarrow> json \<Rightarrow> bool" where
  "isLegacyWorkspaceSettingsMissingCustomTerminalPalette E v \<longleftrightarrow> legacyWorkspaceSettingsMissingCustomTerminalPaletteSchema E v \<noteq> None"

section \<open>Deployment limits\<close>

definition uniqueOptions :: "'a list \<Rightarrow> bool" where
  "uniqueOptions xs \<longleftrightarrow> xs \<noteq> [] \<and> distinct xs"

definition numericSettingLimitSchema :: "NumericSettingLimit \<Rightarrow> bool" where
  "numericSettingLimitSchema l \<longleftrightarrow> 0 < limit_step l \<and> limit_min l \<le> limit_max l"

definition boundedLimit :: "(real \<Rightarrow> jsnum) \<Rightarrow> real \<Rightarrow> real \<Rightarrow> real \<Rightarrow> bool \<Rightarrow> NumericSettingLimit \<Rightarrow> bool" where
  "boundedLimit fl minimum maximum quantum integers l \<longleftrightarrow>
     numericSettingLimitSchema l \<and>
     \<not> (limit_min l < minimum \<or> limit_max l > maximum \<or>
        (integers \<and> \<not> list_all (\<lambda>r. isInteger (Num r)) [limit_min l, limit_max l, limit_step l]) \<or>
        \<not> isStepAligned fl (limit_min l) minimum quantum \<or> \<not> isStepAligned fl (limit_max l) minimum quantum \<or>
        \<not> isStepAligned fl (limit_step l) 0 quantum)"

definition options_of :: "string list \<Rightarrow> string list \<Rightarrow> bool" where
  "options_of options xs \<longleftrightarrow> list_all (\<lambda>x. x \<in> set options) xs \<and> uniqueOptions xs"

definition workspaceSettingsLimitsSchema :: "(real \<Rightarrow> jsnum) \<Rightarrow> WorkspaceSettingsLimits \<Rightarrow> bool" where
  "workspaceSettingsLimitsSchema fl l \<longleftrightarrow>
     options_of fontFamilySchema (l_fontFamilies l) \<and> boundedLimit fl 8 32 1 True (l_fontSize l) \<and>
     boundedLimit fl 1 2 five_hundredths False (l_lineHeight l) \<and> boundedLimit fl 0 4 1 True (l_letterSpacing l) \<and>
     boundedLimit fl 0 100000 1 True (l_scrollback l) \<and> options_of themeSchema (l_themes l) \<and>
     options_of cursorStyleSchema (l_cursorStyles l) \<and> options_of bellBehaviorSchema (l_bellBehaviors l) \<and>
     options_of reconnectBehaviorSchema (l_reconnectBehaviors l) \<and>
     options_of workspaceShortcutModeSchema (l_workspaceShortcutModes l) \<and> boundedLimit fl 0 1000000 1 True (l_tmuxHistoryLimit l) \<and>
     boundedLimit fl 0 8760 1 True (l_staleSessionCleanupHours l)"

definition workspaceSettingsConstraintsSchema :: "settings_env \<Rightarrow> WorkspaceSettingsConstraints \<Rightarrow> WorkspaceSettingsConstraints option" where
  "workspaceSettingsConstraintsSchema E c =
     (if \<not> workspaceSettingsLimitsSchema (se_round E) (limits c) then None
      else
        Option.bind (all_some (map (shell_text (se_text E)) (allowedShells c))) (\<lambda>shells.
        if uniqueOptions shells then Some (c\<lparr>allowedShells := shells\<rparr>) else None))"

definition assertNumeric :: "(real \<Rightarrow> jsnum) \<Rightarrow> real \<Rightarrow> NumericSettingLimit \<Rightarrow> bool" where
  "assertNumeric fl v l \<longleftrightarrow> \<not> (v < limit_min l \<or> v > limit_max l \<or> \<not> isStepAligned fl v (limit_min l) (limit_step l))"

definition assertWithinDeployment :: "(real \<Rightarrow> jsnum) \<Rightarrow> WorkspaceSettings \<Rightarrow> WorkspaceSettingsConstraints \<Rightarrow> bool" where
  "assertWithinDeployment fl s c \<longleftrightarrow>
     fontFamily s \<in> set (l_fontFamilies (limits c)) \<and> assertNumeric fl (fontSize s) (l_fontSize (limits c)) \<and>
     assertNumeric fl (lineHeight s) (l_lineHeight (limits c)) \<and> assertNumeric fl (letterSpacing s) (l_letterSpacing (limits c)) \<and>
     assertNumeric fl (scrollback s) (l_scrollback (limits c)) \<and> theme s \<in> set (l_themes (limits c)) \<and>
     cursorStyle s \<in> set (l_cursorStyles (limits c)) \<and> bellBehavior s \<in> set (l_bellBehaviors (limits c)) \<and>
     reconnectBehavior s \<in> set (l_reconnectBehaviors (limits c)) \<and>
     workspaceShortcuts s \<in> set (l_workspaceShortcutModes (limits c)) \<and>
     assertNumeric fl (tmuxHistoryLimit s) (l_tmuxHistoryLimit (limits c)) \<and>
     assertNumeric fl (staleSessionCleanupHours s) (l_staleSessionCleanupHours (limits c)) \<and>
     defaultShell s \<in> set (allowedShells c)"

section \<open>Parsers\<close>

definition palette_json :: "(string \<times> string) list \<Rightarrow> json" where
  "palette_json p = JObj (map (\<lambda>(k, c). (text_of k, JStr (text_of c))) p)"

definition normalizeLegacyPalette :: "settings_env \<Rightarrow> json \<Rightarrow> json" where
  "normalizeLegacyPalette E v =
     (if \<not> isLegacyWorkspaceSettingsMissingCustomTerminalPalette E v then v
      else (case v of
              JObj ms \<Rightarrow> JObj (jm_set ms (text_of ''customTerminalPalette'') (palette_json MIDNIGHT_ELECTRIC_TERMINAL_PALETTE))
            | _ \<Rightarrow> v))"

definition normalizeCursorAccent :: "WorkspaceSettings \<Rightarrow> WorkspaceSettings" where
  "normalizeCursorAccent s =
     (if theme s \<noteq> ''custom'' then s\<lparr>customTerminalPalette := MIDNIGHT_ELECTRIC_TERMINAL_PALETTE\<rparr>
      else s\<lparr>customTerminalPalette :=
        (case jm_get (customTerminalPalette s) ''background'' of
           None \<Rightarrow> customTerminalPalette s
         | Some b \<Rightarrow> jm_set (customTerminalPalette s) ''cursorAccent'' b)\<rparr>)"

definition parseWorkspaceSettings ::
  "settings_env \<Rightarrow> json \<Rightarrow> WorkspaceSettingsConstraints option \<Rightarrow> WorkspaceSettings option"
where
  "parseWorkspaceSettings E v constraints =
     Option.bind (workspaceSettingsSchema E (normalizeLegacyPalette E v)) (\<lambda>parsed.
     let settings = normalizeCursorAccent parsed in
     case constraints of
       None \<Rightarrow> Some settings
     | Some c \<Rightarrow>
         Option.bind (workspaceSettingsConstraintsSchema E c) (\<lambda>d.
         if assertWithinDeployment (se_round E) settings d then Some settings else None))"

definition parseWorkspaceSettingsMutation ::
  "settings_env \<Rightarrow> json \<Rightarrow> WorkspaceSettingsConstraints option \<Rightarrow> WorkspaceSettings option"
where
  "parseWorkspaceSettingsMutation E v constraints =
     (case v of
        JObj ms \<Rightarrow>
          if \<not> strict_fields [''settings''] ms then None
          else
            Option.bind (Option.bind (field ''settings'' ms) (workspaceSettingsSchema E)) (\<lambda>parsed.
            let settings = normalizeCursorAccent parsed in
            case constraints of
              None \<Rightarrow> Some settings
            | Some c \<Rightarrow>
                Option.bind (workspaceSettingsConstraintsSchema E c) (\<lambda>d.
                if assertWithinDeployment (se_round E) settings d then Some settings else None))
      | _ \<Rightarrow> None)"

text \<open>A settings document as the object it is.\<close>

definition settings_json :: "WorkspaceSettings \<Rightarrow> json" where
  "settings_json s = JObj
     [(text_of ''version'', JNum 1), (text_of ''fontFamily'', JStr (text_of (fontFamily s))), (text_of ''fontSize'', JNum (fontSize s)),
      (text_of ''lineHeight'', JNum (lineHeight s)), (text_of ''letterSpacing'', JNum (letterSpacing s)), (text_of ''scrollback'', JNum (scrollback s)),
      (text_of ''theme'', JStr (text_of (theme s))), (text_of ''cursorStyle'', JStr (text_of (cursorStyle s))),
      (text_of ''cursorBlink'', JBool (cursorBlink s)), (text_of ''bellBehavior'', JStr (text_of (bellBehavior s))),
      (text_of ''reconnectBehavior'', JStr (text_of (reconnectBehavior s))), (text_of ''automaticTabCreation'', JBool (automaticTabCreation s)),
      (text_of ''workspaceShortcuts'', JStr (text_of (workspaceShortcuts s))), (text_of ''defaultShell'', JStr (defaultShell s)),
      (text_of ''tmuxHistoryLimit'', JNum (tmuxHistoryLimit s)), (text_of ''staleSessionCleanupHours'', JNum (staleSessionCleanupHours s)),
      (text_of ''customTerminalPalette'', palette_json (customTerminalPalette s))]"

section \<open>Accepted settings\<close>

text \<open>
  Documented properties of NFC: it is idempotent and maps characters a path may contain to such characters.
\<close>

definition nfc_stable :: "text_env \<Rightarrow> bool" where
  "nfc_stable U \<longleftrightarrow>
     (\<forall>s. nfc_form U (nfc_form U s) = nfc_form U s) \<and>
     (\<forall>s. list_all (safe_character U False) s \<longrightarrow> list_all (safe_character U False) (nfc_form U s))"

definition palette_ok :: "(string \<times> string) list \<Rightarrow> bool" where
  "palette_ok p \<longleftrightarrow> map fst p = terminalPaletteKeys \<and> list_all (\<lambda>(_, c). terminalColor c) p"

definition settings_ok :: "settings_env \<Rightarrow> WorkspaceSettings \<Rightarrow> bool" where
  "settings_ok E s \<longleftrightarrow>
     fontFamily s \<in> set fontFamilySchema \<and> theme s \<in> set themeSchema \<and> cursorStyle s \<in> set cursorStyleSchema \<and>
     bellBehavior s \<in> set bellBehaviorSchema \<and> reconnectBehavior s \<in> set reconnectBehaviorSchema \<and>
     workspaceShortcuts s \<in> set workspaceShortcutModeSchema \<and>
     integer_value 8 32 (Some (JNum (fontSize s))) = Some (fontSize s) \<and>
     steppedNumber (se_round E) 1 2 five_hundredths (Some (JNum (lineHeight s))) = Some (lineHeight s) \<and>
     integer_value 0 4 (Some (JNum (letterSpacing s))) = Some (letterSpacing s) \<and>
     integer_value 0 100000 (Some (JNum (scrollback s))) = Some (scrollback s) \<and>
     integer_value 0 1000000 (Some (JNum (tmuxHistoryLimit s))) = Some (tmuxHistoryLimit s) \<and>
     integer_value 0 8760 (Some (JNum (staleSessionCleanupHours s))) = Some (staleSessionCleanupHours s) \<and>
     shell_text (se_text E) (defaultShell s) = Some (defaultShell s)"

lemma text_of_inject: "text_of x = text_of y \<longleftrightarrow> x = y"
  unfolding text_of_def by (rule inj_map_eq_map) (simp add: inj_on_def)

lemma enum_value_in: "enum_value xs v = Some x \<Longrightarrow> x \<in> set xs"
  by (auto simp: enum_value_def find_Some_iff split: option.splits json.splits)

lemma enum_value_text: "x \<in> set xs \<Longrightarrow> enum_value xs (Some (JStr (text_of x))) = Some x"
proof -
  assume "x \<in> set xs"
  then have "find (\<lambda>y. y = x) xs = Some x" by (induction xs) auto
  then show ?thesis by (simp add: enum_value_def text_of_inject)
qed

lemma integer_value_same: "integer_value lo hi v = Some r \<Longrightarrow> integer_value lo hi (Some (JNum r)) = Some r"
  by (auto simp: integer_value_def split: option.splits json.splits if_splits)

lemma steppedNumber_same: "steppedNumber fl lo hi st v = Some r \<Longrightarrow> steppedNumber fl lo hi st (Some (JNum r)) = Some r"
  by (auto simp: steppedNumber_def split: option.splits json.splits if_splits)

lemma shell_text_same:
  assumes "nfc_stable U" and "shell_text U s = Some n"
  shows "shell_text U n = Some n"
proof -
  have n: "list_all (safe_character U False) s" "n = nfc_form U s" "\<not> utf8ByteLength n < 1" "utf8ByteLength n \<le> 4096" "take 1 n = [47]"
    using assms(2) by (auto simp: shell_text_def safeNormalizedString_def Let_def split: option.splits if_splits)
  then have "list_all (safe_character U False) n" "nfc_form U n = n" using assms(1) by (auto simp: nfc_stable_def)
  with n show ?thesis by (simp add: shell_text_def safeNormalizedString_def)
qed

lemma shell_field_same: "nfc_stable U \<Longrightarrow> absoluteShellSchema U v = Some n \<Longrightarrow> shell_text U n = Some n"
  by (auto simp: absoluteShellSchema_def dest: shell_text_same split: option.splits json.splits)

lemma core_settings_ok:
  assumes "nfc_stable (se_text E)" and "core_settings E fonts themes ms = Some s"
    and "set fonts \<subseteq> set fontFamilySchema" and "set themes \<subseteq> set themeSchema"
  shows "settings_ok E s \<and> customTerminalPalette s = []"
  using assms
  by (auto simp: core_settings_def settings_ok_def bind_eq_Some_conv split: if_splits
      dest: enum_value_in integer_value_same steppedNumber_same shell_field_same)

lemma color_text: "terminalColor c \<Longrightarrow> terminalColorSchema (Some (JStr (text_of c))) = Some c"
  by (auto simp: terminalColorSchema_def text_of_def list_all_iff comp_def intro: map_idI)

lemma color_value: "terminalColorSchema v = Some c \<Longrightarrow> terminalColor c"
  by (auto simp: terminalColorSchema_def split: option.splits json.splits if_splits)

lemma palette_value: "customTerminalPaletteSchema v = Some p \<Longrightarrow> palette_ok p"
proof -
  assume "customTerminalPaletteSchema v = Some p"
  then obtain ms cs where cs: "map (\<lambda>k. terminalColorSchema (field k ms)) terminalPaletteKeys = map Some cs" "p = zip terminalPaletteKeys cs"
    by (auto simp: customTerminalPaletteSchema_def all_some_iff split: option.splits json.splits if_splits)
  then have len: "length terminalPaletteKeys = length cs" by (metis length_map)
  have "terminalColor (cs ! i)" if "i < length cs" for i
    using arg_cong [OF cs(1), of "\<lambda>xs. xs ! i"] that len color_value by simp
  then show ?thesis using cs(2) len by (auto simp: palette_ok_def list_all_iff in_set_zip)
qed

lemma palette_keys_distinct: "distinct terminalPaletteKeys"
  by (simp add: terminalPaletteKeys_def)

lemma map_of_text: "map_of (map (\<lambda>(k, c). (text_of k, f c)) p) (text_of k) = map_option f (map_of p k)"
  by (induction p) (auto simp: text_of_inject)

lemma palette_json_value:
  assumes "palette_ok p"
  shows "customTerminalPaletteSchema (Some (palette_json p)) = Some p"
proof -
  let ?ms = "map (\<lambda>(k, c). (text_of k, JStr (text_of c))) p"
  have p: "map fst p = terminalPaletteKeys" "list_all (\<lambda>(_, c). terminalColor c) p" using assms by (simp_all add: palette_ok_def)
  have d: "distinct (map fst p)" using p(1) palette_keys_distinct by simp
  have "terminalColorSchema (field (fst x) ?ms) = Some (snd x)" if "x \<in> set p" for x
  proof -
    have "map_of p (fst x) = Some (snd x)" using d that by simp
    then show ?thesis using p(2) that by (auto simp: field_def map_of_text list_all_iff color_text)
  qed
  then have "map (\<lambda>k. terminalColorSchema (field k ?ms)) (map fst p) = map Some (map snd p)" by simp
  then have "all_some (map (\<lambda>k. terminalColorSchema (field k ?ms)) terminalPaletteKeys) = Some (map snd p)"
    unfolding p(1) by (simp only: all_some_iff)
  moreover have "strict_fields terminalPaletteKeys ?ms" unfolding p(1) [symmetric] by (force simp: strict_fields_def list_all_iff)
  ultimately show ?thesis using p(1) by (simp add: customTerminalPaletteSchema_def palette_json_def) (metis zip_map_fst_snd)
qed

lemma midnight_ok: "palette_ok MIDNIGHT_ELECTRIC_TERMINAL_PALETTE"
  by (simp add: palette_ok_def MIDNIGHT_ELECTRIC_TERMINAL_PALETTE_def terminalPaletteKeys_def terminalColor_def matches_def color_class_def
      numeral_eq_Suc)

text \<open>A document that is accepted is accepted again as it was returned.\<close>

lemma settings_fields:
  assumes "settings_ok E s"
  shows "core_settings E fontFamilySchema themeSchema
    [(text_of ''version'', JNum 1), (text_of ''fontFamily'', JStr (text_of (fontFamily s))), (text_of ''fontSize'', JNum (fontSize s)),
      (text_of ''lineHeight'', JNum (lineHeight s)), (text_of ''letterSpacing'', JNum (letterSpacing s)), (text_of ''scrollback'', JNum (scrollback s)),
      (text_of ''theme'', JStr (text_of (theme s))), (text_of ''cursorStyle'', JStr (text_of (cursorStyle s))),
      (text_of ''cursorBlink'', JBool (cursorBlink s)), (text_of ''bellBehavior'', JStr (text_of (bellBehavior s))),
      (text_of ''reconnectBehavior'', JStr (text_of (reconnectBehavior s))), (text_of ''automaticTabCreation'', JBool (automaticTabCreation s)),
      (text_of ''workspaceShortcuts'', JStr (text_of (workspaceShortcuts s))), (text_of ''defaultShell'', JStr (defaultShell s)),
      (text_of ''tmuxHistoryLimit'', JNum (tmuxHistoryLimit s)), (text_of ''staleSessionCleanupHours'', JNum (staleSessionCleanupHours s)),
      (text_of ''customTerminalPalette'', palette_json (customTerminalPalette s))] = Some (s\<lparr>customTerminalPalette := []\<rparr>)"
  using assms
  by (simp add: core_settings_def field_def text_of_inject settings_ok_def enum_value_text boolean_value_def absoluteShellSchema_def)

lemma schema_accepts:
  assumes "settings_ok E s" and "palette_ok (customTerminalPalette s)"
  shows "workspaceSettingsSchema E (settings_json s) = Some s"
  unfolding workspaceSettingsSchema_def settings_json_def json.case settings_fields [OF assms(1)]
  using palette_json_value [OF assms(2)]
  by (simp add: strict_fields_def core_keys_def field_def text_of_inject)

lemma schema_ok:
  assumes "nfc_stable (se_text E)" and "workspaceSettingsSchema E v = Some s"
  shows "settings_ok E s" "palette_ok (customTerminalPalette s)"
proof -
  obtain ms t p where t: "core_settings E fontFamilySchema themeSchema ms = Some t" "palette_ok p" "s = t\<lparr>customTerminalPalette := p\<rparr>"
    using assms(2) by (auto simp: workspaceSettingsSchema_def bind_eq_Some_conv dest: palette_value split: json.splits if_splits)
  then show "settings_ok E s" "palette_ok (customTerminalPalette s)"
    using core_settings_ok [OF assms(1) t(1)] by (auto simp: settings_ok_def)
qed

lemma palette_set_ok:
  assumes "palette_ok p" and "jm_get p k = Some b" and "a \<in> set terminalPaletteKeys"
  shows "palette_ok (jm_set p a b)"
proof -
  have "map fst (jm_set p a b) = map fst p" using assms(1,3) by (simp add: palette_ok_def update_keys)
  moreover have "terminalColor c" if "(j, c) \<in> set (jm_set p a b)" for j c
  proof -
    have "distinct (map fst (jm_set p a b))" using assms(1) palette_keys_distinct by (simp add: palette_ok_def distinct_update)
    then have "jm_get (jm_set p a b) j = Some c" using that by (simp only: map_of_eq_Some_iff)
    then have "(if j = a then Some b else jm_get p j) = Some c" by simp
    then show ?thesis using assms(1,2) map_of_SomeD [of p] by (fastforce simp: palette_ok_def list_all_iff split: if_splits)
  qed
  ultimately show ?thesis using assms(1) by (auto simp: palette_ok_def list_all_iff)
qed

lemma palette_background: "palette_ok p \<Longrightarrow> \<exists>b. jm_get p ''background'' = Some b"
proof -
  assume "palette_ok p"
  then have "set (map fst p) = set terminalPaletteKeys" by (simp add: palette_ok_def)
  then have "''background'' \<in> fst ` set p" by (simp add: terminalPaletteKeys_def)
  then show ?thesis by (cases "jm_get p ''background''") (simp_all add: map_of_eq_None_iff)
qed

lemma normalize_ok:
  assumes "settings_ok E s" and "palette_ok (customTerminalPalette s)"
  shows "settings_ok E (normalizeCursorAccent s)" "palette_ok (customTerminalPalette (normalizeCursorAccent s))"
    "normalizeCursorAccent (normalizeCursorAccent s) = normalizeCursorAccent s"
proof -
  obtain b where b: "jm_get (customTerminalPalette s) ''background'' = Some b" using palette_background [OF assms(2)] by blast
  have key: "''cursorAccent'' \<in> set terminalPaletteKeys" by (simp add: terminalPaletteKeys_def)
  show "settings_ok E (normalizeCursorAccent s)" using assms(1) by (auto simp: normalizeCursorAccent_def settings_ok_def)
  show "palette_ok (customTerminalPalette (normalizeCursorAccent s))"
    using b palette_set_ok [OF assms(2) b key] midnight_ok by (simp add: normalizeCursorAccent_def)
  have "jm_set (jm_set p a c) a c = jm_set p a c" for p :: "(string \<times> string) list" and a c by (induction p) auto
  then show "normalizeCursorAccent (normalizeCursorAccent s) = normalizeCursorAccent s"
    using b by (simp add: normalizeCursorAccent_def)
qed

lemma settings_not_legacy: "normalizeLegacyPalette E (settings_json s) = settings_json s"
  by (simp add: normalizeLegacyPalette_def isLegacyWorkspaceSettingsMissingCustomTerminalPalette_def
      legacyWorkspaceSettingsMissingCustomTerminalPaletteSchema_def settings_json_def strict_fields_def core_keys_def text_of_inject)

lemma parse_settings_ok:
  assumes "nfc_stable (se_text E)" and "parseWorkspaceSettings E v c = Some s"
  shows "settings_ok E s" "palette_ok (customTerminalPalette s)" "normalizeCursorAccent s = s"
proof -
  obtain t where "workspaceSettingsSchema E (normalizeLegacyPalette E v) = Some t" "s = normalizeCursorAccent t"
    using assms(2) by (auto simp: parseWorkspaceSettings_def bind_eq_Some_conv Let_def split: option.splits if_splits)
  then show "settings_ok E s" "palette_ok (customTerminalPalette s)" "normalizeCursorAccent s = s"
    using normalize_ok [of E t] schema_ok [OF assms(1)] by auto
qed

text \<open>Settings that were accepted are accepted again, unchanged, legacy documents and stray cursor colours included.\<close>

lemma parse_again:
  assumes "nfc_stable (se_text E)" and "parseWorkspaceSettings E v c = Some s"
  shows "parseWorkspaceSettings E (settings_json s) c = Some s"
proof -
  note ok = parse_settings_ok [OF assms]
  show ?thesis
    using assms(2) ok(3) schema_accepts [OF ok(1,2)]
    by (auto simp: parseWorkspaceSettings_def settings_not_legacy bind_eq_Some_conv Let_def split: option.splits if_splits)
qed

end
