(* ===== verification/SettingsStore.thy ===== *)
theory SettingsStore
  imports Settings JsonRegister DocumentCodec
begin

text \<open>
  The settings store (\<open>settings-store.ts\<close>): the settings in memory, their private file, whether the last write is known
  to be durable, and the listeners. Bodies run one at a time in the store's queue; parsing a candidate, which happens
  when \<open>replace\<close> is called, depends on nothing that changes. A call of a listener is recorded with its argument; what a
  listener throws or returns is contained by the code. Freezing of the results is not represented: settings are values.
\<close>

section \<open>State\<close>

datatype SettingsStoreError = SettingsStoreError

record 'w SettingsStore =
  ss_current :: "WorkspaceSettings option"
  ss_ready :: bool
  ss_initializeAttempted :: bool
  ss_listeners :: "nat list"
  ss_registrations :: nat
  ss_files :: 'w
  ss_delivered :: "(nat \<times> WorkspaceSettings) list"
  ss_durabilityEvents :: nat

record 'w settings_store_env =
  st_settings :: settings_env
  st_defaults :: json
  st_constraints :: WorkspaceSettingsConstraints
  st_read :: "('w, SecureJsonFileError, json option) em"
  st_replace :: "json \<Rightarrow> ('w, SecureJsonFileError, ReplaceResult) em"
  st_syncParent :: "('w, SecureJsonFileError, bool) em"

type_synonym ('w, 'a) settings_op = "('w SettingsStore, SettingsStoreError, 'a) em"

definition MAX_LISTENERS :: nat where "MAX_LISTENERS = 64"

definition new_settings :: "'w \<Rightarrow> 'w SettingsStore" where
  "new_settings w = \<lparr>ss_current = None, ss_ready = False, ss_initializeAttempted = False, ss_listeners = [], ss_registrations = 0,
     ss_files = w, ss_delivered = [], ss_durabilityEvents = 0\<rparr>"

section \<open>Operations\<close>

definition settings_file :: "('w, SecureJsonFileError, 'a) em \<Rightarrow> ('w, 'a) settings_op" where
  "settings_file m = (\<lambda>s. case m (ss_files s) of
     (Inl _, w) \<Rightarrow> (Inl SettingsStoreError, s\<lparr>ss_files := w\<rparr>)
   | (Inr a, w) \<Rightarrow> (Inr a, s\<lparr>ss_files := w\<rparr>))"

definition accepted :: "'a option \<Rightarrow> ('w, 'a) settings_op" where
  "accepted v = (case v of None \<Rightarrow> throw SettingsStoreError | Some a \<Rightarrow> ret a)"

definition parse_settings :: "'w settings_store_env \<Rightarrow> json \<Rightarrow> WorkspaceSettings option" where
  "parse_settings E v = parseWorkspaceSettings (st_settings E) v (Some (st_constraints E))"

definition emitDurabilityEvent :: "('w, unit) settings_op" where
  "emitDurabilityEvent = modify (\<lambda>s. s\<lparr>ss_durabilityEvents := Suc (ss_durabilityEvents s)\<rparr>)"

definition settings_notify :: "WorkspaceSettings \<Rightarrow> ('w, unit) settings_op" where
  "settings_notify settings = modify (\<lambda>s. s\<lparr>ss_delivered := ss_delivered s @ map (\<lambda>l. (l, settings)) (ss_listeners s)\<rparr>)"

definition adopt :: "WorkspaceSettings \<Rightarrow> ReplaceResult \<Rightarrow> ('w, unit) settings_op" where
  "adopt settings result =
     bind (modify (\<lambda>s. s\<lparr>ss_current := Some settings, ss_ready := (result = Committed)\<rparr>)) (\<lambda>_.
     if result = Committed then ret () else emitDurabilityEvent)"

definition write_first :: "'w settings_store_env \<Rightarrow> WorkspaceSettings \<Rightarrow> ('w, unit) settings_op" where
  "write_first E settings =
     bind (settings_file (st_replace E (settings_json settings))) (\<lambda>result.
     if result = NotCommitted then throw SettingsStoreError else adopt settings result)"

definition settings_initialize :: "'w settings_store_env \<Rightarrow> ('w, unit) settings_op" where
  "settings_initialize E =
     bind (gets ss_initializeAttempted) (\<lambda>again.
     if again then throw SettingsStoreError
     else
       bind (modify (\<lambda>s. s\<lparr>ss_initializeAttempted := True\<rparr>)) (\<lambda>_.
       bind (settings_file (st_read E)) (\<lambda>persisted.
         case persisted of
           Some v \<Rightarrow>
             bind (accepted (parse_settings E v)) (\<lambda>settings.
             if isLegacyWorkspaceSettingsMissingCustomTerminalPalette (st_settings E) v then write_first E settings
             else modify (\<lambda>s. s\<lparr>ss_current := Some settings, ss_ready := True\<rparr>))
         | None \<Rightarrow> bind (accepted (parse_settings E (st_defaults E))) (write_first E))))"

definition requireCurrent :: "('w, WorkspaceSettings) settings_op" where
  "requireCurrent = bind (gets ss_current) accepted"

definition settings_snapshot :: "('w, WorkspaceSettings) settings_op" where
  "settings_snapshot = requireCurrent"

definition settings_replace :: "'w settings_store_env \<Rightarrow> json \<Rightarrow> ('w, ReplaceResult) settings_op" where
  "settings_replace E candidate =
     bind requireCurrent (\<lambda>_.
     bind (accepted (parse_settings E candidate)) (\<lambda>nxt.
     bind (settings_file (st_replace E (settings_json nxt))) (\<lambda>result.
     if result = NotCommitted then ret result
     else bind (adopt nxt result) (\<lambda>_. bind (settings_notify nxt) (\<lambda>_. ret result)))))"

definition durabilityReady :: "('w, bool) settings_op" where
  "durabilityReady = bind requireCurrent (\<lambda>_. gets ss_ready)"

definition retryDurability :: "'w settings_store_env \<Rightarrow> ('w, bool) settings_op" where
  "retryDurability E =
     bind requireCurrent (\<lambda>_.
     bind (gets ss_ready) (\<lambda>ready.
     if ready then ret True
     else
       bind (attempt (settings_file (st_syncParent E))) (\<lambda>r.
       let synced = (r = Inr True) in
       bind (if synced then modify (\<lambda>s. s\<lparr>ss_ready := True\<rparr>) else ret ()) (\<lambda>_. ret synced))))"

definition settings_subscribe :: "('w, nat) settings_op" where
  "settings_subscribe =
     bind (gets (\<lambda>s. length (ss_listeners s))) (\<lambda>n.
     if MAX_LISTENERS \<le> n then throw SettingsStoreError
     else (\<lambda>s. (Inr (ss_registrations s), s\<lparr>ss_listeners := ss_listeners s @ [ss_registrations s], ss_registrations := Suc (ss_registrations s)\<rparr>)))"

definition settings_unsubscribe :: "nat \<Rightarrow> ('w, unit) settings_op" where
  "settings_unsubscribe registration = modify (\<lambda>s. s\<lparr>ss_listeners := removeAll registration (ss_listeners s)\<rparr>)"

section \<open>Calls\<close>

datatype settings_call = SInitialize | SReplace json | SRetry | SSubscribe | SUnsubscribe nat

definition settings_step :: "'w settings_store_env \<Rightarrow> settings_call \<Rightarrow> 'w SettingsStore \<Rightarrow> 'w SettingsStore" where
  "settings_step E c s =
     (case c of
        SInitialize \<Rightarrow> snd (settings_initialize E s)
      | SReplace v \<Rightarrow> snd (settings_replace E v s)
      | SRetry \<Rightarrow> snd (retryDurability E s)
      | SSubscribe \<Rightarrow> snd (settings_subscribe s)
      | SUnsubscribe r \<Rightarrow> snd (settings_unsubscribe r s))"

definition run_settings :: "'w settings_store_env \<Rightarrow> settings_call list \<Rightarrow> 'w SettingsStore \<Rightarrow> 'w SettingsStore" where
  "run_settings E cs s = fold (settings_step E) cs s"

text \<open>Candidates are JavaScript values: \<open>proper\<close> says so of their numbers.\<close>

definition proper_call :: "(json \<Rightarrow> bool) \<Rightarrow> settings_call \<Rightarrow> bool" where
  "proper_call proper c = (case c of SReplace v \<Rightarrow> proper v | _ \<Rightarrow> True)"

section \<open>Memory and file\<close>

definition file_settled :: "'w settings_store_env \<Rightarrow> ('w \<Rightarrow> json option option) \<Rightarrow> 'w SettingsStore \<Rightarrow> bool" where
  "file_settled E held s \<longleftrightarrow>
     (case ss_current s of
        None \<Rightarrow> True
      | Some st \<Rightarrow>
          (\<exists>v. held (ss_files s) = Some (Some v) \<and> parse_settings E v = Some st \<and>
             \<not> isLegacyWorkspaceSettingsMissingCustomTerminalPalette (st_settings E) v))"

lemma file_settled_other [simp]:
  "file_settled E held (s\<lparr>ss_ready := b\<rparr>) = file_settled E held s" "file_settled E held (s\<lparr>ss_initializeAttempted := b\<rparr>) = file_settled E held s"
  "file_settled E held (s\<lparr>ss_listeners := ls\<rparr>) = file_settled E held s" "file_settled E held (s\<lparr>ss_registrations := n\<rparr>) = file_settled E held s"
  "file_settled E held (s\<lparr>ss_delivered := ds\<rparr>) = file_settled E held s" "file_settled E held (s\<lparr>ss_durabilityEvents := n\<rparr>) = file_settled E held s"
  by (simp_all add: file_settled_def split: option.split)

lemma written_not_legacy: "\<not> isLegacyWorkspaceSettingsMissingCustomTerminalPalette E (settings_json s)"
  by (simp add: isLegacyWorkspaceSettingsMissingCustomTerminalPalette_def
      legacyWorkspaceSettingsMissingCustomTerminalPaletteSchema_def settings_json_def strict_fields_def core_keys_def text_of_inject)

lemma accepted_triple: "triple P (accepted v) (\<lambda>a s. P s \<and> v = Some a) (\<lambda>_. P)"
  by (simp add: triple_def accepted_def em_simps split: option.split)

locale settings_register = json_register "st_read E" "st_replace E" held ok fit
  for E :: "'w settings_store_env" and held ok fit +
  fixes proper :: "json \<Rightarrow> bool"
  assumes sync_keeps: "ok w \<Longrightarrow> st_syncParent E w = (b, w') \<Longrightarrow> ok w' \<and> held w' = held w"
    and held_proper: "ok w \<Longrightarrow> held w = Some (Some v) \<Longrightarrow> proper v"
    and defaults_proper: "ok w \<Longrightarrow> proper (st_defaults E)"
    and fit_settings: "ok w \<Longrightarrow> proper v \<Longrightarrow> parse_settings E v = Some st \<Longrightarrow> fit (settings_json st)"
    and reparse: "ok w \<Longrightarrow> parse_settings E v = Some st \<Longrightarrow> parse_settings E (settings_json st) = Some st"
begin

abbreviation sound :: "'w SettingsStore \<Rightarrow> bool" where
  "sound s \<equiv> ok (ss_files s) \<and> file_settled E held s"

lemma store_settings:
  assumes "proper v" and "parse_settings E v = Some st"
  shows "triple sound (settings_file (st_replace E (settings_json st)))
    (\<lambda>k s. if k = NotCommitted then sound s else sound (s\<lparr>ss_current := Some st\<rparr>)) (\<lambda>_. sound)"
proof (rule tripleI)
  fix s k t
  assume s: "sound s" and run: "settings_file (st_replace E (settings_json st)) s = (k, t)"
  obtain z w where z: "st_replace E (settings_json st) (ss_files s) = (z, w)" by fastforce
  have ok: "ok w" using wr_keeps [OF _ z] s by blast
  show "case k of Inl e \<Rightarrow> sound t | Inr k \<Rightarrow> if k = NotCommitted then sound t else sound (t\<lparr>ss_current := Some st\<rparr>)"
  proof (cases z)
    case (Inl e)
    then have "held w = held (ss_files s)" using wr_fails [of "ss_files s" "settings_json st" e w] z s by simp
    then show ?thesis using Inl z run s ok by (auto simp: settings_file_def file_settled_def split: option.splits)
  next
    case (Inr k')
    have "held w = held (ss_files s)" if "k' = NotCommitted" using wr_refuses [of "ss_files s" "settings_json st" w] Inr z s that by simp
    moreover have "held w = Some (Some (settings_json st))" if "k' \<noteq> NotCommitted"
      using wr_commits [of "ss_files s" "settings_json st" k' w] Inr z s that fit_settings [OF ok assms] by simp
    moreover have "parse_settings E (settings_json st) = Some st" using reparse [OF _ assms(2)] s by blast
    ultimately show ?thesis using Inr z run s ok
      by (auto simp: settings_file_def file_settled_def written_not_legacy split: option.splits)
  qed
qed

lemma adopt_sound: "triple (\<lambda>s. sound (s\<lparr>ss_current := Some st\<rparr>)) (adopt st k) (\<lambda>_. sound) E'"
  by (auto simp: triple_def adopt_def emitDurabilityEvent_def em_simps file_settled_def)

lemma write_first_sound:
  assumes "proper v" and "parse_settings E v = Some st"
  shows "triple sound (write_first E st) (\<lambda>_. sound) (\<lambda>_. sound)"
  unfolding write_first_def
proof (rule triple_bind [OF store_settings [OF assms]], cases)
  fix k
  assume "k = NotCommitted"
  then show "triple (\<lambda>s. if k = NotCommitted then sound s else sound (s\<lparr>ss_current := Some st\<rparr>))
      (if k = NotCommitted then throw SettingsStoreError else adopt st k) (\<lambda>_. sound) (\<lambda>_. sound)" by (simp add: triple_throw)
next
  fix k
  assume "k \<noteq> NotCommitted"
  then show "triple (\<lambda>s. if k = NotCommitted then sound s else sound (s\<lparr>ss_current := Some st\<rparr>))
      (if k = NotCommitted then throw SettingsStoreError else adopt st k) (\<lambda>_. sound) (\<lambda>_. sound)" using adopt_sound [of st k] by simp
qed

lemma initialize_sound: "triple sound (settings_initialize E) (\<lambda>_. sound) (\<lambda>_. sound)"
  unfolding settings_initialize_def
proof (rule triple_bind [OF triple_gets [where Q = "\<lambda>_. sound"]], assumption, rule triple_if, rule triple_throw, assumption,
    rule triple_bind [OF triple_modify [where Q = "\<lambda>_. sound"]], simp)
  let ?R = "\<lambda>u s. sound s \<and> held (ss_files s) = Some u"
  have "triple sound (settings_file (st_read E)) ?R (\<lambda>_. sound)"
  proof (rule tripleI)
    fix s z t
    assume s: "sound s" and run: "settings_file (st_read E) s = (z, t)"
    obtain y w where y: "st_read E (ss_files s) = (y, w)" by fastforce
    have "ok w" "held w = held (ss_files s)" "\<And>u. y = Inr u \<Longrightarrow> held w = Some u"
      using rd_keeps [OF _ y] rd_answers [of "ss_files s" _ w] s y by auto
    then show "case z of Inl e \<Rightarrow> sound t | Inr u \<Rightarrow> ?R u t"
      using s run y by (cases y) (auto simp: settings_file_def file_settled_def split: option.splits)
  qed
  then show "triple sound (bind (settings_file (st_read E)) (\<lambda>persisted. case persisted of
      None \<Rightarrow> bind (accepted (parse_settings E (st_defaults E))) (write_first E)
    | Some v \<Rightarrow> bind (accepted (parse_settings E v)) (\<lambda>settings.
        if isLegacyWorkspaceSettingsMissingCustomTerminalPalette (st_settings E) v then write_first E settings
        else modify (\<lambda>s. s\<lparr>ss_current := Some settings, ss_ready := True\<rparr>)))) (\<lambda>_. sound) (\<lambda>_. sound)"
  proof (rule triple_bind, goal_cases)
    case (1 u)
    show ?case
    proof (rule triple_pre [where b = "\<exists>w. ok w \<and> held w = Some u"], blast)
      assume "\<exists>w. ok w \<and> held w = Some u"
      then obtain w where w: "ok w" "held w = Some u" by blast
      have keep: "triple (?R u) (accepted p) (\<lambda>st s. ?R u s \<and> p = Some st) (\<lambda>_. sound)" for p :: "WorkspaceSettings option"
        by (rule triple_weaken [OF accepted_triple [where P = "?R u"]]) auto
      have first: "triple (?R u) (write_first E st) (\<lambda>_. sound) (\<lambda>_. sound)" if "proper v" "parse_settings E v = Some st" for v st
        by (rule triple_weaken [OF write_first_sound [OF that]]) auto
      show ?thesis
      proof (cases u)
        case None
        then show ?thesis
          using triple_bind [OF keep triple_assume [OF first [OF defaults_proper [OF w(1)]]]] by simp
      next
        case (Some v)
        have "triple (\<lambda>s. ?R u s \<and> parse_settings E v = Some st)
            (if isLegacyWorkspaceSettingsMissingCustomTerminalPalette (st_settings E) v then write_first E st
             else modify (\<lambda>s. s\<lparr>ss_current := Some st, ss_ready := True\<rparr>)) (\<lambda>_. sound) (\<lambda>_. sound)" for st
          by (rule triple_assume, rule triple_if, rule first [OF held_proper [OF w(1)]])
            (use w(2) Some in \<open>auto intro!: triple_modify simp: file_settled_def\<close>)
        from triple_bind [OF keep this] Some show ?thesis by simp
      qed
    qed
  qed
qed

lemma require_sound: "triple sound requireCurrent (\<lambda>_. sound) (\<lambda>_. sound)"
  by (auto simp: triple_def requireCurrent_def accepted_def em_simps split: option.split)

lemma replace_sound:
  assumes "proper v"
  shows "triple sound (settings_replace E v) (\<lambda>_. sound) (\<lambda>_. sound)"
  unfolding settings_replace_def
proof (rule triple_bind [OF require_sound], rule triple_bind [OF accepted_triple], rule triple_assume)
  fix st
  assume "parse_settings E v = Some st"
  then have store: "triple sound (settings_file (st_replace E (settings_json st)))
      (\<lambda>k s. if k = NotCommitted then sound s else sound (s\<lparr>ss_current := Some st\<rparr>)) (\<lambda>_. sound)"
    by (rule store_settings [OF assms])
  have tell: "triple sound (bind (settings_notify st) (\<lambda>_. ret k)) (\<lambda>_. sound) (\<lambda>_. sound)" for k :: ReplaceResult
    by (auto simp: triple_def settings_notify_def em_simps)
  show "triple sound (bind (settings_file (st_replace E (settings_json st))) (\<lambda>result. if result = NotCommitted then ret result
      else bind (adopt st result) (\<lambda>_. bind (settings_notify st) (\<lambda>_. ret result)))) (\<lambda>_. sound) (\<lambda>_. sound)"
  proof (rule triple_bind [OF store], goal_cases)
    case (1 k)
    then show ?case
    proof (cases "k = NotCommitted")
      case False
      have "triple (\<lambda>s. sound (s\<lparr>ss_current := Some st\<rparr>)) (bind (adopt st k) (\<lambda>_. bind (settings_notify st) (\<lambda>_. ret k))) (\<lambda>_. sound) (\<lambda>_. sound)"
        by (rule triple_bind [OF adopt_sound tell])
      with False show ?thesis by simp
    qed (auto intro: triple_ret)
  qed
qed

lemma retry_sound: "triple sound (retryDurability E) (\<lambda>_. sound) (\<lambda>_. sound)"
proof (rule tripleI)
  fix s z t
  assume s: "sound s" and run: "retryDurability E s = (z, t)"
  obtain y w where y: "st_syncParent E (ss_files s) = (y, w)" by fastforce
  have w: "ok w" "held w = held (ss_files s)" using sync_keeps [OF _ y] s by auto
  have "t \<in> {s, s\<lparr>ss_files := w\<rparr>, s\<lparr>ss_files := w, ss_ready := True\<rparr>}"
    using run y by (cases y) (auto simp: retryDurability_def requireCurrent_def accepted_def settings_file_def em_simps Let_def split: option.splits if_splits)
  then have "sound t" using s w by (auto simp: file_settled_def split: option.splits)
  then show "case z of Inl e \<Rightarrow> sound t | Inr x \<Rightarrow> sound t" by (simp split: sum.split)
qed

lemma step_sound: "sound s \<Longrightarrow> proper_call proper c \<Longrightarrow> sound (settings_step E c s)"
  using triple_snd [OF initialize_sound, of s] triple_snd [OF retry_sound, of s] triple_snd [OF replace_sound, of _ s]
  by (cases c) (auto simp: settings_step_def proper_call_def settings_subscribe_def settings_unsubscribe_def em_simps)

lemma run_sound: "sound s \<Longrightarrow> list_all (proper_call proper) cs \<Longrightarrow> sound (run_settings E cs s)"
  unfolding run_settings_def by (induction cs arbitrary: s) (simp_all add: step_sound)

lemma new_sound: "ok w \<Longrightarrow> sound (new_settings w)"
  by (simp add: new_settings_def file_settled_def)

lemma reopened:
  assumes "sound s" and "ss_current s = Some st" and "st_read E (ss_files s) = (Inr u, w)"
  shows "settings_initialize E (new_settings (ss_files s)) =
    (Inr (), (new_settings w)\<lparr>ss_current := Some st, ss_ready := True, ss_initializeAttempted := True\<rparr>)"
  using assms rd_answers [of "ss_files s" u w]
  by (auto simp: settings_initialize_def settings_file_def accepted_def new_settings_def file_settled_def em_simps)

end

section \<open>On private files\<close>

text \<open>
  \<open>JSON.parse\<close> rounds the numbers of a text to doubles. An overflow gives an infinity, which is no number to any
  schema, as \<open>null\<close> is not.
\<close>

fun round_json :: "(real \<Rightarrow> jsnum) \<Rightarrow> json \<Rightarrow> json" where
  "round_json fl (JNum r) = (case fl r of Num x \<Rightarrow> JNum x | _ \<Rightarrow> JNull)"
| "round_json fl (JArr vs) = JArr (map (round_json fl) vs)"
| "round_json fl (JObj ms) = JObj (map (\<lambda>(k, v). (k, round_json fl v)) ms)"
| "round_json fl v = v"

fun doubles :: "(real \<Rightarrow> jsnum) \<Rightarrow> json \<Rightarrow> bool" where
  "doubles fl (JNum r) = (fl r = Num r)"
| "doubles fl (JArr vs) = list_all (doubles fl) vs"
| "doubles fl (JObj ms) = list_all (\<lambda>(k, v). doubles fl v) ms"
| "doubles fl v = True"

definition private_settings_env :: "SecureJsonFileService \<Rightarrow> string \<Rightarrow> disk settings_store_env \<Rightarrow> disk settings_store_env" where
  "private_settings_env F path E = E\<lparr>st_read := read_with (round_json (se_round (st_settings E))) F path,
     st_replace := replace_tree F path, st_syncParent := syncParent F path\<rparr>"

text \<open>
  Documented behaviour of the platform: rounding twice is rounding once; NFC keeps what a path may contain and gives
  text; and \<open>JSON.parse(JSON.stringify(v))\<close> gives back a tree whose numbers are doubles.
\<close>

definition json_exact :: "SecureJsonFileService \<Rightarrow> (real \<Rightarrow> jsnum) \<Rightarrow> bool" where
  "json_exact F fl \<longleftrightarrow>
     (\<forall>v. object_tree v \<longrightarrow> doubles fl v \<longrightarrow>
        map_option (round_json fl) (parsed (utf8_encode (stringify_with (number_format F) v))) = Some v)"

definition platform_ok :: "SecureJsonFileService \<Rightarrow> settings_env \<Rightarrow> bool" where
  "platform_ok F E \<longleftrightarrow>
     (\<forall>r x. se_round E r = Num x \<longrightarrow> se_round E x = Num x) \<and> nfc_stable (se_text E) \<and>
     (\<forall>s. list_all (safe_character (se_text E) False) s \<longrightarrow> printable_text (nfc_form (se_text E) s)) \<and> json_exact F (se_round E)"

lemma doubles_round: "(\<And>r x. fl r = Num x \<Longrightarrow> fl x = Num x) \<Longrightarrow> doubles fl (round_json fl v)"
proof (induction v)
  case (JObj ms)
  then show ?case by (fastforce simp: list_all_iff)
qed (auto simp: list_all_iff split: jsnum.split)

lemma doubles_field: "list_all (\<lambda>(k, v). doubles fl v) ms \<Longrightarrow> field k ms = Some v \<Longrightarrow> doubles fl v"
  by (auto simp: field_def list_all_iff dest: map_of_SomeD)

lemma integer_value_field: "integer_value lo hi v = Some r \<Longrightarrow> v = Some (JNum r)"
  by (auto simp: integer_value_def split: option.splits json.splits if_splits)

lemma steppedNumber_field: "steppedNumber fl lo hi st v = Some r \<Longrightarrow> v = Some (JNum r)"
  by (auto simp: steppedNumber_def split: option.splits json.splits if_splits)

definition numbers_ok :: "(real \<Rightarrow> jsnum) \<Rightarrow> WorkspaceSettings \<Rightarrow> bool" where
  "numbers_ok fl s \<longleftrightarrow>
     list_all (\<lambda>r. fl r = Num r) [1, fontSize s, lineHeight s, letterSpacing s, scrollback s, tmuxHistoryLimit s, staleSessionCleanupHours s]"

lemma core_numbers:
  assumes "core_settings E fonts themes ms = Some s" and "list_all (\<lambda>(k, v). doubles fl v) ms"
  shows "numbers_ok fl s"
proof -
  note f = doubles_field [OF assms(2)]
  show ?thesis using assms(1)
    by (auto simp: core_settings_def numbers_ok_def bind_eq_Some_conv split: if_splits
        dest!: integer_value_field steppedNumber_field dest: f)
qed

lemma palette_doubles: "doubles fl (palette_json p)"
  by (auto simp: palette_json_def list_all_iff)

lemma legacy_doubles: "doubles fl v \<Longrightarrow> doubles fl (normalizeLegacyPalette E v)"
proof (cases v)
  case (JObj ms)
  have "set (jm_set xs k x) \<subseteq> insert (k, x) (set xs)" for xs :: "(utext \<times> json) list" and k x by (induction xs) auto
  then show "doubles fl v \<Longrightarrow> ?thesis" using JObj palette_doubles [of fl] by (fastforce simp: normalizeLegacyPalette_def list_all_iff)
qed (auto simp: normalizeLegacyPalette_def)

lemma parse_numbers:
  assumes "parse_settings E v = Some s" and "doubles fl v"
  shows "numbers_ok fl s"
proof -
  obtain t where t: "workspaceSettingsSchema (st_settings E) (normalizeLegacyPalette (st_settings E) v) = Some t" "s = normalizeCursorAccent t"
    using assms(1) by (auto simp: parse_settings_def parseWorkspaceSettings_def bind_eq_Some_conv Let_def split: if_splits)
  obtain ms r p where ms: "normalizeLegacyPalette (st_settings E) v = JObj ms" "core_settings (st_settings E) fontFamilySchema themeSchema ms = Some r"
    "t = r\<lparr>customTerminalPalette := p\<rparr>"
    using t(1) by (auto simp: workspaceSettingsSchema_def bind_eq_Some_conv split: json.splits if_splits)
  have "list_all (\<lambda>(k, v). doubles fl v) ms" using legacy_doubles [OF assms(2), of "st_settings E"] ms(1) by simp
  from core_numbers [OF ms(2) this] t(2) ms(3) show ?thesis by (simp add: numbers_ok_def normalizeCursorAccent_def)
qed

lemma palette_tree: "palette_ok p \<Longrightarrow> object_tree (palette_json p)"
proof -
  assume p: "palette_ok p"
  have "distinct (map text_of (map fst p))"
    using p palette_keys_distinct by (simp add: palette_ok_def distinct_map inj_on_def text_of_inject del: map_map)
  then show ?thesis by (auto simp: palette_json_def list_all_iff text_of_printable comp_def case_prod_unfold)
qed

lemma settings_fit:
  assumes "platform_ok F (st_settings E)" and "doubles (se_round (st_settings E)) v" and "parse_settings E v = Some s"
  shows "fits_with (round_json (se_round (st_settings E))) F (settings_json s)"
proof -
  have n: "nfc_stable (se_text (st_settings E))" using assms(1) by (simp add: platform_ok_def)
  note ok = parse_settings_ok [OF n assms(3) [unfolded parse_settings_def]]
  have "printable_text (defaultShell s)"
    using ok(1) assms(1) by (auto simp: settings_ok_def platform_ok_def shell_text_def safeNormalizedString_def Let_def split: option.splits if_splits)
  then have "object_tree (settings_json s)"
    using palette_tree [OF ok(2)] by (simp add: settings_json_def text_of_printable text_of_inject)
  moreover have "doubles (se_round (st_settings E)) (settings_json s)"
    using parse_numbers [OF assms(3,2)] palette_doubles by (simp add: settings_json_def numbers_ok_def)
  ultimately show ?thesis using assms(1) by (simp add: fits_with_def platform_ok_def json_exact_def)
qed

definition settings_disk_ok :: "SecureJsonFileService \<Rightarrow> string \<Rightarrow> disk settings_store_env \<Rightarrow> disk \<Rightarrow> bool" where
  "settings_disk_ok F path E d \<longleftrightarrow>
     ok_at F path d \<and> platform_ok F (st_settings E) \<and> doubles (se_round (st_settings E)) (st_defaults E)"

lemma sync_keeps_file:
  assumes "disk_ok d" and "syncParent F path d = (r, d')"
  shows "disk_ok d' \<and> nodes d' = nodes d"
  using tripleD_Inr [OF syncParent_at disk_at_self [OF assms(1)]] tripleD_Inl [OF syncParent_at disk_at_self [OF assms(1)]] assms(2)
  by (cases r) (auto simp: disk_at_def disk_ok_def)

interpretation private_settings:
  settings_register "private_settings_env F path E" "held_with (round_json (se_round (st_settings E))) path" "settings_disk_ok F path E"
    "fits_with (round_json (se_round (st_settings E))) F" "doubles (se_round (st_settings E))" for F path E
proof (unfold_locales, goal_cases)
  case (7 w b w')
  then show ?case using sync_keeps_file [of w F path b w']
    by (auto simp: private_settings_env_def settings_disk_ok_def ok_at_def held_with_def file_bytes_def)
next
  case (8 w v)
  then have "\<exists>x. v = round_json (se_round (st_settings E)) x" by (auto simp: held_with_def split: option.splits)
  with 8 doubles_round [of "se_round (st_settings E)"] show ?case by (auto simp: settings_disk_ok_def platform_ok_def)
next
  case (9 w)
  then show ?case by (simp add: private_settings_env_def settings_disk_ok_def)
next
  case (10 w v st)
  then show ?case using settings_fit [of F E v st] by (simp add: settings_disk_ok_def private_settings_env_def parse_settings_def)
next
  case (11 w v st)
  then show ?case using parse_again [of "st_settings E" v "Some (st_constraints E)" st]
    by (simp add: settings_disk_ok_def platform_ok_def private_settings_env_def parse_settings_def)
qed (auto simp: private_settings_env_def settings_disk_ok_def dest: parsed_register.rd_keeps parsed_register.rd_answers
      parsed_register.wr_keeps parsed_register.wr_fails parsed_register.wr_refuses parsed_register.wr_commits)

lemma settings_run_sound:
  assumes "settings_disk_ok F path E d" and "list_all (proper_call (doubles (se_round (st_settings E)))) cs"
    and "run_settings (private_settings_env F path E) cs (new_settings d) = s"
  shows "settings_disk_ok F path E (ss_files s) \<and> file_settled (private_settings_env F path E) (held_with (round_json (se_round (st_settings E))) path) s"
  unfolding assms(3) [symmetric]
  by (rule private_settings.run_sound, rule private_settings.new_sound) (use assms in auto)

text \<open>
  C33. The settings survive a restart: after any calls, a store opened on the file of a running one, with the file
  readable, starts with the settings the old store had in memory, without writing the file again. This includes
  settings that were migrated from a document without a palette.
\<close>

theorem settings_survive_restart:
  assumes "settings_disk_ok F path E d" and "list_all (proper_call (doubles (se_round (st_settings E)))) cs"
    and "run_settings (private_settings_env F path E) cs (new_settings d) = s" and "ss_current s = Some st"
    and "fst (read_tree F path (ss_files s)) \<noteq> Inl SecureJsonFileError"
  shows "\<exists>s'. settings_initialize (private_settings_env F path E) (new_settings (ss_files s)) = (Inr (), s') \<and>
    ss_current s' = Some st \<and> nodes (ss_files s') = nodes (ss_files s)"
proof -
  note sound = settings_run_sound [OF assms(1-3)]
  obtain u w where "read_with (round_json (se_round (st_settings E))) F path (ss_files s) = (Inr u, w)"
    using assms(5) by (cases "read_tree F path (ss_files s)"; cases "fst (read_tree F path (ss_files s))")
      (auto simp: read_with_def em_simps intro: SecureJsonFileError.exhaust)
  then have r: "st_read (private_settings_env F path E) (ss_files s) = (Inr u, w)"
    and "nodes w = nodes (ss_files s)"
    using read_with_at [of "ss_files s" _ F path "Inr u" w] sound by (auto simp: private_settings_env_def settings_disk_ok_def ok_at_def)
  with private_settings.reopened [OF sound assms(4) r] show ?thesis by (simp add: new_settings_def)
qed

section \<open>Witnesses\<close>

definition example_settings :: WorkspaceSettings where
  "example_settings = \<lparr>fontFamily = ''courier'', fontSize = 14, lineHeight = 1, letterSpacing = 0, scrollback = 1000, theme = ''dark'',
     cursorStyle = ''bar'', cursorBlink = True, bellBehavior = ''none'', reconnectBehavior = ''manual'', automaticTabCreation = True,
     workspaceShortcuts = ''default'', defaultShell = text_of ''/bin/sh'', tmuxHistoryLimit = 2000, staleSessionCleanupHours = 0,
     customTerminalPalette = MIDNIGHT_ELECTRIC_TERMINAL_PALETTE\<rparr>"

definition whole_limit :: "real \<Rightarrow> real \<Rightarrow> real \<Rightarrow> NumericSettingLimit" where
  "whole_limit lo hi st = \<lparr>limit_min = lo, limit_max = hi, limit_step = st\<rparr>"

definition example_constraints :: WorkspaceSettingsConstraints where
  "example_constraints = \<lparr>limits = \<lparr>l_fontFamilies = fontFamilySchema, l_fontSize = whole_limit 8 32 1,
     l_lineHeight = whole_limit 1 1 five_hundredths, l_letterSpacing = whole_limit 0 4 1, l_scrollback = whole_limit 0 100000 1,
     l_themes = themeSchema, l_cursorStyles = cursorStyleSchema, l_bellBehaviors = bellBehaviorSchema,
     l_reconnectBehaviors = reconnectBehaviorSchema, l_workspaceShortcutModes = workspaceShortcutModeSchema,
     l_tmuxHistoryLimit = whole_limit 0 1000000 1, l_staleSessionCleanupHours = whole_limit 0 8760 1\<rparr>,
     allowedShells = [text_of ''/bin/sh'']\<rparr>"

text \<open>A platform whose only doubles are the integers.\<close>

definition whole_round :: "real \<Rightarrow> jsnum" where
  "whole_round r = Num (of_int \<lfloor>r\<rfloor>)"

definition example_texts_env :: text_env where
  "example_texts_env = \<lparr>format_control = (\<lambda>_. False), nfc_form = filter scalar, utc_timestamp = (\<lambda>_. True)\<rparr>"

definition settings_example :: "disk settings_store_env" where
  "settings_example = \<lparr>st_settings = \<lparr>se_text = example_texts_env, se_round = whole_round\<rparr>, st_defaults = settings_json example_settings,
     st_constraints = example_constraints, st_read = read_with (round_json whole_round) example_service ''/d/f'',
     st_replace = replace_tree example_service ''/d/f'', st_syncParent = syncParent example_service ''/d/f''\<rparr>"

lemma whole_printable: "object_tree v \<Longrightarrow> doubles whole_round v \<Longrightarrow> printable v \<and> round_json whole_round v = v"
proof (induction v)
  case (JObj ms)
  have "printable x \<and> round_json whole_round x = x" if "(k, x) \<in> set ms" for k x
    using JObj that by (fastforce simp: list_all_iff)
  moreover from this have "map (\<lambda>(k, v). (k, round_json whole_round v)) ms = ms" by (intro map_idI) auto
  ultimately show ?case using JObj.prems by (auto simp: list_all_iff)
qed (auto simp: whole_round_def)

lemma floor_stringify: "stringify_with floor_text v = stringify v"
proof (induction v)
  case (JObj ms)
  then have "map (\<lambda>(k, v). quote_text k @ 58 # stringify_with floor_text v) ms = map (\<lambda>(k, v). quote_text k @ 58 # stringify v) ms"
    by (intro map_cong) fastforce+
  then show ?case by (simp only: stringify_with.simps stringify.simps)
next
  case (JArr vs)
  then have "map (stringify_with floor_text) vs = map stringify vs" by (intro map_cong) auto
  then show ?case by (simp only: stringify_with.simps stringify.simps)
qed (simp_all add: floor_text_def)

lemma example_platform: "platform_ok example_service (st_settings settings_example)"
proof -
  have "json_exact example_service whole_round"
    using whole_printable stringify_parsed by (auto simp: json_exact_def example_service_def floor_stringify)
  moreover have "nfc_stable example_texts_env"
    by (auto simp: nfc_stable_def example_texts_env_def list_all_iff)
  moreover have "printable_text (filter scalar s)" for s
    by (auto simp: printable_text_def list_all_iff scalar_def intro!: pair_up_plain)
  ultimately show ?thesis
    by (auto simp: platform_ok_def settings_example_def whole_round_def example_texts_env_def)
qed

lemma example_shell: "shell_text example_texts_env (text_of ''/bin/sh'') = Some (text_of ''/bin/sh'')"
  by (simp add: shell_text_def safeNormalizedString_def example_texts_env_def text_of_def safe_character_def forbiddenCharacter_def
      scalar_def surrogate_def utf8ByteLength_def)

lemma whole_aligned: "isStepAligned whole_round (of_int a) (of_int b) 1"
  by (simp add: isStepAligned_def whole_round_def tolerance_def flip: of_int_diff)

lemma example_settings_parse:
  "parse_settings settings_example (settings_json example_settings) = Some example_settings"
proof -
  let ?S = "st_settings settings_example"
  have S: "se_text ?S = example_texts_env" "se_round ?S = whole_round" by (simp_all add: settings_example_def)
  have al: "isStepAligned whole_round r 0 1" if "r \<in> {0, 1, 4, 1000, 2000, 8760, 100000, 1000000}" for r
    using whole_aligned [of "\<lfloor>r\<rfloor>" 0] that by auto
  have al8: "isStepAligned whole_round r 8 1" if "r \<in> {8, 14, 32}" for r
    using whole_aligned [of "\<lfloor>r\<rfloor>" 8] that by auto
  have line: "isStepAligned whole_round 1 1 five_hundredths" "isStepAligned whole_round five_hundredths 0 five_hundredths"
    by (simp_all add: isStepAligned_def whole_round_def tolerance_def five_hundredths_def)
  have ok: "settings_ok ?S example_settings"
    unfolding settings_ok_def S
    using example_shell line
    by (simp add: example_settings_def fontFamilySchema_def themeSchema_def cursorStyleSchema_def bellBehaviorSchema_def
        reconnectBehaviorSchema_def workspaceShortcutModeSchema_def integer_value_def steppedNumber_def safe_int_def MAX_SAFE_INTEGER_def)
  have pal: "palette_ok (customTerminalPalette example_settings)" using midnight_ok by (simp add: example_settings_def)
  have n: "normalizeCursorAccent example_settings = example_settings" by (simp add: normalizeCursorAccent_def example_settings_def)
  have lim: "workspaceSettingsLimitsSchema whole_round (limits example_constraints)"
    using al al8 line
    by (simp add: workspaceSettingsLimitsSchema_def example_constraints_def options_of_def uniqueOptions_def boundedLimit_def
        numericSettingLimitSchema_def whole_limit_def five_hundredths_def fontFamilySchema_def themeSchema_def cursorStyleSchema_def
        bellBehaviorSchema_def reconnectBehaviorSchema_def workspaceShortcutModeSchema_def)
  have c: "workspaceSettingsConstraintsSchema ?S example_constraints = Some example_constraints"
    using lim example_shell by (simp add: workspaceSettingsConstraintsSchema_def S) (simp add: example_constraints_def uniqueOptions_def)
  have w: "assertWithinDeployment whole_round example_settings example_constraints"
    using al al8 line
    by (simp add: assertWithinDeployment_def assertNumeric_def example_settings_def example_constraints_def whole_limit_def fontFamilySchema_def
        themeSchema_def cursorStyleSchema_def bellBehaviorSchema_def reconnectBehaviorSchema_def workspaceShortcutModeSchema_def)
  show ?thesis
    using schema_accepts [OF ok pal] n c w
    by (simp add: parse_settings_def parseWorkspaceSettings_def settings_not_legacy S) (simp add: settings_example_def)
qed

lemma text_bytes_bound: "text_bytes s \<le> 4 * length s"
proof (induction s)
  case (Cons c s)
  have "length (encode_point c) \<le> 4" by (simp add: encode_point_def Let_def)
  with Cons show ?case by (simp add: text_bytes_def utf8_encode_def)
qed simp

lemma quote_bound: "text_bytes (quote_text s) \<le> 24 * length s + 8"
proof -
  have "length (concat (map quote_unit s)) \<le> 6 * length s" by (induction s) (auto simp: quote_unit_def)
  then show ?thesis using text_bytes_bound [of "quote_text s"] by (simp add: quote_text_def)
qed

lemma object_bound:
  "text_bytes (comma_join (map (\<lambda>(k, v). quote_text k @ 58 # stringify v) ms)) \<le>
   sum_list (map (\<lambda>(k, v). text_bytes (quote_text k) + text_bytes (stringify v) + 2) ms)"
  by (induction ms rule: induct_list012) auto

lemma palette_bound: "text_bytes (stringify (palette_json MIDNIGHT_ELECTRIC_TERMINAL_PALETTE)) \<le> 20000"
proof -
  have "sum_list (map (\<lambda>(k, v). text_bytes (quote_text k) + text_bytes (stringify v) + 2) (map (\<lambda>(k, c). (text_of k, JStr (text_of c))) p))
      \<le> sum_list (map (\<lambda>(k, c). 24 * length k + 24 * length c + 18) p)" for p
  proof (induction p)
    case (Cons x p)
    then show ?case using quote_bound [of "text_of (fst x)"] quote_bound [of "text_of (snd x)"] by (simp add: case_prod_unfold text_of_def)
  qed simp
  from order_trans [OF object_bound this [of MIDNIGHT_ELECTRIC_TERMINAL_PALETTE]] show ?thesis
    by (simp add: palette_json_def MIDNIGHT_ELECTRIC_TERMINAL_PALETTE_def)
qed

lemma print_nat_bound: "n < 10 ^ k \<Longrightarrow> 0 < k \<Longrightarrow> length (print_nat n) \<le> k"
proof (induction n arbitrary: k rule: print_nat.induct)
  case (1 n)
  then show ?case
  proof (cases "n < 10")
    case False
    then obtain j where j: "k = Suc j" "0 < j" using 1(2,3) by (cases k; cases "k - 1") auto
    then have "n div 10 < 10 ^ j" using 1(2) by (simp add: less_mult_imp_div_less)
    with 1(1) [OF False this j(2)] False j(1) show ?thesis by (simp add: print_nat.simps [of n])
  qed (simp add: print_nat.simps [of n])
qed

definition item_bound :: "(utext \<times> json) list \<Rightarrow> nat" where
  "item_bound ms = sum_list (map (\<lambda>(k, v). 24 * length k + 10 + text_bytes (stringify v)) ms)"

lemma settings_bound: "text_bytes (stringify (JObj ms)) \<le> item_bound ms + 2"
proof -
  have "sum_list (map (\<lambda>(k, v). text_bytes (quote_text k) + text_bytes (stringify v) + 2) ms) \<le> item_bound ms"
    unfolding item_bound_def
  proof (induction ms)
    case (Cons x ms)
    then show ?case using quote_bound [of "fst x"] by (simp add: case_prod_unfold)
  qed simp
  from order_trans [OF object_bound this] show ?thesis by simp
qed

lemma example_bound: "text_bytes (stringify (settings_json example_settings)) \<le> 60000"
proof -
  have num: "text_bytes (print_int i) \<le> 4" if "0 \<le> i" "i < 10000" for i
    using that print_nat_bound [of "nat i" 4] text_bytes_ascii [of "print_nat (nat i)"] print_nat_ascii [of "nat i"] by (simp add: print_int_def)
  have len: "length (text_of x) = length x" for x by (simp add: text_of_def)
  show ?thesis
    unfolding settings_json_def
    by (rule order_trans [OF settings_bound])
      (use palette_bound num [of 1] num [of 14] num [of 0] num [of 1000] num [of 2000] text_bytes_bound [of "text_of ''true''"]
        quote_bound [of "text_of ''courier''"] quote_bound [of "text_of ''dark''"] quote_bound [of "text_of ''bar''"] quote_bound [of "text_of ''none''"]
        quote_bound [of "text_of ''manual''"] quote_bound [of "text_of ''default''"] quote_bound [of "text_of ''/bin/sh''"] in
        \<open>simp add: item_bound_def example_settings_def len\<close>)
qed

definition example_settings_disk :: disk where
  "example_settings_disk = \<lparr>nodes = [''/d'' \<mapsto> \<lparr>kind = DirectoryNode, uid = 1000, mode_bits = 0x41C0, content = []\<rparr>,
       ''/d/f'' \<mapsto> fresh_file example_service (utf8_encode (stringify (settings_json example_settings)))],
     descriptors = {}, next_descriptor = 3, outcomes = [], drawn = 0\<rparr>"

lemma example_defaults: "doubles whole_round (settings_json example_settings)" "object_tree (settings_json example_settings)"
  using palette_doubles palette_tree [OF midnight_ok]
  by (simp_all add: settings_json_def example_settings_def whole_round_def text_of_printable text_of_inject)

lemma example_settings_ok: "settings_disk_ok example_service ''/d/f'' settings_example example_settings_disk"
proof -
  have "ok_at example_service ''/d/f'' example_settings_disk"
    using floor_text_ascii example_path(3) by (simp add: ok_at_def disk_ok_def example_settings_disk_def example_service_def)
  then show ?thesis using example_platform example_defaults(1) by (simp add: settings_disk_ok_def settings_example_def)
qed

lemma example_settings_read:
  assumes "outcomes d = []" and "nodes d = nodes example_settings_disk"
  shows "\<exists>d'. read_tree example_service ''/d/f'' d = (Inr (Some (settings_json example_settings)), d') \<and> outcomes d' = []"
proof -
  let ?x = "fresh_file example_service (utf8_encode (stringify (settings_json example_settings)))"
  have n: "nodes d ''/d/f'' = Some ?x" "safe_file example_service ?x"
    using assms(2) fresh_file_safe [of example_service] by (simp_all add: example_settings_disk_def example_service_def)
  have p: "safe_parent example_service (nodes d) ''/d/f''"
    unfolding assms(2) by (simp add: safe_parent_def example_settings_disk_def example_path(1) example_service_def)
  have v: "parsed (content ?x) = Some (settings_json example_settings)"
    using stringify_parsed whole_printable example_defaults by (simp add: fresh_file_def)
  have l: "length (content ?x) \<le> MAX_SECURE_JSON_BYTES"
    using example_bound by (simp add: fresh_file_def text_bytes_def MAX_SECURE_JSON_BYTES_def)
  from secure_read_quiet [OF assms(1) p n v l _ _ example_path(4)] show ?thesis by (simp add: read_tree_def MAX_SECURE_JSON_BYTES_def)
qed

lemma settings_private: "private_settings_env example_service ''/d/f'' settings_example = settings_example"
  by (simp add: private_settings_env_def settings_example_def)

lemma example_started_settings:
  "\<exists>s. run_settings settings_example [SInitialize] (new_settings example_settings_disk) = s \<and> ss_current s = Some example_settings \<and>
     outcomes (ss_files s) = [] \<and> nodes (ss_files s) = nodes example_settings_disk"
proof -
  let ?v = "settings_json example_settings"
  obtain d where d: "read_tree example_service ''/d/f'' example_settings_disk = (Inr (Some ?v), d)" "outcomes d = []"
    using example_settings_read [of example_settings_disk] by (auto simp: example_settings_disk_def)
  have "disk_ok example_settings_disk" by (simp add: disk_ok_def example_settings_disk_def)
  from read_tree_at [OF this d(1)] have n: "nodes d = nodes example_settings_disk" by simp
  have "round_json whole_round ?v = ?v" using whole_printable example_defaults by blast
  then have "read_with (round_json whole_round) example_service ''/d/f'' example_settings_disk = (Inr (Some ?v), d)"
    using d(1) by (simp add: read_with_def em_simps)
  then have r: "st_read settings_example example_settings_disk = (Inr (Some ?v), d)" by (simp add: settings_example_def)
  show ?thesis using r example_settings_parse d(2) n
    by (simp add: run_settings_def settings_step_def settings_initialize_def settings_file_def accepted_def new_settings_def em_simps written_not_legacy)
qed

theorem settings_survive_restart_witness:
  "\<exists>s s'. run_settings (private_settings_env example_service ''/d/f'' settings_example) [SInitialize] (new_settings example_settings_disk) = s \<and>
     ss_current s = Some example_settings \<and>
     settings_initialize (private_settings_env example_service ''/d/f'' settings_example) (new_settings (ss_files s)) = (Inr (), s') \<and>
     ss_current s' = Some example_settings"
proof -
  obtain s where s: "run_settings (private_settings_env example_service ''/d/f'' settings_example) [SInitialize] (new_settings example_settings_disk) = s"
    "ss_current s = Some example_settings" "outcomes (ss_files s) = []" "nodes (ss_files s) = nodes example_settings_disk"
    using example_started_settings settings_private by auto
  have rd: "fst (read_tree example_service ''/d/f'' (ss_files s)) \<noteq> Inl SecureJsonFileError" using example_settings_read [OF s(3,4)] by auto
  have "list_all (proper_call (doubles (se_round (st_settings settings_example)))) [SInitialize]" by (simp add: proper_call_def)
  from settings_survive_restart [OF example_settings_ok this s(1,2) rd] s(1,2) show ?thesis by blast
qed

end
