(* ===== verification/Config.thy ===== *)
theory Config
  imports Settings SecureJsonFile UpstreamProviders
begin

text \<open>
  The configuration: base paths (\<open>base-path.ts\<close>), the optional file (\<open>config-file.ts\<close>), environment and file merged and
  checked (\<open>config.ts\<close>), the part the client sees (\<open>client-config.ts\<close>), and the settings limits and defaults that
  \<open>index.ts\<close> derives from it. The URL parser, \<open>ipaddr.js\<close>, \<open>proxy-addr\<close> and the Unicode tables are parameters; the rest
  is translated. An integer that is written as a string is exact here: the schema rejects every one that a double
  cannot hold.
\<close>

declare map_of_eq_Some_iff [simp del] Some_eq_map_of_iff [simp del]

section \<open>Parameters\<close>

record 'a config_env =
  cfg_text :: text_env
  cfg_lower :: "utext \<Rightarrow> utext"
  cfg_url :: "utext \<Rightarrow> HostURL option"
  cfg_base_url :: "utext \<Rightarrow> HostURL option"
  ip_parse :: "utext \<Rightarrow> 'a option"
  ip_parseCIDR :: "utext \<Rightarrow> ('a \<times> nat) option"
  ip_v6 :: "'a \<Rightarrow> bool"
  ip_mapped :: "'a \<Rightarrow> bool"
  ip_toIPv4 :: "'a \<Rightarrow> 'a"
  ip_text :: "'a \<Rightarrow> string"
  ip_network :: "bool \<Rightarrow> string \<Rightarrow> 'a option"
  proxy_compiles :: "string list \<Rightarrow> bool"

section \<open>Base paths\<close>

fun split_text :: "nat \<Rightarrow> utext \<Rightarrow> utext list" where
  "split_text c [] = [[]]"
| "split_text c (x # xs) =
     (if x = c then [] # split_text c xs
      else case split_text c xs of [] \<Rightarrow> [[x]] | y # ys \<Rightarrow> (x # y) # ys)"

definition alnum_point :: "nat \<Rightarrow> bool" where
  "alnum_point c \<longleftrightarrow> 48 \<le> c \<and> c \<le> 57 \<or> 65 \<le> c \<and> c \<le> 90 \<or> 97 \<le> c \<and> c \<le> 122"

definition safeSegment :: "utext \<Rightarrow> bool" where
  "safeSegment s \<longleftrightarrow> s \<noteq> [] \<and> list_all (\<lambda>c. alnum_point c \<or> c \<in> set (text_of ''._~-'')) s"

definition normalizeBasePath :: "'a config_env \<Rightarrow> utext \<Rightarrow> utext option" where
  "normalizeBasePath E v =
     (if take 1 v \<noteq> [47] \<or> 92 \<in> set v then None
      else
        let stripped = rev (dropWhile (\<lambda>c. c = 47) (rev v)) in
        if stripped = [] then (if v = [47] then Some [47] else None)
        else if list_ex (\<lambda>s. s = [] \<or> s = [46] \<or> s = [46, 46] \<or> \<not> safeSegment s) (tl (split_text 47 stripped)) then None
        else
          (case cfg_base_url E stripped of
             None \<Rightarrow> None
           | Some url \<Rightarrow>
               if origin url \<noteq> ''http://base.invalid'' \<or> text_of (pathname url) \<noteq> stripped \<or> search url \<noteq> [] \<or> hash url \<noteq> []
               then None else Some stripped))"

definition basePathSchema :: "'a config_env \<Rightarrow> json option \<Rightarrow> utext option" where
  "basePathSchema E v = (case v of Some (JStr s) \<Rightarrow> normalizeBasePath E s | _ \<Rightarrow> None)"

section \<open>The configuration file\<close>

definition MAX_CONFIG_FILE_BYTES :: nat where "MAX_CONFIG_FILE_BYTES = 64 * 1024"

datatype file_kind = FInt | FString | FProxy | FStrings

definition fileValuesSchema_keys :: "(string \<times> file_kind) list" where
  "fileValuesSchema_keys =
     [(''port'', FInt), (''bindHost'', FString), (''basePath'', FString), (''publicUrl'', FString), (''defaultShell'', FString),
      (''defaultFontSize'', FInt), (''xtermScrollback'', FInt), (''tmuxHistoryLimit'', FInt), (''wsHeartbeatSeconds'', FInt),
      (''wsMaxBufferBytes'', FInt), (''resizeDebounceMs'', FInt), (''reconnectMaxSeconds'', FInt), (''logLevel'', FString),
      (''homeDir'', FString), (''dataDir'', FString), (''sessionMaxCount'', FInt), (''authMode'', FString), (''localAuthUsername'', FString),
      (''bcryptCost'', FInt), (''authIdleMinutes'', FInt), (''authAbsoluteHours'', FInt), (''authSessionMaxCount'', FInt),
      (''cloudflareTeamDomain'', FString), (''cloudflareAccessAud'', FString), (''trustProxy'', FProxy), (''trustedAuthHeader'', FString),
      (''allowedShells'', FStrings), (''maxFontSize'', FInt), (''maxXtermScrollback'', FInt), (''maxTmuxHistoryLimit'', FInt),
      (''maxStaleSessionCleanupHours'', FInt), (''sessionCleanupIntervalMinutes'', FInt)]"

definition ALLOWED_CONFIG_KEYS :: "string list" where
  "ALLOWED_CONFIG_KEYS =
     [''port'', ''bindHost'', ''basePath'', ''publicUrl'', ''defaultShell'', ''defaultFontSize'', ''xtermScrollback'', ''tmuxHistoryLimit'',
      ''wsHeartbeatSeconds'', ''wsMaxBufferBytes'', ''resizeDebounceMs'', ''reconnectMaxSeconds'', ''logLevel'', ''homeDir'', ''dataDir'',
      ''sessionMaxCount'', ''authMode'', ''localAuthUsername'', ''bcryptCost'', ''authIdleMinutes'', ''authAbsoluteHours'',
      ''authSessionMaxCount'', ''cloudflareTeamDomain'', ''cloudflareAccessAud'', ''trustProxy'', ''trustedAuthHeader'', ''allowedShells'',
      ''maxFontSize'', ''maxXtermScrollback'', ''maxTmuxHistoryLimit'', ''maxStaleSessionCleanupHours'', ''sessionCleanupIntervalMinutes'']"

text \<open>\<open>/(password|secret|token|cookie|privatekey)/i\<close>; no letter outside ASCII folds into these words.\<close>

definition lower_point :: "nat \<Rightarrow> nat" where
  "lower_point c = (if 65 \<le> c \<and> c \<le> 90 then c + 32 else c)"

definition SECRET_KEY_PATTERN :: "utext \<Rightarrow> bool" where
  "SECRET_KEY_PATTERN k \<longleftrightarrow>
     list_ex (\<lambda>w. list_ex (\<lambda>i. take (length w) (drop i (map lower_point k)) = text_of w) [0..<Suc (length k)])
       [''password'', ''secret'', ''token'', ''cookie'', ''privatekey'']"

definition read_config :: "string \<Rightarrow> (utext \<times> json) list disk_op" where
  "read_config path =
     Prelude.bind (fs_stat path) (\<lambda>st.
     if kind st \<noteq> RegularFile \<or> length (content st) > MAX_CONFIG_FILE_BYTES then throw InvalidFile
     else
       Prelude.bind (readBounded path MAX_CONFIG_FILE_BYTES) (\<lambda>bytes.
         case Option.bind (text_decoder bytes) json_parse of
           Some (JObj ms) \<Rightarrow>
             if list_ex (\<lambda>(k, _). SECRET_KEY_PATTERN k \<or> k \<notin> set (map text_of ALLOWED_CONFIG_KEYS)) ms then throw InvalidFile else ret ms
         | _ \<Rightarrow> throw InvalidFile))"

text \<open>The result \<open>None\<close> is the error \<open>Invalid server configuration\<close>.\<close>

definition loadOptionalConfigFile :: "string option \<Rightarrow> (disk, unit, (utext \<times> json) list option) em" where
  "loadOptionalConfigFile path =
     (case path of
        None \<Rightarrow> ret (Some [])
      | Some p \<Rightarrow>
          if p = [] then ret (Some [])
          else if hd p \<noteq> CHR ''/'' then ret None
          else
            Prelude.bind (attempt (fs_open_existing p)) (\<lambda>opened.
              case opened of
                Inl _ \<Rightarrow> ret None
              | Inr handle \<Rightarrow>
                  Prelude.bind (attempt (read_config p)) (\<lambda>outcome.
                  Prelude.bind (attempt (fs_close handle)) (\<lambda>closing.
                    ret (case outcome of Inr ms \<Rightarrow> if closing = Inr () then Some ms else None | Inl _ \<Rightarrow> None)))))"

text \<open>Loading changes nothing, leaves no descriptor open, and yields allowed keys only, none of which names a secret.\<close>

definition keys_allowed :: "(utext \<times> json) list \<Rightarrow> bool" where
  "keys_allowed ms \<longleftrightarrow> list_all (\<lambda>(k, _). \<not> SECRET_KEY_PATTERN k \<and> k \<in> set (map text_of ALLOWED_CONFIG_KEYS)) ms"

lemma read_config_at: "triple (disk_at N F) (read_config p) (\<lambda>ms d. disk_at N F d \<and> keys_allowed ms) (\<lambda>_. disk_at N F)"
  unfolding read_config_def
proof (rule triple_bind [OF fs_stat_at], rule triple_assume, rule triple_if, rule triple_throw, assumption,
    rule triple_bind [OF readBounded_at], rule triple_assume)
  fix bytes
  show "triple (disk_at N F)
      (case Option.bind (text_decoder bytes) json_parse of
         Some (JObj ms) \<Rightarrow>
           if list_ex (\<lambda>(k, _). SECRET_KEY_PATTERN k \<or> k \<notin> set (map text_of ALLOWED_CONFIG_KEYS)) ms then throw InvalidFile else ret ms
       | _ \<Rightarrow> throw InvalidFile) (\<lambda>ms d. disk_at N F d \<and> keys_allowed ms) (\<lambda>_. disk_at N F)"
    by (auto split: option.split json.split intro!: triple_ret triple_throw triple_if simp: keys_allowed_def list_all_iff list_ex_iff)
qed

lemma loadOptionalConfigFile_at:
  "triple (disk_at N F) (loadOptionalConfigFile path) (\<lambda>r d. disk_at N F d \<and> (\<forall>ms. r = Some ms \<longrightarrow> keys_allowed ms)) (\<lambda>_ _. False)"
proof -
  let ?Q = "\<lambda>r d. disk_at N F d \<and> (\<forall>ms. r = Some ms \<longrightarrow> keys_allowed ms)"
  have close: "triple (disk_at N (insert f F))
      (Prelude.bind (attempt (read_config p)) (\<lambda>outcome. Prelude.bind (attempt (fs_close f)) (\<lambda>closing.
         ret (case outcome of Inr ms \<Rightarrow> if closing = Inr () then Some ms else None | Inl _ \<Rightarrow> None)))) ?Q (\<lambda>_ _. False)"
    if f: "f \<notin> F" for f p
  proof (rule triple_bind [where R = "\<lambda>r d. disk_at N (insert f F) d \<and> (\<forall>ms. r = Inr ms \<longrightarrow> keys_allowed ms)"],
      rule triple_attempt, rule triple_weaken [OF read_config_at])
    fix r :: "file_error + (utext \<times> json) list"
    show "triple (\<lambda>d. disk_at N (insert f F) d \<and> (\<forall>ms. r = Inr ms \<longrightarrow> keys_allowed ms))
        (Prelude.bind (attempt (fs_close f)) (\<lambda>closing. ret (case r of Inr ms \<Rightarrow> if closing = Inr () then Some ms else None | Inl _ \<Rightarrow> None)))
        ?Q (\<lambda>_ _. False)"
      by (rule triple_assume, rule triple_bind [OF close_one [OF f]]) (auto intro!: triple_ret split: sum.split if_split)
  qed auto
  show ?thesis
    unfolding loadOptionalConfigFile_def
    by (rule triple_case_option, rule triple_ret, simp add: keys_allowed_def, rule triple_if, rule triple_ret, simp add: keys_allowed_def,
        rule triple_if, rule triple_ret, simp, rule triple_try [OF fs_open_existing_at], rule triple_ret, simp, rule triple_conj, rule triple_assume,
        rule close)
qed

section \<open>Values\<close>

definition digits_text :: "utext \<Rightarrow> bool" where
  "digits_text s \<longleftrightarrow> (let d = (if take 1 s = [45] then tl s else s) in d \<noteq> [] \<and> list_all is_digit d)"

definition integer_text :: "utext \<Rightarrow> int" where
  "integer_text s = (if take 1 s = [45] then - int (digits_value (tl s)) else int (digits_value s))"

definition whole_number :: "json option \<Rightarrow> int option" where
  "whole_number v =
     (case v of
        Some (JNum r) \<Rightarrow> if isSafeInteger (Num r) then Some \<lfloor>r\<rfloor> else None
      | Some (JStr s) \<Rightarrow> if digits_text s \<and> safe_int (integer_text s) then Some (integer_text s) else None
      | _ \<Rightarrow> None)"

definition integerInput :: "int \<Rightarrow> int \<Rightarrow> json option \<Rightarrow> int option" where
  "integerInput lo hi v = (case whole_number v of Some n \<Rightarrow> if lo \<le> n \<and> n \<le> hi then Some n else None | None \<Rightarrow> None)"

definition clampedIntegerInput :: "int \<Rightarrow> int \<Rightarrow> json option \<Rightarrow> int option" where
  "clampedIntegerInput lo hi v = map_option (\<lambda>n. min hi (max lo n)) (whole_number v)"

definition safeAbsolutePath :: "'a config_env \<Rightarrow> utext \<Rightarrow> utext option" where
  "safeAbsolutePath E s =
     (let n = nfc_form (cfg_text E) s
      in if take 1 n = [47] \<and> utf8ByteLength n \<le> 4096 \<and> list_all (safe_character (cfg_text E) False) n then Some n else None)"

definition safeAbsolutePathSchema :: "'a config_env \<Rightarrow> json option \<Rightarrow> utext option" where
  "safeAbsolutePathSchema E v = (case v of Some (JStr s) \<Rightarrow> safeAbsolutePath E s | _ \<Rightarrow> None)"

definition originSchema :: "'a config_env \<Rightarrow> string list \<Rightarrow> json option \<Rightarrow> HostURL option" where
  "originSchema E protocols v =
     (case v of
        Some (JStr s) \<Rightarrow>
          (case cfg_url E s of
             None \<Rightarrow> None
           | Some url \<Rightarrow>
               if protocol url \<notin> set protocols \<or> pathname url \<noteq> ''/'' \<or> search url \<noteq> [] \<or> hash url \<noteq> [] \<or> username url \<noteq> [] \<or>
                  password url \<noteq> []
               then None else Some url)
      | _ \<Rightarrow> None)"

definition cloudflareDomainSchema :: "'a config_env \<Rightarrow> json option \<Rightarrow> string option" where
  "cloudflareDomainSchema E v =
     (case originSchema E [''https:''] v of
        None \<Rightarrow> None
      | Some url \<Rightarrow> if port url = [] \<and> isCloudflareTeamHostname (hostname url) then Some (origin url) else None)"

definition length_units :: "utext \<Rightarrow> nat" where
  "length_units s = length (concat (map point_units s))"

definition text_value :: "(utext \<Rightarrow> bool) \<Rightarrow> json option \<Rightarrow> utext option" where
  "text_value p v = (case v of Some (JStr s) \<Rightarrow> if p s then Some s else None | _ \<Rightarrow> None)"

definition safeTokenPattern :: "utext \<Rightarrow> bool" where
  "safeTokenPattern s \<longleftrightarrow> s \<noteq> [] \<and> list_all (\<lambda>c. alnum_point c \<or> c = 95 \<or> c = 45) s"

definition httpTokenPattern :: "utext \<Rightarrow> bool" where
  "httpTokenPattern s \<longleftrightarrow> s \<noteq> [] \<and> list_all (\<lambda>c. alnum_point c \<or> c \<in> set (39 # text_of ''!#$%&*+-.^_`|~'')) s"

definition usernamePattern :: "utext \<Rightarrow> bool" where
  "usernamePattern s \<longleftrightarrow> s \<noteq> [] \<and> list_all (\<lambda>c. alnum_point c \<or> c \<in> set (text_of ''._@-'')) s"

definition localUsernameSchema :: "'a config_env \<Rightarrow> json option \<Rightarrow> utext option" where
  "localUsernameSchema E v =
     (case v of
        Some (JStr s) \<Rightarrow>
          (let n = nfc_form (cfg_text E) s in if 1 \<le> length n \<and> length n \<le> 64 \<and> usernamePattern n then Some n else None)
      | _ \<Rightarrow> None)"

definition optional_value :: "(json option \<Rightarrow> 'b option) \<Rightarrow> json option \<Rightarrow> 'b option option" where
  "optional_value f v = (case v of None \<Rightarrow> Some None | _ \<Rightarrow> map_option Some (f v))"

definition json_strings :: "json list \<Rightarrow> utext list option" where
  "json_strings vs = all_some (map (\<lambda>v. case v of JStr s \<Rightarrow> Some s | _ \<Rightarrow> None) vs)"

section \<open>Proxies and shells\<close>

datatype TrustProxy = TrustNone | TrustHops int | TrustRanges "string list"

definition MAX_TRUST_PROXY_ENTRIES :: nat where "MAX_TRUST_PROXY_ENTRIES = 64"

definition decimal_string :: "nat \<Rightarrow> string" where
  "decimal_string n = map char_of (print_nat n)"

definition normalizeProxyEntry :: "'a config_env \<Rightarrow> utext \<Rightarrow> string option" where
  "normalizeProxyEntry E v =
     Option.bind
       (if 47 \<notin> set v then map_option (\<lambda>a. (a, if ip_v6 E a then 128 else 32)) (ip_parse E v)
        else if length (filter (\<lambda>c. c = 47) v) \<noteq> 1 then None
        else ip_parseCIDR E v) (\<lambda>(parsed, given).
     let (address, prefix) =
           (if ip_v6 E parsed \<and> ip_mapped E parsed \<and> 96 \<le> given then (ip_toIPv4 E parsed, given - 96) else (parsed, given))
     in map_option (\<lambda>network. ip_text E network @ CHR ''/'' # decimal_string prefix)
          (ip_network E (ip_v6 E address) (ip_text E address @ CHR ''/'' # decimal_string prefix)))"

definition parseProxyList :: "'a config_env \<Rightarrow> utext list \<Rightarrow> string list option" where
  "parseProxyList E vs =
     (let candidates = map (\<lambda>v. cfg_lower E (js_trim v)) vs in
      if candidates = [] \<or> length candidates > MAX_TRUST_PROXY_ENTRIES then None
      else
        Option.bind (all_some (map (normalizeProxyEntry E) candidates)) (\<lambda>entries.
        let normalized = rev (remdups (rev entries)) in
        if proxy_compiles E normalized then Some normalized else None))"

definition trustProxySchema :: "'a config_env \<Rightarrow> json option \<Rightarrow> TrustProxy option" where
  "trustProxySchema E v =
     (if v = Some (JBool False) \<or> v = Some (JStr (text_of ''false'')) then Some TrustNone
      else case integerInput 1 8 v of
             Some n \<Rightarrow> Some (TrustHops n)
           | None \<Rightarrow>
               (case v of
                  Some (JStr s) \<Rightarrow> map_option TrustRanges (parseProxyList E (split_text 44 s))
                | Some (JArr vs) \<Rightarrow> Option.bind (json_strings vs) (\<lambda>ss. map_option TrustRanges (parseProxyList E ss))
                | _ \<Rightarrow> None))"

definition allowedShellsSchema :: "'a config_env \<Rightarrow> json option \<Rightarrow> utext list option" where
  "allowedShellsSchema E v =
     Option.bind
       (case v of Some (JStr s) \<Rightarrow> Some (split_text 44 s) | Some (JArr vs) \<Rightarrow> json_strings vs | _ \<Rightarrow> None) (\<lambda>vs.
     Option.bind (all_some (map (\<lambda>s. safeAbsolutePath E (js_trim s)) vs)) (\<lambda>shells.
     if shells = [] \<or> \<not> distinct shells then None else Some shells))"

section \<open>Environment and file\<close>

definition file_value_ok :: "file_kind \<Rightarrow> json \<Rightarrow> bool" where
  "file_value_ok k v =
     (case k of
        FInt \<Rightarrow> (case v of JNum r \<Rightarrow> isSafeInteger (Num r) | _ \<Rightarrow> False)
      | FString \<Rightarrow> (case v of JStr _ \<Rightarrow> True | _ \<Rightarrow> False)
      | FStrings \<Rightarrow> (case v of JArr vs \<Rightarrow> json_strings vs \<noteq> None | _ \<Rightarrow> False)
      | FProxy \<Rightarrow> (case v of JBool b \<Rightarrow> \<not> b | JNum r \<Rightarrow> isSafeInteger (Num r) | JArr vs \<Rightarrow> json_strings vs \<noteq> None | _ \<Rightarrow> False))"

definition fileValuesSchema :: "(utext \<times> json) list \<Rightarrow> bool" where
  "fileValuesSchema ms \<longleftrightarrow>
     strict_fields (map fst fileValuesSchema_keys) ms \<and>
     list_all (\<lambda>(key, k). case field key ms of None \<Rightarrow> True | Some v \<Rightarrow> file_value_ok k v) fileValuesSchema_keys"

type_synonym environment = "string \<Rightarrow> utext option"

definition pick :: "environment \<Rightarrow> (utext \<times> json) list \<Rightarrow> string \<Rightarrow> string \<Rightarrow> json option \<Rightarrow> json option" where
  "pick env ms environmentKey fileKey fallback =
     (case env environmentKey of
        Some s \<Rightarrow> Some (JStr s)
      | None \<Rightarrow> (case field fileKey ms of Some v \<Rightarrow> Some v | None \<Rightarrow> fallback))"

section \<open>The merged configuration\<close>

definition MIN_RESIZE_DEBOUNCE_MS :: int where "MIN_RESIZE_DEBOUNCE_MS = 25"
definition MAX_RESIZE_DEBOUNCE_MS :: int where "MAX_RESIZE_DEBOUNCE_MS = 1000"
definition MIN_RECONNECT_SECONDS :: int where "MIN_RECONNECT_SECONDS = 1"
definition MAX_RECONNECT_SECONDS :: int where "MAX_RECONNECT_SECONDS = 60"

definition logLevels :: "string list" where
  "logLevels = [''trace'', ''debug'', ''info'', ''warn'', ''error'', ''fatal'', ''silent'']"

definition authModes :: "string list" where
  "authModes = [''local'', ''cloudflare-access'', ''trusted-header'', ''none'']"

record AppConfig =
  c_port :: int
  c_bindHost :: utext
  c_basePath :: utext
  c_publicUrl :: string
  c_publicOrigin :: string
  c_publicHost :: string
  c_defaultShell :: utext
  c_defaultFontSize :: int
  c_xtermScrollback :: int
  c_tmuxHistoryLimit :: int
  c_wsHeartbeatSeconds :: int
  c_wsMaxBufferBytes :: int
  c_resizeDebounceMs :: int
  c_reconnectMaxSeconds :: int
  c_logLevel :: string
  c_homeDir :: utext
  c_dataDir :: utext
  c_sessionMaxCount :: int
  c_authMode :: string
  c_localAuthUsername :: utext
  c_bcryptCost :: int
  c_authIdleMinutes :: int
  c_authAbsoluteHours :: int
  c_authSessionMaxCount :: int
  c_cloudflareTeamDomain :: "string option"
  c_cloudflareAccessAud :: "utext option"
  c_trustProxy :: TrustProxy
  c_trustedAuthHeader :: utext
  c_allowedShells :: "utext list"
  c_maxFontSize :: int
  c_maxXtermScrollback :: int
  c_maxTmuxHistoryLimit :: int
  c_maxStaleSessionCleanupHours :: int
  c_sessionCleanupIntervalMinutes :: int
  c_appConfigFile :: "utext option"

definition url_host :: "HostURL \<Rightarrow> string" where
  "url_host url = hostname url @ (if port url = [] then [] else CHR '':'' # port url)"

text \<open>The three conditions of \<open>superRefine\<close>.\<close>

definition config_consistent :: "AppConfig \<Rightarrow> bool" where
  "config_consistent c \<longleftrightarrow>
     \<not> (c_authMode c = ''cloudflare-access'' \<and> (c_cloudflareTeamDomain c = None \<or> c_cloudflareAccessAud c = None)) \<and>
     \<not> (c_authMode c = ''trusted-header'' \<and> (case c_trustProxy c of TrustRanges _ \<Rightarrow> False | _ \<Rightarrow> True)) \<and>
     c_defaultShell c \<in> set (c_allowedShells c)"

definition mergedSchema :: "'a config_env \<Rightarrow> environment \<Rightarrow> (utext \<times> json) list \<Rightarrow> AppConfig option" where
  "mergedSchema E env ms =
     Option.bind (optional_value (safeAbsolutePathSchema E) (map_option JStr (env ''APP_CONFIG_FILE''))) (\<lambda>configFile.
     Option.bind (integerInput 1 65535 (pick env ms ''APP_PORT'' ''port'' (Some (JNum 3000)))) (\<lambda>port.
     Option.bind (text_value (\<lambda>s. 1 \<le> length_units s \<and> length_units s \<le> 255)
       (pick env ms ''APP_BIND_HOST'' ''bindHost'' (Some (JStr (text_of ''0.0.0.0''))))) (\<lambda>bindHost.
     Option.bind (basePathSchema E (pick env ms ''APP_BASE_PATH'' ''basePath'' (Some (JStr [47])))) (\<lambda>basePath.
     Option.bind (originSchema E [''http:'', ''https:''] (pick env ms ''APP_PUBLIC_URL'' ''publicUrl'' (Some (JStr (text_of ''http://localhost:3000''))))) (\<lambda>url.
     Option.bind (safeAbsolutePathSchema E (pick env ms ''DEFAULT_SHELL'' ''defaultShell'' (Some (JStr (text_of ''/bin/bash''))))) (\<lambda>defaultShell.
     Option.bind (integerInput 8 32 (pick env ms ''DEFAULT_FONT_SIZE'' ''defaultFontSize'' (Some (JNum 14)))) (\<lambda>defaultFontSize.
     Option.bind (clampedIntegerInput 0 100000 (pick env ms ''XTERM_SCROLLBACK'' ''xtermScrollback'' (Some (JNum 10000)))) (\<lambda>xtermScrollback.
     Option.bind (integerInput 0 1000000 (pick env ms ''TMUX_HISTORY_LIMIT'' ''tmuxHistoryLimit'' (Some (JNum 20000)))) (\<lambda>tmuxHistoryLimit.
     Option.bind (integerInput 5 300 (pick env ms ''WS_HEARTBEAT_SECONDS'' ''wsHeartbeatSeconds'' (Some (JNum 30)))) (\<lambda>wsHeartbeatSeconds.
     Option.bind (integerInput 65536 1048576 (pick env ms ''WS_MAX_BUFFER_BYTES'' ''wsMaxBufferBytes'' (Some (JNum 1048576)))) (\<lambda>wsMaxBufferBytes.
     Option.bind (integerInput MIN_RESIZE_DEBOUNCE_MS MAX_RESIZE_DEBOUNCE_MS (pick env ms ''RESIZE_DEBOUNCE_MS'' ''resizeDebounceMs'' (Some (JNum 100)))) (\<lambda>resizeDebounceMs.
     Option.bind (integerInput MIN_RECONNECT_SECONDS MAX_RECONNECT_SECONDS (pick env ms ''RECONNECT_MAX_SECONDS'' ''reconnectMaxSeconds'' (Some (JNum 15)))) (\<lambda>reconnectMaxSeconds.
     Option.bind (enum_value logLevels (pick env ms ''LOG_LEVEL'' ''logLevel'' (Some (JStr (text_of ''info''))))) (\<lambda>logLevel.
     Option.bind (safeAbsolutePathSchema E (pick env ms ''HOME_DIR'' ''homeDir'' (Some (JStr (text_of ''/home/webterm''))))) (\<lambda>homeDir.
     Option.bind (safeAbsolutePathSchema E (pick env ms ''DATA_DIR'' ''dataDir'' (Some (JStr (text_of ''/app/data''))))) (\<lambda>dataDir.
     Option.bind (integerInput 1 20 (pick env ms ''SESSION_MAX_COUNT'' ''sessionMaxCount'' (Some (JNum 10)))) (\<lambda>sessionMaxCount.
     Option.bind (enum_value authModes (pick env ms ''AUTH_MODE'' ''authMode'' (Some (JStr (text_of ''local''))))) (\<lambda>authMode.
     Option.bind (localUsernameSchema E (pick env ms ''LOCAL_AUTH_USERNAME'' ''localAuthUsername'' (Some (JStr (text_of ''webterm''))))) (\<lambda>localAuthUsername.
     Option.bind (integerInput 10 15 (pick env ms ''BCRYPT_COST'' ''bcryptCost'' (Some (JNum 12)))) (\<lambda>bcryptCost.
     Option.bind (integerInput 5 1440 (pick env ms ''AUTH_IDLE_MINUTES'' ''authIdleMinutes'' (Some (JNum 60)))) (\<lambda>authIdleMinutes.
     Option.bind (integerInput 1 168 (pick env ms ''AUTH_ABSOLUTE_HOURS'' ''authAbsoluteHours'' (Some (JNum 24)))) (\<lambda>authAbsoluteHours.
     Option.bind (integerInput 1 256 (pick env ms ''AUTH_SESSION_MAX_COUNT'' ''authSessionMaxCount'' (Some (JNum 32)))) (\<lambda>authSessionMaxCount.
     Option.bind (optional_value (cloudflareDomainSchema E) (pick env ms ''CLOUDFLARE_TEAM_DOMAIN'' ''cloudflareTeamDomain'' None)) (\<lambda>cloudflareTeamDomain.
     Option.bind (optional_value (text_value (\<lambda>s. length s \<le> 256 \<and> safeTokenPattern s))
       (pick env ms ''CLOUDFLARE_ACCESS_AUD'' ''cloudflareAccessAud'' None)) (\<lambda>cloudflareAccessAud.
     Option.bind (trustProxySchema E (pick env ms ''TRUST_PROXY'' ''trustProxy'' (Some (JBool False)))) (\<lambda>trustProxy.
     Option.bind (text_value (\<lambda>s. length s \<le> 128 \<and> httpTokenPattern s)
       (pick env ms ''TRUSTED_AUTH_HEADER'' ''trustedAuthHeader'' (Some (JStr (text_of ''X-Auth-User''))))) (\<lambda>trustedAuthHeader.
     Option.bind (allowedShellsSchema E (pick env ms ''ALLOWED_SHELLS'' ''allowedShells'' (Some (JArr [JStr (text_of ''/bin/bash'')])))) (\<lambda>allowedShells.
     Option.bind (integerInput 8 32 (pick env ms ''MAX_FONT_SIZE'' ''maxFontSize'' (Some (JNum 32)))) (\<lambda>maxFontSize.
     Option.bind (integerInput 0 100000 (pick env ms ''MAX_XTERM_SCROLLBACK'' ''maxXtermScrollback'' (Some (JNum 100000)))) (\<lambda>maxXtermScrollback.
     Option.bind (integerInput 0 1000000 (pick env ms ''MAX_TMUX_HISTORY_LIMIT'' ''maxTmuxHistoryLimit'' (Some (JNum 1000000)))) (\<lambda>maxTmuxHistoryLimit.
     Option.bind (integerInput 0 8760 (pick env ms ''MAX_STALE_SESSION_CLEANUP_HOURS'' ''maxStaleSessionCleanupHours'' (Some (JNum 8760)))) (\<lambda>maxStaleSessionCleanupHours.
     Option.bind (integerInput 5 1440 (pick env ms ''SESSION_CLEANUP_INTERVAL_MINUTES'' ''sessionCleanupIntervalMinutes'' (Some (JNum 15)))) (\<lambda>sessionCleanupIntervalMinutes.
     Option.bind (cfg_url E (text_of (origin url))) (\<lambda>publicUrl.
     let c = \<lparr>c_port = port, c_bindHost = bindHost, c_basePath = basePath, c_publicUrl = origin url,
           c_publicOrigin = origin publicUrl, c_publicHost = url_host publicUrl, c_defaultShell = defaultShell,
           c_defaultFontSize = defaultFontSize, c_xtermScrollback = xtermScrollback, c_tmuxHistoryLimit = tmuxHistoryLimit, c_wsHeartbeatSeconds = wsHeartbeatSeconds,
           c_wsMaxBufferBytes = wsMaxBufferBytes, c_resizeDebounceMs = resizeDebounceMs, c_reconnectMaxSeconds = reconnectMaxSeconds, c_logLevel = logLevel,
           c_homeDir = homeDir, c_dataDir = dataDir, c_sessionMaxCount = sessionMaxCount, c_authMode = authMode, c_localAuthUsername = localAuthUsername,
           c_bcryptCost = bcryptCost, c_authIdleMinutes = authIdleMinutes, c_authAbsoluteHours = authAbsoluteHours, c_authSessionMaxCount = authSessionMaxCount,
           c_cloudflareTeamDomain = cloudflareTeamDomain, c_cloudflareAccessAud = cloudflareAccessAud, c_trustProxy = trustProxy,
           c_trustedAuthHeader = trustedAuthHeader, c_allowedShells = allowedShells, c_maxFontSize = maxFontSize, c_maxXtermScrollback = maxXtermScrollback,
           c_maxTmuxHistoryLimit = maxTmuxHistoryLimit, c_maxStaleSessionCleanupHours = maxStaleSessionCleanupHours, c_sessionCleanupIntervalMinutes = sessionCleanupIntervalMinutes,
           c_appConfigFile = configFile\<rparr>
     in if config_consistent c then Some c else None))))))))))))))))))))))))))))))))))"

definition loadConfig :: "'a config_env \<Rightarrow> environment \<Rightarrow> (utext \<times> json) list \<Rightarrow> AppConfig option" where
  "loadConfig E env fileValues = (if fileValuesSchema fileValues then mergedSchema E env fileValues else None)"

record ClientConfig =
  cc_basePath :: utext
  cc_resizeDebounceMs :: int
  cc_reconnectMaxSeconds :: int

definition parseClientConfig :: "'a config_env \<Rightarrow> utext \<Rightarrow> int \<Rightarrow> int \<Rightarrow> ClientConfig option" where
  "parseClientConfig E path debounce seconds =
     Option.bind (normalizeBasePath E path) (\<lambda>p.
     if MIN_RESIZE_DEBOUNCE_MS \<le> debounce \<and> debounce \<le> MAX_RESIZE_DEBOUNCE_MS \<and> MIN_RECONNECT_SECONDS \<le> seconds \<and>
        seconds \<le> MAX_RECONNECT_SECONDS
     then Some \<lparr>cc_basePath = p, cc_resizeDebounceMs = debounce, cc_reconnectMaxSeconds = seconds\<rparr> else None)"

definition toClientConfig :: "'a config_env \<Rightarrow> AppConfig \<Rightarrow> ClientConfig option" where
  "toClientConfig E c = parseClientConfig E (c_basePath c) (c_resizeDebounceMs c) (c_reconnectMaxSeconds c)"

section \<open>Settings of a deployment\<close>

definition integer_limit :: "int \<Rightarrow> int \<Rightarrow> NumericSettingLimit" where
  "integer_limit lo hi = \<lparr>limit_min = of_int lo, limit_max = of_int hi, limit_step = 1\<rparr>"

definition workspaceSettingsConstraints :: "AppConfig \<Rightarrow> WorkspaceSettingsConstraints" where
  "workspaceSettingsConstraints c =
     \<lparr>limits = \<lparr>l_fontFamilies = [''jetbrains-mono-nerd'', ''system-monospace'', ''dejavu-sans-mono'', ''noto-sans-mono'', ''liberation-mono'', ''courier''],
        l_fontSize = integer_limit 8 (c_maxFontSize c), l_lineHeight = \<lparr>limit_min = 1, limit_max = 2, limit_step = five_hundredths\<rparr>,
        l_letterSpacing = integer_limit 0 4, l_scrollback = integer_limit 0 (c_maxXtermScrollback c),
        l_themes = [''dark'', ''light'', ''ubuntu'', ''midnight-electric'', ''aurora-night'', ''carbon-violet'', ''custom''],
        l_cursorStyles = [''block'', ''underline'', ''bar''], l_bellBehaviors = [''none'', ''visual'', ''sound''],
        l_reconnectBehaviors = [''automatic'', ''manual''], l_workspaceShortcutModes = [''default'', ''disabled''],
        l_tmuxHistoryLimit = integer_limit 0 (c_maxTmuxHistoryLimit c),
        l_staleSessionCleanupHours = integer_limit 0 (c_maxStaleSessionCleanupHours c)\<rparr>,
      allowedShells = c_allowedShells c\<rparr>"

text \<open>The double that the literal \<open>1.2\<close> denotes.\<close>

definition twelve_tenths :: real where "twelve_tenths = 5404319552844595 / 2 ^ 52"

definition defaultWorkspaceSettings :: "AppConfig \<Rightarrow> WorkspaceSettings" where
  "defaultWorkspaceSettings c =
     \<lparr>fontFamily = ''dejavu-sans-mono'', fontSize = of_int (min (c_defaultFontSize c) (c_maxFontSize c)), lineHeight = twelve_tenths,
      letterSpacing = 0, scrollback = of_int (min (c_xtermScrollback c) (c_maxXtermScrollback c)), theme = ''midnight-electric'',
      cursorStyle = ''block'', cursorBlink = True, bellBehavior = ''visual'', reconnectBehavior = ''automatic'', automaticTabCreation = True,
      workspaceShortcuts = ''default'', defaultShell = c_defaultShell c,
      tmuxHistoryLimit = of_int (min (c_tmuxHistoryLimit c) (c_maxTmuxHistoryLimit c)), staleSessionCleanupHours = 0,
      customTerminalPalette = MIDNIGHT_ELECTRIC_TERMINAL_PALETTE\<rparr>"

section \<open>Accepted configurations\<close>

lemma integerInput_range: "integerInput lo hi v = Some n \<Longrightarrow> lo \<le> n \<and> n \<le> hi"
  by (auto simp: integerInput_def split: option.splits if_splits)

lemma clamped_range: "clampedIntegerInput lo hi v = Some n \<Longrightarrow> lo \<le> hi \<Longrightarrow> lo \<le> n \<and> n \<le> hi"
  by (auto simp: clampedIntegerInput_def)

definition shells_ok :: "'a config_env \<Rightarrow> utext list \<Rightarrow> bool" where
  "shells_ok E shells \<longleftrightarrow> shells \<noteq> [] \<and> distinct shells \<and> list_all (\<lambda>n. \<exists>s. safeAbsolutePath E s = Some n) shells"

lemma allowedShells_ok: "allowedShellsSchema E v = Some shells \<Longrightarrow> shells_ok E shells"
proof -
  assume "allowedShellsSchema E v = Some shells"
  then obtain vs where vs: "map (\<lambda>s. safeAbsolutePath E (js_trim s)) vs = map Some shells" "shells \<noteq> []" "distinct shells"
    by (auto simp: allowedShellsSchema_def bind_eq_Some_conv all_some_iff split: if_splits)
  have "\<exists>s. safeAbsolutePath E s = Some n" if "n \<in> set shells" for n
  proof -
    have "Some n \<in> set (map (\<lambda>s. safeAbsolutePath E (js_trim s)) vs)" using vs(1) that by simp
    then show ?thesis by auto
  qed
  with vs show ?thesis by (simp add: shells_ok_def list_all_iff)
qed

definition config_ok :: "'a config_env \<Rightarrow> AppConfig \<Rightarrow> bool" where
  "config_ok E c \<longleftrightarrow>
     8 \<le> c_defaultFontSize c \<and> c_defaultFontSize c \<le> 32 \<and> 8 \<le> c_maxFontSize c \<and> c_maxFontSize c \<le> 32 \<and>
     0 \<le> c_xtermScrollback c \<and> 0 \<le> c_maxXtermScrollback c \<and> c_maxXtermScrollback c \<le> 100000 \<and>
     0 \<le> c_tmuxHistoryLimit c \<and> 0 \<le> c_maxTmuxHistoryLimit c \<and> c_maxTmuxHistoryLimit c \<le> 1000000 \<and>
     0 \<le> c_maxStaleSessionCleanupHours c \<and> c_maxStaleSessionCleanupHours c \<le> 8760 \<and>
     MIN_RESIZE_DEBOUNCE_MS \<le> c_resizeDebounceMs c \<and> c_resizeDebounceMs c \<le> MAX_RESIZE_DEBOUNCE_MS \<and>
     MIN_RECONNECT_SECONDS \<le> c_reconnectMaxSeconds c \<and> c_reconnectMaxSeconds c \<le> MAX_RECONNECT_SECONDS \<and>
     shells_ok E (c_allowedShells c) \<and> (\<exists>p. normalizeBasePath E p = Some (c_basePath c)) \<and> config_consistent c"

lemma basePathSchema_path: "basePathSchema E v = Some p \<Longrightarrow> \<exists>q. normalizeBasePath E q = Some p"
  by (auto simp: basePathSchema_def split: option.splits json.splits)

lemma mergedSchema_ok: "mergedSchema E env ms = Some c \<Longrightarrow> config_ok E c"
  unfolding mergedSchema_def Let_def
  by (clarsimp simp: bind_eq_Some_conv split: if_splits)
    (auto simp: config_ok_def dest!: integerInput_range clamped_range allowedShells_ok basePathSchema_path)

text \<open>A normalised base path is its own normal form.\<close>

lemma normalizeBasePath_again: "normalizeBasePath E v = Some p \<Longrightarrow> normalizeBasePath E p = Some p"
proof -
  assume v: "normalizeBasePath E v = Some p"
  let ?st = "rev (dropWhile (\<lambda>c. c = 47) (rev v))"
  show ?thesis
  proof (cases "?st = []")
    case True
    then have "p = [47]" using v by (auto simp: normalizeBasePath_def split: if_splits)
    then show ?thesis by (simp add: normalizeBasePath_def)
  next
    case False
    then have p: "p = ?st" "take 1 v = [47]" "92 \<notin> set v"
      using v by (auto simp: normalizeBasePath_def Let_def split: if_splits option.splits)
    have "v = ?st @ rev (takeWhile (\<lambda>c. c = 47) (rev v))" by (metis rev_append rev_rev_ident takeWhile_dropWhile_id)
    then have pre: "take 1 p = [47]" "92 \<notin> set p"
      using p False by (metis One_nat_def Suc_leI length_greater_0_conv take_append diff_is_0_eq take0 append_Nil2,
        metis Un_iff set_append)
    have "dropWhile P (dropWhile P xs) = dropWhile P xs" for P and xs :: utext by (induction xs) auto
    then have "rev (dropWhile (\<lambda>c. c = 47) (rev p)) = p" unfolding p(1) by simp
    with pre v p(1) False show ?thesis by (auto simp: normalizeBasePath_def Let_def split: if_splits option.splits)
  qed
qed

section \<open>Rounding\<close>

lemma ieee_near:
  assumes "ieee fl" and "\<bar>x\<bar> \<le> 100"
  obtains y where "fl x = Num y" "\<bar>y - x\<bar> \<le> 1 / 10 ^ 13"
proof -
  have "(2::real) ^ 7 \<le> 2 ^ 1000" "(2::real) ^ 67 \<le> 2 ^ 1074" by (rule power_increasing; simp)+
  then have big: "(100::real) \<le> 2 ^ 1000" "(1::real) / 2 ^ 1074 \<le> 1 / 2 ^ 67" by (simp_all add: frac_le)
  then obtain y where y: "fl x = Num y" "\<bar>y - x\<bar> \<le> \<bar>x\<bar> / 2 ^ 53 + 1 / 2 ^ 1074"
    using assms unfolding ieee_def by (meson order_trans)
  have "\<bar>x\<bar> / 2 ^ 53 + 1 / 2 ^ 1074 \<le> 100 / 2 ^ 53 + 1 / 2 ^ 67"
    using assms(2) big(2) by (intro add_mono divide_right_mono) auto
  also have "\<dots> \<le> 1 / (10::real) ^ 13" by simp
  finally show thesis using that [OF y(1)] y(2) by linarith
qed

lemma ieee_int: "ieee fl \<Longrightarrow> \<bar>n\<bar> \<le> 2 ^ 53 \<Longrightarrow> fl (of_int n) = Num (of_int n)"
  unfolding ieee_def by blast

lemma integer_aligned: "ieee fl \<Longrightarrow> \<bar>n - m\<bar> \<le> 2 ^ 53 \<Longrightarrow> isStepAligned fl (of_int n) (of_int m) 1"
proof -
  assume f: "ieee fl" "\<bar>n - m\<bar> \<le> 2 ^ 53"
  have "fl (of_int (n - m)) = Num (of_int (n - m))" "fl (of_int 0) = Num (of_int 0)" 
    using ieee_int [OF f(1), of "n - m"] ieee_int [OF f(1), of 0] f(2) by simp_all
  moreover have "\<lfloor>of_int (n - m) + 1 / 2 :: real\<rfloor> = n - m" by linarith
  ultimately show ?thesis by (simp add: isStepAligned_def tolerance_def)
qed

lemma stepped_aligned:
  assumes "ieee fl" and st: "4 / 100 \<le> st" and near: "\<bar>v - m - of_int k * st\<bar> \<le> 1 / 10 ^ 13" and b: "\<bar>v - m\<bar> \<le> 2" "\<bar>k\<bar> \<le> 50"
  shows "isStepAligned fl v m st"
proof -
  obtain d where d: "fl (v - m) = Num d" "\<bar>d - (v - m)\<bar> \<le> 1 / 10 ^ 13" using ieee_near [OF assms(1), of "v - m"] b(1) by force
  have pos: "0 < st" using st by simp
  have "\<bar>d - of_int k * st\<bar> \<le> 2 / 10 ^ 13" using d(2) near by linarith
  moreover have "\<bar>d / st - of_int k\<bar> = \<bar>d - of_int k * st\<bar> / st" using pos by (simp add: field_simps flip: abs_divide) (simp add: abs_divide)
  ultimately have "\<bar>d / st - of_int k\<bar> \<le> 2 / 10 ^ 13 / (4 / 100)" using st pos by (simp only:) (intro frac_le; simp)
  then have q: "\<bar>d / st - of_int k\<bar> \<le> 1 / 10 ^ 11" by simp
  have "\<bar>of_int k :: real\<bar> \<le> 50" using b(2) by linarith
  moreover have "(1::real) / 10 ^ 11 \<le> 1" by simp
  ultimately have "\<bar>d / st\<bar> \<le> 100" using q by linarith
  then obtain y where y: "fl (d / st) = Num y" "\<bar>y - d / st\<bar> \<le> 1 / 10 ^ 13" using ieee_near [OF assms(1)] by blast
  have e: "\<bar>y - of_int k\<bar> \<le> 2 / 10 ^ 11" 
    using y(2) q abs_triangle_ineq [of "y - d / st" "d / st - of_int k"] by simp
  moreover have "(2::real) / 10 ^ 11 \<le> 1 / 4" by simp
  ultimately have "\<bar>y - of_int k\<bar> \<le> 1 / 4" by linarith
  then have "\<lfloor>y + 1 / 2\<rfloor> = k" by linarith
  moreover obtain z where z: "fl (y - of_int k) = Num z" "\<bar>z - (y - of_int k)\<bar> \<le> 1 / 10 ^ 13"
    using ieee_near [OF assms(1), of "y - of_int k"] e by force
  moreover have "\<bar>z\<bar> < tolerance"
  proof -
    have "(1::real) / 10 ^ 13 + 2 / 10 ^ 11 < tolerance" by (simp add: tolerance_def)
    with z(2) e show ?thesis by linarith
  qed
  ultimately show ?thesis using d(1) y(1) by (simp add: isStepAligned_def)
qed

lemma line_height_aligned:
  assumes "ieee fl"
  shows "isStepAligned fl 1 1 five_hundredths" "isStepAligned fl 2 1 five_hundredths" "isStepAligned fl five_hundredths 0 five_hundredths"
    "isStepAligned fl twelve_tenths 1 five_hundredths"
proof -
  have st: "4 / 100 \<le> five_hundredths" by (simp add: five_hundredths_def)
  note al = stepped_aligned [OF assms st]
  show "isStepAligned fl 1 1 five_hundredths" by (rule al [where k = 0]) simp_all
  show "isStepAligned fl 2 1 five_hundredths" by (rule al [where k = 20]) (simp_all add: five_hundredths_def)
  show "isStepAligned fl five_hundredths 0 five_hundredths" by (rule al [where k = 1]) (simp_all add: five_hundredths_def)
  show "isStepAligned fl twelve_tenths 1 five_hundredths" by (rule al [where k = 4]) (simp_all add: five_hundredths_def twelve_tenths_def)
qed

section \<open>A deployment accepts its own defaults\<close>

lemma path_is_shell:
  assumes "nfc_stable (cfg_text E)" and "safeAbsolutePath E s = Some n"
  shows "shell_text (cfg_text E) n = Some n"
proof -
  have n: "n = nfc_form (cfg_text E) s" "take 1 n = [47]" "utf8ByteLength n \<le> 4096" "list_all (safe_character (cfg_text E) False) n"
    using assms(2) by (auto simp: safeAbsolutePath_def Let_def split: if_splits)
  moreover have "nfc_form (cfg_text E) n = n" using assms(1) n(1) by (simp add: nfc_stable_def)
  moreover have "1 \<le> utf8ByteLength n" using n(2) by (cases n) (auto simp: utf8ByteLength_def)
  ultimately show ?thesis by (simp add: shell_text_def safeNormalizedString_def)
qed

lemma shells_accepted:
  assumes "nfc_stable (cfg_text E)" and "shells_ok E shells"
  shows "all_some (map (shell_text (cfg_text E)) shells) = Some shells"
proof -
  have "shell_text (cfg_text E) n = Some n" if "n \<in> set shells" for n
    using assms(2) that path_is_shell [OF assms(1)] by (auto simp: shells_ok_def list_all_iff)
  then show ?thesis by (simp add: all_some_iff)
qed

lemma integer_limit_bounded:
  assumes "ieee fl" and "0 \<le> lo" and "lo \<le> hi" and "hi \<le> mx" and "mx \<le> 1000000"
  shows "boundedLimit fl (of_int lo) (of_int mx) 1 True (integer_limit lo hi)"
proof -
  have "isStepAligned fl (of_int 1) (of_int 0) 1" "isStepAligned fl (of_int lo) (of_int lo) 1" "isStepAligned fl (of_int hi) (of_int lo) 1"
    using assms by (intro integer_aligned; simp)+
  with assms show ?thesis by (simp add: boundedLimit_def numericSettingLimitSchema_def integer_limit_def)
qed

lemma integer_limit_admits:
  assumes "ieee fl" and "0 \<le> lo" and "lo \<le> n" and "n \<le> hi" and "hi \<le> 1000000"
  shows "assertNumeric fl (of_int n) (integer_limit lo hi)"
  using integer_aligned [OF assms(1), of n lo] assms by (simp add: assertNumeric_def integer_limit_def)

lemma deployment_limits:
  assumes "ieee fl" and "config_ok E c"
  shows "workspaceSettingsLimitsSchema fl (limits (workspaceSettingsConstraints c))"
proof -
  have b: "boundedLimit fl 8 32 1 True (integer_limit 8 (c_maxFontSize c))" "boundedLimit fl 0 4 1 True (integer_limit 0 4)"
    "boundedLimit fl 0 100000 1 True (integer_limit 0 (c_maxXtermScrollback c))"
    "boundedLimit fl 0 1000000 1 True (integer_limit 0 (c_maxTmuxHistoryLimit c))"
    "boundedLimit fl 0 8760 1 True (integer_limit 0 (c_maxStaleSessionCleanupHours c))"
    using integer_limit_bounded [OF assms(1), of 8 "c_maxFontSize c" 32] integer_limit_bounded [OF assms(1), of 0 4 4]
      integer_limit_bounded [OF assms(1), of 0 "c_maxXtermScrollback c" 100000] integer_limit_bounded [OF assms(1), of 0 "c_maxTmuxHistoryLimit c" 1000000]
      integer_limit_bounded [OF assms(1), of 0 "c_maxStaleSessionCleanupHours c" 8760] assms(2)
    by (simp_all add: config_ok_def)
  have "boundedLimit fl 1 2 five_hundredths False \<lparr>limit_min = 1, limit_max = 2, limit_step = five_hundredths\<rparr>"
    using line_height_aligned [OF assms(1)] by (simp add: boundedLimit_def numericSettingLimitSchema_def five_hundredths_def)
  with b show ?thesis
    by (simp add: workspaceSettingsLimitsSchema_def workspaceSettingsConstraints_def options_of_def uniqueOptions_def fontFamilySchema_def
        themeSchema_def cursorStyleSchema_def bellBehaviorSchema_def reconnectBehaviorSchema_def workspaceShortcutModeSchema_def)
qed

lemma default_settings_ok:
  assumes "nfc_stable (cfg_text E)" and "ieee fl" and "config_ok E c"
  shows "settings_ok \<lparr>se_text = cfg_text E, se_round = fl\<rparr> (defaultWorkspaceSettings c)"
    and "assertWithinDeployment fl (defaultWorkspaceSettings c) (workspaceSettingsConstraints c)"
proof -
  note c = assms(3) [unfolded config_ok_def]
  have sh: "shell_text (cfg_text E) (c_defaultShell c) = Some (c_defaultShell c)"
    using c path_is_shell [OF assms(1)] by (auto simp: shells_ok_def config_consistent_def list_all_iff)
  have i: "integer_value lo hi (Some (JNum (of_int n))) = Some (of_int n)" if "lo \<le> of_int n" "of_int n \<le> hi" "0 \<le> n" "n \<le> 1000000" for lo hi n
    using that by (simp add: integer_value_def safe_int_def MAX_SAFE_INTEGER_def)
  have m: "8 \<le> min (c_defaultFontSize c) (c_maxFontSize c)" "min (c_defaultFontSize c) (c_maxFontSize c) \<le> 32"
    "0 \<le> min (c_xtermScrollback c) (c_maxXtermScrollback c)" "min (c_xtermScrollback c) (c_maxXtermScrollback c) \<le> 100000"
    "0 \<le> min (c_tmuxHistoryLimit c) (c_maxTmuxHistoryLimit c)" "min (c_tmuxHistoryLimit c) (c_maxTmuxHistoryLimit c) \<le> 1000000"
    using c by auto
  show "settings_ok \<lparr>se_text = cfg_text E, se_round = fl\<rparr> (defaultWorkspaceSettings c)"
    using m sh i [of 0 0 4] i [of 0 0 8760] i [of 8 "min (c_defaultFontSize c) (c_maxFontSize c)" 32]
      i [of 0 "min (c_xtermScrollback c) (c_maxXtermScrollback c)" 100000] i [of 0 "min (c_tmuxHistoryLimit c) (c_maxTmuxHistoryLimit c)" 1000000]
      line_height_aligned(4) [OF assms(2)]
    by (simp add: settings_ok_def defaultWorkspaceSettings_def steppedNumber_def twelve_tenths_def fontFamilySchema_def themeSchema_def
        cursorStyleSchema_def bellBehaviorSchema_def reconnectBehaviorSchema_def workspaceShortcutModeSchema_def)
  show "assertWithinDeployment fl (defaultWorkspaceSettings c) (workspaceSettingsConstraints c)"
    using c integer_limit_admits [OF assms(2), of 8 "min (c_defaultFontSize c) (c_maxFontSize c)" "c_maxFontSize c"]
      integer_limit_admits [OF assms(2), of 0 0 4] integer_limit_admits [OF assms(2), of 0 0 "c_maxStaleSessionCleanupHours c"]
      integer_limit_admits [OF assms(2), of 0 "min (c_xtermScrollback c) (c_maxXtermScrollback c)" "c_maxXtermScrollback c"]
      integer_limit_admits [OF assms(2), of 0 "min (c_tmuxHistoryLimit c) (c_maxTmuxHistoryLimit c)" "c_maxTmuxHistoryLimit c"]
      line_height_aligned(4) [OF assms(2)]
    by (simp add: assertWithinDeployment_def defaultWorkspaceSettings_def workspaceSettingsConstraints_def config_consistent_def)
      (simp add: assertNumeric_def twelve_tenths_def)
qed

text \<open>
  C35. A configuration that is accepted starts: whatever environment and file it was loaded from, the default settings
  derived from it are valid under the limits derived from it, so that a first start finds settings to store, and the
  part for the client is accepted by the client's own schema. This holds with every rounding the platform may do.
\<close>

theorem accepted_config_starts:
  assumes "nfc_stable (cfg_text E)" and "ieee fl" and "loadConfig E env fileValues = Some c"
  shows "parseWorkspaceSettings \<lparr>se_text = cfg_text E, se_round = fl\<rparr> (settings_json (defaultWorkspaceSettings c))
      (Some (workspaceSettingsConstraints c)) = Some (defaultWorkspaceSettings c) \<and>
    toClientConfig E c = Some \<lparr>cc_basePath = c_basePath c, cc_resizeDebounceMs = c_resizeDebounceMs c,
      cc_reconnectMaxSeconds = c_reconnectMaxSeconds c\<rparr>"
proof
  have ok: "config_ok E c" using assms(3) mergedSchema_ok by (auto simp: loadConfig_def split: if_splits)
  let ?S = "\<lparr>se_text = cfg_text E, se_round = fl\<rparr>" and ?d = "defaultWorkspaceSettings c"
  note d = default_settings_ok [OF assms(1,2) ok]
  have "palette_ok (customTerminalPalette ?d)" using midnight_ok by (simp add: defaultWorkspaceSettings_def)
  note schema = schema_accepts [OF d(1) this]
  have n: "normalizeCursorAccent ?d = ?d" by (simp add: normalizeCursorAccent_def defaultWorkspaceSettings_def)
  have "workspaceSettingsConstraintsSchema ?S (workspaceSettingsConstraints c) = Some (workspaceSettingsConstraints c)"
    using deployment_limits [OF assms(2) ok] shells_accepted [OF assms(1), of "c_allowedShells c"] ok
    by (simp add: workspaceSettingsConstraintsSchema_def config_ok_def) (simp add: workspaceSettingsConstraints_def shells_ok_def uniqueOptions_def)
  with schema n d(2) show "parseWorkspaceSettings ?S (settings_json ?d) (Some (workspaceSettingsConstraints c)) = Some ?d"
    by (simp add: parseWorkspaceSettings_def settings_not_legacy)
  show "toClientConfig E c = Some \<lparr>cc_basePath = c_basePath c, cc_resizeDebounceMs = c_resizeDebounceMs c,
      cc_reconnectMaxSeconds = c_reconnectMaxSeconds c\<rparr>"
    using ok normalizeBasePath_again [of E _ "c_basePath c"] by (auto simp: toClientConfig_def parseClientConfig_def config_ok_def)
qed

section \<open>Witnesses\<close>

text \<open>An empty environment without a file, and exact arithmetic.\<close>

definition localhost_url :: HostURL where
  "localhost_url = \<lparr>protocol = ''http:'', username = [], password = [], pathname = ''/'', search = [], hash = [],
     origin = ''http://localhost:3000'', port = ''3000'', hostname = ''localhost''\<rparr>"

definition example_config_env :: "unit config_env" where
  "example_config_env = \<lparr>cfg_text = \<lparr>format_control = (\<lambda>_. False), nfc_form = (\<lambda>s. s), utc_timestamp = (\<lambda>_. True)\<rparr>, cfg_lower = (\<lambda>s. s),
     cfg_url = (\<lambda>_. Some localhost_url), cfg_base_url = (\<lambda>_. None), ip_parse = (\<lambda>_. None), ip_parseCIDR = (\<lambda>_. None), ip_v6 = (\<lambda>_. False),
     ip_mapped = (\<lambda>_. False), ip_toIPv4 = (\<lambda>a. a), ip_text = (\<lambda>_. []), ip_network = (\<lambda>_ _. None), proxy_compiles = (\<lambda>_. True)\<rparr>"

lemma example_paths: "safeAbsolutePath example_config_env (text_of s) = Some (text_of s)"
  if "s \<in> {''/bin/bash'', ''/home/webterm'', ''/app/data''}"
  using that
  by (auto simp: safeAbsolutePath_def example_config_env_def text_of_def utf8ByteLength_def safe_character_def forbiddenCharacter_def)

lemma example_loaded: "\<exists>c. loadConfig example_config_env (\<lambda>_. None) [] = Some c \<and> c_defaultFontSize c = 14 \<and> c_basePath c = [47]"
proof -
  let ?E = example_config_env
  have u: "originSchema ?E [''http:'', ''https:''] (Some (JStr (text_of ''http://localhost:3000''))) = Some localhost_url"
    by (simp add: originSchema_def example_config_env_def localhost_url_def)
  have l: "localUsernameSchema ?E (Some (JStr (text_of ''webterm''))) = Some (text_of ''webterm'')"
    by (simp add: localUsernameSchema_def example_config_env_def usernamePattern_def text_of_def alnum_point_def)
  have h: "httpTokenPattern (text_of ''X-Auth-User'')" "length_units (text_of ''0.0.0.0'') = 7" "length (text_of ''X-Auth-User'') = 11"
    by (simp_all add: httpTokenPattern_def text_of_def alnum_point_def length_units_def point_units_def)
  have s: "js_trim (text_of ''/bin/bash'') = text_of ''/bin/bash''" by (simp add: js_trim_def text_of_def white_space_def)
  have b: "normalizeBasePath ?E [47] = Some [47]" by (simp add: normalizeBasePath_def)
  have e: "enum_value logLevels (Some (JStr (text_of ''info''))) = Some ''info''" "enum_value authModes (Some (JStr (text_of ''local''))) = Some ''local''"
    by (simp_all add: enum_value_text logLevels_def authModes_def)
  have f: "fileValuesSchema []" by (simp add: fileValuesSchema_def strict_fields_def field_def fileValuesSchema_keys_def)
  have url: "cfg_url ?E v = Some localhost_url" for v by (simp add: example_config_env_def)
  show ?thesis
    using u l h s b e f example_paths
    by (simp add: whole_number_def safe_int_def MAX_SAFE_INTEGER_def loadConfig_def mergedSchema_def pick_def field_def integerInput_def clampedIntegerInput_def optional_value_def text_value_def
        basePathSchema_def safeAbsolutePathSchema_def trustProxySchema_def allowedShellsSchema_def json_strings_def url config_consistent_def
        MIN_RESIZE_DEBOUNCE_MS_def MAX_RESIZE_DEBOUNCE_MS_def MIN_RECONNECT_SECONDS_def MAX_RECONNECT_SECONDS_def)
qed

theorem accepted_config_starts_witness:
  "\<exists>c. loadConfig example_config_env (\<lambda>_. None) [] = Some c \<and>
     parseWorkspaceSettings \<lparr>se_text = cfg_text example_config_env, se_round = Num\<rparr> (settings_json (defaultWorkspaceSettings c))
       (Some (workspaceSettingsConstraints c)) = Some (defaultWorkspaceSettings c) \<and> fontSize (defaultWorkspaceSettings c) \<le> 14 \<and>
     map_option cc_basePath (toClientConfig example_config_env c) = Some [47]"
proof -
  obtain c where c: "loadConfig example_config_env (\<lambda>_. None) [] = Some c" "c_defaultFontSize c = 14" "c_basePath c = [47]"
    using example_loaded by blast
  have n: "nfc_stable (cfg_text example_config_env)" by (simp add: nfc_stable_def example_config_env_def)
  have r: "ieee Num" by (simp add: ieee_def)
  from accepted_config_starts [OF n r c(1)] c show ?thesis by (simp add: defaultWorkspaceSettings_def)
qed

end
