(* ===== verification/Spec2Isabelle.thy ===== *)
theory Spec2Isabelle
  imports RateLimiter Origin ActivityTracker WebSocketAuthIndex AuthService TabStore SessionProperties
    StaleCleanup TerminalWebSocket UpstreamProviders CredentialStore SettingsStore Config
begin

text \<open>
  A verification of FlanTerminal, a browser terminal whose tabs are backed by tmux sessions. The program is a
  TypeScript monorepo: a Node server (\<open>src/apps/server/src\<close>), the code it shares with the browser
  (\<open>src/packages/shared/src\<close>) and a React client (\<open>src/apps/client/src\<close>). This development models the server's
  core and the shared protocol.

  \<^bold>\<open>The program.\<close> A browser authenticates over HTTP and then opens one WebSocket per tab. An upgrade request is
  admitted by its origin and path and by the session cookie; the endpoint then asks the session manager for an
  attach token and, once the socket is open, for a terminal bridge between the socket and a PTY attached to the
  tab's tmux session. Tabs are persisted in a JSON document, sessions of the application live in memory,
  credentials and settings live in private JSON files. Activity of a tab is recorded so that a periodic cleaner can
  end sessions nobody uses.

  \<^bold>\<open>Shared theories.\<close>
  \<^item> \<open>Prelude\<close>: JavaScript numbers (\<open>jsnum\<close>), insertion-ordered maps (\<open>jsmap\<close>), the exception-and-state monad \<open>em\<close>
    with invariants (\<open>preserves\<close>) and pre- and postconditions (\<open>triple\<close>).
  \<^item> \<open>Frames\<close>: the locale \<open>frame_relation\<close>, an invariant with a relation between the states before and after, closed
    under the constructs of the monad. \<open>Generations\<close>: the locale \<open>generation_source\<close>, the contract of a change
    counter that clients compare across an asynchronous gap. Both are interpreted wherever the code has such a
    structure.
  \<^item> \<open>Utf8\<close>, \<open>Json\<close>: the encoders and parsers of the platform with their round trips; \<open>SessionId\<close>, \<open>TabDocument\<close>,
    \<open>DocumentCodec\<close>: identifiers, validated text and the persisted document.

  \<^bold>\<open>Components\<close>, each a theory with its state, its operations and its properties.
  \<^item> \<open>RateLimiter\<close> (\<open>rate-limiter.ts\<close>): login attempts are bounded by capacity and refill, computed in
    doubles, up to an explicit rounding error.
  \<^item> \<open>Csrf\<close> (\<open>csrf-service.ts\<close>), \<open>Origin\<close> (\<open>origin.ts\<close>): tokens, and the admission test of an upgrade.
  \<^item> \<open>AuthService\<close> (\<open>auth-service.ts\<close>): both session maps agree in every reachable state; sessions need a proof of
    identity; cookies authenticate unexpired sessions only, and do so while the session lasts; revoked authorities
    stay revoked; a committed password change ends every session.
  \<^item> \<open>Headers\<close>, \<open>AuthMiddleware\<close> (\<open>auth-middleware.ts\<close>): the guards of requests, with the cookie reader shown equal
    to a specification. \<open>UpstreamProviders\<close> (\<open>cloudflare-access.ts\<close>, \<open>trusted-header-auth.ts\<close>).
  \<^item> \<open>WebSocketAuthIndex\<close> (\<open>websocket-auth-index.ts\<close>): which sockets belong to which session.
  \<^item> \<open>TabStore\<close> (\<open>tab-store.ts\<close>): memory and disk agree under every behaviour of the file system.
  \<^item> \<open>Tmux\<close> (\<open>tmux.ts\<close>), \<open>BridgeRegistry\<close> (\<open>bridge-registry.ts\<close>), \<open>SessionManager\<close> (\<open>session-manager.ts\<close>) with
    \<open>SessionManagerProofs\<close>, \<open>SessionLifecycle\<close> and \<open>SessionProperties\<close>: the lifecycle of sessions. The manager is
    proved against the contracts \<open>session_tab_store\<close>, \<open>session_runtime\<close> and \<open>session_backend\<close>, which the models of the
    store, the tmux preparer and the registry discharge.
  \<^item> \<open>ActivityTracker\<close> (\<open>activity-tracker.ts\<close>), \<open>CleanupEligibility\<close> (\<open>cleanup-eligibility.ts\<close>),
    \<open>StaleSessionCleaner\<close> (\<open>stale-session-cleaner.ts\<close>) and their composition \<open>StaleCleanup\<close>: a session is ended only
    when it was idle throughout.
  \<^item> \<open>Protocol\<close> (\<open>protocol.ts\<close>), \<open>TerminalBridge\<close> (\<open>terminal-bridge.ts\<close>), \<open>TerminalWebSocket\<close> (\<open>websocket.ts\<close>): what
    moves between socket and PTY, and the endpoint that puts the parts together.
  \<^item> \<open>JsonPreflight\<close>, \<open>SecureJsonFile\<close> (\<open>secure-json-file.ts\<close>): private JSON files, which refine a register; the
    serialiser ends on every object graph and equals a recursive reference. \<open>JsonRegister\<close>: the contract
    \<open>json_register\<close> that the clients of such a file rely on, interpreted on the private files.
  \<^item> \<open>CredentialStore\<close> (\<open>credential-store.ts\<close>): the record in memory is the one in the file, so it survives a restart;
    a stored password verifies and bcrypt decides every other one. Proved in the locale \<open>credential_file\<close> over \<open>json_register\<close> and interpreted on the
    private files.
  \<^item> \<open>Settings\<close> (\<open>settings.ts\<close>): the schemas and parsers of settings documents and deployment limits; what was accepted
    is accepted again, unchanged. \<open>SettingsStore\<close> (\<open>settings-store.ts\<close>): the settings survive a restart, by the locale
    \<open>settings_register\<close> over \<open>json_register\<close>, interpreted on the private files. At the end of this theory, the provider of
    runtime settings (\<open>session-runtime-settings.ts\<close>): stored settings pass the validation of the session manager.
  \<^item> \<open>Config\<close> (\<open>config.ts\<close>, \<open>config-file.ts\<close>, \<open>base-path.ts\<close>, \<open>client-config.ts\<close> and the settings derived in \<open>index.ts\<close>): a
    configuration that is accepted starts, since its default settings are valid under its own limits, for every
    rounding that IEEE 754 allows.

  \<^bold>\<open>How state and effects correspond.\<close> A class is a record of its private fields, a method a function from the record
  to its result and the new record, usually in the monad \<open>em\<close>; every \<open>throw\<close> is a value of the error type. An
  asynchronous method is split at the awaits that other operations can run in; a promise queue that runs one
  operation at a time is represented by running the operations one after the other, in any order. Event sources
  (timers, sockets, PTY, file system) are scripts or parameters, and the properties hold for all of them. Loops are
  recursive functions with termination proofs; the only fuel is that of the JSON parser, twice the length of the input, which
  \<open>fuel_enough\<close> shows to be sufficient.

  \<^bold>\<open>Parameters and hypotheses.\<close> Third-party code is a parameter: \<open>zod\<close>'s timestamp test and the Unicode tables
  (\<open>text_env\<close>), the URL parser, \<open>jose\<close>, \<open>ipaddr.js\<close>, \<open>proxy-addr\<close> (\<open>proxy_documented\<close>), the \<open>ws\<close> library, the tmux
  program (the documented effect of its commands, where a target names a session exactly or else by the start of its
  name), bcrypt (\<open>hash_matches\<close>), the rounding to doubles (\<open>ieee\<close>, \<open>rounding\<close>) and the printing
  of numbers (\<open>platform_ok\<close>), the hash of tokens and the random source, whose results the properties assume fresh where
  the code relies on it. Every property with a hypothesis has a witness that instantiates the parameters.
  The server passes session names to tmux without the exact-match prefix, so what it learns of a tab, and which
  session it kills, is that tab's own only while no other session name extends one of its tabs' names. The
  properties that depend on it say so (\<open>names_apart\<close>), and \<open>longer_name_taken_for_tab\<close> shows what happens otherwise.
  A scheduler that throws leaves the cleaner without a timer until the next manual run, which \<open>cleaner_progress\<close> states.

  \<^bold>\<open>Not modelled.\<close> The wiring of the express application (\<open>index.ts\<close>, \<open>app.ts\<close>, the \<open>*-routes.ts\<close>), logging
  (\<open>logger.ts\<close>), the statistics of the administration view (\<open>admin-service.ts\<close>) and \<open>pty.ts\<close> are glue around process,
  environment and native modules. The React client depends on the browser and the rendering library. The response
  parser of \<open>settings.ts\<close> is used by the client only.
\<close>

section \<open>Settings in use\<close>

text \<open>
  \<open>StoredSessionRuntimeSettingsProvider.current\<close> of \<open>session-runtime-settings.ts\<close>, which hands the stored settings to the
  session manager; \<open>verified\<close> are the shells found executable at start-up.
\<close>

definition runtime_current :: "'w settings_store_env \<Rightarrow> utext list \<Rightarrow> 'w SettingsStore \<Rightarrow> SessionRuntimeSettings option" where
  "runtime_current E verified s =
     Option.bind (ss_current s) (\<lambda>snapshot.
     Option.bind (parseWorkspaceSettings (st_settings E) (settings_json snapshot) (Some (st_constraints E))) (\<lambda>settings.
     if defaultShell settings \<notin> set verified then None
     else Some \<lparr>shell = defaultShell settings, historyLimit = Num (tmuxHistoryLimit settings)\<rparr>))"

lemma settings_run_valid:
  assumes "nfc_stable (se_text E)" and "settings_ok E st"
  shows "isValidRuntimeSettings (se_text E) \<lparr>shell = defaultShell st, historyLimit = Num (tmuxHistoryLimit st)\<rparr>"
  using assms
  by (auto simp: settings_ok_def isValidRuntimeSettings_def shell_text_def safeNormalizedString_def integer_value_def Let_def
      safe_character_def list_all_iff list_ex_iff split: option.splits if_splits)

text \<open>
  C34. Stored settings always start sessions: after any calls of the settings store, whatever the file system answered,
  the runtime settings made of the stored ones are what was stored, and pass the session manager's own validation,
  provided the shell was found at start-up.
\<close>

theorem stored_settings_start_sessions:
  assumes "settings_disk_ok F path E d" and "list_all (proper_call (doubles (se_round (st_settings E)))) cs"
    and "run_settings (private_settings_env F path E) cs (new_settings d) = s" and "ss_current s = Some st"
    and "defaultShell st \<in> set verified"
  shows "\<exists>r. runtime_current (private_settings_env F path E) verified s = Some r \<and> shell r = defaultShell st \<and>
    historyLimit r = Num (tmuxHistoryLimit st) \<and> isValidRuntimeSettings (se_text (st_settings E)) r"
proof -
  note sound = settings_run_sound [OF assms(1-3)]
  have n: "nfc_stable (se_text (st_settings E))" using sound by (simp add: settings_disk_ok_def platform_ok_def)
  obtain v where v: "parseWorkspaceSettings (st_settings E) v (Some (st_constraints E)) = Some st"
    using sound assms(4) by (auto simp: file_settled_def parse_settings_def private_settings_env_def)
  show ?thesis
    using parse_again [OF n v] settings_run_valid [OF n parse_settings_ok(1) [OF n v]] assms(4,5)
    by (simp add: runtime_current_def private_settings_env_def)
qed

theorem stored_settings_start_sessions_witness:
  "\<exists>s r. run_settings (private_settings_env example_service ''/d/f'' settings_example) [SInitialize] (new_settings example_settings_disk) = s \<and>
     runtime_current (private_settings_env example_service ''/d/f'' settings_example) [text_of ''/bin/sh''] s = Some r \<and>
     shell r = text_of ''/bin/sh'' \<and> historyLimit r = Num 2000 \<and> isValidRuntimeSettings example_texts_env r"
proof -
  obtain s where s: "run_settings (private_settings_env example_service ''/d/f'' settings_example) [SInitialize] (new_settings example_settings_disk) = s"
    "ss_current s = Some example_settings"
    using example_started_settings settings_private by auto
  have c: "list_all (proper_call (doubles (se_round (st_settings settings_example)))) [SInitialize]" by (simp add: proper_call_def)
  have sh: "defaultShell example_settings \<in> set [text_of ''/bin/sh'']" by (simp add: example_settings_def)
  have "se_text (st_settings settings_example) = example_texts_env" by (simp add: settings_example_def)
  with stored_settings_start_sessions [OF example_settings_ok c s sh] s(1) show ?thesis by (auto simp: example_settings_def)
qed

end
